(* ===== verification/Xv6_Prelude.thy ===== *)
theory Xv6_Prelude
  imports Main "HOL-Library.Word"
begin

section \<open>Shared types, the error monad and generic lemmas\<close>

text \<open>
  This theory holds what every component of the development uses: the names of the
  machine integers of \<^verbatim>\<open>types.h\<close>, sequencing of fallible operations (a kernel operation
  returns \<open>Inl\<close> of the way it failed or \<open>Inr\<close> of its result), folds of such operations,
  and list and word lemmas that are not in the library.
\<close>

unbundle bit_operations_syntax

type_synonym uchar = "8 word"
type_synonym ushort = "16 word"
type_synonym uint = "32 word"

named_theorems kstate_simps \<open>how an operation changes each field of the kernel state\<close>
named_theorems result_simps \<open>inversion of a sequence of fallible operations\<close>

subsection \<open>Sequencing fallible operations\<close>

definition rbind :: "'e + 'a \<Rightarrow> ('a \<Rightarrow> 'e + 'b) \<Rightarrow> 'e + 'b" where
  "rbind r f = (case r of Inl e \<Rightarrow> Inl e | Inr x \<Rightarrow> f x)"

lemma rbind_Inl [simp]: "rbind (Inl e) f = Inl e"
  by (simp add: rbind_def)

lemma rbind_Inr [simp]: "rbind (Inr x) f = f x"
  by (simp add: rbind_def)

lemma rbind_eq_Inr [result_simps]: "rbind r f = Inr y \<longleftrightarrow> (\<exists>x. r = Inr x \<and> f x = Inr y)"
  by (cases r) auto

lemma rbind_InrE [elim]:
  assumes "rbind r f = Inr y"
  obtains x where "r = Inr x" "f x = Inr y"
  using assms by (auto simp: rbind_eq_Inr)

lemma rbind_assoc: "rbind (rbind r f) g = rbind r (\<lambda>x. rbind (f x) g)"
  by (cases r) auto

lemma rbind_cong [fundef_cong]:
  "r = r' \<Longrightarrow> (\<And>x. r' = Inr x \<Longrightarrow> f x = g x) \<Longrightarrow> rbind r f = rbind r' g"
  by (cases r') auto

text \<open>A loop over a known list of items, stopped by the first failure.\<close>

fun rfold :: "('a \<Rightarrow> 's \<Rightarrow> 'e + 's) \<Rightarrow> 'a list \<Rightarrow> 's \<Rightarrow> 'e + 's" where
  "rfold f [] s = Inr s"
| "rfold f (x # xs) s = rbind (f x s) (rfold f xs)"

lemma rfold_append: "rfold f (xs @ ys) s = rbind (rfold f xs s) (rfold f ys)"
proof (induction xs arbitrary: s)
  case (Cons x xs)
  have "rfold f (xs @ ys) = (\<lambda>s. rbind (rfold f xs s) (rfold f ys))"
    using Cons.IH by blast
  then show ?case by (simp add: rbind_assoc)
qed simp

text \<open>An invariant that every step keeps, and under which no step fails, holds at the end.\<close>

lemma rfold_invariant:
  assumes "P s"
    and step: "\<And>x s. x \<in> set xs \<Longrightarrow> P s \<Longrightarrow> \<exists>s'. f x s = Inr s' \<and> P s'"
  shows "\<exists>s'. rfold f xs s = Inr s' \<and> P s'"
  using assms
proof (induction xs arbitrary: s)
  case Nil
  then show ?case by simp
next
  case (Cons x xs)
  from Cons.prems(1) Cons.prems(2)[of x s] obtain s1 where s1: "f x s = Inr s1" "P s1" by auto
  have "\<exists>s'. rfold f xs s1 = Inr s' \<and> P s'"
    by (rule Cons.IH [OF s1(2)]) (use Cons.prems(2) in auto)
  with s1 show ?case by simp
qed

subsection \<open>Lists\<close>

lemma butlast_snoc_last: "xs \<noteq> [] \<Longrightarrow> butlast xs @ [last xs] = xs"
  by simp

lemma distinct_append_iff:
  "distinct (xs @ y # ys) \<longleftrightarrow> distinct xs \<and> distinct ys \<and> y \<notin> set xs \<and> y \<notin> set ys
     \<and> set xs \<inter> set ys = {}"
  by auto

lemma remove1_split: "x \<notin> set xs \<Longrightarrow> remove1 x (xs @ x # ys) = xs @ ys"
  by (simp add: remove1_append)

lemma last_remove1:
  assumes "distinct xs" "x \<in> set xs" "remove1 x xs \<noteq> []" "x \<noteq> last xs"
  shows "last (remove1 x xs) = last xs"
proof -
  from assms(2) obtain ys zs where xs: "xs = ys @ x # zs" and y: "x \<notin> set ys"
    by (meson split_list_first)
  with assms(4) have "zs \<noteq> []" by auto
  with xs y show ?thesis by (simp add: remove1_split)
qed

subsection \<open>Linked lists\<close>

text \<open>The list of the nodes that the links lead through from \<open>h\<close> until they reach \<open>e\<close>.\<close>

fun path :: "(nat \<Rightarrow> nat) \<Rightarrow> nat \<Rightarrow> nat list \<Rightarrow> nat \<Rightarrow> bool" where
  "path nx h [] e = (nx h = e)"
| "path nx h (x # xs) e = (nx h = x \<and> path nx x xs e)"

lemma path_append [simp]: "path nx h (xs @ y # ys) e \<longleftrightarrow> path nx h xs y \<and> path nx y ys e"
  by (induction xs arbitrary: h) auto

lemma path_cong:
  "(\<And>x. x = h \<or> x \<in> set xs \<Longrightarrow> nx' x = nx x) \<Longrightarrow> path nx' h xs e = path nx h xs e"
  by (induction xs arbitrary: h) auto

lemma path_upd [simp]: "a \<noteq> h \<Longrightarrow> a \<notin> set xs \<Longrightarrow> path (nx(a := v)) h xs e = path nx h xs e"
  by (rule path_cong) auto

text \<open>An element cut out of a path, and one put in at its front.\<close>

lemma path_skip:
  "path nx h (ys @ b # zs) e \<Longrightarrow> distinct (h # ys @ b # zs) \<Longrightarrow>
   path (nx(last (h # ys) := nx b)) h (ys @ zs) e"
proof (induction ys arbitrary: h)
  case Nil
  show ?case
  proof (cases zs)
    case (Cons z zs')
    with Nil have "path (nx(h := nx b)) z zs' e" by (subst path_upd) simp_all
    with Nil Cons have "path (nx(h := nx b)) h (z # zs') e" by (simp del: path_upd)
    with Cons show ?thesis by (simp only: append_Nil last_ConsL)
  qed (use Nil in simp)
next
  case (Cons y ys)
  have "last (y # ys) \<in> set (y # ys)" by (rule last_in_set) simp
  then have "last (y # ys) \<noteq> h" using Cons.prems(2) by auto
  with Cons show ?case by simp
qed

lemma path_front:
  assumes "path nx h ws e" "b \<notin> set ws" "h \<notin> set ws" "b \<noteq> h"
  shows "path (nx(b := nx h, h := b)) h (b # ws) e"
  using assms by (cases ws) auto

lemma path_first: "path nx h xs e \<Longrightarrow> nx h = hd (xs @ [e])"
  by (cases xs) auto

subsection \<open>Words\<close>

lemma sint_of_int32: "- (2 ^ 31) \<le> k \<Longrightarrow> k < 2 ^ 31 \<Longrightarrow> sint (word_of_int k :: uint) = k"
  by (simp add: sint_sbintrunc' signed_take_bit_int_eq_self)

end
