(* ===== verification/Xv6_State.thy ===== *)
theory Xv6_State
  imports Xv6_Prelude
begin

section \<open>The kernel's data: constants, structures and global variables\<close>

text \<open>
  The structures of the header files as records, the global variables of the kernel as
  the fields of one record \<open>kernel\<close>, and the ways an operation can fail.

  Pointers to elements of a static array (\<^verbatim>\<open>struct proc *\<close>, \<^verbatim>\<open>struct cpu *\<close>) are
  indices, with \<open>None\<close> for the null pointer; pointers to pages are 32-bit addresses.
  A wait channel is the address of the object slept on: a constructor of \<open>chan\<close> per kind
  of object. The addresses \<^verbatim>\<open>&ptable.pLists.x, &ptable.pLists.xTail\<close>, which the code
  always passes as a pair, are one \<open>listid\<close>. A saved \<^verbatim>\<open>struct context\<close> is the point
  at which \<^verbatim>\<open>swtch\<close> resumes a process: \<^verbatim>\<open>forkret\<close>, or the return from \<^verbatim>\<open>sched\<close>
  into one of its three callers, with the local variable \<^verbatim>\<open>intena\<close> of that frame.
  The debugging field \<^verbatim>\<open>pcs\<close> of a spin lock is left out.
\<close>

subsection \<open>param.h\<close>

definition NPROC :: nat where "NPROC = 64"
definition NOFILE :: nat where "NOFILE = 16"
definition MAXPRIO :: nat where "MAXPRIO = 6"
definition TICKS_TO_PROMOTE :: uint where "TICKS_TO_PROMOTE = 800"
definition MAX_BUDGET :: int where "MAX_BUDGET = 200"
definition KSTACKSIZE :: uint where "KSTACKSIZE = 4096"
definition NFILE :: nat where "NFILE = 100"
definition NINODE :: nat where "NINODE = 50"
definition MAXOPBLOCKS :: int where "MAXOPBLOCKS = 10"
definition LOGSIZE :: int where "LOGSIZE = MAXOPBLOCKS * 3"
definition NBUF :: nat where "NBUF = 30"
definition FSSIZE :: uint where "FSSIZE = 2000"

subsection \<open>Failures\<close>

datatype chan =
    ChanProc nat | ChanTicks | ChanBuf nat | ChanLog | ChanInode nat
  | ChanPipeRead uint | ChanPipeWrite uint | ChanInput

datatype kerror =
    Panic string    \<comment> \<open>the kernel calls \<^verbatim>\<open>panic\<close>\<close>
  | NullDeref       \<comment> \<open>a null pointer is dereferenced\<close>
  | OutOfBounds     \<comment> \<open>an array is indexed outside its bounds\<close>
  | Spins           \<comment> \<open>\<^verbatim>\<open>acquire\<close> spins on a lock that another CPU holds\<close>
  | Diverges        \<comment> \<open>a pointer loop does not end\<close>
  | Blocks chan     \<comment> \<open>the operation goes to sleep and starts again when woken\<close>

type_synonym 'a result = "kerror + 'a"

subsection \<open>spinlock.h, proc.h\<close>

datatype lockid =
    PtableLock | KmemLock | FtableLock | IcacheLock | BcacheLock | LogLock | IdeLock
  | ConsLock | PipeLock uint

record spinlock =
  lk_locked :: uint
  lk_name :: string
  lk_cpu :: "nat option"

record cpu =
  cpu_id :: uchar
  cpu_ncli :: int
  cpu_intena :: bool
  cpu_IF :: bool
  cpu_proc :: "nat option"

datatype procstate = UNUSED | EMBRYO | SLEEPING | RUNNABLE | RUNNING | ZOMBIE

datatype schedcaller = InYield | InSleep "lockid option" | InExit

datatype kcontext = CtxForkret | CtxSched bool schedcaller | CtxNone

record trapframe =
  tf_eax :: uint
  tf_esp :: uint
  tf_eip :: uint
  tf_cs :: uint
  tf_ds :: uint
  tf_es :: uint
  tf_ss :: uint
  tf_eflags :: uint

record proc =
  p_sz :: uint
  p_pgdir :: uint
  p_kstack :: uint
  p_state :: procstate
  p_pid :: uint
  p_parent :: "nat option"
  p_tf :: trapframe
  p_context :: kcontext
  p_chan :: "chan option"
  p_killed :: bool
  p_ofile :: "nat \<Rightarrow> nat option"
  p_cwd :: "nat option"
  p_name :: "uchar list"
  p_start_ticks :: uint
  p_gid :: uint
  p_uid :: uint
  p_cpu_ticks_total :: uint
  p_cpu_ticks_in :: uint
  p_next :: "nat option"
  p_priority :: uint
  p_budget :: int

text \<open>The heads and tails of \<^verbatim>\<open>struct StateLists\<close>.\<close>

datatype listid = LReady nat | LFree | LSleep | LZombie | LRunning | LEmbryo

subsection \<open>buf.h, fs.h, file.h, pipe.c, log.c, console.c\<close>

text \<open>
  A disk block or the data of a buffer is a function from byte offsets. The three bits of
  \<^verbatim>\<open>buf.flags\<close> and the two of \<^verbatim>\<open>inode.flags\<close> are fields of their own. A pointer to a
  buffer is its index, and index \<open>NBUF\<close> is the list header \<^verbatim>\<open>bcache.head\<close>. A pipe is found
  by the address of the page that holds it.
\<close>

definition BSIZE :: nat where "BSIZE = 512"

type_synonym block = "nat \<Rightarrow> uchar"

record buf =
  b_busy :: bool
  b_valid :: bool
  b_dirty :: bool
  b_dev :: uint
  b_blockno :: uint
  b_prev :: nat
  b_next :: nat
  b_qnext :: "nat option"
  b_data :: block

record superblock =
  sb_size :: uint
  sb_nblocks :: uint
  sb_ninodes :: uint
  sb_nlog :: uint
  sb_logstart :: uint
  sb_inodestart :: uint
  sb_bmapstart :: uint

record inode =
  i_dev :: uint
  i_inum :: uint
  i_ref :: int
  i_busy :: bool
  i_valid :: bool
  i_type :: ushort
  i_major :: ushort
  i_minor :: ushort
  i_nlink :: ushort
  i_uid :: ushort
  i_gid :: ushort
  i_mode :: uint
  i_size :: uint
  i_addrs :: "nat \<Rightarrow> uint"

datatype filetype = FD_NONE | FD_PIPE | FD_INODE

record kfile =
  f_type :: filetype
  f_ref :: int
  f_readable :: bool
  f_writable :: bool
  f_pipe :: uint
  f_ip :: "nat option"
  f_off :: uint

record pipe =
  pi_data :: "nat \<Rightarrow> uchar"
  pi_nread :: uint
  pi_nwrite :: uint
  pi_readopen :: bool
  pi_writeopen :: bool

record logheader =
  lh_n :: int
  lh_block :: "nat \<Rightarrow> int"

record log =
  lg_start :: int
  lg_size :: int
  lg_outstanding :: int
  lg_committing :: bool
  lg_dev :: uint
  lg_lh :: logheader

record inputbuf =
  in_buf :: "nat \<Rightarrow> uchar"
  in_r :: uint
  in_w :: uint
  in_e :: uint

subsection \<open>The global variables\<close>

record kernel =
  locks :: "lockid \<Rightarrow> spinlock"
  cpus :: "nat \<Rightarrow> cpu"
  cpuno :: nat                        \<comment> \<open>the CPU that executes: \<^verbatim>\<open>%gs:0\<close>\<close>
  procs :: "nat \<Rightarrow> proc"
  heads :: "listid \<Rightarrow> nat option"
  tails :: "listid \<Rightarrow> nat option"
  PromoteAtTime :: uint
  initproc :: "nat option"
  nextpid :: uint
  ticks :: uint
  mem :: "uint \<Rightarrow> uchar"
  freelist :: uint
  use_lock :: bool
  kend :: uint                        \<comment> \<open>the linker's symbol \<^verbatim>\<open>end\<close>\<close>
  files :: "nat \<Rightarrow> kfile"
  pipes :: "uint \<Rightarrow> pipe"
  inodes :: "nat \<Rightarrow> inode"
  bufs :: "nat \<Rightarrow> buf"
  klog :: log
  sb :: superblock
  disk :: "nat \<Rightarrow> block"
  disksize :: uint
  input :: inputbuf
  consout :: "uchar list"             \<comment> \<open>the bytes sent to the serial port, newest last\<close>
  cons_locking :: bool
  panicked :: bool
  kdata :: uint                       \<comment> \<open>the linker's symbol \<^verbatim>\<open>data\<close>\<close>
  kpgdir :: uint
  forkret_first :: bool               \<comment> \<open>the static variable \<^verbatim>\<open>first\<close> of \<^verbatim>\<open>forkret\<close>\<close>
  dtrace :: "(nat \<times> block) list"      \<comment> \<open>history: the block writes the disk has done, newest last\<close>
  crt_pos :: nat                      \<comment> \<open>the cursor registers 14 and 15 of the screen controller\<close>
  crt :: "nat \<Rightarrow> ushort"              \<comment> \<open>the screen memory\<close>
  uart :: bool
  idequeue :: "nat option"
  havedisk1 :: bool
  ide_cmd :: "(uint \<times> uint \<times> block option) option"  \<comment> \<open>the command given to the disk: the drive, the sector, the data of a write\<close>
  devsw :: "nat \<Rightarrow> bool"              \<comment> \<open>the entries that hold the console's functions\<close>
  kbd_shift :: uint                   \<comment> \<open>the static variable \<^verbatim>\<open>shift\<close> of \<^verbatim>\<open>kbdgetc\<close>\<close>

text \<open>The per-CPU variables \<^verbatim>\<open>cpu\<close> and \<^verbatim>\<open>proc\<close>.\<close>

definition cpu_of :: "kernel \<Rightarrow> cpu" where
  "cpu_of s = cpus s (cpuno s)"

definition proc_of :: "kernel \<Rightarrow> nat option" where
  "proc_of s = cpu_proc (cpus s (cpuno s))"

definition upd_cpu :: "(cpu \<Rightarrow> cpu) \<Rightarrow> kernel \<Rightarrow> kernel" where
  "upd_cpu f s = s\<lparr>cpus := (cpus s)(cpuno s := f (cpus s (cpuno s)))\<rparr>"

definition upd_proc :: "nat \<Rightarrow> (proc \<Rightarrow> proc) \<Rightarrow> kernel \<Rightarrow> kernel" where
  "upd_proc p f s = s\<lparr>procs := (procs s)(p := f (procs s p))\<rparr>"

lemma upd_cpu_simps [simp]:
  "locks (upd_cpu f s) = locks s" "cpuno (upd_cpu f s) = cpuno s" "procs (upd_cpu f s) = procs s"
  "heads (upd_cpu f s) = heads s" "tails (upd_cpu f s) = tails s"
  "PromoteAtTime (upd_cpu f s) = PromoteAtTime s" "initproc (upd_cpu f s) = initproc s"
  "nextpid (upd_cpu f s) = nextpid s" "ticks (upd_cpu f s) = ticks s" "mem (upd_cpu f s) = mem s"
  "freelist (upd_cpu f s) = freelist s" "use_lock (upd_cpu f s) = use_lock s"
  "kend (upd_cpu f s) = kend s"
  "files (upd_cpu f s) = files s" "pipes (upd_cpu f s) = pipes s" "inodes (upd_cpu f s) = inodes s"
  "bufs (upd_cpu f s) = bufs s" "klog (upd_cpu f s) = klog s" "sb (upd_cpu f s) = sb s"
  "disk (upd_cpu f s) = disk s" "disksize (upd_cpu f s) = disksize s" "input (upd_cpu f s) = input s"
  "consout (upd_cpu f s) = consout s" "cons_locking (upd_cpu f s) = cons_locking s" "panicked (upd_cpu f s) = panicked s"
  "kdata (upd_cpu f s) = kdata s" "kpgdir (upd_cpu f s) = kpgdir s" "forkret_first (upd_cpu f s) = forkret_first s"
  "dtrace (upd_cpu f s) = dtrace s" "crt_pos (upd_cpu f s) = crt_pos s" "crt (upd_cpu f s) = crt s"
  "uart (upd_cpu f s) = uart s" "idequeue (upd_cpu f s) = idequeue s" "havedisk1 (upd_cpu f s) = havedisk1 s"
  "ide_cmd (upd_cpu f s) = ide_cmd s" "devsw (upd_cpu f s) = devsw s" "kbd_shift (upd_cpu f s) = kbd_shift s"
  "cpu_of (upd_cpu f s) = f (cpu_of s)"
  by (simp_all add: upd_cpu_def cpu_of_def)

lemma upd_proc_simps [simp]:
  "locks (upd_proc p f s) = locks s" "cpus (upd_proc p f s) = cpus s"
  "cpuno (upd_proc p f s) = cpuno s" "heads (upd_proc p f s) = heads s"
  "tails (upd_proc p f s) = tails s" "PromoteAtTime (upd_proc p f s) = PromoteAtTime s"
  "initproc (upd_proc p f s) = initproc s" "nextpid (upd_proc p f s) = nextpid s"
  "ticks (upd_proc p f s) = ticks s" "mem (upd_proc p f s) = mem s"
  "freelist (upd_proc p f s) = freelist s" "use_lock (upd_proc p f s) = use_lock s"
  "kend (upd_proc p f s) = kend s"
  "files (upd_proc p f s) = files s" "pipes (upd_proc p f s) = pipes s" "inodes (upd_proc p f s) = inodes s"
  "bufs (upd_proc p f s) = bufs s" "klog (upd_proc p f s) = klog s" "sb (upd_proc p f s) = sb s"
  "disk (upd_proc p f s) = disk s" "disksize (upd_proc p f s) = disksize s" "input (upd_proc p f s) = input s"
  "consout (upd_proc p f s) = consout s" "cons_locking (upd_proc p f s) = cons_locking s" "panicked (upd_proc p f s) = panicked s"
  "kdata (upd_proc p f s) = kdata s" "kpgdir (upd_proc p f s) = kpgdir s" "forkret_first (upd_proc p f s) = forkret_first s"
  "dtrace (upd_proc p f s) = dtrace s" "crt_pos (upd_proc p f s) = crt_pos s" "crt (upd_proc p f s) = crt s"
  "uart (upd_proc p f s) = uart s" "idequeue (upd_proc p f s) = idequeue s" "havedisk1 (upd_proc p f s) = havedisk1 s"
  "ide_cmd (upd_proc p f s) = ide_cmd s" "devsw (upd_proc p f s) = devsw s" "kbd_shift (upd_proc p f s) = kbd_shift s"
  "cpu_of (upd_proc p f s) = cpu_of s" "proc_of (upd_proc p f s) = proc_of s"
  "procs (upd_proc p f s) = (procs s)(p := f (procs s p))"
  by (simp_all add: upd_proc_def cpu_of_def proc_of_def)

subsection \<open>The state before \<^verbatim>\<open>main\<close>\<close>

text \<open>
  Uninitialised globals are zero in C. \<open>bss\<close> is that state, with the exceptions the sources
  initialise: \<^verbatim>\<open>nextpid = 1\<close> and \<^verbatim>\<open>first = 1\<close>, and the running CPU 0 with its interrupt flag given.
\<close>

definition spinlock0 :: spinlock where
  "spinlock0 = \<lparr>lk_locked = 0, lk_name = [], lk_cpu = None\<rparr>"

definition cpu0 :: "bool \<Rightarrow> cpu" where
  "cpu0 b = \<lparr>cpu_id = 0, cpu_ncli = 0, cpu_intena = False, cpu_IF = b, cpu_proc = None\<rparr>"

definition trapframe0 :: trapframe where
  "trapframe0 = \<lparr>tf_eax = 0, tf_esp = 0, tf_eip = 0, tf_cs = 0, tf_ds = 0, tf_es = 0, tf_ss = 0,
     tf_eflags = 0\<rparr>"

definition proc0 :: proc where
  "proc0 = \<lparr>p_sz = 0, p_pgdir = 0, p_kstack = 0, p_state = UNUSED, p_pid = 0, p_parent = None,
     p_tf = trapframe0, p_context = CtxNone, p_chan = None, p_killed = False,
     p_ofile = (\<lambda>_. None), p_cwd = None, p_name = [], p_start_ticks = 0, p_gid = 0, p_uid = 0,
     p_cpu_ticks_total = 0, p_cpu_ticks_in = 0, p_next = None, p_priority = 0, p_budget = 0\<rparr>"

definition bss :: "bool \<Rightarrow> kernel" where
  "bss b = \<lparr>locks = (\<lambda>_. spinlock0), cpus = (\<lambda>_. cpu0 b), cpuno = 0, procs = (\<lambda>_. proc0),
     heads = (\<lambda>_. None), tails = (\<lambda>_. None), PromoteAtTime = 0, initproc = None, nextpid = 1,
     ticks = 0, mem = (\<lambda>_. 0), freelist = 0, use_lock = False, kend = 0,
     files = (\<lambda>_. \<lparr>f_type = FD_NONE, f_ref = 0, f_readable = False, f_writable = False, f_pipe = 0,
       f_ip = None, f_off = 0\<rparr>),
     pipes = (\<lambda>_. \<lparr>pi_data = (\<lambda>_. 0), pi_nread = 0, pi_nwrite = 0, pi_readopen = False,
       pi_writeopen = False\<rparr>),
     inodes = (\<lambda>_. \<lparr>i_dev = 0, i_inum = 0, i_ref = 0, i_busy = False, i_valid = False, i_type = 0,
       i_major = 0, i_minor = 0, i_nlink = 0, i_uid = 0, i_gid = 0, i_mode = 0, i_size = 0,
       i_addrs = (\<lambda>_. 0)\<rparr>),
     bufs = (\<lambda>_. \<lparr>b_busy = False, b_valid = False, b_dirty = False, b_dev = 0, b_blockno = 0,
       b_prev = 0, b_next = 0, b_qnext = None, b_data = (\<lambda>_. 0)\<rparr>),
     klog = \<lparr>lg_start = 0, lg_size = 0, lg_outstanding = 0, lg_committing = False, lg_dev = 0,
       lg_lh = \<lparr>lh_n = 0, lh_block = (\<lambda>_. 0)\<rparr>\<rparr>,
     sb = \<lparr>sb_size = 0, sb_nblocks = 0, sb_ninodes = 0, sb_nlog = 0, sb_logstart = 0,
       sb_inodestart = 0, sb_bmapstart = 0\<rparr>,
     disk = (\<lambda>_ _. 0), disksize = 0,
     input = \<lparr>in_buf = (\<lambda>_. 0), in_r = 0, in_w = 0, in_e = 0\<rparr>,
     consout = [], cons_locking = False, panicked = False,
     kdata = 0, kpgdir = 0, forkret_first = True,
     dtrace = [], crt_pos = 0, crt = (\<lambda>_. 0), uart = False, idequeue = None, havedisk1 = False,
     ide_cmd = None, devsw = (\<lambda>_. False), kbd_shift = 0\<rparr>"

lemma bss_simps [simp]:
  "locks (bss b) l = spinlock0" "cpuno (bss b) = 0" "cpus (bss b) c = cpu0 b"
  "procs (bss b) p = proc0" "heads (bss b) l' = None" "tails (bss b) l' = None"
  "PromoteAtTime (bss b) = 0" "ticks (bss b) = 0" "freelist (bss b) = 0" "use_lock (bss b) = False"
  "initproc (bss b) = None" "nextpid (bss b) = 1"
  by (simp_all add: bss_def)

end
