(* ===== verification/Spinlock.thy ===== *)
theory Spinlock
  imports Xv6_State
begin

section \<open>Spin locks and the interrupt-disable depth (spinlock.c)\<close>

text \<open>
  \<^verbatim>\<open>acquire\<close> and \<^verbatim>\<open>release\<close> are composed of the pieces between which another CPU can
  act: the entry with its check, the atomic exchange, the record of the owner; the owner's
  removal, the exchange and the re-enabling of interrupts. Run to the end by one CPU they
  are the functions \<open>acquire\<close> and \<open>release\<close> that the other components call, where
  \<open>Spins\<close> stands for the endless loop on a lock that is taken. Interleaved by the step
  relation \<open>lock_step\<close> they are the protocol between CPUs, for which mutual exclusion is
  proved in every reachable state.
\<close>

subsection \<open>Operations\<close>

definition initlock :: "lockid \<Rightarrow> string \<Rightarrow> kernel \<Rightarrow> kernel" where
  "initlock l nm s =
     s\<lparr>locks := (locks s)(l := \<lparr>lk_locked = 0, lk_name = nm, lk_cpu = None\<rparr>)\<rparr>"

definition holding :: "lockid \<Rightarrow> kernel \<Rightarrow> bool" where
  "holding l s \<longleftrightarrow> lk_locked (locks s l) \<noteq> 0 \<and> lk_cpu (locks s l) = Some (cpuno s)"

definition pushcli :: "kernel \<Rightarrow> kernel" where
  "pushcli s =
     upd_cpu (\<lambda>c. c\<lparr>cpu_IF := False,
                     cpu_intena := (if cpu_ncli c = 0 then cpu_IF c else cpu_intena c),
                     cpu_ncli := cpu_ncli c + 1\<rparr>) s"

definition popcli :: "kernel \<Rightarrow> kernel result" where
  "popcli s =
     (if cpu_IF (cpu_of s) then Inl (Panic ''popcli - interruptible'')
      else
        let s1 = upd_cpu (\<lambda>c. c\<lparr>cpu_ncli := cpu_ncli c - 1\<rparr>) s in
        if cpu_ncli (cpu_of s1) < 0 then Inl (Panic ''popcli'')
        else if cpu_ncli (cpu_of s1) = 0 \<and> cpu_intena (cpu_of s1)
        then Inr (upd_cpu (\<lambda>c. c\<lparr>cpu_IF := True\<rparr>) s1)
        else Inr s1)"

definition acquire_enter :: "lockid \<Rightarrow> kernel \<Rightarrow> kernel result" where
  "acquire_enter l s =
     (let s1 = pushcli s in if holding l s1 then Inl (Panic ''acquire'') else Inr s1)"

definition xchg_locked :: "lockid \<Rightarrow> uint \<Rightarrow> kernel \<Rightarrow> uint \<times> kernel" where
  "xchg_locked l v s =
     (lk_locked (locks s l), s\<lparr>locks := (locks s)(l := (locks s l)\<lparr>lk_locked := v\<rparr>)\<rparr>)"

definition acquire_record :: "lockid \<Rightarrow> kernel \<Rightarrow> kernel" where
  "acquire_record l s = s\<lparr>locks := (locks s)(l := (locks s l)\<lparr>lk_cpu := Some (cpuno s)\<rparr>)\<rparr>"

definition acquire :: "lockid \<Rightarrow> kernel \<Rightarrow> kernel result" where
  "acquire l s =
     rbind (acquire_enter l s) (\<lambda>s1.
       case xchg_locked l 1 s1 of (old, s2) \<Rightarrow>
         if old \<noteq> 0 then Inl Spins else Inr (acquire_record l s2))"

definition release_clear :: "lockid \<Rightarrow> kernel \<Rightarrow> kernel result" where
  "release_clear l s =
     (if \<not> holding l s then Inl (Panic ''release'')
      else Inr (s\<lparr>locks := (locks s)(l := (locks s l)\<lparr>lk_cpu := None\<rparr>)\<rparr>))"

definition release :: "lockid \<Rightarrow> kernel \<Rightarrow> kernel result" where
  "release l s =
     rbind (release_clear l s) (\<lambda>s1. popcli (snd (xchg_locked l 0 s1)))"

text \<open>A critical section: acquire, a body, release on every way out of the body.\<close>

definition with_lock :: "lockid \<Rightarrow> (kernel \<Rightarrow> ('r \<times> kernel) result) \<Rightarrow> kernel \<Rightarrow> ('r \<times> kernel) result" where
  "with_lock l f s =
     rbind (acquire l s) (\<lambda>s1.
     rbind (f s1) (\<lambda>(r, s2).
     rbind (release l s2) (\<lambda>s3. Inr (r, s3))))"

subsection \<open>What the operations do when they succeed\<close>

text \<open>The state after \<open>acquire\<close> of a free lock, and after \<open>release\<close> of a held one.\<close>

definition lock_free :: "lockid \<Rightarrow> kernel \<Rightarrow> bool" where
  "lock_free l s \<longleftrightarrow> lk_locked (locks s l) = 0 \<and> lk_cpu (locks s l) = None"

definition acquired :: "lockid \<Rightarrow> kernel \<Rightarrow> kernel" where
  "acquired l s =
     pushcli (s\<lparr>locks := (locks s)(l := (locks s l)\<lparr>lk_locked := 1, lk_cpu := Some (cpuno s)\<rparr>)\<rparr>)"

definition released :: "lockid \<Rightarrow> kernel \<Rightarrow> kernel" where
  "released l s =
     upd_cpu (\<lambda>c. c\<lparr>cpu_ncli := cpu_ncli c - 1,
                     cpu_IF := (cpu_ncli c = 1 \<and> cpu_intena c)\<rparr>)
       (s\<lparr>locks := (locks s)(l := (locks s l)\<lparr>lk_cpu := None, lk_locked := 0\<rparr>)\<rparr>)"

text \<open>The depth of nested critical sections is never negative, and interrupts are off inside.\<close>

definition cli_ok :: "kernel \<Rightarrow> bool" where
  "cli_ok s \<longleftrightarrow> 0 \<le> cpu_ncli (cpu_of s) \<and> (0 < cpu_ncli (cpu_of s) \<longrightarrow> \<not> cpu_IF (cpu_of s))"

lemma upd_cpu_locks [simp]: "upd_cpu f (s\<lparr>locks := l\<rparr>) = (upd_cpu f s)\<lparr>locks := l\<rparr>"
  by (simp add: upd_cpu_def)

lemma upd_cpu_comp: "upd_cpu f (upd_cpu g s) = upd_cpu (\<lambda>c. f (g c)) s"
  by (simp add: upd_cpu_def)

lemma cpu_of_locks [simp]: "cpu_of (s\<lparr>locks := l\<rparr>) = cpu_of s"
  by (simp add: cpu_of_def)

lemma proc_of_locks [simp]: "proc_of (s\<lparr>locks := l\<rparr>) = proc_of s"
  by (simp add: proc_of_def)

lemma cpu_IF_off: "\<not> cpu_IF c \<Longrightarrow> c\<lparr>cpu_ncli := n, cpu_IF := False\<rparr> = c\<lparr>cpu_ncli := n\<rparr>"
  by (cases c) simp

lemma acquire_free:
  assumes "lock_free l s"
  shows "acquire l s = Inr (acquired l s)"
  using assms
  by (simp add: acquire_def acquire_enter_def holding_def xchg_locked_def acquire_record_def
      acquired_def lock_free_def pushcli_def Let_def)

lemma acquire_taken:
  assumes "lk_locked (locks s l) \<noteq> 0"
  shows "acquire l s = Inl (if lk_cpu (locks s l) = Some (cpuno s) then Panic ''acquire'' else Spins)"
  using assms
  by (simp add: acquire_def acquire_enter_def holding_def xchg_locked_def acquire_record_def
      pushcli_def Let_def)

lemma release_held:
  assumes "holding l s" "cli_ok s" "0 < cpu_ncli (cpu_of s)"
  shows "release l s = Inr (released l s)"
proof -
  have "popcli (s\<lparr>locks := (locks s)(l := (locks s l)\<lparr>lk_cpu := None, lk_locked := 0\<rparr>)\<rparr>)
      = Inr (released l s)"
  proof (cases "cpu_ncli (cpu_of s) = 1 \<and> cpu_intena (cpu_of s)")
    case True
    with assms show ?thesis
      by (simp add: popcli_def released_def cli_ok_def Let_def upd_cpu_comp upd_cpu_def cpu_of_def)
  next
    case False
    with assms show ?thesis
      by (auto simp: popcli_def released_def cli_ok_def Let_def upd_cpu_def cpu_of_def cpu_IF_off)
  qed
  with assms(1) show ?thesis
    by (simp add: release_def release_clear_def xchg_locked_def)
qed

lemma release_not_held: "\<not> holding l s \<Longrightarrow> release l s = Inl (Panic ''release'')"
  by (simp add: release_def release_clear_def)

lemma acquired_simps [simp]:
  "procs (acquired l s) = procs s" "heads (acquired l s) = heads s"
  "tails (acquired l s) = tails s" "PromoteAtTime (acquired l s) = PromoteAtTime s"
  "initproc (acquired l s) = initproc s" "nextpid (acquired l s) = nextpid s"
  "ticks (acquired l s) = ticks s" "mem (acquired l s) = mem s"
  "freelist (acquired l s) = freelist s" "use_lock (acquired l s) = use_lock s"
  "kend (acquired l s) = kend s" "cpuno (acquired l s) = cpuno s"
  "proc_of (acquired l s) = proc_of s"
  "files (acquired l s) = files s" "pipes (acquired l s) = pipes s" "inodes (acquired l s) = inodes s"
  "bufs (acquired l s) = bufs s" "klog (acquired l s) = klog s" "sb (acquired l s) = sb s"
  "disk (acquired l s) = disk s" "disksize (acquired l s) = disksize s" "input (acquired l s) = input s"
  "consout (acquired l s) = consout s" "cons_locking (acquired l s) = cons_locking s" "panicked (acquired l s) = panicked s"
  "kdata (acquired l s) = kdata s" "kpgdir (acquired l s) = kpgdir s" "forkret_first (acquired l s) = forkret_first s"
  "dtrace (acquired l s) = dtrace s" "crt_pos (acquired l s) = crt_pos s" "crt (acquired l s) = crt s"
  "uart (acquired l s) = uart s" "idequeue (acquired l s) = idequeue s" "havedisk1 (acquired l s) = havedisk1 s"
  "ide_cmd (acquired l s) = ide_cmd s" "devsw (acquired l s) = devsw s"
  by (simp_all add: acquired_def pushcli_def proc_of_def upd_cpu_def)

lemma released_simps [simp]:
  "procs (released l s) = procs s" "heads (released l s) = heads s"
  "tails (released l s) = tails s" "PromoteAtTime (released l s) = PromoteAtTime s"
  "initproc (released l s) = initproc s" "nextpid (released l s) = nextpid s"
  "ticks (released l s) = ticks s" "mem (released l s) = mem s"
  "freelist (released l s) = freelist s" "use_lock (released l s) = use_lock s"
  "kend (released l s) = kend s" "cpuno (released l s) = cpuno s"
  "proc_of (released l s) = proc_of s"
  "files (released l s) = files s" "pipes (released l s) = pipes s" "inodes (released l s) = inodes s"
  "bufs (released l s) = bufs s" "klog (released l s) = klog s" "sb (released l s) = sb s"
  "disk (released l s) = disk s" "disksize (released l s) = disksize s" "input (released l s) = input s"
  "consout (released l s) = consout s" "cons_locking (released l s) = cons_locking s" "panicked (released l s) = panicked s"
  "kdata (released l s) = kdata s" "kpgdir (released l s) = kpgdir s" "forkret_first (released l s) = forkret_first s"
  "dtrace (released l s) = dtrace s" "crt_pos (released l s) = crt_pos s" "crt (released l s) = crt s"
  "uart (released l s) = uart s" "idequeue (released l s) = idequeue s" "havedisk1 (released l s) = havedisk1 s"
  "ide_cmd (released l s) = ide_cmd s" "devsw (released l s) = devsw s"
  by (simp_all add: released_def proc_of_def upd_cpu_def)

text \<open>Everything but the locks, the CPUs and the process table is the same.\<close>

definition sync_frame :: "kernel \<Rightarrow> kernel \<Rightarrow> bool" where
  "sync_frame s t \<longleftrightarrow>
     t\<lparr>locks := locks s, cpus := cpus s, procs := procs s, heads := heads s, tails := tails s\<rparr> = s"

lemma sync_frame_refl [simp]: "sync_frame s s"
  by (simp add: sync_frame_def)

lemma sync_frame_trans:
  assumes "sync_frame s t" "sync_frame t u"
  shows "sync_frame s u"
  using assms by (cases s; cases t; cases u) (simp add: sync_frame_def)

lemma sync_frame_acquired [simp]: "sync_frame s (acquired l s)"
  by (simp add: sync_frame_def acquired_def pushcli_def upd_cpu_def)

lemma sync_frame_released [simp]: "sync_frame s (released l s)"
  by (simp add: sync_frame_def released_def upd_cpu_def)

lemma sync_frame_upd_proc [simp]: "sync_frame s (upd_proc p f s)"
  by (simp add: sync_frame_def upd_proc_def)

lemma sync_frame_upd_cpu [simp]: "sync_frame s (upd_cpu f s)"
  by (simp add: sync_frame_def upd_cpu_def)

lemma sync_frame_eq:
  assumes "sync_frame s t"
  shows "cpuno t = cpuno s" "ticks t = ticks s" "PromoteAtTime t = PromoteAtTime s"
    "initproc t = initproc s" "nextpid t = nextpid s" "mem t = mem s" "freelist t = freelist s"
    "use_lock t = use_lock s" "kend t = kend s" "files t = files s" "pipes t = pipes s"
    "inodes t = inodes s" "bufs t = bufs s" "klog t = klog s" "sb t = sb s" "disk t = disk s"
    "disksize t = disksize s" "input t = input s" "consout t = consout s"
    "cons_locking t = cons_locking s" "panicked t = panicked s"
    "kdata t = kdata s" "kpgdir t = kpgdir s" "forkret_first t = forkret_first s"
    "dtrace t = dtrace s" "crt_pos t = crt_pos s" "crt t = crt s" "uart t = uart s"
    "idequeue t = idequeue s" "havedisk1 t = havedisk1 s" "ide_cmd t = ide_cmd s" "devsw t = devsw s"
  using assms by (cases s; cases t; simp add: sync_frame_def)+

lemma holding_acquired [simp]: "holding l (acquired l s)"
  by (simp add: holding_def acquired_def pushcli_def)

lemma cpu_of_acquired:
  "cpu_of (acquired l s) =
     (cpu_of s)\<lparr>cpu_IF := False,
       cpu_intena := (if cpu_ncli (cpu_of s) = 0 then cpu_IF (cpu_of s) else cpu_intena (cpu_of s)),
       cpu_ncli := cpu_ncli (cpu_of s) + 1\<rparr>"
  by (simp add: acquired_def pushcli_def)

lemma cli_ok_acquired: "cli_ok s \<Longrightarrow> cli_ok (acquired l s) \<and> 0 < cpu_ncli (cpu_of (acquired l s))"
  by (simp add: cli_ok_def cpu_of_acquired)

text \<open>A body that leaves the locks and the CPUs alone can be run in a critical section.\<close>

lemma with_lock_body:
  assumes "lock_free l s" "cli_ok s"
    and body: "f (acquired l s) = Inr (r, s2)"
    and same: "locks s2 = locks (acquired l s)" "cpus s2 = cpus (acquired l s)"
      "cpuno s2 = cpuno (acquired l s)"
  shows "with_lock l f s = Inr (r, released l s2)"
proof -
  have cpu: "cpu_of s2 = cpu_of (acquired l s)"
    using same by (simp add: cpu_of_def)
  have hold: "holding l s2"
    using holding_acquired [of l s] same by (simp add: holding_def)
  have "cli_ok s2" "0 < cpu_ncli (cpu_of s2)"
    using cli_ok_acquired [OF assms(2), of l] cpu by (auto simp: cli_ok_def)
  with hold have "release l s2 = Inr (released l s2)"
    by (intro release_held)
  with assms(1) body show ?thesis
    by (simp add: with_lock_def acquire_free)
qed

lemma with_lock_Inl:
  assumes "lock_free l s" "f (acquired l s) = Inl e"
  shows "with_lock l f s = Inl e"
  using assms by (simp add: with_lock_def acquire_free)

text \<open>
  What a finished critical section leaves: the locks as they were, and every CPU as it was
  but for the saved interrupt flag of a CPU that was outside all critical sections.
\<close>

definition lock_frame :: "kernel \<Rightarrow> kernel \<Rightarrow> bool" where
  "lock_frame s s' \<longleftrightarrow>
     locks s' = locks s \<and> cpuno s' = cpuno s \<and>
     (\<forall>c. cpu_ncli (cpus s' c) = cpu_ncli (cpus s c) \<and> cpu_IF (cpus s' c) = cpu_IF (cpus s c) \<and>
          cpu_proc (cpus s' c) = cpu_proc (cpus s c) \<and> cpu_id (cpus s' c) = cpu_id (cpus s c)) \<and>
     (0 < cpu_ncli (cpu_of s) \<longrightarrow> cpus s' = cpus s)"

lemma lock_frame_refl [simp]: "lock_frame s s"
  by (simp add: lock_frame_def)

lemma lock_frame_trans: "lock_frame s t \<Longrightarrow> lock_frame t u \<Longrightarrow> lock_frame s u"
  by (auto simp: lock_frame_def cpu_of_def)

lemma lock_frame_free: "lock_frame s t \<Longrightarrow> lock_free l t = lock_free l s"
  by (simp add: lock_frame_def lock_free_def)

lemma lock_frame_cli_ok: "lock_frame s t \<Longrightarrow> cli_ok t = cli_ok s"
  by (simp add: lock_frame_def cli_ok_def cpu_of_def)

lemma lock_frame_proc_of: "lock_frame s t \<Longrightarrow> proc_of t = proc_of s"
  by (simp add: lock_frame_def proc_of_def)

lemma lock_frame_same:
  "locks t = locks s \<Longrightarrow> cpus t = cpus s \<Longrightarrow> cpuno t = cpuno s \<Longrightarrow> lock_frame s t"
  by (simp add: lock_frame_def)

lemma lock_frame_upd_proc [simp]: "lock_frame s (upd_proc p f s)"
  by (simp add: lock_frame_same)

lemma holding_frame: "lock_frame s t \<Longrightarrow> holding l t = holding l s"
  by (simp add: lock_frame_def holding_def)

lemma locks_acquired: "locks (acquired l s) =
    (locks s)(l := (locks s l)\<lparr>lk_locked := 1, lk_cpu := Some (cpuno s)\<rparr>)"
  by (simp add: acquired_def pushcli_def)

lemma locks_released: "locks (released l s) =
    (locks s)(l := (locks s l)\<lparr>lk_cpu := None, lk_locked := 0\<rparr>)"
  by (simp add: released_def)

lemma spinlock_restore:
  "lk_locked k = 0 \<Longrightarrow> lk_cpu k = None \<Longrightarrow>
   k\<lparr>lk_locked := a, lk_cpu := b, lk_cpu := None, lk_locked := 0\<rparr> = k"
  by (cases k) simp

lemma lock_frame_section:
  assumes free: "lock_free l s" and ok: "cli_ok s" and fr: "lock_frame (acquired l s) t"
  shows "lock_frame s (released l t)"
proof -
  have cpus: "cpus t = cpus (acquired l s)"
    using fr cli_ok_acquired [OF ok, of l] by (simp add: lock_frame_def)
  have lks: "locks t = locks (acquired l s)" and no: "cpuno t = cpuno s"
    using fr by (simp_all add: lock_frame_def)
  have "locks (released l t) = locks s"
    using free by (simp add: locks_released lks locks_acquired lock_free_def fun_eq_iff spinlock_restore)
  moreover have "cpus (released l t) = (cpus s)(cpuno s := (cpu_of s)\<lparr>cpu_intena :=
       (if cpu_ncli (cpu_of s) = 0 then cpu_IF (cpu_of s) else cpu_intena (cpu_of s))\<rparr>)"
    using ok
    by (cases "cpus s (cpuno s)")
      (auto simp: released_def upd_cpu_def cpus no acquired_def pushcli_def cli_ok_def cpu_of_def fun_eq_iff)
  ultimately show ?thesis
    using no by (auto simp: lock_frame_def cpu_of_def)
qed

lemma with_lock_frame:
  assumes free: "lock_free l s" and ok: "cli_ok s"
    and body: "f (acquired l s) = Inr (r, t)" and fr: "lock_frame (acquired l s) t"
  shows "with_lock l f s = Inr (r, released l t)" and "lock_frame s (released l t)"
proof -
  have "cpus t = cpus (acquired l s)"
    using fr cli_ok_acquired [OF ok, of l] by (simp add: lock_frame_def)
  with fr show "with_lock l f s = Inr (r, released l t)"
    by (intro with_lock_body [where f = f, OF free ok body]) (simp_all add: lock_frame_def)
qed (rule lock_frame_section [OF free ok fr])

subsection \<open>The protocol between CPUs\<close>

text \<open>
  Where a CPU stands with respect to a lock: outside, in the spin loop of \<^verbatim>\<open>acquire\<close>, past
  the exchange but not yet recorded as the owner, in the critical section, or in
  \<^verbatim>\<open>release\<close> with the owner already removed.
\<close>

datatype lockpc = Out | Trying | Got | Critical | Leaving

definition on_cpu :: "nat \<Rightarrow> kernel \<Rightarrow> kernel" where
  "on_cpu c s = s\<lparr>cpuno := c\<rparr>"

type_synonym lockpcs = "nat \<Rightarrow> lockid \<Rightarrow> lockpc"

definition set_pc :: "lockpcs \<Rightarrow> nat \<Rightarrow> lockid \<Rightarrow> lockpc \<Rightarrow> lockpcs" where
  "set_pc pc c l v = pc(c := (pc c)(l := v))"

inductive lock_step :: "kernel \<times> lockpcs \<Rightarrow> kernel \<times> lockpcs \<Rightarrow> bool" where
  enter: "pc c l = Out \<Longrightarrow> acquire_enter l (on_cpu c s) = Inr s' \<Longrightarrow>
     lock_step (s, pc) (s', set_pc pc c l Trying)"
| spin: "pc c l = Trying \<Longrightarrow> xchg_locked l 1 (on_cpu c s) = (old, s') \<Longrightarrow> old \<noteq> 0 \<Longrightarrow>
     lock_step (s, pc) (s', pc)"
| take: "pc c l = Trying \<Longrightarrow> xchg_locked l 1 (on_cpu c s) = (old, s') \<Longrightarrow> old = 0 \<Longrightarrow>
     lock_step (s, pc) (s', set_pc pc c l Got)"
| own: "pc c l = Got \<Longrightarrow>
     lock_step (s, pc) (acquire_record l (on_cpu c s), set_pc pc c l Critical)"
| leave: "pc c l = Critical \<Longrightarrow> release_clear l (on_cpu c s) = Inr s' \<Longrightarrow>
     lock_step (s, pc) (s', set_pc pc c l Leaving)"
| unlock: "pc c l = Leaving \<Longrightarrow> popcli (snd (xchg_locked l 0 (on_cpu c s))) = Inr s' \<Longrightarrow>
     lock_step (s, pc) (s', set_pc pc c l Out)"

inductive lock_reach :: "kernel \<times> lockpcs \<Rightarrow> bool" where
  init: "(\<And>l. lock_free l s) \<Longrightarrow> (\<And>c. cpu_ncli (cpus s c) = 0) \<Longrightarrow>
     lock_reach (s, \<lambda>c l. Out)"
| step: "lock_reach x \<Longrightarrow> lock_step x y \<Longrightarrow> lock_reach y"

text \<open>
  The invariant: the lock word is set exactly when some CPU is past the exchange, and then
  only one is; the recorded owner is the CPU in the critical section; the depth of a CPU is
  the number of locks it is not outside of, and with a positive depth interrupts are off.
\<close>

definition engaged :: "lockpc \<Rightarrow> bool" where
  "engaged k \<longleftrightarrow> k = Got \<or> k = Critical \<or> k = Leaving"

definition word_inv :: "(lockid \<Rightarrow> spinlock) \<Rightarrow> lockpcs \<Rightarrow> bool" where
  "word_inv lk pc \<longleftrightarrow>
     (\<forall>l. lk_locked (lk l) \<noteq> 0 \<longleftrightarrow> (\<exists>c. engaged (pc c l))) \<and>
     (\<forall>l c d. engaged (pc c l) \<longrightarrow> engaged (pc d l) \<longrightarrow> c = d) \<and>
     (\<forall>l c. lk_cpu (lk l) = Some c \<longleftrightarrow> pc c l = Critical)"

definition depth_inv :: "(nat \<Rightarrow> cpu) \<Rightarrow> lockpcs \<Rightarrow> bool" where
  "depth_inv cs pc \<longleftrightarrow>
     (\<forall>c. finite {l. pc c l \<noteq> Out} \<and> cpu_ncli (cs c) = int (card {l. pc c l \<noteq> Out}) \<and>
          ({l. pc c l \<noteq> Out} \<noteq> {} \<longrightarrow> \<not> cpu_IF (cs c)))"

definition lock_inv :: "kernel \<times> lockpcs \<Rightarrow> bool" where
  "lock_inv x \<longleftrightarrow> word_inv (locks (fst x)) (snd x) \<and> depth_inv (cpus (fst x)) (snd x)"

lemma not_out_set_pc:
  "{k. set_pc pc c l v c' k \<noteq> Out} =
     (if c' \<noteq> c then {k. pc c' k \<noteq> Out}
      else if v = Out then {k. pc c k \<noteq> Out} - {l} else insert l {k. pc c k \<noteq> Out})"
  by (auto simp: set_pc_def)

lemma set_pc_apply: "set_pc pc c l v c' l' = (if c' = c \<and> l' = l then v else pc c' l')"
  by (auto simp: set_pc_def)

lemma depth_inv_enter:
  assumes "depth_inv cs pc" "pc c l = Out" "v \<noteq> Out"
    and "cpu_ncli k = cpu_ncli (cs c) + 1" "\<not> cpu_IF k"
  shows "depth_inv (cs(c := k)) (set_pc pc c l v)"
  using assms unfolding depth_inv_def not_out_set_pc by (simp add: card_insert_if)

lemma depth_inv_stay:
  assumes "depth_inv cs pc" "pc c l \<noteq> Out" "v \<noteq> Out"
  shows "depth_inv cs (set_pc pc c l v)"
proof -
  from assms(2) have "insert l {k. pc c k \<noteq> Out} = {k. pc c k \<noteq> Out}" by auto
  with assms(1,3) show ?thesis unfolding depth_inv_def not_out_set_pc by auto
qed

lemma depth_inv_exit:
  assumes "depth_inv cs pc" "pc c l \<noteq> Out"
    and "cpu_ncli k = cpu_ncli (cs c) - 1" "cpu_ncli (cs c) \<noteq> 1 \<Longrightarrow> \<not> cpu_IF k"
  shows "depth_inv (cs(c := k)) (set_pc pc c l Out)"
proof -
  from assms(1) have fin: "finite {l. pc c l \<noteq> Out}" and n: "cpu_ncli (cs c) = int (card {l. pc c l \<noteq> Out})"
    by (simp_all add: depth_inv_def)
  from assms(2) have l: "l \<in> {l. pc c l \<noteq> Out}" by simp
  have c1: "card ({l. pc c l \<noteq> Out} - {l}) = card {l. pc c l \<noteq> Out} - 1"
    by (rule card_Diff_singleton [OF l])
  have pos: "0 < card {l. pc c l \<noteq> Out}" using fin l card_gt_0_iff by blast
  have "{l. pc c l \<noteq> Out} - {l} \<noteq> {} \<Longrightarrow> \<not> cpu_IF k"
    using fin n c1 pos assms(4) by (metis card_0_eq diff_is_0_eq' finite_Diff int_ops(2) le_numeral_extra(4) nat_int_comparison(1))
  then show ?thesis
    using assms(1,3) fin n c1 pos unfolding depth_inv_def not_out_set_pc by (simp add: of_nat_diff)
qed

lemma word_inv_enter:
  "word_inv lk pc \<Longrightarrow> pc c l = Out \<Longrightarrow> word_inv lk (set_pc pc c l Trying)"
proof -
  assume inv: "word_inv lk pc" and out: "pc c l = Out"
  have "engaged (set_pc pc c l Trying d k) = engaged (pc d k)"
    "(set_pc pc c l Trying d k = Critical) = (pc d k = Critical)" for d k
    using out by (auto simp: set_pc_apply engaged_def)
  with inv show ?thesis by (simp add: word_inv_def)
qed

lemma word_inv_take:
  assumes "word_inv lk pc" "pc c l = Trying" "lk_locked (lk l) = 0"
  shows "word_inv (lk(l := (lk l)\<lparr>lk_locked := 1\<rparr>)) (set_pc pc c l Got)"
  using assms unfolding word_inv_def set_pc_apply engaged_def
  by (auto split: if_splits)

lemma word_inv_spin:
  assumes "word_inv lk pc" "lk_locked (lk l) \<noteq> 0"
  shows "word_inv (lk(l := (lk l)\<lparr>lk_locked := 1\<rparr>)) pc"
  using assms unfolding word_inv_def by auto

lemma word_inv_own:
  assumes "word_inv lk pc" "pc c l = Got"
  shows "word_inv (lk(l := (lk l)\<lparr>lk_cpu := Some c\<rparr>)) (set_pc pc c l Critical)"
  using assms unfolding word_inv_def set_pc_apply engaged_def
  by (auto split: if_splits)

lemma word_inv_leave:
  assumes "word_inv lk pc" "pc c l = Critical"
  shows "word_inv (lk(l := (lk l)\<lparr>lk_cpu := None\<rparr>)) (set_pc pc c l Leaving)"
  using assms unfolding word_inv_def set_pc_apply engaged_def
  by (auto split: if_splits)

lemma word_inv_unlock:
  assumes "word_inv lk pc" "pc c l = Leaving"
  shows "word_inv (lk(l := (lk l)\<lparr>lk_locked := 0\<rparr>)) (set_pc pc c l Out)"
  using assms unfolding word_inv_def set_pc_apply engaged_def
  by (auto split: if_splits)

lemma on_cpu_simps [simp]:
  "locks (on_cpu c s) = locks s" "cpus (on_cpu c s) = cpus s" "cpuno (on_cpu c s) = c"
  "cpu_of (on_cpu c s) = cpus s c"
  by (simp_all add: on_cpu_def cpu_of_def)

lemma lock_inv_enter:
  assumes "lock_inv (s, pc)" "pc c l = Out"
  shows "\<exists>s'. acquire_enter l (on_cpu c s) = Inr s' \<and> lock_inv (s', set_pc pc c l Trying)"
proof -
  from assms have "lk_cpu (locks s l) \<noteq> Some c"
    by (auto simp: lock_inv_def word_inv_def)
  then have "acquire_enter l (on_cpu c s) = Inr (pushcli (on_cpu c s))"
    by (simp add: acquire_enter_def holding_def pushcli_def Let_def)
  moreover have "lock_inv (pushcli (on_cpu c s), set_pc pc c l Trying)"
    using assms word_inv_enter depth_inv_enter
    by (simp add: lock_inv_def pushcli_def upd_cpu_def)
  ultimately show ?thesis by blast
qed

lemma lock_inv_xchg:
  assumes "lock_inv (s, pc)" "pc c l = Trying"
  shows "lock_inv (snd (xchg_locked l 1 (on_cpu c s)),
           if lk_locked (locks s l) = 0 then set_pc pc c l Got else pc)"
  using assms word_inv_take word_inv_spin depth_inv_stay
  by (simp add: lock_inv_def xchg_locked_def)

lemma lock_inv_own:
  assumes "lock_inv (s, pc)" "pc c l = Got"
  shows "lock_inv (acquire_record l (on_cpu c s), set_pc pc c l Critical)"
  using assms word_inv_own depth_inv_stay
  by (simp add: lock_inv_def acquire_record_def)

lemma lock_inv_leave:
  assumes "lock_inv (s, pc)" "pc c l = Critical"
  shows "\<exists>s'. release_clear l (on_cpu c s) = Inr s' \<and> lock_inv (s', set_pc pc c l Leaving)"
proof -
  from assms have "holding l (on_cpu c s)"
    by (auto simp: lock_inv_def word_inv_def holding_def engaged_def)
  with assms word_inv_leave depth_inv_stay show ?thesis
    by (simp add: release_clear_def lock_inv_def)
qed

lemma popcli_ok:
  assumes "\<not> cpu_IF (cpu_of s)" "1 \<le> cpu_ncli (cpu_of s)"
  shows "\<exists>k. popcli s = Inr (s\<lparr>cpus := (cpus s)(cpuno s := k)\<rparr>) \<and>
             cpu_ncli k = cpu_ncli (cpu_of s) - 1 \<and> (cpu_ncli (cpu_of s) \<noteq> 1 \<longrightarrow> \<not> cpu_IF k)"
  using assms
  by (cases "cpu_ncli (cpu_of s) = 1 \<and> cpu_intena (cpu_of s)")
    (fastforce simp: popcli_def Let_def upd_cpu_def cpu_of_def)+

lemma lock_inv_unlock:
  assumes "lock_inv (s, pc)" "pc c l = Leaving"
  shows "\<exists>s'. popcli (snd (xchg_locked l 0 (on_cpu c s))) = Inr s' \<and> lock_inv (s', set_pc pc c l Out)"
proof -
  let ?t = "snd (xchg_locked l 0 (on_cpu c s))"
  from assms have l: "l \<in> {l. pc c l \<noteq> Out}" by simp
  from assms(1) have fin: "finite {l. pc c l \<noteq> Out}"
    and n: "cpu_ncli (cpus s c) = int (card {l. pc c l \<noteq> Out})"
    and off: "{l. pc c l \<noteq> Out} \<noteq> {} \<longrightarrow> \<not> cpu_IF (cpus s c)"
    by (simp_all add: lock_inv_def depth_inv_def)
  from fin l have "0 < card {l. pc c l \<noteq> Out}" using card_gt_0_iff by blast
  with n have pos: "1 \<le> cpu_ncli (cpus s c)" by simp
  from off l have IF: "\<not> cpu_IF (cpus s c)" by blast
  have cpu: "cpu_of ?t = cpus s c" "cpus ?t = cpus s" "cpuno ?t = c"
    "locks ?t = (locks s)(l := (locks s l)\<lparr>lk_locked := 0\<rparr>)"
    by (simp_all add: xchg_locked_def)
  from pos IF cpu obtain k where k: "popcli ?t = Inr (?t\<lparr>cpus := (cpus s)(c := k)\<rparr>)"
    and kn: "cpu_ncli k = cpu_ncli (cpus s c) - 1" "cpu_ncli (cpus s c) \<noteq> 1 \<Longrightarrow> \<not> cpu_IF k"
    using popcli_ok [of ?t] by auto
  have "lock_inv (?t\<lparr>cpus := (cpus s)(c := k)\<rparr>, set_pc pc c l Out)"
    using assms word_inv_unlock depth_inv_exit [where cs = "cpus s" and c = c and l = l and pc = pc, OF _ _ kn] cpu by (simp add: lock_inv_def)
  with k show ?thesis by blast
qed

lemma lock_step_inv: "lock_step x y \<Longrightarrow> lock_inv x \<Longrightarrow> lock_inv y"
proof (induction rule: lock_step.induct)
  case (enter pc c l s s')
  then show ?case using lock_inv_enter by fastforce
next
  case (spin pc c l s old s')
  then show ?case using lock_inv_xchg [of s pc c l] by (auto simp: xchg_locked_def)
next
  case (take pc c l s old s')
  then show ?case using lock_inv_xchg [of s pc c l] by (auto simp: xchg_locked_def)
next
  case (own pc c l s)
  then show ?case using lock_inv_own by blast
next
  case (leave pc c l s s')
  then show ?case using lock_inv_leave by fastforce
next
  case (unlock pc c l s s')
  then show ?case using lock_inv_unlock by fastforce
qed

lemma lock_reach_inv: "lock_reach x \<Longrightarrow> lock_inv x"
proof (induction rule: lock_reach.induct)
  case (init s)
  then show ?case
    by (simp add: lock_inv_def word_inv_def depth_inv_def lock_free_def engaged_def)
next
  case (step x y)
  then show ?case using lock_step_inv by blast
qed

subsection \<open>Properties\<close>

text \<open>A run to a state in which CPU 0 has taken the allocator's lock.\<close>

definition taken_state :: kernel where
  "taken_state = snd (xchg_locked KmemLock 1 (on_cpu 0 (pushcli (on_cpu 0 (bss True)))))"

definition taken_pcs :: lockpcs where
  "taken_pcs = set_pc (set_pc (\<lambda>c l. Out) 0 KmemLock Trying) 0 KmemLock Got"

lemma taken_reach: "lock_reach (taken_state, taken_pcs)"
proof -
  have 0: "lock_reach (bss True, \<lambda>c l. Out)"
    by (rule lock_reach.init) (simp_all add: lock_free_def spinlock0_def cpu0_def)
  let ?s = "pushcli (on_cpu 0 (bss True))"
  have 1: "lock_reach (?s, set_pc (\<lambda>c l. Out) 0 KmemLock Trying)"
    by (rule lock_reach.step [OF 0 lock_step.enter])
      (simp_all add: acquire_enter_def holding_def on_cpu_def pushcli_def spinlock0_def)
  show ?thesis
    unfolding taken_state_def taken_pcs_def
    by (rule lock_reach.step [OF 1 lock_step.take])
      (simp_all add: set_pc_def xchg_locked_def on_cpu_def pushcli_def spinlock0_def)
qed

text \<open>
  C5. Mutual exclusion: in every state that CPUs can reach by interleaving the atomic
  pieces of acquire and release, at most one CPU is past the exchange of a given lock.
\<close>

theorem spinlock_mutual_exclusion:
  assumes "lock_reach (s, pc)" "engaged (pc c l)" "engaged (pc d l)"
  shows "c = d"
  using lock_reach_inv [OF assms(1)] assms(2,3) by (auto simp: lock_inv_def word_inv_def)

theorem spinlock_mutual_exclusion_witness:
  "engaged (taken_pcs 0 KmemLock) \<and> \<not> engaged (taken_pcs 1 KmemLock)"
proof -
  have e: "engaged (taken_pcs 0 KmemLock)" by (simp add: engaged_def taken_pcs_def set_pc_def)
  with spinlock_mutual_exclusion [OF taken_reach, of 0 KmemLock 1] show ?thesis by auto
qed

text \<open>
  C23. The checks inside acquire, release and popcli never fire for CPUs that pair the
  calls: from every reachable state each of the guarded pieces of the protocol succeeds.
\<close>

theorem lock_protocol_no_panic:
  assumes "lock_reach (s, pc)"
  shows "(pc c l = Out \<longrightarrow> (\<exists>s'. acquire_enter l (on_cpu c s) = Inr s')) \<and>
         (pc c l = Critical \<longrightarrow> (\<exists>s'. release_clear l (on_cpu c s) = Inr s')) \<and>
         (pc c l = Leaving \<longrightarrow> (\<exists>s'. popcli (snd (xchg_locked l 0 (on_cpu c s))) = Inr s'))"
  using lock_reach_inv [OF assms] lock_inv_enter lock_inv_leave lock_inv_unlock by blast

theorem lock_protocol_no_panic_witness:
  "\<exists>s'. acquire_enter FtableLock (on_cpu 1 taken_state) = Inr s'"
  using lock_protocol_no_panic [OF taken_reach, of 1 FtableLock] by (simp add: taken_pcs_def set_pc_def)

text \<open>
  A critical section on a free lock is entered with interrupts off, and releasing the
  lock restores the locks, the nesting depth and the interrupt flag of every CPU.
\<close>

theorem acquire_release_restores:
  assumes "lock_free l s" "cli_ok s"
  shows "\<exists>t u. acquire l s = Inr t \<and> holding l t \<and> \<not> cpu_IF (cpu_of t) \<and>
               release l t = Inr u \<and> lock_frame s u"
proof -
  have "release l (acquired l s) = Inr (released l (acquired l s))"
    using cli_ok_acquired [OF assms(2), of l] by (intro release_held) auto
  moreover have "lock_frame s (released l (acquired l s))"
    by (rule lock_frame_section [OF assms lock_frame_refl])
  moreover have "\<not> cpu_IF (cpu_of (acquired l s))"
    by (simp add: cpu_of_acquired)
  ultimately show ?thesis
    using acquire_free [OF assms(1)] holding_acquired by blast
qed

theorem acquire_release_restores_witness:
  "\<exists>t u. acquire KmemLock (bss True) = Inr t \<and> \<not> cpu_IF (cpu_of t) \<and> release KmemLock t = Inr u \<and>
     lock_frame (bss True) u"
  using acquire_release_restores [of KmemLock "bss True"]
  by (auto simp: lock_free_def cli_ok_def spinlock0_def cpu0_def cpu_of_def)

end
