(* ===== verification/State_Lists.thy ===== *)
theory State_Lists
  imports Spinlock
begin

section \<open>The process state lists (proc.c: stateListAdd, stateListRemove)\<close>

text \<open>
  Each process is on one singly linked list per state, linked through \<^verbatim>\<open>p->next\<close> with a
  head and a tail pointer. The operations follow the pointers as the code does; \<open>list_rep\<close>
  relates the pointers of one list to the sequence of processes it stands for, \<open>lists_rep\<close>
  all lists at once. The locale \<open>list_store\<close> states what the rest of the process code
  relies on (append at the end, removal of any element, nothing else touched), and is
  interpreted on the pointer operations.
\<close>

subsection \<open>Operations\<close>

definition set_next :: "nat \<Rightarrow> nat option \<Rightarrow> kernel \<Rightarrow> kernel" where
  "set_next p n = upd_proc p (\<lambda>r. r\<lparr>p_next := n\<rparr>)"

definition stateListAdd :: "listid \<Rightarrow> nat option \<Rightarrow> kernel \<Rightarrow> (int \<times> kernel) result" where
  "stateListAdd l p s =
     (case p of None \<Rightarrow> Inl NullDeref | Some q \<Rightarrow>
        if heads s l = None then
          Inr (0, set_next q None
                    (s\<lparr>heads := (heads s)(l := Some q), tails := (tails s)(l := Some q)\<rparr>))
        else
          (case tails s l of None \<Rightarrow> Inl NullDeref | Some t \<Rightarrow>
             let s1 = set_next t (Some q) s;
                 s2 = s1\<lparr>tails := (tails s1)(l := p_next (procs s1 t))\<rparr>
             in (case tails s2 l of None \<Rightarrow> Inl NullDeref
                 | Some t' \<Rightarrow> Inr (0, set_next t' None s2))))"

text \<open>
  The search loop of \<^verbatim>\<open>stateListRemove\<close>: the predecessor of \<open>p\<close>, and \<open>None\<close> when the
  end of the list is met first. The fuel is the number of nodes a list can have; a search
  that uses it up is on a cycle and does not end.
\<close>

fun find_prev :: "nat \<Rightarrow> (nat \<Rightarrow> nat option) \<Rightarrow> nat \<Rightarrow> nat option \<Rightarrow> nat option
    \<Rightarrow> nat option option result" where
  "find_prev 0 nx p prev cur = Inl Diverges"
| "find_prev (Suc n) nx p prev cur =
     (case cur of None \<Rightarrow> Inr None
      | Some c \<Rightarrow> if c = p then Inr (Some prev) else find_prev n nx p (Some c) (nx c))"

definition nexts :: "kernel \<Rightarrow> nat \<Rightarrow> nat option" where
  "nexts s p = p_next (procs s p)"

definition stateListRemove :: "listid \<Rightarrow> nat option \<Rightarrow> kernel \<Rightarrow> (int \<times> kernel) result" where
  "stateListRemove l p s =
     (case (heads s l, tails s l, p) of
        (Some h, Some t, Some q) \<Rightarrow>
          if h = q then Inr (0, s\<lparr>heads := (heads s)(l := nexts s h)\<rparr>)
          else rbind (find_prev (Suc NPROC) (nexts s) q None (Some h)) (\<lambda>found.
            case found of
              None \<Rightarrow> Inr (-1, s)
            | Some None \<Rightarrow> Inl NullDeref
            | Some (Some prev) \<Rightarrow>
                let s1 = (if q = t
                          then set_next prev None (s\<lparr>tails := (tails s)(l := Some prev)\<rparr>)
                          else set_next prev (nexts s q) s)
                in Inr (0, set_next q None s1))
      | _ \<Rightarrow> Inr (-1, s))"

subsection \<open>The sequence a list of pointers stands for\<close>

primrec plist :: "(nat \<Rightarrow> nat option) \<Rightarrow> nat option \<Rightarrow> nat list \<Rightarrow> bool" where
  "plist nx h [] \<longleftrightarrow> h = None"
| "plist nx h (x # xs) \<longleftrightarrow> h = Some x \<and> plist nx (nx x) xs"

lemma plist_None [simp]: "plist nx None xs \<longleftrightarrow> xs = []"
  by (cases xs) auto

lemma plist_Some: "plist nx (Some a) xs \<longleftrightarrow> (\<exists>ys. xs = a # ys \<and> plist nx (nx a) ys)"
  by (cases xs) auto

lemma plist_frame: "(\<And>x. x \<in> set xs \<Longrightarrow> nx' x = nx x) \<Longrightarrow> plist nx' h xs = plist nx h xs"
  by (induction xs arbitrary: h) auto

lemma plist_unique: "plist nx h xs \<Longrightarrow> plist nx h ys \<Longrightarrow> xs = ys"
  by (induction xs arbitrary: h ys) (auto simp: plist_Some)

lemma plist_split:
  "plist nx h (xs @ y # ys) \<Longrightarrow> plist nx (Some y) (y # ys) \<and>
     (xs \<noteq> [] \<longrightarrow> nx (last xs) = Some y) \<and> plist nx (nx y) ys"
  by (induction xs arbitrary: h) auto

lemma plist_snoc:
  assumes "plist nx h xs" "distinct xs" "q \<notin> set xs" "xs \<noteq> []"
  shows "plist (nx(last xs := Some q, q := None)) h (xs @ [q])"
  using assms
proof (induction xs arbitrary: h)
  case (Cons a as)
  show ?case
  proof (cases "as = []")
    case True
    with Cons.prems show ?thesis by auto
  next
    case False
    with Cons.prems have "plist (nx(last as := Some q, q := None)) (nx a) (as @ [q])"
      by (intro Cons.IH) auto
    with Cons.prems False show ?thesis by (auto simp: fun_upd_def)
  qed
qed simp

text \<open>Unlinking an inner node, and the last node.\<close>

lemma plist_unlink:
  assumes "plist nx h (xs @ y # ys)" "distinct (xs @ y # ys)" "xs \<noteq> []"
  shows "plist (nx(last xs := nx y, y := v)) h (xs @ ys)"
  using assms
proof (induction xs arbitrary: h)
  case (Cons a as)
  show ?case
  proof (cases "as = []")
    case True
    with Cons.prems have "plist nx (nx y) ys" "y \<noteq> a" "y \<notin> set ys" "a \<notin> set ys" "h = Some a"
      by auto
    moreover from this have "plist (nx(a := nx y, y := v)) (nx y) ys"
      by (subst plist_frame [of ys _ nx]) auto
    ultimately show ?thesis using True by (simp add: fun_upd_def)
  next
    case False
    with Cons.prems have "plist (nx(last as := nx y, y := v)) (nx a) (as @ ys)"
      by (intro Cons.IH) auto
    with Cons.prems False show ?thesis by (auto simp: fun_upd_def)
  qed
qed simp

lemma find_prev_plist:
  assumes "plist nx cur (xs @ y # ys)" "y \<notin> set xs" "length xs < n"
  shows "find_prev n nx y prev cur = Inr (Some (if xs = [] then prev else Some (last xs)))"
  using assms
proof (induction xs arbitrary: n prev cur)
  case Nil
  then show ?case by (cases n) auto
next
  case (Cons a as)
  then obtain m where m: "n = Suc m" "length as < m" by (cases n) auto
  with Cons.prems have "find_prev m nx y (Some a) (nx a)
      = Inr (Some (if as = [] then Some a else Some (last as)))"
    by (intro Cons.IH) auto
  with m Cons.prems show ?case by auto
qed

lemma find_prev_missing:
  assumes "plist nx cur xs" "y \<notin> set xs" "length xs < n"
  shows "find_prev n nx y prev cur = Inr None"
  using assms
proof (induction xs arbitrary: n prev cur)
  case Nil
  then show ?case by (cases n) auto
next
  case (Cons a as)
  then obtain m where "n = Suc m" "length as < m" by (cases n) auto
  with Cons show ?case by auto
qed

subsection \<open>The lists of the process table\<close>

definition list_rep :: "kernel \<Rightarrow> listid \<Rightarrow> nat list \<Rightarrow> bool" where
  "list_rep s l xs \<longleftrightarrow>
     plist (nexts s) (heads s l) xs \<and> distinct xs \<and> set xs \<subseteq> {..<NPROC} \<and>
     (xs \<noteq> [] \<longrightarrow> tails s l = Some (last xs))"

definition lists_rep :: "kernel \<Rightarrow> (listid \<Rightarrow> nat list) \<Rightarrow> bool" where
  "lists_rep s L \<longleftrightarrow>
     (\<forall>l. list_rep s l (L l)) \<and> (\<forall>l k. l \<noteq> k \<longrightarrow> set (L l) \<inter> set (L k) = {})"

text \<open>Nothing but the links and the list ends differs.\<close>

definition links_frame :: "kernel \<Rightarrow> kernel \<Rightarrow> bool" where
  "links_frame s s' \<longleftrightarrow>
     s'\<lparr>procs := procs s, heads := heads s, tails := tails s\<rparr> = s \<and>
     (\<forall>p. (procs s' p)\<lparr>p_next := p_next (procs s p)\<rparr> = procs s p)"

lemma links_frame_refl [simp]: "links_frame s s"
  by (simp add: links_frame_def)

lemma links_frame_set_next: "links_frame s t \<Longrightarrow> links_frame s (set_next p n t)"
  by (cases s; cases t) (simp add: links_frame_def set_next_def upd_proc_def)

lemma links_frame_ends:
  "links_frame s t \<Longrightarrow> links_frame s (t\<lparr>heads := h\<rparr>)"
  "links_frame s t \<Longrightarrow> links_frame s (t\<lparr>tails := h\<rparr>)"
  by (cases s; cases t; simp add: links_frame_def)+

lemma nexts_set_next [simp]: "nexts (set_next p n s) = (nexts s)(p := n)"
  by (auto simp: nexts_def set_next_def upd_proc_def)

lemma set_next_simps [simp]:
  "heads (set_next p n s) = heads s" "tails (set_next p n s) = tails s"
  "p_next (procs (set_next p n s) q) = ((nexts s)(p := n)) q"
  by (simp_all add: set_next_def upd_proc_def nexts_def)

lemma nexts_ends [simp]: "nexts (s\<lparr>heads := h\<rparr>) = nexts s" "nexts (s\<lparr>tails := h\<rparr>) = nexts s"
  by (simp_all add: nexts_def fun_eq_iff)

lemma list_rep_length: "list_rep s l xs \<Longrightarrow> length xs \<le> NPROC"
  using card_mono [of "{..<NPROC}" "set xs"] by (auto simp: list_rep_def distinct_card)

lemma list_rep_frame:
  assumes "list_rep s l xs" "heads t l = heads s l" "tails t l = tails s l"
    and "\<And>x. x \<in> set xs \<Longrightarrow> nexts t x = nexts s x"
  shows "list_rep t l xs"
  using assms plist_frame [of xs "nexts t" "nexts s" "heads s l"] by (simp add: list_rep_def)

lemma stateListAdd_rep:
  assumes rep: "list_rep s l xs" and q: "q \<notin> set xs" "q < NPROC"
  shows "\<exists>s'. stateListAdd l (Some q) s = Inr (0, s') \<and> list_rep s' l (xs @ [q]) \<and>
     links_frame s s' \<and> (\<forall>k. k \<noteq> l \<longrightarrow> heads s' k = heads s k \<and> tails s' k = tails s k) \<and>
     (\<forall>p. p \<notin> set xs \<longrightarrow> p \<noteq> q \<longrightarrow> nexts s' p = nexts s p)"
proof (cases "xs = []")
  case True
  let ?t = "set_next q None (s\<lparr>heads := (heads s)(l := Some q), tails := (tails s)(l := Some q)\<rparr>)"
  from True rep have "stateListAdd l (Some q) s = Inr (0, ?t)"
    by (simp add: stateListAdd_def list_rep_def)
  moreover have "links_frame s ?t"
    by (intro links_frame_set_next links_frame_ends) simp
  moreover have "list_rep ?t l (xs @ [q])"
    using True q by (simp add: list_rep_def)
  ultimately show ?thesis by auto
next
  case False
  let ?t = "set_next q None ((set_next (last xs) (Some q) s)\<lparr>tails := (tails s)(l := Some q)\<rparr>)"
  from False rep have head: "heads s l \<noteq> None" and tail: "tails s l = Some (last xs)"
    and dist: "distinct xs" and pl: "plist (nexts s) (heads s l) xs"
    by (cases xs; auto simp: list_rep_def)+
  from False q have qn: "q \<noteq> last xs" by auto
  have "stateListAdd l (Some q) s = Inr (0, ?t)"
    using head tail by (auto simp: stateListAdd_def Let_def)
  moreover have "links_frame s ?t"
    by (intro links_frame_set_next links_frame_ends) simp
  moreover have "list_rep ?t l (xs @ [q])"
    using plist_snoc [OF pl dist q(1) False] rep q by (simp add: list_rep_def)
  moreover have "nexts ?t p = nexts s p" if "p \<notin> set xs" "p \<noteq> q" for p
    using that False by auto
  ultimately show ?thesis by auto
qed

lemma stateListRemove_rep:
  assumes rep: "list_rep s l xs" and q: "q \<in> set xs"
  shows "\<exists>s'. stateListRemove l (Some q) s = Inr (0, s') \<and> list_rep s' l (remove1 q xs) \<and>
     links_frame s s' \<and> (\<forall>k. k \<noteq> l \<longrightarrow> heads s' k = heads s k \<and> tails s' k = tails s k) \<and>
     (\<forall>p. p \<notin> set xs \<longrightarrow> nexts s' p = nexts s p)"
proof -
  from q obtain ys zs where xs: "xs = ys @ q # zs" and y: "q \<notin> set ys"
    by (meson split_list_first)
  from rep q have pl: "plist (nexts s) (heads s l) xs" and dist: "distinct xs"
    and sub: "set xs \<subseteq> {..<NPROC}" and tail: "tails s l = Some (last xs)"
    by (auto simp: list_rep_def)
  have rem: "remove1 q xs = ys @ zs" using xs y by (simp add: remove1_split)
  show ?thesis
  proof (cases "ys = []")
    case True
    let ?t = "s\<lparr>heads := (heads s)(l := nexts s q)\<rparr>"
    from True xs pl have hd: "heads s l = Some q" and zs: "plist (nexts s) (nexts s q) zs" by auto
    have "stateListRemove l (Some q) s = Inr (0, ?t)"
      using hd tail by (simp add: stateListRemove_def)
    moreover have "list_rep ?t l (remove1 q xs)"
      using True xs zs dist sub tail by (auto simp: list_rep_def)
    moreover have "links_frame s ?t" by (intro links_frame_ends) simp
    ultimately show ?thesis by auto
  next
    case False
    let ?p = "last ys"
    from False xs pl have hd: "heads s l = Some (hd ys)" by (cases ys) auto
    from False y have hq: "hd ys \<noteq> q" by (cases ys) auto
    have len: "length ys < Suc NPROC"
      using list_rep_length [OF rep] xs by simp
    have fp: "find_prev (Suc NPROC) (nexts s) q None (Some (hd ys)) = Inr (Some (Some ?p))"
      using find_prev_plist [of "nexts s" "Some (hd ys)" ys q zs "Suc NPROC" None] pl hd xs y len False
      by simp
    show ?thesis
    proof (cases "zs = []")
      case True
      let ?t = "set_next q None (set_next ?p None (s\<lparr>tails := (tails s)(l := Some ?p)\<rparr>))"
      have "stateListRemove l (Some q) s = Inr (0, ?t)"
        using hd tail hq fp True xs by (simp add: stateListRemove_def Let_def del: find_prev.simps)
      moreover have "list_rep ?t l (remove1 q xs)"
      proof -
        have "nexts s q = None" using pl plist_split xs True by fastforce
        then have "plist ((nexts s)(?p := None, q := None)) (heads s l) (ys @ zs)"
          using plist_unlink [of "nexts s" "heads s l" ys q zs None] pl dist xs False by simp
        with True False dist sub xs show ?thesis
          unfolding rem by (auto simp: list_rep_def)
      qed
      moreover have "links_frame s ?t" by (intro links_frame_set_next links_frame_ends) simp
      ultimately show ?thesis using False xs by auto
    next
      case zs: False
      let ?t = "set_next q None (set_next ?p (nexts s q) s)"
      have "q \<noteq> last xs" using xs zs dist by auto
      then have "stateListRemove l (Some q) s = Inr (0, ?t)"
        using hd tail hq fp by (simp add: stateListRemove_def Let_def del: find_prev.simps)
      moreover have "list_rep ?t l (remove1 q xs)"
        using plist_unlink [of "nexts s" "heads s l" ys q zs None] pl dist xs False sub tail zs
        unfolding rem by (auto simp: list_rep_def)
      moreover have "links_frame s ?t" by (intro links_frame_set_next) simp
      ultimately show ?thesis using False xs by auto
    qed
  qed
qed

lemma stateListRemove_missing:
  assumes rep: "list_rep s l xs" and q: "q \<notin> set xs"
  shows "stateListRemove l (Some q) s = Inr (-1, s)"
proof (cases "heads s l")
  case None
  then show ?thesis by (simp add: stateListRemove_def)
next
  case (Some h)
  with rep have "xs \<noteq> []" "hd xs = h" by (auto simp: list_rep_def plist_Some)
  with q rep have "h \<noteq> q" "tails s l = Some (last xs)" by (auto simp: list_rep_def)
  moreover have "find_prev (Suc NPROC) (nexts s) q None (Some h) = Inr None"
    using rep q Some list_rep_length [OF rep] by (intro find_prev_missing) (auto simp: list_rep_def)
  ultimately show ?thesis
    using Some by (simp add: stateListRemove_def del: find_prev.simps)
qed

subsection \<open>The interface\<close>

text \<open>
  What the process code needs of a store of disjoint lists. \<open>rep s L\<close> says that state \<open>s\<close>
  holds the lists \<open>L\<close>, \<open>frame s s'\<close> that only the lists differ. The lemma \<open>move\<close> is the
  pattern of \<^verbatim>\<open>changeState\<close>, \<^verbatim>\<open>setpriority\<close>, \<^verbatim>\<open>promoteProcs\<close> and \<^verbatim>\<open>scheduler\<close>: take
  a process off one list, change it, append it to another.
\<close>

locale list_store =
  fixes add :: "listid \<Rightarrow> nat option \<Rightarrow> 's \<Rightarrow> (int \<times> 's) result"
    and remove :: "listid \<Rightarrow> nat option \<Rightarrow> 's \<Rightarrow> (int \<times> 's) result"
    and rep :: "'s \<Rightarrow> (listid \<Rightarrow> nat list) \<Rightarrow> bool"
    and frame :: "'s \<Rightarrow> 's \<Rightarrow> bool"
  assumes add_law: "rep s L \<Longrightarrow> (\<And>k. q \<notin> set (L k)) \<Longrightarrow> q < NPROC \<Longrightarrow>
      \<exists>s'. add l (Some q) s = Inr (0, s') \<and> rep s' (L(l := L l @ [q])) \<and> frame s s'"
    and remove_law: "rep s L \<Longrightarrow> q \<in> set (L l) \<Longrightarrow>
      \<exists>s'. remove l (Some q) s = Inr (0, s') \<and> rep s' (L(l := remove1 q (L l))) \<and> frame s s'"
    and missing_law: "rep s L \<Longrightarrow> q \<notin> set (L l) \<Longrightarrow> remove l (Some q) s = Inr (-1, s)"
    and rep_distinct: "rep s L \<Longrightarrow> distinct (L l)"
    and rep_disjoint: "rep s L \<Longrightarrow> l \<noteq> k \<Longrightarrow> set (L l) \<inter> set (L k) = {}"
    and rep_bound: "rep s L \<Longrightarrow> q \<in> set (L l) \<Longrightarrow> q < NPROC"
begin

lemma move:
  assumes rep: "rep s L" and q: "q \<in> set (L a)" and ab: "a \<noteq> b"
    and keep: "\<And>s L. rep s L \<Longrightarrow> rep (f s) L"
  shows "\<exists>s1 s2. remove a (Some q) s = Inr (0, s1) \<and> frame s s1 \<and>
     add b (Some q) (f s1) = Inr (0, s2) \<and> frame (f s1) s2 \<and>
     rep s2 (L(a := remove1 q (L a), b := L b @ [q]))"
proof -
  obtain s1 where s1: "remove a (Some q) s = Inr (0, s1)" "frame s s1"
    and r1: "rep s1 (L(a := remove1 q (L a)))"
    using remove_law [of s L q a] rep q by blast
  have out: "q \<notin> set ((L(a := remove1 q (L a))) k)" for k
    using rep_distinct [OF rep, of a] rep_disjoint [OF rep, of k a] q by auto
  obtain s2 where "add b (Some q) (f s1) = Inr (0, s2)" "frame (f s1) s2"
    and "rep s2 ((L(a := remove1 q (L a)))(b := (L(a := remove1 q (L a))) b @ [q]))"
    using add_law [of "f s1" "L(a := remove1 q (L a))" q b] keep [OF r1] out rep_bound [OF rep q] by blast
  with s1 ab show ?thesis by auto
qed

lemma move_members:
  assumes "rep s L" "q \<in> set (L a)" "a \<noteq> b"
  shows "set ((L(a := remove1 q (L a), b := L b @ [q])) k) =
     (if k = a then set (L a) - {q} else if k = b then insert q (set (L b)) else set (L k))"
  using rep_distinct [OF assms(1), of a] assms(3) by (simp add: set_remove1_eq)

end

lemma lists_rep_list: "lists_rep s L \<Longrightarrow> list_rep s l (L l)"
  by (simp add: lists_rep_def)

lemma lists_rep_update:
  assumes rep: "lists_rep s L" and new: "list_rep t l xs"
    and ends: "\<forall>k. k \<noteq> l \<longrightarrow> heads t k = heads s k \<and> tails t k = tails s k"
    and nx: "\<And>k p. k \<noteq> l \<Longrightarrow> p \<in> set (L k) \<Longrightarrow> nexts t p = nexts s p"
    and dis: "\<And>k. k \<noteq> l \<Longrightarrow> set xs \<inter> set (L k) = {}"
  shows "lists_rep t (L(l := xs))"
proof -
  have "list_rep t k (L k)" if "k \<noteq> l" for k
    by (rule list_rep_frame [of s]) (use rep ends nx that in \<open>auto simp: lists_rep_def\<close>)
  moreover have "set ((L(l := xs)) j) \<inter> set ((L(l := xs)) k) = {}" if "j \<noteq> k" for j k
    using rep dis that by (auto simp: lists_rep_def)
  ultimately show ?thesis using new by (simp add: lists_rep_def)
qed

interpretation sl: list_store stateListAdd stateListRemove lists_rep links_frame
proof (unfold_locales, goal_cases)
  case (1 s L q l)
  from stateListAdd_rep [OF lists_rep_list [OF 1(1)], of q l] 1(2,3)
  obtain t where t: "stateListAdd l (Some q) s = Inr (0, t)" "list_rep t l (L l @ [q])" "links_frame s t"
    and ends: "\<forall>k. k \<noteq> l \<longrightarrow> heads t k = heads s k \<and> tails t k = tails s k"
    and nx: "\<forall>p. p \<notin> set (L l) \<longrightarrow> p \<noteq> q \<longrightarrow> nexts t p = nexts s p"
    by blast
  have "lists_rep t (L(l := L l @ [q]))"
  proof (rule lists_rep_update [OF 1(1) t(2) ends])
    fix k p assume k: "k \<noteq> l" "p \<in> set (L k)"
    with 1(1) have "p \<notin> set (L l)" by (auto simp: lists_rep_def)
    moreover from 1(2) k have "p \<noteq> q" by auto
    ultimately show "nexts t p = nexts s p" using nx by blast
  next
    fix k assume "k \<noteq> l"
    with 1(1) have "set (L l) \<inter> set (L k) = {}" by (simp add: lists_rep_def)
    with 1(2) show "set (L l @ [q]) \<inter> set (L k) = {}" by simp
  qed
  with t show ?case by blast
next
  case (2 s L q l)
  from stateListRemove_rep [OF lists_rep_list [OF 2(1)] 2(2)]
  obtain t where t: "stateListRemove l (Some q) s = Inr (0, t)" "list_rep t l (remove1 q (L l))" "links_frame s t"
    and ends: "\<forall>k. k \<noteq> l \<longrightarrow> heads t k = heads s k \<and> tails t k = tails s k"
    and nx: "\<forall>p. p \<notin> set (L l) \<longrightarrow> nexts t p = nexts s p"
    by blast
  have "lists_rep t (L(l := remove1 q (L l)))"
  proof (rule lists_rep_update [OF 2(1) t(2) ends])
    fix k p assume "k \<noteq> l" "p \<in> set (L k)"
    with 2(1) have "p \<notin> set (L l)" by (auto simp: lists_rep_def)
    then show "nexts t p = nexts s p" using nx by blast
  next
    fix k assume "k \<noteq> l"
    with 2(1) have "set (L l) \<inter> set (L k) = {}" by (simp add: lists_rep_def)
    then show "set (remove1 q (L l)) \<inter> set (L k) = {}"
      using set_remove1_subset [of q "L l"] by blast
  qed
  with t show ?case by blast
next
  case (3 s L q l)
  then show ?case by (intro stateListRemove_missing [OF lists_rep_list])
qed (auto simp: lists_rep_def list_rep_def)

end
