(* ===== verification/Sched.thy ===== *)
theory Sched
  imports State_Lists
begin

section \<open>Process states and scheduling (proc.c with CS333\_P3P4)\<close>

text \<open>
  The operations that move processes between the state lists: the multi-level feedback
  queue scheduler, \<^verbatim>\<open>yield\<close>, \<^verbatim>\<open>sleep\<close>, \<^verbatim>\<open>wakeup\<close>, \<^verbatim>\<open>kill\<close> and \<^verbatim>\<open>setpriority\<close>.
  \<^verbatim>\<open>swtch\<close> ends a step: \<open>yield\<close>, \<open>sleep\<close> and \<open>scheduler_pick\<close> run up to their context
  switch, \<open>scheduler_back\<close>, \<open>yield_rest\<close> and \<open>sleep_rest\<close> continue after it. A loop over
  a linked list reads \<^verbatim>\<open>p->next\<close> after its body, from the state the body left; its fuel
  is one more than the number of processes.
\<close>

subsection \<open>Loops\<close>

text \<open>
  \<open>walk\<close> is \<^verbatim>\<open>for(p = cur; p != 0; p = p->next) body\<close>, where the body may return from the
  function; \<open>first_some\<close> is a counted loop of that kind.
\<close>

fun walk :: "nat \<Rightarrow> (nat \<Rightarrow> kernel \<Rightarrow> ('r option \<times> kernel) result) \<Rightarrow> nat option \<Rightarrow> kernel
    \<Rightarrow> ('r option \<times> kernel) result" where
  "walk 0 f cur s = Inl Diverges"
| "walk (Suc n) f cur s =
     (case cur of None \<Rightarrow> Inr (None, s)
      | Some p \<Rightarrow> rbind (f p s) (\<lambda>(r, s').
          case r of Some v \<Rightarrow> Inr (Some v, s') | None \<Rightarrow> walk n f (nexts s' p) s'))"

fun first_some :: "('a \<Rightarrow> 's \<Rightarrow> ('r option \<times> 's) result) \<Rightarrow> 'a list \<Rightarrow> 's
    \<Rightarrow> ('r option \<times> 's) result" where
  "first_some f [] s = Inr (None, s)"
| "first_some f (x # xs) s = rbind (f x s) (\<lambda>(r, s').
     case r of Some v \<Rightarrow> Inr (Some v, s') | None \<Rightarrow> first_some f xs s')"

definition walk_list :: "(nat \<Rightarrow> kernel \<Rightarrow> ('r option \<times> kernel) result) \<Rightarrow> listid \<Rightarrow> kernel
    \<Rightarrow> ('r option \<times> kernel) result" where
  "walk_list f l s = walk (Suc NPROC) f (heads s l) s"

subsection \<open>Assertions and the state change\<close>

fun states :: "procstate \<Rightarrow> string" where
  "states UNUSED = ''unused''"
| "states EMBRYO = ''embryo''"
| "states SLEEPING = ''sleep ''"
| "states RUNNABLE = ''runble''"
| "states RUNNING = ''run   ''"
| "states ZOMBIE = ''zombie''"

definition assertState :: "nat \<Rightarrow> procstate \<Rightarrow> kernel \<Rightarrow> unit result" where
  "assertState p st s =
     (if p_state (procs s p) \<noteq> st then Inl (Panic (states (p_state (procs s p)))) else Inr ())"

definition assertPrio :: "nat \<Rightarrow> uint \<Rightarrow> kernel \<Rightarrow> unit result" where
  "assertPrio p prio s =
     (if p_priority (procs s p) \<noteq> prio
      then Inl (Panic ''Process removed from priority queue has incorrect priority. assertPrio()'')
      else Inr ())"

definition set_state :: "nat \<Rightarrow> procstate \<Rightarrow> kernel \<Rightarrow> kernel" where
  "set_state p st = upd_proc p (\<lambda>r. r\<lparr>p_state := st\<rparr>)"

definition changeState :: "listid \<Rightarrow> listid \<Rightarrow> nat \<Rightarrow> procstate \<Rightarrow> procstate \<Rightarrow> string
    \<Rightarrow> kernel \<Rightarrow> kernel result" where
  "changeState from_l to_l p stateRemove stateAdd err s =
     rbind (stateListRemove from_l (Some p) s) (\<lambda>(rc, s1).
       if rc = -1 then Inl (Panic err)
       else rbind (assertState p stateRemove s1) (\<lambda>_.
         rbind (stateListAdd to_l (Some p) (set_state p stateAdd s1)) (\<lambda>(rc, s2).
           if rc = -1 then Inl (Panic err) else Inr s2)))"

text \<open>The element \<^verbatim>\<open>ready[prio]\<close> of the array of \<^verbatim>\<open>MAXPRIO+1\<close> ready lists.\<close>

definition readyList :: "uint \<Rightarrow> listid result" where
  "readyList prio = (if unat prio \<le> MAXPRIO then Inr (LReady (unat prio)) else Inl OutOfBounds)"

subsection \<open>Initialisation of the lists\<close>

definition initProcessLists :: "kernel \<Rightarrow> kernel" where
  "initProcessLists s =
     s\<lparr>heads := (\<lambda>l. case l of LReady i \<Rightarrow> if i < MAXPRIO + 1 then None else heads s l | _ \<Rightarrow> None),
       tails := (\<lambda>l. case l of LReady i \<Rightarrow> if i < MAXPRIO + 1 then None else tails s l | _ \<Rightarrow> None)\<rparr>"

definition initFreeList :: "kernel \<Rightarrow> kernel result" where
  "initFreeList s =
     (if \<not> holding PtableLock s
      then Inl (Panic (''acquire the ptable lock before calling initFreeList'' @ [CHR 0x0A]))
      else rfold (\<lambda>p s. rbind (stateListAdd LFree (Some p) (set_state p UNUSED s)) (\<lambda>(rc, s). Inr s))
             [0..<NPROC] s)"

subsection \<open>wakeup\<close>

definition wakeup_visit :: "chan option \<Rightarrow> nat \<Rightarrow> kernel \<Rightarrow> (unit option \<times> kernel) result" where
  "wakeup_visit c p s =
     (if p_chan (procs s p) = c
      then rbind (readyList (p_priority (procs s p))) (\<lambda>r.
           rbind (changeState LSleep r p SLEEPING RUNNABLE ''wakeup1()'' s) (\<lambda>s. Inr (None, s)))
      else Inr (None, s))"

definition wakeup1 :: "chan option \<Rightarrow> kernel \<Rightarrow> kernel result" where
  "wakeup1 c s = rbind (walk_list (wakeup_visit c) LSleep s) (\<lambda>(_, s). Inr s)"

definition wakeup :: "chan option \<Rightarrow> kernel \<Rightarrow> kernel result" where
  "wakeup c s =
     rbind (with_lock PtableLock (\<lambda>s. rbind (wakeup1 c s) (\<lambda>s. Inr ((), s))) s) (\<lambda>(_, s). Inr s)"

subsection \<open>kill\<close>

text \<open>
  The body of the loops of \<^verbatim>\<open>killSearchAll\<close> and \<^verbatim>\<open>killSearchReady\<close>. The inner loop over
  the sleep list returns in its first iteration, so it only ever looks at the head, and
  when the sleep list is empty the search goes on.
\<close>

definition kill_visit :: "uint \<Rightarrow> nat \<Rightarrow> kernel \<Rightarrow> (int option \<times> kernel) result" where
  "kill_visit pid p s =
     (if p_pid (procs s p) = pid
      then
        let s1 = upd_proc p (\<lambda>r. r\<lparr>p_killed := True\<rparr>) s in
        (case heads s1 LSleep of
           None \<Rightarrow> Inr (None, s1)
         | Some pK \<Rightarrow>
             if p = pK
             then rbind (changeState LSleep (LReady 0) p SLEEPING RUNNABLE ''killSearchAll()'' s1)
                    (\<lambda>s2. Inr (Some 0, s2))
             else Inr (Some 0, s1))
      else Inr (None, s))"

definition rc_or_fail :: "int option \<times> kernel \<Rightarrow> int \<times> kernel" where
  "rc_or_fail = (\<lambda>(r, s). (case r of Some v \<Rightarrow> v | None \<Rightarrow> -1, s))"

definition killSearchAll :: "listid \<Rightarrow> uint \<Rightarrow> kernel \<Rightarrow> (int \<times> kernel) result" where
  "killSearchAll l pid s =
     rbind (walk_list (kill_visit pid) l s) (\<lambda>x. Inr (rc_or_fail x))"

definition killSearchReady :: "uint \<Rightarrow> kernel \<Rightarrow> (int \<times> kernel) result" where
  "killSearchReady pid s =
     rbind (first_some (\<lambda>i. walk_list (kill_visit pid) (LReady i)) [0..<MAXPRIO + 1] s)
       (\<lambda>x. Inr (rc_or_fail x))"

text \<open>\<open>or_else\<close> is \<^verbatim>\<open>if(rc == -1) rc = next search\<close>.\<close>

definition or_else :: "(kernel \<Rightarrow> (int \<times> kernel) result) \<Rightarrow> int \<times> kernel \<Rightarrow> (int \<times> kernel) result" where
  "or_else f = (\<lambda>(rc, s). if rc = -1 then f s else Inr (rc, s))"

definition kill_locked :: "uint \<Rightarrow> kernel \<Rightarrow> (int \<times> kernel) result" where
  "kill_locked pid s =
     rbind (killSearchAll LEmbryo pid s) (\<lambda>x.
     rbind (or_else (killSearchReady pid) x) (\<lambda>x.
     rbind (or_else (killSearchAll LSleep pid) x) (\<lambda>x.
     rbind (or_else (killSearchAll LRunning pid) x) (\<lambda>x.
     or_else (killSearchAll LZombie pid) x))))"

definition kill :: "uint \<Rightarrow> kernel \<Rightarrow> (int \<times> kernel) result" where
  "kill pid = with_lock PtableLock (kill_locked pid)"

subsection \<open>setpriority and promotion\<close>

definition set_prio :: "nat \<Rightarrow> uint \<Rightarrow> kernel \<Rightarrow> kernel" where
  "set_prio p prio = upd_proc p (\<lambda>r. r\<lparr>p_priority := prio, p_budget := MAX_BUDGET\<rparr>)"

definition setprio_ready :: "uint \<Rightarrow> uint \<Rightarrow> nat \<Rightarrow> nat \<Rightarrow> kernel \<Rightarrow> (int option \<times> kernel) result" where
  "setprio_ready pid prio i p s =
     (if p_pid (procs s p) = pid
      then if p_priority (procs s p) \<noteq> prio
        then
          rbind (stateListRemove (LReady i) (Some p) s) (\<lambda>(rc, s1).
          if rc = -1
          then Inl (Panic ''Failed to remove process from the proper ready list. setpriority()'')
          else
            rbind (assertState p RUNNABLE s1) (\<lambda>_.
            rbind (assertPrio p (of_nat i) s1) (\<lambda>_.
            let s2 = set_prio p prio s1 in
            rbind (readyList (p_priority (procs s2 p))) (\<lambda>r.
            rbind (stateListAdd r (Some p) s2) (\<lambda>(rc, s3).
              if rc = -1
              then Inl (Panic ''Failed to add process to the proper ready list. setpriority()'')
              else Inr (Some 0, s3))))))
        else Inr (Some 0, s)
      else Inr (None, s))"

definition setprio_visit :: "uint \<Rightarrow> uint \<Rightarrow> procstate \<Rightarrow> nat \<Rightarrow> kernel \<Rightarrow> (int option \<times> kernel) result" where
  "setprio_visit pid prio st p s =
     (if p_pid (procs s p) = pid
      then if p_priority (procs s p) \<noteq> prio
        then rbind (assertState p st s) (\<lambda>_. Inr (Some 0, set_prio p prio s))
        else Inr (Some 0, s)
      else Inr (None, s))"

definition setpriority_locked :: "uint \<Rightarrow> uint \<Rightarrow> kernel \<Rightarrow> (int \<times> kernel) result" where
  "setpriority_locked pid prio s =
     rbind (first_some (\<lambda>i. walk_list (setprio_ready pid prio i) (LReady i)) [0..<MAXPRIO + 1] s) (\<lambda>(r, s).
     case r of Some v \<Rightarrow> Inr (v, s) | None \<Rightarrow>
     rbind (walk_list (setprio_visit pid prio SLEEPING) LSleep s) (\<lambda>(r, s).
     case r of Some v \<Rightarrow> Inr (v, s) | None \<Rightarrow>
     rbind (walk_list (setprio_visit pid prio RUNNING) LRunning s) (\<lambda>(r, s).
     case r of Some v \<Rightarrow> Inr (v, s) | None \<Rightarrow> Inr (-1, s))))"

definition setpriority :: "uint \<Rightarrow> uint \<Rightarrow> kernel \<Rightarrow> (int \<times> kernel) result" where
  "setpriority pid prio = with_lock PtableLock (setpriority_locked pid prio)"

definition promote_one :: "nat \<Rightarrow> nat \<Rightarrow> kernel \<Rightarrow> kernel result" where
  "promote_one i p s =
     rbind (stateListRemove (LReady i) (Some p) s) (\<lambda>(rc, s1).
     if rc = -1
     then Inl (Panic ''Failed to remove process from the proper ready list. promoteProcs()'')
     else
       rbind (assertState p RUNNABLE s1) (\<lambda>_.
       rbind (assertPrio p (of_nat i) s1) (\<lambda>_.
       rbind (stateListAdd (LReady (i - 1)) (Some p)
                (set_prio p (p_priority (procs s1 p) - 1) s1)) (\<lambda>(rc, s2).
         if rc = -1
         then Inl (Panic ''Failed to add process to the proper ready list. promoteProcs()'')
         else Inr s2))))"

fun promote_ready :: "nat \<Rightarrow> nat \<Rightarrow> kernel \<Rightarrow> kernel result" where
  "promote_ready 0 i s = Inl Diverges"
| "promote_ready (Suc n) i s =
     (case heads s (LReady i) of None \<Rightarrow> Inr s
      | Some p \<Rightarrow> rbind (promote_one i p s) (promote_ready n i))"

definition promote_visit :: "procstate \<Rightarrow> nat \<Rightarrow> kernel \<Rightarrow> (unit option \<times> kernel) result" where
  "promote_visit st p s =
     rbind (assertState p st s) (\<lambda>_.
       Inr (None, set_prio p (if 0 < p_priority (procs s p) then p_priority (procs s p) - 1
                              else p_priority (procs s p)) s))"

definition promoteProcs :: "kernel \<Rightarrow> kernel result" where
  "promoteProcs s =
     rbind (rfold (promote_ready (Suc NPROC)) [1..<MAXPRIO + 1] s) (\<lambda>s.
     rbind (walk_list (promote_visit SLEEPING) LSleep s) (\<lambda>(_, s).
     rbind (walk_list (promote_visit RUNNING) LRunning s) (\<lambda>(_, s). Inr s)))"

subsection \<open>Giving up the CPU\<close>

text \<open>
  \<open>sched\<close> runs up to \<^verbatim>\<open>swtch(&proc->context, cpu->scheduler)\<close>, which saves the context
  of the running process; \<open>caller\<close> is where \<^verbatim>\<open>sched\<close> returns to later.
\<close>

definition sched :: "schedcaller \<Rightarrow> kernel \<Rightarrow> kernel result" where
  "sched caller s =
     (if \<not> holding PtableLock s then Inl (Panic ''sched ptable.lock'')
      else if cpu_ncli (cpu_of s) \<noteq> 1 then Inl (Panic ''sched locks'')
      else (case proc_of s of None \<Rightarrow> Inl NullDeref | Some p \<Rightarrow>
        if p_state (procs s p) = RUNNING then Inl (Panic ''sched running'')
        else if cpu_IF (cpu_of s) then Inl (Panic ''sched interruptible'')
        else Inr (upd_proc p (\<lambda>r. r\<lparr>p_cpu_ticks_total :=
                      p_cpu_ticks_total r + (ticks s - p_cpu_ticks_in r),
                    p_context := CtxSched (cpu_intena (cpu_of s)) caller\<rparr>) s)))"

text \<open>
  \<^verbatim>\<open>proc->budget - (ticks - proc->cpu_ticks_in)\<close> is computed in unsigned arithmetic and
  stored in a signed field.
\<close>

definition charge :: "int \<Rightarrow> uint \<Rightarrow> int" where
  "charge b used = sint ((word_of_int b :: uint) - used)"

definition charge_budget :: "nat \<Rightarrow> kernel \<Rightarrow> kernel" where
  "charge_budget p s =
     upd_proc p (\<lambda>r.
       let b = charge (p_budget r) (ticks s - p_cpu_ticks_in r) in
       if b \<le> 0
       then r\<lparr>p_budget := MAX_BUDGET,
              p_priority := (if p_priority r < of_nat MAXPRIO then p_priority r + 1
                             else p_priority r)\<rparr>
       else r\<lparr>p_budget := b\<rparr>) s"

definition yield :: "kernel \<Rightarrow> kernel result" where
  "yield s =
     rbind (acquire PtableLock s) (\<lambda>s.
     case proc_of s of None \<Rightarrow> Inl NullDeref | Some p \<Rightarrow>
       let s1 = charge_budget p s in
       rbind (readyList (p_priority (procs s1 p))) (\<lambda>r.
       rbind (changeState LRunning r p RUNNING RUNNABLE ''yield()'' s1) (\<lambda>s2.
       sched InYield s2)))"

definition sleep :: "chan option \<Rightarrow> lockid option \<Rightarrow> kernel \<Rightarrow> kernel result" where
  "sleep c lk s =
     (case proc_of s of None \<Rightarrow> Inl (Panic ''sleep'') | Some p \<Rightarrow>
        rbind (if lk \<noteq> Some PtableLock
               then rbind (acquire PtableLock s) (\<lambda>s. case lk of None \<Rightarrow> Inr s | Some l \<Rightarrow> release l s)
               else Inr s) (\<lambda>s1.
        let s2 = charge_budget p (upd_proc p (\<lambda>r. r\<lparr>p_chan := c\<rparr>) s1) in
        rbind (changeState LRunning LSleep p RUNNING SLEEPING ''sleep()'' s2) (\<lambda>s3.
        sched (InSleep lk) s3)))"

text \<open>After the switch back into the process: the end of \<^verbatim>\<open>sched\<close>, then of its caller.\<close>

definition sched_return :: "bool \<Rightarrow> kernel \<Rightarrow> kernel" where
  "sched_return intena = upd_cpu (\<lambda>c. c\<lparr>cpu_intena := intena\<rparr>)"

definition yield_rest :: "kernel \<Rightarrow> kernel result" where
  "yield_rest s = release PtableLock s"

definition sleep_wake :: "lockid option \<Rightarrow> kernel \<Rightarrow> kernel result" where
  "sleep_wake lk s =
     (case proc_of s of None \<Rightarrow> Inl NullDeref | Some p \<Rightarrow>
        let s1 = upd_proc p (\<lambda>r. r\<lparr>p_chan := None\<rparr>) s in
        if lk \<noteq> Some PtableLock then release PtableLock s1 else Inr s1)"

definition sleep_relock :: "lockid option \<Rightarrow> kernel \<Rightarrow> kernel result" where
  "sleep_relock lk s =
     (case lk of None \<Rightarrow> Inr s | Some l \<Rightarrow> if l \<noteq> PtableLock then acquire l s else Inr s)"

definition sleep_rest :: "lockid option \<Rightarrow> kernel \<Rightarrow> kernel result" where
  "sleep_rest lk s = rbind (sleep_wake lk s) (sleep_relock lk)"

subsection \<open>The scheduler\<close>

text \<open>
  Of \<^verbatim>\<open>switchuvm\<close> the check of the page directory and the nesting of
  \<^verbatim>\<open>pushcli\<close> and \<^verbatim>\<open>popcli\<close> are modelled; the task-state segment and the page-table
  register are not part of the state.
\<close>

definition switchuvm :: "nat \<Rightarrow> kernel \<Rightarrow> kernel result" where
  "switchuvm p s =
     (let s1 = pushcli s in
      if proc_of s1 = None then Inl NullDeref
      else if p_pgdir (procs s1 p) = 0 then Inl (Panic ''switchuvm: no pgdir'')
      else popcli s1)"

definition set_proc :: "nat option \<Rightarrow> kernel \<Rightarrow> kernel" where
  "set_proc p = upd_cpu (\<lambda>c. c\<lparr>cpu_proc := p\<rparr>)"

definition sti :: "kernel \<Rightarrow> kernel" where
  "sti = upd_cpu (\<lambda>c. c\<lparr>cpu_IF := True\<rparr>)"

definition dispatch :: "nat \<Rightarrow> nat \<Rightarrow> kernel \<Rightarrow> kernel result" where
  "dispatch i p s =
     rbind (switchuvm p (set_proc (Some p) s)) (\<lambda>s1.
     rbind (stateListRemove (LReady i) (Some p) s1) (\<lambda>(rc, s2).
     if rc = -1
     then Inl (Panic ''Process failed to be removed from the ready list. scheduler()'')
     else
       rbind (assertState p RUNNABLE s2) (\<lambda>_.
       rbind (assertPrio p (of_nat i) s2) (\<lambda>_.
       rbind (stateListAdd LRunning (Some p) (set_state p RUNNING s2)) (\<lambda>(rc, s3).
       if rc = -1
       then Inl (Panic ''Process failed to be added to the proper ready list. scheduler()'')
       else Inr (upd_proc p (\<lambda>r. r\<lparr>p_cpu_ticks_in := ticks s3\<rparr>) s3))))))"

text \<open>The loop over the priorities: the first process of the first ready list that has one.\<close>

definition pick_ready :: "nat \<Rightarrow> kernel \<Rightarrow> (nat option \<times> kernel) result" where
  "pick_ready i s =
     (case heads s (LReady i) of None \<Rightarrow> Inr (None, s)
      | Some p \<Rightarrow> rbind (dispatch i p s) (\<lambda>s'. Inr (Some p, s')))"

definition promote_check :: "kernel \<Rightarrow> kernel result" where
  "promote_check s =
     (if PromoteAtTime s \<le> ticks s
      then rbind (promoteProcs s) (\<lambda>s. Inr (s\<lparr>PromoteAtTime := ticks s + TICKS_TO_PROMOTE\<rparr>))
      else Inr s)"

text \<open>
  One turn of the loop of \<^verbatim>\<open>scheduler\<close>: up to \<^verbatim>\<open>swtch\<close> into the process returned, or, with
  every ready list empty, to the end of the turn with the lock released and interrupts on.
\<close>

definition scheduler_pick :: "kernel \<Rightarrow> (nat option \<times> kernel) result" where
  "scheduler_pick s =
     rbind (acquire PtableLock (sti s)) (\<lambda>s.
     rbind (promote_check s) (\<lambda>s.
     rbind (first_some pick_ready [0..<MAXPRIO + 1] s) (\<lambda>(r, s).
     case r of Some p \<Rightarrow> Inr (Some p, s)
     | None \<Rightarrow> rbind (release PtableLock s) (\<lambda>s. Inr (None, sti s)))))"

text \<open>After the switch back to the scheduler.\<close>

definition scheduler_back :: "kernel \<Rightarrow> kernel result" where
  "scheduler_back s = release PtableLock (set_proc None s)"

end
