(* ===== verification/Sched_Inv.thy ===== *)
theory Sched_Inv
  imports Sched
begin

section \<open>The process table invariant and the list operations\<close>

text \<open>
  The invariant that ties the states of the processes to the lists they are on, how the
  building blocks of Sched act on it, and the exact effect of \<^verbatim>\<open>wakeup1\<close>, \<^verbatim>\<open>kill\<close>,
  \<^verbatim>\<open>setpriority\<close>, \<^verbatim>\<open>promoteProcs\<close>, \<^verbatim>\<open>yield\<close>, \<^verbatim>\<open>sleep\<close> and the scheduler on the lists.
\<close>

subsection \<open>Framing\<close>

lemma links_frame_eq:
  assumes "links_frame s t"
  shows "locks t = locks s" "cpus t = cpus s" "cpuno t = cpuno s"
    "PromoteAtTime t = PromoteAtTime s" "initproc t = initproc s" "nextpid t = nextpid s"
    "ticks t = ticks s" "mem t = mem s" "freelist t = freelist s" "use_lock t = use_lock s"
    "kend t = kend s" "cpu_of t = cpu_of s" "proc_of t = proc_of s"
proof -
  from assms have e: "t\<lparr>procs := procs s, heads := heads s, tails := tails s\<rparr> = s"
    by (simp add: links_frame_def)
  show "locks t = locks s" "cpus t = cpus s" "cpuno t = cpuno s"
    "PromoteAtTime t = PromoteAtTime s" "initproc t = initproc s" "nextpid t = nextpid s"
    "ticks t = ticks s" "mem t = mem s" "freelist t = freelist s" "use_lock t = use_lock s"
    "kend t = kend s"
    by (subst e [symmetric], simp)+
  then show "cpu_of t = cpu_of s" "proc_of t = proc_of s"
    by (simp_all add: cpu_of_def proc_of_def)
qed

lemma links_frame_proc:
  assumes "links_frame s t"
  shows "p_sz (procs t p) = p_sz (procs s p)" "p_pgdir (procs t p) = p_pgdir (procs s p)"
    "p_kstack (procs t p) = p_kstack (procs s p)" "p_state (procs t p) = p_state (procs s p)"
    "p_pid (procs t p) = p_pid (procs s p)" "p_parent (procs t p) = p_parent (procs s p)"
    "p_tf (procs t p) = p_tf (procs s p)" "p_context (procs t p) = p_context (procs s p)"
    "p_chan (procs t p) = p_chan (procs s p)" "p_killed (procs t p) = p_killed (procs s p)"
    "p_ofile (procs t p) = p_ofile (procs s p)" "p_cwd (procs t p) = p_cwd (procs s p)"
    "p_name (procs t p) = p_name (procs s p)"
    "p_start_ticks (procs t p) = p_start_ticks (procs s p)"
    "p_gid (procs t p) = p_gid (procs s p)" "p_uid (procs t p) = p_uid (procs s p)"
    "p_cpu_ticks_total (procs t p) = p_cpu_ticks_total (procs s p)"
    "p_cpu_ticks_in (procs t p) = p_cpu_ticks_in (procs s p)"
    "p_priority (procs t p) = p_priority (procs s p)" "p_budget (procs t p) = p_budget (procs s p)"
proof -
  from assms have e: "(procs t p)\<lparr>p_next := p_next (procs s p)\<rparr> = procs s p"
    by (simp add: links_frame_def)
  show "p_sz (procs t p) = p_sz (procs s p)" "p_pgdir (procs t p) = p_pgdir (procs s p)"
    "p_kstack (procs t p) = p_kstack (procs s p)" "p_state (procs t p) = p_state (procs s p)"
    "p_pid (procs t p) = p_pid (procs s p)" "p_parent (procs t p) = p_parent (procs s p)"
    "p_tf (procs t p) = p_tf (procs s p)" "p_context (procs t p) = p_context (procs s p)"
    "p_chan (procs t p) = p_chan (procs s p)" "p_killed (procs t p) = p_killed (procs s p)"
    "p_ofile (procs t p) = p_ofile (procs s p)" "p_cwd (procs t p) = p_cwd (procs s p)"
    "p_name (procs t p) = p_name (procs s p)"
    "p_start_ticks (procs t p) = p_start_ticks (procs s p)"
    "p_gid (procs t p) = p_gid (procs s p)" "p_uid (procs t p) = p_uid (procs s p)"
    "p_cpu_ticks_total (procs t p) = p_cpu_ticks_total (procs s p)"
    "p_cpu_ticks_in (procs t p) = p_cpu_ticks_in (procs s p)"
    "p_priority (procs t p) = p_priority (procs s p)" "p_budget (procs t p) = p_budget (procs s p)"
    by (subst e [symmetric], simp)+
qed

lemma links_frame_trans: "links_frame s t \<Longrightarrow> links_frame t u \<Longrightarrow> links_frame s u"
proof -
  assume st: "links_frame s t" and tu: "links_frame t u"
  have "u\<lparr>procs := procs s, heads := heads s, tails := tails s\<rparr> = s"
    using st tu by (cases s; cases t; cases u) (simp add: links_frame_def)
  moreover have "(procs u p)\<lparr>p_next := p_next (procs s p)\<rparr> = procs s p" for p
  proof -
    have u: "procs t p = (procs u p)\<lparr>p_next := p_next (procs t p)\<rparr>"
      and t: "(procs t p)\<lparr>p_next := p_next (procs s p)\<rparr> = procs s p"
      using st tu by (simp_all add: links_frame_def)
    have "(procs u p)\<lparr>p_next := p_next (procs t p), p_next := p_next (procs s p)\<rparr> = procs s p"
      unfolding u [symmetric] by (rule t)
    then show ?thesis by simp
  qed
  ultimately show ?thesis by (simp add: links_frame_def)
qed

lemma links_frame_upd:
  assumes f: "\<And>r n. f (r\<lparr>p_next := n\<rparr>) = (f r)\<lparr>p_next := n\<rparr>" and fr: "links_frame s t"
  shows "links_frame (upd_proc p f s) (upd_proc p f t)"
proof -
  have "(upd_proc p f t)\<lparr>procs := procs (upd_proc p f s), heads := heads (upd_proc p f s),
      tails := tails (upd_proc p f s)\<rparr> = upd_proc p f s"
    using fr by (cases s; cases t) (simp add: links_frame_def upd_proc_def)
  moreover have "(f (procs t p))\<lparr>p_next := p_next (f (procs s p))\<rparr> = f (procs s p)"
  proof -
    from fr have e: "(procs t p)\<lparr>p_next := p_next (procs s p)\<rparr> = procs s p"
      by (simp add: links_frame_def)
    have "f (procs s p) = (f (procs t p))\<lparr>p_next := p_next (procs s p)\<rparr>"
      by (subst e [symmetric]) (rule f)
    then show ?thesis by simp
  qed
  moreover have "(procs t q)\<lparr>p_next := p_next (procs s q)\<rparr> = procs s q" for q
    using fr by (simp add: links_frame_def)
  ultimately show ?thesis by (simp add: links_frame_def)
qed

lemma nexts_upd_proc:
  assumes "\<And>r. p_next (f r) = p_next r"
  shows "nexts (upd_proc p f s) = nexts s"
  using assms by (auto simp: nexts_def fun_eq_iff)

lemma lists_rep_upd_proc:
  assumes "\<And>r. p_next (f r) = p_next r"
  shows "lists_rep (upd_proc p f s) L = lists_rep s L"
  using nexts_upd_proc [OF assms] by (simp add: lists_rep_def list_rep_def)

lemma links_frame_lock_frame: "links_frame s t \<Longrightarrow> lock_frame s t"
  by (intro lock_frame_same) (simp_all add: links_frame_eq)

subsection \<open>The invariant\<close>

fun list_state :: "listid \<Rightarrow> procstate" where
  "list_state (LReady i) = RUNNABLE"
| "list_state LFree = UNUSED"
| "list_state LSleep = SLEEPING"
| "list_state LZombie = ZOMBIE"
| "list_state LRunning = RUNNING"
| "list_state LEmbryo = EMBRYO"

fun valid_list :: "listid \<Rightarrow> bool" where
  "valid_list (LReady i) = (i \<le> MAXPRIO)"
| "valid_list _ = True"

text \<open>
  Every process is on exactly one list, and that list is the one of its state. The ready
  lists hold processes of their priority only; no priority is above \<open>MAXPRIO\<close>.
\<close>

definition pt_rep :: "kernel \<Rightarrow> (listid \<Rightarrow> nat list) \<Rightarrow> bool" where
  "pt_rep s L \<longleftrightarrow>
     lists_rep s L \<and>
     (\<forall>l p. p \<in> set (L l) \<longrightarrow> p_state (procs s p) = list_state l) \<and>
     (\<forall>p<NPROC. \<exists>l. p \<in> set (L l)) \<and>
     (\<forall>l. \<not> valid_list l \<longrightarrow> L l = [])"

definition ready_prio :: "kernel \<Rightarrow> (listid \<Rightarrow> nat list) \<Rightarrow> bool" where
  "ready_prio s L \<longleftrightarrow> (\<forall>i p. p \<in> set (L (LReady i)) \<longrightarrow> unat (p_priority (procs s p)) = i)"

definition prio_bound :: "kernel \<Rightarrow> bool" where
  "prio_bound s \<longleftrightarrow> (\<forall>p<NPROC. unat (p_priority (procs s p)) \<le> MAXPRIO)"

definition pt_inv :: "kernel \<Rightarrow> bool" where
  "pt_inv s \<longleftrightarrow> (\<exists>L. pt_rep s L \<and> ready_prio s L) \<and> prio_bound s"

definition list_move :: "(listid \<Rightarrow> nat list) \<Rightarrow> listid \<Rightarrow> listid \<Rightarrow> nat \<Rightarrow> listid \<Rightarrow> nat list" where
  "list_move L a b p = L(a := remove1 p (L a), b := L b @ [p])"

lemma pt_rep_lists: "pt_rep s L \<Longrightarrow> lists_rep s L"
  by (simp add: pt_rep_def)

lemma pt_rep_plist: "pt_rep s L \<Longrightarrow> plist (nexts s) (heads s l) (L l)"
  by (simp add: pt_rep_def lists_rep_def list_rep_def)

lemma pt_rep_state: "pt_rep s L \<Longrightarrow> p \<in> set (L l) \<Longrightarrow> p_state (procs s p) = list_state l"
  by (simp add: pt_rep_def)

lemma pt_rep_length: "pt_rep s L \<Longrightarrow> length (L l) \<le> NPROC"
  using list_rep_length by (auto simp: pt_rep_def lists_rep_def)

lemma pt_rep_distinct: "pt_rep s L \<Longrightarrow> distinct (L l)"
  using pt_rep_lists sl.rep_distinct by blast

lemma pt_rep_bound: "pt_rep s L \<Longrightarrow> p \<in> set (L l) \<Longrightarrow> p < NPROC"
  using pt_rep_lists sl.rep_bound by blast

lemma pt_rep_valid: "pt_rep s L \<Longrightarrow> p \<in> set (L l) \<Longrightarrow> valid_list l"
  by (auto simp: pt_rep_def)

lemma pt_rep_unique_list: "pt_rep s L \<Longrightarrow> p \<in> set (L l) \<Longrightarrow> p \<in> set (L k) \<Longrightarrow> l = k"
  using pt_rep_lists sl.rep_disjoint by fastforce

text \<open>The list a process of a given state is on.\<close>

lemma pt_rep_on_list:
  assumes "pt_rep s L" "p < NPROC" "p_state (procs s p) = list_state l" "\<And>i. l \<noteq> LReady i"
  shows "p \<in> set (L l)"
proof -
  from assms(1,2) obtain k where k: "p \<in> set (L k)" by (auto simp: pt_rep_def)
  with assms(1,3) have "list_state k = list_state l" using pt_rep_state by fastforce
  with assms(4) have "k = l" by (cases k; cases l) auto
  with k show ?thesis by simp
qed

lemma pt_rep_head:
  assumes "pt_rep s L"
  shows "heads s l = (case L l of [] \<Rightarrow> None | p # _ \<Rightarrow> Some p)"
  using pt_rep_plist [OF assms, of l] by (cases "L l") auto

lemma set_list_move:
  assumes "pt_rep s L" "p \<in> set (L a)" "a \<noteq> b"
  shows "set (list_move L a b p k) =
     (if k = a then set (L a) - {p} else if k = b then insert p (set (L b)) else set (L k))"
  using sl.move_members [OF pt_rep_lists [OF assms(1)] assms(2,3)] by (simp add: list_move_def)

text \<open>Moving a process, with any change to its record that gives it the state of its new list.\<close>

lemma pt_rep_move:
  assumes rep: "pt_rep s L" and p: "p \<in> set (L a)" and ab: "a \<noteq> b" and b: "valid_list b"
    and f: "\<And>r n. f (r\<lparr>p_next := n\<rparr>) = (f r)\<lparr>p_next := n\<rparr>" "\<And>r. p_next (f r) = p_next r"
    and st: "\<And>r. p_state r = list_state a \<Longrightarrow> p_state (f r) = list_state b"
  shows "\<exists>s1 s2. stateListRemove a (Some p) s = Inr (0, s1) \<and> links_frame s s1 \<and>
     stateListAdd b (Some p) (upd_proc p f s1) = Inr (0, s2) \<and> links_frame (upd_proc p f s) s2 \<and>
     pt_rep s2 (list_move L a b p)"
proof -
  have keep: "lists_rep (upd_proc p f s) L" if "lists_rep s L" for s L
    using that lists_rep_upd_proc [OF f(2)] by simp
  obtain s1 s2 where s1: "stateListRemove a (Some p) s = Inr (0, s1)" "links_frame s s1"
    and s2: "stateListAdd b (Some p) (upd_proc p f s1) = Inr (0, s2)" "links_frame (upd_proc p f s1) s2"
    and r2: "lists_rep s2 (list_move L a b p)"
    using sl.move [OF pt_rep_lists [OF rep] p ab, of "upd_proc p f"] keep
    unfolding list_move_def by blast
  have fr: "links_frame (upd_proc p f s) s2"
    using links_frame_upd [OF f(1) s1(2)] s2(2) links_frame_trans by blast
  have states: "p_state (procs s2 q) = list_state l" if "q \<in> set (list_move L a b p l)" for q l
  proof -
    have "p_state (procs s2 q) = p_state (procs (upd_proc p f s) q)"
      by (rule links_frame_proc [OF fr])
    then show ?thesis
      using that pt_rep_state [OF rep] pt_rep_unique_list [OF rep, of q l a] st p
      unfolding set_list_move [OF rep p ab] by (auto split: if_splits)
  qed
  have "\<exists>l. q \<in> set (list_move L a b p l)" if "q < NPROC" for q
  proof -
    from rep that obtain l where l: "q \<in> set (L l)" by (auto simp: pt_rep_def)
    show ?thesis
      using l unfolding set_list_move [OF rep p ab] by (metis Diff_iff ab insert_iff singletonD)
  qed
  moreover have "list_move L a b p l = []" if "\<not> valid_list l" for l
    using that rep b p pt_rep_valid [OF rep p] by (auto simp: list_move_def pt_rep_def)
  ultimately have "pt_rep s2 (list_move L a b p)"
    using r2 states by (auto simp: pt_rep_def)
  with s1 s2 fr show ?thesis by blast
qed

lemma changeState_ok:
  assumes rep: "pt_rep s L" and p: "p \<in> set (L a)" and ab: "a \<noteq> b" and b: "valid_list b"
    and st: "st = list_state a" "st' = list_state b"
  shows "\<exists>s'. changeState a b p st st' err s = Inr s' \<and> pt_rep s' (list_move L a b p) \<and>
     links_frame (set_state p st' s) s'"
proof -
  obtain s1 s2 where s1: "stateListRemove a (Some p) s = Inr (0, s1)" "links_frame s s1"
    and s2: "stateListAdd b (Some p) (set_state p st' s1) = Inr (0, s2)"
    and fr: "links_frame (set_state p st' s) s2" and r2: "pt_rep s2 (list_move L a b p)"
    using pt_rep_move [OF rep p ab b, of "\<lambda>r. r\<lparr>p_state := st'\<rparr>"] st unfolding set_state_def by auto
  have "assertState p st s1 = Inr ()"
    using pt_rep_state [OF rep p] links_frame_proc(4) [OF s1(2)] st by (simp add: assertState_def)
  with s1 s2 fr r2 show ?thesis by (simp add: changeState_def)
qed

lemma prio_bound_frame:
  assumes "links_frame s t" "prio_bound s"
  shows "prio_bound t"
  using assms(2) links_frame_proc [OF assms(1)] by (simp add: prio_bound_def)

subsection \<open>Loops over a list\<close>

lemma plist_last_next: "plist nx h (xs @ [q]) \<Longrightarrow> nx q = None"
  by (induction xs arbitrary: h) (auto simp: plist_Some)

lemma walk_skip:
  assumes "plist (nexts s) cur (xs @ ys)" "\<And>p. p \<in> set xs \<Longrightarrow> f p s = Inr (None, s)" "length xs \<le> n"
  shows "\<exists>cur'. plist (nexts s) cur' ys \<and> walk n f cur s = walk (n - length xs) f cur' s"
  using assms
proof (induction xs arbitrary: cur n)
  case Nil
  then show ?case by auto
next
  case (Cons x xs)
  from Cons.prems(1) have c: "cur = Some x" "plist (nexts s) (nexts s x) (xs @ ys)" by auto
  from Cons.prems(3) obtain m where n: "n = Suc m" "length xs \<le> m" by (cases n) auto
  from Cons.IH [OF c(2) _ n(2)] Cons.prems(2) obtain cur' where
    "plist (nexts s) cur' ys" "walk m f (nexts s x) s = walk (m - length xs) f cur' s" by auto
  with c n Cons.prems(2) [of x] show ?case by auto
qed

lemma walk_all:
  assumes "plist (nexts s) cur xs" "\<And>p. p \<in> set xs \<Longrightarrow> f p s = Inr (None, s)" "length xs < n"
  shows "walk n f cur s = Inr (None, s)"
proof -
  from walk_skip [where ys = "[]" and xs = xs and f = f and n = n and cur = cur and s = s] assms
  obtain cur' where "plist (nexts s) cur' []" "walk n f cur s = walk (n - length xs) f cur' s"
    by auto
  with assms(3) show ?thesis by (cases "n - length xs") auto
qed

text \<open>A body that changes the state but not the links visits every element.\<close>

lemma walk_fold:
  assumes "plist (nexts s) cur xs" "P s" "length xs < n"
    and "\<And>p t. p \<in> set xs \<Longrightarrow> P t \<Longrightarrow> f p t = Inr (None, g p t) \<and> P (g p t) \<and> nexts (g p t) = nexts t"
  shows "walk n f cur s = Inr (None, fold g xs s) \<and> P (fold g xs s)"
  using assms
proof (induction xs arbitrary: cur n s)
  case Nil
  then show ?case by (cases n) auto
next
  case (Cons x xs)
  from Cons.prems(1) have c: "cur = Some x" "plist (nexts s) (nexts s x) xs" by auto
  from Cons.prems(3) obtain m where n: "n = Suc m" "length xs < m" by (cases n) auto
  have x: "f x s = Inr (None, g x s)" "P (g x s)" "nexts (g x s) = nexts s"
    using Cons.prems(4) [of x s] Cons.prems(2) by auto
  have "walk m f (nexts s x) (g x s) = Inr (None, fold g xs (g x s)) \<and> P (fold g xs (g x s))"
    by (rule Cons.IH) (use c n x Cons.prems(4) in auto)
  with c n x show ?case by simp
qed

text \<open>A loop that stops at the first element with a property.\<close>

lemma walk_find:
  assumes "plist (nexts s) cur xs" "length xs < n"
    and "\<And>p. p \<in> set xs \<Longrightarrow> \<not> Q p \<Longrightarrow> f p s = Inr (None, s)"
  shows "case find Q xs of None \<Rightarrow> walk n f cur s = Inr (None, s)
     | Some p \<Rightarrow> \<exists>m. walk n f cur s = walk (Suc (Suc m)) f (Some p) s"
proof (cases "find Q xs")
  case None
  then have "\<And>p. p \<in> set xs \<Longrightarrow> \<not> Q p" by (auto simp: find_None_iff)
  with assms walk_all [of s cur xs f n] None show ?thesis by simp
next
  case (Some p)
  then obtain i where i: "i < length xs" "p = xs ! i" "\<And>j. j < i \<Longrightarrow> \<not> Q (xs ! j)"
    by (auto simp: find_Some_iff)
  have "xs = take i xs @ p # drop (Suc i) xs" using i by (simp add: id_take_nth_drop)
  then have pl: "plist (nexts s) cur (take i xs @ p # drop (Suc i) xs)" using assms(1) by simp
  have "f q s = Inr (None, s)" if "q \<in> set (take i xs)" for q
  proof -
    from that obtain j where "j < i" "q = xs ! j" by (auto simp: in_set_conv_nth)
    with i assms(3) show ?thesis by simp
  qed
  from walk_skip [where f = f and n = n, OF pl this] i assms(2)
  obtain cur' where c: "plist (nexts s) cur' (p # drop (Suc i) xs)"
    "walk n f cur s = walk (n - i) f cur' s" by auto
  obtain k where "n - i = Suc (Suc k)"
    using i assms(2) by (metis Suc_diff_Suc less_trans_Suc Suc_lessD)
  with c have "walk n f cur s = walk (Suc (Suc k)) f (Some p) s" by simp
  then show ?thesis unfolding Some option.case by (rule exI)
qed

lemma walk_list_find:
  assumes "pt_rep s L" "\<And>p. p \<in> set (L l) \<Longrightarrow> \<not> Q p \<Longrightarrow> f p s = Inr (None, s)"
  shows "case find Q (L l) of None \<Rightarrow> walk_list f l s = Inr (None, s)
     | Some p \<Rightarrow> \<exists>m. walk_list f l s = walk (Suc (Suc m)) f (Some p) s"
  unfolding walk_list_def
  by (rule walk_find [OF pt_rep_plist [OF assms(1)]])
    (use assms pt_rep_length in \<open>auto simp: less_Suc_eq_le\<close>)

subsection \<open>wakeup\<close>

lemma readyList_ok: "unat pr \<le> MAXPRIO \<Longrightarrow> readyList pr = Inr (LReady (unat pr))"
  by (simp add: readyList_def)

lemma move_end_next:
  assumes "pt_rep s (list_move L a b p)"
  shows "nexts s p = None"
  using plist_last_next pt_rep_plist [OF assms, of b] by (fastforce simp: list_move_def)

lemma wakeup1_effect:
  assumes rep: "pt_rep s L" and pb: "prio_bound s"
  shows "case find (\<lambda>p. p_chan (procs s p) = c) (L LSleep) of
     None \<Rightarrow> wakeup1 c s = Inr s
   | Some p \<Rightarrow> \<exists>s'. wakeup1 c s = Inr s' \<and>
       pt_rep s' (list_move L LSleep (LReady (unat (p_priority (procs s p)))) p) \<and>
       links_frame (set_state p RUNNABLE s) s'"
proof (cases "find (\<lambda>p. p_chan (procs s p) = c) (L LSleep)")
  case None
  with walk_list_find [OF rep, of LSleep "\<lambda>p. p_chan (procs s p) = c" "wakeup_visit c"]
  show ?thesis by (simp add: wakeup1_def wakeup_visit_def)
next
  case (Some p)
  then have p: "p \<in> set (L LSleep)" "p_chan (procs s p) = c" by (auto simp: find_Some_iff)
  let ?r = "LReady (unat (p_priority (procs s p)))"
  have v: "unat (p_priority (procs s p)) \<le> MAXPRIO"
    using pb pt_rep_bound [OF rep p(1)] by (simp add: prio_bound_def)
  from changeState_ok [OF rep p(1), of ?r SLEEPING RUNNABLE "''wakeup1()''"] v
  obtain s' where s': "changeState LSleep ?r p SLEEPING RUNNABLE ''wakeup1()'' s = Inr s'"
    "pt_rep s' (list_move L LSleep ?r p)" "links_frame (set_state p RUNNABLE s) s'" by auto
  have visit: "wakeup_visit c p s = Inr (None, s')"
    using s'(1) p(2) v by (simp add: wakeup_visit_def readyList_ok)
  from walk_list_find [OF rep, of LSleep "\<lambda>p. p_chan (procs s p) = c" "wakeup_visit c"] Some
  obtain m where "walk_list (wakeup_visit c) LSleep s = walk (Suc (Suc m)) (wakeup_visit c) (Some p) s"
    by (auto simp: wakeup_visit_def)
  also have "\<dots> = Inr (None, s')"
    using visit move_end_next [OF s'(2)] by simp
  finally show ?thesis using Some s' by (simp add: wakeup1_def)
qed

subsection \<open>The invariant with the locks\<close>

definition pt_ok :: "kernel \<Rightarrow> bool" where
  "pt_ok s \<longleftrightarrow> (\<exists>L. pt_rep s L) \<and> prio_bound s"

lemma pt_inv_ok: "pt_inv s \<Longrightarrow> pt_ok s"
  by (auto simp: pt_inv_def pt_ok_def)

lemma pt_rep_cong:
  assumes "heads t = heads s" "tails t = tails s" "nexts t = nexts s"
    "\<And>p. p_state (procs t p) = p_state (procs s p)"
  shows "pt_rep t L = pt_rep s L"
  using assms by (simp add: pt_rep_def lists_rep_def list_rep_def)

lemma pt_procs_cong:
  assumes "heads t = heads s" "tails t = tails s" "procs t = procs s"
  shows "pt_rep t L = pt_rep s L" "ready_prio t L = ready_prio s L" "prio_bound t = prio_bound s"
    "pt_inv t = pt_inv s" "pt_ok t = pt_ok s"
proof -
  have n: "nexts t = nexts s" using assms(3) by (simp add: nexts_def fun_eq_iff)
  show rep: "pt_rep t L = pt_rep s L" for L by (rule pt_rep_cong) (simp_all add: assms n)
  show rp: "ready_prio t L = ready_prio s L" for L using assms(3) by (simp add: ready_prio_def)
  show pb: "prio_bound t = prio_bound s" using assms(3) by (simp add: prio_bound_def)
  show "pt_inv t = pt_inv s" "pt_ok t = pt_ok s"
    by (simp_all add: rep rp pb pt_inv_def pt_ok_def)
qed

lemmas pt_acquired [simp] = pt_procs_cong [of "acquired l s" s for l s, simplified]
lemmas pt_released [simp] = pt_procs_cong [of "released l s" s for l s, simplified]
lemmas pt_upd_cpu [simp] = pt_procs_cong [of "upd_cpu f s" s for f s, simplified]

lemma ready_prio_move:
  assumes rep: "pt_rep s L" and rp: "ready_prio s L" and p: "p \<in> set (L a)" and ab: "a \<noteq> b"
    and same: "\<And>q. q \<noteq> p \<Longrightarrow> p_priority (procs t q) = p_priority (procs s q)"
    and to: "\<And>i. b = LReady i \<Longrightarrow> unat (p_priority (procs t p)) = i"
  shows "ready_prio t (list_move L a b p)"
  unfolding ready_prio_def
proof (intro allI impI)
  fix i q
  assume q: "q \<in> set (list_move L a b p (LReady i))"
  show "unat (p_priority (procs t q)) = i"
  proof (cases "q = p")
    case True
    with q have "LReady i = b"
      using pt_rep_unique_list [OF rep p, of "LReady i"]
      unfolding set_list_move [OF rep p ab] by (auto split: if_splits)
    with to True show ?thesis by blast
  next
    case False
    with q have "q \<in> set (L (LReady i))"
      unfolding set_list_move [OF rep p ab] by (auto split: if_splits)
    with rp same False show ?thesis by (simp add: ready_prio_def)
  qed
qed

text \<open>What a wakeup may change: links and states of processes, and nothing else.\<close>

definition woken :: "procstate \<Rightarrow> procstate \<Rightarrow> bool" where
  "woken a b \<longleftrightarrow> b = a \<or> a = SLEEPING \<and> b = RUNNABLE"

lemma woken_refl [simp]: "woken a a"
  by (simp add: woken_def)

definition wake_frame :: "kernel \<Rightarrow> kernel \<Rightarrow> bool" where
  "wake_frame s t \<longleftrightarrow> lock_frame s t \<and> sync_frame s t \<and>
     (\<forall>p. (procs t p)\<lparr>p_state := p_state (procs s p), p_next := p_next (procs s p)\<rparr> = procs s p) \<and>
     (\<forall>p. woken (p_state (procs s p)) (p_state (procs t p)))"

lemma wake_frame_refl [simp]: "wake_frame s s"
  by (simp add: wake_frame_def)

lemma links_frame_sync: "links_frame s t \<Longrightarrow> sync_frame s t"
  by (cases s; cases t) (simp add: links_frame_def sync_frame_def)

lemma wakeup1_frame:
  assumes "pt_rep s L" "prio_bound s"
  shows "\<exists>s' L'. wakeup1 c s = Inr s' \<and> pt_rep s' L' \<and> prio_bound s' \<and>
     (ready_prio s L \<longrightarrow> ready_prio s' L') \<and>
     locks s' = locks s \<and> cpus s' = cpus s \<and> sync_frame s s' \<and>
     (\<forall>p. (procs s' p)\<lparr>p_state := p_state (procs s p), p_next := p_next (procs s p)\<rparr> = procs s p) \<and>
     (\<forall>p. woken (p_state (procs s p)) (p_state (procs s' p)))"
proof (cases "find (\<lambda>p. p_chan (procs s p) = c) (L LSleep)")
  case None
  with wakeup1_effect [OF assms, of c] assms show ?thesis by auto
next
  case (Some p)
  then have p: "p \<in> set (L LSleep)" by (auto simp: find_Some_iff)
  let ?L = "list_move L LSleep (LReady (unat (p_priority (procs s p)))) p"
  from wakeup1_effect [OF assms, of c] Some obtain s' where s': "wakeup1 c s = Inr s'"
    "pt_rep s' ?L" "links_frame (set_state p RUNNABLE s) s'" by auto
  have pr: "p_priority (procs s' q) = p_priority (procs s q)" for q
    using links_frame_proc [OF s'(3)] by (simp add: set_state_def)
  have "ready_prio s' ?L" if "ready_prio s L"
    by (rule ready_prio_move [OF assms(1) that p]) (simp_all add: pr)
  moreover have "prio_bound s'" using assms(2) pr by (simp add: prio_bound_def)
  moreover have "locks s' = locks s" "cpus s' = cpus s"
    using links_frame_eq [OF s'(3)] by (simp_all add: set_state_def)
  moreover have "sync_frame s s'"
    using links_frame_sync [OF s'(3)] sync_frame_trans [OF sync_frame_upd_proc]
    by (simp add: set_state_def)
  moreover have "(procs s' q)\<lparr>p_state := p_state (procs s q), p_next := p_next (procs s q)\<rparr> = procs s q" for q
  proof -
    have "(procs s' q)\<lparr>p_next := p_next (procs (set_state p RUNNABLE s) q)\<rparr> = procs (set_state p RUNNABLE s) q"
      using s'(3) by (simp add: links_frame_def)
    then show ?thesis
      by (cases "procs s' q"; cases "procs s q") (auto simp: set_state_def split: if_splits)
  qed
  moreover have "woken (p_state (procs s q)) (p_state (procs s' q))" for q
    using links_frame_proc(4) [OF s'(3), of q] pt_rep_state [OF assms(1) p]
    by (simp add: set_state_def woken_def)
  ultimately show ?thesis using s' by blast
qed

lemma wakeup_ok:
  assumes "pt_rep s L" "prio_bound s" "lock_free PtableLock s" "cli_ok s"
  shows "\<exists>s' L'. wakeup c s = Inr s' \<and> pt_rep s' L' \<and> prio_bound s' \<and>
     (ready_prio s L \<longrightarrow> ready_prio s' L') \<and> wake_frame s s'"
proof -
  let ?a = "acquired PtableLock s"
  from wakeup1_frame [of ?a L c] assms obtain t L' where t: "wakeup1 c ?a = Inr t" "pt_rep t L'"
    "prio_bound t" "ready_prio s L \<longrightarrow> ready_prio t L'" "locks t = locks ?a" "cpus t = cpus ?a"
    "sync_frame ?a t"
    "\<forall>p. (procs t p)\<lparr>p_state := p_state (procs s p), p_next := p_next (procs s p)\<rparr> = procs s p"
    "\<forall>p. woken (p_state (procs s p)) (p_state (procs t p))"
    by auto
  have fr: "lock_frame ?a t" using t sync_frame_eq(1) [OF t(7)] by (intro lock_frame_same) auto
  let ?f = "\<lambda>s. rbind (wakeup1 c s) (\<lambda>s. Inr ((), s))"
  have "?f ?a = Inr ((), t)" using t by simp
  from with_lock_frame [where f = ?f, OF assms(3,4) this fr]
  have "wakeup c s = Inr (released PtableLock t)" "lock_frame s (released PtableLock t)"
    by (simp_all add: wakeup_def)
  moreover have "sync_frame s (released PtableLock t)"
    using t(7) sync_frame_trans sync_frame_acquired sync_frame_released by blast
  ultimately show ?thesis using t by (auto simp: wake_frame_def)
qed

end
