(* ===== verification/Sched_Effects.thy ===== *)
theory Sched_Effects
  imports Sched_Inv
begin

section \<open>What the scheduling operations do to the lists\<close>

text \<open>
  For every operation of \<open>Sched\<close>, the lists after it as a function of the lists before it,
  and the change to each process record, under the invariant \<open>pt_rep\<close>. These lemmas say
  in particular that the operation does not panic and that its loops end.
\<close>

subsection \<open>Updates of many process records\<close>

definition upd_procs :: "(nat \<Rightarrow> proc \<Rightarrow> proc) \<Rightarrow> kernel \<Rightarrow> kernel" where
  "upd_procs F s = s\<lparr>procs := \<lambda>q. F q (procs s q)\<rparr>"

definition next_comm :: "(nat \<Rightarrow> proc \<Rightarrow> proc) \<Rightarrow> bool" where
  "next_comm F \<longleftrightarrow> (\<forall>q r n. F q (r\<lparr>p_next := n\<rparr>) = (F q r)\<lparr>p_next := n\<rparr>)"

lemma next_comm_next: "next_comm F \<Longrightarrow> p_next (F q r) = p_next r"
  unfolding next_comm_def by (metis proc.surjective proc.select_convs(19) proc.update_convs(19))

lemma upd_procs_simps [simp]:
  "procs (upd_procs F s) q = F q (procs s q)" "heads (upd_procs F s) = heads s"
  "tails (upd_procs F s) = tails s" "ticks (upd_procs F s) = ticks s"
  "locks (upd_procs F s) = locks s" "cpus (upd_procs F s) = cpus s" "cpuno (upd_procs F s) = cpuno s"
  by (simp_all add: upd_procs_def)

lemma sync_frame_upd_procs [simp]: "sync_frame s (upd_procs F s)"
  by (simp add: upd_procs_def sync_frame_def)

lemma upd_proc_procs: "upd_proc p f = upd_procs (\<lambda>q r. if q = p then f r else r)"
  by (auto simp: upd_proc_def upd_procs_def fun_eq_iff)

lemma upd_procs_comp: "upd_procs G (upd_procs F s) = upd_procs (\<lambda>q r. G q (F q r)) s"
  by (simp add: upd_procs_def)

lemma upd_procs_id: "upd_procs (\<lambda>q r. r) s = s"
  by (simp add: upd_procs_def)

lemma links_frame_upds:
  assumes F: "next_comm F" and fr: "links_frame s t"
  shows "links_frame (upd_procs F s) (upd_procs F t)"
proof -
  have "(upd_procs F t)\<lparr>procs := procs (upd_procs F s), heads := heads (upd_procs F s),
      tails := tails (upd_procs F s)\<rparr> = upd_procs F s"
    using fr by (cases s; cases t) (simp add: links_frame_def upd_procs_def)
  moreover have "(F q (procs t q))\<lparr>p_next := p_next (F q (procs s q))\<rparr> = F q (procs s q)" for q
  proof -
    from fr have e: "(procs t q)\<lparr>p_next := p_next (procs s q)\<rparr> = procs s q"
      by (simp add: links_frame_def)
    have "F q (procs s q) = (F q (procs t q))\<lparr>p_next := p_next (procs s q)\<rparr>"
      using F by (subst e [symmetric]) (simp add: next_comm_def)
    then show ?thesis using next_comm_next [OF F] by simp
  qed
  ultimately show ?thesis by (simp add: links_frame_def)
qed

lemma links_frame_comp:
  assumes "links_frame (upd_procs F s) t" "links_frame (upd_procs G t) u" "next_comm G"
  shows "links_frame (upd_procs (\<lambda>q r. G q (F q r)) s) u"
  using links_frame_trans [OF links_frame_upds [OF assms(3,1)] assms(2)] by (simp add: upd_procs_comp)

text \<open>Every field of a process record other than its link.\<close>

lemma links_frame_eqs:
  assumes "links_frame s t"
  shows "(procs t p)\<lparr>p_next := p_next (procs s p)\<rparr> = procs s p"
  using assms by (simp add: links_frame_def)

lemma nexts_upd_procs: "next_comm F \<Longrightarrow> nexts (upd_procs F s) = nexts s"
  by (simp add: nexts_def fun_eq_iff next_comm_next)

lemma pt_rep_upd_procs:
  assumes "next_comm F" "\<And>q r. p_state (F q r) = p_state r"
  shows "pt_rep (upd_procs F s) L = pt_rep s L"
  by (rule pt_rep_cong) (simp_all add: nexts_upd_procs [OF assms(1)] assms(2))

lemma fold_upd_proc:
  assumes "distinct xs"
  shows "fold (\<lambda>p. upd_proc p f) xs s = upd_procs (\<lambda>q r. if q \<in> set xs then f r else r) s"
  using assms
proof (induction xs arbitrary: s)
  case Nil
  then show ?case by (simp add: upd_procs_def)
next
  case (Cons x xs)
  then have "(\<lambda>q r. if q \<in> set xs then f (if q = x then f r else r) else if q = x then f r else r)
      = (\<lambda>q r. if q \<in> set (x # xs) then f r else r)"
    by (auto simp: fun_eq_iff)
  with Cons show ?case by (simp add: upd_proc_procs upd_procs_comp)
qed

text \<open>A loop over a list whose body updates one process record in place.\<close>

lemma walk_list_update:
  assumes rep: "pt_rep s L" and f: "\<And>r n. f (r\<lparr>p_next := n\<rparr>) = (f r)\<lparr>p_next := n\<rparr>"
      "\<And>r. p_state (f r) = p_state r"
    and body: "\<And>p t. p \<in> set (L l) \<Longrightarrow> pt_rep t L \<Longrightarrow> b p t = Inr (None, upd_proc p f t)"
  shows "walk_list b l s =
     Inr (None, upd_procs (\<lambda>q r. if q \<in> set (L l) then f r else r) s) \<and>
     pt_rep (upd_procs (\<lambda>q r. if q \<in> set (L l) then f r else r) s) L"
proof -
  have c: "next_comm (\<lambda>q r. if q = p then f r else r)" for p
    using f(1) by (simp add: next_comm_def)
  have "walk (Suc NPROC) b (heads s l) s = Inr (None, fold (\<lambda>p. upd_proc p f) (L l) s) \<and>
      pt_rep (fold (\<lambda>p. upd_proc p f) (L l) s) L"
  proof (rule walk_fold)
    show "length (L l) < Suc NPROC" using pt_rep_length [OF rep] by (simp add: less_Suc_eq_le)
    show "b p t = Inr (None, upd_proc p f t) \<and> pt_rep (upd_proc p f t) L \<and>
        nexts (upd_proc p f t) = nexts t" if "p \<in> set (L l)" "pt_rep t L" for p t
      using body [OF that] that(2) pt_rep_upd_procs [OF c] nexts_upd_procs [OF c] f(2)
      by (simp add: upd_proc_procs)
  qed (use rep pt_rep_plist in auto)
  then show ?thesis
    unfolding walk_list_def fold_upd_proc [OF pt_rep_distinct [OF rep]] .
qed

subsection \<open>Promotion\<close>

text \<open>The new record of a promoted process.\<close>

definition lower :: "proc \<Rightarrow> proc" where
  "lower r = r\<lparr>p_priority := (if 0 < p_priority r then p_priority r - 1 else p_priority r),
     p_budget := MAX_BUDGET\<rparr>"

lemma lower_simps [simp]:
  "lower (r\<lparr>p_next := n\<rparr>) = (lower r)\<lparr>p_next := n\<rparr>" "p_state (lower r) = p_state r"
  "p_next (lower r) = p_next r" "p_budget (lower r) = MAX_BUDGET"
  by (simp_all add: lower_def)

lemma unat_lower: "unat (p_priority (lower r)) = unat (p_priority r) - 1"
proof (cases "p_priority r = 0")
  case False
  then show ?thesis by (simp add: lower_def word_gt_0 unat_minus_one)
qed (simp add: lower_def)

definition lower_in :: "nat set \<Rightarrow> nat \<Rightarrow> proc \<Rightarrow> proc" where
  "lower_in A q r = (if q \<in> A then lower r else r)"

lemma next_comm_lower_in [simp]: "next_comm (lower_in A)"
  by (simp add: next_comm_def lower_in_def)

lemma lower_in_comp: "A \<inter> B = {} \<Longrightarrow> (\<lambda>q r. lower_in B q (lower_in A q r)) = lower_in (A \<union> B)"
  by (auto simp: lower_in_def fun_eq_iff)

lemma lower_in_empty: "upd_procs (lower_in {}) s = s"
  by (simp add: upd_procs_def lower_in_def)

lemma p_state_lower_in [simp]: "p_state (lower_in A q r) = p_state r"
  by (simp add: lower_in_def)

lemma promote_one_effect:
  assumes rep: "pt_rep s L" and p: "p \<in> set (L (LReady i))" and i: "0 < i"
    and pr: "unat (p_priority (procs s p)) = i"
  shows "\<exists>s'. promote_one i p s = Inr s' \<and>
     pt_rep s' (list_move L (LReady i) (LReady (i - 1)) p) \<and>
     links_frame (upd_procs (lower_in {p}) s) s'"
proof -
  have ib: "valid_list (LReady (i - 1))" using pt_rep_valid [OF rep p] by simp
  have ab: "LReady i \<noteq> LReady (i - 1)" using i by simp
  obtain s1 s2 where s1: "stateListRemove (LReady i) (Some p) s = Inr (0, s1)" "links_frame s s1"
    and s2: "stateListAdd (LReady (i - 1)) (Some p) (upd_proc p lower s1) = Inr (0, s2)"
    and fr: "links_frame (upd_proc p lower s) s2"
    and r2: "pt_rep s2 (list_move L (LReady i) (LReady (i - 1)) p)"
    using pt_rep_move [OF rep p ab ib, of lower] by auto
  have pr1: "p_priority (procs s1 p) = of_nat i" "p_priority (procs s1 p) > 0"
    using links_frame_proc [OF s1(2)] pr i by (auto simp: word_gt_0 unat_gt_0 [symmetric])
  have "set_prio p (p_priority (procs s1 p) - 1) s1 = upd_proc p lower s1"
    using pr1(2) by (simp add: set_prio_def upd_proc_def lower_def)
  moreover have "assertState p RUNNABLE s1 = Inr ()"
    using pt_rep_state [OF rep p] links_frame_proc [OF s1(2)] by (simp add: assertState_def)
  moreover have "assertPrio p (of_nat i) s1 = Inr ()" using pr1 by (simp add: assertPrio_def)
  moreover have "upd_proc p lower s = upd_procs (lower_in {p}) s"
    by (simp add: upd_proc_procs lower_in_def [abs_def])
  ultimately show ?thesis using s1 s2 fr r2 by (simp add: promote_one_def)
qed

lemma promote_ready_effect:
  assumes "pt_rep s L" "L (LReady i) = xs" "0 < i" "\<And>p. p \<in> set xs \<Longrightarrow> unat (p_priority (procs s p)) = i"
    "length xs < n"
  shows "\<exists>s'. promote_ready n i s = Inr s' \<and>
     pt_rep s' (L(LReady i := [], LReady (i - 1) := L (LReady (i - 1)) @ xs)) \<and>
     links_frame (upd_procs (lower_in (set xs)) s) s'"
  using assms
proof (induction xs arbitrary: s L n)
  case Nil
  then obtain m where "n = Suc m" by (cases n) auto
  moreover have "L(LReady i := [], LReady (i - 1) := L (LReady (i - 1)) @ []) = L"
    using Nil.prems(2,3) by (simp add: fun_eq_iff)
  moreover have "promote_ready (Suc m) i s = Inr s"
    using Nil.prems by (simp add: pt_rep_head)
  ultimately show ?case
    using Nil.prems(1) by (metis lower_in_empty links_frame_refl list.set(1))
next
  case (Cons x xs)
  then obtain m where n: "n = Suc m" by (cases n) auto
  let ?L = "list_move L (LReady i) (LReady (i - 1)) x"
  from Cons.prems promote_one_effect [OF Cons.prems(1), of x i] obtain s1 where s1:
    "promote_one i x s = Inr s1" "pt_rep s1 ?L" "links_frame (upd_procs (lower_in {x}) s) s1" by auto
  have x: "x \<notin> set xs" using pt_rep_distinct [OF Cons.prems(1), of "LReady i"] Cons.prems(2) by simp
  have L: "?L (LReady i) = xs" using Cons.prems(2,3) by (simp add: list_move_def)
  have pr: "unat (p_priority (procs s1 p)) = i" if "p \<in> set xs" for p
    using links_frame_proc [OF s1(3)] Cons.prems(4) that x by (auto simp: lower_in_def)
  have m: "length xs < m" using Cons.prems(5) n by simp
  from Cons.IH [OF s1(2) L Cons.prems(3) pr m] obtain s2 where s2:
    "promote_ready m i s1 = Inr s2"
    "pt_rep s2 (?L(LReady i := [], LReady (i - 1) := ?L (LReady (i - 1)) @ xs))"
    "links_frame (upd_procs (lower_in (set xs)) s1) s2" by blast
  have "?L(LReady i := [], LReady (i - 1) := ?L (LReady (i - 1)) @ xs)
      = L(LReady i := [], LReady (i - 1) := L (LReady (i - 1)) @ x # xs)"
    using Cons.prems(3) by (simp add: list_move_def fun_eq_iff)
  moreover have "links_frame (upd_procs (lower_in (set (x # xs))) s) s2"
    using links_frame_comp [OF s1(3) s2(3)] x lower_in_comp [of "{x}" "set xs"] by simp
  moreover have "promote_ready n i s = Inr s2"
    using s1(1) s2(1) n Cons.prems(2) by (simp add: pt_rep_head [OF Cons.prems(1)])
  ultimately show ?case using s2(2) by metis
qed

text \<open>The ready lists when levels \<open>1\<close> to \<open>k\<close> have been moved up by one.\<close>

definition promoted :: "nat \<Rightarrow> (listid \<Rightarrow> nat list) \<Rightarrow> listid \<Rightarrow> nat list" where
  "promoted k L l =
     (case l of
        LReady j \<Rightarrow>
          if k = 0 then L l
          else if j = 0 then L (LReady 0) @ L (LReady 1)
          else if j < k then L (LReady (Suc j))
          else if j = k then [] else L l
      | _ \<Rightarrow> L l)"

lemma promoted_0: "promoted 0 L = L"
  by (auto simp: promoted_def fun_eq_iff split: listid.splits)

lemma promoted_Suc:
  "(promoted k L)(LReady (Suc k) := [],
      LReady k := promoted k L (LReady k) @ L (LReady (Suc k))) = promoted (Suc k) L"
  by (auto simp: promoted_def fun_eq_iff split: listid.splits)

lemma promoted_ahead: "promoted k L (LReady (Suc k)) = L (LReady (Suc k))"
  by (simp add: promoted_def)

definition ready_set :: "(listid \<Rightarrow> nat list) \<Rightarrow> nat \<Rightarrow> nat set" where
  "ready_set L k = (\<Union>j\<in>{1..k}. set (L (LReady j)))"

lemma ready_set_0 [simp]: "ready_set L 0 = {}"
  by (simp add: ready_set_def)

lemma ready_set_Suc: "ready_set L (Suc k) = ready_set L k \<union> set (L (LReady (Suc k)))"
  by (auto simp: ready_set_def atLeastAtMostSuc_conv)

lemma ready_set_other:
  assumes "pt_rep s L" "p \<in> set (L l)" "\<And>j. 1 \<le> j \<Longrightarrow> j \<le> k \<Longrightarrow> l \<noteq> LReady j"
  shows "p \<notin> ready_set L k"
proof
  assume "p \<in> ready_set L k"
  then obtain j where "1 \<le> j" "j \<le> k" "p \<in> set (L (LReady j))" by (auto simp: ready_set_def)
  with assms(3) pt_rep_unique_list [OF assms(1,2)] show False by blast
qed

lemma promote_levels:
  assumes rep: "pt_rep s L" and rp: "ready_prio s L"
  shows "\<exists>s'. rfold (promote_ready (Suc NPROC)) [1..<Suc k] s = Inr s' \<and> pt_rep s' (promoted k L) \<and>
     links_frame (upd_procs (lower_in (ready_set L k)) s) s'"
proof (induction k)
  case 0
  then show ?case using rep by (simp add: promoted_0 lower_in_empty links_frame_refl)
next
  case (Suc k)
  then obtain s1 where s1: "rfold (promote_ready (Suc NPROC)) [1..<Suc k] s = Inr s1"
    "pt_rep s1 (promoted k L)" "links_frame (upd_procs (lower_in (ready_set L k)) s) s1" by blast
  let ?xs = "L (LReady (Suc k))"
  have new: "p \<notin> ready_set L k" if "p \<in> set ?xs" for p
    by (rule ready_set_other [OF rep that]) simp
  have pr: "unat (p_priority (procs s1 p)) = Suc k" if "p \<in> set ?xs" for p
    using links_frame_proc [OF s1(3)] new [OF that] rp that by (simp add: lower_in_def ready_prio_def)
  have len: "length ?xs < Suc NPROC" using pt_rep_length [OF rep] by (simp add: less_Suc_eq_le)
  from promote_ready_effect [OF s1(2) promoted_ahead _ pr len] obtain s2 where s2:
    "promote_ready (Suc NPROC) (Suc k) s1 = Inr s2" "pt_rep s2 (promoted (Suc k) L)"
    "links_frame (upd_procs (lower_in (set ?xs)) s1) s2"
    using promoted_Suc [of k L] by (auto simp del: promote_ready.simps)
  have "links_frame (upd_procs (lower_in (ready_set L (Suc k))) s) s2"
  proof -
    have "ready_set L k \<inter> set ?xs = {}" using new by blast
    from lower_in_comp [OF this] show ?thesis
      using links_frame_comp [OF s1(3) s2(3)] by (simp add: ready_set_Suc)
  qed
  moreover have "rfold (promote_ready (Suc NPROC)) [1..<Suc (Suc k)] s = Inr s2"
    using s1(1) s2(1) by (simp add: rfold_append del: promote_ready.simps)
  ultimately show ?case using s2(2) by blast
qed

text \<open>The processes that a promotion changes: those ready below level 0, sleeping or running.\<close>

definition promotable :: "(listid \<Rightarrow> nat list) \<Rightarrow> nat set" where
  "promotable L = ready_set L MAXPRIO \<union> set (L LSleep) \<union> set (L LRunning)"

lemma promote_walk:
  assumes rep: "pt_rep s L" and l: "list_state l = st"
  shows "walk_list (promote_visit st) l s = Inr (None, upd_procs (lower_in (set (L l))) s)"
    "pt_rep (upd_procs (lower_in (set (L l))) s) L"
proof -
  have b: "promote_visit st p t = Inr (None, upd_proc p lower t)" if "p \<in> set (L l)" "pt_rep t L" for p t
    using pt_rep_state [OF that(2,1)] l
    by (simp add: promote_visit_def assertState_def set_prio_def upd_proc_def lower_def)
  have f: "lower (r\<lparr>p_next := n\<rparr>) = (lower r)\<lparr>p_next := n\<rparr>" "p_state (lower r) = p_state r" for r n
    by simp_all
  show "walk_list (promote_visit st) l s = Inr (None, upd_procs (lower_in (set (L l))) s)"
    "pt_rep (upd_procs (lower_in (set (L l))) s) L"
    using walk_list_update [where f = lower and b = "promote_visit st", OF rep f b]
    by (simp_all add: lower_in_def [abs_def])
qed

lemma promoteProcs_effect:
  assumes rep: "pt_rep s L" and rp: "ready_prio s L"
  shows "\<exists>s'. promoteProcs s = Inr s' \<and> pt_rep s' (promoted MAXPRIO L) \<and>
     links_frame (upd_procs (lower_in (promotable L)) s) s'"
proof -
  let ?L = "promoted MAXPRIO L"
  from promote_levels [OF rep rp, of MAXPRIO] obtain s1 where s1:
    "rfold (promote_ready (Suc NPROC)) [1..<MAXPRIO + 1] s = Inr s1" "pt_rep s1 ?L"
    "links_frame (upd_procs (lower_in (ready_set L MAXPRIO)) s) s1"
    unfolding Suc_eq_plus1 by blast
  have L: "?L LSleep = L LSleep" "?L LRunning = L LRunning" by (simp_all add: promoted_def)
  let ?s2 = "upd_procs (lower_in (set (L LSleep))) s1"
  let ?s3 = "upd_procs (lower_in (set (L LRunning))) ?s2"
  have s2: "walk_list (promote_visit SLEEPING) LSleep s1 = Inr (None, ?s2)" "pt_rep ?s2 ?L"
    using promote_walk [OF s1(2), of LSleep SLEEPING] L by simp_all
  have s3: "walk_list (promote_visit RUNNING) LRunning ?s2 = Inr (None, ?s3)" "pt_rep ?s3 ?L"
    using promote_walk [OF s2(2), of LRunning RUNNING] L by simp_all
  have r: "p \<notin> ready_set L MAXPRIO" if "p \<in> set (L l)" "l = LSleep \<or> l = LRunning" for p l
    by (rule ready_set_other [OF rep that(1)]) (use that(2) in auto)
  have d: "ready_set L MAXPRIO \<inter> set (L LSleep) = {}"
      "(ready_set L MAXPRIO \<union> set (L LSleep)) \<inter> set (L LRunning) = {}"
    using r pt_rep_unique_list [OF rep, of _ LSleep LRunning] by auto
  have "links_frame (upd_procs (lower_in (ready_set L MAXPRIO \<union> set (L LSleep))) s) ?s2"
    using links_frame_comp [where G = "lower_in (set (L LSleep))", OF s1(3) links_frame_refl]
      lower_in_comp [OF d(1)] by simp
  then have "links_frame (upd_procs (lower_in (promotable L)) s) ?s3"
    using links_frame_comp [where G = "lower_in (set (L LRunning))", OF _ links_frame_refl]
      lower_in_comp [OF d(2)] by (fastforce simp: promotable_def)
  moreover have "promoteProcs s = Inr ?s3"
    using s1(1) s2(1) s3(1) by (simp add: promoteProcs_def)
  ultimately show ?thesis using s3(2) by blast
qed

lemma ready_prio_promoted:
  assumes rep: "pt_rep s L" and rp: "ready_prio s L"
    and fr: "links_frame (upd_procs (lower_in (promotable L)) s) t"
  shows "ready_prio t (promoted MAXPRIO L)"
  unfolding ready_prio_def
proof (intro allI impI)
  fix i p
  assume p: "p \<in> set (promoted MAXPRIO L (LReady i))"
  have t: "p_priority (procs t p) = p_priority (lower_in (promotable L) p (procs s p))"
    using links_frame_proc [OF fr] by simp
  consider "i = 0" "p \<in> set (L (LReady 0))" | "p \<in> set (L (LReady (Suc i)))" "Suc i \<le> MAXPRIO"
    | "MAXPRIO < i" "p \<in> set (L (LReady i))"
    using p by (auto simp: promoted_def MAXPRIO_def split: if_splits)
  then show "unat (p_priority (procs t p)) = i"
  proof cases
    case 1
    then have "p \<notin> promotable L"
      using ready_set_other [OF rep 1(2), of MAXPRIO] pt_rep_unique_list [OF rep 1(2)]
      by (fastforce simp: promotable_def)
    with t 1 rp show ?thesis by (simp add: lower_in_def ready_prio_def)
  next
    case 2
    then have "p \<in> promotable L" by (auto simp: promotable_def ready_set_def)
    with t 2 rp show ?thesis by (simp add: lower_in_def ready_prio_def unat_lower)
  next
    case 3
    then show ?thesis using pt_rep_valid [OF rep 3(2)] by simp
  qed
qed

lemma prio_bound_lower:
  assumes "prio_bound s" "links_frame (upd_procs (lower_in A) s) t"
  shows "prio_bound t"
proof -
  have "unat (p_priority (lower_in A p r)) \<le> unat (p_priority r)" for p r
    by (simp add: lower_in_def unat_lower)
  with assms(1) show ?thesis
    unfolding prio_bound_def by (metis le_trans links_frame_proc(19) [OF assms(2)] upd_procs_simps(1))
qed

subsection \<open>Leaving the CPU\<close>

definition charged :: "uint \<Rightarrow> proc \<Rightarrow> proc" where
  "charged t r =
     (let b = charge (p_budget r) (t - p_cpu_ticks_in r) in
      if b \<le> 0
      then r\<lparr>p_budget := MAX_BUDGET,
             p_priority := (if p_priority r < of_nat MAXPRIO then p_priority r + 1 else p_priority r)\<rparr>
      else r\<lparr>p_budget := b\<rparr>)"

lemma charge_budget_charged: "charge_budget p s = upd_proc p (charged (ticks s)) s"
  by (simp add: charge_budget_def charged_def)

lemma charged_simps [simp]:
  "charged t (r\<lparr>p_next := n\<rparr>) = (charged t r)\<lparr>p_next := n\<rparr>" "p_state (charged t r) = p_state r"
  "p_next (charged t r) = p_next r" "p_pgdir (charged t r) = p_pgdir r"
  "p_chan (charged t r) = p_chan r" "p_pid (charged t r) = p_pid r"
  by (simp_all add: charged_def Let_def)

lemma charged_bound: "unat (p_priority r) \<le> MAXPRIO \<Longrightarrow> unat (p_priority (charged t r)) \<le> MAXPRIO"
proof -
  assume a: "unat (p_priority r) \<le> MAXPRIO"
  have "unat (p_priority r + 1) \<le> MAXPRIO" if "p_priority r < of_nat MAXPRIO"
    using that a by (simp add: word_less_nat_alt MAXPRIO_def unat_word_ariths)
  with a show ?thesis by (simp add: charged_def Let_def)
qed

definition off_cpu :: "uint \<Rightarrow> bool \<Rightarrow> schedcaller \<Rightarrow> procstate \<Rightarrow> proc \<Rightarrow> proc" where
  "off_cpu t ie caller st r =
     r\<lparr>p_state := st, p_cpu_ticks_total := p_cpu_ticks_total r + (t - p_cpu_ticks_in r),
       p_context := CtxSched ie caller\<rparr>"

lemma off_cpu_simps [simp]:
  "off_cpu t ie c st (r\<lparr>p_next := n\<rparr>) = (off_cpu t ie c st r)\<lparr>p_next := n\<rparr>"
  "p_state (off_cpu t ie c st r) = st" "p_next (off_cpu t ie c st r) = p_next r"
  "p_priority (off_cpu t ie c st r) = p_priority r" "p_pgdir (off_cpu t ie c st r) = p_pgdir r"
  "p_chan (off_cpu t ie c st r) = p_chan r" "p_context (off_cpu t ie c st r) = CtxSched ie c"
  by (simp_all add: off_cpu_def)

lemma sched_ok:
  assumes "holding PtableLock s" "cpu_ncli (cpu_of s) = 1" "\<not> cpu_IF (cpu_of s)" "proc_of s = Some p"
    "p_state (procs s p) \<noteq> RUNNING"
  shows "sched caller s = Inr (upd_proc p (\<lambda>r. r\<lparr>p_cpu_ticks_total :=
     p_cpu_ticks_total r + (ticks s - p_cpu_ticks_in r),
     p_context := CtxSched (cpu_intena (cpu_of s)) caller\<rparr>) s)"
  using assms by (simp add: sched_def)

text \<open>
  The common end of \<^verbatim>\<open>yield\<close>, \<^verbatim>\<open>sleep\<close> and \<^verbatim>\<open>exit\<close>: the running process goes to another
  list and switches to the scheduler.
\<close>

lemma upd_proc_comp: "upd_proc p g (upd_proc p f s) = upd_proc p (\<lambda>r. g (f r)) s"
  by (simp add: upd_proc_def)

lemma deschedule:
  assumes rep: "pt_rep s L" and cur: "proc_of s = Some p" "p \<in> set (L LRunning)"
    and lk: "holding PtableLock s" "cpu_ncli (cpu_of s) = 1" "\<not> cpu_IF (cpu_of s)"
    and b: "valid_list b" "b \<noteq> LRunning" "st = list_state b"
    and f: "\<And>r n. f (r\<lparr>p_next := n\<rparr>) = (f r)\<lparr>p_next := n\<rparr>" "\<And>r. p_state (f r) = p_state r"
  shows "\<exists>s'. rbind (changeState LRunning b p RUNNING st err (upd_proc p f s)) (sched caller) = Inr s' \<and>
     pt_rep s' (list_move L LRunning b p) \<and>
     links_frame (upd_proc p (\<lambda>r. off_cpu (ticks s) (cpu_intena (cpu_of s)) caller st (f r)) s) s'"
proof -
  have c: "next_comm (\<lambda>q r. if q = p then f r else r)" using f(1) by (simp add: next_comm_def)
  have rep1: "pt_rep (upd_proc p f s) L"
    using rep pt_rep_upd_procs [OF c] f(2) by (simp add: upd_proc_procs)
  from changeState_ok [OF rep1 cur(2) b(2) [symmetric] b(1), of RUNNING st err] b(3) obtain s2 where s2:
    "changeState LRunning b p RUNNING st err (upd_proc p f s) = Inr s2"
    "pt_rep s2 (list_move L LRunning b p)" "links_frame (set_state p st (upd_proc p f s)) s2"
    by auto
  note eq = links_frame_eq [OF s2(3)]
  have same: "locks s2 = locks s" "cpus s2 = cpus s" "cpuno s2 = cpuno s" "ticks s2 = ticks s"
    using eq by (simp_all add: set_state_def)
  have st: "p_state (procs s2 p) \<noteq> RUNNING"
    using links_frame_proc [OF s2(3)] b by (cases b) (simp_all add: set_state_def)
  let ?g = "\<lambda>r. r\<lparr>p_cpu_ticks_total := p_cpu_ticks_total r + (ticks s - p_cpu_ticks_in r),
     p_context := CtxSched (cpu_intena (cpu_of s)) caller\<rparr>"
  have "sched caller s2 = Inr (upd_proc p ?g s2)"
    using sched_ok [of s2 p caller] same st lk cur(1) by (simp add: holding_def cpu_of_def proc_of_def)
  moreover have "pt_rep (upd_proc p ?g s2) (list_move L LRunning b p)"
    using s2(2) pt_rep_upd_procs [of "\<lambda>q r. if q = p then ?g r else r"]
    by (simp add: upd_proc_procs next_comm_def)
  moreover have "links_frame (upd_proc p ?g (set_state p st (upd_proc p f s))) (upd_proc p ?g s2)"
    by (rule links_frame_upd [OF _ s2(3)]) simp
  ultimately show ?thesis
    using s2(1) by (simp add: set_state_def upd_proc_comp off_cpu_def)
qed

lemma yield_effect:
  assumes rep: "pt_rep s L" and pb: "prio_bound s" and cur: "proc_of s = Some p" "p \<in> set (L LRunning)"
    and lk: "lock_free PtableLock s" "cpu_ncli (cpu_of s) = 0"
  defines "pr \<equiv> unat (p_priority (charged (ticks s) (procs s p)))"
  shows "\<exists>s'. yield s = Inr s' \<and> pt_rep s' (list_move L LRunning (LReady pr) p) \<and> pr \<le> MAXPRIO \<and>
     links_frame (upd_proc p (\<lambda>r. off_cpu (ticks s) (cpu_IF (cpu_of s)) InYield RUNNABLE
        (charged (ticks s) r)) (acquired PtableLock s)) s'"
proof -
  let ?a = "acquired PtableLock s"
  have pr: "pr \<le> MAXPRIO"
    using pb pt_rep_bound [OF rep cur(2)] charged_bound unfolding pr_def by (simp add: prio_bound_def)
  have "\<exists>s'. rbind (changeState LRunning (LReady pr) p RUNNING RUNNABLE ''yield()''
       (upd_proc p (charged (ticks s)) ?a)) (sched InYield) = Inr s' \<and>
     pt_rep s' (list_move L LRunning (LReady pr) p) \<and>
     links_frame (upd_proc p (\<lambda>r. off_cpu (ticks ?a) (cpu_intena (cpu_of ?a)) InYield RUNNABLE
        (charged (ticks s) r)) ?a) s'"
    by (rule deschedule) (use rep cur lk pr in \<open>simp_all add: cpu_of_acquired\<close>)
  then show ?thesis
    using lk cur pr
    by (simp add: yield_def acquire_free charge_budget_charged readyList_ok pr_def cpu_of_acquired)
qed

text \<open>
  The locks as \<^verbatim>\<open>sleep\<close> leaves them before it changes the state: the process table is
  locked, and the caller's lock is not.
\<close>

definition sleep_locks :: "lockid option \<Rightarrow> kernel \<Rightarrow> kernel" where
  "sleep_locks lk s =
     (case lk of None \<Rightarrow> acquired PtableLock s
      | Some l \<Rightarrow> if l = PtableLock then s else released l (acquired PtableLock s))"

definition may_sleep :: "lockid option \<Rightarrow> kernel \<Rightarrow> bool" where
  "may_sleep lk s \<longleftrightarrow>
     cli_ok s \<and>
     (case lk of None \<Rightarrow> lock_free PtableLock s \<and> cpu_ncli (cpu_of s) = 0
      | Some l \<Rightarrow> holding l s \<and> cpu_ncli (cpu_of s) = 1 \<and>
          (l = PtableLock \<or> lock_free PtableLock s))"

lemma sleep_locks_simps [simp]:
  "procs (sleep_locks lk s) = procs s" "heads (sleep_locks lk s) = heads s"
  "tails (sleep_locks lk s) = tails s" "ticks (sleep_locks lk s) = ticks s"
  "proc_of (sleep_locks lk s) = proc_of s" "cpuno (sleep_locks lk s) = cpuno s"
  by (simp_all add: sleep_locks_def split: option.splits)

lemma sync_frame_sleep_locks [simp]: "sync_frame s (sleep_locks lk s)"
  using sync_frame_trans [OF sync_frame_acquired sync_frame_released]
  by (simp add: sleep_locks_def split: option.splits)

lemmas pt_sleep_locks [simp] = pt_procs_cong [of "sleep_locks lk s" s for lk s, simplified]

lemma holding_other:
  "l \<noteq> k \<Longrightarrow> holding l (acquired k s) = holding l s"
  "l \<noteq> k \<Longrightarrow> holding l (released k s) = holding l s"
  by (simp_all add: holding_def locks_acquired locks_released)

lemma cpu_of_released:
  "cpu_of (released l s) = (cpu_of s)\<lparr>cpu_ncli := cpu_ncli (cpu_of s) - 1,
     cpu_IF := (cpu_ncli (cpu_of s) = 1 \<and> cpu_intena (cpu_of s))\<rparr>"
  by (simp add: released_def)

lemma sleep_locks_state:
  assumes "may_sleep lk s"
  shows "holding PtableLock (sleep_locks lk s)" "cpu_ncli (cpu_of (sleep_locks lk s)) = 1"
    "\<not> cpu_IF (cpu_of (sleep_locks lk s))"
  using assms
  by (auto simp: may_sleep_def sleep_locks_def cpu_of_acquired cpu_of_released cli_ok_def holding_other
      split: option.splits)

lemma sleep_enter:
  assumes "may_sleep lk s"
  shows "(if lk \<noteq> Some PtableLock
          then rbind (acquire PtableLock s) (\<lambda>s. case lk of None \<Rightarrow> Inr s | Some l \<Rightarrow> release l s)
          else Inr s) = Inr (sleep_locks lk s)"
proof (cases lk)
  case None
  with assms show ?thesis by (simp add: may_sleep_def sleep_locks_def acquire_free)
next
  case (Some l)
  show ?thesis
  proof (cases "l = PtableLock")
    case False
    with Some assms have "release l (acquired PtableLock s) = Inr (released l (acquired PtableLock s))"
      using cli_ok_acquired [of s PtableLock]
      by (intro release_held) (auto simp: may_sleep_def holding_other)
    with Some False assms show ?thesis by (simp add: may_sleep_def sleep_locks_def acquire_free)
  qed (use Some in \<open>simp add: sleep_locks_def\<close>)
qed

lemma sleep_effect:
  assumes rep: "pt_rep s L" and cur: "proc_of s = Some p" "p \<in> set (L LRunning)" and lk: "may_sleep lk s"
  shows "\<exists>s'. sleep c lk s = Inr s' \<and> pt_rep s' (list_move L LRunning LSleep p) \<and>
     links_frame (upd_proc p (\<lambda>r. off_cpu (ticks s) (cpu_intena (cpu_of (sleep_locks lk s))) (InSleep lk)
        SLEEPING (charged (ticks s) (r\<lparr>p_chan := c\<rparr>))) (sleep_locks lk s)) s'"
proof -
  let ?a = "sleep_locks lk s"
  have "\<exists>s'. rbind (changeState LRunning LSleep p RUNNING SLEEPING ''sleep()''
       (upd_proc p (\<lambda>r. charged (ticks s) (r\<lparr>p_chan := c\<rparr>)) ?a)) (sched (InSleep lk)) = Inr s' \<and>
     pt_rep s' (list_move L LRunning LSleep p) \<and>
     links_frame (upd_proc p (\<lambda>r. off_cpu (ticks ?a) (cpu_intena (cpu_of ?a)) (InSleep lk) SLEEPING
        (charged (ticks s) (r\<lparr>p_chan := c\<rparr>))) ?a) s'"
    by (rule deschedule)
      (use rep cur sleep_locks_state [OF lk] in \<open>simp_all, simp_all add: charged_def Let_def\<close>)
  then show ?thesis
    using cur sleep_enter [OF lk]
    by (simp add: sleep_def charge_budget_charged upd_proc_comp Let_def)
qed

subsection \<open>Choosing a process\<close>

lemma upd_cpu_idem: "g (cpu_of s) = cpu_of s \<Longrightarrow> upd_cpu g s = s"
  by (simp add: upd_cpu_def cpu_of_def fun_upd_idem)

lemma set_proc_simps [simp]:
  "procs (set_proc q s) = procs s" "heads (set_proc q s) = heads s" "tails (set_proc q s) = tails s"
  "ticks (set_proc q s) = ticks s" "locks (set_proc q s) = locks s" "cpuno (set_proc q s) = cpuno s"
  "proc_of (set_proc q s) = q" "cpu_of (set_proc q s) = (cpu_of s)\<lparr>cpu_proc := q\<rparr>"
  by (simp_all add: set_proc_def) (simp add: proc_of_def upd_cpu_def)

lemma pushcli_popcli:
  assumes "cli_ok s" "0 < cpu_ncli (cpu_of s)"
  shows "popcli (pushcli s) = Inr s"
proof -
  have off: "\<not> cpu_IF (cpu_of s)" using assms by (simp add: cli_ok_def)
  have "popcli (pushcli s) = Inr (upd_cpu (\<lambda>c. c\<lparr>cpu_IF := False,
      cpu_intena := (if cpu_ncli c = 0 then cpu_IF c else cpu_intena c),
      cpu_ncli := cpu_ncli c\<rparr>) s)"
    using assms by (simp add: popcli_def pushcli_def Let_def upd_cpu_comp)
  also have "upd_cpu (\<lambda>c. c\<lparr>cpu_IF := False,
      cpu_intena := (if cpu_ncli c = 0 then cpu_IF c else cpu_intena c),
      cpu_ncli := cpu_ncli c\<rparr>) s = s"
    by (rule upd_cpu_idem) (use off assms in \<open>cases "cpu_of s"; simp\<close>)
  finally show ?thesis .
qed

lemma switchuvm_ok:
  assumes "cli_ok s" "0 < cpu_ncli (cpu_of s)" "proc_of s \<noteq> None" "p_pgdir (procs s p) \<noteq> 0"
  shows "switchuvm p s = Inr s"
  using assms pushcli_popcli [OF assms(1,2)]
  by (simp add: switchuvm_def Let_def pushcli_def proc_of_def upd_cpu_def)

definition on_cpu_rec :: "uint \<Rightarrow> proc \<Rightarrow> proc" where
  "on_cpu_rec t r = r\<lparr>p_state := RUNNING, p_cpu_ticks_in := t\<rparr>"

lemma on_cpu_rec_simps [simp]:
  "on_cpu_rec t (r\<lparr>p_next := n\<rparr>) = (on_cpu_rec t r)\<lparr>p_next := n\<rparr>" "p_state (on_cpu_rec t r) = RUNNING"
  "p_priority (on_cpu_rec t r) = p_priority r" "p_context (on_cpu_rec t r) = p_context r"
  "p_pgdir (on_cpu_rec t r) = p_pgdir r"
  by (simp_all add: on_cpu_rec_def)

lemma dispatch_effect:
  assumes rep: "pt_rep s L" and p: "p \<in> set (L (LReady i))"
    and pr: "unat (p_priority (procs s p)) = i" and pg: "p_pgdir (procs s p) \<noteq> 0"
    and cli: "cli_ok s" "0 < cpu_ncli (cpu_of s)"
  shows "\<exists>s'. dispatch i p s = Inr s' \<and> pt_rep s' (list_move L (LReady i) LRunning p) \<and>
     links_frame (upd_proc p (on_cpu_rec (ticks s)) (set_proc (Some p) s)) s'"
proof -
  let ?a = "set_proc (Some p) s" and ?g = "\<lambda>r. r\<lparr>p_cpu_ticks_in := ticks s\<rparr>"
  have sw: "switchuvm p ?a = Inr ?a"
    using cli pg by (intro switchuvm_ok) (simp_all add: cli_ok_def)
  have repa: "pt_rep ?a L" using rep by (simp add: set_proc_def)
  obtain s1 s2 where s1: "stateListRemove (LReady i) (Some p) ?a = Inr (0, s1)" "links_frame ?a s1"
    and s2: "stateListAdd LRunning (Some p) (set_state p RUNNING s1) = Inr (0, s2)"
    and fr: "links_frame (set_state p RUNNING ?a) s2"
    and r2: "pt_rep s2 (list_move L (LReady i) LRunning p)"
    using pt_rep_move [OF repa p, of LRunning "\<lambda>r. r\<lparr>p_state := RUNNING\<rparr>"]
    unfolding set_state_def by auto
  have "p_state (procs s1 p) = RUNNABLE" "p_priority (procs s1 p) = of_nat i"
    using links_frame_proc [OF s1(2)] pt_rep_state [OF repa p] pr by (auto simp: set_proc_def)
  then have as: "assertState p RUNNABLE s1 = Inr ()" "assertPrio p (of_nat i) s1 = Inr ()"
    by (simp_all add: assertState_def assertPrio_def)
  have "ticks s2 = ticks s" using links_frame_eq [OF fr] by (simp add: set_state_def set_proc_def)
  then have "dispatch i p s = Inr (upd_proc p ?g s2)"
    using sw s1 s2 as by (simp add: dispatch_def)
  moreover have "pt_rep (upd_proc p ?g s2) (list_move L (LReady i) LRunning p)"
    using r2 pt_rep_upd_procs [of "\<lambda>q r. if q = p then ?g r else r"]
    by (simp add: upd_proc_procs next_comm_def)
  moreover have "links_frame (upd_proc p ?g (set_state p RUNNING ?a)) (upd_proc p ?g s2)"
    by (rule links_frame_upd [OF _ fr]) simp
  ultimately show ?thesis by (simp add: set_state_def upd_proc_comp on_cpu_rec_def [abs_def])
qed

text \<open>The process the scheduler takes: the first of the first ready list that is not empty.\<close>

definition next_ready :: "(listid \<Rightarrow> nat list) \<Rightarrow> (nat \<times> nat) option" where
  "next_ready L =
     (case find (\<lambda>i. L (LReady i) \<noteq> []) [0..<MAXPRIO + 1] of
        None \<Rightarrow> None | Some i \<Rightarrow> Some (i, hd (L (LReady i))))"

lemma next_ready_Some:
  assumes "next_ready L = Some (i, p)"
  shows "i \<le> MAXPRIO" "p \<in> set (L (LReady i))" "L (LReady i) = p # tl (L (LReady i))"
    "\<And>j. j < i \<Longrightarrow> L (LReady j) = []"
proof -
  from assms have f: "find (\<lambda>i. L (LReady i) \<noteq> []) [0..<MAXPRIO + 1] = Some i" "p = hd (L (LReady i))"
    by (auto simp: next_ready_def split: option.splits)
  then obtain k where k: "k < MAXPRIO + 1" "L (LReady k) \<noteq> []" "i = k"
    "\<And>j. j < k \<Longrightarrow> L (LReady j) = []"
    unfolding find_Some_iff by (auto simp: nth_upt simp del: upt_Suc)
  then show "i \<le> MAXPRIO" "p \<in> set (L (LReady i))" "L (LReady i) = p # tl (L (LReady i))"
    "\<And>j. j < i \<Longrightarrow> L (LReady j) = []"
    using f(2) by auto
qed

lemma next_ready_None: "next_ready L = None \<longleftrightarrow> (\<forall>i\<le>MAXPRIO. L (LReady i) = [])"
proof -
  have "next_ready L = None \<longleftrightarrow> find (\<lambda>i. L (LReady i) \<noteq> []) [0..<MAXPRIO + 1] = None"
    by (simp add: next_ready_def split: option.splits)
  then show ?thesis by (auto simp: find_None_iff simp del: upt_Suc)
qed

lemma pick_skip:
  assumes "pt_rep s L" "\<And>i. i \<in> set ks \<Longrightarrow> L (LReady i) = []"
  shows "first_some pick_ready (ks @ js) s = first_some pick_ready js s"
  using assms(2) by (induction ks) (simp_all add: pick_ready_def pt_rep_head [OF assms(1)])

definition live_pgdir :: "kernel \<Rightarrow> bool" where
  "live_pgdir s \<longleftrightarrow>
     (\<forall>p<NPROC. p_state (procs s p) \<in> {RUNNABLE, RUNNING, SLEEPING} \<longrightarrow> p_pgdir (procs s p) \<noteq> 0)"

lemma pick_effect:
  assumes rep: "pt_rep s L" and rp: "ready_prio s L" and pg: "live_pgdir s"
    and cli: "cli_ok s" "0 < cpu_ncli (cpu_of s)"
  shows "case next_ready L of
     None \<Rightarrow> first_some pick_ready [0..<MAXPRIO + 1] s = Inr (None, s)
   | Some (i, p) \<Rightarrow> \<exists>s'. first_some pick_ready [0..<MAXPRIO + 1] s = Inr (Some p, s') \<and>
       pt_rep s' (list_move L (LReady i) LRunning p) \<and>
       links_frame (upd_proc p (on_cpu_rec (ticks s)) (set_proc (Some p) s)) s'"
proof (cases "next_ready L")
  case None
  then have "\<And>i. i \<in> set [0..<MAXPRIO + 1] \<Longrightarrow> L (LReady i) = []"
    unfolding next_ready_None by (simp add: less_Suc_eq_le del: upt_Suc)
  from pick_skip [where ks = "[0..<MAXPRIO + 1]" and js = "[]", OF rep this] None
  show ?thesis by (simp del: upt_Suc)
next
  case (Some ip)
  obtain i p where ip: "ip = (i, p)" by (cases ip)
  note n = next_ready_Some [OF Some [unfolded ip]]
  have "p < NPROC" "p_state (procs s p) = RUNNABLE"
    using pt_rep_bound [OF rep n(2)] pt_rep_state [OF rep n(2)] by simp_all
  then have "p_pgdir (procs s p) \<noteq> 0" using pg by (simp add: live_pgdir_def)
  moreover have "unat (p_priority (procs s p)) = i" using rp n(2) by (simp add: ready_prio_def)
  ultimately obtain s' where s': "dispatch i p s = Inr s'"
    "pt_rep s' (list_move L (LReady i) LRunning p)"
    "links_frame (upd_proc p (on_cpu_rec (ticks s)) (set_proc (Some p) s)) s'"
    using dispatch_effect [OF rep n(2) _ _ cli] by blast
  have "heads s (LReady i) = Some p"
    using pt_rep_head [OF rep, of "LReady i"] n(3) by (metis list.simps(5))
  then have pick: "pick_ready i s = Inr (Some p, s')" using s'(1) by (simp add: pick_ready_def)
  have "[0..<MAXPRIO + 1] = [0..<i] @ i # [i + 1..<MAXPRIO + 1]"
    using n(1) by (metis Suc_eq_plus1 le_imp_less_Suc upt_add_eq_append upt_conv_Cons le_add_diff_inverse zero_le less_or_eq_imp_le)
  moreover have "first_some pick_ready ([0..<i] @ i # [i + 1..<MAXPRIO + 1]) s = Inr (Some p, s')"
    using pick_skip [OF rep, of "[0..<i]" "i # [i + 1..<MAXPRIO + 1]"] n(4) pick by simp
  ultimately show ?thesis using Some ip s' by simp
qed

text \<open>What the scheduler keeps of every process while it reorders the lists.\<close>

definition sched_same :: "kernel \<Rightarrow> kernel \<Rightarrow> bool" where
  "sched_same s t \<longleftrightarrow>
     locks t = locks s \<and> cpus t = cpus s \<and> cpuno t = cpuno s \<and> ticks t = ticks s \<and>
     (\<forall>p. p_state (procs t p) = p_state (procs s p) \<and> p_pgdir (procs t p) = p_pgdir (procs s p) \<and>
          p_context (procs t p) = p_context (procs s p))"

definition after_promotion :: "kernel \<Rightarrow> (listid \<Rightarrow> nat list) \<Rightarrow> listid \<Rightarrow> nat list" where
  "after_promotion s L = (if PromoteAtTime s \<le> ticks s then promoted MAXPRIO L else L)"

lemma promote_check_effect:
  assumes rep: "pt_rep s L" and rp: "ready_prio s L" and pb: "prio_bound s"
  shows "\<exists>s'. promote_check s = Inr s' \<and> pt_rep s' (after_promotion s L) \<and>
     ready_prio s' (after_promotion s L) \<and> prio_bound s' \<and> sched_same s s'"
proof (cases "PromoteAtTime s \<le> ticks s")
  case True
  from promoteProcs_effect [OF rep rp] obtain t where t: "promoteProcs s = Inr t"
    "pt_rep t (promoted MAXPRIO L)" "links_frame (upd_procs (lower_in (promotable L)) s) t" by blast
  let ?t = "t\<lparr>PromoteAtTime := ticks t + TICKS_TO_PROMOTE\<rparr>"
  have "sched_same s ?t"
    using links_frame_eq [OF t(3)] links_frame_proc [OF t(3)]
    by (simp add: sched_same_def) (simp add: lower_in_def lower_def)
  moreover have "pt_rep ?t (promoted MAXPRIO L)" "ready_prio ?t (promoted MAXPRIO L)" "prio_bound ?t"
    using t(2) ready_prio_promoted [OF rep rp t(3)] prio_bound_lower [OF pb t(3)]
      pt_procs_cong [of ?t t] by simp_all
  ultimately show ?thesis using True t(1) by (simp add: promote_check_def after_promotion_def)
next
  case False
  then show ?thesis using assms by (simp add: promote_check_def after_promotion_def sched_same_def)
qed

lemma after_promotion_other: "(\<And>i. l \<noteq> LReady i) \<Longrightarrow> after_promotion s L l = L l"
  by (cases l) (auto simp: after_promotion_def promoted_def)

lemma sti_simps [simp]:
  "procs (sti s) = procs s" "heads (sti s) = heads s" "tails (sti s) = tails s"
  "ticks (sti s) = ticks s" "locks (sti s) = locks s" "cpuno (sti s) = cpuno s"
  "PromoteAtTime (sti s) = PromoteAtTime s" "cpu_of (sti s) = (cpu_of s)\<lparr>cpu_IF := True\<rparr>"
  by (simp_all add: sti_def)

lemmas pt_sti [simp] = pt_procs_cong [of "sti s" s for s, simplified]

text \<open>The state in which the scheduler looks at the ready lists.\<close>

lemma scheduler_enter:
  assumes rep: "pt_rep s L" and rp: "ready_prio s L" and pb: "prio_bound s" and pg: "live_pgdir s"
    and lk: "lock_free PtableLock s" "cpu_ncli (cpu_of s) = 0"
  shows "\<exists>t. rbind (acquire PtableLock (sti s)) promote_check = Inr t \<and>
     pt_rep t (after_promotion s L) \<and> ready_prio t (after_promotion s L) \<and> prio_bound t \<and>
     live_pgdir t \<and> sched_same (acquired PtableLock (sti s)) t \<and> cli_ok t \<and>
     0 < cpu_ncli (cpu_of t) \<and> holding PtableLock t"
proof -
  let ?a = "acquired PtableLock (sti s)"
  have free: "lock_free PtableLock (sti s)" using lk by (simp add: lock_free_def)
  have "after_promotion ?a L = after_promotion s L" by (simp add: after_promotion_def)
  with promote_check_effect [of ?a L] rep rp pb obtain t where t: "promote_check ?a = Inr t"
    "pt_rep t (after_promotion s L)" "ready_prio t (after_promotion s L)" "prio_bound t"
    "sched_same ?a t" by auto
  moreover have "live_pgdir t" using pg t(5) by (simp add: live_pgdir_def sched_same_def)
  moreover have "cpu_of t = cpu_of ?a" "holding PtableLock t = holding PtableLock ?a"
    using t(5) by (simp_all add: sched_same_def cpu_of_def holding_def)
  then have "cli_ok t" "0 < cpu_ncli (cpu_of t)" "holding PtableLock t"
    using lk by (simp_all add: cli_ok_def cpu_of_acquired)
  ultimately show ?thesis using free by (auto simp: acquire_free)
qed

lemma scheduler_pick_effect:
  assumes rep: "pt_rep s L" and rp: "ready_prio s L" and pb: "prio_bound s" and pg: "live_pgdir s"
    and lk: "lock_free PtableLock s" "cpu_ncli (cpu_of s) = 0"
  shows "\<exists>t. pt_rep t (after_promotion s L) \<and> ready_prio t (after_promotion s L) \<and> prio_bound t \<and>
     live_pgdir t \<and> sched_same (acquired PtableLock (sti s)) t \<and> cli_ok t \<and>
     (case next_ready (after_promotion s L) of
        None \<Rightarrow> scheduler_pick s = Inr (None, sti (released PtableLock t))
      | Some (i, p) \<Rightarrow> \<exists>s'. scheduler_pick s = Inr (Some p, s') \<and>
          pt_rep s' (list_move (after_promotion s L) (LReady i) LRunning p) \<and>
          links_frame (upd_proc p (on_cpu_rec (ticks t)) (set_proc (Some p) t)) s')"
proof -
  let ?L = "after_promotion s L"
  from scheduler_enter [OF assms] obtain t where
    t: "rbind (acquire PtableLock (sti s)) promote_check = Inr t" "pt_rep t ?L" "ready_prio t ?L"
      "prio_bound t" "live_pgdir t" "sched_same (acquired PtableLock (sti s)) t" "cli_ok t"
      "0 < cpu_ncli (cpu_of t)" "holding PtableLock t" by blast
  have sp: "scheduler_pick s = rbind (first_some pick_ready [0..<MAXPRIO + 1] t) (\<lambda>(r, s).
     case r of Some p \<Rightarrow> Inr (Some p, s)
     | None \<Rightarrow> rbind (release PtableLock s) (\<lambda>s. Inr (None, sti s)))"
    using t(1) by (auto simp: scheduler_pick_def simp del: upt_Suc)
  have "case next_ready ?L of
        None \<Rightarrow> scheduler_pick s = Inr (None, sti (released PtableLock t))
      | Some (i, p) \<Rightarrow> \<exists>s'. scheduler_pick s = Inr (Some p, s') \<and>
          pt_rep s' (list_move ?L (LReady i) LRunning p) \<and>
          links_frame (upd_proc p (on_cpu_rec (ticks t)) (set_proc (Some p) t)) s'"
    using pick_effect [OF t(2,3,5,7,8)] release_held [OF t(9,7,8)]
    by (auto simp: sp simp del: upt_Suc split: option.splits)
  with t show ?thesis by blast
qed

end
