(* ===== verification/Sched_Search.thy ===== *)
theory Sched_Search
  imports Sched_Effects
begin

section \<open>The operations that search the lists for a process identifier\<close>

text \<open>
  What \<^verbatim>\<open>setpriority\<close> and \<^verbatim>\<open>kill\<close> do: both walk several lists in a fixed order and act on
  the first process with the identifier.
\<close>

subsection \<open>Searches\<close>

lemma walk_list_find_stop:
  assumes "pt_rep s L" "\<And>p. p \<in> set (L l) \<Longrightarrow> \<not> Q p \<Longrightarrow> f p s = Inr (None, s)"
    and "\<And>p. p \<in> set (L l) \<Longrightarrow> Q p \<Longrightarrow> \<exists>v t. f p s = Inr (Some v, t)"
  shows "walk_list f l s = (case find Q (L l) of None \<Rightarrow> Inr (None, s) | Some p \<Rightarrow> f p s)"
proof (cases "find Q (L l)")
  case None
  with walk_list_find [OF assms(1), of l Q f] assms(2) show ?thesis by simp
next
  case (Some p)
  then have p: "p \<in> set (L l)" "Q p" by (auto simp: find_Some_iff)
  from assms(3) [OF p] obtain v t where f: "f p s = Inr (Some v, t)" by blast
  from Some walk_list_find [OF assms(1), of l Q f] assms(2) obtain m where
    "walk_list f l s = walk (Suc (Suc m)) f (Some p) s" by auto
  with f Some show ?thesis by simp
qed

text \<open>The first hit over several lists, with the list it is on.\<close>

fun find_in :: "('a \<Rightarrow> nat list) \<Rightarrow> (nat \<Rightarrow> bool) \<Rightarrow> 'a list \<Rightarrow> ('a \<times> nat) option" where
  "find_in L Q [] = None"
| "find_in L Q (l # ls) =
     (case find Q (L l) of Some p \<Rightarrow> Some (l, p) | None \<Rightarrow> find_in L Q ls)"

lemma find_in_Some: "find_in L Q ls = Some (l, p) \<Longrightarrow> l \<in> set ls \<and> p \<in> set (L l) \<and> Q p"
  by (induction ls) (auto split: option.splits simp: find_Some_iff)

lemma find_in_None: "find_in L Q ls = None \<longleftrightarrow> (\<forall>l\<in>set ls. \<forall>p\<in>set (L l). \<not> Q p)"
proof (induction ls)
  case (Cons l ls)
  show ?case
  proof (cases "find Q (L l)")
    case (Some p)
    then have "p \<in> set (L l)" "Q p" by (auto simp: find_Some_iff)
    with Some show ?thesis by auto
  next
    case None
    then have "\<forall>p\<in>set (L l). \<not> Q p" by (auto simp: find_None_iff)
    with None Cons show ?thesis by simp
  qed
qed simp

lemma find_in_append:
  "find_in L Q (ls @ ks) = (case find_in L Q ls of Some x \<Rightarrow> Some x | None \<Rightarrow> find_in L Q ks)"
  by (induction ls) (auto split: option.splits)

lemma find_in_map: "find_in L Q (map g xs) = map_option (apfst g) (find_in (\<lambda>x. L (g x)) Q xs)"
  by (induction xs) (auto split: option.splits)

text \<open>A process whose identifier nobody else has is found wherever it is.\<close>

lemma find_in_unique:
  assumes "l \<in> set ls" "p \<in> set (L l)" "Q p" "\<And>k q. q \<in> set (L k) \<Longrightarrow> Q q \<Longrightarrow> q = p \<and> k = l"
  shows "find_in L Q ls = Some (l, p)"
proof (cases "find_in L Q ls")
  case None
  with assms(1-3) show ?thesis by (auto simp: find_in_None)
next
  case (Some x)
  obtain k q where x: "x = (k, q)" by (cases x)
  from find_in_Some [OF Some [unfolded x]] assms(4) [of q k] Some x show ?thesis by simp
qed

lemma first_some_find_in:
  assumes "pt_rep s L"
    and "\<And>i p. i \<in> set xs \<Longrightarrow> p \<in> set (L (g i)) \<Longrightarrow> \<not> Q p \<Longrightarrow> f i p s = Inr (None, s)"
    and "\<And>i p. i \<in> set xs \<Longrightarrow> p \<in> set (L (g i)) \<Longrightarrow> Q p \<Longrightarrow> \<exists>v t. f i p s = Inr (Some v, t)"
  shows "first_some (\<lambda>i. walk_list (f i) (g i)) xs s =
     (case find_in (\<lambda>i. L (g i)) Q xs of None \<Rightarrow> Inr (None, s) | Some (i, p) \<Rightarrow> f i p s)"
  using assms(2,3)
proof (induction xs)
  case Nil
  then show ?case by simp
next
  case (Cons x xs)
  have w: "walk_list (f x) (g x) s = (case find Q (L (g x)) of None \<Rightarrow> Inr (None, s) | Some p \<Rightarrow> f x p s)"
    by (rule walk_list_find_stop [OF assms(1)]) (use Cons.prems in auto)
  show ?case
  proof (cases "find Q (L (g x))")
    case None
    with w Cons show ?thesis by simp
  next
    case (Some p)
    then have "p \<in> set (L (g x))" "Q p" by (auto simp: find_Some_iff)
    with Cons.prems(2) [of x p] obtain v t where "f x p s = Inr (Some v, t)" by auto
    with w Some show ?thesis by simp
  qed
qed

subsection \<open>setpriority\<close>

definition prio_lists :: "listid list" where
  "prio_lists = map LReady [0..<MAXPRIO + 1] @ [LSleep, LRunning]"

definition pid_is :: "kernel \<Rightarrow> uint \<Rightarrow> nat \<Rightarrow> bool" where
  "pid_is s pid p \<longleftrightarrow> p_pid (procs s p) = pid"

text \<open>The lists after the priority of a process on list \<open>l\<close> has been set to \<open>prio\<close>.\<close>

definition reprioritised :: "(listid \<Rightarrow> nat list) \<Rightarrow> listid \<Rightarrow> uint \<Rightarrow> nat \<Rightarrow> listid \<Rightarrow> nat list" where
  "reprioritised L l prio p =
     (case l of LReady i \<Rightarrow> if i = unat prio then L else list_move L l (LReady (unat prio)) p
      | _ \<Rightarrow> L)"

definition prio_rec :: "uint \<Rightarrow> proc \<Rightarrow> proc" where
  "prio_rec prio r = (if p_priority r \<noteq> prio then r\<lparr>p_priority := prio, p_budget := MAX_BUDGET\<rparr> else r)"

lemma prio_rec_simps [simp]:
  "prio_rec prio (r\<lparr>p_next := n\<rparr>) = (prio_rec prio r)\<lparr>p_next := n\<rparr>"
  "p_state (prio_rec prio r) = p_state r" "p_next (prio_rec prio r) = p_next r"
  "p_priority (prio_rec prio r) = prio" "p_pid (prio_rec prio r) = p_pid r"
  by (simp_all add: prio_rec_def)

lemma set_prio_rec: "p_priority (procs s p) \<noteq> prio \<Longrightarrow> set_prio p prio s = upd_proc p (prio_rec prio) s"
  by (simp add: set_prio_def upd_proc_def prio_rec_def)

lemma prio_rec_same: "p_priority (procs s p) = prio \<Longrightarrow> upd_proc p (prio_rec prio) s = s"
  by (simp add: upd_proc_def prio_rec_def fun_upd_idem)

text \<open>The post-condition of a successful change of priority.\<close>

definition prio_done :: "kernel \<Rightarrow> (listid \<Rightarrow> nat list) \<Rightarrow> uint \<Rightarrow> listid \<Rightarrow> nat \<Rightarrow> kernel \<Rightarrow> bool" where
  "prio_done s L prio l p t \<longleftrightarrow>
     pt_rep t (reprioritised L l prio p) \<and> links_frame (upd_proc p (prio_rec prio) s) t"

lemma setprio_ready_hit:
  assumes rep: "pt_rep s L" and rp: "ready_prio s L" and p: "p \<in> set (L (LReady i))"
    and pid: "p_pid (procs s p) = pid" and prio: "unat prio \<le> MAXPRIO"
  shows "\<exists>t. setprio_ready pid prio i p s = Inr (Some 0, t) \<and> prio_done s L prio (LReady i) p t"
proof -
  have i: "unat (p_priority (procs s p)) = i" using rp p by (simp add: ready_prio_def)
  show ?thesis
  proof (cases "p_priority (procs s p) = prio")
    case True
    with i pid rep show ?thesis
      by (auto simp: setprio_ready_def prio_done_def reprioritised_def prio_rec_same links_frame_refl)
  next
    case False
    with i have ne: "i \<noteq> unat prio" by (auto simp: word_unat_eq_iff)
    let ?b = "LReady (unat prio)"
    obtain s1 s2 where s1: "stateListRemove (LReady i) (Some p) s = Inr (0, s1)" "links_frame s s1"
      and s2: "stateListAdd ?b (Some p) (upd_proc p (prio_rec prio) s1) = Inr (0, s2)"
      and fr: "links_frame (upd_proc p (prio_rec prio) s) s2"
      and r2: "pt_rep s2 (list_move L (LReady i) ?b p)"
      using pt_rep_move [OF rep p, of ?b "prio_rec prio"] ne prio by auto
    have s1p: "p_priority (procs s1 p) = p_priority (procs s p)" "p_state (procs s1 p) = RUNNABLE"
      using links_frame_proc [OF s1(2)] pt_rep_state [OF rep p] by simp_all
    have "set_prio p prio s1 = upd_proc p (prio_rec prio) s1"
      using False s1p by (intro set_prio_rec) simp
    moreover have "assertPrio p (of_nat i) s1 = Inr ()" "assertState p RUNNABLE s1 = Inr ()"
      using s1p i by (auto simp: assertPrio_def assertState_def)
    ultimately have "setprio_ready pid prio i p s = Inr (Some 0, s2)"
      using False pid s1 s2 prio by (simp add: setprio_ready_def Let_def readyList_ok)
    with fr r2 ne show ?thesis by (auto simp: prio_done_def reprioritised_def)
  qed
qed

lemma setprio_visit_hit:
  assumes rep: "pt_rep s L" and p: "p \<in> set (L l)" and pid: "p_pid (procs s p) = pid"
    and l: "l = LSleep \<or> l = LRunning" "st = list_state l"
  shows "\<exists>t. setprio_visit pid prio st p s = Inr (Some 0, t) \<and> prio_done s L prio l p t"
proof -
  let ?t = "upd_proc p (prio_rec prio) s"
  have "setprio_visit pid prio st p s = Inr (Some 0, ?t)"
    using pid pt_rep_state [OF rep p] l
    by (auto simp: setprio_visit_def assertState_def set_prio_rec prio_rec_same)
  moreover have "pt_rep ?t L"
    using rep pt_rep_upd_procs [of "\<lambda>q r. if q = p then prio_rec prio r else r"]
    by (simp add: upd_proc_procs next_comm_def)
  ultimately show ?thesis using l by (auto simp: prio_done_def reprioritised_def links_frame_refl)
qed

lemma setprio_miss:
  assumes "\<not> pid_is s pid p"
  shows "setprio_ready pid prio i p s = Inr (None, s)" "setprio_visit pid prio st p s = Inr (None, s)"
  using assms by (simp_all add: pid_is_def setprio_ready_def setprio_visit_def)

lemma setpriority_locked_effect:
  assumes rep: "pt_rep s L" and rp: "ready_prio s L" and prio: "unat prio \<le> MAXPRIO"
  shows "case find_in L (pid_is s pid) prio_lists of
     None \<Rightarrow> setpriority_locked pid prio s = Inr (-1, s)
   | Some (l, p) \<Rightarrow> \<exists>t. setpriority_locked pid prio s = Inr (0, t) \<and> prio_done s L prio l p t"
proof -
  let ?Q = "pid_is s pid"
  have r: "first_some (\<lambda>i. walk_list (setprio_ready pid prio i) (LReady i)) [0..<MAXPRIO + 1] s =
     (case find_in (\<lambda>i. L (LReady i)) ?Q [0..<MAXPRIO + 1] of
        None \<Rightarrow> Inr (None, s) | Some (i, p) \<Rightarrow> setprio_ready pid prio i p s)"
    by (rule first_some_find_in [OF rep])
      (use setprio_ready_hit [OF rep rp _ _ prio] setprio_miss in \<open>fastforce simp: pid_is_def\<close>)+
  have w: "walk_list (setprio_visit pid prio st) l s =
     (case find ?Q (L l) of None \<Rightarrow> Inr (None, s) | Some p \<Rightarrow> setprio_visit pid prio st p s)"
    if "l = LSleep \<or> l = LRunning" "st = list_state l" for l st
    by (rule walk_list_find_stop [OF rep])
      (use setprio_visit_hit [OF rep _ _ that] setprio_miss in \<open>fastforce simp: pid_is_def\<close>)+
  show ?thesis
  proof (cases "find_in (\<lambda>i. L (LReady i)) ?Q [0..<MAXPRIO + 1]")
    case (Some x)
    obtain i p where x: "x = (i, p)" by (cases x)
    with find_in_Some [OF Some [unfolded x]] setprio_ready_hit [OF rep rp _ _ prio, of p i pid]
    obtain t where "setprio_ready pid prio i p s = Inr (Some 0, t)" "prio_done s L prio (LReady i) p t"
      by (auto simp: pid_is_def)
    with Some x r show ?thesis
      by (simp add: setpriority_locked_def prio_lists_def find_in_append find_in_map del: upt_Suc)
  next
    case None
    note ready = None
    show ?thesis
    proof (cases "find ?Q (L LSleep)")
      case (Some p)
      then have "p \<in> set (L LSleep)" "p_pid (procs s p) = pid" by (auto simp: find_Some_iff pid_is_def)
      with setprio_visit_hit [OF rep, of p LSleep pid SLEEPING prio]
      obtain t where "setprio_visit pid prio SLEEPING p s = Inr (Some 0, t)" "prio_done s L prio LSleep p t"
        by auto
      with Some ready r w [of LSleep SLEEPING] show ?thesis
        by (simp add: setpriority_locked_def prio_lists_def find_in_append find_in_map del: upt_Suc)
    next
      case None
      note sleepers = None
      show ?thesis
      proof (cases "find ?Q (L LRunning)")
        case (Some p)
        then have "p \<in> set (L LRunning)" "p_pid (procs s p) = pid"
          by (auto simp: find_Some_iff pid_is_def)
        with setprio_visit_hit [OF rep, of p LRunning pid RUNNING prio]
        obtain t where "setprio_visit pid prio RUNNING p s = Inr (Some 0, t)"
          "prio_done s L prio LRunning p t" by auto
        with Some sleepers ready r w [of LSleep SLEEPING] w [of LRunning RUNNING] show ?thesis
          by (simp add: setpriority_locked_def prio_lists_def find_in_append find_in_map del: upt_Suc)
      next
        case None
        with sleepers ready r w [of LSleep SLEEPING] w [of LRunning RUNNING] show ?thesis
          by (simp add: setpriority_locked_def prio_lists_def find_in_append find_in_map del: upt_Suc)
      qed
    qed
  qed
qed

lemma prio_done_inv:
  assumes rep: "pt_rep s L" and rp: "ready_prio s L" and pb: "prio_bound s"
    and prio: "unat prio \<le> MAXPRIO" and p: "p \<in> set (L l)" and d: "prio_done s L prio l p t"
  shows "ready_prio t (reprioritised L l prio p)" "prio_bound t"
proof -
  have pr: "p_priority (procs t q) = (if q = p then prio else p_priority (procs s q))" for q
    using d links_frame_proc(19) [of "upd_proc p (prio_rec prio) s" t q] by (simp add: prio_done_def)
  then show "prio_bound t" using pb prio by (simp add: prio_bound_def)
  show "ready_prio t (reprioritised L l prio p)"
  proof (cases "\<exists>i. l = LReady i \<and> i \<noteq> unat prio")
    case True
    then obtain i where l: "l = LReady i" "i \<noteq> unat prio" by blast
    then have "ready_prio t (list_move L l (LReady (unat prio)) p)"
      by (intro ready_prio_move [OF rep rp p]) (auto simp: pr)
    with l show ?thesis by (simp add: reprioritised_def)
  next
    case False
    have "unat (p_priority (procs t q)) = j" if q: "q \<in> set (L (LReady j))" for q j
    proof (cases "q = p")
      case True
      with q p have "l = LReady j" using pt_rep_unique_list [OF rep] by blast
      with False True pr show ?thesis by auto
    qed (use rp q pr in \<open>simp add: ready_prio_def\<close>)
    moreover have "reprioritised L l prio p = L"
      using False by (cases l) (auto simp: reprioritised_def)
    ultimately show ?thesis by (simp add: ready_prio_def)
  qed
qed

text \<open>A critical section on the process table whose body only touches the table.\<close>

lemma with_ptable_lock:
  assumes "lock_free PtableLock s" "cli_ok s" "f (acquired PtableLock s) = Inr (r, t)"
    "sync_frame (acquired PtableLock s) t" "locks t = locks (acquired PtableLock s)"
    "cpus t = cpus (acquired PtableLock s)"
  shows "with_lock PtableLock f s = Inr (r, released PtableLock t)"
    "lock_frame s (released PtableLock t)" "sync_frame s (released PtableLock t)"
proof -
  have "lock_frame (acquired PtableLock s) t"
    using assms(5,6) sync_frame_eq(1) [OF assms(4)] by (intro lock_frame_same) simp_all
  from with_lock_frame [where f = f, OF assms(1-3) this]
  show "with_lock PtableLock f s = Inr (r, released PtableLock t)" "lock_frame s (released PtableLock t)"
    by simp_all
  show "sync_frame s (released PtableLock t)"
    using assms(4) sync_frame_trans sync_frame_acquired sync_frame_released by blast
qed

lemma setpriority_effect:
  assumes rep: "pt_rep s L" and rp: "ready_prio s L" and prio: "unat prio \<le> MAXPRIO"
    and lk: "lock_free PtableLock s" "cli_ok s"
  shows "case find_in L (pid_is s pid) prio_lists of
     None \<Rightarrow> setpriority pid prio s = Inr (-1, released PtableLock (acquired PtableLock s))
   | Some (l, p) \<Rightarrow> \<exists>t. setpriority pid prio s = Inr (0, released PtableLock t) \<and>
       prio_done (acquired PtableLock s) L prio l p t \<and>
       lock_frame s (released PtableLock t) \<and> sync_frame s (released PtableLock t)"
proof -
  let ?a = "acquired PtableLock s"
  have pid: "pid_is ?a = pid_is s" by (simp add: pid_is_def fun_eq_iff)
  note e = setpriority_locked_effect [of ?a L prio pid, unfolded pid]
  show ?thesis
  proof (cases "find_in L (pid_is s pid) prio_lists")
    case None
    with e rep rp prio have "setpriority_locked pid prio ?a = Inr (-1, ?a)" by simp
    from with_ptable_lock(1) [where f = "setpriority_locked pid prio", OF lk this] None
    show ?thesis by (simp add: setpriority_def)
  next
    case (Some x)
    obtain l p where x: "x = (l, p)" by (cases x)
    with Some e rep rp prio obtain t where t: "setpriority_locked pid prio ?a = Inr (0, t)"
      "prio_done ?a L prio l p t" by auto
    have fr: "links_frame (upd_proc p (prio_rec prio) ?a) t" using t(2) by (simp add: prio_done_def)
    have "sync_frame ?a t" "locks t = locks ?a" "cpus t = cpus ?a"
      using links_frame_eq [OF fr] sync_frame_trans [OF sync_frame_upd_proc links_frame_sync [OF fr]]
      by simp_all
    from with_ptable_lock [where f = "setpriority_locked pid prio", OF lk t(1) this] t(2) Some x
    show ?thesis by (auto simp: setpriority_def)
  qed
qed

subsection \<open>kill\<close>

definition kill_lists :: "listid list" where
  "kill_lists = LEmbryo # map LReady [0..<MAXPRIO + 1] @ [LSleep, LRunning, LZombie]"

definition killed_rec :: "proc \<Rightarrow> proc" where
  "killed_rec r = r\<lparr>p_killed := True\<rparr>"

lemma killed_rec_simps [simp]:
  "killed_rec (r\<lparr>p_next := n\<rparr>) = (killed_rec r)\<lparr>p_next := n\<rparr>" "p_state (killed_rec r) = p_state r"
  "p_next (killed_rec r) = p_next r" "p_priority (killed_rec r) = p_priority r"
  "p_pid (killed_rec r) = p_pid r" "p_killed (killed_rec r)" "p_pgdir (killed_rec r) = p_pgdir r"
  by (simp_all add: killed_rec_def)

lemma kill_miss: "\<not> pid_is s pid p \<Longrightarrow> kill_visit pid p s = Inr (None, s)"
  by (simp add: pid_is_def kill_visit_def)

text \<open>With a sleeping process, the first hit ends the search; only the head of the sleep list is woken.\<close>

definition kill_done :: "kernel \<Rightarrow> (listid \<Rightarrow> nat list) \<Rightarrow> nat \<Rightarrow> kernel \<Rightarrow> bool" where
  "kill_done s L p t \<longleftrightarrow>
     (if L LSleep \<noteq> [] \<and> p = hd (L LSleep)
      then pt_rep t (list_move L LSleep (LReady 0) p) \<and>
        links_frame (upd_proc p (\<lambda>r. (killed_rec r)\<lparr>p_state := RUNNABLE\<rparr>) s) t
      else t = upd_proc p killed_rec s)"

lemma pt_rep_killed: "pt_rep (upd_proc p killed_rec s) L = pt_rep s L"
  using pt_rep_upd_procs [of "\<lambda>q r. if q = p then killed_rec r else r"]
  by (simp add: upd_proc_procs next_comm_def)

lemma kill_hit:
  assumes rep: "pt_rep s L" and pid: "pid_is s pid p" and sl: "L LSleep \<noteq> []"
  shows "\<exists>t. kill_visit pid p s = Inr (Some 0, t) \<and> kill_done s L p t"
proof -
  let ?s = "upd_proc p killed_rec s"
  have hd: "heads s LSleep = Some (hd (L LSleep))"
    using sl pt_rep_head [OF rep, of LSleep] by (cases "L LSleep") simp_all
  have kr: "upd_proc p (\<lambda>r. r\<lparr>p_killed := True\<rparr>) s = ?s" by (simp add: killed_rec_def [abs_def])
  show ?thesis
  proof (cases "p = hd (L LSleep)")
    case True
    then have p: "p \<in> set (L LSleep)" using sl by simp
    have "pt_rep ?s L" using rep by (simp add: pt_rep_killed)
    from changeState_ok [OF this p, of "LReady 0" SLEEPING RUNNABLE "''killSearchAll()''"]
    obtain t where t: "changeState LSleep (LReady 0) p SLEEPING RUNNABLE ''killSearchAll()'' ?s = Inr t"
      "pt_rep t (list_move L LSleep (LReady 0) p)" "links_frame (set_state p RUNNABLE ?s) t" by auto
    have hp: "heads s LSleep = Some p" using hd True by simp
    have "kill_visit pid p s = Inr (Some 0, t)"
      using t(1) hp pid by (simp add: kill_visit_def pid_is_def Let_def kr)
    moreover have "kill_done s L p t"
      using t(2,3) True sl by (simp add: kill_done_def set_state_def upd_proc_comp)
    ultimately show ?thesis by blast
  next
    case False
    with hd pid sl show ?thesis
      by (auto simp: kill_visit_def pid_is_def Let_def kr kill_done_def)
  qed
qed

lemma kill_search:
  assumes rep: "pt_rep s L" and sl: "L LSleep \<noteq> []"
  shows "case find (pid_is s pid) (L l) of
       None \<Rightarrow> killSearchAll l pid s = Inr (-1, s)
     | Some p \<Rightarrow> \<exists>t. killSearchAll l pid s = Inr (0, t) \<and> kill_done s L p t"
    "case find_in (\<lambda>i. L (LReady i)) (pid_is s pid) [0..<MAXPRIO + 1] of
       None \<Rightarrow> killSearchReady pid s = Inr (-1, s)
     | Some (i, p) \<Rightarrow> \<exists>t. killSearchReady pid s = Inr (0, t) \<and> kill_done s L p t"
proof -
  let ?Q = "pid_is s pid"
  have hit: "\<exists>t. kill_visit pid p s = Inr (Some 0, t) \<and> kill_done s L p t" if "?Q p" for p
    by (rule kill_hit [OF rep that sl])
  have w: "walk_list (kill_visit pid) l s =
     (case find ?Q (L l) of None \<Rightarrow> Inr (None, s) | Some p \<Rightarrow> kill_visit pid p s)"
    by (rule walk_list_find_stop [OF rep]) (use hit kill_miss in blast)+
  have r: "first_some (\<lambda>i. walk_list (kill_visit pid) (LReady i)) [0..<MAXPRIO + 1] s =
     (case find_in (\<lambda>i. L (LReady i)) ?Q [0..<MAXPRIO + 1] of
        None \<Rightarrow> Inr (None, s) | Some (i, p) \<Rightarrow> kill_visit pid p s)"
    by (rule first_some_find_in [OF rep, where f = "\<lambda>i. kill_visit pid"]) (use hit kill_miss in blast)+
  show "case find ?Q (L l) of
       None \<Rightarrow> killSearchAll l pid s = Inr (-1, s)
     | Some p \<Rightarrow> \<exists>t. killSearchAll l pid s = Inr (0, t) \<and> kill_done s L p t"
  proof (cases "find ?Q (L l)")
    case (Some p)
    then have "?Q p" by (auto simp: find_Some_iff)
    from hit [OF this] Some w show ?thesis by (auto simp: killSearchAll_def rc_or_fail_def)
  qed (use w in \<open>simp add: killSearchAll_def rc_or_fail_def\<close>)
  show "case find_in (\<lambda>i. L (LReady i)) ?Q [0..<MAXPRIO + 1] of
       None \<Rightarrow> killSearchReady pid s = Inr (-1, s)
     | Some (i, p) \<Rightarrow> \<exists>t. killSearchReady pid s = Inr (0, t) \<and> kill_done s L p t"
  proof (cases "find_in (\<lambda>i. L (LReady i)) ?Q [0..<MAXPRIO + 1]")
    case (Some x)
    obtain i p where x: "x = (i, p)" by (cases x)
    from hit [of p] find_in_Some [OF Some [unfolded x]] obtain t where
      "kill_visit pid p s = Inr (Some 0, t)" "kill_done s L p t" by auto
    with Some x r show ?thesis by (simp add: killSearchReady_def rc_or_fail_def del: upt_Suc)
  qed (use r in \<open>simp add: killSearchReady_def rc_or_fail_def del: upt_Suc\<close>)
qed

lemma kill_locked_effect:
  assumes rep: "pt_rep s L" and sl: "L LSleep \<noteq> []"
  shows "case find_in L (pid_is s pid) kill_lists of
     None \<Rightarrow> kill_locked pid s = Inr (-1, s)
   | Some (l, p) \<Rightarrow> \<exists>t. kill_locked pid s = Inr (0, t) \<and> kill_done s L p t"
proof -
  note a = kill_search(1) [OF rep sl, where pid = pid]
  note simps = kill_locked_def or_else_def kill_lists_def find_in_append find_in_map
  have e: "kill_locked pid s = Inr (0, t)" if "killSearchAll LEmbryo pid s = Inr (0, t)" for t
    using that by (simp add: simps)
  show ?thesis
    using a [of LEmbryo] kill_search(2) [OF rep sl, where pid = pid] a [of LSleep] a [of LRunning]
      a [of LZombie]
    by (auto simp: simps simp del: upt_Suc split: option.splits prod.splits)
qed

text \<open>With no sleeping process, every process with the identifier is marked and the search fails.\<close>

definition mark_pid :: "uint \<Rightarrow> proc \<Rightarrow> proc" where
  "mark_pid pid r = (if p_pid r = pid then killed_rec r else r)"

definition mark_in :: "uint \<Rightarrow> nat set \<Rightarrow> nat \<Rightarrow> proc \<Rightarrow> proc" where
  "mark_in pid A q r = (if q \<in> A then mark_pid pid r else r)"

lemma mark_simps [simp]:
  "mark_pid pid (r\<lparr>p_next := n\<rparr>) = (mark_pid pid r)\<lparr>p_next := n\<rparr>" "p_state (mark_pid pid r) = p_state r"
  "p_state (mark_in pid A q r) = p_state r" "next_comm (mark_in pid A)"
  by (simp_all add: mark_pid_def mark_in_def next_comm_def)

lemma mark_comp: "upd_procs (mark_in pid B) (upd_procs (mark_in pid A) s) = upd_procs (mark_in pid (A \<union> B)) s"
proof -
  have "(\<lambda>q r. mark_in pid B q (mark_in pid A q r)) = mark_in pid (A \<union> B)"
    by (auto simp: mark_in_def mark_pid_def killed_rec_def fun_eq_iff)
  then show ?thesis by (simp add: upd_procs_comp)
qed

lemma pt_rep_mark: "pt_rep (upd_procs (mark_in pid A) s) L = pt_rep s L"
  by (rule pt_rep_upd_procs) simp_all

lemma kill_mark_walk:
  assumes rep: "pt_rep s L" and sl: "L LSleep = []"
  shows "walk_list (kill_visit pid) l s = Inr (None, upd_procs (mark_in pid (set (L l))) s)"
proof -
  have b: "kill_visit pid p t = Inr (None, upd_proc p (mark_pid pid) t)" if "pt_rep t L" for p t
    using pt_rep_head [OF that, of LSleep] sl
    by (simp add: kill_visit_def Let_def upd_proc_def mark_pid_def killed_rec_def fun_upd_idem)
  show ?thesis
    using walk_list_update [where f = "mark_pid pid" and b = "kill_visit pid" and l = l, OF rep _ _ b]
    by (simp add: mark_in_def [abs_def])
qed

lemma kill_mark_levels:
  assumes rep: "pt_rep s L" and sl: "L LSleep = []"
  shows "first_some (\<lambda>i. walk_list (kill_visit pid) (LReady i)) ks s =
     Inr (None, upd_procs (mark_in pid (\<Union>i\<in>set ks. set (L (LReady i)))) s)"
  using rep
proof (induction ks arbitrary: s)
  case Nil
  then show ?case by (simp add: mark_in_def [abs_def] upd_procs_id)
next
  case (Cons i ks)
  let ?s = "upd_procs (mark_in pid (set (L (LReady i)))) s"
  have "pt_rep ?s L" using Cons.prems by (simp add: pt_rep_mark)
  from Cons.IH [OF this] kill_mark_walk [OF Cons.prems sl, of pid "LReady i"] show ?case
    by (simp add: mark_comp)
qed

lemma kill_locked_no_sleeper:
  assumes rep: "pt_rep s L" and sl: "L LSleep = []"
  shows "kill_locked pid s = Inr (-1, upd_procs (mark_in pid (\<Union>l\<in>set kill_lists. set (L l))) s)"
proof -
  have a: "killSearchAll l pid t = Inr (-1, upd_procs (mark_in pid (set (L l))) t)" if "pt_rep t L" for l t
    using kill_mark_walk [OF that sl] by (simp add: killSearchAll_def rc_or_fail_def)
  have r: "killSearchReady pid t =
      Inr (-1, upd_procs (mark_in pid (\<Union>i\<in>set [0..<MAXPRIO + 1]. set (L (LReady i)))) t)"
    if "pt_rep t L" for t
    using kill_mark_levels [OF that sl, of pid "[0..<MAXPRIO + 1]"]
    by (simp add: killSearchReady_def rc_or_fail_def del: upt_Suc)
  have U: "(\<Union>l\<in>set kill_lists. set (L l)) =
      ((((set (L LEmbryo) \<union> (\<Union>i\<in>set [0..<MAXPRIO + 1]. set (L (LReady i)))) \<union> set (L LSleep)) \<union>
        set (L LRunning)) \<union> set (L LZombie))"
    by (auto simp: kill_lists_def simp del: upt_Suc)
  show ?thesis
    unfolding U using rep
    by (simp add: kill_locked_def or_else_def a r pt_rep_mark mark_comp del: upt_Suc)
qed

end
