(* ===== verification/Sched_Machine.thy ===== *)
theory Sched_Machine
  imports Sched_Search
begin

section \<open>The CPUs and the process table as a transition system\<close>

text \<open>
  Every CPU is either in its scheduler or runs a process. A step is one critical section
  on \<^verbatim>\<open>ptable.lock\<close>, from its \<^verbatim>\<open>acquire\<close> to its \<^verbatim>\<open>release\<close>, across the context switch: the
  scheduler picks a process and that process resumes, a process yields or sleeps and
  control returns to its scheduler, or a wakeup or a change of priority. In between, the
  CPUs acquire and release other locks, and clock ticks arrive. The step \<^verbatim>\<open>kill\<close> is left
  out on purpose: it breaks the invariant proved here. \<^verbatim>\<open>fork\<close>, \<^verbatim>\<open>exit\<close> and \<^verbatim>\<open>wait\<close>, with its sleep
  on \<^verbatim>\<open>ptable.lock\<close> itself, are no steps either. A run starts in any state that satisfies the invariant.
\<close>

text \<open>
  What runs after \<^verbatim>\<open>swtch(&cpu->scheduler, proc->context)\<close>, up to the release of
  \<^verbatim>\<open>ptable.lock\<close>. Of \<^verbatim>\<open>forkret\<close>, the release.
\<close>

definition resume :: "nat \<Rightarrow> kernel \<Rightarrow> kernel result" where
  "resume p s =
     (case p_context (procs s p) of
        CtxNone \<Rightarrow> Inl NullDeref
      | CtxForkret \<Rightarrow> release PtableLock s
      | CtxSched ie caller \<Rightarrow>
          let s1 = sched_return ie s in
          (case caller of
             InYield \<Rightarrow> yield_rest s1
           | InSleep lk \<Rightarrow> sleep_wake lk s1
           | InExit \<Rightarrow> Inl (Panic ''zombie exit'')))"

inductive mstep :: "kernel \<Rightarrow> kernel \<Rightarrow> bool" where
  pick: "cpu_proc (cpus s c) = None \<Longrightarrow> cpu_ncli (cpus s c) = 0 \<Longrightarrow>
    scheduler_pick (on_cpu c s) = Inr (Some p, s1) \<Longrightarrow>
    (\<forall>ie. p_context (procs s1 p) \<noteq> CtxSched ie (InSleep (Some PtableLock))) \<Longrightarrow>
    resume p s1 = Inr s2 \<Longrightarrow> mstep s s2"
| idle: "cpu_proc (cpus s c) = None \<Longrightarrow> cpu_ncli (cpus s c) = 0 \<Longrightarrow>
    scheduler_pick (on_cpu c s) = Inr (None, s1) \<Longrightarrow> mstep s s1"
| yield: "cpu_ncli (cpus s c) = 0 \<Longrightarrow> yield (on_cpu c s) = Inr s1 \<Longrightarrow> scheduler_back s1 = Inr s2 \<Longrightarrow>
    mstep s s2"
| sleep: "may_sleep lk (on_cpu c s) \<Longrightarrow> lk \<noteq> Some PtableLock \<Longrightarrow> sleep ch lk (on_cpu c s) = Inr s1 \<Longrightarrow>
    scheduler_back s1 = Inr s2 \<Longrightarrow> mstep s s2"
| wakeup: "wakeup ch (on_cpu c s) = Inr s1 \<Longrightarrow> mstep s s1"
| setpriority: "unat prio \<le> MAXPRIO \<Longrightarrow> setpriority pid prio (on_cpu c s) = Inr (rc, s1) \<Longrightarrow> mstep s s1"
| acquire: "l \<noteq> PtableLock \<Longrightarrow> acquire l (on_cpu c s) = Inr s1 \<Longrightarrow> mstep s s1"
| release: "l \<noteq> PtableLock \<Longrightarrow> release l (on_cpu c s) = Inr s1 \<Longrightarrow> mstep s s1"
| tick: "mstep s (s\<lparr>ticks := ticks s + 1\<rparr>)"

subsection \<open>Who runs where\<close>

definition run_ok :: "(nat \<Rightarrow> nat option) \<Rightarrow> (nat \<Rightarrow> procstate) \<Rightarrow> bool" where
  "run_ok cur st \<longleftrightarrow>
     (\<forall>c p. cur c = Some p \<longrightarrow> p < NPROC \<and> st p = RUNNING) \<and>
     (\<forall>c c' p. cur c = Some p \<and> cur c' = Some p \<longrightarrow> c = c') \<and>
     (\<forall>p<NPROC. st p = RUNNING \<longrightarrow> (\<exists>c. cur c = Some p))"

lemma run_okD:
  assumes "run_ok cur st"
  shows "cur c = Some p \<Longrightarrow> p < NPROC" "cur c = Some p \<Longrightarrow> st p = RUNNING"
    "cur c = Some p \<Longrightarrow> cur c' = Some p \<Longrightarrow> c = c'"
    "p < NPROC \<Longrightarrow> st p = RUNNING \<Longrightarrow> \<exists>c. cur c = Some p"
  using assms by (auto simp: run_ok_def)

lemma run_ok_off:
  assumes ok: "run_ok cur st" and c: "cur c = Some p" and st: "st' p \<noteq> RUNNING"
    "\<And>q. q \<noteq> p \<Longrightarrow> st' q = st q"
  shows "run_ok (cur(c := None)) st'"
proof -
  have "q < NPROC \<and> st' q = RUNNING" if "(cur(c := None)) d = Some q" for d q
  proof -
    from that have d: "d \<noteq> c" "cur d = Some q" by (auto split: if_splits)
    with run_okD(3) [OF ok c] have "q \<noteq> p" by blast
    with d run_okD(1,2) [OF ok] st(2) show ?thesis by metis
  qed
  moreover have "d = d'" if "(cur(c := None)) d = Some q" "(cur(c := None)) d' = Some q" for d d' q
    using that run_okD(3) [OF ok] by (auto split: if_splits)
  moreover have "\<exists>d. (cur(c := None)) d = Some q" if "q < NPROC" "st' q = RUNNING" for q
  proof -
    from that st(1) have "q \<noteq> p" by auto
    with that st(2) have "st q = RUNNING" by metis
    with run_okD(4) [OF ok that(1) this] obtain d where "cur d = Some q" by blast
    with c \<open>q \<noteq> p\<close> have "(cur(c := None)) d = Some q" by auto
    then show ?thesis by blast
  qed
  ultimately show ?thesis unfolding run_ok_def by blast
qed

lemma run_ok_on:
  assumes ok: "run_ok cur st" and c: "cur c = None" and p: "st p \<noteq> RUNNING" "p < NPROC"
    and st: "st' p = RUNNING" "\<And>q. q \<noteq> p \<Longrightarrow> st' q = st q"
  shows "run_ok (cur(c := Some p)) st'"
proof -
  have new: "cur d \<noteq> Some p" for d using run_okD(2) [OF ok] p by blast
  have "q < NPROC \<and> st' q = RUNNING" if "(cur(c := Some p)) d = Some q" for d q
    using that p st run_okD(1,2) [OF ok, of d q] new [of d] by (cases "q = p") (auto split: if_splits)
  moreover have "d = d'" if "(cur(c := Some p)) d = Some q" "(cur(c := Some p)) d' = Some q" for d d' q
    using that run_okD(3) [OF ok] new by (auto split: if_splits)
  moreover have "\<exists>d. (cur(c := Some p)) d = Some q" if "q < NPROC" "st' q = RUNNING" for q
  proof (cases "q = p")
    case False
    with that st run_okD(4) [OF ok that(1)] obtain d where "cur d = Some q" by auto
    with c have "(cur(c := Some p)) d = Some q" by auto
    then show ?thesis by blast
  qed (use c in auto)
  ultimately show ?thesis unfolding run_ok_def by blast
qed

lemma run_ok_same:
  assumes "run_ok cur st" "\<And>q. st' q = RUNNING \<longleftrightarrow> st q = RUNNING"
  shows "run_ok cur st'"
  using assms unfolding run_ok_def by simp

definition cpu_ok :: "cpu \<Rightarrow> bool" where
  "cpu_ok c \<longleftrightarrow> 0 \<le> cpu_ncli c \<and> (0 < cpu_ncli c \<longrightarrow> \<not> cpu_IF c)"

definition cur_procs :: "kernel \<Rightarrow> nat \<Rightarrow> nat option" where
  "cur_procs s = (\<lambda>c. cpu_proc (cpus s c))"

definition proc_states :: "kernel \<Rightarrow> nat \<Rightarrow> procstate" where
  "proc_states s = (\<lambda>p. p_state (procs s p))"

definition minv :: "kernel \<Rightarrow> bool" where
  "minv s \<longleftrightarrow> pt_inv s \<and> live_pgdir s \<and> lock_free PtableLock s \<and> (\<forall>c. cpu_ok (cpus s c)) \<and>
     run_ok (cur_procs s) (proc_states s)"

inductive mreach :: "kernel \<Rightarrow> bool" where
  init: "minv s \<Longrightarrow> mreach s"
| step: "mreach s \<Longrightarrow> mstep s t \<Longrightarrow> mreach t"

lemma on_cpu_state [simp]:
  "procs (on_cpu c s) = procs s" "heads (on_cpu c s) = heads s" "tails (on_cpu c s) = tails s"
  "locks (on_cpu c s) = locks s" "cpus (on_cpu c s) = cpus s" "cpu_of (on_cpu c s) = cpus s c"
  "proc_of (on_cpu c s) = cpu_proc (cpus s c)" "ticks (on_cpu c s) = ticks s" "cpuno (on_cpu c s) = c"
  by (simp_all add: on_cpu_def cpu_of_def proc_of_def)

lemmas pt_on_cpu [simp] = pt_procs_cong [of "on_cpu c s" s for c s, simplified]

lemma minv_facts:
  assumes "minv s"
  shows "lock_free PtableLock (on_cpu c s)" "cli_ok (on_cpu c s)" "live_pgdir (on_cpu c s)"
    "prio_bound (on_cpu c s)"
  using assms by (auto simp: minv_def lock_free_def cli_ok_def cpu_ok_def live_pgdir_def pt_inv_def)

lemma minv_cong:
  assumes "minv s" "heads t = heads s" "tails t = tails s" "procs t = procs s"
    "lock_free PtableLock t" "\<And>c. cpu_ok (cpus t c)" "cur_procs t = cur_procs s"
  shows "minv t"
  using assms pt_procs_cong(4) [of t s]
  by (simp add: minv_def live_pgdir_def proc_states_def)

lemma lock_frame_cur: "lock_frame s t \<Longrightarrow> cur_procs t = cur_procs s"
  by (simp add: lock_frame_def cur_procs_def)

lemma lock_frame_cpu_ok: "lock_frame s t \<Longrightarrow> cpu_ok (cpus t c) = cpu_ok (cpus s c)"
  by (simp add: lock_frame_def cpu_ok_def)

definition live :: "procstate \<Rightarrow> bool" where
  "live st \<longleftrightarrow> st \<in> {RUNNABLE, RUNNING, SLEEPING}"

lemma live_pgdir_mono:
  assumes "live_pgdir s" "\<And>p. p_pgdir (procs t p) = p_pgdir (procs s p)"
    "\<And>p. live (p_state (procs t p)) \<Longrightarrow> live (p_state (procs s p))"
  shows "live_pgdir t"
  unfolding live_pgdir_def
proof (intro allI impI)
  fix p assume p: "p < NPROC" "p_state (procs t p) \<in> {RUNNABLE, RUNNING, SLEEPING}"
  then have "live (p_state (procs s p))" by (intro assms(3)) (simp add: live_def)
  with assms(1) p(1) have "p_pgdir (procs s p) \<noteq> 0" by (auto simp: live_pgdir_def live_def)
  with assms(2) show "p_pgdir (procs t p) \<noteq> 0" by simp
qed

subsection \<open>Steps that only move processes\<close>

lemma minv_wakeup:
  assumes inv: "minv s" and w: "wakeup ch (on_cpu c s) = Inr t"
  shows "minv t"
proof -
  from inv obtain L where L: "pt_rep s L" "ready_prio s L" by (auto simp: minv_def pt_inv_def)
  note f = minv_facts [OF inv, of c]
  from wakeup_ok [of "on_cpu c s" L ch] L f w obtain L' where t: "pt_rep t L'" "prio_bound t"
    "ready_prio t L'" "wake_frame (on_cpu c s) t" by auto
  have lf: "lock_frame (on_cpu c s) t" using t(4) by (simp add: wake_frame_def)
  have pr: "(procs t p)\<lparr>p_state := p_state (procs s p), p_next := p_next (procs s p)\<rparr> = procs s p" for p
    using t(4) by (simp add: wake_frame_def)
  have pg: "p_pgdir (procs t p) = p_pgdir (procs s p)" for p
    using arg_cong [OF pr, of p_pgdir p] by simp
  have st: "woken (p_state (procs s p)) (p_state (procs t p))" for p
    using t(4) by (simp add: wake_frame_def)
  have lv: "live (p_state (procs s p))" if "live (p_state (procs t p))" for p
    using st [of p] that by (auto simp: woken_def live_def)
  from inv have "live_pgdir s" by (simp add: minv_def)
  from live_pgdir_mono [where t = t, OF this pg lv] have "live_pgdir t" .
  moreover have "run_ok (cur_procs t) (proc_states t)"
  proof -
    have "proc_states t q = RUNNING \<longleftrightarrow> proc_states s q = RUNNING" for q
      using st [of q] by (auto simp: woken_def proc_states_def)
    moreover have "cur_procs t = cur_procs s" using lock_frame_cur [OF lf] by (simp add: cur_procs_def)
    ultimately show ?thesis
      using inv run_ok_same [of "cur_procs s" "proc_states s" "proc_states t"] by (simp add: minv_def)
  qed
  moreover have "lock_free PtableLock t" "\<And>d. cpu_ok (cpus t d)"
    using f(1) lock_frame_free [OF lf] lock_frame_cpu_ok [OF lf] inv by (simp_all add: minv_def)
  ultimately show ?thesis using t by (auto simp: minv_def pt_inv_def)
qed

lemma minv_setpriority:
  assumes inv: "minv s" and prio: "unat prio \<le> MAXPRIO"
    and sp: "setpriority pid prio (on_cpu c s) = Inr (rc, t)"
  shows "minv t"
proof -
  let ?s = "on_cpu c s" and ?a = "acquired PtableLock (on_cpu c s)"
  from inv obtain L where L: "pt_rep ?s L" "ready_prio ?s L" by (auto simp: minv_def pt_inv_def)
  note f = minv_facts [OF inv, of c]
  note e = setpriority_effect [OF L prio f(1,2), of pid]
  have fr0: "lock_frame ?s (released PtableLock ?a)"
    by (rule lock_frame_section [OF f(1,2)]) simp
  show ?thesis
  proof (cases "find_in L (pid_is ?s pid) prio_lists")
    case None
    with e sp have t: "t = released PtableLock ?a" by simp
    with fr0 have lf: "lock_frame ?s t" by simp
    show ?thesis
      by (rule minv_cong [OF inv])
        (use t f(1) lock_frame_free [OF lf] lock_frame_cpu_ok [OF lf] lock_frame_cur [OF lf] inv
          in \<open>simp_all add: minv_def cur_procs_def\<close>)
  next
    case (Some x)
    obtain l p where x: "x = (l, p)" by (cases x)
    with Some e sp obtain u where t: "t = released PtableLock u" and d: "prio_done ?a L prio l p u"
      and lf: "lock_frame ?s t" by auto
    have p: "p \<in> set (L l)" using find_in_Some [OF Some [unfolded x]] by simp
    have fr: "links_frame (upd_proc p (prio_rec prio) ?a) u" using d by (simp add: prio_done_def)
    have st: "p_state (procs t q) = p_state (procs s q)" "p_pgdir (procs t q) = p_pgdir (procs s q)" for q
      using links_frame_proc [OF fr] t by (simp_all add: prio_rec_def)
    have "ready_prio u (reprioritised L l prio p)" "prio_bound u"
      using prio_done_inv [OF _ _ _ prio p d] L f(4) by simp_all
    then have "pt_inv t" using d t by (auto simp: pt_inv_def prio_done_def)
    moreover have "live_pgdir t" by (rule live_pgdir_mono [of s]) (use inv st in \<open>simp_all add: minv_def\<close>)
    moreover have "proc_states t = proc_states s" "cur_procs t = cur_procs s"
      using st lock_frame_cur [OF lf] by (simp_all add: proc_states_def cur_procs_def)
    ultimately show ?thesis
      using f(1) lock_frame_free [OF lf] lock_frame_cpu_ok [OF lf] inv by (simp add: minv_def)
  qed
qed

subsection \<open>Acquiring and releasing other locks, and the clock\<close>

lemma cpus_acquired: "cpus (acquired l s) = (cpus s)(cpuno s := (cpu_of s)\<lparr>cpu_IF := False,
    cpu_intena := (if cpu_ncli (cpu_of s) = 0 then cpu_IF (cpu_of s) else cpu_intena (cpu_of s)),
    cpu_ncli := cpu_ncli (cpu_of s) + 1\<rparr>)"
  by (simp add: acquired_def pushcli_def upd_cpu_def cpu_of_def)

lemma cpus_released: "cpus (released l s) = (cpus s)(cpuno s := (cpu_of s)\<lparr>
    cpu_ncli := cpu_ncli (cpu_of s) - 1, cpu_IF := (cpu_ncli (cpu_of s) = 1 \<and> cpu_intena (cpu_of s))\<rparr>)"
  by (simp add: released_def upd_cpu_def cpu_of_def)

lemma acquire_Inr:
  assumes "acquire l s = Inr t"
  shows "t = acquired l s"
proof (cases "lk_locked (locks s l) = 0")
  case True
  then have "acquire l s = Inr (acquired l s)"
    by (simp add: acquire_def acquire_enter_def holding_def xchg_locked_def acquire_record_def
        acquired_def pushcli_def Let_def)
  with assms show ?thesis by simp
next
  case False
  with assms show ?thesis by (simp add: acquire_taken)
qed

lemma release_Inr:
  assumes "release l s = Inr t" "cli_ok s"
  shows "t = released l s" "holding l s" "0 < cpu_ncli (cpu_of s)"
proof -
  show h: "holding l s" using assms(1) release_not_held by fastforce
  show n: "0 < cpu_ncli (cpu_of s)"
  proof (rule ccontr)
    assume "\<not> 0 < cpu_ncli (cpu_of s)"
    with assms(2) have "cpu_ncli (cpu_of s) = 0" by (simp add: cli_ok_def)
    with h assms(1) show False
      by (auto simp: release_def release_clear_def xchg_locked_def popcli_def Let_def split: if_splits)
  qed
  from release_held [OF h assms(2) n] assms(1) show "t = released l s" by simp
qed

lemma minv_acquire:
  assumes inv: "minv s" and l: "l \<noteq> PtableLock" and a: "acquire l (on_cpu c s) = Inr t"
  shows "minv t"
proof -
  have t: "t = acquired l (on_cpu c s)" using acquire_Inr [OF a] .
  show ?thesis
    by (rule minv_cong [OF inv])
      (use inv l in \<open>auto simp: t minv_def cpu_ok_def cpus_acquired cur_procs_def lock_free_def
        locks_acquired\<close>)
qed

lemma minv_release:
  assumes inv: "minv s" and l: "l \<noteq> PtableLock" and r: "release l (on_cpu c s) = Inr t"
  shows "minv t"
proof -
  note r' = release_Inr [OF r minv_facts(2) [OF inv]]
  show ?thesis
    by (rule minv_cong [OF inv])
      (use inv l r'(3) in \<open>auto simp: r'(1) minv_def cpu_ok_def cpus_released cur_procs_def lock_free_def
        locks_released\<close>)
qed

lemma minv_tick:
  assumes "minv s"
  shows "minv (s\<lparr>ticks := ticks s + 1\<rparr>)"
  by (rule minv_cong [OF assms]) (use assms in \<open>simp_all add: minv_def lock_free_def cur_procs_def\<close>)

subsection \<open>Leaving the CPU\<close>

text \<open>
  \<open>b\<close> is the state in which the process holds \<^verbatim>\<open>ptable.lock\<close> and nothing else, \<open>s1\<close> the one at
  its context switch.
\<close>

lemma minv_leave:
  assumes inv: "minv s" and cur: "cpu_proc (cpus s c) = Some p"
    and b: "procs b = procs s" "cpuno b = c" "cpus b = (cpus s)(c := k)" "cpu_proc k = Some p"
      "cpu_ncli k = 1" "\<not> cpu_IF k" "holding PtableLock b"
    and fr: "links_frame (upd_proc p F b) s1"
    and pt: "pt_rep s1 L'" "ready_prio s1 L'" "prio_bound s1"
    and F: "p_state (F (procs s p)) \<noteq> RUNNING" "p_pgdir (F (procs s p)) = p_pgdir (procs s p)"
    and sb: "scheduler_back s1 = Inr s2"
  shows "minv s2"
proof -
  note eq = links_frame_eq [OF fr]
  have s1: "cpus s1 = (cpus s)(c := k)" "cpuno s1 = c" "locks s1 = locks b" "cpu_of s1 = k"
    using eq b by (simp_all add: cpu_of_def)
  have "cli_ok (set_proc None s1)" using s1 b by (simp add: cli_ok_def)
  from release_Inr(1) [OF sb [unfolded scheduler_back_def] this]
  have s2: "s2 = released PtableLock (set_proc None s1)" .
  have pr: "p_state (procs s2 q) = (if q = p then p_state (F (procs s p)) else p_state (procs s q))"
    "p_pgdir (procs s2 q) = p_pgdir (procs s q)" for q
    using links_frame_proc [OF fr, of q] b(1) F(2) by (simp_all add: s2)
  have cpus2: "cpus s2 = (cpus s)(c := k\<lparr>cpu_proc := None, cpu_ncli := 0, cpu_IF := cpu_intena k\<rparr>)"
    using s1 b by (simp add: s2 cpus_released set_proc_def upd_cpu_def cpu_of_def)
  have run: "p_state (procs s p) = RUNNING"
    using inv cur run_okD(2) [of "cur_procs s" "proc_states s" c p]
    by (simp add: minv_def cur_procs_def proc_states_def)
  have "pt_inv s2"
    using pt pt_procs_cong [of s2 s1] by (auto simp: s2 pt_inv_def)
  moreover have "live_pgdir s2"
  proof (rule live_pgdir_mono [of s])
    show "live (p_state (procs s q))" if "live (p_state (procs s2 q))" for q
      using that run by (cases "q = p") (simp_all add: pr live_def)
  qed (use inv pr(2) in \<open>simp_all add: minv_def\<close>)
  moreover have "lock_free PtableLock s2" by (simp add: s2 lock_free_def locks_released)
  moreover have "cpu_ok (cpus s2 d)" for d using inv by (simp add: cpus2 minv_def cpu_ok_def)
  moreover have "run_ok (cur_procs s2) (proc_states s2)"
  proof -
    have "cur_procs s2 = (cur_procs s)(c := None)" by (auto simp: cur_procs_def cpus2)
    moreover have "run_ok ((cur_procs s)(c := None)) (proc_states s2)"
      by (rule run_ok_off [where st = "proc_states s" and p = p]) (use inv cur pr F(1) in \<open>auto simp: minv_def cur_procs_def proc_states_def\<close>)
    ultimately show ?thesis by simp
  qed
  ultimately show ?thesis by (simp add: minv_def)
qed

lemma running_on_list:
  assumes "minv s" "cpu_proc (cpus s c) = Some p" "pt_rep s L"
  shows "p \<in> set (L LRunning)" "p < NPROC"
proof -
  have r: "p < NPROC" "p_state (procs s p) = RUNNING"
    using assms(1,2) run_okD(1,2) [of "cur_procs s" "proc_states s" c p]
    by (simp_all add: minv_def cur_procs_def proc_states_def)
  from pt_rep_on_list [OF assms(3) r(1), of LRunning] r(2) show "p \<in> set (L LRunning)" by simp
  show "p < NPROC" by (rule r)
qed

lemma prio_bound_upd:
  assumes "prio_bound s" "links_frame (upd_proc p F b) t" "procs b = procs s"
    "unat (p_priority (F (procs s p))) \<le> MAXPRIO"
  shows "prio_bound t"
  using assms(1,3,4) by (simp add: prio_bound_def links_frame_proc(19) [OF assms(2)])

lemma minv_yield:
  assumes inv: "minv s" and n: "cpu_ncli (cpus s c) = 0" and y: "yield (on_cpu c s) = Inr s1"
    and sb: "scheduler_back s1 = Inr s2"
  shows "minv s2"
proof -
  let ?s = "on_cpu c s"
  from inv obtain L where L: "pt_rep ?s L" "ready_prio ?s L" by (auto simp: minv_def pt_inv_def)
  note f = minv_facts [OF inv, of c]
  obtain p where cur: "cpu_proc (cpus s c) = Some p"
    using y f(1) by (cases "cpu_proc (cpus s c)") (auto simp: yield_def acquire_free)
  note run = running_on_list [OF inv cur L(1) [simplified]]
  let ?F = "\<lambda>r. off_cpu (ticks s) (cpu_IF (cpus s c)) InYield RUNNABLE (charged (ticks s) r)"
  let ?pr = "unat (p_priority (charged (ticks s) (procs s p)))"
  let ?L = "list_move L LRunning (LReady ?pr) p"
  from yield_effect [OF L(1) f(4) _ run(1) f(1)] cur n y have s1: "pt_rep s1 ?L" "?pr \<le> MAXPRIO"
    "links_frame (upd_proc p ?F (acquired PtableLock ?s)) s1" by auto
  have pr: "p_priority (procs s1 q) =
      (if q = p then p_priority (charged (ticks s) (procs s p)) else p_priority (procs s q))" for q
    using links_frame_proc(19) [OF s1(3), of q] by simp
  have rp: "ready_prio s1 ?L"
    by (rule ready_prio_move [OF L run(1)]) (simp_all add: pr)
  have pb: "prio_bound s1" using f(4) s1(2) by (simp add: prio_bound_def pr)
  have b: "cpus (acquired PtableLock ?s) = (cpus s)(c := cpu_of (acquired PtableLock ?s))"
    by (simp add: cpus_acquired cpu_of_acquired)
  show ?thesis
    by (rule minv_leave [OF inv cur _ _ b _ _ _ _ s1(3,1) rp pb _ _ sb])
      (simp_all add: cpu_of_acquired n cur)
qed

lemma minv_sleep:
  assumes inv: "minv s" and lk: "may_sleep lk (on_cpu c s)" "lk \<noteq> Some PtableLock"
    and sl: "sleep ch lk (on_cpu c s) = Inr s1" and sb: "scheduler_back s1 = Inr s2"
  shows "minv s2"
proof -
  let ?s = "on_cpu c s" and ?b = "sleep_locks lk (on_cpu c s)"
  from inv obtain L where L: "pt_rep ?s L" "ready_prio ?s L" by (auto simp: minv_def pt_inv_def)
  note f = minv_facts [OF inv, of c]
  obtain p where cur: "cpu_proc (cpus s c) = Some p"
    using sl by (cases "cpu_proc (cpus s c)") (auto simp: sleep_def)
  note run = running_on_list [OF inv cur L(1) [simplified]]
  let ?G = "\<lambda>r. charged (ticks s) (r\<lparr>p_chan := ch\<rparr>)"
  let ?F = "\<lambda>r. off_cpu (ticks s) (cpu_intena (cpu_of ?b)) (InSleep lk) SLEEPING (?G r)"
  let ?L = "list_move L LRunning LSleep p"
  from sleep_effect [OF L(1) _ run(1) lk(1), of ch] cur sl have s1: "pt_rep s1 ?L"
    "links_frame (upd_proc p ?F ?b) s1" by auto
  have pr: "p_priority (procs s1 q) =
      (if q = p then p_priority (?G (procs s p)) else p_priority (procs s q))" for q
    using links_frame_proc(19) [OF s1(2), of q] by simp
  have rp: "ready_prio s1 ?L"
    by (rule ready_prio_move [OF L run(1)]) (simp_all add: pr)
  have "unat (p_priority (?G (procs s p))) \<le> MAXPRIO"
    using charged_bound [of "(procs s p)\<lparr>p_chan := ch\<rparr>" "ticks s"] f(4) run(2)
    by (simp add: prio_bound_def)
  then have pb: "prio_bound s1" using f(4) by (simp add: prio_bound_def pr)
  have b: "cpus ?b = (cpus s)(c := cpu_of ?b)" "cpu_proc (cpu_of ?b) = Some p"
    using cur by (auto simp: sleep_locks_def cpus_acquired cpus_released cpu_of_acquired cpu_of_released
        split: option.splits)
  show ?thesis
    by (rule minv_leave [OF inv cur _ _ b _ _ _ s1(2,1) rp pb _ _ sb])
      (use sleep_locks_state [OF lk(1)] in simp_all)
qed

subsection \<open>Entering the CPU\<close>

text \<open>Resuming a process releases the lock; it may also restore the saved flag and clear the channel.\<close>

lemma resume_Inr:
  assumes r: "resume p s = Inr t" and cur: "proc_of s = Some p" and cli: "cli_ok s"
    and ctx: "\<forall>ie. p_context (procs s p) \<noteq> CtxSched ie (InSleep (Some PtableLock))"
  shows "\<exists>f g. t = released PtableLock (upd_proc p f (upd_cpu g s)) \<and>
     (\<forall>r n. f (r\<lparr>p_next := n\<rparr>) = (f r)\<lparr>p_next := n\<rparr>) \<and>
     (\<forall>r. p_state (f r) = p_state r \<and> p_pgdir (f r) = p_pgdir r \<and> p_priority (f r) = p_priority r \<and>
       p_next (f r) = p_next r) \<and>
     (\<forall>k. cpu_proc (g k) = cpu_proc k \<and> cpu_ncli (g k) = cpu_ncli k \<and> cpu_IF (g k) = cpu_IF k)"
proof -
  have id: "upd_proc p (\<lambda>r. r) (upd_cpu (\<lambda>k. k) s) = s"
    by (simp add: upd_proc_def upd_cpu_def fun_upd_idem)
  have ids: "upd_proc p (\<lambda>r. r) u = u" for u by (simp add: upd_proc_def fun_upd_idem)
  show ?thesis
  proof (cases "p_context (procs s p)")
    case CtxForkret
    with r release_Inr(1) [of PtableLock s t] cli show ?thesis
      by (intro exI [of _ "\<lambda>r. r"] exI [of _ "\<lambda>k. k"]) (simp add: resume_def id)
  next
    case (CtxSched ie caller)
    let ?g = "\<lambda>k. k\<lparr>cpu_intena := ie\<rparr>" and ?f = "\<lambda>r. r\<lparr>p_chan := None\<rparr>"
    have cli1: "cli_ok (sched_return ie s)" "cli_ok (upd_proc p ?f (sched_return ie s))"
      using cli by (simp_all add: sched_return_def cli_ok_def)
    have cur1: "proc_of (sched_return ie s) = Some p"
      using cur by (simp add: sched_return_def proc_of_def upd_cpu_def)
    show ?thesis
    proof (cases caller)
      case InYield
      with r CtxSched release_Inr(1) [OF _ cli1(1), of PtableLock t] show ?thesis
        by (intro exI [of _ "\<lambda>r. r"] exI [of _ ?g])
          (simp add: resume_def yield_rest_def Let_def ids sched_return_def)
    next
      case (InSleep lk)
      with ctx CtxSched have "lk \<noteq> Some PtableLock" by auto
      with r CtxSched InSleep cur1 release_Inr(1) [OF _ cli1(2), of PtableLock t] show ?thesis
        by (intro exI [of _ ?f] exI [of _ ?g])
          (simp add: resume_def sleep_wake_def Let_def sched_return_def)
    next
      case InExit
      with r CtxSched show ?thesis by (simp add: resume_def Let_def)
    qed
  next
    case CtxNone
    with r show ?thesis by (simp add: resume_def)
  qed
qed

lemma minv_pick:
  assumes inv: "minv s" and idle: "cpu_proc (cpus s c) = None" "cpu_ncli (cpus s c) = 0"
    and pk: "scheduler_pick (on_cpu c s) = Inr (Some p, s1)"
    and ctx: "\<forall>ie. p_context (procs s1 p) \<noteq> CtxSched ie (InSleep (Some PtableLock))"
    and re: "resume p s1 = Inr s2"
  shows "minv s2"
proof -
  let ?s = "on_cpu c s" and ?a = "acquired PtableLock (sti (on_cpu c s))"
  from inv obtain L0 where L0: "pt_rep ?s L0" "ready_prio ?s L0" by (auto simp: minv_def pt_inv_def)
  let ?L = "after_promotion ?s L0"
  note f = minv_facts [OF inv, of c]
  from scheduler_pick_effect [OF L0 f(4,3,1)] idle(2) obtain t where
    t: "pt_rep t ?L" "ready_prio t ?L" "prio_bound t" "live_pgdir t" "sched_same ?a t"
    and e: "case next_ready ?L of
        None \<Rightarrow> scheduler_pick ?s = Inr (None, sti (released PtableLock t))
      | Some (i, p) \<Rightarrow> \<exists>s'. scheduler_pick ?s = Inr (Some p, s') \<and>
          pt_rep s' (list_move ?L (LReady i) LRunning p) \<and>
          links_frame (upd_proc p (on_cpu_rec (ticks t)) (set_proc (Some p) t)) s'"
    by auto
  from e pk obtain i where nr: "next_ready ?L = Some (i, p)"
    and s1: "pt_rep s1 (list_move ?L (LReady i) LRunning p)"
      "links_frame (upd_proc p (on_cpu_rec (ticks t)) (set_proc (Some p) t)) s1"
    by (auto split: option.splits)
  note n = next_ready_Some [OF nr]
  let ?k = "(cpus s c)\<lparr>cpu_IF := False, cpu_intena := True, cpu_ncli := 1, cpu_proc := Some p\<rparr>"
  have cs1: "cpus s1 = (cpus s)(c := ?k)" "cpuno s1 = c"
    using links_frame_eq [OF s1(2)] t(5) idle(2)
    by (simp_all add: sched_same_def set_proc_def upd_cpu_def cpus_acquired sti_def cpu_of_def)
  have "proc_of s1 = Some p" "cli_ok s1" using cs1 by (simp_all add: proc_of_def cli_ok_def cpu_of_def)
  from resume_Inr [OF re this ctx] obtain g h where s2: "s2 = released PtableLock (upd_proc p g (upd_cpu h s1))"
    and g: "\<And>r n. g (r\<lparr>p_next := n\<rparr>) = (g r)\<lparr>p_next := n\<rparr>"
      "\<And>r. p_state (g r) = p_state r" "\<And>r. p_pgdir (g r) = p_pgdir r"
      "\<And>r. p_priority (g r) = p_priority r"
    and h: "\<And>k. cpu_proc (h k) = cpu_proc k" "\<And>k. cpu_ncli (h k) = cpu_ncli k" "\<And>k. cpu_IF (h k) = cpu_IF k"
    by blast
  have pr: "p_state (procs s2 q) = (if q = p then RUNNING else p_state (procs s q))"
    "p_pgdir (procs s2 q) = p_pgdir (procs t q)" "p_priority (procs s2 q) = p_priority (procs t q)" for q
    using t(5) g by (simp_all add: s2 sched_same_def links_frame_proc [OF s1(2)])
  have old: "p < NPROC" "p_state (procs t p) = RUNNABLE" "p_state (procs s p) = RUNNABLE"
    using pt_rep_bound [OF t(1) n(2)] pt_rep_state [OF t(1) n(2)] t(5) by (simp_all add: sched_same_def)
  have "pt_rep s2 (list_move ?L (LReady i) LRunning p)"
    using s1(1) pt_rep_upd_procs [of "\<lambda>q r. if q = p then g r else r" "upd_cpu h s1"] g
    by (simp add: s2 upd_proc_procs next_comm_def)
  moreover have "ready_prio s2 (list_move ?L (LReady i) LRunning p)"
    by (rule ready_prio_move [OF t(1,2) n(2)]) (simp_all add: pr)
  moreover have "prio_bound s2" using t(3) by (simp add: prio_bound_def pr)
  moreover have "live_pgdir s2"
  proof (rule live_pgdir_mono [OF t(4) pr(2)])
    show "live (p_state (procs t q))" if "live (p_state (procs s2 q))" for q
      using that t(5) old(2) by (cases "q = p") (simp_all add: pr live_def sched_same_def)
  qed
  moreover have "lock_free PtableLock s2" by (simp add: s2 lock_free_def locks_released)
  moreover have "cpu_ok (cpus s2 d)" for d
    using inv cs1 h by (simp add: s2 cpus_released cpu_of_def upd_cpu_def cpu_ok_def minv_def)
  moreover have "run_ok (cur_procs s2) (proc_states s2)"
  proof -
    have "cur_procs s2 = (cur_procs s)(c := Some p)"
      using cs1 h by (auto simp: cur_procs_def s2 cpus_released cpu_of_def upd_cpu_def)
    moreover have "run_ok ((cur_procs s)(c := Some p)) (proc_states s2)"
      by (rule run_ok_on [where st = "proc_states s"])
        (use inv idle(1) old pr(1) in \<open>simp_all add: minv_def cur_procs_def proc_states_def\<close>)
    ultimately show ?thesis by simp
  qed
  ultimately show ?thesis by (auto simp: minv_def pt_inv_def)
qed

lemma minv_idle:
  assumes inv: "minv s" and idle: "cpu_proc (cpus s c) = None" "cpu_ncli (cpus s c) = 0"
    and pk: "scheduler_pick (on_cpu c s) = Inr (None, s1)"
  shows "minv s1"
proof -
  let ?s = "on_cpu c s" and ?a = "acquired PtableLock (sti (on_cpu c s))"
  from inv obtain L0 where L0: "pt_rep ?s L0" "ready_prio ?s L0" by (auto simp: minv_def pt_inv_def)
  let ?L = "after_promotion ?s L0"
  note f = minv_facts [OF inv, of c]
  from scheduler_pick_effect [OF L0 f(4,3,1)] idle(2) pk obtain t where
    t: "pt_rep t ?L" "ready_prio t ?L" "prio_bound t" "live_pgdir t" "sched_same ?a t"
    and s1: "s1 = sti (released PtableLock t)"
    by (auto split: option.splits)
  have ct: "cpus t = (cpus s)(c := (cpus s c)\<lparr>cpu_IF := False, cpu_intena := True, cpu_ncli := 1\<rparr>)"
    "cpuno t = c"
    using t(5) idle(2) by (simp_all add: sched_same_def cpus_acquired sti_def upd_cpu_def cpu_of_def)
  have "pt_inv s1" using t by (auto simp: s1 pt_inv_def)
  moreover have "live_pgdir s1" using t(4) by (simp add: s1 live_pgdir_def)
  moreover have "lock_free PtableLock s1" by (simp add: s1 lock_free_def locks_released)
  moreover have "cpu_ok (cpus s1 d)" for d
    using inv ct by (simp add: s1 sti_def upd_cpu_def cpus_released cpu_of_def cpu_ok_def minv_def)
  moreover have "cur_procs s1 = cur_procs s"
    using ct by (auto simp: s1 cur_procs_def sti_def upd_cpu_def cpus_released cpu_of_def)
  moreover have "proc_states s1 = proc_states s"
    using t(5) by (auto simp: s1 proc_states_def sched_same_def)
  ultimately show ?thesis using inv by (simp add: minv_def)
qed

lemma mstep_minv: "mstep s t \<Longrightarrow> minv s \<Longrightarrow> minv t"
  by (induction rule: mstep.induct)
    (blast intro: minv_pick minv_idle minv_yield minv_sleep minv_wakeup minv_setpriority
      minv_acquire minv_release minv_tick)+

lemma mreach_minv: "mreach s \<Longrightarrow> minv s"
  by (induction rule: mreach.induct) (auto intro: mstep_minv)

end
