(* ===== verification/Sched_Props.thy ===== *)
theory Sched_Props
  imports Sched_Machine
begin

section \<open>Properties of the process table and the scheduler\<close>

text \<open>
  The properties of the process lists, the scheduler, \<^verbatim>\<open>wakeup\<close>, \<^verbatim>\<open>kill\<close> and
  \<^verbatim>\<open>setpriority\<close>, with concrete process tables on which they apply.
\<close>

subsection \<open>Concrete process tables\<close>

text \<open>
  \<open>table w f s\<close> is \<open>s\<close> with each process \<open>p\<close> on the list \<open>w p\<close>, in the order of the indices,
  and with its record changed by \<open>f p\<close>.
\<close>

definition members :: "(nat \<Rightarrow> listid) \<Rightarrow> listid \<Rightarrow> nat list" where
  "members w l = filter (\<lambda>p. w p = l) [0..<NPROC]"

definition next_of :: "(nat \<Rightarrow> listid) \<Rightarrow> nat \<Rightarrow> nat option" where
  "next_of w p = (case filter (\<lambda>q. w q = w p) [Suc p..<NPROC] of [] \<Rightarrow> None | q # _ \<Rightarrow> Some q)"

definition table :: "(nat \<Rightarrow> listid) \<Rightarrow> (nat \<Rightarrow> proc \<Rightarrow> proc) \<Rightarrow> kernel \<Rightarrow> kernel" where
  "table w f s = s\<lparr>
     procs := (\<lambda>p. (f p (procs s p))\<lparr>p_state := list_state (w p), p_next := next_of w p\<rparr>),
     heads := (\<lambda>l. case members w l of [] \<Rightarrow> None | p # _ \<Rightarrow> Some p),
     tails := (\<lambda>l. if members w l = [] then None else Some (last (members w l)))\<rparr>"

lemma table_simps [simp]:
  "procs (table w f s) p = (f p (procs s p))\<lparr>p_state := list_state (w p), p_next := next_of w p\<rparr>"
  "locks (table w f s) = locks s" "cpus (table w f s) = cpus s" "cpuno (table w f s) = cpuno s"
  "ticks (table w f s) = ticks s" "PromoteAtTime (table w f s) = PromoteAtTime s"
  "proc_of (table w f s) = proc_of s" "cpu_of (table w f s) = cpu_of s"
  "heads (table w f s) l = (case members w l of [] \<Rightarrow> None | p # _ \<Rightarrow> Some p)"
  "tails (table w f s) l = (if members w l = [] then None else Some (last (members w l)))"
  by (simp_all add: table_def proc_of_def cpu_of_def)

lemma plist_table:
  "plist (next_of w) (case filter (\<lambda>p. w p = l) [k..<NPROC] of [] \<Rightarrow> None | p # _ \<Rightarrow> Some p)
     (filter (\<lambda>p. w p = l) [k..<NPROC])"
proof (induction "NPROC - k" arbitrary: k)
  case 0
  then show ?case by simp
next
  case (Suc n)
  then have k: "k < NPROC" "n = NPROC - Suc k" by simp_all
  have IH: "plist (next_of w) (case filter (\<lambda>p. w p = l) [Suc k..<NPROC] of [] \<Rightarrow> None | p # _ \<Rightarrow> Some p)
     (filter (\<lambda>p. w p = l) [Suc k..<NPROC])"
    by (rule Suc.hyps(1) [OF k(2)])
  have u: "[k..<NPROC] = k # [Suc k..<NPROC]" using k(1) by (simp add: upt_conv_Cons)
  show ?case
  proof (cases "w k = l")
    case True
    then show ?thesis using IH by (simp add: u next_of_def)
  next
    case False
    then show ?thesis using IH by (simp add: u)
  qed
qed

lemma pt_rep_table:
  assumes "\<And>p. valid_list (w p)"
  shows "pt_rep (table w f s) (members w)"
proof -
  have n: "nexts (table w f s) = next_of w" by (simp add: nexts_def fun_eq_iff)
  have "list_rep (table w f s) l (members w l)" for l
    using plist_table [of w l 0]
    by (auto simp: list_rep_def n members_def)
  moreover have "set (members w l) \<inter> set (members w k) = {}" if "l \<noteq> k" for l k
    using that by (auto simp: members_def)
  moreover have "members w l = []" if "\<not> valid_list l" for l
    using that assms by (auto simp: members_def filter_empty_conv)
  ultimately show ?thesis
    by (auto simp: pt_rep_def lists_rep_def members_def)
qed

subsection \<open>Boot\<close>

definition only_free :: "nat \<Rightarrow> listid \<Rightarrow> nat list" where
  "only_free k l = (if l = LFree then [0..<k] else [])"

lemma only_free_Suc: "(only_free k)(LFree := only_free k LFree @ [k]) = only_free (Suc k)"
  by (auto simp: only_free_def)

lemma lists_rep_empty:
  assumes "\<And>l. heads s l = None"
  shows "lists_rep s (only_free 0)"
  using assms by (simp add: lists_rep_def list_rep_def only_free_def)

lemma initFreeList_step:
  assumes rep: "lists_rep s L" and q: "\<And>k. q \<notin> set (L k)" "q < NPROC"
  shows "\<exists>t. rbind (stateListAdd LFree (Some q) (set_state q UNUSED s)) (\<lambda>(rc, s). Inr s) = Inr t \<and>
     lists_rep t (L(LFree := L LFree @ [q])) \<and> links_frame (set_state q UNUSED s) t"
proof -
  have "lists_rep (set_state q UNUSED s) L"
    using rep by (simp add: set_state_def lists_rep_upd_proc)
  from sl.add_law [OF this q, of LFree] show ?thesis by auto
qed

lemma initFreeList_loop:
  assumes "lists_rep s (only_free 0)" "k \<le> NPROC"
  shows "\<exists>t. rfold (\<lambda>p s. rbind (stateListAdd LFree (Some p) (set_state p UNUSED s)) (\<lambda>(rc, s). Inr s))
       [0..<k] s = Inr t \<and>
     lists_rep t (only_free k) \<and> (\<forall>p<k. p_state (procs t p) = UNUSED) \<and>
     locks t = locks s \<and> cpus t = cpus s \<and> sync_frame s t"
  using assms(2)
proof (induction k)
  case 0
  then show ?case using assms(1) by simp
next
  case (Suc k)
  then obtain t where t: "rfold (\<lambda>p s. rbind (stateListAdd LFree (Some p) (set_state p UNUSED s))
       (\<lambda>(rc, s). Inr s)) [0..<k] s = Inr t" "lists_rep t (only_free k)"
     "\<forall>p<k. p_state (procs t p) = UNUSED" "locks t = locks s" "cpus t = cpus s" "sync_frame s t"
    by auto
  have "k \<notin> set (only_free k l)" for l by (simp add: only_free_def)
  from initFreeList_step [OF t(2) this] Suc.prems obtain u where
    u: "rbind (stateListAdd LFree (Some k) (set_state k UNUSED t)) (\<lambda>(rc, s). Inr s) = Inr u"
      "lists_rep u (only_free (Suc k))" "links_frame (set_state k UNUSED t) u"
    unfolding only_free_Suc by auto
  have "p_state (procs u p) = UNUSED" if "p < Suc k" for p
    using links_frame_proc(4) [OF u(3), of p] t(3) that by (auto simp: set_state_def less_Suc_eq)
  moreover have "locks u = locks s" "cpus u = cpus s"
    using links_frame_eq [OF u(3)] t(4,5) by (simp_all add: set_state_def)
  moreover have "sync_frame s u"
    using t(6) links_frame_sync [OF u(3)] sync_frame_upd_proc [of t k] sync_frame_trans
    unfolding set_state_def by blast
  ultimately show ?case using t(1) u(1,2) by (simp add: rfold_append)
qed

text \<open>
  C37. Initialisation: \<^verbatim>\<open>initProcessLists\<close> followed by \<^verbatim>\<open>initFreeList\<close> with the table locked
  succeeds, puts every process on the free list and nothing on any other list, and makes the
  lists represent exactly that, whatever the links and states were before.
\<close>

theorem boot_lists:
  assumes "holding PtableLock s" "\<And>i. MAXPRIO < i \<Longrightarrow> heads s (LReady i) = None"
  shows "\<exists>t. initFreeList (initProcessLists s) = Inr t \<and>
     pt_rep t (only_free NPROC) \<and>
     (\<forall>p<NPROC. p_state (procs t p) = UNUSED) \<and> holding PtableLock t"
proof -
  let ?s = "initProcessLists s"
  have h: "heads ?s l = None" for l
    using assms(2) by (cases l) (auto simp: initProcessLists_def)
  have hold: "holding PtableLock ?s"
    using assms(1) by (simp add: initProcessLists_def holding_def)
  from initFreeList_loop [OF lists_rep_empty [of ?s], of NPROC] h obtain t where
    t: "initFreeList ?s = Inr t" "lists_rep t (only_free NPROC)"
      "\<forall>p<NPROC. p_state (procs t p) = UNUSED" "locks t = locks ?s" "sync_frame ?s t"
    using hold by (auto simp: initFreeList_def)
  have "pt_rep t (only_free NPROC)"
    using t(2,3) unfolding pt_rep_def by (auto simp: only_free_def split: if_splits)
  moreover have "holding PtableLock t"
    using hold t(4) sync_frame_eq(1) [OF t(5)] by (simp add: holding_def)
  ultimately show ?thesis using t by blast
qed

theorem boot_lists_witness:
  "\<exists>t. initFreeList (initProcessLists (acquired PtableLock (bss True))) = Inr t \<and>
     pt_rep t (only_free NPROC)"
  using boot_lists [of "acquired PtableLock (bss True)"] by auto

subsection \<open>The transition system\<close>

text \<open>
  C4. Mutual exclusion of CPUs: in every state that the modelled scheduling steps of any number of
  CPUs (a turn of the scheduler, \<^verbatim>\<open>yield\<close>, \<^verbatim>\<open>sleep\<close> without the lock of the process table, \<^verbatim>\<open>wakeup\<close>, \<^verbatim>\<open>setpriority\<close>,
  other locks, timer ticks; not \<^verbatim>\<open>kill\<close>, \<^verbatim>\<open>fork\<close>, \<^verbatim>\<open>exit\<close> or \<^verbatim>\<open>wait\<close>) reach from a state with the machine's invariant, the process a CPU runs is in state \<^verbatim>\<open>RUNNING\<close>, no other CPU runs it, and every
  process in state \<^verbatim>\<open>RUNNING\<close> is run by some CPU.
\<close>

theorem running_on_one_cpu:
  assumes "mreach s"
  shows "(\<forall>c p. cpu_proc (cpus s c) = Some p \<longrightarrow>
      p_state (procs s p) = RUNNING \<and> (\<forall>d. cpu_proc (cpus s d) = Some p \<longrightarrow> d = c)) \<and>
    (\<forall>q<NPROC. p_state (procs s q) = RUNNING \<longrightarrow> (\<exists>d. cpu_proc (cpus s d) = Some q))"
proof -
  have ok: "run_ok (cur_procs s) (proc_states s)"
    using mreach_minv [OF assms] by (simp add: minv_def)
  show ?thesis
    using run_okD(2,3,4) [OF ok] by (auto simp: cur_procs_def proc_states_def)
qed

text \<open>Two processes: 0 runs on CPU 0, and 1 is ready at priority 2.\<close>

definition demo_lists :: "nat \<Rightarrow> listid" where
  "demo_lists p = (if p = 0 then LRunning else if p = 1 then LReady 2 else LFree)"

definition demo_rec :: "nat \<Rightarrow> proc \<Rightarrow> proc" where
  "demo_rec p r = r\<lparr>p_pid := of_nat p + 1, p_pgdir := 4096, p_context := CtxSched True InYield,
     p_priority := (if p = 1 then 2 else 0), p_budget := MAX_BUDGET\<rparr>"

definition demo :: kernel where
  "demo = table demo_lists demo_rec
     ((bss True)\<lparr>cpus := (\<lambda>c. (cpu0 True)\<lparr>cpu_proc := (if c = 0 then Some 0 else None)\<rparr>),
        PromoteAtTime := TICKS_TO_PROMOTE\<rparr>)"

lemma demo_rep: "pt_rep demo (members demo_lists)"
  unfolding demo_def by (rule pt_rep_table) (simp add: demo_lists_def MAXPRIO_def)

lemma demo_inv: "minv demo"
proof -
  have "ready_prio demo (members demo_lists)"
    by (auto simp: ready_prio_def demo_def demo_rec_def members_def demo_lists_def split: if_splits)
  moreover have "prio_bound demo" by (simp add: prio_bound_def demo_def demo_rec_def MAXPRIO_def)
  ultimately have "pt_inv demo" using demo_rep by (auto simp: pt_inv_def)
  moreover have "run_ok (cur_procs demo) (proc_states demo)"
    by (auto simp: run_ok_def cur_procs_def proc_states_def demo_def demo_lists_def NPROC_def
        split: if_splits)
  ultimately show ?thesis
    by (simp add: minv_def live_pgdir_def lock_free_def cpu_ok_def demo_def demo_rec_def cpu0_def spinlock0_def)
qed

theorem running_on_one_cpu_witness:
  "mreach demo \<and> p_state (procs demo 0) = RUNNING \<and>
   \<not> (\<exists>d. d \<noteq> 0 \<and> cpu_proc (cpus demo d) = Some 0)"
proof -
  have r: "mreach demo" by (rule mreach.init [OF demo_inv])
  have "cpu_proc (cpus demo 0) = Some 0" by (simp add: demo_def)
  with running_on_one_cpu [OF r] r show ?thesis by blast
qed

lemma scheduling_ok:
  assumes "mreach s"
  shows "cpu_proc (cpus s c) = None \<Longrightarrow> cpu_ncli (cpus s c) = 0 \<Longrightarrow>
      \<exists>r t. scheduler_pick (on_cpu c s) = Inr (r, t)"
    and "cpu_proc (cpus s c) = Some p \<Longrightarrow> cpu_ncli (cpus s c) = 0 \<Longrightarrow>
      \<exists>t u. yield (on_cpu c s) = Inr t \<and> scheduler_back t = Inr u"
    and "cpu_proc (cpus s c) = Some p \<Longrightarrow> may_sleep lk (on_cpu c s) \<Longrightarrow>
      \<exists>t u. sleep ch lk (on_cpu c s) = Inr t \<and> scheduler_back t = Inr u"
proof -
  have inv: "minv s" by (rule mreach_minv [OF assms])
  from inv obtain L where L: "pt_rep (on_cpu c s) L" "ready_prio (on_cpu c s) L"
    by (auto simp: minv_def pt_inv_def)
  note f = minv_facts [OF inv, of c]
  show "\<exists>r t. scheduler_pick (on_cpu c s) = Inr (r, t)" if "cpu_ncli (cpus s c) = 0"
    using scheduler_pick_effect [OF L f(4,3,1)] that by (auto split: option.splits)
  have sb: "\<exists>u. scheduler_back t = Inr u"
    if "links_frame (upd_proc p F b) t" "holding PtableLock b" "cpu_ncli (cpu_of b) = 1"
      "\<not> cpu_IF (cpu_of b)" for t F b
  proof -
    have "cpu_of t = cpu_of b" "locks t = locks b" "cpuno t = cpuno b"
      using links_frame_eq [OF that(1)] by (simp_all add: cpu_of_def)
    with that(2-4) show ?thesis
      unfolding scheduler_back_def
      using release_held [of PtableLock "set_proc None t"] by (auto simp: holding_def cli_ok_def)
  qed
  show "\<exists>t u. yield (on_cpu c s) = Inr t \<and> scheduler_back t = Inr u"
    if cur: "cpu_proc (cpus s c) = Some p" and n: "cpu_ncli (cpus s c) = 0"
  proof -
    note run = running_on_list [OF inv cur L(1) [simplified]]
    from yield_effect [OF L(1) f(4) _ run(1) f(1)] cur n obtain t where
      t: "yield (on_cpu c s) = Inr t" "links_frame (upd_proc p (\<lambda>r. off_cpu (ticks s)
        (cpu_IF (cpus s c)) InYield RUNNABLE (charged (ticks s) r)) (acquired PtableLock (on_cpu c s))) t"
      by auto
    from sb [OF t(2)] t(1) n show ?thesis by (simp add: cpu_of_acquired)
  qed
  show "\<exists>t u. sleep ch lk (on_cpu c s) = Inr t \<and> scheduler_back t = Inr u"
    if cur: "cpu_proc (cpus s c) = Some p" and m: "may_sleep lk (on_cpu c s)"
  proof -
    note run = running_on_list [OF inv cur L(1) [simplified]]
    from sleep_effect [OF L(1) _ run(1) m, of ch] cur obtain t G where
      t: "sleep ch lk (on_cpu c s) = Inr t" "links_frame (upd_proc p G (sleep_locks lk (on_cpu c s))) t"
      by auto
    from sb [OF t(2)] t(1) sleep_locks_state [OF m] show ?thesis by simp
  qed
qed

text \<open>
  C16. No panic in scheduling alone: start in any state that satisfies the machine's invariant and take any
  number of the modelled steps, on any CPUs: a turn of the scheduler, \<^verbatim>\<open>yield\<close>, \<^verbatim>\<open>sleep\<close> with no lock or a lock other
  than that of the process table, \<^verbatim>\<open>wakeup\<close>, \<^verbatim>\<open>setpriority\<close>, acquiring and releasing other locks, and timer ticks.
  In the state so reached the scheduler of an idle CPU completes its turn
  without a panic or a null dereference and its loops end; a running process can yield, and can
  go to sleep with a lock it holds, and control comes back to the scheduler. \<^verbatim>\<open>kill\<close>, \<^verbatim>\<open>fork\<close>, \<^verbatim>\<open>exit\<close> and \<^verbatim>\<open>wait\<close> are
  not steps of this machine, and after a \<^verbatim>\<open>kill\<close> the scheduler can panic (below).
\<close>

theorem scheduling_never_panics:
  assumes "mreach s"
  shows "(\<forall>c. cpu_proc (cpus s c) = None \<and> cpu_ncli (cpus s c) = 0 \<longrightarrow>
      (\<exists>r t. scheduler_pick (on_cpu c s) = Inr (r, t))) \<and>
    (\<forall>c p. cpu_proc (cpus s c) = Some p \<and> cpu_ncli (cpus s c) = 0 \<longrightarrow>
      (\<exists>t u. yield (on_cpu c s) = Inr t \<and> scheduler_back t = Inr u)) \<and>
    (\<forall>c p lk ch. cpu_proc (cpus s c) = Some p \<and> may_sleep lk (on_cpu c s) \<longrightarrow>
      (\<exists>t u. sleep ch lk (on_cpu c s) = Inr t \<and> scheduler_back t = Inr u))"
  using scheduling_ok [OF assms] by blast

theorem scheduling_never_panics_witness:
  "(\<exists>r t. scheduler_pick (on_cpu 1 demo) = Inr (r, t)) \<and>
   (\<exists>t u. yield (on_cpu 0 demo) = Inr t \<and> scheduler_back t = Inr u) \<and>
   (\<exists>t u. sleep (Some ChanTicks) None (on_cpu 0 demo) = Inr t \<and> scheduler_back t = Inr u)"
proof -
  have r: "mreach demo" by (rule mreach.init [OF demo_inv])
  have c: "cpu_proc (cpus demo 1) = None" "cpu_ncli (cpus demo 1) = 0"
    "cpu_proc (cpus demo 0) = Some 0" "cpu_ncli (cpus demo 0) = 0"
    by (simp_all add: demo_def cpu0_def)
  have "may_sleep None (on_cpu 0 demo)"
    using minv_facts(1,2) [OF demo_inv] c by (simp add: may_sleep_def)
  with scheduling_never_panics [OF r] c show ?thesis by blast
qed

text \<open>
  C18. The multi-level queue: a turn of the scheduler takes the first process of the ready
  list with the lowest number that is not empty, after the promotion when one is due, and puts it
  on the running list; only when every ready list is empty does it take none.
\<close>

theorem scheduler_takes_highest_priority:
  assumes "pt_rep s L" "ready_prio s L" "prio_bound s" "live_pgdir s" "lock_free PtableLock s"
    "cpu_ncli (cpu_of s) = 0"
  shows "case next_ready (after_promotion s L) of
      None \<Rightarrow> (\<forall>i\<le>MAXPRIO. L (LReady i) = []) \<and>
        (\<exists>t. scheduler_pick s = Inr (None, t) \<and> pt_rep t (after_promotion s L))
    | Some (i, p) \<Rightarrow> \<exists>t. scheduler_pick s = Inr (Some p, t) \<and>
        pt_rep t (list_move (after_promotion s L) (LReady i) LRunning p) \<and>
        proc_of t = Some p \<and> p_state (procs t p) = RUNNING \<and> p_cpu_ticks_in (procs t p) = ticks s"
proof -
  let ?L = "after_promotion s L"
  from scheduler_pick_effect [OF assms] obtain u where u: "pt_rep u ?L" "ticks u = ticks s"
    and e: "case next_ready ?L of
        None \<Rightarrow> scheduler_pick s = Inr (None, sti (released PtableLock u))
      | Some (i, p) \<Rightarrow> \<exists>s'. scheduler_pick s = Inr (Some p, s') \<and>
          pt_rep s' (list_move ?L (LReady i) LRunning p) \<and>
          links_frame (upd_proc p (on_cpu_rec (ticks u)) (set_proc (Some p) u)) s'"
    by (auto simp: sched_same_def)
  show ?thesis
  proof (cases "next_ready ?L")
    case None
    then have empty: "?L (LReady i) = []" if "i \<le> MAXPRIO" for i using that by (simp add: next_ready_None)
    have "L (LReady i) = []" if "i \<le> MAXPRIO" for i
    proof (cases i)
      case 0
      then show ?thesis
        using empty [of 0] by (simp add: after_promotion_def promoted_def MAXPRIO_def split: if_splits)
    next
      case (Suc j)
      then show ?thesis
        using empty [of 0] empty [of i] empty [of j] that
        by (cases "j = 0") (simp_all add: after_promotion_def promoted_def MAXPRIO_def split: if_splits)
    qed
    with None e u(1) show ?thesis by auto
  next
    case (Some ip)
    obtain i p where ip: "ip = (i, p)" by (cases ip)
    from e Some ip obtain t where t: "scheduler_pick s = Inr (Some p, t)"
      "pt_rep t (list_move ?L (LReady i) LRunning p)"
      "links_frame (upd_proc p (on_cpu_rec (ticks u)) (set_proc (Some p) u)) t" by auto
    have "proc_of t = Some p"
      using links_frame_eq [OF t(3)] by (simp add: set_proc_def upd_cpu_def proc_of_def)
    moreover have "p_state (procs t p) = RUNNING" "p_cpu_ticks_in (procs t p) = ticks s"
      using links_frame_proc [OF t(3), of p] u(2) by (simp_all add: on_cpu_rec_def)
    ultimately show ?thesis using t Some ip by simp
  qed
qed

theorem scheduler_takes_highest_priority_witness:
  "\<exists>t. scheduler_pick (on_cpu 1 demo) = Inr (Some 1, t) \<and> proc_of t = Some 1 \<and>
     p_state (procs t 1) = RUNNING"
proof -
  let ?s = "on_cpu 1 demo" and ?L = "members demo_lists"
  have L: "?L (LReady i) = (if i = 2 then [1] else [])" for i
    by (auto simp: members_def demo_lists_def NPROC_def upt_rec filter_empty_conv)
  have a: "after_promotion ?s ?L = ?L"
    by (simp add: after_promotion_def demo_def on_cpu_def TICKS_TO_PROMOTE_def)
  have nr: "next_ready ?L = Some (2, 1)"
    by (simp add: next_ready_def L MAXPRIO_def upt_rec)
  have rp: "ready_prio ?s ?L"
    by (auto simp: ready_prio_def demo_def demo_rec_def L split: if_splits)
  have n: "cpu_ncli (cpu_of ?s) = 0" by (simp add: demo_def cpu0_def)
  have rep: "pt_rep ?s ?L" using demo_rep by simp
  note f = minv_facts [OF demo_inv, of 1]
  from scheduler_takes_highest_priority [OF rep rp f(4,3,1) n, unfolded a nr] show ?thesis by auto
qed

subsection \<open>wakeup\<close>

lemma find_first: "\<forall>q\<in>set xs. \<not> Q q \<Longrightarrow> Q p \<Longrightarrow> find Q (xs @ p # ys) = Some p"
  by (induction xs) auto

text \<open>
  C33. \<^verbatim>\<open>wakeup\<close> makes the first process of the sleep list that waits on the channel runnable,
  at the end of the ready list of its priority, and no other process: a process further down the
  sleep list keeps sleeping even when it waits on the same channel.
\<close>

theorem wakeup_wakes_first_only:
  assumes "pt_rep s L" "prio_bound s" "lock_free PtableLock s" "cli_ok s"
    "L LSleep = xs @ p # ys" "\<forall>q\<in>set xs. p_chan (procs s q) \<noteq> c" "p_chan (procs s p) = c"
  shows "\<exists>t. wakeup c s = Inr t \<and>
     pt_rep t (list_move L LSleep (LReady (unat (p_priority (procs s p)))) p) \<and>
     p_state (procs t p) = RUNNABLE \<and> (\<forall>q\<in>set (xs @ ys). p_state (procs t q) = SLEEPING) \<and>
     lock_frame s t"
proof -
  let ?a = "acquired PtableLock s" and ?r = "LReady (unat (p_priority (procs s p)))"
  have "find (\<lambda>q. p_chan (procs ?a q) = c) (L LSleep) = Some p"
    using find_first [of xs "\<lambda>q. p_chan (procs s q) = c" p ys] assms(5-7) by simp
  with wakeup1_effect [of ?a L c] assms(1,2) obtain t where t: "wakeup1 c ?a = Inr t"
    "pt_rep t (list_move L LSleep ?r p)" "links_frame (set_state p RUNNABLE ?a) t" by auto
  have same: "sync_frame ?a t" "locks t = locks ?a" "cpus t = cpus ?a"
    using links_frame_eq [OF t(3)] sync_frame_trans [OF sync_frame_upd_proc links_frame_sync [OF t(3)
        [unfolded set_state_def]]] by (simp_all add: set_state_def)
  let ?f = "\<lambda>s. rbind (wakeup1 c s) (\<lambda>s. Inr ((), s))"
  have "?f ?a = Inr ((), t)" using t by simp
  from with_ptable_lock [where f = ?f, OF assms(3,4) this same]
  have w: "wakeup c s = Inr (released PtableLock t)" "lock_frame s (released PtableLock t)"
    by (simp_all add: wakeup_def)
  have st: "p_state (procs t q) = (if q = p then RUNNABLE else p_state (procs s q))" for q
    using links_frame_proc(4) [OF t(3), of q] by (simp add: set_state_def)
  have "p_state (procs t q) = SLEEPING" if "q \<in> set (xs @ ys)" for q
  proof -
    have "q \<noteq> p" "q \<in> set (L LSleep)"
      using that pt_rep_distinct [OF assms(1), of LSleep] assms(5) by auto
    with st pt_rep_state [OF assms(1), of q LSleep] show ?thesis by simp
  qed
  with w t(2) st show ?thesis by auto
qed

text \<open>Two processes sleep on the clock, with priorities 1 and 0.\<close>

definition sleepers :: kernel where
  "sleepers = table (\<lambda>p. if p < 2 then LSleep else LFree)
     (\<lambda>p r. r\<lparr>p_pid := of_nat p + 1, p_chan := Some ChanTicks, p_pgdir := 4096,
        p_priority := (if p = 0 then 1 else 0), p_context := CtxSched True (InSleep None)\<rparr>)
     ((bss True)\<lparr>PromoteAtTime := TICKS_TO_PROMOTE\<rparr>)"

definition sleeper_lists :: "listid \<Rightarrow> nat list" where
  "sleeper_lists l = (case l of LSleep \<Rightarrow> [0, 1] | LFree \<Rightarrow> [2..<NPROC] | _ \<Rightarrow> [])"

lemma sleepers_rep: "pt_rep sleepers sleeper_lists"
proof -
  have "members (\<lambda>p. if p < 2 then LSleep else LFree) l = sleeper_lists l" for l
  proof -
    have u: "[0..<NPROC] = [0, 1] @ [2..<NPROC]" by (simp add: NPROC_def upt_rec)
    show ?thesis
      unfolding members_def u by (cases l) (auto simp: sleeper_lists_def filter_id_conv filter_empty_conv)
  qed
  then have "members (\<lambda>p. if p < 2 then LSleep else LFree) = sleeper_lists" by auto
  with pt_rep_table [of "\<lambda>p. if p < 2 then LSleep else LFree"] show ?thesis
    by (simp add: sleepers_def)
qed

lemma sleepers_ok: "prio_bound sleepers" "lock_free PtableLock sleepers" "cli_ok sleepers"
  "ready_prio sleepers sleeper_lists" "cpu_ncli (cpu_of sleepers) = 0"
  by (simp_all add: sleepers_def prio_bound_def lock_free_def cli_ok_def ready_prio_def sleeper_lists_def
      MAXPRIO_def spinlock0_def cpu0_def cpu_of_def)

theorem wakeup_wakes_first_only_witness:
  "\<exists>t. wakeup (Some ChanTicks) sleepers = Inr t \<and> p_state (procs t 0) = RUNNABLE \<and>
     p_state (procs t 1) = SLEEPING \<and> p_chan (procs sleepers 1) = Some ChanTicks"
proof -
  have L: "sleeper_lists LSleep = [] @ 0 # [1]" by (simp add: sleeper_lists_def)
  have c: "p_chan (procs sleepers p) = Some ChanTicks" for p by (simp add: sleepers_def)
  from wakeup_wakes_first_only [OF sleepers_rep sleepers_ok(1-3) L, of "Some ChanTicks"] c
  show ?thesis by auto
qed

subsection \<open>kill\<close>

lemma kill_with_lock:
  assumes "lock_free PtableLock s" "cli_ok s" "kill_locked pid (acquired PtableLock s) = Inr (rc, t)"
    "links_frame (upd_procs F (acquired PtableLock s)) t"
  shows "kill pid s = Inr (rc, released PtableLock t)" "lock_frame s (released PtableLock t)"
proof -
  have same: "sync_frame (acquired PtableLock s) t" "locks t = locks (acquired PtableLock s)"
    "cpus t = cpus (acquired PtableLock s)"
    using links_frame_eq [OF assms(4)] sync_frame_trans [OF sync_frame_upd_procs links_frame_sync [OF assms(4)]]
    by simp_all
  from with_ptable_lock [where f = "kill_locked pid", OF assms(1-3) same]
  show "kill pid s = Inr (rc, released PtableLock t)" "lock_frame s (released PtableLock t)"
    by (simp_all add: kill_def)
qed

lemma on_kill_list:
  assumes "pt_rep s L" "p < NPROC" "p_state (procs s p) \<noteq> UNUSED"
  shows "\<exists>l\<in>set kill_lists. p \<in> set (L l)"
proof -
  from assms(1,2) obtain l where l: "p \<in> set (L l)" by (auto simp: pt_rep_def)
  with assms(1,3) have "list_state l \<noteq> UNUSED" "valid_list l" using pt_rep_state pt_rep_valid by fastforce+
  then have "l \<in> set kill_lists" by (cases l) (auto simp: kill_lists_def simp del: upt_Suc)
  with l show ?thesis by blast
qed

text \<open>
  With nobody on the sleep list, \<^verbatim>\<open>kill\<close> marks the process as killed and still reports
  failure: the return statement is inside the loop over the sleep list.
\<close>

theorem kill_fails_without_sleepers:
  assumes "pt_rep s L" "lock_free PtableLock s" "cli_ok s" "L LSleep = []"
    "p < NPROC" "p_state (procs s p) \<noteq> UNUSED"
  shows "\<exists>t. kill (p_pid (procs s p)) s = Inr (-1, t) \<and> p_killed (procs t p) \<and> pt_rep t L"
proof -
  let ?a = "acquired PtableLock s" and ?pid = "p_pid (procs s p)"
  let ?F = "mark_in ?pid (\<Union>l\<in>set kill_lists. set (L l))"
  have k: "kill_locked ?pid ?a = Inr (-1, upd_procs ?F ?a)"
    using kill_locked_no_sleeper [of ?a L] assms(1,4) by simp
  have "p_killed (procs (upd_procs ?F ?a) p)"
    using on_kill_list [OF assms(1,5,6)] by (auto simp: mark_in_def mark_pid_def)
  moreover have "pt_rep (upd_procs ?F ?a) L" using assms(1) by (simp add: pt_rep_mark)
  ultimately show ?thesis
    using kill_with_lock(1) [OF assms(2,3) k links_frame_refl] by auto
qed

theorem kill_fails_without_sleepers_witness:
  "\<exists>t. kill 1 demo = Inr (-1, t) \<and> p_killed (procs t 0)"
proof -
  have s: "members demo_lists LSleep = []" by (simp add: members_def demo_lists_def filter_empty_conv)
  have p: "(0::nat) < NPROC" "p_state (procs demo 0) \<noteq> UNUSED" "p_pid (procs demo 0) = 1"
    by (simp_all add: NPROC_def demo_def demo_lists_def demo_rec_def)
  have f: "lock_free PtableLock demo" "cli_ok demo"
    using minv_facts(1,2) [OF demo_inv, of 0] by (simp_all add: lock_free_def cli_ok_def cpu_of_def demo_def)
  from kill_fails_without_sleepers [OF demo_rep f s p(1,2)] p(3) show ?thesis by auto
qed

lemma kill_sleeper_effect:
  assumes rep: "pt_rep s L" and lk: "lock_free PtableLock s" "cli_ok s" and p: "p \<in> set (L LSleep)"
    and un: "\<forall>q<NPROC. p_pid (procs s q) = p_pid (procs s p) \<longrightarrow> q = p"
  shows "\<exists>t. kill (p_pid (procs s p)) s = Inr (0, released PtableLock t) \<and>
     kill_done (acquired PtableLock s) L p t"
proof -
  let ?a = "acquired PtableLock s" and ?pid = "p_pid (procs s p)"
  have "find_in L (pid_is ?a ?pid) kill_lists = Some (LSleep, p)"
  proof (rule find_in_unique)
    show "LSleep \<in> set kill_lists" by (simp add: kill_lists_def)
    show "q = p \<and> k = LSleep" if "q \<in> set (L k)" "pid_is ?a ?pid q" for k q
    proof -
      have "q = p" using that un pt_rep_bound [OF rep that(1)] by (simp add: pid_is_def)
      with pt_rep_unique_list [OF rep p, of k] that(1) show ?thesis by auto
    qed
  qed (use p in \<open>simp_all add: pid_is_def\<close>)
  moreover have "L LSleep \<noteq> []" using p by auto
  ultimately obtain t where t: "kill_locked ?pid ?a = Inr (0, t)" "kill_done ?a L p t"
    using kill_locked_effect [of ?a L ?pid] rep by auto
  have "\<exists>F. links_frame (upd_procs F ?a) t"
    using t(2) unfolding kill_done_def upd_proc_procs by (auto intro: links_frame_refl split: if_splits)
  then show ?thesis using kill_with_lock(1) [OF lk t(1)] t(2) by blast
qed

text \<open>
  C35. Killing a sleeping process succeeds, but only the head of the sleep list is made
  runnable: the search for the process on the sleep list gives up after its first step, so a
  process anywhere else on the list is marked as killed and stays asleep.
\<close>

theorem kill_wakes_only_head_sleeper:
  assumes "pt_rep s L" "lock_free PtableLock s" "cli_ok s" "L LSleep = h # ys" "p \<in> set (h # ys)"
    "\<forall>q<NPROC. p_pid (procs s q) = p_pid (procs s p) \<longrightarrow> q = p"
  shows "\<exists>t. kill (p_pid (procs s p)) s = Inr (0, t) \<and> p_killed (procs t p) \<and>
     p_state (procs t p) = (if p = h then RUNNABLE else SLEEPING)"
proof -
  have p: "p \<in> set (L LSleep)" using assms(4,5) by simp
  from kill_sleeper_effect [OF assms(1-3) p assms(6)] obtain t where
    t: "kill (p_pid (procs s p)) s = Inr (0, released PtableLock t)"
      "kill_done (acquired PtableLock s) L p t" by blast
  have "p_killed (procs t p) \<and> p_state (procs t p) = (if p = h then RUNNABLE else SLEEPING)"
  proof (cases "p = h")
    case True
    with t(2) assms(4) have "links_frame (upd_proc p (\<lambda>r. (killed_rec r)\<lparr>p_state := RUNNABLE\<rparr>)
        (acquired PtableLock s)) t" by (simp add: kill_done_def)
    from links_frame_proc [OF this, of p] True show ?thesis by simp
  next
    case False
    with t(2) assms(4) have "t = upd_proc p killed_rec (acquired PtableLock s)" by (simp add: kill_done_def)
    with False pt_rep_state [OF assms(1) p] show ?thesis by simp
  qed
  with t(1) show ?thesis by auto
qed

theorem kill_wakes_only_head_sleeper_witness:
  "\<exists>t. kill 2 sleepers = Inr (0, t) \<and> p_killed (procs t 1) \<and> p_state (procs t 1) = SLEEPING"
proof -
  have L: "sleeper_lists LSleep = 0 # [1]" by (simp add: sleeper_lists_def)
  have pid: "p_pid (procs sleepers q) = of_nat q + 1" for q by (simp add: sleepers_def)
  have un: "\<forall>q<NPROC. p_pid (procs sleepers q) = p_pid (procs sleepers 1) \<longrightarrow> q = 1"
  proof (intro allI impI)
    fix q assume q: "q < NPROC" "p_pid (procs sleepers q) = p_pid (procs sleepers 1)"
    then have "of_nat q = (of_nat 1 :: uint)" by (simp add: pid)
    then have "unat (of_nat q :: uint) = unat (of_nat 1 :: uint)" by (rule arg_cong)
    with q(1) show "q = 1" by (simp add: unat_of_nat NPROC_def)
  qed
  from kill_wakes_only_head_sleeper [OF sleepers_rep sleepers_ok(2,3) L _ un] pid [of 1] show ?thesis
    by auto
qed

lemma dispatch_wrong_priority:
  assumes rep: "pt_rep s L" and p: "p \<in> set (L (LReady i))" and pg: "p_pgdir (procs s p) \<noteq> 0"
    and cli: "cli_ok s" "0 < cpu_ncli (cpu_of s)" and pr: "p_priority (procs s p) \<noteq> of_nat i"
  shows "dispatch i p s =
     Inl (Panic ''Process removed from priority queue has incorrect priority. assertPrio()'')"
proof -
  let ?a = "set_proc (Some p) s"
  have sw: "switchuvm p ?a = Inr ?a" using cli pg by (intro switchuvm_ok) (simp_all add: cli_ok_def)
  have repa: "pt_rep ?a L" using rep by (simp add: set_proc_def)
  from sl.remove_law [OF pt_rep_lists [OF repa] p] obtain s1 where
    s1: "stateListRemove (LReady i) (Some p) ?a = Inr (0, s1)" "links_frame ?a s1" by blast
  have "p_state (procs s1 p) = RUNNABLE" "p_priority (procs s1 p) \<noteq> of_nat i"
    using links_frame_proc [OF s1(2)] pt_rep_state [OF repa p] pr by simp_all
  then show ?thesis using sw s1(1) by (simp add: dispatch_def assertState_def assertPrio_def)
qed

text \<open>
  C34. \<^verbatim>\<open>kill\<close> can stop the machine: it puts the process it wakes on ready list 0 but leaves
  its priority alone. Suppose the victim is the head of the sleep list, its priority is not 0, its pid is unique, it has a page
  directory, ready list 0 is empty, the time of the next promotion has not come, and the lock of the process table is free. Then
  the kill succeeds and the next turn of a scheduler panics in \<^verbatim>\<open>assertPrio\<close>.
\<close>

theorem kill_makes_scheduler_panic:
  assumes "pt_rep s L" "lock_free PtableLock s" "cpu_ncli (cpu_of s) = 0"
    "L LSleep = p # ys" "p_priority (procs s p) \<noteq> 0" "L (LReady 0) = []"
    "\<forall>q<NPROC. p_pid (procs s q) = p_pid (procs s p) \<longrightarrow> q = p" "p_pgdir (procs s p) \<noteq> 0"
    "ticks s < PromoteAtTime s"
  shows "\<exists>t. kill (p_pid (procs s p)) s = Inr (0, t) \<and> scheduler_pick t =
     Inl (Panic ''Process removed from priority queue has incorrect priority. assertPrio()'')"
proof -
  let ?a = "acquired PtableLock s" and ?L = "list_move L LSleep (LReady 0) p"
  have ok: "cli_ok s" using assms(3) by (simp add: cli_ok_def)
  have p: "p \<in> set (L LSleep)" using assms(4) by simp
  from kill_sleeper_effect [OF assms(1,2) ok p assms(7)] obtain t where
    t: "kill (p_pid (procs s p)) s = Inr (0, released PtableLock t)" "kill_done ?a L p t" by blast
  have rep: "pt_rep t ?L" and fr: "links_frame (upd_proc p (\<lambda>r. (killed_rec r)\<lparr>p_state := RUNNABLE\<rparr>) ?a) t"
    using t(2) assms(4) by (simp_all add: kill_done_def)
  let ?u = "released PtableLock t"
  let ?v = "acquired PtableLock (sti ?u)"
  have pL: "p \<in> set (?L (LReady 0))" by (simp add: list_move_def)
  have head: "heads ?v (LReady 0) = Some p"
    using pt_rep_head [OF rep, of "LReady 0"] assms(6) by (simp add: list_move_def)
  have t': "cpu_ncli (cpu_of t) = 1" "ticks t = ticks s" "PromoteAtTime t = PromoteAtTime s"
    using links_frame_eq [OF fr] assms(3) sync_frame_eq [OF links_frame_sync [OF fr]]
    by (simp_all add: cpus_acquired cpu_of_def)
  have "dispatch 0 p ?v =
     Inl (Panic ''Process removed from priority queue has incorrect priority. assertPrio()'')"
  proof (rule dispatch_wrong_priority)
    show "pt_rep ?v ?L" using rep by simp
    show "p_pgdir (procs ?v p) \<noteq> 0" "p_priority (procs ?v p) \<noteq> of_nat 0"
      using links_frame_proc [OF fr, of p] assms(5,8) by simp_all
    show "cli_ok ?v" "0 < cpu_ncli (cpu_of ?v)"
      using t'(1) by (simp_all add: cli_ok_def cpu_of_acquired cpu_of_released)
  qed (rule pL)
  moreover have "acquire PtableLock (sti ?u) = Inr ?v"
    by (rule acquire_free) (simp add: lock_free_def locks_released)
  moreover have "promote_check ?v = Inr ?v"
    using t'(2,3) assms(9) by (auto simp: promote_check_def)
  moreover have "[0..<MAXPRIO + 1] = 0 # [1..<MAXPRIO + 1]" by (simp add: upt_rec)
  ultimately have "scheduler_pick ?u =
     Inl (Panic ''Process removed from priority queue has incorrect priority. assertPrio()'')"
    using head by (simp add: scheduler_pick_def pick_ready_def del: upt_Suc)
  with t(1) show ?thesis by blast
qed

theorem kill_makes_scheduler_panic_witness:
  "\<exists>t. kill 1 sleepers = Inr (0, t) \<and> scheduler_pick t =
     Inl (Panic ''Process removed from priority queue has incorrect priority. assertPrio()'')"
proof -
  have L: "sleeper_lists LSleep = 0 # [1]" "sleeper_lists (LReady 0) = []" by (simp_all add: sleeper_lists_def)
  have pid: "p_pid (procs sleepers q) = of_nat q + 1" for q by (simp add: sleepers_def)
  have un: "\<forall>q<NPROC. p_pid (procs sleepers q) = p_pid (procs sleepers 0) \<longrightarrow> q = 0"
  proof (intro allI impI)
    fix q assume q: "q < NPROC" "p_pid (procs sleepers q) = p_pid (procs sleepers 0)"
    then have "of_nat q = (of_nat 0 :: uint)" by (simp add: pid)
    then have "unat (of_nat q :: uint) = unat (of_nat 0 :: uint)" by (rule arg_cong)
    with q(1) show "q = 0" by (simp add: unat_of_nat NPROC_def)
  qed
  have o: "p_priority (procs sleepers 0) \<noteq> 0" "p_pgdir (procs sleepers 0) \<noteq> 0"
    "ticks sleepers < PromoteAtTime sleepers"
    by (simp_all add: sleepers_def TICKS_TO_PROMOTE_def)
  from kill_makes_scheduler_panic [OF sleepers_rep sleepers_ok(2,5) L(1) o(1) L(2) un o(2,3)] pid [of 0]
  show ?thesis by simp
qed

subsection \<open>Priorities, promotion and budgets\<close>

text \<open>
  C22. \<^verbatim>\<open>setpriority\<close> with a legal priority: it succeeds exactly when a ready, sleeping or
  running process has the identifier; then the first such process has that priority, a ready
  process moves to the ready list of it, the records of all other processes keep everything but
  their links, and the invariant of the lists holds again.
\<close>

theorem setpriority_spec:
  assumes "pt_rep s L" "ready_prio s L" "prio_bound s" "unat prio \<le> MAXPRIO" "lock_free PtableLock s"
    "cli_ok s"
  shows "case find_in L (pid_is s pid) prio_lists of
      None \<Rightarrow> \<exists>t. setpriority pid prio s = Inr (-1, t) \<and> pt_rep t L \<and> procs t = procs s \<and> lock_frame s t
    | Some (l, p) \<Rightarrow> \<exists>t. setpriority pid prio s = Inr (0, t) \<and> pt_rep t (reprioritised L l prio p) \<and>
        pt_inv t \<and> p_priority (procs t p) = prio \<and> lock_frame s t \<and>
        (\<forall>q. q \<noteq> p \<longrightarrow> (procs t q)\<lparr>p_next := p_next (procs s q)\<rparr> = procs s q)"
proof -
  let ?a = "acquired PtableLock s"
  note e = setpriority_effect [OF assms(1,2,4-6), of pid]
  show ?thesis
  proof (cases "find_in L (pid_is s pid) prio_lists")
    case None
    have "lock_frame s (released PtableLock ?a)" by (rule lock_frame_section [OF assms(5,6)]) simp
    with None e assms(1) show ?thesis by auto
  next
    case (Some x)
    obtain l p where x: "x = (l, p)" by (cases x)
    with Some e obtain t where t: "setpriority pid prio s = Inr (0, released PtableLock t)"
      "prio_done ?a L prio l p t" "lock_frame s (released PtableLock t)" by auto
    have p: "p \<in> set (L l)" using find_in_Some [OF Some [unfolded x]] by simp
    have fr: "links_frame (upd_proc p (prio_rec prio) ?a) t" using t(2) by (simp add: prio_done_def)
    have "ready_prio t (reprioritised L l prio p)" "prio_bound t"
      using prio_done_inv [OF _ _ _ assms(4) p t(2)] assms(1-3) by simp_all
    moreover have "p_priority (procs t p) = prio" using links_frame_proc(19) [OF fr, of p] by simp
    moreover have "(procs t q)\<lparr>p_next := p_next (procs s q)\<rparr> = procs s q" if "q \<noteq> p" for q
      using links_frame_eqs [OF fr, of q] that by simp
    ultimately show ?thesis using Some x t by (auto simp: prio_done_def pt_inv_def)
  qed
qed

theorem setpriority_spec_witness:
  "\<exists>t. setpriority 2 5 demo = Inr (0, t) \<and> p_priority (procs t 1) = 5 \<and> pt_inv t"
proof -
  let ?L = "members demo_lists"
  have L: "?L (LReady i) = (if i = 2 then [1] else [])" for i
    by (auto simp: members_def demo_lists_def NPROC_def upt_rec filter_empty_conv)
  have h: "ready_prio demo ?L" by (auto simp: ready_prio_def demo_def demo_rec_def L split: if_splits)
  have f: "lock_free PtableLock demo" "cli_ok demo" "prio_bound demo"
    using minv_facts(1,2,4) [OF demo_inv, of 0] by (simp_all add: lock_free_def cli_ok_def cpu_of_def demo_def)
  have five: "unat (5 :: uint) \<le> MAXPRIO" by (simp add: MAXPRIO_def)
  have "p_pid (procs demo 1) = 2" by (simp add: demo_def demo_rec_def)
  then have "find_in ?L (pid_is demo 2) prio_lists = Some (LReady 2, 1)"
    by (simp add: prio_lists_def MAXPRIO_def upt_rec L pid_is_def)
  with setpriority_spec [OF demo_rep h f(3) five f(1,2), of 2] show ?thesis by auto
qed

text \<open>
  C21. Promotion: \<^verbatim>\<open>promoteProcs\<close> never panics under the invariant; the processes of ready
  list 1 are appended to list 0, list \<open>i + 1\<close> becomes list \<open>i\<close> and the last list becomes empty;
  every process that is sleeping, running or ready below level 0 gets the next better priority, or
  keeps 0, and a full budget; all other processes keep both.
\<close>

theorem promotion_spec:
  assumes "pt_rep s L" "ready_prio s L" "prio_bound s"
  shows "\<exists>t. promoteProcs s = Inr t \<and> pt_rep t (promoted MAXPRIO L) \<and> pt_inv t \<and>
     (\<forall>p. unat (p_priority (procs t p)) =
        (if p \<in> promotable L then unat (p_priority (procs s p)) - 1 else unat (p_priority (procs s p)))) \<and>
     (\<forall>p. p_budget (procs t p) = (if p \<in> promotable L then MAX_BUDGET else p_budget (procs s p)))"
proof -
  from promoteProcs_effect [OF assms(1,2)] obtain t where t: "promoteProcs s = Inr t"
    "pt_rep t (promoted MAXPRIO L)" "links_frame (upd_procs (lower_in (promotable L)) s) t" by blast
  have "pt_inv t"
    using t(2) ready_prio_promoted [OF assms(1,2) t(3)] prio_bound_lower [OF assms(3) t(3)]
    by (auto simp: pt_inv_def)
  then show ?thesis
    using t(1,2) by (auto simp: links_frame_proc [OF t(3)] lower_in_def unat_lower)
qed

theorem promotion_spec_witness:
  "\<exists>t. promoteProcs demo = Inr t \<and> unat (p_priority (procs t 1)) = 1 \<and> pt_inv t"
proof -
  let ?L = "members demo_lists"
  have L: "?L (LReady i) = (if i = 2 then [1] else [])" for i
    by (auto simp: members_def demo_lists_def NPROC_def upt_rec filter_empty_conv)
  have h: "ready_prio demo ?L" by (auto simp: ready_prio_def demo_def demo_rec_def L split: if_splits)
  have pb: "prio_bound demo" using minv_facts(4) [OF demo_inv, of 0] by (simp add: demo_def)
  have "1 \<in> promotable ?L"
    by (auto simp: promotable_def ready_set_def L MAXPRIO_def intro!: bexI [of _ 2])
  moreover have "unat (p_priority (procs demo 1)) = 2" by (simp add: demo_def demo_rec_def)
  ultimately show ?thesis using promotion_spec [OF demo_rep h pb] by auto
qed

lemma charge_exact:
  assumes "0 \<le> b" "b < 2 ^ 31" "uint used < 2 ^ 31"
  shows "charge b used = b - uint used"
proof -
  have "word_of_int b - used = (word_of_int (b - uint used) :: uint)"
    by (simp add: wi_hom_syms)
  moreover have "sint (word_of_int (b - uint used) :: uint) = b - uint used"
    using assms uint_ge_0 [of used] by (intro sint_of_int32) linarith+
  ultimately show ?thesis by (simp add: charge_def)
qed

text \<open>
  C36. Budgets: charging a process with a budget between 1 and \<^verbatim>\<open>MAX_BUDGET\<close> for fewer than
  \<open>2 ^ 31\<close> ticks leaves the difference when it is positive; otherwise the process gets a full
  budget and drops one priority level, down to \<^verbatim>\<open>MAXPRIO\<close>. The budget stays between 1 and
  \<^verbatim>\<open>MAX_BUDGET\<close>.
\<close>

theorem charge_budget_spec:
  fixes s :: kernel and p :: nat
  defines "used \<equiv> uint (ticks s - p_cpu_ticks_in (procs s p))" and "b \<equiv> p_budget (procs s p)"
  assumes "0 < b" "b \<le> MAX_BUDGET" "used < 2 ^ 31" "unat (p_priority (procs s p)) \<le> MAXPRIO"
  shows "p_budget (procs (charge_budget p s) p) = (if used < b then b - used else MAX_BUDGET) \<and>
     unat (p_priority (procs (charge_budget p s) p)) =
       (if used < b then unat (p_priority (procs s p)) else min (Suc (unat (p_priority (procs s p)))) MAXPRIO) \<and>
     0 < p_budget (procs (charge_budget p s) p) \<and> p_budget (procs (charge_budget p s) p) \<le> MAX_BUDGET"
proof -
  let ?pr = "p_priority (procs s p)"
  have c: "charge b (ticks s - p_cpu_ticks_in (procs s p)) = b - used"
    unfolding used_def using assms(3-5) by (intro charge_exact) (simp_all add: MAX_BUDGET_def used_def)
  have up: "unat (?pr + 1) = Suc (unat ?pr)" if "?pr < of_nat MAXPRIO"
    using that by (simp add: word_less_nat_alt MAXPRIO_def unat_word_ariths)
  have last: "unat ?pr = MAXPRIO" if "\<not> ?pr < of_nat MAXPRIO"
    using that assms(6) by (simp add: word_less_nat_alt MAXPRIO_def)
  have lt: "Suc (unat ?pr) \<le> MAXPRIO" if "?pr < of_nat MAXPRIO"
    using that by (simp add: word_less_nat_alt MAXPRIO_def)
  have "0 \<le> used" by (simp add: used_def)
  then show ?thesis
    using c assms(3,4) up last lt
    by (auto simp: charge_budget_def Let_def b_def [symmetric] MAX_BUDGET_def)
qed

theorem charge_budget_spec_witness:
  "p_budget (procs (charge_budget 1 (demo\<lparr>ticks := 250\<rparr>)) 1) = MAX_BUDGET \<and>
   unat (p_priority (procs (charge_budget 1 (demo\<lparr>ticks := 250\<rparr>)) 1)) = 3"
proof -
  have d: "p_budget (procs demo 1) = MAX_BUDGET" "p_cpu_ticks_in (procs demo 1) = 0"
    "p_priority (procs demo 1) = 2"
    by (simp_all add: demo_def demo_rec_def proc0_def)
  from charge_budget_spec [of "demo\<lparr>ticks := 250\<rparr>" 1] d show ?thesis
    by (simp add: MAX_BUDGET_def MAXPRIO_def)
qed

end
