(* ===== verification/Cstring.thy ===== *)
theory Cstring
  imports Xv6_Prelude
begin

section \<open>Memory and string routines (string.c, ulib.c)\<close>

text \<open>
  The routines of the kernel's \<^verbatim>\<open>string.c\<close> and of the user library's \<^verbatim>\<open>ulib.c\<close> that work on
  memory, on a byte-addressed memory with 32-bit addresses: pointer arithmetic wraps. A loop
  that counts is recursion on the count; a loop that looks for the terminating zero byte is a
  partial function, so that a string without one gives \<open>None\<close>. Routines whose names occur in
  both files carry the prefix \<open>u\<close> for the user version.
\<close>

type_synonym memory = "uint \<Rightarrow> uchar"

subsection \<open>The string instructions of x86.h\<close>

fun stosb :: "uint \<Rightarrow> uchar \<Rightarrow> nat \<Rightarrow> memory \<Rightarrow> memory" where
  "stosb a v 0 m = m"
| "stosb a v (Suc n) m = stosb (a + 1) v n (m(a := v))"

definition store32 :: "uint \<Rightarrow> uint \<Rightarrow> memory \<Rightarrow> memory" where
  "store32 a w m = m(a := ucast w, a + 1 := ucast (drop_bit 8 w), a + 2 := ucast (drop_bit 16 w),
     a + 3 := ucast (drop_bit 24 w))"

fun stosl :: "uint \<Rightarrow> uint \<Rightarrow> nat \<Rightarrow> memory \<Rightarrow> memory" where
  "stosl a w 0 m = m"
| "stosl a w (Suc n) m = stosl (a + 4) w n (store32 a w m)"

subsection \<open>string.c\<close>

definition memset :: "uint \<Rightarrow> uint \<Rightarrow> uint \<Rightarrow> memory \<Rightarrow> memory" where
  "memset dst c n m =
     (if dst mod 4 = 0 \<and> n mod 4 = 0
      then
        let c = c AND 0xFF in
        stosl dst (push_bit 24 c OR push_bit 16 c OR push_bit 8 c OR c) (unat (n div 4)) m
      else stosb dst (ucast c) (unat n) m)"

fun memcmp_loop :: "nat \<Rightarrow> uint \<Rightarrow> uint \<Rightarrow> memory \<Rightarrow> int" where
  "memcmp_loop 0 s1 s2 m = 0"
| "memcmp_loop (Suc n) s1 s2 m =
     (if m s1 \<noteq> m s2 then uint (m s1) - uint (m s2) else memcmp_loop n (s1 + 1) (s2 + 1) m)"

definition memcmp :: "uint \<Rightarrow> uint \<Rightarrow> uint \<Rightarrow> memory \<Rightarrow> int" where
  "memcmp v1 v2 n m = memcmp_loop (unat n) v1 v2 m"

fun copy_down :: "nat \<Rightarrow> uint \<Rightarrow> uint \<Rightarrow> memory \<Rightarrow> memory" where
  "copy_down 0 d s m = m"
| "copy_down (Suc n) d s m = copy_down n (d - 1) (s - 1) (m(d - 1 := m (s - 1)))"

fun copy_up :: "nat \<Rightarrow> uint \<Rightarrow> uint \<Rightarrow> memory \<Rightarrow> memory" where
  "copy_up 0 d s m = m"
| "copy_up (Suc n) d s m = copy_up n (d + 1) (s + 1) (m(d := m s))"

definition memmove :: "uint \<Rightarrow> uint \<Rightarrow> uint \<Rightarrow> memory \<Rightarrow> memory" where
  "memmove dst src n m =
     (if src < dst \<and> src + n > dst then copy_down (unat n) (dst + n) (src + n) m
      else copy_up (unat n) dst src m)"

fun strncmp_loop :: "nat \<Rightarrow> uint \<Rightarrow> uint \<Rightarrow> memory \<Rightarrow> int" where
  "strncmp_loop 0 p q m = 0"
| "strncmp_loop (Suc n) p q m =
     (if m p \<noteq> 0 \<and> m p = m q then strncmp_loop n (p + 1) (q + 1) m
      else uint (m p) - uint (m q))"

definition strncmp :: "uint \<Rightarrow> uint \<Rightarrow> uint \<Rightarrow> memory \<Rightarrow> int" where
  "strncmp p q n m = strncmp_loop (unat n) p q m"

fun strncpy_zero :: "nat \<Rightarrow> uint \<Rightarrow> memory \<Rightarrow> memory" where
  "strncpy_zero 0 s m = m"
| "strncpy_zero (Suc n) s m = strncpy_zero n (s + 1) (m(s := 0))"

fun strncpy_loop :: "nat \<Rightarrow> uint \<Rightarrow> uint \<Rightarrow> memory \<Rightarrow> memory" where
  "strncpy_loop 0 s t m = m"
| "strncpy_loop (Suc n) s t m =
     (let m' = m(s := m t) in
      if m t \<noteq> 0 then strncpy_loop n (s + 1) (t + 1) m' else strncpy_zero n (s + 1) m')"

definition strncpy :: "uint \<Rightarrow> uint \<Rightarrow> int \<Rightarrow> memory \<Rightarrow> memory" where
  "strncpy s t n m = strncpy_loop (nat n) s t m"

text \<open>The loop of \<^verbatim>\<open>safestrcpy\<close> with \<open>n\<close> bytes left for it, and the final zero byte.\<close>

fun safestrcpy_loop :: "nat \<Rightarrow> uint \<Rightarrow> uint \<Rightarrow> memory \<Rightarrow> memory" where
  "safestrcpy_loop 0 s t m = m(s := 0)"
| "safestrcpy_loop (Suc n) s t m =
     (let m' = m(s := m t) in
      if m t \<noteq> 0 then safestrcpy_loop n (s + 1) (t + 1) m' else m'(s + 1 := 0))"

definition safestrcpy :: "uint \<Rightarrow> uint \<Rightarrow> int \<Rightarrow> memory \<Rightarrow> memory" where
  "safestrcpy s t n m = (if n \<le> 0 then m else safestrcpy_loop (nat (n - 1)) s t m)"

partial_function (option) strlen_loop :: "uint \<Rightarrow> uint \<Rightarrow> memory \<Rightarrow> uint option" where
  "strlen_loop s n m = (if m (s + n) \<noteq> 0 then strlen_loop s (n + 1) m else Some n)"

definition strlen :: "uint \<Rightarrow> memory \<Rightarrow> uint option" where
  "strlen s m = strlen_loop s 0 m"

subsection \<open>ulib.c\<close>

partial_function (option) strcpy_loop :: "uint \<Rightarrow> uint \<Rightarrow> memory \<Rightarrow> memory option" where
  "strcpy_loop s t m =
     (let m' = m(s := m t) in if m t \<noteq> 0 then strcpy_loop (s + 1) (t + 1) m' else Some m')"

definition strcpy :: "uint \<Rightarrow> uint \<Rightarrow> memory \<Rightarrow> memory option" where
  "strcpy s t m = strcpy_loop s t m"

partial_function (option) strcmp :: "uint \<Rightarrow> uint \<Rightarrow> memory \<Rightarrow> int option" where
  "strcmp p q m =
     (if m p \<noteq> 0 \<and> m p = m q then strcmp (p + 1) (q + 1) m else Some (uint (m p) - uint (m q)))"

definition umemset :: "uint \<Rightarrow> uint \<Rightarrow> uint \<Rightarrow> memory \<Rightarrow> memory" where
  "umemset dst c n m = stosb dst (ucast c) (unat n) m"

partial_function (option) strchr :: "uint \<Rightarrow> uchar \<Rightarrow> memory \<Rightarrow> uint option" where
  "strchr s c m = (if m s \<noteq> 0 then if m s = c then Some s else strchr (s + 1) c m else Some 0)"

definition umemmove :: "uint \<Rightarrow> uint \<Rightarrow> int \<Rightarrow> memory \<Rightarrow> memory" where
  "umemmove dst src n m = copy_up (nat n) dst src m"

text \<open>
  \<^verbatim>\<open>atoi\<close> and \<^verbatim>\<open>atoo\<close> on the bytes of a string that ends in a zero byte; the accumulator is a
  32-bit integer that wraps.
\<close>

fun skip_spaces :: "uchar list \<Rightarrow> uchar list" where
  "skip_spaces (c # cs) = (if c = 32 then skip_spaces cs else c # cs)"
| "skip_spaces [] = []"

fun atoi_digits :: "uint \<Rightarrow> uchar \<Rightarrow> uchar list \<Rightarrow> uint \<Rightarrow> uint" where
  "atoi_digits base hi (c # cs) n =
     (if 48 \<le> c \<and> c \<le> hi then atoi_digits base hi cs (n * base + ucast c - 48) else n)"
| "atoi_digits base hi [] n = n"

definition ato :: "uint \<Rightarrow> uchar \<Rightarrow> uchar list \<Rightarrow> uint" where
  "ato base hi s =
     (let s = skip_spaces s;
          neg = (case s of c # _ \<Rightarrow> c = 45 | [] \<Rightarrow> False);
          s = (case s of c # cs \<Rightarrow> if c = 43 \<or> c = 45 then cs else s | [] \<Rightarrow> s);
          n = atoi_digits base hi s 0
      in if neg then (-1) * n else 1 * n)"

definition atoi :: "uchar list \<Rightarrow> uint" where
  "atoi s = ato 10 57 s"

definition atoo :: "uchar list \<Rightarrow> uint" where
  "atoo s = ato 8 55 s"

subsection \<open>Filling memory\<close>

lemma unat_less32: "unat (w::uint) < 2 ^ 32"
  using unsigned_less [where 'a = nat and w = w] by simp

lemma unat_minus1: "(x::uint) \<noteq> 0 \<Longrightarrow> unat (x - 1) = unat x - 1"
  by (simp add: unat_minus_one)

lemma stosb_apply:
  "n \<le> 2 ^ 32 \<Longrightarrow> stosb a v n m x = (if unat (x - a) < n then v else m x)"
proof (induction n arbitrary: a m)
  case 0
  then show ?case by simp
next
  case (Suc n)
  then have IH: "stosb (a + 1) v n (m(a := v)) x = (if unat (x - (a + 1)) < n then v else (m(a := v)) x)"
    by simp
  have e: "x - (a + 1) = x - a - 1" by simp
  show ?case
  proof (cases "x = a")
    case True
    then show ?thesis using IH by simp
  next
    case False
    then have "x - a \<noteq> 0" by simp
    then have "unat (x - a - 1) = unat (x - a) - 1" "0 < unat (x - a)"
      by (simp_all add: unat_minus1 unat_gt_0)
    with False IH e show ?thesis by auto
  qed
qed

lemma stosb_add: "stosb a v (j + k) m = stosb (a + of_nat j) v k (stosb a v j m)"
  by (induction j arbitrary: a m) (simp_all add: add.assoc)

lemma stosl_bytes:
  assumes "\<And>m a. store32 a w m = stosb a v 4 m"
  shows "stosl a w n m = stosb a v (4 * n) m"
proof (induction n arbitrary: a m)
  case (Suc n)
  have "stosb a v (4 * Suc n) m = stosb (a + 4) v (4 * n) (stosb a v 4 m)"
    using stosb_add [of a v 4 "4 * n" m] by simp
  with Suc assms show ?case by simp
qed simp

lemma store32_repeat:
  fixes c :: uint
  defines "b \<equiv> c AND 0xFF"
  shows "store32 a (push_bit 24 b OR push_bit 16 b OR push_bit 8 b OR b) m = stosb a (ucast c) 4 m"
proof -
  let ?w = "push_bit 24 b OR push_bit 16 b OR push_bit 8 b OR b"
  have mask: "0xFF = (mask 8 :: uint)" by (simp add: mask_eq_exp_minus_1)
  have "ucast ?w = (ucast c :: uchar)" "ucast (drop_bit 8 ?w) = (ucast c :: uchar)"
    "ucast (drop_bit 16 ?w) = (ucast c :: uchar)" "ucast (drop_bit 24 ?w) = (ucast c :: uchar)"
    unfolding b_def mask by (rule bit_word_eqI; auto simp: bit_simps)+
  then show ?thesis by (simp add: store32_def numeral_eq_Suc add.assoc)
qed

lemma memset_at:
  "memset dst c n m = (\<lambda>x. if x - dst < n then ucast c else m x)"
proof
  fix x
  have b: "unat n \<le> 2 ^ 32" using unat_less32 [of n] by simp
  have "memset dst c n m = stosb dst (ucast c) (unat n) m"
  proof (cases "dst mod 4 = 0 \<and> n mod 4 = 0")
    case True
    have "unat (n mod 4) = unat n mod 4" "unat (n div 4) = unat n div 4"
      by (simp_all add: unat_mod unat_div)
    with True have "4 * unat (n div 4) = unat n" by auto
    then show ?thesis
      using True stosl_bytes [OF store32_repeat, of dst c "unat (n div 4)" m]
      by (simp add: memset_def Let_def)
  next
    case False
    then show ?thesis by (auto simp: memset_def)
  qed
  with stosb_apply [OF b] show "memset dst c n m x = (if x - dst < n then ucast c else m x)"
    by (simp add: word_less_nat_alt)
qed

text \<open>
  C29. \<^verbatim>\<open>memset\<close> fills exactly the \<open>n\<close> bytes from \<open>dst\<close> with the low byte of \<open>c\<close>: the fast path
  that stores whole words agrees with the byte-wise one.
\<close>

theorem memset_fills:
  "memset dst c n m = (\<lambda>x. if x - dst < n then ucast c else m x)"
  by (rule memset_at)

subsection \<open>Copying memory\<close>

lemma unat_offset:
  fixes x dst src :: uint
  assumes "unat dst \<le> unat x" "unat src + (unat x - unat dst) < 2 ^ 32"
  shows "unat (src + (x - dst)) = unat src + (unat x - unat dst)"
proof -
  have "unat (x - dst) = unat x - unat dst"
    using assms(1) by (simp add: unat_sub word_le_nat_alt)
  with assms(2) show ?thesis by (simp add: unat_word_ariths)
qed

lemma unat_plus_nat:
  fixes a :: uint
  assumes "unat a + n < 2 ^ 32"
  shows "unat (a + of_nat n) = unat a + n"
  using assms by (simp add: unat_word_ariths unat_of_nat)

definition in_range :: "uint \<Rightarrow> nat \<Rightarrow> uint \<Rightarrow> bool" where
  "in_range d n x \<longleftrightarrow> unat d \<le> unat x \<and> unat x < unat d + n"

lemma copy_up_apply:
  assumes "unat d + n \<le> 2 ^ 32" "unat s + n \<le> 2 ^ 32" "unat d \<le> unat s \<or> unat s + n \<le> unat d"
  shows "copy_up n d s m x = (if in_range d n x then m (s + (x - d)) else m x)"
  using assms
proof (induction n arbitrary: d s m)
  case 0
  then show ?case by (auto simp: in_range_def)
next
  case (Suc n)
  show ?case
  proof (cases "n = 0")
    case True
    moreover have "in_range d 1 x = (x = d)" by (auto simp: in_range_def word_unat_eq_iff)
    ultimately show ?thesis by simp
  next
    case False
    then have d1: "unat (d + 1) = unat d + 1" "unat (s + 1) = unat s + 1"
      using Suc.prems unat_plus_nat [of d 1] unat_plus_nat [of s 1] by simp_all
    have IH: "copy_up n (d + 1) (s + 1) (m(d := m s)) x =
        (if in_range (d + 1) n x then (m(d := m s)) (s + 1 + (x - (d + 1))) else (m(d := m s)) x)"
      by (rule Suc.IH) (use Suc.prems d1 in auto)
    have a: "s + 1 + (x - (d + 1)) = s + (x - d)" by simp
    have ne: "s + (x - d) \<noteq> d" if "in_range (d + 1) n x"
    proof -
      from that d1 have r: "unat d + 1 \<le> unat x" "unat x < unat d + 1 + n" by (auto simp: in_range_def)
      then have "unat (s + (x - d)) = unat s + (unat x - unat d)"
        using Suc.prems by (intro unat_offset) auto
      with r Suc.prems(3) have "unat (s + (x - d)) \<noteq> unat d" by auto
      then show ?thesis by (rule contrapos_nn) (erule arg_cong)
    qed
    have "in_range d (Suc n) x \<longleftrightarrow> x = d \<or> in_range (d + 1) n x"
      using d1 by (auto simp: in_range_def word_unat_eq_iff)
    moreover have "\<not> in_range (d + 1) n d" using d1 by (simp add: in_range_def)
    ultimately show ?thesis using IH a ne by auto
  qed
qed

lemma copy_down_apply:
  assumes "unat d + n \<le> 2 ^ 32" "unat s + n \<le> 2 ^ 32" "unat s \<le> unat d"
  shows "copy_down n (d + of_nat n) (s + of_nat n) m x = (if in_range d n x then m (s + (x - d)) else m x)"
  using assms
proof (induction n arbitrary: m)
  case 0
  then show ?case by (auto simp: in_range_def)
next
  case (Suc n)
  let ?m = "m(d + of_nat n := m (s + of_nat n))"
  have IH: "copy_down n (d + of_nat n) (s + of_nat n) ?m x = (if in_range d n x then ?m (s + (x - d)) else ?m x)"
    by (rule Suc.IH) (use Suc.prems in auto)
  have dn: "unat (d + of_nat n) = unat d + n" using Suc.prems by (intro unat_plus_nat) simp
  have ne: "s + (x - d) \<noteq> d + of_nat n" if "in_range d n x"
  proof -
    from that have "unat (s + (x - d)) = unat s + (unat x - unat d)"
      using Suc.prems by (intro unat_offset) (auto simp: in_range_def)
    with that Suc.prems dn have "unat (s + (x - d)) \<noteq> unat (d + of_nat n)" by (auto simp: in_range_def)
    then show ?thesis by (rule contrapos_nn) (erule arg_cong)
  qed
  have "in_range d (Suc n) x \<longleftrightarrow> x = d + of_nat n \<or> in_range d n x"
    using dn by (auto simp: in_range_def word_unat_eq_iff)
  moreover have "\<not> in_range d n (d + of_nat n)" using dn by (simp add: in_range_def)
  moreover have "copy_down (Suc n) (d + of_nat (Suc n)) (s + of_nat (Suc n)) m x =
      copy_down n (d + of_nat n) (s + of_nat n) ?m x"
    by (simp add: algebra_simps)
  ultimately show ?case using IH ne by auto
qed

text \<open>
  C28. \<^verbatim>\<open>memmove\<close> copies the \<open>n\<close> bytes at \<open>src\<close> to \<open>dst\<close> and changes nothing else, for every
  position of the two ranges, overlapping ones included, as long as neither runs over the end of
  the address space.
\<close>

theorem memmove_copies:
  assumes "unat dst + unat n \<le> 2 ^ 32" "unat src + unat n < 2 ^ 32"
  shows "memmove dst src n m x = (if in_range dst (unat n) x then m (src + (x - dst)) else m x)"
proof (cases "src < dst \<and> src + n > dst")
  case True
  then have "unat src \<le> unat dst" by (simp add: word_less_nat_alt)
  with copy_down_apply [of dst "unat n" src m x] assms True show ?thesis by (simp add: memmove_def)
next
  case False
  have "unat (src + n) = unat src + unat n" using unat_plus_nat [of src "unat n"] assms by simp
  with False have "unat dst \<le> unat src \<or> unat src + unat n \<le> unat dst"
    by (auto simp: word_less_nat_alt)
  with copy_up_apply [of dst "unat n" src m x] assms False show ?thesis by (auto simp: memmove_def)
qed

theorem memmove_copies_witness:
  "map (memmove 0x1002 0x1000 4 (\<lambda>a. ucast a)) [0x1002, 0x1003, 0x1004, 0x1005, 0x1006] = [0, 1, 2, 3, 6]"
  using memmove_copies [of "0x1002" 4 "0x1000" "\<lambda>a. ucast a" "0x1002"]
    memmove_copies [of "0x1002" 4 "0x1000" "\<lambda>a. ucast a" "0x1003"]
    memmove_copies [of "0x1002" 4 "0x1000" "\<lambda>a. ucast a" "0x1004"]
    memmove_copies [of "0x1002" 4 "0x1000" "\<lambda>a. ucast a" "0x1005"]
    memmove_copies [of "0x1002" 4 "0x1000" "\<lambda>a. ucast a" "0x1006"]
  by (simp add: in_range_def)

subsection \<open>Strings\<close>

text \<open>The bytes \<open>cs\<close>, none of them zero, at address \<open>s\<close>, followed by a zero byte.\<close>

fun cstring :: "memory \<Rightarrow> uint \<Rightarrow> uchar list \<Rightarrow> bool" where
  "cstring m s [] = (m s = 0)"
| "cstring m s (c # cs) = (m s = c \<and> c \<noteq> 0 \<and> cstring m (s + 1) cs)"

lemma cstring_frame:
  assumes "\<And>i. i \<le> length cs \<Longrightarrow> m' (s + of_nat i) = m (s + of_nat i)"
  shows "cstring m' s cs = cstring m s cs"
  using assms
proof (induction cs arbitrary: s)
  case Nil
  from Nil [of 0] show ?case by simp
next
  case (Cons c cs)
  have "m' (s + 1 + of_nat i) = m (s + 1 + of_nat i)" if "i \<le> length cs" for i
    using Cons.prems [of "Suc i"] that by (simp add: add.assoc)
  with Cons.IH [of "s + 1"] Cons.prems [of 0] show ?case by simp
qed

lemma strlen_loop_cstring:
  "cstring m (s + n) cs \<Longrightarrow> strlen_loop s n m = Some (n + of_nat (length cs))"
proof (induction cs arbitrary: n)
  case Nil
  then show ?case by (subst strlen_loop.simps) simp
next
  case (Cons c cs)
  then show ?case by (subst strlen_loop.simps) (simp add: add.assoc)
qed

lemma uint_same: "uint a = uint b \<longleftrightarrow> a = b"
  by (simp add: word_uint_eq_iff)

lemma strcmp_cstring:
  assumes "cstring m p cs" "cstring m q ds"
  shows "\<exists>r. strcmp p q m = Some r \<and> (r = 0 \<longleftrightarrow> cs = ds)"
  using assms
proof (induction cs arbitrary: p q ds)
  case Nil
  then show ?case by (cases ds) (subst strcmp.simps, auto simp: uint_0_iff)+
next
  case (Cons c cs)
  show ?case
  proof (cases ds)
    case Nil
    with Cons.prems show ?thesis by (subst strcmp.simps) (auto simp: uint_0_iff)
  next
    case (Cons d ds')
    with Cons.prems Cons.IH [of "p + 1" "q + 1" ds'] \<open>cstring m q ds\<close> show ?thesis
      by (subst strcmp.simps) (auto simp: uint_same)
  qed
qed

text \<open>\<^verbatim>\<open>strncmp\<close> compares the strings cut off after \<open>n\<close> bytes.\<close>

lemma strncmp_loop_cstring:
  assumes "cstring m p cs" "cstring m q ds"
  shows "strncmp_loop n p q m = 0 \<longleftrightarrow> take n cs = take n ds"
  using assms
proof (induction n arbitrary: p q cs ds)
  case (Suc n)
  show ?case
    using Suc.prems Suc.IH [of "p + 1" "tl cs" "q + 1" "tl ds"]
    by (cases cs; cases ds) (auto simp: uint_0_iff uint_same)
qed simp

text \<open>
  C38. Strings: on two strings that end in a zero byte, \<^verbatim>\<open>strlen\<close> returns the length,
  \<^verbatim>\<open>strcmp\<close> ends and is zero exactly for equal strings, and \<^verbatim>\<open>strncmp\<close> is zero exactly when
  the first \<open>n\<close> bytes of the strings agree.
\<close>

theorem string_comparison:
  assumes "cstring m p cs" "cstring m q ds"
  shows "strlen p m = Some (of_nat (length cs)) \<and>
     (\<exists>r. strcmp p q m = Some r \<and> (r = 0 \<longleftrightarrow> cs = ds)) \<and>
     (strncmp p q n m = 0 \<longleftrightarrow> take (unat n) cs = take (unat n) ds)"
  using strlen_loop_cstring [of m p 0 cs] strcmp_cstring [OF assms] strncmp_loop_cstring [OF assms] assms(1)
  by (simp add: strlen_def strncmp_def)

definition demo_mem :: memory where
  "demo_mem a = (if a = 100 then 104 else if a = 101 then 105 else if a = 200 then 104 else 0)"

theorem string_comparison_witness:
  "strlen 100 demo_mem = Some 2 \<and> strcmp 100 200 demo_mem \<noteq> Some 0 \<and> strncmp 100 200 1 demo_mem = 0"
proof -
  have "cstring demo_mem 100 [104, 105]" "cstring demo_mem 200 [104]"
    by (simp_all add: demo_mem_def)
  from string_comparison [OF this, of 1] show ?thesis by auto
qed

subsection \<open>Copying strings\<close>

lemma plus_nat_neq:
  fixes s :: uint
  assumes "0 < k" "k < 2 ^ 32"
  shows "s + of_nat k \<noteq> s"
proof
  assume "s + of_nat k = s"
  then have "of_nat k = (0 :: uint)" by simp
  then have "unat (of_nat k :: uint) = 0" by simp
  with assms show False by (simp add: unat_of_nat)
qed

text \<open>Two regions with no byte in common.\<close>

definition apart :: "uint \<Rightarrow> nat \<Rightarrow> uint \<Rightarrow> nat \<Rightarrow> bool" where
  "apart s n t k \<longleftrightarrow> (\<forall>i<n. \<forall>j<k. s + of_nat i \<noteq> t + of_nat j)"

lemma apart_step: "apart s (Suc n) t (Suc k) \<Longrightarrow> apart (s + 1) n (t + 1) k"
  unfolding apart_def
proof (intro allI impI)
  fix i j assume a: "\<forall>i<Suc n. \<forall>j<Suc k. s + of_nat i \<noteq> t + of_nat j" and "i < n" "j < k"
  then have "s + of_nat (Suc i) \<noteq> t + of_nat (Suc j)" by blast
  then show "s + 1 + of_nat i \<noteq> t + 1 + of_nat j" by (simp add: add.assoc)
qed

lemma apart_upd:
  assumes "apart s (Suc n) t (Suc k)"
    and "i \<le> k"
  shows "(m(s := v)) (t + of_nat i) = m (t + of_nat i)"
proof -
  have "s + of_nat 0 \<noteq> t + of_nat i"
    using assms unfolding apart_def by (metis le_imp_less_Suc zero_less_Suc)
  then show ?thesis by simp
qed

lemma safestrcpy_loop_below:
  assumes "\<And>i. i \<le> n \<Longrightarrow> x \<noteq> s + of_nat i"
  shows "safestrcpy_loop n s t m x = m x"
  using assms
proof (induction n arbitrary: s t m)
  case 0
  from 0 [of 0] show ?case by simp
next
  case (Suc n)
  have "x \<noteq> s + 1 + of_nat i" if "i \<le> n" for i
    using Suc.prems [of "Suc i"] that by (simp add: add.assoc)
  with Suc.IH [of "s + 1"] Suc.prems [of 0] Suc.prems [of 1] show ?case by (auto simp: Let_def)
qed

lemma safestrcpy_loop_copies:
  assumes "cstring m t cs" "apart s (Suc n) t (Suc (length cs))" "n < 2 ^ 31"
  shows "cstring (safestrcpy_loop n s t m) s (take n cs)"
  using assms
proof (induction n arbitrary: s t m cs)
  case 0
  then show ?case by simp
next
  case (Suc n)
  show ?case
  proof (cases cs)
    case Nil
    with Suc.prems have "m t = 0" by simp
    moreover have "s + 1 \<noteq> s" by simp
    ultimately show ?thesis using Nil by simp
  next
    case (Cons c cs')
    let ?m = "m(s := c)"
    have t: "m t = c" "c \<noteq> 0" "cstring m (t + 1) cs'" using Suc.prems(1) Cons by simp_all
    have ap: "apart (s + 1) (Suc n) (t + 1) (Suc (length cs'))"
      using apart_step Suc.prems(2) Cons by simp
    have "cstring ?m (t + 1) cs'"
    proof -
      have "?m (t + 1 + of_nat i) = m (t + 1 + of_nat i)" if "i \<le> length cs'" for i
        using apart_upd [OF Suc.prems(2), of "Suc i" m c] that Cons by (simp add: add.assoc)
      with cstring_frame [of cs' ?m "t + 1" m] t(3) show ?thesis by simp
    qed
    moreover have "n < 2 ^ 31" using Suc.prems(3) by simp
    ultimately have IH: "cstring (safestrcpy_loop n (s + 1) (t + 1) ?m) (s + 1) (take n cs')"
      using Suc.IH ap by blast
    have "safestrcpy_loop n (s + 1) (t + 1) ?m s = ?m s"
    proof (rule safestrcpy_loop_below)
      show "s \<noteq> s + 1 + of_nat i" if "i \<le> n" for i
        using plus_nat_neq [of "Suc i" s] that Suc.prems(3) by (simp add: add.assoc)
    qed
    with IH t Cons show ?thesis by (simp add: Let_def)
  qed
qed

text \<open>
  C39. \<^verbatim>\<open>safestrcpy\<close> leaves a terminated string in the destination, the source cut off after
  \<open>n - 1\<close> bytes, whenever the source does not overlap the \<open>n\<close> bytes of the destination, and writes
  nothing outside these \<open>n\<close> bytes, although it stores a second zero byte after copying a terminator.
\<close>

theorem safestrcpy_terminates_string:
  assumes "cstring m t cs" "0 < n" "n < 2 ^ 31" "apart s (nat n) t (Suc (length cs))"
  shows "cstring (safestrcpy s t n m) s (take (nat n - 1) cs) \<and>
     (\<forall>x. (\<forall>i<nat n. x \<noteq> s + of_nat i) \<longrightarrow> safestrcpy s t n m x = m x)"
proof -
  define k where "k = nat (n - 1)"
  have k: "nat n = Suc k" "nat (n - 1) = k" using assms(2) by (simp_all add: k_def)
  have kb: "k < 2 ^ 31" using assms(3) k by simp
  have "apart s (Suc k) t (Suc (length cs))" using assms(4) k by simp
  from safestrcpy_loop_copies [OF assms(1) this kb]
  have "cstring (safestrcpy s t n m) s (take (nat n - 1) cs)" using assms(2) k by (simp add: safestrcpy_def)
  moreover have "safestrcpy s t n m x = m x" if "\<forall>i<nat n. x \<noteq> s + of_nat i" for x
    using safestrcpy_loop_below [of k x s t m] that k assms(2) by (simp add: safestrcpy_def less_Suc_eq_le)
  ultimately show ?thesis by blast
qed

theorem safestrcpy_terminates_string_witness:
  "cstring (safestrcpy 500 100 2 demo_mem) 500 [104] \<and> safestrcpy 500 100 2 demo_mem 502 = demo_mem 502"
proof -
  have c: "cstring demo_mem 100 [104, 105]" by (simp add: demo_mem_def)
  have l: "(i < nat 2) = (i = 0 \<or> i = 1)" "(i < Suc (length [104, 105::uchar])) = (i = 0 \<or> i = 1 \<or> i = 2)"
    for i by auto
  have "apart 500 (nat 2) 100 (Suc (length [104, 105::uchar]))" unfolding apart_def l by auto
  from safestrcpy_terminates_string [OF c _ _ this, unfolded l] show ?thesis by auto
qed

end
