(* ===== verification/Userlib.thy ===== *)
theory Userlib
  imports Cstring Xv6_State
begin

section \<open>The user library and grep (printf.c, ulib.c, grep.c)\<close>

text \<open>
  Formatted output and the regular-expression matcher of \<^verbatim>\<open>grep\<close>. A string is the list of its
  bytes before the terminating zero byte; the text that \<^verbatim>\<open>printf\<close> writes, one byte per
  \<^verbatim>\<open>write\<close> call, is a list of bytes. The variable arguments are the words \<^verbatim>\<open>ap[0]\<close>,
  \<^verbatim>\<open>ap[1]\<close>, \<dots> after the format, a function; the string an argument points to is given by a
  function \<open>str\<close> of the address.
\<close>

subsection \<open>printf.c\<close>

definition digits_upper :: "uchar list" where
  "digits_upper = [48, 49, 50, 51, 52, 53, 54, 55, 56, 57, 65, 66, 67, 68, 69, 70]"

text \<open>The loop that fills \<^verbatim>\<open>buf[16]\<close>; \<open>k\<close> bytes of it are left.\<close>

fun printint_loop :: "uchar list \<Rightarrow> nat \<Rightarrow> uint \<Rightarrow> uint \<Rightarrow> uchar list \<Rightarrow> uchar list result" where
  "printint_loop digits 0 base x buf = Inl OutOfBounds"
| "printint_loop digits (Suc k) base x buf =
     (let buf' = buf @ [digits ! unat (x mod base)] in
      if x div base \<noteq> 0 then printint_loop digits k base (x div base) buf' else Inr buf')"

definition uprintint :: "uint \<Rightarrow> uint \<Rightarrow> bool \<Rightarrow> uchar list result" where
  "uprintint xx base sign =
     (let neg = (sign \<and> sint xx < 0);
          x = (if neg then - xx else xx)
      in rbind (printint_loop digits_upper 16 base x []) (\<lambda>buf.
         if neg then if length buf < 16 then Inr (rev (buf @ [45])) else Inl OutOfBounds
         else Inr (rev buf)))"

definition null_text :: "uchar list" where
  "null_text = [40, 110, 117, 108, 108, 41]"

text \<open>\<open>st\<close> says that the previous byte was a \<^verbatim>\<open>%\<close> that starts a directive.\<close>

fun uprintf_loop :: "(uint \<Rightarrow> uchar list) \<Rightarrow> (nat \<Rightarrow> uint) \<Rightarrow> uchar list \<Rightarrow> bool \<Rightarrow> nat \<Rightarrow> uchar list
    \<Rightarrow> uchar list result" where
  "uprintf_loop str args [] st ap out = Inr out"
| "uprintf_loop str args (c # fmt) st ap out =
     (if \<not> st
      then if c = 37 then uprintf_loop str args fmt True ap out
           else uprintf_loop str args fmt False ap (out @ [c])
      else if c = 100
      then rbind (uprintint (args ap) 10 True) (\<lambda>d. uprintf_loop str args fmt False (Suc ap) (out @ d))
      else if c = 120 \<or> c = 112
      then rbind (uprintint (args ap) 16 False) (\<lambda>d. uprintf_loop str args fmt False (Suc ap) (out @ d))
      else if c = 115
      then uprintf_loop str args fmt False (Suc ap)
             (out @ (if args ap = 0 then null_text else str (args ap)))
      else if c = 99 then uprintf_loop str args fmt False (Suc ap) (out @ [ucast (args ap)])
      else if c = 37 then uprintf_loop str args fmt False ap (out @ [c])
      else uprintf_loop str args fmt False ap (out @ [37, c]))"

definition uprintf :: "(uint \<Rightarrow> uchar list) \<Rightarrow> uchar list \<Rightarrow> (nat \<Rightarrow> uint) \<Rightarrow> uchar list result" where
  "uprintf str fmt args = uprintf_loop str args fmt False 0 []"

subsection \<open>ulib.c: gets\<close>

text \<open>
  The bytes \<^verbatim>\<open>read(0, &c, 1)\<close> delivers are a list, whose end is end-of-file; the result is the
  text left in \<^verbatim>\<open>buf\<close> and what is still unread.
\<close>

fun gets_loop :: "nat \<Rightarrow> uchar list \<Rightarrow> uchar list \<Rightarrow> uchar list \<times> uchar list" where
  "gets_loop 0 buf inp = (buf, inp)"
| "gets_loop (Suc k) buf [] = (buf, [])"
| "gets_loop (Suc k) buf (c # inp) =
     (if c = 10 \<or> c = 13 then (buf @ [c], inp) else gets_loop k (buf @ [c]) inp)"

definition gets :: "int \<Rightarrow> uchar list \<Rightarrow> uchar list \<times> uchar list" where
  "gets n inp = gets_loop (nat (n - 1)) [] inp"

subsection \<open>grep.c: the matcher\<close>

function matchhere :: "uchar list \<Rightarrow> uchar list \<Rightarrow> bool"
  and matchstar :: "uchar \<Rightarrow> uchar list \<Rightarrow> uchar list \<Rightarrow> bool" where
  "matchhere [] text = True"
| "matchhere [c] text =
     (if c = 36 then text = []
      else case text of [] \<Rightarrow> False | t # ts \<Rightarrow> (c = 46 \<or> c = t) \<and> matchhere [] ts)"
| "matchhere (c # d # re) text =
     (if d = 42 then matchstar c re text
      else case text of [] \<Rightarrow> False | t # ts \<Rightarrow> (c = 46 \<or> c = t) \<and> matchhere (d # re) ts)"
| "matchstar c re text =
     (matchhere re text \<or>
      (case text of [] \<Rightarrow> False | t # ts \<Rightarrow> (t = c \<or> c = 46) \<and> matchstar c re ts))"
  by pat_completeness auto
termination
  by (relation "measures [\<lambda>x. case x of Inl (re, text) \<Rightarrow> 2 * length re | Inr (c, re, text) \<Rightarrow> 2 * length re + 1,
      \<lambda>x. case x of Inl (re, text) \<Rightarrow> length text | Inr (c, re, text) \<Rightarrow> length text]") auto

fun match_from :: "uchar list \<Rightarrow> uchar list \<Rightarrow> bool" where
  "match_from re [] = matchhere re []"
| "match_from re (t # ts) = (matchhere re (t # ts) \<or> match_from re ts)"

definition match :: "uchar list \<Rightarrow> uchar list \<Rightarrow> bool" where
  "match re text =
     (case re of c # re' \<Rightarrow> if c = 94 then matchhere re' text else match_from re text
      | [] \<Rightarrow> match_from re text)"

subsection \<open>The matcher accepts what its patterns denote\<close>

text \<open>
  The patterns, and what it means for a text to begin with one: \<open>PChar c\<close> stands for one byte and
  \<open>PStar c\<close> for any number of bytes, equal to \<open>c\<close> or arbitrary when \<open>c\<close> is a dot.
\<close>

datatype pat = PEnd | PEos | PChar uchar pat | PStar uchar pat

fun parse_re :: "uchar list \<Rightarrow> pat" where
  "parse_re [] = PEnd"
| "parse_re [c] = (if c = 36 then PEos else PChar c PEnd)"
| "parse_re (c # d # re) = (if d = 42 then PStar c (parse_re re) else PChar c (parse_re (d # re)))"

definition fits :: "uchar \<Rightarrow> uchar \<Rightarrow> bool" where
  "fits c t \<longleftrightarrow> c = 46 \<or> c = t"

fun denotes :: "pat \<Rightarrow> uchar list \<Rightarrow> bool" where
  "denotes PEnd tx = True"
| "denotes PEos tx = (tx = [])"
| "denotes (PChar c p) tx = (\<exists>t ts. tx = t # ts \<and> fits c t \<and> denotes p ts)"
| "denotes (PStar c p) tx = (\<exists>us vs. tx = us @ vs \<and> (\<forall>u\<in>set us. fits c u) \<and> denotes p vs)"

lemma star_unfold:
  "(\<exists>us vs. tx = us @ vs \<and> (\<forall>u\<in>set us. fits c u) \<and> P vs) \<longleftrightarrow>
   P tx \<or> (\<exists>t ts. tx = t # ts \<and> fits c t \<and> (\<exists>us vs. ts = us @ vs \<and> (\<forall>u\<in>set us. fits c u) \<and> P vs))"
  (is "?L = ?R")
proof
  assume ?L
  then obtain us vs where h: "tx = us @ vs" "\<forall>u\<in>set us. fits c u" "P vs" by blast
  then show ?R by (cases us) auto
next
  assume ?R
  then show ?L
  proof
    assume "P tx"
    then show ?L by (intro exI [of _ "[]"] exI [of _ tx]) simp
  next
    assume "\<exists>t ts. tx = t # ts \<and> fits c t \<and> (\<exists>us vs. ts = us @ vs \<and> (\<forall>u\<in>set us. fits c u) \<and> P vs)"
    then obtain t us vs where "tx = (t # us) @ vs" "\<forall>u\<in>set (t # us). fits c u" "P vs" by auto
    then show ?L by blast
  qed
qed

lemma matchhere_denotes:
  "matchhere re tx = denotes (parse_re re) tx"
  "matchstar c re tx = denotes (PStar c (parse_re re)) tx"
proof (induction re tx and c re tx rule: matchhere_matchstar.induct)
  case (4 c re tx)
  show ?case
  proof (cases tx)
    case Nil
    with 4 show ?thesis by simp
  next
    case (Cons t ts)
    have "(t = c \<or> c = 46) = fits c t" by (auto simp: fits_def)
    with 4 Cons star_unfold [of tx c "denotes (parse_re re)"] show ?thesis by simp
  qed
qed (auto simp: fits_def split: list.splits)

lemma match_from_suffix: "match_from re tx \<longleftrightarrow> (\<exists>us vs. tx = us @ vs \<and> matchhere re vs)"
proof (induction tx)
  case (Cons t ts)
  have "(\<exists>us vs. t # ts = us @ vs \<and> matchhere re vs) \<longleftrightarrow>
      matchhere re (t # ts) \<or> (\<exists>us vs. ts = us @ vs \<and> matchhere re vs)"
    by (auto simp: Cons_eq_append_conv)
  with Cons show ?case by simp
qed simp

text \<open>
  C20. The matcher of \<^verbatim>\<open>grep\<close> accepts a text exactly when the pattern denotes it: at the
  beginning of the text after a leading \<^verbatim>\<open>^\<close>, and anywhere in the text otherwise; a \<^verbatim>\<open>$\<close> at the end
  of the pattern requires the end of the text, \<^verbatim>\<open>c*\<close> any number of \<^verbatim>\<open>c\<close>, and a dot any byte.
\<close>

theorem grep_match_correct:
  "match re text =
    (if re \<noteq> [] \<and> hd re = 94 then denotes (parse_re (tl re)) text
     else \<exists>us vs. text = us @ vs \<and> denotes (parse_re re) vs)"
  by (cases re) (simp_all add: match_def match_from_suffix matchhere_denotes(1))

subsection \<open>Printing and reading numbers\<close>

definition is_digit :: "uchar \<Rightarrow> bool" where
  "is_digit c \<longleftrightarrow> 48 \<le> c \<and> c \<le> 57"

lemma atoi_digits_append:
  "\<forall>c\<in>set ds. is_digit c \<Longrightarrow> atoi_digits base 57 (ds @ es) n = atoi_digits base 57 es (atoi_digits base 57 ds n)"
  by (induction ds arbitrary: n) (auto simp: is_digit_def)

lemma digits_upper_nth:
  assumes "x < (10::uint)"
  shows "digits_upper ! unat x = 48 + ucast x" "is_digit (digits_upper ! unat x)"
    "ucast (digits_upper ! unat x) - 48 = x"
proof -
  have "x \<in> {0, 1, 2, 3, 4, 5, 6, 7, 8, 9}"
  proof -
    have "unat x < 10" using assms by (simp add: word_less_nat_alt)
    then have "unat x \<in> {0, 1, 2, 3, 4, 5, 6, 7, 8, 9}" by auto
    then show ?thesis by (auto simp: word_unat_eq_iff)
  qed
  then show "digits_upper ! unat x = 48 + ucast x" "is_digit (digits_upper ! unat x)"
    "ucast (digits_upper ! unat x) - 48 = x"
    by (auto simp: digits_upper_def is_digit_def)
qed

lemma printint_loop_decimal:
  assumes "unat x < 10 ^ k" "k \<noteq> 0" "k \<le> j"
  shows "\<exists>ds. printint_loop digits_upper j 10 x buf = Inr (buf @ ds) \<and> ds \<noteq> [] \<and> length ds \<le> k \<and>
     (\<forall>c\<in>set ds. is_digit c) \<and> atoi_digits 10 57 (rev ds) 0 = x"
  using assms
proof (induction k arbitrary: x buf j)
  case 0
  then show ?case by simp
next
  case (Suc k)
  then obtain i where j: "j = Suc i" "k \<le> i" by (cases j) auto
  let ?d = "digits_upper ! unat (x mod 10)"
  have "x mod 10 < 10" by (rule word_mod_less_divisor) simp
  note d = digits_upper_nth [OF this]
  have x: "(x div 10) * 10 + (ucast ?d - 48) = x" unfolding d(3) by (rule word_mod_div_equality)
  show ?case
  proof (cases "x div 10 = 0")
    case True
    with x d(2) j show ?thesis
      by (intro exI [of _ "[?d]"]) (auto simp: is_digit_def)
  next
    case False
    have "unat (x div 10) = unat x div 10" by (simp add: unat_div)
    moreover have "unat x div 10 < 10 ^ k" using Suc.prems(1) by (simp add: div_less_iff_less_mult mult.commute)
    ultimately have "unat (x div 10) < 10 ^ k" by simp
    moreover have "k \<noteq> 0"
    proof
      assume "k = 0"
      with \<open>unat (x div 10) < 10 ^ k\<close> have "unat (x div 10) = 0" by simp
      with False show False by (simp add: unat_eq_0)
    qed
    ultimately obtain ds where ds: "printint_loop digits_upper i 10 (x div 10) (buf @ [?d]) = Inr ((buf @ [?d]) @ ds)"
      "ds \<noteq> []" "length ds \<le> k" "\<forall>c\<in>set ds. is_digit c" "atoi_digits 10 57 (rev ds) 0 = x div 10"
      using Suc.IH [of "x div 10" i "buf @ [?d]"] j by blast
    have "atoi_digits 10 57 (rev (?d # ds)) 0 = x"
      using atoi_digits_append [of "rev ds" 10 "[?d]" 0] ds(4,5) d(2) x
      by (simp add: is_digit_def add_diff_eq)
    with ds d(2) j False show ?thesis
      by (intro exI [of _ "?d # ds"]) (simp add: Let_def)
  qed
qed

lemma atoi_plain: "ds \<noteq> [] \<Longrightarrow> \<forall>c\<in>set ds. is_digit c \<Longrightarrow> atoi ds = atoi_digits 10 57 ds 0"
proof -
  assume ds: "ds \<noteq> []" "\<forall>c\<in>set ds. is_digit c"
  then obtain c cs where c: "ds = c # cs" "is_digit c" by (cases ds) auto
  then have "c \<noteq> 32" "c \<noteq> 43" "c \<noteq> 45" by (auto simp: is_digit_def)
  with c show ?thesis by (simp add: atoi_def ato_def Let_def)
qed

lemma atoi_negative: "atoi (45 # ds) = - atoi_digits 10 57 ds 0"
  by (simp add: atoi_def ato_def Let_def)

text \<open>
  C30. Round trip: printing any 32-bit integer in decimal with \<^verbatim>\<open>printf\<close>'s \<^verbatim>\<open>printint\<close> fits the
  16-byte buffer, and \<^verbatim>\<open>atoi\<close> reads the text back as the same integer, the most negative one
  included.
\<close>

theorem printint_atoi_roundtrip:
  "\<exists>out. uprintint xx 10 True = Inr out \<and> length out \<le> 11 \<and> atoi out = xx"
proof -
  let ?neg = "sint xx < 0"
  let ?x = "if ?neg then - xx else xx"
  have "unat ?x < 10 ^ 10" using unat_less32 [of ?x] by simp
  from printint_loop_decimal [OF this, of 16 "[]"] obtain ds where
    ds: "printint_loop digits_upper 16 10 ?x [] = Inr ds" "ds \<noteq> []" "length ds \<le> 10"
      "\<forall>c\<in>set ds. is_digit c" "atoi_digits 10 57 (rev ds) 0 = ?x" by auto
  show ?thesis
  proof (cases ?neg)
    case True
    with ds have "uprintint xx 10 True = Inr (45 # rev ds)" by (simp add: uprintint_def)
    with True ds atoi_negative [of "rev ds"] show ?thesis by simp
  next
    case False
    with ds have "uprintint xx 10 True = Inr (rev ds)" by (simp add: uprintint_def)
    with False ds atoi_plain [of "rev ds"] show ?thesis by simp
  qed
qed

end
