(* ===== verification/Bio.thy ===== *)
theory Bio
  imports Sched_Effects
begin

section \<open>The buffer cache and the disk driver (bio.c, memide.c)\<close>

text \<open>
  The buffer cache on top of the in-memory disk driver of \<^verbatim>\<open>memide.c\<close>, which is the synchronous
  version of the interface of \<^verbatim>\<open>ide.c\<close>. A buffer is an index below \<open>NBUF\<close>; index \<open>NBUF\<close> is the
  list header \<^verbatim>\<open>bcache.head\<close>. A block holds \<^verbatim>\<open>BSIZE\<close> bytes; copying a block copies the function.
  Where \<^verbatim>\<open>bget\<close> would wait for a buffer that another process has locked, it stops with
  \<open>Blocks\<close>.
\<close>

definition upd_buf :: "nat \<Rightarrow> (buf \<Rightarrow> buf) \<Rightarrow> kernel \<Rightarrow> kernel" where
  "upd_buf b f s = s\<lparr>bufs := (bufs s)(b := f (bufs s b))\<rparr>"

subsection \<open>memide.c\<close>

definition ideinit :: "(nat \<Rightarrow> block) \<Rightarrow> uint \<Rightarrow> kernel \<Rightarrow> kernel" where
  "ideinit img sz s = s\<lparr>disk := img, disksize := sz div of_nat BSIZE\<rparr>"

definition iderw :: "nat \<Rightarrow> kernel \<Rightarrow> kernel result" where
  "iderw b s =
     (let r = bufs s b; bn = unat (b_blockno r) in
      if \<not> b_busy r then Inl (Panic ''iderw: buf not busy'')
      else if b_valid r \<and> \<not> b_dirty r then Inl (Panic ''iderw: nothing to do'')
      else if b_dev r \<noteq> 1 then Inl (Panic ''iderw: request not for disk 1'')
      else if b_blockno r \<ge> disksize s then Inl (Panic ''iderw: block out of range'')
      else if b_dirty r
      then Inr (upd_buf b (\<lambda>r. r\<lparr>b_dirty := False, b_valid := True\<rparr>)
             (s\<lparr>disk := (disk s)(bn := b_data r), dtrace := dtrace s @ [(bn, b_data r)]\<rparr>))
      else Inr (upd_buf b (\<lambda>r. r\<lparr>b_data := disk s bn, b_valid := True\<rparr>) s))"

subsection \<open>bio.c\<close>

definition binit_one :: "nat \<Rightarrow> kernel \<Rightarrow> kernel" where
  "binit_one b s =
     (let n = b_next (bufs s NBUF);
          s = upd_buf b (\<lambda>r. r\<lparr>b_next := n, b_prev := NBUF, b_dev := -1\<rparr>) s;
          s = upd_buf n (\<lambda>r. r\<lparr>b_prev := b\<rparr>) s
      in upd_buf NBUF (\<lambda>r. r\<lparr>b_next := b\<rparr>) s)"

definition binit :: "kernel \<Rightarrow> kernel" where
  "binit s =
     fold binit_one [0..<NBUF]
       (upd_buf NBUF (\<lambda>r. r\<lparr>b_prev := NBUF, b_next := NBUF\<rparr>) (initlock BcacheLock ''bcache'' s))"

text \<open>The two loops of \<^verbatim>\<open>bget\<close>, with one turn of fuel for every buffer and one for the header.\<close>

fun bget_cached :: "nat \<Rightarrow> uint \<Rightarrow> uint \<Rightarrow> nat \<Rightarrow> kernel \<Rightarrow> nat option result" where
  "bget_cached 0 dev bn b s = Inl Diverges"
| "bget_cached (Suc k) dev bn b s =
     (if b = NBUF then Inr None
      else if b_dev (bufs s b) = dev \<and> b_blockno (bufs s b) = bn then Inr (Some b)
      else bget_cached k dev bn (b_next (bufs s b)) s)"

fun bget_victim :: "nat \<Rightarrow> nat \<Rightarrow> kernel \<Rightarrow> nat option result" where
  "bget_victim 0 b s = Inl Diverges"
| "bget_victim (Suc k) b s =
     (if b = NBUF then Inr None
      else if \<not> b_busy (bufs s b) \<and> \<not> b_dirty (bufs s b) then Inr (Some b)
      else bget_victim k (b_prev (bufs s b)) s)"

definition bget_locked :: "uint \<Rightarrow> uint \<Rightarrow> kernel \<Rightarrow> (nat \<times> kernel) result" where
  "bget_locked dev bn s =
     rbind (bget_cached (Suc NBUF) dev bn (b_next (bufs s NBUF)) s) (\<lambda>r. case r of
       Some b \<Rightarrow>
         if \<not> b_busy (bufs s b) then Inr (b, upd_buf b (\<lambda>r. r\<lparr>b_busy := True\<rparr>) s)
         else Inl (Blocks (ChanBuf b))
     | None \<Rightarrow>
         rbind (bget_victim (Suc NBUF) (b_prev (bufs s NBUF)) s) (\<lambda>r. case r of
           Some b \<Rightarrow>
             Inr (b, upd_buf b (\<lambda>r. r\<lparr>b_dev := dev, b_blockno := bn, b_busy := True, b_valid := False,
               b_dirty := False\<rparr>) s)
         | None \<Rightarrow> Inl (Panic ''bget: no buffers'')))"

definition bget :: "uint \<Rightarrow> uint \<Rightarrow> kernel \<Rightarrow> (nat \<times> kernel) result" where
  "bget dev bn s = with_lock BcacheLock (bget_locked dev bn) s"

definition bread :: "uint \<Rightarrow> uint \<Rightarrow> kernel \<Rightarrow> (nat \<times> kernel) result" where
  "bread dev bn s =
     rbind (bget dev bn s) (\<lambda>(b, s).
       if \<not> b_valid (bufs s b) then rbind (iderw b s) (\<lambda>s. Inr (b, s)) else Inr (b, s))"

definition bwrite :: "nat \<Rightarrow> kernel \<Rightarrow> kernel result" where
  "bwrite b s =
     (if \<not> b_busy (bufs s b) then Inl (Panic ''bwrite'')
      else iderw b (upd_buf b (\<lambda>r. r\<lparr>b_dirty := True\<rparr>) s))"

definition brelse_move :: "nat \<Rightarrow> kernel \<Rightarrow> kernel" where
  "brelse_move b s =
     (let s = upd_buf (b_next (bufs s b)) (\<lambda>r. r\<lparr>b_prev := b_prev (bufs s b)\<rparr>) s;
          s = upd_buf (b_prev (bufs s b)) (\<lambda>r. r\<lparr>b_next := b_next (bufs s b)\<rparr>) s;
          s = upd_buf b (\<lambda>r. r\<lparr>b_next := b_next (bufs s NBUF), b_prev := NBUF\<rparr>) s;
          s = upd_buf (b_next (bufs s NBUF)) (\<lambda>r. r\<lparr>b_prev := b\<rparr>) s
      in upd_buf NBUF (\<lambda>r. r\<lparr>b_next := b\<rparr>) s)"

definition brelse_locked :: "nat \<Rightarrow> kernel \<Rightarrow> (unit \<times> kernel) result" where
  "brelse_locked b s =
     rbind (wakeup (Some (ChanBuf b)) (upd_buf b (\<lambda>r. r\<lparr>b_busy := False\<rparr>) (brelse_move b s)))
       (\<lambda>s. Inr ((), s))"

definition brelse :: "nat \<Rightarrow> kernel \<Rightarrow> kernel result" where
  "brelse b s =
     (if \<not> b_busy (bufs s b) then Inl (Panic ''brelse'')
      else rbind (with_lock BcacheLock (brelse_locked b) s) (\<lambda>(_, s). Inr s))"

end
