(* ===== verification/Quiet.thy ===== *)
theory Quiet
  imports Sched_Props
begin

section \<open>Effects up to wake-ups\<close>

text \<open>
  Outside the process code, operations change the process table only by waking sleepers, and give
  every lock they take back. Two states are \<open>quiet\<close>-related when nothing else happened between
  them. An operation of the upper layers is described as a pure update of the state followed by a
  quiet step; quiet steps compose and commute with updates of the upper layers' variables.
\<close>

definition quiet :: "kernel \<Rightarrow> kernel \<Rightarrow> bool" where
  "quiet s t \<longleftrightarrow> wake_frame s t \<and> (pt_ok s \<longrightarrow> pt_ok t)"

text \<open>No lock is held, the interrupt nesting is consistent, and the process table is well formed.\<close>

definition calm :: "kernel \<Rightarrow> bool" where
  "calm s \<longleftrightarrow> pt_ok s \<and> cli_ok s \<and> (\<forall>l. lock_free l s)"

lemma quiet_refl [simp]: "quiet s s"
  by (simp add: quiet_def)

lemma woken_trans: "woken a b \<Longrightarrow> woken b c \<Longrightarrow> woken a c"
  by (auto simp: woken_def)

lemma proc_upd_trans:
  "q\<lparr>p_state := p_state p, p_next := p_next p\<rparr> = p \<Longrightarrow> r\<lparr>p_state := p_state q, p_next := p_next q\<rparr> = q \<Longrightarrow>
   r\<lparr>p_state := p_state p, p_next := p_next p\<rparr> = (p :: proc)"
  by (cases p; cases q; cases r) simp

lemma wake_frame_trans:
  assumes "wake_frame s t" "wake_frame t u"
  shows "wake_frame s u"
proof -
  have "lock_frame s u" "sync_frame s u"
    using assms lock_frame_trans sync_frame_trans by (auto simp: wake_frame_def)
  moreover have "(procs u p)\<lparr>p_state := p_state (procs s p), p_next := p_next (procs s p)\<rparr> = procs s p" for p
    by (rule proc_upd_trans [where q = "procs t p"]) (use assms in \<open>simp_all add: wake_frame_def\<close>)
  moreover have "woken (p_state (procs s p)) (p_state (procs u p))" for p
    using assms woken_trans [of "p_state (procs s p)" "p_state (procs t p)"] by (simp add: wake_frame_def)
  ultimately show ?thesis by (simp add: wake_frame_def)
qed

lemma quiet_trans: "quiet s t \<Longrightarrow> quiet t u \<Longrightarrow> quiet s u"
  using wake_frame_trans by (auto simp: quiet_def)

lemma quiet_sync: "quiet s t \<Longrightarrow> sync_frame s t"
  by (simp add: quiet_def wake_frame_def)

lemmas quiet_eq = sync_frame_eq [OF quiet_sync]

lemma quiet_calm: "quiet s t \<Longrightarrow> calm s \<Longrightarrow> calm t"
  using lock_frame_free lock_frame_cli_ok by (auto simp: quiet_def calm_def wake_frame_def)

lemma quiet_proc_of: "quiet s t \<Longrightarrow> proc_of t = proc_of s"
  using lock_frame_proc_of by (auto simp: quiet_def wake_frame_def)

text \<open>Two states that agree on the locks, the CPUs and the process table.\<close>

definition same_core :: "kernel \<Rightarrow> kernel \<Rightarrow> bool" where
  "same_core s t \<longleftrightarrow> locks t = locks s \<and> cpus t = cpus s \<and> cpuno t = cpuno s \<and> procs t = procs s \<and>
     heads t = heads s \<and> tails t = tails s"

lemma same_core_refl [simp]: "same_core s s"
  by (simp add: same_core_def)

lemma same_core_calm: "same_core s t \<Longrightarrow> calm t = calm s"
  using pt_procs_cong [of t s]
  by (auto simp: same_core_def calm_def pt_ok_def cli_ok_def lock_free_def cpu_of_def)

lemma same_core_proc_of: "same_core s t \<Longrightarrow> proc_of t = proc_of s"
  by (simp add: same_core_def proc_of_def)

text \<open>A quiet step carried over to states with the same core.\<close>

lemma quiet_core:
  assumes "quiet s t" "same_core s s'" "same_core t t'" "sync_frame s' t'"
  shows "quiet s' t'"
proof -
  have "lock_frame s' t'" using assms by (simp add: quiet_def wake_frame_def lock_frame_def same_core_def cpu_of_def)
  moreover have "pt_ok s' = pt_ok s" "pt_ok t' = pt_ok t"
    using assms(2,3) pt_procs_cong [of s' s] pt_procs_cong [of t' t] by (auto simp: same_core_def pt_ok_def)
  ultimately show ?thesis using assms by (simp add: quiet_def wake_frame_def same_core_def)
qed

lemma acquired_core: "same_core s t \<Longrightarrow> same_core (acquired l s) (acquired l t)"
  by (simp add: same_core_def acquired_def pushcli_def upd_cpu_def cpu_of_def)

text \<open>
  A critical section whose body does a pure update and a quiet step does that update and a quiet
  step.
\<close>

lemma with_lock_quiet:
  assumes calm: "lock_free l s" "cli_ok s" and body: "f (acquired l s) = Inr (r, u)"
    and q: "quiet (acquired l s') u" and core: "same_core s s'"
  shows "with_lock l f s = Inr (r, released l u)" "quiet s' (released l u)"
proof -
  have c: "lock_free l s'" "cli_ok s'"
    using calm core by (simp_all add: same_core_def lock_free_def cli_ok_def cpu_of_def)
  have fr': "lock_frame (acquired l s') u" using q by (simp add: quiet_def wake_frame_def)
  then have fr: "lock_frame (acquired l s) u"
    using acquired_core [OF core, of l] by (simp add: lock_frame_def same_core_def cpu_of_def)
  note w = with_lock_frame [where f = f, OF calm body fr]
  show "with_lock l f s = Inr (r, released l u)" by (rule w(1))
  have "sync_frame s' (released l u)"
    using sync_frame_trans [OF sync_frame_trans [OF sync_frame_acquired quiet_sync [OF q]]] by simp
  then show "quiet s' (released l u)"
    using q lock_frame_section [OF c fr'] by (auto simp: quiet_def wake_frame_def)
qed

lemma locked_quiet:
  assumes "calm s" "f (acquired l s) = Inr (r, u)" "quiet (acquired l s') u" "same_core s s'"
  shows "\<exists>t. with_lock l f s = Inr (r, t) \<and> quiet s' t"
proof -
  have "lock_free l s" "cli_ok s" using assms(1) by (simp_all add: calm_def)
  from with_lock_quiet [where f = f, OF this assms(2-4)] show ?thesis by blast
qed

lemma locked_update:
  assumes "calm s" "f (acquired l s) = Inr (r, acquired l s')" "same_core s s'"
  shows "\<exists>t. with_lock l f s = Inr (r, t) \<and> quiet s' t"
  by (rule locked_quiet [where f = f, OF assms(1,2) quiet_refl assms(3)])

lemma locked_error: "calm s \<Longrightarrow> f (acquired l s) = Inl e \<Longrightarrow> with_lock l f s = Inl e"
  by (simp add: with_lock_def calm_def acquire_free)

lemma lock_free_acquired: "k \<noteq> l \<Longrightarrow> lock_free k (acquired l s) = lock_free k s"
  by (simp add: lock_free_def locks_acquired)

lemma wakeup_quiet:
  assumes "pt_ok s" "lock_free PtableLock s" "cli_ok s"
  shows "\<exists>t. wakeup c s = Inr t \<and> quiet s t"
proof -
  from assms(1) obtain L where "pt_rep s L" "prio_bound s" by (auto simp: pt_ok_def)
  from wakeup_ok [OF this assms(2,3), of c] show ?thesis by (fastforce simp: quiet_def pt_ok_def)
qed

lemma wakeup_calm: "calm s \<Longrightarrow> \<exists>t. wakeup c s = Inr t \<and> quiet s t"
  by (intro wakeup_quiet) (simp_all add: calm_def)

text \<open>A wake-up inside the critical section of another lock.\<close>

lemma wakeup_locked:
  assumes "calm s" "l \<noteq> PtableLock"
  shows "\<exists>u. wakeup c (acquired l s) = Inr u \<and> quiet (acquired l s) u"
  using assms cli_ok_acquired [of s l]
  by (intro wakeup_quiet) (simp_all add: calm_def lock_free_acquired)

subsection \<open>A calm state\<close>

lemma calm_demo: "calm demo"
proof -
  have "prio_bound demo" using demo_inv by (simp add: minv_def pt_inv_def)
  then have "pt_ok demo" using demo_rep by (auto simp: pt_ok_def)
  then show ?thesis by (simp add: calm_def demo_def lock_free_def cli_ok_def cpu_of_def spinlock0_def cpu0_def)
qed

end
