(* ===== verification/Bio_Inv.thy ===== *)
theory Bio_Inv
  imports Bio Quiet
begin

section \<open>The buffer cache as a map from block numbers to contents\<close>

text \<open>
  The abstract view of the cache: the contents \<open>C\<close> every block has for the code above the cache,
  the contents \<open>D\<close> on the disk, the set \<open>P\<close> of blocks that are dirty and therefore stay in the
  cache, and the buffers \<open>H\<close> that are locked, with their block numbers. The interface of the
  cache is a locale over these; the model's operations satisfy its laws.
\<close>

subsection \<open>Doubly linked lists\<close>

lemma path_back:
  assumes "path pv e (rev ws) h" "b \<notin> set ws" "distinct ws" "e \<notin> set ws" "b \<noteq> e"
  shows "path (pv(b := h, hd (ws @ [e]) := b)) e (rev (b # ws)) h"
  using assms by (cases ws) auto

definition lru_links :: "(nat \<Rightarrow> nat) \<Rightarrow> (nat \<Rightarrow> nat) \<Rightarrow> nat list \<Rightarrow> bool" where
  "lru_links nx pv xs \<longleftrightarrow> path nx NBUF xs NBUF \<and> path pv NBUF (rev xs) NBUF \<and> distinct xs \<and> set xs = {..<NBUF}"

lemma lru_in: "lru_links nx pv xs \<Longrightarrow> b < NBUF \<Longrightarrow> b \<in> set xs"
  by (simp add: lru_links_def)

lemma path_middle:
  assumes "path nx h (ys @ b # zs) e" "path pv e (rev (ys @ b # zs)) h"
  shows "nx b = hd (zs @ [e])" "pv b = last (h # ys)"
  using assms path_first [of nx b zs e] path_first [of pv b "rev ys" h]
  by (auto simp: hd_append hd_rev)

text \<open>Unlinking \<open>b\<close> and linking it in at the front.\<close>

lemma lru_move:
  assumes lru: "lru_links nx pv (ys @ b # zs)"
  defines "n \<equiv> nx b" and "p \<equiv> pv b"
  defines "nx1 \<equiv> nx(p := n)" and "pv1 \<equiv> pv(n := p)"
  defines "f \<equiv> nx1 NBUF"
  shows "lru_links (nx1(b := f, NBUF := b)) (pv1(b := NBUF, f := b)) (b # ys @ zs)"
proof -
  have d: "distinct (ys @ b # zs)" and st: "set (ys @ b # zs) = {..<NBUF}"
    using lru by (simp_all add: lru_links_def)
  have nb: "NBUF \<notin> set (ys @ zs)" "NBUF \<noteq> b" "b \<notin> set (ys @ zs)" using st d by auto
  have n: "n = hd (zs @ [NBUF])" and p: "p = last (NBUF # ys)"
    unfolding n_def p_def using path_middle [of nx NBUF ys b zs NBUF pv] lru by (simp_all add: lru_links_def)
  have "path nx1 NBUF (ys @ zs) NBUF"
    unfolding nx1_def p n_def using lru nb d by (intro path_skip) (auto simp: lru_links_def)
  then have nx: "path (nx1(b := f, NBUF := b)) NBUF (b # ys @ zs) NBUF"
    unfolding f_def using nb by (intro path_front) auto
  have "n = last (NBUF # rev zs)" by (cases zs) (simp_all add: n)
  then have "path pv1 NBUF (rev (ys @ zs)) NBUF"
    unfolding pv1_def p_def using path_skip [of pv NBUF "rev zs" b "rev ys" NBUF] lru nb d
    by (simp add: lru_links_def Int_commute)
  moreover have "f = hd ((ys @ zs) @ [NBUF])"
    using \<open>path nx1 NBUF (ys @ zs) NBUF\<close> path_first unfolding f_def by blast
  ultimately have "path (pv1(b := NBUF, f := b)) NBUF (rev (b # ys @ zs)) NBUF"
    using nb d by (simp only:) (intro path_back, auto)
  with nx d st show ?thesis unfolding lru_links_def by auto
qed

subsection \<open>The abstract cache\<close>

definition lru :: "(nat \<Rightarrow> buf) \<Rightarrow> nat list \<Rightarrow> bool" where
  "lru B xs \<longleftrightarrow> lru_links (\<lambda>b. b_next (B b)) (\<lambda>b. b_prev (B b)) xs"

definition buf_ok :: "uint \<Rightarrow> (uint \<Rightarrow> block) \<Rightarrow> buf \<Rightarrow> bool" where
  "buf_ok n C r \<longleftrightarrow>
     (if b_valid r then b_dev r = 1 \<and> b_blockno r < n \<and> b_data r = C (b_blockno r)
      else b_dev r = -1 \<and> \<not> b_dirty r \<and> \<not> b_busy r)"

definition pinned :: "(nat \<Rightarrow> buf) \<Rightarrow> uint set" where
  "pinned B = {b_blockno (B b) | b. b < NBUF \<and> b_dirty (B b)}"

definition held :: "(nat \<Rightarrow> buf) \<Rightarrow> nat \<Rightarrow> uint option" where
  "held B b = (if b < NBUF \<and> b_busy (B b) then Some (b_blockno (B b)) else None)"

definition cache_ok :: "(nat \<Rightarrow> buf) \<Rightarrow> (nat \<Rightarrow> block) \<Rightarrow> uint \<Rightarrow> (uint \<Rightarrow> block) \<Rightarrow> (uint \<Rightarrow> block) \<Rightarrow> uint set \<Rightarrow>
    (nat \<Rightarrow> uint option) \<Rightarrow> bool" where
  "cache_ok B d n C D P H \<longleftrightarrow>
     (\<exists>xs. lru B xs) \<and> (\<forall>b<NBUF. buf_ok n C (B b)) \<and>
     (\<forall>b<NBUF. \<forall>b'<NBUF. b_valid (B b) \<longrightarrow> b_valid (B b') \<longrightarrow> b_blockno (B b) = b_blockno (B b') \<longrightarrow> b = b') \<and>
     P = pinned B \<and> H = held B \<and> (\<forall>bn. d (unat bn) = D bn) \<and>
     (\<forall>bn. bn \<notin> P \<longrightarrow> bn \<notin> ran H \<longrightarrow> C bn = D bn)"

definition cache :: "kernel \<Rightarrow> (uint \<Rightarrow> block) \<Rightarrow> (uint \<Rightarrow> block) \<Rightarrow> uint set \<Rightarrow> (nat \<Rightarrow> uint option) \<Rightarrow> bool" where
  "cache s C D P H \<longleftrightarrow> calm s \<and> cache_ok (bufs s) (disk s) (disksize s) C D P H"

text \<open>What the cache's operations leave alone: everything but the buffers and the disk.\<close>

definition bio_frame :: "kernel \<Rightarrow> kernel \<Rightarrow> bool" where
  "bio_frame s t \<longleftrightarrow> quiet (s\<lparr>bufs := bufs t, disk := disk t, dtrace := dtrace t\<rparr>) t"

lemma same_core_bio [simp]: "same_core s (s\<lparr>bufs := B, disk := d, dtrace := w\<rparr>)" "same_core s (upd_buf b f s)"
  by (simp_all add: same_core_def upd_buf_def)

lemma bio_frame_refl [simp]: "bio_frame s s"
  by (simp add: bio_frame_def)

lemma sync_frame_bio:
  "sync_frame (s\<lparr>bufs := B, disk := d, dtrace := w\<rparr>) t \<Longrightarrow>
   sync_frame (s\<lparr>bufs := B', disk := d', dtrace := w'\<rparr>) (t\<lparr>bufs := B', disk := d', dtrace := w'\<rparr>)"
  by (cases s; cases t) (simp add: sync_frame_def)

lemma bio_frame_trans:
  assumes "bio_frame s t" "bio_frame t u"
  shows "bio_frame s u"
proof -
  let ?s = "s\<lparr>bufs := bufs t, disk := disk t, dtrace := dtrace t\<rparr>"
  have "quiet (s\<lparr>bufs := bufs u, disk := disk u, dtrace := dtrace u\<rparr>) (t\<lparr>bufs := bufs u, disk := disk u, dtrace := dtrace u\<rparr>)"
    by (rule quiet_core [of ?s t])
      (use assms(1) sync_frame_bio [OF quiet_sync] in \<open>auto simp: bio_frame_def same_core_def\<close>)
  with assms(2) show ?thesis using quiet_trans by (auto simp: bio_frame_def)
qed

lemma quiet_bio_frame:
  assumes "quiet (s\<lparr>bufs := B, disk := d, dtrace := w\<rparr>) t"
  shows "bio_frame s t" "bufs t = B" "disk t = d" "dtrace t = w"
  using assms quiet_eq [OF assms] by (simp_all add: bio_frame_def)

lemma quiet_bio: "quiet s t \<Longrightarrow> bio_frame s t"
  using quiet_eq(13,16,25) [of s t] by (simp add: bio_frame_def)

lemma upd_buf_bio: "upd_buf b f s = s\<lparr>bufs := (bufs s)(b := f (bufs s b)), disk := disk s, dtrace := dtrace s\<rparr>"
  by (simp add: upd_buf_def)

lemma bio_frame_eq:
  assumes "bio_frame s t"
  shows "disksize t = disksize s" "klog t = klog s" "sb t = sb s" "inodes t = inodes s" "mem t = mem s"
    "files t = files s" "pipes t = pipes s" "cpuno t = cpuno s" "proc_of t = proc_of s" "calm s \<Longrightarrow> calm t"
    "freelist t = freelist s" "devsw t = devsw s"
proof -
  note q = assms [unfolded bio_frame_def]
  show "disksize t = disksize s" "klog t = klog s" "sb t = sb s" "inodes t = inodes s" "mem t = mem s"
    "files t = files s" "pipes t = pipes s" "cpuno t = cpuno s" "freelist t = freelist s" "devsw t = devsw s"
    using quiet_eq [OF q] by simp_all
  show "proc_of t = proc_of s" using quiet_proc_of [OF q] by (simp add: proc_of_def)
  show "calm t" if "calm s" using quiet_calm [OF q] that by (simp add: same_core_calm [OF same_core_bio(1)])
qed

subsection \<open>Looking a block up\<close>

lemma bget_cached_find:
  assumes "path (\<lambda>b. b_next (bufs s b)) h xs NBUF" "NBUF \<notin> set xs" "length xs < k"
  shows "bget_cached k dev bn (b_next (bufs s h)) s =
     Inr (find (\<lambda>b. b_dev (bufs s b) = dev \<and> b_blockno (bufs s b) = bn) xs)"
  using assms
proof (induction xs arbitrary: h k)
  case Nil
  then show ?case by (cases k) auto
next
  case (Cons x xs)
  then obtain j where "k = Suc j" "length xs < j" by (cases k) auto
  with Cons show ?case by auto
qed

lemma bget_victim_find:
  assumes "path (\<lambda>b. b_prev (bufs s b)) h xs NBUF" "NBUF \<notin> set xs" "length xs < k"
  shows "bget_victim k (b_prev (bufs s h)) s =
     Inr (find (\<lambda>b. \<not> b_busy (bufs s b) \<and> \<not> b_dirty (bufs s b)) xs)"
  using assms
proof (induction xs arbitrary: h k)
  case Nil
  then show ?case by (cases k) auto
next
  case (Cons x xs)
  then obtain j where "k = Suc j" "length xs < j" by (cases k) auto
  with Cons show ?case by auto
qed

lemma lru_length: "lru B xs \<Longrightarrow> length xs = NBUF"
  using distinct_card [of xs] by (simp add: lru_def lru_links_def)

lemma bget_locked_eq:
  assumes "lru (bufs s) xs"
  shows "bget_locked dev bn s =
     (case find (\<lambda>b. b_dev (bufs s b) = dev \<and> b_blockno (bufs s b) = bn) xs of
        Some b \<Rightarrow>
          if \<not> b_busy (bufs s b) then Inr (b, upd_buf b (\<lambda>r. r\<lparr>b_busy := True\<rparr>) s)
          else Inl (Blocks (ChanBuf b))
      | None \<Rightarrow>
          (case find (\<lambda>b. \<not> b_busy (bufs s b) \<and> \<not> b_dirty (bufs s b)) (rev xs) of
             Some b \<Rightarrow>
               Inr (b, upd_buf b (\<lambda>r. r\<lparr>b_dev := dev, b_blockno := bn, b_busy := True, b_valid := False,
                 b_dirty := False\<rparr>) s)
           | None \<Rightarrow> Inl (Panic ''bget: no buffers'')))"
proof -
  have p: "path (\<lambda>b. b_next (bufs s b)) NBUF xs NBUF" "path (\<lambda>b. b_prev (bufs s b)) NBUF (rev xs) NBUF"
    "NBUF \<notin> set xs" "length xs < Suc NBUF"
    using assms lru_length [OF assms] by (auto simp: lru_def lru_links_def)
  then have "NBUF \<notin> set (rev xs)" "length (rev xs) < Suc NBUF" by simp_all
  note f = bget_cached_find [OF p(1,3,4)] bget_victim_find [OF p(2) this]
  show ?thesis by (simp add: bget_locked_def f cong: option.case_cong del: bget_cached.simps bget_victim.simps)
qed

lemma upd_buf_acquired: "upd_buf b f (acquired l s) = acquired l (upd_buf b f s)"
  by (simp add: upd_buf_def acquired_def pushcli_def upd_cpu_def cpu_of_def)

lemma bufs_upd_buf [simp]: "bufs (upd_buf b f s) = (bufs s)(b := f (bufs s b))"
  by (simp add: upd_buf_def)

lemma upd_buf_simps [simp]:
  "disk (upd_buf b f s) = disk s" "disksize (upd_buf b f s) = disksize s" "dtrace (upd_buf b f s) = dtrace s"
  "klog (upd_buf b f s) = klog s" "calm (upd_buf b f s) = calm s"
  using same_core_calm [OF same_core_bio(2)] by (simp_all add: upd_buf_def)

lemma bget_effect:
  assumes "calm s" "bget_locked dev bn (acquired BcacheLock s) = Inr (b, upd_buf b f (acquired BcacheLock s))"
  shows "\<exists>t. bget dev bn s = Inr (b, t) \<and> quiet (upd_buf b f s) t"
proof -
  have lk: "lock_free BcacheLock s" "cli_ok s" using assms(1) by (simp_all add: calm_def)
  have "quiet (acquired BcacheLock (upd_buf b f s)) (upd_buf b f (acquired BcacheLock s))"
    by (simp add: upd_buf_acquired)
  from with_lock_quiet [where f = "bget_locked dev bn", OF lk assms(2) this] show ?thesis
    by (auto simp: bget_def)
qed

text \<open>
  A buffer descriptor changed so that the cache stays well formed: links kept, the block number of
  no other valid buffer taken.
\<close>

lemma lru_upd: "lru B xs \<Longrightarrow> b_next r = b_next (B b) \<Longrightarrow> b_prev r = b_prev (B b) \<Longrightarrow> lru (B(b := r)) xs"
proof -
  assume a: "lru B xs" "b_next r = b_next (B b)" "b_prev r = b_prev (B b)"
  then have "(\<lambda>x. b_next ((B(b := r)) x)) = (\<lambda>x. b_next (B x))" "(\<lambda>x. b_prev ((B(b := r)) x)) = (\<lambda>x. b_prev (B x))"
    by (auto simp: fun_eq_iff)
  with a(1) show ?thesis by (simp add: lru_def)
qed

lemma cache_valid:
  assumes "cache_ok B d n C D P H" "b < NBUF"
  shows "b_valid (B b) \<Longrightarrow> b_dev (B b) = 1 \<and> b_blockno (B b) < n \<and> b_data (B b) = C (b_blockno (B b))"
    "\<not> b_valid (B b) \<Longrightarrow> b_dev (B b) = -1 \<and> \<not> b_dirty (B b) \<and> \<not> b_busy (B b)"
    "b_valid (B b) \<Longrightarrow> b' < NBUF \<Longrightarrow> b_valid (B b') \<Longrightarrow> b_blockno (B b) = b_blockno (B b') \<Longrightarrow> b = b'"
  using assms by (auto simp: cache_ok_def buf_ok_def split: if_splits)

lemma cache_parts:
  assumes "cache_ok B d n C D P H"
  shows "P = pinned B" "H = held B" "\<And>bn. d (unat bn) = D bn" "\<And>bn. bn \<notin> P \<Longrightarrow> bn \<notin> ran H \<Longrightarrow> C bn = D bn"
    "\<exists>xs. lru B xs"
  using assms by (auto simp: cache_ok_def)

lemma in_pinned: "bn \<in> pinned B \<longleftrightarrow> (\<exists>b<NBUF. b_dirty (B b) \<and> b_blockno (B b) = bn)"
  by (auto simp: pinned_def)

lemma pinned_cong:
  assumes "\<And>x. x < NBUF \<Longrightarrow> b_dirty (B' x) = b_dirty (B x)"
    and "\<And>x. x < NBUF \<Longrightarrow> b_dirty (B x) \<Longrightarrow> b_blockno (B' x) = b_blockno (B x)"
  shows "pinned B' = pinned B"
  using assms by (auto simp: set_eq_iff in_pinned)

lemma held_Some: "held B b = Some bn \<longleftrightarrow> b < NBUF \<and> b_busy (B b) \<and> b_blockno (B b) = bn"
  by (auto simp: held_def)

lemma ran_held: "ran (held B) = {b_blockno (B b) | b. b < NBUF \<and> b_busy (B b)}"
  by (auto simp: ran_def held_Some)

text \<open>A busy or dirty buffer for each block; a free one when there are fewer such blocks than buffers.\<close>

lemma victim_exists:
  assumes ok: "cache_ok B d n C D P H" and room: "card (P \<union> ran H) < NBUF"
  shows "\<exists>b<NBUF. \<not> b_busy (B b) \<and> \<not> b_dirty (B b)"
proof (rule ccontr)
  assume none: "\<not> ?thesis"
  let ?f = "\<lambda>b. b_blockno (B b)"
  have v: "b_valid (B b)" if "b < NBUF" for b using cache_valid(2) [OF ok that] none that by blast
  have "inj_on ?f {..<NBUF}" using cache_valid(3) [OF ok] v by (intro inj_onI) auto
  then have "card (?f ` {..<NBUF}) = NBUF" by (simp add: card_image)
  moreover have "?f ` {..<NBUF} \<subseteq> P \<union> ran H"
    using none cache_parts(1,2) [OF ok] by (auto simp: pinned_def ran_held)
  moreover have "finite (P \<union> ran H)"
    using cache_parts(1,2) [OF ok] by (auto simp: pinned_def ran_held)
  ultimately show False using room by (metis card_mono not_less)
qed

lemma find_Some: "find Q xs = Some x \<Longrightarrow> x \<in> set xs \<and> Q x"
  by (metis find_Some_iff nth_mem)

lemma bio_frame_upd_buf [simp]: "bio_frame s (upd_buf b f s)"
  by (simp add: bio_frame_def upd_buf_def)

lemma bget_bufs:
  assumes "quiet (upd_buf b f s) t"
  shows "bufs t = (bufs s)(b := f (bufs s b))" "disk t = disk s" "disksize t = disksize s" "dtrace t = dtrace s"
    "bio_frame s t" "calm s \<Longrightarrow> calm t"
proof -
  show fr: "bio_frame s t" using quiet_bio_frame(1) [OF assms [unfolded upd_buf_bio]] .
  show "bufs t = (bufs s)(b := f (bufs s b))" "disk t = disk s" "disksize t = disksize s" "dtrace t = dtrace s"
    using quiet_eq [OF assms] by simp_all
  show "calm s \<Longrightarrow> calm t" using bio_frame_eq(10) [OF fr] .
qed

lemma cache_okI:
  assumes "lru B xs" "\<And>b. b < NBUF \<Longrightarrow> buf_ok n C (B b)"
    and "\<And>b b'. b < NBUF \<Longrightarrow> b' < NBUF \<Longrightarrow> b_valid (B b) \<Longrightarrow> b_valid (B b') \<Longrightarrow>
      b_blockno (B b) = b_blockno (B b') \<Longrightarrow> b = b'"
    and "pinned B = P" "held B = H" "\<And>bn. d (unat bn) = D bn" "\<And>bn. bn \<notin> P \<Longrightarrow> bn \<notin> ran H \<Longrightarrow> C bn = D bn"
  shows "cache_ok B d n C D P H"
  using assms unfolding cache_ok_def by blast

lemma cache_ok_buf: "cache_ok B d n C D P H \<Longrightarrow> b < NBUF \<Longrightarrow> buf_ok n C (B b)"
  by (simp add: cache_ok_def)

lemma cache_ok_hold:
  assumes ok: "cache_ok B d n C D P H" and b: "b < NBUF" "b_valid (B b)" "\<not> b_busy (B b)"
  shows "cache_ok (B(b := (B b)\<lparr>b_busy := True\<rparr>)) d n C D P (H(b \<mapsto> b_blockno (B b)))"
proof -
  let ?B = "B(b := (B b)\<lparr>b_busy := True\<rparr>)"
  obtain xs where xs: "lru B xs" using cache_parts(5) [OF ok] by blast
  have H: "ran H \<subseteq> ran (H(b \<mapsto> b_blockno (B b)))"
  proof -
    have "H b = None" unfolding cache_parts(2) [OF ok] using b(3) by (simp add: held_def)
    then show ?thesis by (auto simp: ran_map_upd)
  qed
  show ?thesis
  proof (rule cache_okI)
    show "lru ?B xs" using xs by (rule lru_upd) simp_all
    show "buf_ok n C (?B x)" if "x < NBUF" for x
      using cache_ok_buf [OF ok that] b by (auto simp: buf_ok_def)
    show "x = y" if "x < NBUF" "y < NBUF" "b_valid (?B x)" "b_valid (?B y)" "b_blockno (?B x) = b_blockno (?B y)" for x y
    proof -
      have "b_valid (B x)" "b_valid (B y)" using that(3,4) by (auto split: if_splits)
      moreover have "b_blockno (B x) = b_blockno (B y)" using that(5) by (auto split: if_splits)
      ultimately show ?thesis using cache_valid(3) [OF ok that(1)] that(2) by blast
    qed
    show "pinned ?B = P" unfolding cache_parts(1) [OF ok] by (rule pinned_cong) simp_all
    show "held ?B = H(b \<mapsto> b_blockno (B b))"
      unfolding cache_parts(2) [OF ok] using b by (auto simp: held_def fun_eq_iff)
    show "d (unat bn) = D bn" for bn by (rule cache_parts(3) [OF ok])
    show "C bn = D bn" if "bn \<notin> P" "bn \<notin> ran (H(b \<mapsto> b_blockno (B b)))" for bn
      using cache_parts(4) [OF ok that(1)] that(2) H by blast
  qed
qed

lemma cache_ok_load:
  assumes ok: "cache_ok B d n C D P H" and b: "b < NBUF" "\<not> b_busy (B b)" "\<not> b_dirty (B b)"
    and bn: "bn < n" "bn \<notin> ran H" "\<forall>x<NBUF. b_valid (B x) \<longrightarrow> b_blockno (B x) \<noteq> bn"
    and r: "b_next r = b_next (B b)" "b_prev r = b_prev (B b)" "b_dev r = 1" "b_blockno r = bn" "b_busy r" "b_valid r"
      "\<not> b_dirty r" "b_data r = d (unat bn)"
  shows "cache_ok (B(b := r)) d n C D P (H(b \<mapsto> bn))"
proof -
  let ?B = "B(b := r)"
  obtain xs where xs: "lru B xs" using cache_parts(5) [OF ok] by blast
  have "bn \<notin> P"
    using bn(3) cache_parts(1) [OF ok] cache_valid(2) [OF ok] by (auto simp: pinned_def)
  then have C: "C bn = d (unat bn)" using cache_parts(3,4) [OF ok] bn(2) by simp
  have H: "ran H \<subseteq> ran (H(b \<mapsto> bn))"
  proof -
    have "H b = None" unfolding cache_parts(2) [OF ok] using b(2) by (simp add: held_def)
    then show ?thesis by (auto simp: ran_map_upd)
  qed
  show ?thesis
  proof (rule cache_okI)
    show "lru ?B xs" using xs r(1,2) by (rule lru_upd)
    show "buf_ok n C (?B x)" if "x < NBUF" for x
      using cache_ok_buf [OF ok that] bn(1) r C by (simp add: buf_ok_def)
    show "x = y" if "x < NBUF" "y < NBUF" "b_valid (?B x)" "b_valid (?B y)" "b_blockno (?B x) = b_blockno (?B y)" for x y
    proof (cases "x = b \<or> y = b")
      case True
      show ?thesis
      proof (rule ccontr)
        assume "x \<noteq> y"
        with True consider "x = b" "y \<noteq> b" | "y = b" "x \<noteq> b" by blast
        then show False
        proof cases
          case 1
          then have "b_valid (B y)" "b_blockno (B y) = bn" using that(4,5) r(4) by simp_all
          with bn(3) that(2) show False by blast
        next
          case 2
          then have "b_valid (B x)" "b_blockno (B x) = bn" using that(3,5) r(4) by simp_all
          with bn(3) that(1) show False by blast
        qed
      qed
    next
      case False
      with that(3-5) have "b_valid (B x)" "b_valid (B y)" "b_blockno (B x) = b_blockno (B y)" by simp_all
      then show ?thesis using cache_valid(3) [OF ok that(1)] that(2) by blast
    qed
    show "pinned ?B = P" unfolding cache_parts(1) [OF ok] by (rule pinned_cong) (use b r in auto)
    show "held ?B = H(b \<mapsto> bn)"
      unfolding cache_parts(2) [OF ok] using b r by (auto simp: held_def fun_eq_iff)
    show "d (unat x) = D x" for x by (rule cache_parts(3) [OF ok])
    show "C x = D x" if "x \<notin> P" "x \<notin> ran (H(b \<mapsto> bn))" for x
      using cache_parts(4) [OF ok that(1)] that(2) H by blast
  qed
qed

subsection \<open>The laws\<close>

text \<open>The buffer that holds a block, and reading.\<close>

lemma find_None: "find Q xs = None \<Longrightarrow> x \<in> set xs \<Longrightarrow> \<not> Q x"
  by (simp add: find_None_iff)

lemma find_exists: "x \<in> set xs \<Longrightarrow> Q x \<Longrightarrow> \<exists>y. find Q xs = Some y \<and> y \<in> set xs \<and> Q y"
proof (cases "find Q xs")
  case None
  assume "x \<in> set xs" "Q x"
  with find_None [OF None] show ?thesis by blast
next
  case (Some y)
  with find_Some [OF Some] show ?thesis by blast
qed

lemma bread_hit:
  assumes c: "cache s C D P H" and b: "b < NBUF" "b_valid (bufs s b)" "b_blockno (bufs s b) = bn" and free: "bn \<notin> ran H"
  shows "\<exists>t. bread 1 bn s = Inr (b, t) \<and> cache t C D P (H(b \<mapsto> bn)) \<and> bio_frame s t \<and> dtrace t = dtrace s"
proof -
  have ok: "cache_ok (bufs s) (disk s) (disksize s) C D P H" and calm: "calm s" using c by (simp_all add: cache_def)
  obtain xs where xs: "lru (bufs s) xs" using cache_parts(5) [OF ok] by blast
  have mem: "x \<in> set xs \<longleftrightarrow> x < NBUF" for x using xs by (auto simp: lru_def lru_links_def)
  let ?Q = "\<lambda>x. b_dev (bufs s x) = 1 \<and> b_blockno (bufs s x) = bn"
  have "?Q b" using cache_valid(1) [OF ok b(1,2)] b(3) by simp
  then obtain y where y: "find ?Q xs = Some y" "y < NBUF" "?Q y" using find_exists [of b xs ?Q] mem b(1) by blast
  have "b_valid (bufs s y)" using cache_valid(2) [OF ok y(2)] y(3) by force
  then have yb: "y = b" using cache_valid(3) [OF ok b(1,2) y(2)] b(3) y(3) by simp
  have nb: "\<not> b_busy (bufs s b)" using free b cache_parts(2) [OF ok] by (auto simp: ran_held)
  let ?f = "\<lambda>r. r\<lparr>b_busy := True\<rparr>"
  have "lru (bufs (acquired BcacheLock s)) xs" using xs by simp
  from bget_locked_eq [OF this, of 1 bn] y(1) yb nb
  have "bget_locked 1 bn (acquired BcacheLock s) = Inr (b, upd_buf b ?f (acquired BcacheLock s))" by simp
  from bget_effect [OF calm this] obtain t where t: "bget 1 bn s = Inr (b, t)" "quiet (upd_buf b ?f s) t" by blast
  note e = bget_bufs [OF t(2)]
  have "bread 1 bn s = Inr (b, t)" using t(1) e(1) b(2) by (simp add: bread_def)
  moreover have "cache t C D P (H(b \<mapsto> bn))"
    using cache_ok_hold [OF ok b(1,2) nb] e calm b(3) by (simp add: cache_def)
  ultimately show ?thesis using e(4,5) by blast
qed

lemma bread_miss:
  assumes c: "cache s C D P H" and bn: "bn \<notin> ran H" "bn < disksize s"
    and none: "\<forall>x<NBUF. b_valid (bufs s x) \<longrightarrow> b_blockno (bufs s x) \<noteq> bn"
    and room: "\<exists>x<NBUF. \<not> b_busy (bufs s x) \<and> \<not> b_dirty (bufs s x)"
  shows "\<exists>b t. bread 1 bn s = Inr (b, t) \<and> cache t C D P (H(b \<mapsto> bn)) \<and> H b = None \<and> bio_frame s t \<and> dtrace t = dtrace s"
proof -
  have ok: "cache_ok (bufs s) (disk s) (disksize s) C D P H" and calm: "calm s" using c by (simp_all add: cache_def)
  obtain xs where xs: "lru (bufs s) xs" using cache_parts(5) [OF ok] by blast
  have mem: "x \<in> set xs \<longleftrightarrow> x < NBUF" for x using xs by (auto simp: lru_def lru_links_def)
  let ?Q = "\<lambda>x. b_dev (bufs s x) = 1 \<and> b_blockno (bufs s x) = bn"
  have "\<not> ?Q x" if "x < NBUF" for x
    using none that cache_valid(2) [OF ok that] by (cases "b_valid (bufs s x)") auto
  then have f: "find ?Q xs = None" using mem by (auto simp: find_None_iff)
  let ?V = "\<lambda>x. \<not> b_busy (bufs s x) \<and> \<not> b_dirty (bufs s x)"
  from room mem obtain x where "x \<in> set (rev xs)" "?V x" by auto
  from find_exists [where Q = ?V, OF this] obtain b where b: "find ?V (rev xs) = Some b" "b < NBUF" "?V b" using mem by auto
  let ?f = "\<lambda>r. r\<lparr>b_dev := 1, b_blockno := bn, b_busy := True, b_valid := False, b_dirty := False\<rparr>"
  have "lru (bufs (acquired BcacheLock s)) xs" using xs by simp
  from bget_locked_eq [OF this, of 1 bn] f b(1)
  have "bget_locked 1 bn (acquired BcacheLock s) = Inr (b, upd_buf b ?f (acquired BcacheLock s))" by simp
  from bget_effect [OF calm this] obtain t where t: "bget 1 bn s = Inr (b, t)" "quiet (upd_buf b ?f s) t" by blast
  note e = bget_bufs [OF t(2)]
  let ?g = "\<lambda>r. r\<lparr>b_data := disk s (unat bn), b_valid := True\<rparr>"
  let ?t = "upd_buf b ?g t"
  have "iderw b t = Inr ?t" using e bn(2) by (simp add: iderw_def Let_def not_le)
  then have "bread 1 bn s = Inr (b, ?t)" using t(1) e(1) by (simp add: bread_def)
  moreover have "cache ?t C D P (H(b \<mapsto> bn))"
  proof -
    have "bufs ?t = (bufs s)(b := ?g (?f (bufs s b)))" using e(1) by simp
    moreover have "cache_ok ((bufs s)(b := ?g (?f (bufs s b)))) (disk s) (disksize s) C D P (H(b \<mapsto> bn))"
      using b none bn by (intro cache_ok_load [OF ok]) simp_all
    ultimately show ?thesis using e calm by (simp add: cache_def)
  qed
  moreover have "H b = None" unfolding cache_parts(2) [OF ok] using b(3) by (simp add: held_def)
  moreover have "bio_frame s ?t" using bio_frame_trans [OF e(5) bio_frame_upd_buf] .
  ultimately show ?thesis using e(4) by (intro exI [of _ b] exI [of _ ?t]) simp
qed

lemma bread_law:
  assumes c: "cache s C D P H" and bn: "bn \<notin> ran H" "bn < disksize s" and room: "bn \<in> P \<or> card (P \<union> ran H) < NBUF"
  shows "\<exists>b t. bread 1 bn s = Inr (b, t) \<and> cache t C D P (H(b \<mapsto> bn)) \<and> H b = None \<and> bio_frame s t \<and> dtrace t = dtrace s"
proof (cases "\<exists>b<NBUF. b_valid (bufs s b) \<and> b_blockno (bufs s b) = bn")
  case True
  then obtain b where b: "b < NBUF" "b_valid (bufs s b)" "b_blockno (bufs s b) = bn" by blast
  have ok: "cache_ok (bufs s) (disk s) (disksize s) C D P H" using c by (simp add: cache_def)
  have "\<not> b_busy (bufs s b)" using bn(1) b cache_parts(2) [OF ok] by (auto simp: ran_held)
  then have "H b = None" unfolding cache_parts(2) [OF ok] by (simp add: held_def)
  with bread_hit [OF c b bn(1)] show ?thesis by blast
next
  case False
  have ok: "cache_ok (bufs s) (disk s) (disksize s) C D P H" using c by (simp add: cache_def)
  have "bn \<notin> P"
    using False cache_parts(1) [OF ok] cache_valid(2) [OF ok] by (auto simp: in_pinned)
  with room victim_exists [OF ok] have "\<exists>x<NBUF. \<not> b_busy (bufs s x) \<and> \<not> b_dirty (bufs s x)" by blast
  with bread_miss [OF c bn] False show ?thesis by blast
qed

text \<open>Changing the data of a locked buffer.\<close>

definition set_data :: "nat \<Rightarrow> block \<Rightarrow> kernel \<Rightarrow> kernel" where
  "set_data b d = upd_buf b (\<lambda>r. r\<lparr>b_data := d\<rparr>)"

lemma held_bufD:
  assumes "cache_ok B d n C D P H" "H b = Some bn"
  shows "b < NBUF" "b_busy (B b)" "b_valid (B b)" "b_blockno (B b) = bn" "b_dev (B b) = 1" "bn < n" "b_data (B b) = C bn"
proof -
  show b: "b < NBUF" "b_busy (B b)" "b_blockno (B b) = bn"
    using assms(2) unfolding cache_parts(2) [OF assms(1)] by (simp_all add: held_Some)
  show v: "b_valid (B b)" using cache_valid(2) [OF assms(1) b(1)] b(2) by blast
  show "b_dev (B b) = 1" "bn < n" "b_data (B b) = C bn" using cache_valid(1) [OF assms(1) b(1) v] b(3) by simp_all
qed

text \<open>
  A locked buffer replaced by one for the same block, with possibly other data and dirty flag,
  together with a write of the block to the disk or not.
\<close>

lemma cache_ok_replace:
  assumes ok: "cache_ok B d n C D P H" and b: "H b = Some bn"
    and r: "b_next r = b_next (B b)" "b_prev r = b_prev (B b)" "b_dev r = 1" "b_blockno r = bn" "b_busy r" "b_valid r"
    and D': "\<And>x. d' (unat x) = D' x" "\<And>x. x \<noteq> bn \<Longrightarrow> D' x = D x"
  shows "cache_ok (B(b := r)) d' n (C(bn := b_data r)) D' (if b_dirty r then insert bn P else P - {bn}) H"
proof -
  note hb = held_bufD [OF ok b]
  let ?B = "B(b := r)"
  obtain xs where xs: "lru B xs" using cache_parts(5) [OF ok] by blast
  have uniq: "x = b" if "x < NBUF" "b_valid (B x)" "b_blockno (B x) = bn" for x
    using cache_valid(3) [OF ok that(1,2) hb(1,3)] that(3) hb(4) by simp
  show ?thesis
  proof (rule cache_okI)
    show "lru ?B xs" using xs r(1,2) by (rule lru_upd)
    show "buf_ok n (C(bn := b_data r)) (?B x)" if "x < NBUF" for x
    proof (cases "x = b")
      case True
      with r hb(6) show ?thesis by (simp add: buf_ok_def)
    next
      case False
      with cache_ok_buf [OF ok that] uniq [OF that] show ?thesis by (auto simp: buf_ok_def)
    qed
    show "x = y" if "x < NBUF" "y < NBUF" "b_valid (?B x)" "b_valid (?B y)" "b_blockno (?B x) = b_blockno (?B y)" for x y
    proof -
      have "b_valid (B x)" "b_valid (B y)" using that(3,4) hb(3) by (auto split: if_splits)
      moreover have "b_blockno (B x) = b_blockno (B y)" using that(5) hb(4) r(4) by (auto split: if_splits)
      ultimately show ?thesis using cache_valid(3) [OF ok that(1)] that(2) by blast
    qed
    show "pinned ?B = (if b_dirty r then insert bn P else P - {bn})"
    proof (rule set_eqI)
      fix x
      have dv: "b_dirty (B y) \<Longrightarrow> y < NBUF \<Longrightarrow> b_valid (B y)" for y using cache_valid(2) [OF ok] by blast
      show "x \<in> pinned ?B \<longleftrightarrow> x \<in> (if b_dirty r then insert bn P else P - {bn})"
      proof (cases "x = bn")
        case True
        have "bn \<in> pinned ?B \<longleftrightarrow> b_dirty r"
        proof
          assume "bn \<in> pinned ?B"
          then obtain y where y: "y < NBUF" "b_dirty (?B y)" "b_blockno (?B y) = bn" unfolding in_pinned by blast
          show "b_dirty r"
          proof (cases "y = b")
            case False
            with y have "b_dirty (B y)" "b_blockno (B y) = bn" by simp_all
            with uniq [OF y(1)] dv y(1) False show ?thesis by blast
          qed (use y(2) in simp)
        next
          assume "b_dirty r"
          then show "bn \<in> pinned ?B" unfolding in_pinned using hb(1) r(4) by (intro exI [of _ b]) simp
        qed
        with True show ?thesis by simp
      next
        case False
        have "x \<in> pinned ?B \<longleftrightarrow> x \<in> pinned B"
        proof -
          have "b_dirty (?B y) \<and> b_blockno (?B y) = x \<longleftrightarrow> b_dirty (B y) \<and> b_blockno (B y) = x" for y
            using False r(4) hb(4) by simp
          then show ?thesis unfolding in_pinned by blast
        qed
        with False show ?thesis by (simp add: cache_parts(1) [OF ok])
      qed
    qed
    show "held ?B = H" unfolding cache_parts(2) [OF ok] using r(4,5) hb(1,2,4) by (auto simp: held_def fun_eq_iff)
    show "d' (unat x) = D' x" for x by (rule D'(1))
    have "bn \<in> ran H" using b by (rule ranI)
    then show "(C(bn := b_data r)) x = D' x"
      if "x \<notin> (if b_dirty r then insert bn P else P - {bn})" "x \<notin> ran H" for x
      using that cache_parts(4) [OF ok] D'(2) by (cases "x = bn") (auto split: if_splits)
  qed
qed

lemma cache_upd_buf:
  assumes c: "cache s C D P H" and b: "H b = Some bn"
    and f: "\<And>r. b_next (f r) = b_next r" "\<And>r. b_prev (f r) = b_prev r" "\<And>r. b_dev (f r) = b_dev r"
      "\<And>r. b_blockno (f r) = b_blockno r" "\<And>r. b_busy (f r) = b_busy r" "\<And>r. b_valid (f r) = b_valid r"
  shows "cache (upd_buf b f s) (C(bn := b_data (f (bufs s b)))) D (if b_dirty (f (bufs s b)) then insert bn P else P - {bn}) H"
proof -
  have ok: "cache_ok (bufs s) (disk s) (disksize s) C D P H" and calm: "calm s" using c by (simp_all add: cache_def)
  note hb = held_bufD [OF ok b]
  from cache_ok_replace [OF ok b, of "f (bufs s b)" "disk s" D] f hb cache_parts(3) [OF ok] calm show ?thesis
    by (simp add: cache_def)
qed

lemma set_data_law:
  assumes c: "cache s C D P H" and b: "H b = Some bn"
  shows "cache (set_data b d s) (C(bn := d)) D P H"
proof -
  have ok: "cache_ok (bufs s) (disk s) (disksize s) C D P H" using c by (simp add: cache_def)
  note hb = held_bufD [OF ok b]
  have "b_dirty (bufs s b) \<longleftrightarrow> bn \<in> P"
    using cache_valid(2,3) [OF ok] hb unfolding cache_parts(1) [OF ok] in_pinned by blast
  with cache_upd_buf [OF c b, of "\<lambda>r. r\<lparr>b_data := d\<rparr>"] show ?thesis
    by (cases "bn \<in> P") (simp_all add: set_data_def insert_absorb)
qed

lemma pin_law:
  assumes c: "cache s C D P H" and b: "H b = Some bn"
  shows "cache (upd_buf b (\<lambda>r. r\<lparr>b_dirty := True\<rparr>) s) C D (insert bn P) H"
proof -
  have ok: "cache_ok (bufs s) (disk s) (disksize s) C D P H" using c by (simp add: cache_def)
  with cache_upd_buf [OF c b, of "\<lambda>r. r\<lparr>b_dirty := True\<rparr>"] held_bufD(7) [OF ok b] show ?thesis
    by (simp add: fun_upd_idem)
qed

lemma held_data: "cache s C D P H \<Longrightarrow> H b = Some bn \<Longrightarrow> b_data (bufs s b) = C bn \<and> b_blockno (bufs s b) = bn"
  using held_bufD [of "bufs s" "disk s" "disksize s" C D P H b bn] by (simp add: cache_def)

lemma bwrite_law:
  assumes c: "cache s C D P H" and b: "H b = Some bn"
  shows "\<exists>t. bwrite b s = Inr t \<and> cache t C (D(bn := C bn)) (P - {bn}) H \<and> bio_frame s t \<and>
     dtrace t = dtrace s @ [(unat bn, C bn)]"
proof -
  have ok: "cache_ok (bufs s) (disk s) (disksize s) C D P H" and calm: "calm s" using c by (simp_all add: cache_def)
  note hb = held_bufD [OF ok b]
  let ?r = "(bufs s b)\<lparr>b_dirty := False, b_valid := True\<rparr>"
  let ?t = "s\<lparr>bufs := (bufs s)(b := ?r), disk := (disk s)(unat bn := C bn), dtrace := dtrace s @ [(unat bn, C bn)]\<rparr>"
  have "bwrite b s = Inr ?t"
    using hb by (simp add: bwrite_def iderw_def Let_def upd_buf_def not_le)
  moreover have "cache ?t C (D(bn := C bn)) (P - {bn}) H"
  proof -
    have d: "((disk s)(unat bn := C bn)) (unat x) = (D(bn := C bn)) x" for x
      using cache_parts(3) [OF ok] by (simp add: word_unat_eq_iff)
    have "cache_ok ((bufs s)(b := ?r)) ((disk s)(unat bn := C bn)) (disksize s) (C(bn := C bn)) (D(bn := C bn)) (P - {bn}) H"
      using cache_ok_replace [OF ok b, of ?r "(disk s)(unat bn := C bn)" "D(bn := C bn)"] d hb by simp
    moreover have "calm ?t" using calm same_core_calm [OF same_core_bio(1)] by blast
    ultimately show ?thesis by (simp add: cache_def)
  qed
  moreover have "bio_frame s ?t" by (simp add: bio_frame_def)
  ultimately show ?thesis by auto
qed

text \<open>Releasing a buffer: the links move, the descriptors stay.\<close>

definition nxt :: "kernel \<Rightarrow> nat \<Rightarrow> nat" where "nxt s x = b_next (bufs s x)"
definition prv :: "kernel \<Rightarrow> nat \<Rightarrow> nat" where "prv s x = b_prev (bufs s x)"

lemma links_upd:
  "nxt (upd_buf b (\<lambda>r. r\<lparr>b_next := v\<rparr>) s) = (nxt s)(b := v)" "prv (upd_buf b (\<lambda>r. r\<lparr>b_next := v\<rparr>) s) = prv s"
  "nxt (upd_buf b (\<lambda>r. r\<lparr>b_prev := v\<rparr>) s) = nxt s" "prv (upd_buf b (\<lambda>r. r\<lparr>b_prev := v\<rparr>) s) = (prv s)(b := v)"
  "nxt (upd_buf b (\<lambda>r. r\<lparr>b_next := v, b_prev := w\<rparr>) s) = (nxt s)(b := v)"
  "prv (upd_buf b (\<lambda>r. r\<lparr>b_next := v, b_prev := w\<rparr>) s) = (prv s)(b := w)"
  "nxt (upd_buf b (\<lambda>r. r\<lparr>b_busy := c\<rparr>) s) = nxt s" "prv (upd_buf b (\<lambda>r. r\<lparr>b_busy := c\<rparr>) s) = prv s"
  by (auto simp: nxt_def prv_def fun_eq_iff)

lemma lru_nxt: "lru (bufs s) xs \<longleftrightarrow> lru_links (nxt s) (prv s) xs"
  by (simp add: lru_def nxt_def [abs_def] prv_def [abs_def])

lemma brelse_move_links:
  assumes "nxt s b \<noteq> b" "b \<noteq> NBUF"
  shows "nxt (brelse_move b s) = (nxt s)(prv s b := nxt s b, b := ((nxt s)(prv s b := nxt s b)) NBUF, NBUF := b)"
    and "prv (brelse_move b s) =
      (prv s)(nxt s b := prv s b, b := NBUF, ((nxt s)(prv s b := nxt s b)) NBUF := b)"
proof -
  let ?s1 = "upd_buf (nxt s b) (\<lambda>r. r\<lparr>b_prev := prv s b\<rparr>) s"
  have pb: "prv ?s1 b = prv s b" using assms(1) by (simp add: links_upd)
  let ?s2 = "upd_buf (prv s b) (\<lambda>r. r\<lparr>b_next := nxt s b\<rparr>) ?s1"
  let ?s3 = "upd_buf b (\<lambda>r. r\<lparr>b_next := nxt ?s2 NBUF, b_prev := NBUF\<rparr>) ?s2"
  have n3: "nxt ?s3 NBUF = nxt ?s2 NBUF" using assms(2) by (simp add: links_upd)
  have "brelse_move b s = upd_buf NBUF (\<lambda>r. r\<lparr>b_next := b\<rparr>) (upd_buf (nxt ?s2 NBUF) (\<lambda>r. r\<lparr>b_prev := b\<rparr>) ?s3)"
    unfolding brelse_move_def Let_def nxt_def [symmetric] prv_def [symmetric]
    by (simp only: pb n3 links_upd(3))
  then show "nxt (brelse_move b s) = (nxt s)(prv s b := nxt s b, b := ((nxt s)(prv s b := nxt s b)) NBUF, NBUF := b)"
    "prv (brelse_move b s) = (prv s)(nxt s b := prv s b, b := NBUF, ((nxt s)(prv s b := nxt s b)) NBUF := b)"
    by (simp_all only: links_upd)
qed

text \<open>Everything in a descriptor but the links.\<close>

definition unlinked :: "buf \<Rightarrow> buf" where
  "unlinked r = r\<lparr>b_next := 0, b_prev := 0\<rparr>"

lemma unlinked_upd:
  "unlinked (bufs (upd_buf b (\<lambda>r. r\<lparr>b_next := v\<rparr>) s) x) = unlinked (bufs s x)"
  "unlinked (bufs (upd_buf b (\<lambda>r. r\<lparr>b_prev := v\<rparr>) s) x) = unlinked (bufs s x)"
  "unlinked (bufs (upd_buf b (\<lambda>r. r\<lparr>b_next := v, b_prev := w\<rparr>) s) x) = unlinked (bufs s x)"
  by (simp_all add: unlinked_def)

lemma brelse_move_desc: "unlinked (bufs (brelse_move b s) x) = unlinked (bufs s x)"
  unfolding brelse_move_def Let_def unlinked_upd ..

lemma unlinked_eq:
  assumes "unlinked r = unlinked r'"
  shows "b_busy r = b_busy r'" "b_valid r = b_valid r'" "b_dirty r = b_dirty r'" "b_dev r = b_dev r'"
    "b_blockno r = b_blockno r'" "b_data r = b_data r'"
  using assms by (cases r; cases r'; simp add: unlinked_def)+

lemma brelse_move_acquired: "brelse_move b (acquired l s) = acquired l (brelse_move b s)"
proof -
  have "bufs (acquired l s) = bufs s" for s by simp
  then show ?thesis unfolding brelse_move_def Let_def upd_buf_acquired by (simp only:)
qed

lemma brelse_move_core [simp]: "same_core s (brelse_move b s)" "disk (brelse_move b s) = disk s"
  "disksize (brelse_move b s) = disksize s" "dtrace (brelse_move b s) = dtrace s" "bio_frame s (brelse_move b s)"
proof -
  show "disk (brelse_move b s) = disk s" "disksize (brelse_move b s) = disksize s" "dtrace (brelse_move b s) = dtrace s"
    unfolding brelse_move_def Let_def by (simp_all only: upd_buf_simps)
  have "same_core s t \<Longrightarrow> same_core s (upd_buf c f t)" for t c f by (simp add: same_core_def upd_buf_def)
  then show "same_core s (brelse_move b s)" unfolding brelse_move_def Let_def by (blast intro: same_core_refl)
  have "bio_frame s t \<Longrightarrow> bio_frame s (upd_buf c f t)" for t c f using bio_frame_trans bio_frame_upd_buf by blast
  then show "bio_frame s (brelse_move b s)" unfolding brelse_move_def Let_def by (blast intro: bio_frame_refl)
qed

lemma cache_ok_release:
  assumes ok: "cache_ok B d n C D P H" and b: "H b = Some bn" "bn \<in> P \<or> C bn = D bn" and xs: "lru B' xs"
    and same: "\<And>x. x \<noteq> b \<Longrightarrow> unlinked (B' x) = unlinked (B x)" "unlinked (B' b) = unlinked ((B b)\<lparr>b_busy := False\<rparr>)"
  shows "cache_ok B' d n C D P (H(b := None))"
proof -
  note hb = held_bufD [OF ok b(1)]
  have eq: "b_valid (B' x) = b_valid (B x)" "b_dirty (B' x) = b_dirty (B x)" "b_dev (B' x) = b_dev (B x)"
    "b_blockno (B' x) = b_blockno (B x)" "b_data (B' x) = b_data (B x)" for x
    using unlinked_eq [OF same(1), of x] unlinked_eq [OF same(2)] by (cases "x = b"; simp)+
  have busy: "b_busy (B' x) = (b_busy (B x) \<and> x \<noteq> b)" for x
    using unlinked_eq(1) [OF same(1), of x] unlinked_eq(1) [OF same(2)] by (cases "x = b") simp_all
  show ?thesis
  proof (rule cache_okI [OF xs])
    show "buf_ok n C (B' x)" if "x < NBUF" for x using cache_ok_buf [OF ok that] by (auto simp: buf_ok_def eq busy)
    show "x = y" if "x < NBUF" "y < NBUF" "b_valid (B' x)" "b_valid (B' y)" "b_blockno (B' x) = b_blockno (B' y)" for x y
      using cache_valid(3) [OF ok that(1) _ that(2)] that(3-5) unfolding eq by blast
    show "pinned B' = P" unfolding cache_parts(1) [OF ok] by (rule pinned_cong) (simp_all add: eq)
    show "held B' = H(b := None)" unfolding cache_parts(2) [OF ok] by (auto simp: held_def fun_eq_iff eq busy)
    show "d (unat x) = D x" for x by (rule cache_parts(3) [OF ok])
    show "C x = D x" if x: "x \<notin> P" "x \<notin> ran (H(b := None))" for x
    proof (cases "x = bn")
      case True
      with b(2) x(1) show ?thesis by blast
    next
      case False
      have "x \<notin> ran H"
      proof
        assume "x \<in> ran H"
        then obtain y where y: "H y = Some x" by (auto simp: ran_def)
        with False b(1) have "(H(b := None)) y = Some x" by auto
        with x(2) show False by (auto intro: ranI)
      qed
      with cache_parts(4) [OF ok x(1)] show ?thesis by blast
    qed
  qed
qed

lemma lru_move_in:
  assumes "lru (bufs s) xs" "b < NBUF"
  shows "\<exists>ys. lru (bufs (brelse_move b s)) ys"
proof -
  have xs: "lru_links (nxt s) (prv s) xs" using assms(1) by (simp add: lru_nxt)
  from lru_in [OF xs assms(2)] obtain ys zs where sp: "xs = ys @ b # zs" by (auto simp: in_set_conv_decomp)
  have d: "distinct (ys @ b # zs)" "set (ys @ b # zs) = {..<NBUF}" using xs sp by (simp_all add: lru_links_def)
  have "nxt s b = hd (zs @ [NBUF])"
    using path_middle(1) [of "nxt s" NBUF ys b zs NBUF "prv s"] xs sp by (simp add: lru_links_def)
  then have nb: "nxt s b \<noteq> b" using d assms(2) by (cases zs) auto
  have "b \<noteq> NBUF" using assms(2) by simp
  from brelse_move_links [OF nb this] lru_move [OF xs [unfolded sp]] show ?thesis
    by (auto simp: lru_nxt)
qed

lemma brelse_law:
  assumes c: "cache s C D P H" and b: "H b = Some bn" "bn \<in> P \<or> C bn = D bn"
  shows "\<exists>t. brelse b s = Inr t \<and> cache t C D P (H(b := None)) \<and> bio_frame s t \<and> dtrace t = dtrace s"
proof -
  have ok: "cache_ok (bufs s) (disk s) (disksize s) C D P H" and calm: "calm s" using c by (simp_all add: cache_def)
  note hb = held_bufD [OF ok b(1)]
  obtain xs where "lru (bufs s) xs" using cache_parts(5) [OF ok] by blast
  from lru_move_in [OF this hb(1)] obtain ys where ys: "lru (bufs (brelse_move b s)) ys" by blast
  let ?u = "upd_buf b (\<lambda>r. r\<lparr>b_busy := False\<rparr>) (brelse_move b s)"
  have core: "same_core s ?u" using brelse_move_core(1) [of s b] by (simp add: same_core_def upd_buf_def)
  have cu: "calm ?u" using calm same_core_calm [OF core] by simp
  from wakeup_locked [OF cu, of BcacheLock "Some (ChanBuf b)"] obtain w where
    w: "wakeup (Some (ChanBuf b)) (acquired BcacheLock ?u) = Inr w" "quiet (acquired BcacheLock ?u) w" by auto
  have lk: "lock_free BcacheLock s" "cli_ok s" using calm by (simp_all add: calm_def)
  have "brelse_locked b (acquired BcacheLock s) = Inr ((), w)"
    using w(1) by (simp add: brelse_locked_def brelse_move_acquired upd_buf_acquired)
  note wl = with_lock_quiet [where f = "brelse_locked b", OF lk this w(2) core]
  let ?t = "released BcacheLock w"
  have "brelse b s = Inr ?t" using wl(1) hb(2) by (simp add: brelse_def)
  moreover have fr: "bio_frame s ?t"
  proof -
    have "bio_frame s ?u" using bio_frame_trans [OF brelse_move_core(5) bio_frame_upd_buf] .
    moreover have "bio_frame ?u ?t" using wl(2) by (rule quiet_bio)
    ultimately show ?thesis by (rule bio_frame_trans)
  qed
  moreover have "cache ?t C D P (H(b := None))"
  proof -
    note e = quiet_eq [OF wl(2)]
    have "lru (bufs ?u) ys" using ys lru_upd [of "bufs (brelse_move b s)"] by simp
    then have "cache_ok (bufs ?u) (disk s) (disksize s) C D P (H(b := None))"
    proof (rule cache_ok_release [OF ok b])
      show "unlinked (bufs ?u x) = unlinked (bufs s x)" if "x \<noteq> b" for x
        using that brelse_move_desc [of b s x] by simp
      show "unlinked (bufs ?u b) = unlinked ((bufs s b)\<lparr>b_busy := False\<rparr>)"
        using brelse_move_desc [of b s b]
        by (cases "bufs s b"; cases "bufs (brelse_move b s) b") (simp add: unlinked_def)
    qed
    then show ?thesis using e quiet_calm [OF wl(2) cu] by (simp add: cache_def)
  qed
  moreover have "dtrace ?t = dtrace s" using quiet_eq [OF wl(2)] by simp
  ultimately show ?thesis by blast
qed

subsection \<open>The interface of a block cache\<close>

locale block_cache =
  fixes rd :: "uint \<Rightarrow> 's \<Rightarrow> (nat \<times> 's) result"
    and wr rel :: "nat \<Rightarrow> 's \<Rightarrow> 's result"
    and dat :: "nat \<Rightarrow> 's \<Rightarrow> block"
    and put :: "nat \<Rightarrow> block \<Rightarrow> 's \<Rightarrow> 's"
    and rep :: "'s \<Rightarrow> (uint \<Rightarrow> block) \<Rightarrow> (uint \<Rightarrow> block) \<Rightarrow> uint set \<Rightarrow> (nat \<Rightarrow> uint option) \<Rightarrow> bool"
    and frame :: "'s \<Rightarrow> 's \<Rightarrow> bool"
    and trace :: "'s \<Rightarrow> (nat \<times> block) list"
    and sectors :: "'s \<Rightarrow> uint"
    and slots :: nat
  assumes rd_law: "rep s C D P H \<Longrightarrow> bn \<notin> ran H \<Longrightarrow> bn < sectors s \<Longrightarrow> bn \<in> P \<or> card (P \<union> ran H) < slots \<Longrightarrow>
      \<exists>b t. rd bn s = Inr (b, t) \<and> rep t C D P (H(b \<mapsto> bn)) \<and> H b = None \<and> frame s t \<and> trace t = trace s"
    and dat_law: "rep s C D P H \<Longrightarrow> H b = Some bn \<Longrightarrow> dat b s = C bn"
    and put_law: "rep s C D P H \<Longrightarrow> H b = Some bn \<Longrightarrow>
      rep (put b d s) (C(bn := d)) D P H \<and> frame s (put b d s) \<and> trace (put b d s) = trace s"
    and wr_law: "rep s C D P H \<Longrightarrow> H b = Some bn \<Longrightarrow>
      \<exists>t. wr b s = Inr t \<and> rep t C (D(bn := C bn)) (P - {bn}) H \<and> frame s t \<and> trace t = trace s @ [(unat bn, C bn)]"
    and rel_law: "rep s C D P H \<Longrightarrow> H b = Some bn \<Longrightarrow> bn \<in> P \<or> C bn = D bn \<Longrightarrow>
      \<exists>t. rel b s = Inr t \<and> rep t C D P (H(b := None)) \<and> frame s t \<and> trace t = trace s"
    and clean_law: "rep s C D P H \<Longrightarrow> bn \<notin> P \<Longrightarrow> bn \<notin> ran H \<Longrightarrow> C bn = D bn"
    and finite_law: "rep s C D P H \<Longrightarrow> finite P"
    and frame_trans: "frame s t \<Longrightarrow> frame t u \<Longrightarrow> frame s u"
    and frame_sectors: "frame s t \<Longrightarrow> sectors t = sectors s"
begin

text \<open>A block read, changed, written through and released.\<close>

lemma write_through:
  assumes r: "rep s C D P Map.empty" and bn: "bn < sectors s" "bn \<in> P \<or> card P < slots"
  shows "\<exists>b t u v. rd bn s = Inr (b, t) \<and> dat b t = C bn \<and> wr b (put b (f (C bn)) t) = Inr u \<and> rel b u = Inr v \<and>
     rep v (C(bn := f (C bn))) (D(bn := f (C bn))) (P - {bn}) Map.empty \<and> frame s v \<and>
     trace v = trace s @ [(unat bn, f (C bn))] \<and> frame s t \<and> frame s u"
proof -
  let ?d = "f (C bn)"
  from rd_law [OF r, of bn] bn obtain b t where t: "rd bn s = Inr (b, t)" "rep t C D P (Map.empty(b \<mapsto> bn))"
    "frame s t" "trace t = trace s" by auto
  have d: "dat b t = C bn" using dat_law [OF t(2)] by simp
  from put_law [OF t(2), of b bn ?d] have p: "rep (put b ?d t) (C(bn := ?d)) D P (Map.empty(b \<mapsto> bn))"
    "frame t (put b ?d t)" "trace (put b ?d t) = trace t" by simp_all
  from wr_law [OF p(1), of b bn] obtain u where u: "wr b (put b ?d t) = Inr u"
    "rep u (C(bn := ?d)) (D(bn := ?d)) (P - {bn}) (Map.empty(b \<mapsto> bn))" "frame (put b ?d t) u"
    "trace u = trace (put b ?d t) @ [(unat bn, ?d)]" by auto
  from rel_law [OF u(2), of b bn] obtain v where v: "rel b u = Inr v"
    "rep v (C(bn := ?d)) (D(bn := ?d)) (P - {bn}) Map.empty" "frame u v" "trace v = trace u" by auto
  have fu: "frame s u" using frame_trans [OF t(3) frame_trans [OF p(2) u(3)]] .
  have "frame s v" "trace v = trace s @ [(unat bn, ?d)]" using frame_trans [OF fu v(3)] t(4) p(3) u(4) v(4) by simp_all
  with t(1,3) d u(1) v(1,2) fu show ?thesis by blast
qed

text \<open>A block copied to another one and written through, the source read first or second.\<close>

lemma copy_through:
  assumes r: "rep s C D P Map.empty" and bn: "x < sectors s" "y < sectors s" "x \<noteq> y"
    and room: "x \<in> P \<or> card P < slots" "y \<in> P \<or> card (insert x P) < slots"
  shows "\<exists>b t b' t'. rd x s = Inr (b, t) \<and> rd y t = Inr (b', t') \<and> dat b t' = C x \<and> dat b' t' = C y \<and>
     rep t' C D P (Map.empty(b \<mapsto> x, b' \<mapsto> y)) \<and> b \<noteq> b' \<and> frame s t' \<and> trace t' = trace s"
proof -
  from rd_law [OF r, of x] bn room(1) obtain b t where t: "rd x s = Inr (b, t)" "rep t C D P (Map.empty(b \<mapsto> x))"
    "frame s t" "trace t = trace s" by auto
  have "y \<notin> ran (Map.empty(b \<mapsto> x))" "y < sectors t" using bn frame_sectors [OF t(3)] by auto
  moreover have "y \<in> P \<or> card (P \<union> ran (Map.empty(b \<mapsto> x))) < slots" using room(2) by simp
  ultimately obtain b' t' where t': "rd y t = Inr (b', t')" "rep t' C D P (Map.empty(b \<mapsto> x, b' \<mapsto> y))"
    "(Map.empty(b \<mapsto> x)) b' = None" "frame t t'" "trace t' = trace t" using rd_law [OF t(2)] by blast
  have ne: "b \<noteq> b'" using t'(3) by (auto split: if_splits)
  moreover have "dat b t' = C x" "dat b' t' = C y" using dat_law [OF t'(2)] ne by simp_all
  moreover have "frame s t'" "trace t' = trace s" using frame_trans [OF t(3) t'(4)] t(4) t'(5) by simp_all
  ultimately show ?thesis using t(1) t'(1,2) by blast
qed

lemma store_release:
  assumes r: "rep t C D P (Map.empty(b \<mapsto> x, b' \<mapsto> y))" "b \<noteq> b'" "x \<noteq> y" and x: "x \<in> P \<or> C x = D x"
  shows "\<exists>u v w. wr b' (put b' d t) = Inr u \<and> rel b u = Inr v \<and> rel b' v = Inr w \<and>
     rep w (C(y := d)) (D(y := d)) (P - {y}) Map.empty \<and> frame t w \<and> trace w = trace t @ [(unat y, d)]"
proof -
  let ?H = "Map.empty(b \<mapsto> x, b' \<mapsto> y)"
  have H: "?H b' = Some y" "?H b = Some x" using r(2) by simp_all
  from put_law [OF r(1) H(1), of d] have p: "rep (put b' d t) (C(y := d)) D P ?H"
    "frame t (put b' d t)" "trace (put b' d t) = trace t" by blast+
  from wr_law [OF p(1) H(1)] obtain u where u: "wr b' (put b' d t) = Inr u"
    "rep u (C(y := d)) (D(y := (C(y := d)) y)) (P - {y}) ?H" "frame (put b' d t) u"
    "trace u = trace (put b' d t) @ [(unat y, (C(y := d)) y)]" by blast
  have u2: "rep u (C(y := d)) (D(y := d)) (P - {y}) ?H" using u(2) by (simp only: fun_upd_same)
  have "x \<in> P - {y} \<or> (C(y := d)) x = (D(y := d)) x" using x r(3) by auto
  from rel_law [OF u2 H(2) this] obtain v where v: "rel b u = Inr v"
    "rep v (C(y := d)) (D(y := d)) (P - {y}) (?H(b := None))" "frame u v" "trace v = trace u" by blast
  have H': "(?H(b := None)) b' = Some y" "?H(b := None, b' := None) = Map.empty" using r(2) by (auto simp: fun_eq_iff)
  have "y \<in> P - {y} \<or> (C(y := d)) y = (D(y := d)) y" by simp
  from rel_law [OF v(2) H'(1) this] obtain w where w: "rel b' v = Inr w"
    "rep w (C(y := d)) (D(y := d)) (P - {y}) Map.empty" "frame v w" "trace w = trace v" unfolding H'(2) by blast
  have "frame t w" using frame_trans [OF p(2) frame_trans [OF u(3) frame_trans [OF v(3) w(3)]]] .
  moreover have "trace w = trace t @ [(unat y, d)]" using p(3) u(4) v(4) w(4) by simp
  ultimately show ?thesis using u(1) v(1) w(1,2) by blast
qed

end

interpretation bc: block_cache "bread 1" bwrite brelse "\<lambda>b s. b_data (bufs s b)" set_data cache bio_frame dtrace disksize NBUF
proof
  show "\<exists>b t. bread 1 bn s = Inr (b, t) \<and> cache t C D P (H(b \<mapsto> bn)) \<and> H b = None \<and> bio_frame s t \<and> dtrace t = dtrace s"
    if "cache s C D P H" "bn \<notin> ran H" "bn < disksize s" "bn \<in> P \<or> card (P \<union> ran H) < NBUF" for s C D P H bn
    using that by (rule bread_law)
  show "b_data (bufs s b) = C bn" if "cache s C D P H" "H b = Some bn" for s C D P H b bn
    using held_data [OF that] by simp
  show "cache (set_data b d s) (C(bn := d)) D P H \<and> bio_frame s (set_data b d s) \<and> dtrace (set_data b d s) = dtrace s"
    if "cache s C D P H" "H b = Some bn" for s C D P H b bn d
    using set_data_law [OF that, of d] by (simp add: set_data_def)
  show "\<exists>t. bwrite b s = Inr t \<and> cache t C (D(bn := C bn)) (P - {bn}) H \<and> bio_frame s t \<and>
      dtrace t = dtrace s @ [(unat bn, C bn)]" if "cache s C D P H" "H b = Some bn" for s C D P H b bn
    using that by (rule bwrite_law)
  show "\<exists>t. brelse b s = Inr t \<and> cache t C D P (H(b := None)) \<and> bio_frame s t \<and> dtrace t = dtrace s"
    if "cache s C D P H" "H b = Some bn" "bn \<in> P \<or> C bn = D bn" for s C D P H b bn
    using that by (rule brelse_law)
  show "C bn = D bn" if "cache s C D P H" "bn \<notin> P" "bn \<notin> ran H" for s C D P H bn
    using that by (auto simp: cache_def cache_ok_def)
  show "finite P" if "cache s C D P H" for s C D P H
    using that by (auto simp: cache_def cache_ok_def pinned_def)
  show "bio_frame s u" if "bio_frame s t" "bio_frame t u" for s t u
    using that by (rule bio_frame_trans)
  show "disksize t = disksize s" if "bio_frame s t" for s t
    using that by (rule bio_frame_eq)
qed

subsection \<open>Initialisation\<close>

text \<open>After \<open>k\<close> turns of the loop of \<^verbatim>\<open>binit\<close>.\<close>

definition binit_upto :: "nat \<Rightarrow> (nat \<Rightarrow> buf) \<Rightarrow> kernel \<Rightarrow> bool" where
  "binit_upto k B t \<longleftrightarrow>
     path (nxt t) NBUF (rev [0..<k]) NBUF \<and> path (prv t) NBUF [0..<k] NBUF \<and>
     (\<forall>x<k. b_dev (bufs t x) = -1) \<and>
     (\<forall>x. b_busy (bufs t x) = b_busy (B x) \<and> b_valid (bufs t x) = b_valid (B x) \<and> b_dirty (bufs t x) = b_dirty (B x))"

lemma binit_one_step:
  assumes inv: "binit_upto k B t" and k: "k < NBUF"
  shows "binit_upto (Suc k) B (binit_one k t)"
proof -
  let ?n = "nxt t NBUF"
  let ?t1 = "upd_buf k (\<lambda>r. r\<lparr>b_next := ?n, b_prev := NBUF, b_dev := -1\<rparr>) t"
  have e: "binit_one k t = upd_buf NBUF (\<lambda>r. r\<lparr>b_next := k\<rparr>) (upd_buf ?n (\<lambda>r. r\<lparr>b_prev := k\<rparr>) ?t1)"
    by (simp add: binit_one_def Let_def nxt_def)
  have l1: "nxt ?t1 = (nxt t)(k := ?n)" "prv ?t1 = (prv t)(k := NBUF)" by (auto simp: nxt_def prv_def fun_eq_iff)
  have nx: "nxt (binit_one k t) = (nxt t)(k := ?n, NBUF := k)" and pv: "prv (binit_one k t) = (prv t)(k := NBUF, ?n := k)"
    unfolding e by (simp_all only: links_upd l1)
  have p: "path (nxt t) NBUF (rev [0..<k]) NBUF" "path (prv t) NBUF [0..<k] NBUF"
    using inv by (simp_all add: binit_upto_def)
  have n: "?n = hd (rev [0..<k] @ [NBUF])" using path_first [OF p(1)] .
  have "path (nxt (binit_one k t)) NBUF (k # rev [0..<k]) NBUF"
    unfolding nx using p(1) k by (intro path_front) auto
  moreover have "path (prv (binit_one k t)) NBUF (rev (k # rev [0..<k])) NBUF"
    unfolding pv n using p(2) k by (intro path_back) auto
  moreover have "b_dev (bufs (binit_one k t) x) = -1" if "x < Suc k" for x
    using inv that unfolding e by (cases "x = k") (simp_all add: binit_upto_def less_Suc_eq)
  moreover have "b_busy (bufs (binit_one k t) x) = b_busy (B x) \<and> b_valid (bufs (binit_one k t) x) = b_valid (B x) \<and>
      b_dirty (bufs (binit_one k t) x) = b_dirty (B x)" for x
    using inv unfolding e by (simp add: binit_upto_def)
  ultimately show ?thesis by (simp add: binit_upto_def)
qed

lemma binit_one_frame:
  "disk (binit_one b s) = disk s \<and> disksize (binit_one b s) = disksize s \<and> dtrace (binit_one b s) = dtrace s \<and>
   klog (binit_one b s) = klog s \<and> calm (binit_one b s) = calm s"
  by (simp add: binit_one_def Let_def)

lemma binit_fold:
  assumes "binit_upto 0 B t" "k \<le> NBUF"
  shows "binit_upto k B (fold binit_one [0..<k] t) \<and> disk (fold binit_one [0..<k] t) = disk t \<and>
     disksize (fold binit_one [0..<k] t) = disksize t \<and> dtrace (fold binit_one [0..<k] t) = dtrace t \<and>
     klog (fold binit_one [0..<k] t) = klog t \<and> calm (fold binit_one [0..<k] t) = calm t"
  using assms(2)
proof (induction k)
  case 0
  then show ?case using assms(1) by simp
next
  case (Suc k)
  then show ?case using binit_one_step [of k B] binit_one_frame by simp
qed

lemma calm_initlock: "calm s \<Longrightarrow> calm (initlock l nm s)"
  using pt_procs_cong [of "initlock l nm s" s]
  by (auto simp: calm_def initlock_def lock_free_def cli_ok_def cpu_of_def pt_ok_def)

text \<open>An empty cache shows what is on the disk.\<close>

lemma binit_cache:
  assumes "calm s" "\<And>b. b < NBUF \<Longrightarrow> \<not> b_busy (bufs s b) \<and> \<not> b_valid (bufs s b) \<and> \<not> b_dirty (bufs s b)"
  defines "D \<equiv> \<lambda>bn. disk s (unat bn)"
  shows "cache (binit s) D D {} Map.empty"
    and "disksize (binit s) = disksize s" "klog (binit s) = klog s" "dtrace (binit s) = dtrace s"
proof -
  let ?t = "upd_buf NBUF (\<lambda>r. r\<lparr>b_prev := NBUF, b_next := NBUF\<rparr>) (initlock BcacheLock ''bcache'' s)"
  have "binit_upto 0 (bufs s) ?t" by (simp add: binit_upto_def nxt_def prv_def initlock_def)
  from binit_fold [OF this, of NBUF]
  have f: "binit_upto NBUF (bufs s) (binit s)" "disk (binit s) = disk s" "disksize (binit s) = disksize s"
    "dtrace (binit s) = dtrace s" "klog (binit s) = klog s" "calm (binit s) = calm (initlock BcacheLock ''bcache'' s)"
    by (simp_all add: binit_def initlock_def)
  show "disksize (binit s) = disksize s" "klog (binit s) = klog s" "dtrace (binit s) = dtrace s" by (fact f)+
  have u: "path (nxt (binit s)) NBUF (rev [0..<NBUF]) NBUF" "path (prv (binit s)) NBUF [0..<NBUF] NBUF"
    "\<And>x. x < NBUF \<Longrightarrow> b_dev (bufs (binit s) x) = -1"
    "\<And>x. x < NBUF \<Longrightarrow> \<not> b_busy (bufs (binit s) x) \<and> \<not> b_valid (bufs (binit s) x) \<and> \<not> b_dirty (bufs (binit s) x)"
    using f(1) assms(2) by (simp_all add: binit_upto_def)
  have "cache_ok (bufs (binit s)) (disk (binit s)) (disksize (binit s)) D D {} Map.empty"
  proof (rule cache_okI)
    show "lru (bufs (binit s)) (rev [0..<NBUF])"
      using u(1,2) by (simp add: lru_nxt lru_links_def lessThan_atLeast0)
    show "buf_ok (disksize (binit s)) D (bufs (binit s) b)" if "b < NBUF" for b
      using u(3,4) [OF that] by (simp add: buf_ok_def)
    show "pinned (bufs (binit s)) = {}" using u(4) by (auto simp: pinned_def)
    show "held (bufs (binit s)) = Map.empty" using u(4) by (auto simp: held_def fun_eq_iff)
  qed (use u(4) in \<open>auto simp: D_def f(2)\<close>)
  then show "cache (binit s) D D {} Map.empty" using calm_initlock [OF assms(1)] f(6) by (simp add: cache_def)
qed

subsection \<open>Properties\<close>

lemma bread_held:
  assumes c: "cache s C D P H" and b: "H b = Some bn"
  shows "bread 1 bn s = Inl (Blocks (ChanBuf b))"
proof -
  have ok: "cache_ok (bufs s) (disk s) (disksize s) C D P H" and calm: "calm s" using c by (simp_all add: cache_def)
  note hb = held_bufD [OF ok b]
  obtain xs where xs: "lru (bufs s) xs" using cache_parts(5) [OF ok] by blast
  have mem: "x \<in> set xs \<longleftrightarrow> x < NBUF" for x using xs by (auto simp: lru_def lru_links_def)
  let ?Q = "\<lambda>x. b_dev (bufs s x) = 1 \<and> b_blockno (bufs s x) = bn"
  obtain y where y: "find ?Q xs = Some y" "y < NBUF" "?Q y" using find_exists [of b xs ?Q] mem hb by blast
  have "b_valid (bufs s y)" using cache_valid(2) [OF ok y(2)] y(3) by force
  then have "y = b" using cache_valid(3) [OF ok hb(1,3) y(2)] hb(4) y(3) by simp
  moreover have "lru (bufs (acquired BcacheLock s)) xs" using xs by simp
  ultimately have "bget_locked 1 bn (acquired BcacheLock s) = Inl (Blocks (ChanBuf b))"
    using bget_locked_eq [of "acquired BcacheLock s" xs 1 bn] y(1) hb(2) by simp
  then show ?thesis using calm with_lock_Inl [of BcacheLock s "bget_locked 1 bn"] by (simp add: bread_def bget_def calm_def)
qed

lemma bread_full:
  assumes c: "cache s C D P H" and none: "\<forall>x<NBUF. b_valid (bufs s x) \<longrightarrow> b_blockno (bufs s x) \<noteq> bn"
    and full: "\<forall>x<NBUF. b_busy (bufs s x) \<or> b_dirty (bufs s x)"
  shows "bread 1 bn s = Inl (Panic ''bget: no buffers'')"
proof -
  have ok: "cache_ok (bufs s) (disk s) (disksize s) C D P H" and calm: "calm s" using c by (simp_all add: cache_def)
  obtain xs where xs: "lru (bufs s) xs" using cache_parts(5) [OF ok] by blast
  have mem: "x \<in> set xs \<longleftrightarrow> x < NBUF" for x using xs by (auto simp: lru_def lru_links_def)
  have "find (\<lambda>x. b_dev (bufs s x) = 1 \<and> b_blockno (bufs s x) = bn) xs = None"
    using none mem cache_valid(2) [OF ok] by (auto simp: find_None_iff)
  moreover have "find (\<lambda>x. \<not> b_busy (bufs s x) \<and> \<not> b_dirty (bufs s x)) (rev xs) = None"
    using full mem by (auto simp: find_None_iff)
  moreover have "lru (bufs (acquired BcacheLock s)) xs" using xs by simp
  ultimately have "bget_locked 1 bn (acquired BcacheLock s) = Inl (Panic ''bget: no buffers'')"
    using bget_locked_eq [of "acquired BcacheLock s" xs 1 bn] by simp
  then show ?thesis using calm with_lock_Inl [of BcacheLock s "bget_locked 1 bn"] by (simp add: bread_def bget_def calm_def)
qed

text \<open>
  C24. Reading through the cache: for a block of the disk in a well-formed cache, \<^verbatim>\<open>bread\<close> waits
  exactly when another holder has the block locked, panics exactly when the block is not cached and
  every buffer is locked or dirty, and otherwise returns a locked buffer with the block's current
  contents, leaving the contents of every block and the disk as they are.
\<close>

theorem bread_outcomes:
  assumes c: "cache s C D P H" and bn: "bn < disksize s"
  defines "cached \<equiv> \<exists>x<NBUF. b_valid (bufs s x) \<and> b_blockno (bufs s x) = bn"
    and "full \<equiv> \<forall>x<NBUF. b_busy (bufs s x) \<or> b_dirty (bufs s x)"
  shows "if bn \<in> ran H then \<exists>b. H b = Some bn \<and> bread 1 bn s = Inl (Blocks (ChanBuf b))
     else if \<not> cached \<and> full then bread 1 bn s = Inl (Panic ''bget: no buffers'')
     else \<exists>b t. bread 1 bn s = Inr (b, t) \<and> H b = None \<and> b_data (bufs t b) = C bn \<and>
       cache t C D P (H(b \<mapsto> bn)) \<and> bio_frame s t \<and> dtrace t = dtrace s"
proof -
  consider (held) "bn \<in> ran H" | (full) "bn \<notin> ran H" "\<not> cached" full | (hit) "bn \<notin> ran H" cached
    | (miss) "bn \<notin> ran H" "\<not> cached" "\<not> full" by blast
  then show ?thesis
  proof cases
    case held
    then obtain b where "H b = Some bn" by (auto simp: ran_def)
    with held bread_held [OF c] show ?thesis by auto
  next
    case full
    with bread_full [OF c] show ?thesis by (simp add: cached_def full_def)
  next
    case hit
    then obtain b where b: "b < NBUF" "b_valid (bufs s b)" "b_blockno (bufs s b) = bn" by (auto simp: cached_def)
    have ok: "cache_ok (bufs s) (disk s) (disksize s) C D P H" using c by (simp add: cache_def)
    have "\<not> b_busy (bufs s b)" using hit(1) b cache_parts(2) [OF ok] by (auto simp: ran_held)
    then have "H b = None" unfolding cache_parts(2) [OF ok] by (simp add: held_def)
    moreover from bread_hit [OF c b hit(1)] obtain t where t: "bread 1 bn s = Inr (b, t)"
      "cache t C D P (H(b \<mapsto> bn))" "bio_frame s t" "dtrace t = dtrace s" by blast
    moreover have "b_data (bufs t b) = C bn" using held_data [OF t(2), of b bn] by simp
    ultimately show ?thesis using hit by auto
  next
    case miss
    from bread_miss [OF c miss(1) bn] miss(2,3) obtain b t where t: "bread 1 bn s = Inr (b, t)"
      "cache t C D P (H(b \<mapsto> bn))" "H b = None" "bio_frame s t" "dtrace t = dtrace s"
      by (auto simp: cached_def full_def)
    moreover have "b_data (bufs t b) = C bn" using held_data [OF t(2), of b bn] by simp
    ultimately show ?thesis using miss by auto
  qed
qed

text \<open>
  C12. Writing through the cache: when no buffer is locked and one is free, the sequence \<^verbatim>\<open>bread\<close>,
  change of the data, \<^verbatim>\<open>bwrite\<close>, \<^verbatim>\<open>brelse\<close> completes. It makes the new data the block's contents and
  writes them to the disk in one disk write, leaves every other block in the cache and on the disk
  alone, and leaves no buffer locked.
\<close>

theorem write_through_cache:
  assumes "cache s C D P Map.empty" "bn < disksize s" "bn \<in> P \<or> card P < NBUF"
  shows "\<exists>b t u v. bread 1 bn s = Inr (b, t) \<and> b_data (bufs t b) = C bn \<and>
     bwrite b (set_data b (f (C bn)) t) = Inr u \<and> brelse b u = Inr v \<and>
     cache v (C(bn := f (C bn))) (D(bn := f (C bn))) (P - {bn}) Map.empty \<and> bio_frame s v \<and>
     dtrace v = dtrace s @ [(unat bn, f (C bn))]"
  using bc.write_through [OF assms, of f] by blast

definition demo_disk :: kernel where
  "demo_disk = binit (demo\<lparr>disksize := 2000, disk := (\<lambda>n i. of_nat n)\<rparr>)"

lemma demo_disk_cache: "cache demo_disk (\<lambda>bn i. of_nat (unat bn)) (\<lambda>bn i. of_nat (unat bn)) {} Map.empty"
  "disksize demo_disk = 2000"
proof -
  let ?s = "demo\<lparr>disksize := 2000, disk := (\<lambda>n i. of_nat n)\<rparr>"
  have "calm ?s" using calm_demo same_core_calm [of demo ?s] by (simp add: same_core_def)
  moreover have "\<not> b_busy (bufs ?s b) \<and> \<not> b_valid (bufs ?s b) \<and> \<not> b_dirty (bufs ?s b)" for b
    by (simp add: demo_def table_def bss_def)
  ultimately show "cache demo_disk (\<lambda>bn i. of_nat (unat bn)) (\<lambda>bn i. of_nat (unat bn)) {} Map.empty"
    "disksize demo_disk = 2000"
    using binit_cache [of ?s] by (simp_all add: demo_disk_def)
qed

theorem bread_outcomes_witness:
  "\<exists>b t. bread 1 7 demo_disk = Inr (b, t) \<and> b_data (bufs t b) 0 = 7"
  using bread_outcomes [OF demo_disk_cache(1), of 7] bread_law [OF demo_disk_cache(1), of 7] demo_disk_cache(2)
  by (auto simp: NBUF_def split: if_splits)

theorem write_through_cache_witness:
  "\<exists>b t u v. bread 1 7 demo_disk = Inr (b, t) \<and> bwrite b (set_data b (\<lambda>_. 1) t) = Inr u \<and> brelse b u = Inr v \<and>
     dtrace v = dtrace demo_disk @ [(7, \<lambda>_. 1)]"
  using write_through_cache [OF demo_disk_cache(1), of 7 "\<lambda>_ _. 1"] demo_disk_cache(2) by (auto simp: NBUF_def)

end
