(* ===== verification/Bytes.thy ===== *)
theory Bytes
  imports Xv6_State
begin

section \<open>Numbers in disk blocks\<close>

text \<open>
  The on-disk structures are C structures laid over the bytes of a block: 16-bit and 32-bit
  little-endian numbers at fixed offsets. Reading back what was stored, and storing at one offset
  while reading at another.
\<close>

definition get16 :: "block \<Rightarrow> nat \<Rightarrow> ushort" where
  "get16 d o' = ucast (d o') OR push_bit 8 (ucast (d (o' + 1)))"

definition put16 :: "nat \<Rightarrow> ushort \<Rightarrow> block \<Rightarrow> block" where
  "put16 o' w d = d(o' := ucast w, o' + 1 := ucast (drop_bit 8 w))"

definition get32 :: "block \<Rightarrow> nat \<Rightarrow> uint" where
  "get32 d o' = ucast (d o') OR push_bit 8 (ucast (d (o' + 1))) OR push_bit 16 (ucast (d (o' + 2)))
     OR push_bit 24 (ucast (d (o' + 3)))"

definition put32 :: "nat \<Rightarrow> uint \<Rightarrow> block \<Rightarrow> block" where
  "put32 o' w d = d(o' := ucast w, o' + 1 := ucast (drop_bit 8 w), o' + 2 := ucast (drop_bit 16 w),
     o' + 3 := ucast (drop_bit 24 w))"

lemma get16_put16 [simp]: "get16 (put16 o' w d) o' = w"
proof -
  have "get16 (put16 o' w d) o' = ucast (ucast w :: uchar) OR push_bit 8 (ucast (ucast (drop_bit 8 w) :: uchar))"
    by (simp add: get16_def put16_def)
  also have "\<dots> = w"
  proof (rule bit_word_eqI)
    fix n assume "n < LENGTH(16)"
    then consider "n < 8" | "8 \<le> n" "n < 16" by fastforce
    then show "bit (ucast (ucast w :: uchar) OR push_bit 8 (ucast (ucast (drop_bit 8 w) :: uchar)) :: ushort) n = bit w n"
      by cases (auto simp: bit_simps)
  qed
  finally show ?thesis .
qed

lemma get32_put32 [simp]: "get32 (put32 o' w d) o' = w"
proof -
  have "get32 (put32 o' w d) o' = ucast (ucast w :: uchar) OR push_bit 8 (ucast (ucast (drop_bit 8 w) :: uchar))
      OR push_bit 16 (ucast (ucast (drop_bit 16 w) :: uchar)) OR push_bit 24 (ucast (ucast (drop_bit 24 w) :: uchar))"
    by (simp add: get32_def put32_def)
  also have "\<dots> = w"
  proof (rule bit_word_eqI)
    fix n assume "n < LENGTH(32)"
    then have "n < 32" by simp
    then consider "n < 8" | "8 \<le> n" "n < 16" | "16 \<le> n" "n < 24" | "24 \<le> n" "n < 32" by linarith
    then show "bit (ucast (ucast w :: uchar) OR push_bit 8 (ucast (ucast (drop_bit 8 w) :: uchar)) OR
        push_bit 16 (ucast (ucast (drop_bit 16 w) :: uchar)) OR
        push_bit 24 (ucast (ucast (drop_bit 24 w) :: uchar)) :: uint) n = bit w n"
      by cases (auto simp: bit_simps)
  qed
  finally show ?thesis .
qed

text \<open>Bytes a store leaves alone, and fields that do not overlap.\<close>

lemma put32_other: "i < o' \<or> o' + 4 \<le> i \<Longrightarrow> put32 o' w d i = d i"
  by (auto simp: put32_def)

lemma put16_other: "i < o' \<or> o' + 2 \<le> i \<Longrightarrow> put16 o' w d i = d i"
  by (auto simp: put16_def)

lemma get_put_apart:
  "p + 4 \<le> o' \<or> o' + 4 \<le> p \<Longrightarrow> get32 (put32 o' w d) p = get32 d p"
  "p + 2 \<le> o' \<or> o' + 4 \<le> p \<Longrightarrow> get16 (put32 o' w d) p = get16 d p"
  "p + 4 \<le> o' \<or> o' + 2 \<le> p \<Longrightarrow> get32 (put16 o' v d) p = get32 d p"
  "p + 2 \<le> o' \<or> o' + 2 \<le> p \<Longrightarrow> get16 (put16 o' v d) p = get16 d p"
  by (auto simp: get32_def get16_def put32_other put16_other)

lemma get32_cong: "(\<And>k. k < 4 \<Longrightarrow> d (p + k) = d' (p + k)) \<Longrightarrow> get32 d p = get32 d' p"
proof -
  assume a: "\<And>k. k < 4 \<Longrightarrow> d (p + k) = d' (p + k)"
  show ?thesis using a [of 0] a [of 1] a [of 2] a [of 3] by (simp add: get32_def)
qed

text \<open>An array of 32-bit numbers stored from an offset on.\<close>

definition put_array :: "nat \<Rightarrow> (nat \<Rightarrow> uint) \<Rightarrow> nat \<Rightarrow> block \<Rightarrow> block" where
  "put_array o' v n d = fold (\<lambda>i. put32 (o' + 4 * i) (v i)) [0..<n] d"

lemma put_array_Suc: "put_array o' v (Suc n) d = put32 (o' + 4 * n) (v n) (put_array o' v n d)"
  by (simp add: put_array_def)

lemma put_array_0 [simp]: "put_array o' v 0 d = d"
  by (simp add: put_array_def)

lemma get32_put_array: "i < n \<Longrightarrow> get32 (put_array o' v n d) (o' + 4 * i) = v i"
proof (induction n)
  case (Suc n)
  then show ?case by (cases "i = n") (simp_all add: put_array_Suc get_put_apart)
qed simp

lemma put_array_other: "i < o' \<or> o' + 4 * n \<le> i \<Longrightarrow> put_array o' v n d i = d i"
  by (induction n) (auto simp: put_array_Suc put32_other)

lemma get_put_array_apart:
  "p + 4 \<le> o' \<or> o' + 4 * n \<le> p \<Longrightarrow> get32 (put_array o' v n d) p = get32 d p"
  "p + 2 \<le> o' \<or> o' + 4 * n \<le> p \<Longrightarrow> get16 (put_array o' v n d) p = get16 d p"
  by (auto simp: get32_def get16_def put_array_other)

end
