(* ===== verification/Log.thy ===== *)
theory Log
  imports Bio_Inv Bytes
begin

section \<open>The write-ahead log (log.c)\<close>

text \<open>
  Transactions over the buffer cache. The header block holds the number of logged blocks and their
  home block numbers; the in-memory copy is \<open>lg_lh\<close>. An operation that would go to sleep waiting
  for log space or for a commit stops with \<open>Blocks ChanLog\<close>. \<^verbatim>\<open>readsb\<close> of \<^verbatim>\<open>fs.c\<close> is here because
  \<^verbatim>\<open>initlog\<close> calls it.
\<close>

definition upd_log :: "(log \<Rightarrow> log) \<Rightarrow> kernel \<Rightarrow> kernel" where
  "upd_log f s = s\<lparr>klog := f (klog s)\<rparr>"

definition upd_lh :: "(logheader \<Rightarrow> logheader) \<Rightarrow> kernel \<Rightarrow> kernel" where
  "upd_lh f = upd_log (\<lambda>g. g\<lparr>lg_lh := f (lg_lh g)\<rparr>)"

subsection \<open>fs.c: readsb\<close>

definition sb_of :: "block \<Rightarrow> superblock" where
  "sb_of d = \<lparr>sb_size = get32 d 0, sb_nblocks = get32 d 4, sb_ninodes = get32 d 8, sb_nlog = get32 d 12,
     sb_logstart = get32 d 16, sb_inodestart = get32 d 20, sb_bmapstart = get32 d 24\<rparr>"

definition readsb :: "uint \<Rightarrow> kernel \<Rightarrow> (superblock \<times> kernel) result" where
  "readsb dev s =
     rbind (bread dev 1 s) (\<lambda>(bp, s).
       let r = sb_of (b_data (bufs s bp)) in rbind (brelse bp s) (\<lambda>s. Inr (r, s)))"

subsection \<open>log.c\<close>

definition install_one :: "nat \<Rightarrow> kernel \<Rightarrow> kernel result" where
  "install_one tail s =
     (let g = klog s in
      rbind (bread (lg_dev g) (of_int (lg_start g + int tail + 1)) s) (\<lambda>(lbuf, s).
      rbind (bread (lg_dev g) (of_int (lh_block (lg_lh g) tail)) s) (\<lambda>(dbuf, s).
      rbind (bwrite dbuf (set_data dbuf (b_data (bufs s lbuf)) s)) (\<lambda>s.
      rbind (brelse lbuf s) (brelse dbuf)))))"

definition install_trans :: "kernel \<Rightarrow> kernel result" where
  "install_trans s = rfold install_one [0..<nat (lh_n (lg_lh (klog s)))] s"

definition read_head_entry :: "block \<Rightarrow> nat \<Rightarrow> kernel \<Rightarrow> kernel result" where
  "read_head_entry d i s =
     (if int i \<ge> LOGSIZE then Inl OutOfBounds
      else Inr (upd_lh (\<lambda>h. h\<lparr>lh_block := (lh_block h)(i := sint (get32 d (4 + 4 * i)))\<rparr>) s))"

definition read_head :: "kernel \<Rightarrow> kernel result" where
  "read_head s =
     rbind (bread (lg_dev (klog s)) (of_int (lg_start (klog s))) s) (\<lambda>(buf, s).
       let d = b_data (bufs s buf); n = sint (get32 d 0) in
       rbind (rfold (read_head_entry d) [0..<nat n] (upd_lh (\<lambda>h. h\<lparr>lh_n := n\<rparr>) s)) (brelse buf))"

definition head_block :: "logheader \<Rightarrow> block \<Rightarrow> block" where
  "head_block h d = put_array 4 (\<lambda>i. of_int (lh_block h i)) (nat (lh_n h)) (put32 0 (of_int (lh_n h)) d)"

definition write_head :: "kernel \<Rightarrow> kernel result" where
  "write_head s =
     rbind (bread (lg_dev (klog s)) (of_int (lg_start (klog s))) s) (\<lambda>(buf, s).
       rbind (bwrite buf (set_data buf (head_block (lg_lh (klog s)) (b_data (bufs s buf))) s)) (brelse buf))"

definition recover_from_log :: "kernel \<Rightarrow> kernel result" where
  "recover_from_log s =
     rbind (read_head s) (\<lambda>s.
     rbind (install_trans s) (\<lambda>s.
     write_head (upd_lh (\<lambda>h. h\<lparr>lh_n := 0\<rparr>) s)))"

definition initlog :: "uint \<Rightarrow> kernel \<Rightarrow> kernel result" where
  "initlog dev s =
     (if 4 * (1 + LOGSIZE) \<ge> int BSIZE then Inl (Panic ''initlog: too big logheader'')
      else rbind (readsb dev (initlock LogLock ''log'' s)) (\<lambda>(r, s).
        recover_from_log (upd_log (\<lambda>g. g\<lparr>lg_start := sint (sb_logstart r), lg_size := sint (sb_nlog r),
          lg_dev := dev\<rparr>) s)))"

definition begin_op_locked :: "kernel \<Rightarrow> (unit \<times> kernel) result" where
  "begin_op_locked s =
     (let g = klog s in
      if lg_committing g then Inl (Blocks ChanLog)
      else if lh_n (lg_lh g) + (lg_outstanding g + 1) * MAXOPBLOCKS > LOGSIZE then Inl (Blocks ChanLog)
      else Inr ((), upd_log (\<lambda>g. g\<lparr>lg_outstanding := lg_outstanding g + 1\<rparr>) s))"

definition begin_op :: "kernel \<Rightarrow> kernel result" where
  "begin_op s = rbind (with_lock LogLock begin_op_locked s) (\<lambda>(_, s). Inr s)"

definition write_log_one :: "nat \<Rightarrow> kernel \<Rightarrow> kernel result" where
  "write_log_one tail s =
     (let g = klog s in
      rbind (bread (lg_dev g) (of_int (lg_start g + int tail + 1)) s) (\<lambda>(to, s).
      rbind (bread (lg_dev g) (of_int (lh_block (lg_lh g) tail)) s) (\<lambda>(from, s).
      rbind (bwrite to (set_data to (b_data (bufs s from)) s)) (\<lambda>s.
      rbind (brelse from s) (brelse to)))))"

definition write_log :: "kernel \<Rightarrow> kernel result" where
  "write_log s = rfold write_log_one [0..<nat (lh_n (lg_lh (klog s)))] s"

definition commit :: "kernel \<Rightarrow> kernel result" where
  "commit s =
     (if lh_n (lg_lh (klog s)) > 0
      then rbind (write_log s) (\<lambda>s.
           rbind (write_head s) (\<lambda>s.
           rbind (install_trans s) (\<lambda>s.
           write_head (upd_lh (\<lambda>h. h\<lparr>lh_n := 0\<rparr>) s))))
      else Inr s)"

definition end_op_locked :: "kernel \<Rightarrow> (bool \<times> kernel) result" where
  "end_op_locked s =
     (let s = upd_log (\<lambda>g. g\<lparr>lg_outstanding := lg_outstanding g - 1\<rparr>) s in
      if lg_committing (klog s) then Inl (Panic ''log.committing'')
      else if lg_outstanding (klog s) = 0
      then Inr (True, upd_log (\<lambda>g. g\<lparr>lg_committing := True\<rparr>) s)
      else rbind (wakeup (Some ChanLog) s) (\<lambda>s. Inr (False, s)))"

definition end_op :: "kernel \<Rightarrow> kernel result" where
  "end_op s =
     rbind (with_lock LogLock end_op_locked s) (\<lambda>(do_commit, s).
       if do_commit
       then rbind (commit s) (\<lambda>s.
            rbind (with_lock LogLock (\<lambda>s.
              rbind (wakeup (Some ChanLog) (upd_log (\<lambda>g. g\<lparr>lg_committing := False\<rparr>) s)) (\<lambda>s. Inr ((), s))) s)
              (\<lambda>(_, s). Inr s))
       else Inr s)"

text \<open>The search for the block in the header: the first index that holds it, or \<open>n\<close>.\<close>

fun log_slot :: "nat \<Rightarrow> nat \<Rightarrow> (nat \<Rightarrow> int) \<Rightarrow> uint \<Rightarrow> nat" where
  "log_slot 0 i blk bn = i"
| "log_slot (Suc k) i blk bn = (if of_int (blk i) = bn then i else log_slot k (Suc i) blk bn)"

definition log_write_locked :: "nat \<Rightarrow> kernel \<Rightarrow> (unit \<times> kernel) result" where
  "log_write_locked b s =
     (let h = lg_lh (klog s);
          bn = b_blockno (bufs s b);
          i = log_slot (nat (lh_n h)) 0 (lh_block h) bn;
          s = upd_lh (\<lambda>h. h\<lparr>lh_block := (lh_block h)(i := sint bn)\<rparr>) s;
          s = (if int i = lh_n h then upd_lh (\<lambda>h. h\<lparr>lh_n := lh_n h + 1\<rparr>) s else s)
      in Inr ((), upd_buf b (\<lambda>r. r\<lparr>b_dirty := True\<rparr>) s))"

definition log_write :: "nat \<Rightarrow> kernel \<Rightarrow> kernel result" where
  "log_write b s =
     (let g = klog s in
      if lh_n (lg_lh g) \<ge> LOGSIZE \<or> lh_n (lg_lh g) \<ge> lg_size g - 1 then Inl (Panic ''too big a transaction'')
      else if lg_outstanding g < 1 then Inl (Panic ''log_write outside of trans'')
      else rbind (with_lock LogLock (log_write_locked b) s) (\<lambda>(_, s). Inr s))"

end
