(* ===== verification/Log_Crash.thy ===== *)
theory Log_Crash
  imports Log
begin

section \<open>Crash safety of the log\<close>

text \<open>
  What commit and recovery do to the disk, write by write. A crash keeps a prefix of the disk
  writes of a commit; recovery from any such disk yields either all the blocks of the transaction or
  none of them.
\<close>

subsection \<open>Sequences of block updates\<close>

definition upds :: "('a \<times> 'b) list \<Rightarrow> ('a \<Rightarrow> 'b) \<Rightarrow> 'a \<Rightarrow> 'b" where
  "upds ps m = fold (\<lambda>(x, v) m. m(x := v)) ps m"

lemma upds_Nil [simp]: "upds [] m = m"
  by (simp add: upds_def)

lemma upds_Cons [simp]: "upds ((x, v) # ps) m = upds ps (m(x := v))"
  by (simp add: upds_def)

lemma upds_append [simp]: "upds (ps @ qs) m = upds qs (upds ps m)"
  by (simp add: upds_def)

lemma upds_other: "x \<notin> fst ` set ps \<Longrightarrow> upds ps m x = m x"
  by (induction ps arbitrary: m) auto

lemma upds_value: "x \<in> fst ` set ps \<Longrightarrow> (\<And>v. (x, v) \<in> set ps \<Longrightarrow> v = w) \<Longrightarrow> upds ps m x = w"
proof (induction ps arbitrary: m)
  case (Cons p ps)
  show ?case
  proof (cases "x \<in> fst ` set ps")
    case True
    with Cons show ?thesis by (cases p) auto
  next
    case False
    with Cons.prems have "fst p = x" by auto
    with Cons.prems(2) have "p = (x, w)" by (cases p) auto
    with False show ?thesis by (simp add: upds_other)
  qed
qed simp

subsection \<open>Frames\<close>

text \<open>The log's operations also change the log's own variables.\<close>

lemma bio_frame_klog: "bio_frame s t \<Longrightarrow> bio_frame (s\<lparr>klog := g\<rparr>) (t\<lparr>klog := g\<rparr>)"
proof -
  assume "bio_frame s t"
  then have q: "quiet (s\<lparr>bufs := bufs t, disk := disk t, dtrace := dtrace t\<rparr>) t" by (simp add: bio_frame_def)
  have "quiet (s\<lparr>klog := g, bufs := bufs t, disk := disk t, dtrace := dtrace t\<rparr>) (t\<lparr>klog := g\<rparr>)"
  proof (rule quiet_core [OF q])
    show "sync_frame (s\<lparr>klog := g, bufs := bufs t, disk := disk t, dtrace := dtrace t\<rparr>) (t\<lparr>klog := g\<rparr>)"
      using quiet_sync [OF q] by (cases s; cases t) (simp add: sync_frame_def)
  qed (simp_all add: same_core_def)
  then show ?thesis by (simp add: bio_frame_def)
qed

definition log_frame :: "kernel \<Rightarrow> kernel \<Rightarrow> bool" where
  "log_frame s t \<longleftrightarrow> bio_frame (s\<lparr>klog := klog t\<rparr>) t"

lemma log_frame_refl [simp]: "log_frame s s"
  by (simp add: log_frame_def)

lemma log_frame_trans: "log_frame s t \<Longrightarrow> log_frame t u \<Longrightarrow> log_frame s u"
  using bio_frame_trans bio_frame_klog [of "s\<lparr>klog := klog t\<rparr>" t "klog u"] by (auto simp: log_frame_def)

lemma bio_log_frame: "bio_frame s t \<Longrightarrow> log_frame s t"
  using bio_frame_eq(2) by (auto simp: log_frame_def)

lemma log_frame_upd [simp]: "log_frame s (upd_log f s)" "log_frame s (upd_lh h s)"
  by (simp_all add: log_frame_def upd_log_def upd_lh_def)

lemma upd_log_simps [simp]:
  "bufs (upd_log f s) = bufs s" "disk (upd_log f s) = disk s" "disksize (upd_log f s) = disksize s"
  "dtrace (upd_log f s) = dtrace s" "klog (upd_log f s) = f (klog s)"
  "bufs (upd_lh h s) = bufs s" "disk (upd_lh h s) = disk s" "disksize (upd_lh h s) = disksize s"
  "dtrace (upd_lh h s) = dtrace s" "klog (upd_lh h s) = (klog s)\<lparr>lg_lh := h (lg_lh (klog s))\<rparr>"
  by (simp_all add: upd_log_def upd_lh_def)

lemma cache_upd_log [simp]:
  "cache (upd_log f s) C D P H = cache s C D P H" "cache (upd_lh h s) C D P H = cache s C D P H"
proof -
  have *: "cache (upd_log f s) C D P H = cache s C D P H" for f
  proof -
    have "same_core s (upd_log f s)" by (simp add: same_core_def upd_log_def)
    from same_core_calm [OF this] show ?thesis by (simp add: cache_def)
  qed
  show "cache (upd_log f s) C D P H = cache s C D P H" "cache (upd_lh h s) C D P H = cache s C D P H"
    using * by (simp_all add: upd_lh_def)
qed

lemma log_frame_eq: "log_frame s t \<Longrightarrow> disksize t = disksize s"
  using bio_frame_eq(1) by (fastforce simp: log_frame_def)

subsection \<open>Copying blocks\<close>

definition lblk :: "uint \<Rightarrow> nat \<Rightarrow> uint" where
  "lblk L i = L + of_nat i + 1"

definition hblk :: "logheader \<Rightarrow> nat \<Rightarrow> uint" where
  "hblk h i = of_int (lh_block h i)"

text \<open>The log is on the device 1 and starts at block \<open>L\<close>.\<close>

definition log_at :: "kernel \<Rightarrow> uint \<Rightarrow> bool" where
  "log_at s L \<longleftrightarrow> lg_dev (klog s) = 1 \<and> of_int (lg_start (klog s)) = L"

lemma log_at_lblk: "log_at s L \<Longrightarrow> of_int (lg_start (klog s) + int i + 1) = lblk L i"
  by (auto simp: log_at_def lblk_def)

lemma install_one_copies:
  assumes c: "cache s C D P Map.empty" and g: "log_at s L"
    and x: "lblk L i < disksize s" "lblk L i \<notin> P" "card P < NBUF"
    and y: "hblk (lg_lh (klog s)) i < disksize s" "hblk (lg_lh (klog s)) i \<noteq> lblk L i"
      "hblk (lg_lh (klog s)) i \<in> P \<or> card (insert (lblk L i) P) < NBUF"
  defines "y \<equiv> hblk (lg_lh (klog s)) i"
  shows "\<exists>t. install_one i s = Inr t \<and> cache t (C(y := C (lblk L i))) (D(y := C (lblk L i))) (P - {y}) Map.empty \<and>
     bio_frame s t \<and> dtrace t = dtrace s @ [(unat y, C (lblk L i))]"
proof -
  let ?x = "lblk L i"
  have xy: "?x \<noteq> y" using y(2) by (auto simp: y_def)
  from bc.copy_through [OF c x(1) y(1) _ _ y(3)] xy x(3) obtain b t b' t' where
    r: "bread 1 ?x s = Inr (b, t)" "bread 1 y t = Inr (b', t')" "b_data (bufs t' b) = C ?x"
      "cache t' C D P (Map.empty(b \<mapsto> ?x, b' \<mapsto> y))" "b \<noteq> b'" "bio_frame s t'" "dtrace t' = dtrace s"
    unfolding y_def by blast
  have "C ?x = D ?x" using bc.clean_law [OF c x(2)] by simp
  with bc.store_release [OF r(4,5) xy, of "C ?x"] obtain u v w where
    w: "bwrite b' (set_data b' (C ?x) t') = Inr u" "brelse b u = Inr v" "brelse b' v = Inr w"
      "cache w (C(y := C ?x)) (D(y := C ?x)) (P - {y}) Map.empty" "bio_frame t' w"
      "dtrace w = dtrace t' @ [(unat y, C ?x)]" by blast
  have "install_one i s = Inr w"
    using r(1,2,3) w(1-3) g by (simp add: install_one_def Let_def log_at_def lblk_def y_def hblk_def)
  with w r(6,7) bio_frame_trans show ?thesis by fastforce
qed

lemma write_log_one_copies:
  assumes c: "cache s C D P Map.empty" and g: "log_at s L"
    and x: "lblk L i < disksize s" "lblk L i \<notin> P" "card P < NBUF"
    and y: "hblk (lg_lh (klog s)) i < disksize s" "hblk (lg_lh (klog s)) i \<in> P"
  defines "y \<equiv> hblk (lg_lh (klog s)) i"
  shows "\<exists>t. write_log_one i s = Inr t \<and> cache t (C(lblk L i := C y)) (D(lblk L i := C y)) (P - {lblk L i}) Map.empty \<and>
     bio_frame s t \<and> dtrace t = dtrace s @ [(unat (lblk L i), C y)]"
proof -
  let ?x = "lblk L i"
  have xy: "?x \<noteq> y" using x(2) y(2) by (auto simp: y_def)
  from bc.copy_through [OF c x(1) y(1), of] xy x(3) y(2) obtain b t b' t' where
    r: "bread 1 ?x s = Inr (b, t)" "bread 1 y t = Inr (b', t')" "b_data (bufs t' b') = C y"
      "cache t' C D P (Map.empty(b \<mapsto> ?x, b' \<mapsto> y))" "b \<noteq> b'" "bio_frame s t'" "dtrace t' = dtrace s"
    unfolding y_def by blast
  have "Map.empty(b \<mapsto> ?x, b' \<mapsto> y) = Map.empty(b' \<mapsto> y, b \<mapsto> ?x)" using r(5) by (rule fun_upd_twist)
  with r(4) have r4: "cache t' C D P (Map.empty(b' \<mapsto> y, b \<mapsto> ?x))" by simp
  from bc.store_release [OF r4 r(5) [symmetric] xy [symmetric], of "C y"] y(2) obtain u v w where
    w: "bwrite b (set_data b (C y) t') = Inr u" "brelse b' u = Inr v" "brelse b v = Inr w"
      "cache w (C(?x := C y)) (D(?x := C y)) (P - {?x}) Map.empty" "bio_frame t' w"
      "dtrace w = dtrace t' @ [(unat ?x, C y)]" unfolding y_def by blast
  have "write_log_one i s = Inr w"
    using r(1,2,3) w(1-3) g by (simp add: write_log_one_def Let_def log_at_def lblk_def y_def hblk_def)
  with w r(6,7) bio_frame_trans show ?thesis by fastforce
qed

text \<open>A loop that copies block \<open>src i\<close> to block \<open>dst i\<close>, for \<open>i\<close> below \<open>k\<close>.\<close>

lemma copy_loop:
  assumes step: "\<And>i s C D P. i < n \<Longrightarrow> cache s C D P Map.empty \<Longrightarrow> bio_frame s0 s \<Longrightarrow> P = P0 - dst ` {..<i} \<Longrightarrow>
      \<exists>t. f i s = Inr t \<and> cache t (C(dst i := C (src i))) (D(dst i := C (src i))) (P - {dst i}) Map.empty \<and>
        bio_frame s t \<and> dtrace t = dtrace s @ [(unat (dst i), C (src i))]"
    and apart: "\<And>i j. i < n \<Longrightarrow> j < n \<Longrightarrow> dst i \<noteq> src j"
    and start: "cache s0 C D P0 Map.empty"
  defines "ps \<equiv> \<lambda>k. map (\<lambda>i. (dst i, C (src i))) [0..<k]"
  shows "k \<le> n \<Longrightarrow> \<exists>t. rfold f [0..<k] s0 = Inr t \<and> cache t (upds (ps k) C) (upds (ps k) D) (P0 - dst ` {..<k}) Map.empty \<and>
     bio_frame s0 t \<and> dtrace t = dtrace s0 @ map (\<lambda>(x, v). (unat x, v)) (ps k)"
proof (induction k)
  case 0
  with start show ?case by (simp add: ps_def)
next
  case (Suc k)
  then obtain t where t: "rfold f [0..<k] s0 = Inr t"
    "cache t (upds (ps k) C) (upds (ps k) D) (P0 - dst ` {..<k}) Map.empty"
    "bio_frame s0 t" "dtrace t = dtrace s0 @ map (\<lambda>(x, v). (unat x, v)) (ps k)" by auto
  have "src k \<notin> fst ` set (ps k)"
  proof
    assume "src k \<in> fst ` set (ps k)"
    then obtain i where "i < k" "src k = dst i" by (auto simp: ps_def)
    with apart [of i k] Suc.prems show False by simp
  qed
  then have src: "upds (ps k) C (src k) = C (src k)" by (rule upds_other)
  from step [OF _ t(2,3) refl] Suc.prems obtain u where u: "f k t = Inr u"
    "cache u ((upds (ps k) C)(dst k := C (src k))) ((upds (ps k) D)(dst k := C (src k))) (P0 - dst ` {..<k} - {dst k}) Map.empty"
    "bio_frame t u" "dtrace u = dtrace t @ [(unat (dst k), C (src k))]" unfolding src by auto
  have P: "P0 - dst ` {..<k} - {dst k} = P0 - dst ` {..<Suc k}" by (auto simp: lessThan_Suc)
  have ps: "ps (Suc k) = ps k @ [(dst k, C (src k))]" by (simp add: ps_def)
  have "cache u (upds (ps (Suc k)) C) (upds (ps (Suc k)) D) (P0 - dst ` {..<Suc k}) Map.empty"
    using u(2) unfolding P ps upds_append upds_Cons upds_Nil .
  moreover have "rfold f [0..<Suc k] s0 = Inr u" using t(1) u(1) by (simp add: rfold_append)
  moreover have "dtrace u = dtrace s0 @ map (\<lambda>(x, v). (unat x, v)) (ps (Suc k))" using u(4) t(4) by (simp add: ps)
  ultimately show ?case using bio_frame_trans [OF t(3) u(3)] by blast
qed

lemma bio_frame_log_at: "bio_frame s t \<Longrightarrow> log_at t L = log_at s L"
  using bio_frame_eq(2) by (simp add: log_at_def)

text \<open>The copies of the log: home blocks to log blocks, and back.\<close>

definition to_log :: "uint \<Rightarrow> logheader \<Rightarrow> nat \<Rightarrow> (uint \<Rightarrow> block) \<Rightarrow> (uint \<times> block) list" where
  "to_log L h n C = map (\<lambda>i. (lblk L i, C (hblk h i))) [0..<n]"

definition from_log :: "uint \<Rightarrow> logheader \<Rightarrow> nat \<Rightarrow> (uint \<Rightarrow> block) \<Rightarrow> (uint \<times> block) list" where
  "from_log L h n C = map (\<lambda>i. (hblk h i, C (lblk L i))) [0..<n]"

text \<open>The home blocks of a transaction and the log blocks are on the disk, apart, and not the superblock.\<close>

definition log_fits :: "uint \<Rightarrow> logheader \<Rightarrow> nat \<Rightarrow> uint \<Rightarrow> bool" where
  "log_fits L h n z \<longleftrightarrow> L < z \<and> L \<noteq> 1 \<and>
     (\<forall>i<n. lblk L i < z \<and> hblk h i < z \<and> hblk h i \<noteq> L \<and> lblk L i \<noteq> L \<and> hblk h i \<noteq> 1 \<and> lblk L i \<noteq> 1) \<and>
     (\<forall>i<n. \<forall>j<n. hblk h i \<noteq> lblk L j)"

lemma log_fitsD:
  assumes "log_fits L h n z" "i < n"
  shows "lblk L i < z" "hblk h i < z" "hblk h i \<noteq> L" "lblk L i \<noteq> L" "\<And>j. j < n \<Longrightarrow> hblk h i \<noteq> lblk L j"
    "hblk h i \<noteq> 1" "lblk L i \<noteq> 1"
  using assms by (simp_all add: log_fits_def)

lemma install_trans_effect:
  assumes c: "cache s C D P Map.empty" and g: "log_at s L" and h: "lg_lh (klog s) = h" "nat (lh_n h) = n"
    and fits: "log_fits L h n (disksize s)" and P: "P = {} \<or> P = hblk h ` {..<n}" "card P < NBUF"
  defines "ps \<equiv> from_log L h n C"
  shows "\<exists>t. install_trans s = Inr t \<and> cache t (upds ps C) (upds ps D) (P - hblk h ` {..<n}) Map.empty \<and>
     bio_frame s t \<and> dtrace t = dtrace s @ map (\<lambda>(x, v). (unat x, v)) ps"
  unfolding ps_def from_log_def install_trans_def h
proof (rule copy_loop [where n = n, OF _ _ c])
  fix i t C D Q
  assume i: "i < n" and t: "cache t C D Q Map.empty" "bio_frame s t" "Q = P - hblk h ` {..<i}"
  have k: "klog t = klog s" "disksize t = disksize s" using bio_frame_eq(1,2) [OF t(2)] by simp_all
  have fin: "finite P" using bc.finite_law [OF c] .
  have QP: "Q \<subseteq> P" using t(3) by blast
  then have card: "card Q < NBUF" using card_mono [OF fin QP] P(2) by simp
  have x: "lblk L i < disksize t" unfolding k by (rule log_fitsD(1) [OF fits i])
  have y: "hblk h i < disksize t" "hblk h i \<noteq> lblk L i" using log_fitsD [OF fits i] i unfolding k by blast+
  have "lblk L i \<notin> hblk h ` {..<n}" using log_fitsD(5) [OF fits] i by fastforce
  with QP P(1) have xQ: "lblk L i \<notin> Q" by blast
  have "hblk h i \<in> Q \<or> card (insert (lblk L i) Q) < NBUF"
  proof (cases "hblk h i \<in> P \<and> hblk h i \<notin> Q")
    case True
    with QP have "Q \<subset> P" by blast
    then have "card Q < card P" using fin by (simp add: psubset_card_mono)
    moreover have "card (insert (lblk L i) Q) \<le> Suc (card Q)" by (rule card_insert_le_m1) simp_all
    ultimately show ?thesis using P(2) by simp
  next
    case False
    then show ?thesis using P(1) i t(3) by (auto simp: NBUF_def)
  qed
  with install_one_copies [OF t(1) _ x xQ card] y g bio_frame_log_at [OF t(2)]
  show "\<exists>u. install_one i t = Inr u \<and> cache u (C(hblk h i := C (lblk L i))) (D(hblk h i := C (lblk L i)))
      (Q - {hblk h i}) Map.empty \<and> bio_frame t u \<and> dtrace u = dtrace t @ [(unat (hblk h i), C (lblk L i))]"
    unfolding k h by blast
next
  show "hblk h i \<noteq> lblk L j" if "i < n" "j < n" for i j using log_fitsD(5) [OF fits that] .
qed simp

lemma write_log_effect:
  assumes c: "cache s C D (hblk h ` {..<n}) Map.empty" and g: "log_at s L"
    and h: "lg_lh (klog s) = h" "nat (lh_n h) = n"
    and fits: "log_fits L h n (disksize s)" and P: "card (hblk h ` {..<n}) < NBUF"
  defines "ps \<equiv> to_log L h n C"
  shows "\<exists>t. write_log s = Inr t \<and> cache t (upds ps C) (upds ps D) (hblk h ` {..<n}) Map.empty \<and>
     bio_frame s t \<and> dtrace t = dtrace s @ map (\<lambda>(x, v). (unat x, v)) ps"
proof -
  have apart: "lblk L i \<noteq> hblk h j" if "i < n" "j < n" for i j using log_fitsD(5) [OF fits that(2,1)] by (rule not_sym)
  have P': "hblk h ` {..<n} - lblk L ` {..<i} = hblk h ` {..<n}" if "i \<le> n" for i
  proof -
    have "x \<notin> lblk L ` {..<i}" if "x \<in> hblk h ` {..<n}" for x using that apart \<open>i \<le> n\<close>
      by (metis imageE lessThan_iff order_less_le_trans)
    then show ?thesis by blast
  qed
  have "\<exists>t. rfold write_log_one [0..<n] s = Inr t \<and>
     cache t (upds ps C) (upds ps D) (hblk h ` {..<n} - lblk L ` {..<n}) Map.empty \<and>
     bio_frame s t \<and> dtrace t = dtrace s @ map (\<lambda>(x, v). (unat x, v)) ps"
    unfolding ps_def to_log_def
  proof (rule copy_loop [where n = n, OF _ _ c])
    fix i t C D Q
    assume i: "i < n" and t: "cache t C D Q Map.empty" "bio_frame s t" "Q = hblk h ` {..<n} - lblk L ` {..<i}"
    have k: "klog t = klog s" "disksize t = disksize s" using bio_frame_eq(1,2) [OF t(2)] by simp_all
    have Q: "Q = hblk h ` {..<n}" using P' [of i] i t(3) by simp
    have x: "lblk L i < disksize t" "lblk L i \<notin> Q" "card Q < NBUF" "hblk h i < disksize t" "hblk h i \<in> Q"
      using log_fitsD [OF fits i] i apart P unfolding k Q by auto
    with write_log_one_copies [OF t(1) _ x(1-3)] g bio_frame_log_at [OF t(2)]
    show "\<exists>u. write_log_one i t = Inr u \<and> cache u (C(lblk L i := C (hblk h i))) (D(lblk L i := C (hblk h i)))
      (Q - {lblk L i}) Map.empty \<and> bio_frame t u \<and> dtrace u = dtrace t @ [(unat (lblk L i), C (hblk h i))]"
      unfolding k h by blast
  qed (simp_all add: apart)
  then show ?thesis unfolding P' [OF order_refl] by (simp add: write_log_def h)
qed


subsection \<open>The header\<close>

lemma sint_of_int_small: "0 \<le> i \<Longrightarrow> i < 2 ^ 31 \<Longrightarrow> sint (of_int i :: uint) = i"
  by (simp add: sint_sbintrunc' signed_take_bit_int_eq_self)

lemma get32_head_block:
  assumes "0 \<le> lh_n h"
  shows "get32 (head_block h d) 0 = of_int (lh_n h)"
    and "i < nat (lh_n h) \<Longrightarrow> get32 (head_block h d) (4 + 4 * i) = of_int (lh_block h i)"
  by (simp_all add: head_block_def get_put_array_apart get32_put_array)

lemma write_head_effect:
  assumes c: "cache s C D P Map.empty" and g: "log_at s L" and L: "L < disksize s" "card P < NBUF"
  defines "w \<equiv> head_block (lg_lh (klog s)) (C L)"
  shows "\<exists>t. write_head s = Inr t \<and> cache t (C(L := w)) (D(L := w)) (P - {L}) Map.empty \<and> bio_frame s t \<and>
     dtrace t = dtrace s @ [(unat L, w)]"
proof -
  from bc.write_through [OF c L(1), of "head_block (lg_lh (klog s))"] L(2) obtain b t u v where
    r: "bread 1 L s = Inr (b, t)" "b_data (bufs t b) = C L" "bwrite b (set_data b w t) = Inr u" "brelse b u = Inr v"
      "cache v (C(L := w)) (D(L := w)) (P - {L}) Map.empty" "bio_frame s v" "dtrace v = dtrace s @ [(unat L, w)]"
      "bio_frame s t" unfolding w_def by blast
  have "write_head s = Inr v"
    using r(1-4) g bio_frame_eq(2) [OF r(8)] by (simp add: write_head_def log_at_def w_def)
  with r(5-7) show ?thesis by blast
qed

lemma read_head_entries:
  "int k \<le> LOGSIZE \<Longrightarrow> rfold (read_head_entry d) [0..<k] s =
     Inr (upd_lh (\<lambda>h. h\<lparr>lh_block := \<lambda>i. if i < k then sint (get32 d (4 + 4 * i)) else lh_block h i\<rparr>) s)"
proof (induction k)
  case 0
  then show ?case by (simp add: upd_lh_def upd_log_def)
next
  case (Suc k)
  have "(\<lambda>i. if i < k then f i else g i)(k := f k) = (\<lambda>i. if i < Suc k then f i else g i)" for f g :: "nat \<Rightarrow> int"
    by (auto simp: fun_eq_iff)
  note eq = this [of "\<lambda>i. sint (get32 d (4 + 4 * i))"]
  let ?s = "\<lambda>k. upd_lh (\<lambda>h. h\<lparr>lh_block := \<lambda>i. if i < k then sint (get32 d (4 + 4 * i)) else lh_block h i\<rparr>) s"
  have "read_head_entry d k (?s k) = Inr (?s (Suc k))"
    using Suc.prems by (simp add: read_head_entry_def upd_lh_def upd_log_def eq del: fun_upd_apply)
  then show ?case using Suc unfolding upt_Suc_append [OF le0] by (simp add: rfold_append)
qed

text \<open>What \<^verbatim>\<open>read_head\<close> finds in a block.\<close>

definition head_of :: "block \<Rightarrow> logheader \<Rightarrow> bool" where
  "head_of d h \<longleftrightarrow> lh_n h = sint (get32 d 0) \<and> (\<forall>i < nat (lh_n h). lh_block h i = sint (get32 d (4 + 4 * i)))"

lemma read_head_effect:
  assumes c: "cache s C D P Map.empty" and g: "log_at s L" and L: "L < disksize s" "card P < NBUF"
    and n: "sint (get32 (C L) 0) \<le> LOGSIZE" and clean: "L \<in> P \<or> C L = D L"
  shows "\<exists>t h. read_head s = Inr t \<and> cache t C D P Map.empty \<and> log_frame s t \<and> klog t = (klog s)\<lparr>lg_lh := h\<rparr> \<and>
     head_of (C L) h \<and> dtrace t = dtrace s"
proof -
  let ?n = "sint (get32 (C L) 0)"
  from bc.rd_law [OF c, of L] L obtain b t where t: "bread 1 L s = Inr (b, t)" "cache t C D P (Map.empty(b \<mapsto> L))"
    "bio_frame s t" "dtrace t = dtrace s" by auto
  have d: "b_data (bufs t b) = C L" using bc.dat_law [OF t(2)] by simp
  let ?h = "\<lambda>h. h\<lparr>lh_n := ?n, lh_block := \<lambda>i. if i < nat ?n then sint (get32 (C L) (4 + 4 * i)) else lh_block h i\<rparr>"
  have "cache (upd_lh ?h t) C D P (Map.empty(b \<mapsto> L))" using t(2) by (simp only: cache_upd_log)
  from bc.rel_law [OF this, of b L] clean obtain u where
    u: "brelse b (upd_lh ?h t) = Inr u" "cache u C D P Map.empty" "bio_frame (upd_lh ?h t) u"
    "dtrace u = dtrace (upd_lh ?h t)" by auto
  have "rfold (read_head_entry (C L)) [0..<nat ?n] (upd_lh (\<lambda>h. h\<lparr>lh_n := ?n\<rparr>) t) = Inr (upd_lh ?h t)"
  proof -
    have "int (nat ?n) \<le> LOGSIZE" using n by (simp add: LOGSIZE_def MAXOPBLOCKS_def)
    from read_head_entries [OF this] show ?thesis by (simp add: upd_lh_def upd_log_def cong: if_cong)
  qed
  then have "read_head s = Inr u" using t(1) d g u(1) by (simp add: read_head_def log_at_def)
  moreover have "log_frame s u"
    using log_frame_trans [OF bio_log_frame [OF t(3)] log_frame_trans [OF log_frame_upd(2) bio_log_frame [OF u(3)]]] .
  moreover have "klog u = (klog s)\<lparr>lg_lh := ?h (lg_lh (klog s))\<rparr>"
    using bio_frame_eq(2) [OF u(3)] bio_frame_eq(2) [OF t(3)] by (simp cong: if_cong)
  moreover have "head_of (C L) (?h (lg_lh (klog s)))" by (simp add: head_of_def)
  ultimately show ?thesis using u(2,4) t(4) by fastforce
qed


subsection \<open>The disk writes of a commit\<close>

definition homes :: "logheader \<Rightarrow> nat \<Rightarrow> (uint \<Rightarrow> block) \<Rightarrow> (uint \<times> block) list" where
  "homes h n C = map (\<lambda>i. (hblk h i, C (hblk h i))) [0..<n]"

definition commit_writes :: "uint \<Rightarrow> logheader \<Rightarrow> nat \<Rightarrow> (uint \<Rightarrow> block) \<Rightarrow> (uint \<times> block) list" where
  "commit_writes L h n C = to_log L h n C @ [(L, head_block h (C L))] @ homes h n C @
     [(L, head_block (h\<lparr>lh_n := 0\<rparr>) (head_block h (C L)))]"

lemma lblk_inj:
  assumes "i < 2 ^ 32" "j < 2 ^ 32" "lblk L i = lblk L j"
  shows "i = j"
proof -
  have "(of_nat i :: uint) = of_nat j" using assms(3) by (simp add: lblk_def)
  then show ?thesis using assms(1,2) by (simp add: word_of_nat_eq_iff take_bit_eq_mod)
qed


lemma to_log_at:
  assumes i: "i < n" and n: "n < 2 ^ 32"
  shows "upds (to_log L h n C) E (lblk L i) = C (hblk h i)"
proof (rule upds_value)
  show "lblk L i \<in> fst ` set (to_log L h n C)" using i by (force simp: to_log_def)
  fix v assume "(lblk L i, v) \<in> set (to_log L h n C)"
  then obtain j where j: "j < n" "lblk L i = lblk L j" "v = C (hblk h j)" by (auto simp: to_log_def)
  with lblk_inj [of i j L] i n show "v = C (hblk h i)" by simp
qed

lemma to_log_other: "x \<notin> lblk L ` {..<n} \<Longrightarrow> upds (to_log L h n C) E x = E x"
  by (rule upds_other) (auto simp: to_log_def)

lemma homes_at: "x \<in> hblk h ` {..<n} \<Longrightarrow> upds (homes h n C) E x = C x"
  by (rule upds_value) (force simp: homes_def)+

lemma homes_other: "x \<notin> hblk h ` {..<n} \<Longrightarrow> upds (homes h n C) E x = E x"
  by (rule upds_other) (auto simp: homes_def)

lemma from_log_homes:
  assumes "\<And>i. i < n \<Longrightarrow> E (lblk L i) = C (hblk h i)"
  shows "from_log L h n E = homes h n C"
  using assms by (simp add: from_log_def homes_def)

lemma commit_effect:
  assumes c: "cache s C D (hblk h ` {..<n}) Map.empty" and g: "log_at s L"
    and h: "lg_lh (klog s) = h" "lh_n h = int n" "0 < n"
    and fits: "log_fits L h n (disksize s)" and P: "card (hblk h ` {..<n}) < NBUF" and n: "n < 2 ^ 32"
  defines "ws \<equiv> commit_writes L h n C"
  shows "\<exists>t. commit s = Inr t \<and> cache t (upds ws C) (upds ws D) {} Map.empty \<and> log_frame s t \<and>
     klog t = (klog s)\<lparr>lg_lh := h\<lparr>lh_n := 0\<rparr>\<rparr> \<and> dtrace t = dtrace s @ map (\<lambda>(x, v). (unat x, v)) ws"
proof -
  let ?A = "to_log L h n C" and ?P = "hblk h ` {..<n}" and ?w = "head_block h (C L)" and ?B = "homes h n C"
  have hn: "nat (lh_n h) = n" using h(2) by simp
  have LP: "L \<notin> ?P" "L \<notin> lblk L ` {..<n}" using log_fitsD(3,4) [OF fits] by (metis imageE lessThan_iff)+
  have Lz: "L < disksize s" using fits by (simp add: log_fits_def)
  from write_log_effect [OF c g h(1) hn fits P] obtain t where t: "write_log s = Inr t"
    "cache t (upds ?A C) (upds ?A D) ?P Map.empty" "bio_frame s t" "dtrace t = dtrace s @ map (\<lambda>(x, v). (unat x, v)) ?A" by blast
  note kt = bio_frame_eq(1,2) [OF t(3)]
  have "upds ?A C L = C L" using LP(2) by (rule to_log_other)
  with write_head_effect [OF t(2), of L] g bio_frame_log_at [OF t(3)] Lz P kt h(1) LP(1) obtain u where
    u: "write_head t = Inr u" "cache u ((upds ?A C)(L := ?w)) ((upds ?A D)(L := ?w)) ?P Map.empty" "bio_frame t u"
      "dtrace u = dtrace t @ [(unat L, ?w)]" by auto
  note ku = bio_frame_eq(1,2) [OF u(3)]
  have E: "from_log L h n ((upds ?A C)(L := ?w)) = ?B"
  proof (rule from_log_homes)
    fix i assume i: "i < n"
    then show "((upds ?A C)(L := ?w)) (lblk L i) = C (hblk h i)" using to_log_at [OF i n] log_fitsD(4) [OF fits i] by simp
  qed
  have "log_at u L" "lg_lh (klog u) = h" "log_fits L h n (disksize u)"
    using g bio_frame_log_at [OF t(3)] bio_frame_log_at [OF u(3)] kt ku h(1) fits by simp_all
  from install_trans_effect [OF u(2) this(1,2) hn this(3) disjI2 [OF refl] P, unfolded E] obtain v where
    v: "install_trans u = Inr v" "cache v (upds ?B ((upds ?A C)(L := ?w))) (upds ?B ((upds ?A D)(L := ?w))) {} Map.empty"
      "bio_frame u v" "dtrace v = dtrace u @ map (\<lambda>(x, v). (unat x, v)) ?B" by auto
  note kv = bio_frame_eq(1,2) [OF v(3)]
  let ?v = "upd_lh (\<lambda>h. h\<lparr>lh_n := 0\<rparr>) v"
  let ?w' = "head_block (h\<lparr>lh_n := 0\<rparr>) ?w"
  have "cache ?v (upds ?B ((upds ?A C)(L := ?w))) (upds ?B ((upds ?A D)(L := ?w))) {} Map.empty" using v(2) by simp
  moreover have "log_at ?v L" using g bio_frame_log_at [OF t(3)] kt ku kv by (simp add: log_at_def)
  moreover have "L < disksize ?v" "card {} < NBUF" using Lz kt ku kv by (simp_all add: NBUF_def)
  moreover have "head_block (lg_lh (klog ?v)) (upds ?B ((upds ?A C)(L := ?w)) L) = ?w'"
    using homes_other [OF LP(1)] kt ku kv h(1) by simp
  ultimately obtain x where x: "write_head ?v = Inr x"
    "cache x (upds ws C) (upds ws D) {} Map.empty" "bio_frame ?v x" "dtrace x = dtrace ?v @ [(unat L, ?w')]"
    using write_head_effect [of ?v _ _ "{}" L] unfolding ws_def commit_writes_def by fastforce
  have "commit s = Inr x" using t(1) u(1) v(1) x(1) h by (simp add: commit_def)
  moreover have "log_frame s x"
    using bio_frame_trans [OF bio_frame_trans [OF t(3) u(3)] v(3)] x(3) bio_log_frame log_frame_upd(2) log_frame_trans by metis
  moreover have "klog x = (klog s)\<lparr>lg_lh := h\<lparr>lh_n := 0\<rparr>\<rparr>"
    using bio_frame_eq(2) [OF x(3)] kt ku kv h(1) by simp
  moreover have "dtrace x = dtrace s @ map (\<lambda>(x, v). (unat x, v)) ws"
    using x(4) v(4) u(4) t(4) by (simp add: ws_def commit_writes_def)
  ultimately show ?thesis using x(2) by blast
qed


subsection \<open>Recovery\<close>

lemma head_block_0: "lh_n h = 0 \<Longrightarrow> head_block h d = put32 0 0 d"
  by (simp add: head_block_def)

lemma head_of_hblk: "head_of d h \<Longrightarrow> i < nat (sint (get32 d 0)) \<Longrightarrow> hblk h i = get32 d (4 + 4 * i)"
  by (simp add: head_of_def hblk_def)

definition recovery_writes :: "uint \<Rightarrow> logheader \<Rightarrow> nat \<Rightarrow> (uint \<Rightarrow> block) \<Rightarrow> (uint \<times> block) list" where
  "recovery_writes L h n D = from_log L h n D @ [(L, put32 0 0 (D L))]"

lemma recover_effect:
  assumes c: "cache s D D {} Map.empty" and g: "log_at s L" and h: "head_of (D L) h" "nat (lh_n h) = n" "lh_n h \<le> LOGSIZE"
    and fits: "log_fits L h n (disksize s)"
  defines "E \<equiv> (upds (from_log L h n D) D)(L := put32 0 0 (D L))"
  shows "\<exists>t. recover_from_log s = Inr t \<and> cache t E E {} Map.empty \<and> log_frame s t \<and>
     (\<exists>h'. klog t = (klog s)\<lparr>lg_lh := h'\<rparr> \<and> lh_n h' = 0) \<and>
     dtrace t = dtrace s @ map (\<lambda>(x, v). (unat x, v)) (recovery_writes L h n D)"
proof -
  have L: "L < disksize s" using fits by (simp add: log_fits_def)
  have hn: "lh_n h = sint (get32 (D L) 0)" using h(1) by (simp add: head_of_def)
  from read_head_effect [OF c g L] h(3) hn obtain t h' where t: "read_head s = Inr t" "cache t D D {} Map.empty"
    "log_frame s t" "klog t = (klog s)\<lparr>lg_lh := h'\<rparr>" "head_of (D L) h'" "dtrace t = dtrace s" by (auto simp: NBUF_def)
  have n': "lh_n h' = lh_n h" using t(5) hn by (simp add: head_of_def)
  have same: "hblk h' i = hblk h i" if "i < n" for i
    using head_of_hblk [OF h(1)] head_of_hblk [OF t(5)] that h(2) hn by simp
  have fl: "from_log L h' n D = from_log L h n D" using same by (simp add: from_log_def)
  have "log_fits L h' n (disksize t)" using fits same log_frame_eq [OF t(3)] by (simp add: log_fits_def)
  moreover have "log_at t L" using g t(4) by (simp add: log_at_def)
  ultimately obtain u where u: "install_trans t = Inr u"
    "cache u (upds (from_log L h n D) D) (upds (from_log L h n D) D) {} Map.empty" "bio_frame t u"
    "dtrace u = dtrace t @ map (\<lambda>(x, v). (unat x, v)) (from_log L h n D)"
    using install_trans_effect [OF t(2), of L h' n] t(4) h(2) n' fl by (auto simp: NBUF_def)
  note ku = bio_frame_eq(1,2) [OF u(3)]
  have "L \<notin> fst ` set (from_log L h n D)" using log_fitsD(3) [OF fits] by (force simp: from_log_def)
  then have dL: "upds (from_log L h n D) D L = D L" by (rule upds_other)
  let ?u = "upd_lh (\<lambda>h. h\<lparr>lh_n := 0\<rparr>) u"
  have cu: "cache ?u (upds (from_log L h n D) D) (upds (from_log L h n D) D) {} Map.empty" using u(2) by simp
  have "log_at ?u L" "L < disksize ?u" using g t(4) ku L log_frame_eq [OF t(3)] by (simp_all add: log_at_def)
  from write_head_effect [OF cu this] obtain v where v: "write_head ?u = Inr v" "cache v E E {} Map.empty" "bio_frame ?u v"
    "dtrace v = dtrace ?u @ [(unat L, put32 0 0 (D L))]" unfolding dL E_def by (auto simp: NBUF_def head_block_0)
  have "recover_from_log s = Inr v" using t(1) u(1) v(1) by (simp add: recover_from_log_def)
  moreover have "log_frame s v"
    using log_frame_trans [OF t(3)] bio_log_frame [OF u(3)] bio_log_frame [OF v(3)] log_frame_upd(2) log_frame_trans by metis
  moreover have "klog v = (klog s)\<lparr>lg_lh := h'\<lparr>lh_n := 0\<rparr>\<rparr>" using bio_frame_eq(2) [OF v(3)] ku t(4) by simp
  moreover have "dtrace v = dtrace s @ map (\<lambda>(x, v). (unat x, v)) (recovery_writes L h n D)"
    using v(4) u(4) t(6) by (simp add: recovery_writes_def)
  ultimately show ?thesis using v(2) by (intro exI [of _ v]) auto
qed

lemma initlog_effect:
  assumes c: "cache s D D {} Map.empty" and sb: "1 < disksize s" "sb_logstart (sb_of (D 1)) = L"
    and h: "head_of (D L) h" "nat (lh_n h) = n" "lh_n h \<le> LOGSIZE" and fits: "log_fits L h n (disksize s)"
  defines "E \<equiv> (upds (from_log L h n D) D)(L := put32 0 0 (D L))"
  shows "\<exists>t. initlog 1 s = Inr t \<and> cache t E E {} Map.empty \<and>
     (\<exists>h'. klog t = (klog s)\<lparr>lg_start := sint L, lg_size := sint (sb_nlog (sb_of (D 1))), lg_dev := 1, lg_lh := h'\<rparr> \<and> lh_n h' = 0) \<and>
     dtrace t = dtrace s @ map (\<lambda>(x, v). (unat x, v)) (recovery_writes L h n D) \<and> disksize t = disksize s"
proof -
  let ?s = "initlock LogLock ''log'' s"
  have c': "cache ?s D D {} Map.empty"
    using c by (simp add: cache_def calm_initlock) (simp add: initlock_def)
  have z: "disksize ?s = disksize s" and dt: "dtrace ?s = dtrace s" by (simp_all add: initlock_def)
  from bc.rd_law [OF c', of 1] sb(1) z dt obtain b t where t: "bread 1 1 ?s = Inr (b, t)" "cache t D D {} (Map.empty(b \<mapsto> 1))"
    "bio_frame ?s t" "dtrace t = dtrace s" by (auto simp: NBUF_def)
  have d: "b_data (bufs t b) = D 1" using bc.dat_law [OF t(2)] by simp
  from bc.rel_law [OF t(2), of b 1] obtain u where u: "brelse b t = Inr u" "cache u D D {} Map.empty" "bio_frame t u"
    "dtrace u = dtrace t" by auto
  let ?u = "upd_log (\<lambda>g. g\<lparr>lg_start := sint L, lg_size := sint (sb_nlog (sb_of (D 1))), lg_dev := 1\<rparr>) u"
  have "cache ?u D D {} Map.empty" using u(2) by simp
  moreover have "log_at ?u L" by (simp add: log_at_def)
  moreover have "log_fits L h n (disksize ?u)" using fits z bio_frame_eq(1) [OF t(3)] bio_frame_eq(1) [OF u(3)] by simp
  ultimately obtain v where v: "recover_from_log ?u = Inr v" "cache v E E {} Map.empty" "\<exists>h'. klog v = (klog ?u)\<lparr>lg_lh := h'\<rparr> \<and> lh_n h' = 0"
    "dtrace v = dtrace ?u @ map (\<lambda>(x, v). (unat x, v)) (recovery_writes L h n D)" "log_frame ?u v"
    using recover_effect [of ?u D L h n] h unfolding E_def by blast
  have "initlog 1 s = Inr v" using t(1) d u(1) v(1) sb(2) by (simp add: initlog_def readsb_def BSIZE_def LOGSIZE_def MAXOPBLOCKS_def)
  moreover have "disksize v = disksize s"
    using log_frame_eq [OF v(5)] z bio_frame_eq(1) [OF t(3)] bio_frame_eq(1) [OF u(3)] by simp
  moreover have "klog ?s = klog s" by (simp add: initlock_def)
  ultimately show ?thesis using v(2-4) t(4) u(4) bio_frame_eq(2) [OF t(3)] bio_frame_eq(2) [OF u(3)] by simp
qed


subsection \<open>A crash during a commit\<close>

text \<open>The machine restarted on the disk of \<open>s\<close> after the writes \<open>ws\<close>: the cache is empty.\<close>

definition restarted :: "kernel \<Rightarrow> (nat \<times> block) list \<Rightarrow> kernel \<Rightarrow> bool" where
  "restarted s ws r \<longleftrightarrow> calm r \<and> (\<forall>b<NBUF. \<not> b_busy (bufs r b) \<and> \<not> b_valid (bufs r b) \<and> \<not> b_dirty (bufs r b)) \<and>
     disksize r = disksize s \<and> disk r = upds ws (disk s)"

lemma upds_unat: "upds (map (\<lambda>(x :: uint, v). (unat x, v)) ps) d (unat y) = upds ps (\<lambda>x. d (unat x)) y"
proof (induction ps arbitrary: d)
  case (Cons p ps)
  obtain x v where p: "p = (x, v)" by (cases p)
  have "(\<lambda>y. (d(unat x := v)) (unat y)) = (\<lambda>y. d (unat y))(x := v)" by (auto simp: fun_eq_iff word_unat_eq_iff)
  with Cons show ?case by (simp add: p)
qed simp

text \<open>The blocks outside the log.\<close>

definition log_blocks :: "uint \<Rightarrow> nat \<Rightarrow> uint set" where
  "log_blocks L n = insert L (lblk L ` {..<n})"

text \<open>What recovery makes of a disk: its header, and the contents outside the log afterwards.\<close>

definition recovers :: "uint \<Rightarrow> nat \<Rightarrow> uint \<Rightarrow> (uint \<Rightarrow> block) \<Rightarrow> (uint \<Rightarrow> block) \<Rightarrow> bool" where
  "recovers L n z D X \<longleftrightarrow> (\<exists>h m. head_of (D L) h \<and> nat (lh_n h) = m \<and> lh_n h \<le> LOGSIZE \<and> log_fits L h m z \<and>
     (\<forall>x. x \<notin> log_blocks L n \<longrightarrow> upds (from_log L h m D) D x = X x))"

lemma recovers_empty:
  assumes "get32 (D L) 0 = 0" "L < z" "L \<noteq> 1" "\<And>x. x \<notin> log_blocks L n \<Longrightarrow> D x = X x"
  shows "recovers L n z D X"
  unfolding recovers_def
  by (intro exI [of _ "\<lparr>lh_n = 0, lh_block = \<lambda>_. 0\<rparr>"] exI [of _ 0])
    (use assms in \<open>simp add: head_of_def log_fits_def from_log_def LOGSIZE_def MAXOPBLOCKS_def\<close>)

lemma recovers_full:
  assumes h: "lh_n h = int n" "n < NBUF" and fits: "log_fits L h n z"
    and D: "D L = head_block h d" "\<And>i. i < n \<Longrightarrow> D (lblk L i) = C (hblk h i)"
      "\<And>x. x \<notin> log_blocks L n \<Longrightarrow> x \<notin> hblk h ` {..<n} \<Longrightarrow> D x = C x"
  shows "recovers L n z D C"
proof -
  let ?h = "\<lparr>lh_n = int n, lh_block = \<lambda>i. sint (hblk h i)\<rparr>"
  have hb: "hblk ?h i = hblk h i" for i by (simp add: hblk_def)
  have "sint (of_int (int n) :: uint) = int n" using h(2) by (intro sint_of_int_small) (simp_all add: NBUF_def)
  then have "head_of (D L) ?h" using h(1) get32_head_block [of h] by (simp add: D(1) head_of_def hblk_def)
  moreover have "log_fits L ?h n z" using fits by (simp add: log_fits_def hb)
  moreover have "from_log L ?h n D = homes h n C" using D(2) by (simp add: from_log_def homes_def hb)
  moreover have "upds (homes h n C) D x = C x" if "x \<notin> log_blocks L n" for x
    using homes_at [of x h n C D] homes_other [of x h n C D] D(3) [OF that] by (cases "x \<in> hblk h ` {..<n}") simp_all
  ultimately show ?thesis unfolding recovers_def using h(2)
    by (intro exI [of _ ?h] exI [of _ n]) (simp add: NBUF_def LOGSIZE_def MAXOPBLOCKS_def)
qed

lemma fst_take: "x \<notin> fst ` set ps \<Longrightarrow> x \<notin> fst ` set (take k ps)"
  using in_set_takeD by fastforce

lemma recovers_prefix:
  assumes h: "lh_n h = int n" "n < NBUF" and fits: "log_fits L h n z"
    and clean: "\<And>x. x \<notin> hblk h ` {..<n} \<Longrightarrow> C x = D x" and idle: "get32 (D L) 0 = 0"
  shows "recovers L n z (upds (take k (commit_writes L h n C)) D) (if k \<le> n then D else C)"
proof -
  let ?A = "to_log L h n C" and ?w = "head_block h (C L)" and ?B = "homes h n C"
  let ?w' = "head_block (h\<lparr>lh_n := 0\<rparr>) ?w" and ?W = "commit_writes L h n C"
  have len: "length ?A = n" "length ?B = n" by (simp_all add: to_log_def homes_def)
  have fA: "fst ` set ?A = lblk L ` {..<n}" "fst ` set ?B = hblk h ` {..<n}"
    by (force simp: to_log_def homes_def image_def)+
  have LA: "L \<notin> fst ` set ?A" "L \<notin> fst ` set ?B" using log_fitsD(3,4) [OF fits] unfolding fA by (metis imageE lessThan_iff)+
  have Lz: "L < z" "L \<noteq> 1" using fits by (simp_all add: log_fits_def)
  have n32: "n < 2 ^ 32" using h(2) by (simp add: NBUF_def)
  have BA: "lblk L i \<notin> fst ` set ?B" if "i < n" for i using log_fitsD(5) [OF fits] that unfolding fA by (metis imageE lessThan_iff)
  consider "k \<le> n" | "n < k" "k \<le> 2 * n + 1" | "2 * n + 1 < k" by linarith
  then show ?thesis
  proof cases
    case 1
    then have W: "take k ?W = take k ?A" by (simp add: commit_writes_def len)
    have "upds (take k ?A) D L = D L" using upds_other [OF fst_take [OF LA(1)]] .
    moreover have "upds (take k ?A) D x = D x" if "x \<notin> log_blocks L n" for x
    proof -
      have "x \<notin> fst ` set ?A" using that unfolding fA log_blocks_def by blast
      from upds_other [OF fst_take [OF this]] show ?thesis .
    qed
    ultimately show ?thesis using 1 idle Lz unfolding W by (intro recovers_empty) simp_all
  next
    case 2
    let ?B' = "take (k - Suc n) ?B"
    have W: "take k ?W = ?A @ (L, ?w) # ?B'" using 2 by (simp add: commit_writes_def len take_Cons')
    have "recovers L n z (upds (take k ?W) D) C"
    proof (rule recovers_full [OF h fits])
      show "upds (take k ?W) D L = ?w" using upds_other [OF fst_take [OF LA(2)]] unfolding W by simp
      show "upds (take k ?W) D (lblk L i) = C (hblk h i)" if "i < n" for i
        using upds_other [OF fst_take [OF BA [OF that]]] to_log_at [OF that n32] log_fitsD(4) [OF fits that]
        unfolding W by simp
      show "upds (take k ?W) D x = C x" if "x \<notin> log_blocks L n" "x \<notin> hblk h ` {..<n}" for x
      proof -
        have x: "x \<notin> fst ` set ?B" "x \<notin> fst ` set ?A" "x \<noteq> L" using that unfolding fA log_blocks_def by blast+
        show ?thesis using upds_other [OF fst_take [OF x(1)]] upds_other [OF x(2)] x(3) clean [OF that(2)] unfolding W by simp
      qed
    qed
    with 2 show ?thesis by simp
  next
    case 3
    have W: "take k ?W = ?A @ (L, ?w) # ?B @ [(L, ?w')]" using 3 by (simp add: commit_writes_def len)
    have "get32 ?w' 0 = 0" by (simp add: head_block_0)
    moreover have "(upds (?A @ (L, ?w) # ?B @ [(L, ?w')]) D) x = C x" if x: "x \<notin> log_blocks L n" for x
    proof -
      have "x \<notin> lblk L ` {..<n}" "x \<noteq> L" using x by (auto simp: log_blocks_def)
      then show ?thesis using homes_at [of x h n C] homes_other [of x h n C] to_log_other [of x L n h C D] clean [of x]
        by (cases "x \<in> hblk h ` {..<n}") simp_all
    qed
    ultimately show ?thesis using 3 Lz unfolding W by (intro recovers_empty) simp_all
  qed
qed


text \<open>Recovery can itself be cut short: any prefix of its writes recovers the same contents.\<close>

lemma upds_same: "x \<in> fst ` set ps \<Longrightarrow> upds ps m x = upds ps m' x"
proof (induction ps arbitrary: m m')
  case (Cons p ps)
  then show ?case by (cases "x \<in> fst ` set ps"; cases p) (auto simp: upds_other)
qed simp

lemma recovery_again:
  assumes h: "head_of (D L) h" "nat (lh_n h) = m" "lh_n h \<le> LOGSIZE" and fits: "log_fits L h m z"
    and X: "\<And>x. x \<notin> log_blocks L n \<Longrightarrow> upds (from_log L h m D) D x = X x"
  shows "recovers L n z (upds (take k (recovery_writes L h m D)) D) X"
proof -
  let ?B = "from_log L h m D"
  have len: "length ?B = m" and fB: "fst ` set ?B = hblk h ` {..<m}" by (force simp: from_log_def image_def)+
  have LB: "L \<notin> fst ` set ?B" using log_fitsD(3) [OF fits] unfolding fB by (metis imageE lessThan_iff)
  show ?thesis
  proof (cases "k \<le> m")
    case True
    let ?D = "upds (take k ?B) D"
    have W: "take k (recovery_writes L h m D) = take k ?B" using True by (simp add: recovery_writes_def len)
    have "?D L = D L" using upds_other [OF fst_take [OF LB]] .
    moreover have "?D (lblk L i) = D (lblk L i)" if "i < m" for i
    proof -
      have "lblk L i \<notin> fst ` set ?B" using log_fitsD(5) [OF fits _ that] unfolding fB by (metis imageE lessThan_iff)
      from upds_other [OF fst_take [OF this]] show ?thesis .
    qed
    then have "from_log L h m ?D = ?B" by (simp add: from_log_def)
    moreover have "upds ?B ?D x = upds ?B D x" for x
    proof (cases "x \<in> fst ` set ?B")
      case True
      then show ?thesis by (rule upds_same)
    next
      case False
      then show ?thesis using upds_other [OF fst_take [OF False]] by (simp add: upds_other)
    qed
    ultimately show ?thesis unfolding recovers_def W using h fits X by (intro exI [of _ h] exI [of _ m]) simp
  next
    case False
    then have W: "take k (recovery_writes L h m D) = ?B @ [(L, put32 0 0 (D L))]" by (simp add: recovery_writes_def len)
    have "L < z" "L \<noteq> 1" using fits by (simp_all add: log_fits_def)
    then show ?thesis unfolding W using X by (intro recovers_empty) (auto simp: log_blocks_def)
  qed
qed

lemma cache_disk: "cache s C D P H \<Longrightarrow> disk s (unat x) = D x"
  using cache_parts(3) by (auto simp: cache_def)

text \<open>Restarting on a disk that recovers \<open>X\<close>.\<close>

lemma restart_recovers:
  assumes r: "restarted s ws r" and D: "\<And>x. upds ws (disk s) (unat x) = D x" and X: "recovers L n (disksize s) D X"
    and sb: "1 < disksize s" "sb_logstart (sb_of (D 1)) = L"
  shows "\<exists>u. initlog 1 (binit r) = Inr u \<and> (\<forall>x. x \<notin> log_blocks L n \<longrightarrow> disk u (unat x) = X x)"
proof -
  have D': "(\<lambda>x. disk r (unat x)) = D" using r D by (auto simp: restarted_def)
  have c: "cache (binit r) D D {} Map.empty" and z: "disksize (binit r) = disksize s"
    using binit_cache [of r] r unfolding D' by (simp_all add: restarted_def)
  obtain h m where h: "head_of (D L) h" "nat (lh_n h) = m" "lh_n h \<le> LOGSIZE" "log_fits L h m (disksize (binit r))"
    "\<And>x. x \<notin> log_blocks L n \<Longrightarrow> upds (from_log L h m D) D x = X x" using X unfolding recovers_def z by blast
  from initlog_effect [OF c _ sb(2) h(1-4)] sb(1) z obtain u where u: "initlog 1 (binit r) = Inr u"
    "cache u ((upds (from_log L h m D) D)(L := put32 0 0 (D L))) ((upds (from_log L h m D) D)(L := put32 0 0 (D L))) {} Map.empty"
    by auto
  have "disk u (unat x) = X x" if "x \<notin> log_blocks L n" for x
    using cache_disk [OF u(2), of x] h(5) [OF that] that by (auto simp: log_blocks_def)
  with u(1) show ?thesis by blast
qed


lemma log_blocks_sb: "log_fits L h n z \<Longrightarrow> 1 \<notin> log_blocks L n"
  unfolding log_blocks_def log_fits_def by (metis imageE insertE lessThan_iff)

text \<open>A transaction of \<open>n\<close> blocks in the log, none of it on the disk yet.\<close>

definition commit_ready :: "kernel \<Rightarrow> uint \<Rightarrow> nat \<Rightarrow> (uint \<Rightarrow> block) \<Rightarrow> (uint \<Rightarrow> block) \<Rightarrow> bool" where
  "commit_ready s L n C D \<longleftrightarrow> (let h = lg_lh (klog s) in
     0 < n \<and> n < NBUF \<and> lh_n h = int n \<and> cache s C D (hblk h ` {..<n}) Map.empty \<and> log_at s L \<and>
     log_fits L h n (disksize s) \<and> get32 (D L) 0 = 0 \<and> 1 < disksize s \<and> sb_logstart (sb_of (D 1)) = L)"

text \<open>
  C1. Crash atomicity of the log (\<^verbatim>\<open>commit\<close>, \<^verbatim>\<open>initlog\<close>): a commit of a transaction of \<open>n\<close> blocks succeeds and
  brings the cached contents to the disk. If the machine stops after any number \<open>k\<close> of the disk writes of
  the commit and restarts, \<^verbatim>\<open>initlog\<close> succeeds and the blocks outside the log then all hold what the
  transaction wrote if more than \<open>n\<close> writes were done, and what they held before it otherwise.
\<close>

theorem log_crash_atomic:
  assumes "commit_ready s L n C D"
  shows "\<exists>t ws. commit s = Inr t \<and> dtrace t = dtrace s @ ws \<and> (\<forall>x. x \<notin> log_blocks L n \<longrightarrow> disk t (unat x) = C x) \<and>
     (\<forall>k r. restarted s (take k ws) r \<longrightarrow> (\<exists>u. initlog 1 (binit r) = Inr u \<and>
        (\<forall>x. x \<notin> log_blocks L n \<longrightarrow> disk u (unat x) = (if k \<le> n then D x else C x))))"
proof -
  define h where "h = lg_lh (klog s)"
  let ?W = "commit_writes L h n C" and ?P = "hblk h ` {..<n}"
  let ?ws = "map (\<lambda>(x, v). (unat x, v)) ?W"
  have a: "0 < n" "n < NBUF" "lh_n h = int n" "cache s C D ?P Map.empty" "log_at s L" "log_fits L h n (disksize s)"
    "get32 (D L) 0 = 0" "1 < disksize s" "sb_logstart (sb_of (D 1)) = L"
    using assms by (simp_all add: commit_ready_def Let_def h_def)
  have card: "card ?P < NBUF" using card_image_le [of "{..<n}" "hblk h"] a(2) by simp
  have n32: "n < 2 ^ 32" using a(2) by (simp add: NBUF_def)
  from commit_effect [OF a(4,5) h_def [symmetric] a(3,1,6) card n32] obtain t where t: "commit s = Inr t"
    "cache t (upds ?W C) (upds ?W D) {} Map.empty" "dtrace t = dtrace s @ ?ws" by blast
  have clean: "C x = D x" if "x \<notin> ?P" for x using bc.clean_law [OF a(4) that] by simp
  have k: "upds (take k ?ws) (disk s) (unat x) = upds (take k ?W) D x" for k x
    using upds_unat [of "take k ?W" "disk s" x] cache_disk [OF a(4)] by (simp add: take_map)
  have "disk t (unat x) = C x" if x: "x \<notin> log_blocks L n" for x
  proof -
    have "upds ?W D x = C x"
      using x homes_at [of x h n C] homes_other [of x h n C] to_log_other [of x L n h C D] clean [of x]
      by (cases "x \<in> ?P") (simp_all add: commit_writes_def log_blocks_def)
    then show ?thesis using cache_disk [OF t(2)] by simp
  qed
  moreover have "\<exists>u. initlog 1 (binit r) = Inr u \<and> (\<forall>x. x \<notin> log_blocks L n \<longrightarrow> disk u (unat x) = (if k \<le> n then D x else C x))"
    if r: "restarted s (take k ?ws) r" for k r
  proof -
    have "1 \<notin> fst ` set ?W"
      using log_blocks_sb [OF a(6)] log_fitsD(6) [OF a(6)] by (fastforce simp: commit_writes_def to_log_def homes_def log_blocks_def)
    then have "upds (take k ?W) D 1 = D 1" by (intro upds_other fst_take)
    then have "sb_logstart (sb_of (upds (take k ?W) D 1)) = L" using a(9) by simp
    from restart_recovers [OF r k recovers_prefix [where C = C and D = D, OF a(3,2,6) clean a(7)] a(8) this]
    show ?thesis by (cases "k \<le> n") simp_all
  qed
  ultimately show ?thesis using t(1,3) by blast
qed

text \<open>
  C2. Recovery is idempotent (\<^verbatim>\<open>initlog\<close>, \<^verbatim>\<open>recover_from_log\<close>): started on a disk whose log recovers the contents \<open>X\<close>, it
  brings \<open>X\<close> to the disk; and if the machine stops after any number of recovery's own disk writes, the
  next recovery brings \<open>X\<close> to the disk as well.
\<close>

theorem log_recovery_idempotent:
  assumes "cache s D D {} Map.empty" "recovers L n (disksize s) D X" "1 < disksize s" "sb_logstart (sb_of (D 1)) = L"
  shows "\<exists>t ws. initlog 1 s = Inr t \<and> dtrace t = dtrace s @ ws \<and> (\<forall>x. x \<notin> log_blocks L n \<longrightarrow> disk t (unat x) = X x) \<and>
     (\<forall>k r. restarted s (take k ws) r \<longrightarrow>
        (\<exists>u. initlog 1 (binit r) = Inr u \<and> (\<forall>x. x \<notin> log_blocks L n \<longrightarrow> disk u (unat x) = X x)))"
proof -
  obtain h m where h: "head_of (D L) h" "nat (lh_n h) = m" "lh_n h \<le> LOGSIZE" "log_fits L h m (disksize s)"
    "\<And>x. x \<notin> log_blocks L n \<Longrightarrow> upds (from_log L h m D) D x = X x" using assms(2) unfolding recovers_def by blast
  let ?W = "recovery_writes L h m D" and ?E = "(upds (from_log L h m D) D)(L := put32 0 0 (D L))"
  let ?ws = "map (\<lambda>(x, v). (unat x, v)) ?W"
  from initlog_effect [OF assms(1,3,4) h(1-4)] obtain t where t: "initlog 1 s = Inr t" "cache t ?E ?E {} Map.empty"
    "dtrace t = dtrace s @ ?ws" by blast
  have "disk t (unat x) = X x" if "x \<notin> log_blocks L n" for x
    using cache_disk [OF t(2), of x] h(5) [OF that] that by (auto simp: log_blocks_def)
  moreover have "\<exists>u. initlog 1 (binit r) = Inr u \<and> (\<forall>x. x \<notin> log_blocks L n \<longrightarrow> disk u (unat x) = X x)"
    if r: "restarted s (take k ?ws) r" for k r
  proof (rule restart_recovers [OF r _ recovery_again [OF h(1-5)] assms(3)])
    show "upds (take k ?ws) (disk s) (unat x) = upds (take k ?W) D x" for x
      using upds_unat [of "take k ?W" "disk s" x] cache_disk [OF assms(1)] by (simp add: take_map)
    have "1 \<notin> fst ` set ?W"
      using log_fitsD(6) [OF h(4)] h(4) by (fastforce simp: recovery_writes_def from_log_def log_fits_def)
    then have "upds (take k ?W) D 1 = D 1" by (intro upds_other fst_take)
    then show "sb_logstart (sb_of (upds (take k ?W) D 1)) = L" using assms(4) by simp
  qed
  ultimately show ?thesis using t(1,3) by blast
qed

end
