(* ===== verification/Log_Trans.thy ===== *)
theory Log_Trans
  imports Log_Crash
begin

section \<open>Transactions\<close>

text \<open>
  The effects of \<^verbatim>\<open>begin_op\<close>, \<^verbatim>\<open>log_write\<close> and \<^verbatim>\<open>end_op\<close>, and what they guarantee together: operations
  interleave in the log, never overflow it while each stays within its reservation, and are all on the
  disk once the last of them has ended.
\<close>

subsection \<open>The operations\<close>

lemma cache_quiet: "quiet s t \<Longrightarrow> cache s C D P H \<Longrightarrow> cache t C D P H"
  using quiet_calm by (auto simp: cache_def quiet_eq)

lemma upd_log_acquired: "upd_log f (acquired l s) = acquired l (upd_log f s)"
  "upd_lh h (acquired l s) = acquired l (upd_lh h s)"
  by (simp_all add: upd_log_def upd_lh_def acquired_def pushcli_def upd_cpu_def cpu_of_def)

lemma same_core_log [simp]: "same_core s (upd_log f s)" "same_core s (upd_lh h s)"
  by (simp_all add: same_core_def upd_log_def upd_lh_def)

lemma begin_op_effect:
  assumes "calm s" "\<not> lg_committing (klog s)"
    and "lh_n (lg_lh (klog s)) + (lg_outstanding (klog s) + 1) * MAXOPBLOCKS \<le> LOGSIZE"
  shows "\<exists>t. begin_op s = Inr t \<and> quiet (upd_log (\<lambda>g. g\<lparr>lg_outstanding := lg_outstanding g + 1\<rparr>) s) t"
proof -
  let ?s = "upd_log (\<lambda>g. g\<lparr>lg_outstanding := lg_outstanding g + 1\<rparr>) s"
  have "begin_op_locked (acquired LogLock s) = Inr ((), acquired LogLock ?s)"
    using assms(2,3) by (simp add: begin_op_locked_def upd_log_acquired)
  from locked_update [where f = begin_op_locked, OF assms(1) this] show ?thesis by (auto simp: begin_op_def)
qed

lemma begin_op_waits:
  assumes "calm s" "lg_committing (klog s) \<or>
    LOGSIZE < lh_n (lg_lh (klog s)) + (lg_outstanding (klog s) + 1) * MAXOPBLOCKS"
  shows "begin_op s = Inl (Blocks ChanLog)"
proof -
  have "begin_op_locked (acquired LogLock s) = Inl (Blocks ChanLog)"
    using assms(2) by (auto simp: begin_op_locked_def Let_def)
  from locked_error [where f = begin_op_locked, OF assms(1) this] show ?thesis by (simp add: begin_op_def)
qed

text \<open>The header after a block number is entered: an entry already there is kept.\<close>

definition absorb :: "uint \<Rightarrow> logheader \<Rightarrow> logheader" where
  "absorb bn h = (let n = nat (lh_n h); i = log_slot n 0 (lh_block h) bn in
     h\<lparr>lh_block := (lh_block h)(i := sint bn), lh_n := (if int i = lh_n h then lh_n h + 1 else lh_n h)\<rparr>)"

lemma absorb_upd:
  "upd_lh (absorb bn) s = (let h = lg_lh (klog s); i = log_slot (nat (lh_n h)) 0 (lh_block h) bn;
     s = upd_lh (\<lambda>h. h\<lparr>lh_block := (lh_block h)(i := sint bn)\<rparr>) s
     in if int i = lh_n h then upd_lh (\<lambda>h. h\<lparr>lh_n := lh_n h + 1\<rparr>) s else s)"
  by (simp add: upd_lh_def upd_log_def absorb_def Let_def)

lemma log_write_effect:
  assumes c: "cache s C D P H" and b: "H b = Some bn" and room: "lh_n (lg_lh (klog s)) < LOGSIZE"
    "lh_n (lg_lh (klog s)) < lg_size (klog s) - 1" and op: "1 \<le> lg_outstanding (klog s)"
  shows "\<exists>t. log_write b s = Inr t \<and> cache t C D (insert bn P) H \<and> log_frame s t \<and>
     klog t = (klog s)\<lparr>lg_lh := absorb bn (lg_lh (klog s))\<rparr> \<and> dtrace t = dtrace s"
proof -
  let ?u = "upd_lh (absorb bn) s" and ?f = "\<lambda>r. r\<lparr>b_dirty := True\<rparr>"
  have calm: "calm s" using c by (simp add: cache_def)
  have bn: "b_blockno (bufs s b) = bn" using held_data [OF c b] by simp
  have "log_write_locked b (acquired LogLock s) = Inr ((), acquired LogLock (upd_buf b ?f ?u))"
    by (simp add: log_write_locked_def bn Let_def upd_log_acquired upd_buf_acquired absorb_upd)
  moreover have "same_core s (upd_buf b ?f ?u)" by (simp add: same_core_def upd_buf_def upd_lh_def upd_log_def)
  ultimately obtain t where t: "with_lock LogLock (log_write_locked b) s = Inr ((), t)" "quiet (upd_buf b ?f ?u) t"
    using locked_update [where f = "log_write_locked b", OF calm] by blast
  have "cache ?u C D P H" using c by simp
  from cache_quiet [OF t(2) pin_law [OF this b]] have "cache t C D (insert bn P) H" .
  moreover have "log_frame s t"
    using log_frame_trans [OF log_frame_upd(2) bio_log_frame [OF bio_frame_trans [OF bio_frame_upd_buf quiet_bio [OF t(2)]]]] .
  moreover have "klog t = (klog s)\<lparr>lg_lh := absorb bn (lg_lh (klog s))\<rparr>" "dtrace t = dtrace s"
    using quiet_eq [OF t(2)] by (simp_all add: upd_buf_def)
  moreover have "log_write b s = Inr t" using t(1) room op by (simp add: log_write_def Let_def)
  ultimately show ?thesis by blast
qed

lemma log_slot_spec:
  "i \<le> log_slot k i blk bn \<and> log_slot k i blk bn \<le> i + k \<and>
   (log_slot k i blk bn < i + k \<longrightarrow> of_int (blk (log_slot k i blk bn)) = bn)"
proof (induction k arbitrary: i)
  case (Suc k)
  from Suc [of "Suc i"] show ?case by auto
qed simp

lemma absorb_blocks:
  assumes n: "lh_n h = int n"
  shows "\<exists>m. lh_n (absorb bn h) = int m \<and> 0 < m \<and> m \<le> Suc n \<and> hblk (absorb bn h) ` {..<m} = insert bn (hblk h ` {..<n})"
proof -
  define i where "i = log_slot n 0 (lh_block h) bn"
  have i: "i \<le> n" "i < n \<Longrightarrow> hblk h i = bn" using log_slot_spec [of 0 n "lh_block h" bn] by (simp_all add: i_def hblk_def)
  have ab: "lh_n (absorb bn h) = (if i = n then int n + 1 else int n)" "hblk (absorb bn h) = (hblk h)(i := bn)"
    using n by (auto simp: absorb_def Let_def i_def hblk_def fun_eq_iff)
  show ?thesis
  proof (cases "i = n")
    case True
    have "(hblk h)(n := bn) ` {..<Suc n} = insert bn (hblk h ` {..<n})" by (auto simp: lessThan_Suc)
    then show ?thesis using ab True by (intro exI [of _ "Suc n"]) simp
  next
    case False
    then have "(hblk h)(i := bn) = hblk h" "bn \<in> hblk h ` {..<n}" using i by (auto simp: fun_upd_idem_iff)
    then show ?thesis using ab False i(1) by (intro exI [of _ n]) (auto simp: insert_absorb)
  qed
qed

lemma end_op_joins:
  assumes "calm s" "\<not> lg_committing (klog s)" "lg_outstanding (klog s) \<noteq> 1"
  shows "\<exists>t. end_op s = Inr t \<and> quiet (upd_log (\<lambda>g. g\<lparr>lg_outstanding := lg_outstanding g - 1\<rparr>) s) t"
proof -
  let ?s = "upd_log (\<lambda>g. g\<lparr>lg_outstanding := lg_outstanding g - 1\<rparr>) s"
  have "calm ?s" using assms(1) same_core_calm [OF same_core_log(1)] by blast
  from wakeup_locked [OF this, of LogLock "Some ChanLog"] obtain u where
    u: "wakeup (Some ChanLog) (acquired LogLock ?s) = Inr u" "quiet (acquired LogLock ?s) u" by auto
  have "end_op_locked (acquired LogLock s) = Inr (False, u)"
    using assms(2,3) u(1) by (simp add: end_op_locked_def upd_log_acquired Let_def)
  from locked_quiet [where f = end_op_locked, OF assms(1) this u(2)] show ?thesis by (auto simp: end_op_def)
qed

lemma end_op_commits:
  assumes "calm s" "\<not> lg_committing (klog s)" "lg_outstanding (klog s) = 1"
  shows "\<exists>u. quiet (upd_log (\<lambda>g. g\<lparr>lg_outstanding := 0, lg_committing := True\<rparr>) s) u \<and>
     (\<forall>v. commit u = Inr v \<longrightarrow> calm v \<longrightarrow> (\<exists>t. end_op s = Inr t \<and> quiet (upd_log (\<lambda>g. g\<lparr>lg_committing := False\<rparr>) v) t))"
proof -
  let ?s = "upd_log (\<lambda>g. g\<lparr>lg_outstanding := 0, lg_committing := True\<rparr>) s"
  have "end_op_locked (acquired LogLock s) = Inr (True, acquired LogLock ?s)"
    using assms(2,3) by (simp add: end_op_locked_def upd_log_acquired Let_def) (simp add: upd_log_def)
  from locked_update [where f = end_op_locked, OF assms(1) this] obtain u where
    u: "with_lock LogLock end_op_locked s = Inr (True, u)" "quiet ?s u" by auto
  have "\<exists>t. end_op s = Inr t \<and> quiet (upd_log (\<lambda>g. g\<lparr>lg_committing := False\<rparr>) v) t" if v: "commit u = Inr v" "calm v" for v
  proof -
    let ?v = "upd_log (\<lambda>g. g\<lparr>lg_committing := False\<rparr>) v"
    let ?f = "\<lambda>s. rbind (wakeup (Some ChanLog) (upd_log (\<lambda>g. g\<lparr>lg_committing := False\<rparr>) s)) (\<lambda>s. Inr ((), s))"
    have "calm ?v" using v(2) same_core_calm [OF same_core_log(1)] by blast
    from wakeup_locked [OF this, of LogLock "Some ChanLog"] obtain w where
      w: "wakeup (Some ChanLog) (acquired LogLock ?v) = Inr w" "quiet (acquired LogLock ?v) w" by auto
    have "?f (acquired LogLock v) = Inr ((), w)" using w(1) by (simp add: upd_log_acquired)
    from locked_quiet [where f = ?f, OF v(2) this w(2)] u(1) v(1) show ?thesis by (auto simp: end_op_def)
  qed
  with u(2) show ?thesis by blast
qed

subsection \<open>The log's invariant\<close>

text \<open>
  The log occupies the blocks \<open>L\<close> to \<open>L + 29\<close> (as \<^verbatim>\<open>mkfs\<close> lays it out); logged blocks lie elsewhere and are not
  the superblock.
\<close>

definition log_geom :: "uint \<Rightarrow> uint \<Rightarrow> bool" where
  "log_geom L z \<longleftrightarrow> 1 < unat L \<and> unat L + 30 \<le> unat z"

definition data_block :: "uint \<Rightarrow> uint \<Rightarrow> uint \<Rightarrow> bool" where
  "data_block L z x \<longleftrightarrow> x < z \<and> x \<noteq> 1 \<and> (unat x < unat L \<or> unat L + 30 \<le> unat x)"

lemma unat_lblk:
  assumes "log_geom L z" "Suc i < NBUF"
  shows "unat (lblk L i) = unat L + Suc i"
proof -
  have "unat L + Suc i < 2 ^ 32" using assms unsigned_less [where 'a = nat and w = z] by (simp add: log_geom_def NBUF_def)
  then have "unat (L + of_nat (Suc i)) = unat L + Suc i" using assms(2) by (simp add: unat_word_ariths(1) unat_of_nat NBUF_def)
  moreover have "lblk L i = L + of_nat (Suc i)" by (simp add: lblk_def)
  ultimately show ?thesis by simp
qed

lemma log_fitsI:
  assumes g: "log_geom L z" and n: "n < NBUF" and b: "\<And>i. i < n \<Longrightarrow> data_block L z (hblk h i)"
  shows "log_fits L h n z"
proof -
  have lb: "unat (lblk L i) = unat L + Suc i" if "i < n" for i using unat_lblk [OF g] that n by simp
  have z: "unat L + 30 \<le> unat z" "1 < unat L" using g by (simp_all add: log_geom_def)
  have "lblk L i < z \<and> lblk L i \<noteq> L \<and> lblk L i \<noteq> 1" if i: "i < n" for i
    using lb [OF i] z i n by (auto simp: word_less_nat_alt NBUF_def)
  moreover have "hblk h i < z \<and> hblk h i \<noteq> L \<and> hblk h i \<noteq> 1" if i: "i < n" for i
    using b [OF i] by (auto simp: data_block_def NBUF_def)
  moreover have "hblk h i \<noteq> lblk L j" if "i < n" "j < n" for i j
    using lb [OF that(2)] b [OF that(1)] n that(2) by (auto simp: data_block_def NBUF_def)
  moreover have "L < z" "L \<noteq> 1" using z by (auto simp: word_less_nat_alt NBUF_def)
  ultimately show ?thesis by (simp add: log_fits_def)
qed

text \<open>
  The state between the steps of the operations in progress; \<open>ws\<close> counts the blocks each has logged.
  Every operation has room for the rest of its ten blocks.
\<close>

definition log_inv :: "uint \<Rightarrow> (uint \<Rightarrow> block) \<Rightarrow> (uint \<Rightarrow> block) \<Rightarrow> nat list \<Rightarrow> kernel \<Rightarrow> bool" where
  "log_inv L C D ws s \<longleftrightarrow> (let g = klog s; h = lg_lh g in \<exists>n. lh_n h = int n \<and>
     cache s C D (hblk h ` {..<n}) Map.empty \<and> log_at s L \<and> log_geom L (disksize s) \<and>
     (\<forall>i<n. data_block L (disksize s) (hblk h i)) \<and> get32 (D L) 0 = 0 \<and> sb_logstart (sb_of (D 1)) = L \<and>
     lg_size g = LOGSIZE \<and> lg_outstanding g = int (length ws) \<and> \<not> lg_committing g \<and> (ws = [] \<longrightarrow> n = 0) \<and>
     (\<forall>w \<in> set ws. w < 10) \<and> n + (\<Sum>w\<leftarrow>ws. 10 - w) \<le> 30)"


lemma sum_reserved: "(\<Sum>w\<leftarrow>ws. 10 - w) \<le> 10 * length (ws :: nat list)"
  by (induction ws) auto

lemma sum_reserved_update:
  assumes "i < length ws" "ws ! i < (9 :: nat)"
  shows "(\<Sum>w\<leftarrow>ws[i := Suc (ws ! i)]. 10 - w) + 1 = (\<Sum>w\<leftarrow>ws. 10 - w)"
proof -
  have "(\<Sum>w\<leftarrow>ws. 10 - w) \<ge> 10 - ws ! i" using elem_le_sum_list [of i "map (\<lambda>w. 10 - w) ws"] assms(1) by simp
  moreover have "(\<Sum>w\<leftarrow>ws[i := Suc (ws ! i)]. 10 - w) = (\<Sum>w\<leftarrow>ws. 10 - w) + (10 - Suc (ws ! i)) - (10 - ws ! i)"
    using assms(1) by (simp add: map_update sum_list_update)
  ultimately show ?thesis using assms(2) by simp
qed

lemma sum_reserved_remove: "(\<Sum>w\<leftarrow>take i ws @ drop (Suc i) ws. 10 - w) \<le> (\<Sum>w\<leftarrow>(ws :: nat list). 10 - w)"
proof (cases "i < length ws")
  case True
  show ?thesis by (subst (3) id_take_nth_drop [OF True]) simp
qed simp

lemma log_inv_calm: "log_inv L C D ws s \<Longrightarrow> calm s"
  by (auto simp: log_inv_def cache_def Let_def)

text \<open>A step that keeps the log and the cache.\<close>

lemma log_inv_quiet: "quiet s t \<Longrightarrow> log_inv L C D ws s \<Longrightarrow> log_inv L C D ws t"
  using cache_quiet by (auto simp: log_inv_def Let_def log_at_def quiet_eq)

lemma begin_op_step:
  assumes i: "log_inv L C D ws s"
  shows "(\<exists>t. begin_op s = Inr t \<and> log_inv L C D (ws @ [0]) t \<and> disksize t = disksize s) \<or>
     begin_op s = Inl (Blocks ChanLog) \<and> ws \<noteq> []"
proof -
  let ?g = "klog s"
  have calm: "calm s" using log_inv_calm [OF i] .
  have nc: "\<not> lg_committing ?g" using i by (auto simp: log_inv_def Let_def)
  show ?thesis
  proof (cases "lh_n (lg_lh ?g) + (lg_outstanding ?g + 1) * MAXOPBLOCKS \<le> LOGSIZE")
    case True
    from begin_op_effect [OF calm nc True] obtain t where t: "begin_op s = Inr t"
      "quiet (upd_log (\<lambda>g. g\<lparr>lg_outstanding := lg_outstanding g + 1\<rparr>) s) t" by blast
    have "log_inv L C D (ws @ [0]) (upd_log (\<lambda>g. g\<lparr>lg_outstanding := lg_outstanding g + 1\<rparr>) s)"
      using i True sum_reserved [of ws] by (auto simp: log_inv_def Let_def log_at_def MAXOPBLOCKS_def LOGSIZE_def)
    with log_inv_quiet [OF t(2)] t(1) quiet_eq [OF t(2)] show ?thesis by auto
  next
    case False
    then have "ws \<noteq> []" using i by (auto simp: log_inv_def Let_def MAXOPBLOCKS_def LOGSIZE_def)
    with False show ?thesis using begin_op_waits [OF calm] by simp
  qed
qed

definition write_block :: "uint \<Rightarrow> block \<Rightarrow> kernel \<Rightarrow> kernel result" where
  "write_block x v s =
     rbind (bread 1 x s) (\<lambda>(b, s). rbind (log_write b (set_data b v s)) (brelse b))"

lemma write_block_step:
  assumes inv: "log_inv L C D ws s" and i: "i < length ws" "ws ! i < 9" and x: "data_block L (disksize s) x"
  shows "\<exists>t. write_block x v s = Inr t \<and> log_inv L (C(x := v)) D (ws[i := Suc (ws ! i)]) t \<and> disksize t = disksize s"
proof -
  define h where "h = lg_lh (klog s)"
  let ?P = "\<lambda>n. hblk h ` {..<n}"
  obtain n where n: "lh_n h = int n" "cache s C D (?P n) Map.empty" "log_at s L" "log_geom L (disksize s)"
    "\<forall>i<n. data_block L (disksize s) (hblk h i)" "get32 (D L) 0 = 0" "sb_logstart (sb_of (D 1)) = L"
    "lg_size (klog s) = LOGSIZE" "lg_outstanding (klog s) = int (length ws)" "\<not> lg_committing (klog s)"
    "\<forall>w \<in> set ws. w < 10" "n + (\<Sum>w\<leftarrow>ws. 10 - w) \<le> 30"
    using inv by (auto simp: log_inv_def Let_def h_def)
  have room: "n + (\<Sum>w\<leftarrow>ws[i := Suc (ws ! i)]. 10 - w) + 1 \<le> 30" using sum_reserved_update [OF i] n(12) by simp
  have w10: "10 - Suc (ws ! i) \<le> (\<Sum>w\<leftarrow>ws[i := Suc (ws ! i)]. 10 - w)"
    using elem_le_sum_list [of i "map (\<lambda>w. 10 - w) (ws[i := Suc (ws ! i)])"] i(1) by simp
  then have n28: "n \<le> 28" using room i(2) by simp
  have "card (?P n) < NBUF" using card_image_le [of "{..<n}" "hblk h"] n28 by (simp add: NBUF_def)
  with bc.rd_law [OF n(2), of x] x obtain b t where t: "bread 1 x s = Inr (b, t)"
    "cache t C D (?P n) (Map.empty(b \<mapsto> x))" "bio_frame s t" by (auto simp: data_block_def)
  from bc.put_law [OF t(2), of b x v] have p: "cache (set_data b v t) (C(x := v)) D (?P n) (Map.empty(b \<mapsto> x))"
    "bio_frame t (set_data b v t)" by simp_all
  note fr = bio_frame_trans [OF t(3) p(2)]
  have k: "klog (set_data b v t) = klog s" "disksize (set_data b v t) = disksize s" using bio_frame_eq(1,2) [OF fr] by simp_all
  have "lh_n (lg_lh (klog s)) < LOGSIZE" "lh_n (lg_lh (klog s)) < lg_size (klog s) - 1" "1 \<le> lg_outstanding (klog s)"
    using n(1,8,9) n28 i(1) by (auto simp: h_def LOGSIZE_def MAXOPBLOCKS_def)
  with log_write_effect [OF p(1), of b x] obtain u where u: "log_write b (set_data b v t) = Inr u"
    "cache u (C(x := v)) D (insert x (?P n)) (Map.empty(b \<mapsto> x))" "log_frame (set_data b v t) u"
    "klog u = (klog s)\<lparr>lg_lh := absorb x h\<rparr>" unfolding k by (auto simp: h_def)
  from bc.rel_law [OF u(2), of b x] obtain w where w: "brelse b u = Inr w"
    "cache w (C(x := v)) D (insert x (?P n)) Map.empty" "bio_frame u w" by auto
  have z: "disksize w = disksize s" using bio_frame_eq(1) [OF w(3)] log_frame_eq [OF u(3)] k by simp
  have kw: "klog w = (klog s)\<lparr>lg_lh := absorb x h\<rparr>" using bio_frame_eq(2) [OF w(3)] u(4) by simp
  obtain m where m: "lh_n (absorb x h) = int m" "m \<le> Suc n" "hblk (absorb x h) ` {..<m} = insert x (?P n)"
    using absorb_blocks [OF n(1)] by blast
  have d: "data_block L (disksize s) y" if "y \<in> insert x (?P n)" for y using that x n(5) by auto
  have "log_inv L (C(x := v)) D (ws[i := Suc (ws ! i)]) w"
    unfolding log_inv_def Let_def kw z
  proof (intro exI [of _ m] conjI)
    have "data_block L (disksize s) (hblk (absorb x h) j)" if "j < m" for j using d m(3) that by blast
    then show "\<forall>j<m. data_block L (disksize s) (hblk (lg_lh ((klog s)\<lparr>lg_lh := absorb x h\<rparr>)) j)" by simp
    show "cache w (C(x := v)) D (hblk (lg_lh ((klog s)\<lparr>lg_lh := absorb x h\<rparr>)) ` {..<m}) Map.empty"
      using w(2) m(3) by simp
    show "\<forall>w\<in>set (ws[i := Suc (ws ! i)]). w < 10"
      using n(11) i(2) set_update_subset_insert [of ws i] by fastforce
  qed (use m n i room kw in \<open>auto simp: log_at_def\<close>)
  moreover have "write_block x v s = Inr w" using t(1) u(1) w(1) by (simp add: write_block_def)
  ultimately show ?thesis using z by blast
qed


text \<open>The last operation commits what all have logged.\<close>

lemma commit_step:
  assumes n: "lh_n (lg_lh (klog s)) = int n" "cache s C D (hblk (lg_lh (klog s)) ` {..<n}) Map.empty" "log_at s L"
    "log_geom L (disksize s)" "\<forall>i<n. data_block L (disksize s) (hblk (lg_lh (klog s)) i)" "get32 (D L) 0 = 0" "n < NBUF"
  shows "\<exists>t E. commit s = Inr t \<and> cache t E E {} Map.empty \<and> log_frame s t \<and>
     klog t = (klog s)\<lparr>lg_lh := (lg_lh (klog s))\<lparr>lh_n := 0\<rparr>\<rparr> \<and> get32 (E L) 0 = 0 \<and>
     (\<forall>x. x = 1 \<or> data_block L (disksize s) x \<longrightarrow> E x = C x)"
proof (cases "n = 0")
  case True
  then have "C = D" using n(2) bc.clean_law [OF n(2)] by auto
  then show ?thesis using n True by (intro exI [of _ s] exI [of _ C]) (simp add: commit_def)
next
  case False
  let ?h = "lg_lh (klog s)" and ?P = "hblk (lg_lh (klog s)) ` {..<n}"
  let ?W = "commit_writes L ?h n C"
  have fits: "log_fits L ?h n (disksize s)" using log_fitsI [OF n(4,7)] n(5) by blast
  have card: "card ?P < NBUF" using card_image_le [of "{..<n}" "hblk ?h"] n(7) by simp
  have n32: "n < 2 ^ 32" using n(7) by (simp add: NBUF_def)
  from commit_effect [OF n(2,3) refl n(1) _ fits card n32] False obtain t where t: "commit s = Inr t"
    "cache t (upds ?W C) (upds ?W D) {} Map.empty" "log_frame s t" "klog t = (klog s)\<lparr>lg_lh := ?h\<lparr>lh_n := 0\<rparr>\<rparr>" by auto
  have "upds ?W C = upds ?W D" using bc.clean_law [OF t(2)] by auto
  with t(2) have "cache t (upds ?W C) (upds ?W C) {} Map.empty" by simp
  moreover have "get32 (upds ?W C L) 0 = 0" by (simp add: commit_writes_def head_block_0)
  moreover have "upds ?W C x = C x" if "x = 1 \<or> data_block L (disksize s) x" for x
  proof -
    have lb: "unat (lblk L i) = unat L + Suc i" if "i < n" for i using unat_lblk [OF n(4)] that n(7) by simp
    have "x \<notin> lblk L ` {..<n}" "x \<noteq> L"
      using that lb n(7) log_fitsD(7) [OF fits] n(4) by (auto simp: data_block_def log_geom_def NBUF_def)
    then show ?thesis
      using homes_at [of x ?h n C] homes_other [of x ?h n C] to_log_other [of x L n ?h C C]
      by (cases "x \<in> ?P") (simp_all add: commit_writes_def)
  qed
  ultimately show ?thesis using t(1,3,4) by blast
qed

lemma end_op_step:
  assumes inv: "log_inv L C D ws s" and i: "i < length ws"
  shows "\<exists>t C' D'. end_op s = Inr t \<and> log_inv L C' D' (take i ws @ drop (Suc i) ws) t \<and> disksize t = disksize s \<and>
     (\<forall>x. data_block L (disksize s) x \<longrightarrow> C' x = C x)"
proof -
  define h where "h = lg_lh (klog s)"
  let ?ws = "take i ws @ drop (Suc i) ws"
  obtain n where n: "lh_n h = int n" "cache s C D (hblk h ` {..<n}) Map.empty" "log_at s L" "log_geom L (disksize s)"
    "\<forall>i<n. data_block L (disksize s) (hblk h i)" "get32 (D L) 0 = 0" "sb_logstart (sb_of (D 1)) = L"
    "lg_size (klog s) = LOGSIZE" "lg_outstanding (klog s) = int (length ws)" "\<not> lg_committing (klog s)"
    "\<forall>w \<in> set ws. w < 10" "n + (\<Sum>w\<leftarrow>ws. 10 - w) \<le> 30"
    using inv by (auto simp: log_inv_def Let_def h_def)
  have len: "length ?ws = length ws - 1" using i by simp
  have w10: "\<forall>w \<in> set ?ws. w < 10" using n(11) by (auto dest: in_set_takeD in_set_dropD)
  have sum: "n + (\<Sum>w\<leftarrow>?ws. 10 - w) \<le> 30" using n(12) sum_reserved_remove [of i ws] by simp
  show ?thesis
  proof (cases "length ws = 1")
    case False
    with n(9) have "lg_outstanding (klog s) \<noteq> 1" by simp
    from end_op_joins [OF log_inv_calm [OF inv] n(10) this] obtain t where t: "end_op s = Inr t"
      "quiet (upd_log (\<lambda>g. g\<lparr>lg_outstanding := lg_outstanding g - 1\<rparr>) s) t" by blast
    have "length ?ws \<noteq> 0" unfolding len using False i by simp
    then have ne: "?ws \<noteq> []" by (metis list.size(3))
    have "log_inv L C D ?ws (upd_log (\<lambda>g. g\<lparr>lg_outstanding := lg_outstanding g - 1\<rparr>) s)"
      unfolding log_inv_def Let_def
      by (rule exI [of _ n]) (use n i ne w10 sum in \<open>auto simp: log_at_def h_def\<close>)
    from log_inv_quiet [OF t(2) this] quiet_eq [OF t(2)] t(1) show ?thesis by auto
  next
    case True
    with n(9) have "lg_outstanding (klog s) = 1" by simp
    from end_op_commits [OF log_inv_calm [OF inv] n(10) this] obtain u where
      u: "quiet (upd_log (\<lambda>g. g\<lparr>lg_outstanding := 0, lg_committing := True\<rparr>) s) u"
      "\<And>v. commit u = Inr v \<Longrightarrow> calm v \<Longrightarrow> \<exists>t. end_op s = Inr t \<and> quiet (upd_log (\<lambda>g. g\<lparr>lg_committing := False\<rparr>) v) t"
      by blast
    have ku: "klog u = (klog s)\<lparr>lg_outstanding := 0, lg_committing := True\<rparr>" "disksize u = disksize s"
      using quiet_eq [OF u(1)] by simp_all
    have cu: "cache u C D (hblk h ` {..<n}) Map.empty" using cache_quiet [OF u(1)] n(2) by simp
    have "10 - ws ! i \<le> (\<Sum>w\<leftarrow>ws. 10 - w)" using elem_le_sum_list [of i "map (\<lambda>w. 10 - w) ws"] i by simp
    moreover have "ws ! i < 10" using n(11) i by simp
    ultimately have nb: "n < NBUF" using n(12) by (simp add: NBUF_def)
    have hu: "lg_lh (klog u) = h" by (simp add: ku(1) h_def)
    have "log_at u L" using n(3) ku by (simp add: log_at_def)
    with commit_step [of u n C D L, unfolded hu ku(2)] n cu nb obtain v E where v: "commit u = Inr v" "cache v E E {} Map.empty"
      "log_frame u v" "klog v = (klog u)\<lparr>lg_lh := h\<lparr>lh_n := 0\<rparr>\<rparr>" "get32 (E L) 0 = 0"
      "\<And>x. x = 1 \<or> data_block L (disksize s) x \<Longrightarrow> E x = C x" by blast
    have calm: "calm v" using v(2) by (simp add: cache_def)
    from u(2) [OF v(1) calm] obtain t where t: "end_op s = Inr t" "quiet (upd_log (\<lambda>g. g\<lparr>lg_committing := False\<rparr>) v) t" by blast
    have z: "disksize v = disksize s" using log_frame_eq [OF v(3)] ku by simp
    have ws: "?ws = []" using True i by simp
    have "C 1 = D 1"
    proof (rule bc.clean_law [OF n(2)])
      show "1 \<notin> hblk h ` {..<n}" using n(5) by (force simp: data_block_def)
    qed simp
    then have "sb_logstart (sb_of (E 1)) = L" using v(6) [of 1] n(7) by simp
    then have "log_inv L E E ?ws (upd_log (\<lambda>g. g\<lparr>lg_committing := False\<rparr>) v)"
      unfolding log_inv_def Let_def ws
      by (intro exI [of _ 0]) (use v n(3,4,8) ku z in \<open>simp add: log_at_def\<close>)
    from log_inv_quiet [OF t(2) this] quiet_eq [OF t(2)] t(1) v(6) z show ?thesis by auto
  qed
qed


subsection \<open>Interleaved operations\<close>

text \<open>
  Operations interleave at the granularity of the calls they make: each begins, writes blocks through
  the log, and ends. The operations in progress are numbered.
\<close>

datatype log_action = OpBegin | OpWrite nat uint block | OpEnd nat

fun log_act :: "log_action \<Rightarrow> kernel \<times> nat list \<Rightarrow> (kernel \<times> nat list) result" where
  "log_act OpBegin (s, ws) = rbind (begin_op s) (\<lambda>s. Inr (s, ws @ [0]))"
| "log_act (OpWrite i x v) (s, ws) = rbind (write_block x v s) (\<lambda>s. Inr (s, ws[i := Suc (ws ! i)]))"
| "log_act (OpEnd i) (s, ws) = rbind (end_op s) (\<lambda>s. Inr (s, take i ws @ drop (Suc i) ws))"

text \<open>Only operations in progress write, to blocks outside the log, at most nine blocks each. Two operations
  overlap when one begins before the other has ended.\<close>

fun acts_ok :: "uint \<Rightarrow> uint \<Rightarrow> nat list \<Rightarrow> log_action list \<Rightarrow> bool" where
  "acts_ok L z ws [] = True"
| "acts_ok L z ws (OpBegin # as) = acts_ok L z (ws @ [0]) as"
| "acts_ok L z ws (OpWrite i x v # as) = (i < length ws \<and> ws ! i < 9 \<and> data_block L z x \<and> acts_ok L z (ws[i := Suc (ws ! i)]) as)"
| "acts_ok L z ws (OpEnd i # as) = (i < length ws \<and> acts_ok L z (take i ws @ drop (Suc i) ws) as)"

fun overlap :: "nat list \<Rightarrow> log_action list \<Rightarrow> bool" where
  "overlap ws [] = False"
| "overlap ws (OpBegin # as) = (ws \<noteq> [] \<or> overlap (ws @ [0]) as)"
| "overlap ws (OpWrite i x v # as) = overlap (ws[i := Suc (ws ! i)]) as"
| "overlap ws (OpEnd i # as) = overlap (take i ws @ drop (Suc i) ws) as"

fun progress :: "nat list \<Rightarrow> log_action list \<Rightarrow> nat list" where
  "progress ws [] = ws"
| "progress ws (OpBegin # as) = progress (ws @ [0]) as"
| "progress ws (OpWrite i x v # as) = progress (ws[i := Suc (ws ! i)]) as"
| "progress ws (OpEnd i # as) = progress (take i ws @ drop (Suc i) ws) as"

definition acts_writes :: "log_action list \<Rightarrow> (uint \<times> block) list" where
  "acts_writes as = concat (map (\<lambda>a. case a of OpWrite i x v \<Rightarrow> [(x, v)] | _ \<Rightarrow> []) as)"

lemma upds_cong: "(\<And>x. Q x \<Longrightarrow> m x = m' x) \<Longrightarrow> Q x \<Longrightarrow> upds ps m x = upds ps m' x"
proof (induction ps arbitrary: m m')
  case (Cons p ps)
  obtain y v where p: "p = (y, v)" by (cases p)
  have "(m(y := v)) z = (m'(y := v)) z" if "Q z" for z using Cons.prems(1) [OF that] by simp
  then show ?case unfolding p upds_Cons using Cons.prems(2) by (rule Cons.IH)
qed simp

lemma acts_writes_simps [simp]:
  "acts_writes [] = []" "acts_writes (OpBegin # as) = acts_writes as" "acts_writes (OpEnd i # as) = acts_writes as"
  "acts_writes (OpWrite i x v # as) = (x, v) # acts_writes as"
  by (simp_all add: acts_writes_def)

text \<open>The contents outside the log at the end of a run.\<close>

definition log_state :: "uint \<Rightarrow> uint \<Rightarrow> (uint \<Rightarrow> block) \<Rightarrow> kernel \<Rightarrow> nat list \<Rightarrow> bool" where
  "log_state L z E t vs \<longleftrightarrow> (\<exists>C D. log_inv L C D vs t \<and> disksize t = z \<and> (\<forall>x. data_block L z x \<longrightarrow> C x = E x))"

lemma log_state_cong: "log_state L z E t vs \<Longrightarrow> (\<And>x. data_block L z x \<Longrightarrow> E x = E' x) \<Longrightarrow> log_state L z E' t vs"
  unfolding log_state_def by metis

lemma acts_run:
  assumes "log_inv L C D ws s" "acts_ok L (disksize s) ws as"
  shows "(\<exists>t. rfold log_act as (s, ws) = Inr (t, progress ws as) \<and>
       log_state L (disksize s) (upds (acts_writes as) C) t (progress ws as)) \<or>
    rfold log_act as (s, ws) = Inl (Blocks ChanLog) \<and> overlap ws as"
  using assms
proof (induction as arbitrary: s ws C D)
  case Nil
  then show ?case by (auto simp: log_state_def)
next
  case (Cons a as)
  show ?case
  proof (cases a)
    case OpBegin
    from begin_op_step [OF Cons.prems(1)] show ?thesis
    proof
      assume "\<exists>t. begin_op s = Inr t \<and> log_inv L C D (ws @ [0]) t \<and> disksize t = disksize s"
      then obtain t where t: "begin_op s = Inr t" "log_inv L C D (ws @ [0]) t" "disksize t = disksize s" by blast
      have eq: "rfold log_act (a # as) (s, ws) = rfold log_act as (t, ws @ [0])" "acts_writes (a # as) = acts_writes as"
        "progress ws (a # as) = progress (ws @ [0]) as" using OpBegin t(1) by simp_all
      have "acts_ok L (disksize s) (ws @ [0]) as" "overlap (ws @ [0]) as \<Longrightarrow> overlap ws (a # as)"
        using Cons.prems(2) OpBegin by simp_all
      with Cons.IH [OF t(2), unfolded t(3)] show ?thesis unfolding eq by blast
    qed (simp add: OpBegin)
  next
    case (OpWrite i x v)
    with Cons.prems have "i < length ws" "ws ! i < 9" "data_block L (disksize s) x" by simp_all
    from write_block_step [OF Cons.prems(1) this, of v] obtain t where t: "write_block x v s = Inr t"
      "log_inv L (C(x := v)) D (ws[i := Suc (ws ! i)]) t" "disksize t = disksize s" by blast
    have eq: "rfold log_act (a # as) (s, ws) = rfold log_act as (t, ws[i := Suc (ws ! i)])"
      "acts_writes (a # as) = (x, v) # acts_writes as" "overlap ws (a # as) = overlap (ws[i := Suc (ws ! i)]) as"
      "progress ws (a # as) = progress (ws[i := Suc (ws ! i)]) as" using OpWrite t(1) by simp_all
    have "acts_ok L (disksize s) (ws[i := Suc (ws ! i)]) as" using Cons.prems(2) OpWrite by simp
    from Cons.IH [OF t(2), unfolded t(3), OF this] show ?thesis unfolding eq upds_Cons .
  next
    case (OpEnd i)
    with Cons.prems have "i < length ws" by simp
    from end_op_step [OF Cons.prems(1) this] obtain t C' D' where t: "end_op s = Inr t"
      "log_inv L C' D' (take i ws @ drop (Suc i) ws) t" "disksize t = disksize s"
      "\<forall>x. data_block L (disksize s) x \<longrightarrow> C' x = C x" by blast
    have "upds ps C' x = upds ps C x" if "data_block L (disksize s) x" for x ps
      using upds_cong [of "data_block L (disksize s)" C' C x ps] t(4) that by blast
    then have "log_state L (disksize s) (upds (acts_writes as) C) u vs"
      if "log_state L (disksize s) (upds (acts_writes as) C') u vs" for u vs
      using log_state_cong [OF that] by blast
    moreover have "rfold log_act (a # as) (s, ws) = rfold log_act as (t, take i ws @ drop (Suc i) ws)"
      "acts_writes (a # as) = acts_writes as" "overlap ws (a # as) = overlap (take i ws @ drop (Suc i) ws) as"
      "progress ws (a # as) = progress (take i ws @ drop (Suc i) ws) as" using OpEnd t(1) by simp_all
    moreover have "acts_ok L (disksize s) (take i ws @ drop (Suc i) ws) as" using Cons.prems(2) OpEnd by simp
    ultimately show ?thesis using Cons.IH [OF t(2), unfolded t(3)] by metis
  qed
qed

text \<open>
  C3. Operations and the log (\<^verbatim>\<open>begin_op\<close>, \<^verbatim>\<open>log_write\<close>, \<^verbatim>\<open>end_op\<close>): however operations that log at most nine
  blocks each interleave, no call panics, and a call waits only in \<^verbatim>\<open>begin_op\<close> while another operation is in
  progress. When all operations have ended, the disk holds all their writes, in order, outside the log.
\<close>

theorem log_group_commit:
  assumes "log_inv L C D [] s" "acts_ok L (disksize s) [] as"
  shows "(\<exists>t. rfold log_act as (s, []) = Inr (t, progress [] as) \<and> (progress [] as = [] \<longrightarrow>
       (\<forall>x. data_block L (disksize s) x \<longrightarrow> disk t (unat x) = upds (acts_writes as) (\<lambda>y. disk s (unat y)) x))) \<or>
     rfold log_act as (s, []) = Inl (Blocks ChanLog) \<and> overlap [] as"
proof -
  let ?vs = "progress [] as"
  have idle: "E x = disk t (unat x)" if "log_inv L E F [] t" for E F t x
  proof -
    have c: "cache t E F {} Map.empty" using that by (auto simp: log_inv_def Let_def)
    show ?thesis using bc.clean_law [OF c] cache_disk [OF c] by simp
  qed
  have C: "C = (\<lambda>y. disk s (unat y))" by (rule ext) (rule idle [OF assms(1)])
  from acts_run [OF assms] show ?thesis
  proof
    assume "\<exists>t. rfold log_act as (s, []) = Inr (t, ?vs) \<and> log_state L (disksize s) (upds (acts_writes as) C) t ?vs"
    then obtain t E F where t: "rfold log_act as (s, []) = Inr (t, ?vs)" "log_inv L E F ?vs t"
      "\<forall>x. data_block L (disksize s) x \<longrightarrow> E x = upds (acts_writes as) C x" by (auto simp: log_state_def)
    have "disk t (unat x) = upds (acts_writes as) (\<lambda>y. disk s (unat y)) x" if "?vs = []" "data_block L (disksize s) x" for x
    proof -
      have "log_inv L E F [] t" using t(2) that(1) by simp
      from idle [OF this, of x] t(3) [rule_format, OF that(2)] show ?thesis unfolding C by simp
    qed
    then show ?thesis using t(1) by (intro disjI1 exI [of _ t]) simp
  qed (rule disjI2)
qed


subsection \<open>The log after booting\<close>

text \<open>\<^verbatim>\<open>initlog\<close> establishes the invariant.\<close>

lemma initlog_inv:
  assumes c: "cache s D D {} Map.empty" and sb: "sb_logstart (sb_of (D 1)) = L" "sb_nlog (sb_of (D 1)) = 30"
    and geom: "log_geom L (disksize s)" and h: "head_of (D L) h" "nat (lh_n h) = n" "n < NBUF"
    and blocks: "\<And>i. i < n \<Longrightarrow> data_block L (disksize s) (hblk h i)"
    and idle: "lg_outstanding (klog s) = 0" "\<not> lg_committing (klog s)"
  defines "E \<equiv> (upds (from_log L h n D) D)(L := put32 0 0 (D L))"
  shows "\<exists>t. initlog 1 s = Inr t \<and> log_inv L E E [] t \<and> disksize t = disksize s"
proof -
  have z: "1 < disksize s" using geom by (simp add: log_geom_def word_less_nat_alt)
  have lim: "lh_n h \<le> LOGSIZE" using h(2,3) by (simp add: NBUF_def LOGSIZE_def MAXOPBLOCKS_def)
  note fits = log_fitsI [OF geom h(3) blocks]
  from initlog_effect [OF c z sb(1) h(1,2) lim fits] obtain t h' where t: "initlog 1 s = Inr t"
    "cache t E E {} Map.empty" "lh_n h' = 0" "disksize t = disksize s"
    "klog t = (klog s)\<lparr>lg_start := sint L, lg_size := sint (sb_nlog (sb_of (D 1))), lg_dev := 1, lg_lh := h'\<rparr>"
    unfolding E_def by blast
  have "1 \<notin> fst ` set (from_log L h n D)" using log_fitsD(6) [OF fits] by (force simp: from_log_def)
  then have "E 1 = D 1" using log_fitsD(3) [OF fits] geom by (auto simp: E_def upds_other log_geom_def)
  moreover have "get32 (E L) 0 = 0" by (simp add: E_def)
  moreover have "log_at t L" by (simp add: log_at_def t(5))
  ultimately have "log_inv L E E [] t" using t geom idle sb
    by (simp add: log_inv_def Let_def LOGSIZE_def MAXOPBLOCKS_def)
  with t(1,4) show ?thesis by blast
qed

text \<open>A disk with a superblock as \<^verbatim>\<open>mkfs\<close> writes it and an empty log.\<close>

definition demo_sb :: block where
  "demo_sb = put32 24 58 (put32 20 32 (put32 16 2 (put32 12 30 (put32 8 200 (put32 4 1941 (put32 0 2000 (\<lambda>_. 0)))))))"

definition demo_fs :: kernel where
  "demo_fs = binit (demo\<lparr>disk := (\<lambda>_ _. 0)(1 := demo_sb), disksize := 2000\<rparr>)"

abbreviation demo_D :: "uint \<Rightarrow> block" where
  "demo_D \<equiv> \<lambda>x. ((\<lambda>_ _. 0)(1 := demo_sb)) (unat x)"

lemma demo_fs_cache: "cache demo_fs demo_D demo_D {} Map.empty" "disksize demo_fs = 2000"
  "lg_outstanding (klog demo_fs) = 0" "\<not> lg_committing (klog demo_fs)"
proof -
  let ?s = "demo\<lparr>disk := (\<lambda>_ _. 0)(1 := demo_sb), disksize := 2000\<rparr>"
  have "calm ?s" using calm_demo same_core_calm [of demo ?s] by (simp add: same_core_def)
  moreover have "\<not> b_busy (bufs ?s b) \<and> \<not> b_valid (bufs ?s b) \<and> \<not> b_dirty (bufs ?s b)" for b
    by (simp add: demo_def table_def bss_def)
  ultimately have b: "cache (binit ?s) (\<lambda>bn. disk ?s (unat bn)) (\<lambda>bn. disk ?s (unat bn)) {} Map.empty"
    "disksize (binit ?s) = disksize ?s" "klog (binit ?s) = klog ?s" using binit_cache [of ?s] by blast+
  show "cache demo_fs demo_D demo_D {} Map.empty" using b(1) by (simp add: demo_fs_def del: fun_upd_apply)
  show "disksize demo_fs = 2000" "lg_outstanding (klog demo_fs) = 0" "\<not> lg_committing (klog demo_fs)"
    using b(2,3) by (simp_all add: demo_fs_def demo_def table_def bss_def)
qed

lemma demo_sb_of: "sb_logstart (sb_of (demo_D 1)) = 2" "sb_nlog (sb_of (demo_D 1)) = 30"
  by (simp_all add: sb_of_def demo_sb_def get_put_apart)

lemma demo_head: "get32 (demo_D 2) 0 = 0" "demo_D 100 = (\<lambda>_. 0)"
  by (simp_all add: get32_def)

lemma demo_geom: "log_geom 2 2000" "data_block 2 2000 100"
  by (simp_all add: log_geom_def data_block_def)

lemma demo_booted: "\<exists>s E. initlog 1 demo_fs = Inr s \<and> log_inv 2 E E [] s \<and> disksize s = 2000 \<and> E 100 = (\<lambda>_. 0)"
proof -
  let ?h = "\<lparr>lh_n = 0, lh_block = \<lambda>_. 0\<rparr>"
  have h: "head_of (demo_D 2) ?h" "nat (lh_n ?h) = 0" using demo_head(1) by (simp_all add: head_of_def)
  from initlog_inv [OF demo_fs_cache(1) demo_sb_of _ h _ _ demo_fs_cache(3,4)] demo_geom(1) demo_fs_cache(2)
  show ?thesis by (fastforce simp: NBUF_def from_log_def)
qed

theorem log_group_commit_witness:
  "\<exists>s t. initlog 1 demo_fs = Inr s \<and>
     rfold log_act [OpBegin, OpWrite 0 100 (\<lambda>_. 7), OpEnd 0] (s, []) = Inr (t, []) \<and> disk t 100 = (\<lambda>_. 7)"
proof -
  let ?as = "[OpBegin, OpWrite 0 100 (\<lambda>_. 7), OpEnd 0]"
  obtain s E where s: "initlog 1 demo_fs = Inr s" "log_inv 2 E E [] s" "disksize s = 2000" using demo_booted by blast
  have ok: "acts_ok 2 (disksize s) [] ?as" "\<not> overlap [] ?as" "progress [] ?as = []"
    using demo_geom(2) by (simp_all add: s(3))
  have d: "data_block 2 (disksize s) 100" using demo_geom(2) by (simp add: s(3))
  from log_group_commit [OF s(2) ok(1)] ok(2,3) d obtain t where "rfold log_act ?as (s, []) = Inr (t, [])"
    "disk t (unat (100 :: uint)) = upds (acts_writes ?as) (\<lambda>y. disk s (unat y)) 100" by (auto simp del: acts_writes_simps)
  with s(1) show ?thesis by (intro exI [of _ s] exI [of _ t]) simp
qed

text \<open>A state with a transaction to commit.\<close>

lemma log_inv_ready:
  assumes "log_inv L C D ws s" "C \<noteq> D" "ws \<noteq> []"
  shows "\<exists>n. commit_ready s L n C D"
proof -
  obtain n where n: "lh_n (lg_lh (klog s)) = int n" "cache s C D (hblk (lg_lh (klog s)) ` {..<n}) Map.empty" "log_at s L"
    "log_geom L (disksize s)" "\<forall>i<n. data_block L (disksize s) (hblk (lg_lh (klog s)) i)" "get32 (D L) 0 = 0"
    "sb_logstart (sb_of (D 1)) = L" "\<forall>w \<in> set ws. w < 10" "n + (\<Sum>w\<leftarrow>ws. 10 - w) \<le> 30"
    using assms(1) by (auto simp: log_inv_def Let_def)
  have "0 < n" using assms(2) bc.clean_law [OF n(2)] by (cases n) auto
  moreover have "n < NBUF" using n(8,9) assms(3) by (cases ws) (auto simp: NBUF_def)
  moreover have "1 < disksize s" using n(4) by (simp add: log_geom_def word_less_nat_alt)
  ultimately show ?thesis using n log_fitsI [OF n(4)] by (auto simp: commit_ready_def Let_def)
qed

lemma demo_ready: "\<exists>s n C D. commit_ready s 2 n C D \<and> C 100 = (\<lambda>_. 7) \<and> D 100 = (\<lambda>_. 0)"
proof -
  obtain s E where s: "log_inv 2 E E [] s" "disksize s = 2000" "E 100 = (\<lambda>_. 0)" using demo_booted by blast
  from begin_op_step [OF s(1)] obtain t where t: "log_inv 2 E E [0] t" "disksize t = 2000" using s(2) by auto
  from write_block_step [OF t(1), of 0 100 "\<lambda>_. 7"] t(2) demo_geom(2) obtain u where
    u: "log_inv 2 (E(100 := \<lambda>_. 7)) E [Suc 0] u" by auto
  have "(E(100 := \<lambda>_. 7)) 100 \<noteq> E 100" using s(3) by (simp add: fun_eq_iff)
  then have "E(100 := \<lambda>_. 7) \<noteq> E" by metis
  with log_inv_ready [OF u] s(3) show ?thesis by fastforce
qed

lemma not_log_block:
  assumes "log_geom L z" "data_block L z x" "n < NBUF"
  shows "x \<notin> log_blocks L n"
proof -
  have "x \<noteq> lblk L i" if "i < n" for i
    using unat_lblk [OF assms(1), of i] that assms(2,3) by (auto simp: data_block_def NBUF_def)
  moreover have "x \<noteq> L" using assms(2) by (auto simp: data_block_def)
  ultimately show ?thesis by (auto simp: log_blocks_def)
qed

theorem log_crash_atomic_witness:
  "\<exists>s t ws. commit s = Inr t \<and> dtrace t = dtrace s @ ws \<and> disk t 100 = (\<lambda>_. 7) \<and>
     (\<forall>k r. restarted s (take k ws) r \<longrightarrow>
        (\<exists>u. initlog 1 (binit r) = Inr u \<and> (disk u 100 = (\<lambda>_. 0) \<or> disk u 100 = (\<lambda>_. 7))))"
proof -
  obtain s n C D where s: "commit_ready s 2 n C D" "C 100 = (\<lambda>_. 7)" "D 100 = (\<lambda>_. 0)" using demo_ready by blast
  then have "n < NBUF" by (simp add: commit_ready_def Let_def)
  from not_log_block [OF demo_geom this] have x: "100 \<notin> log_blocks 2 n" .
  from log_crash_atomic [OF s(1)] obtain t ws where t: "commit s = Inr t" "dtrace t = dtrace s @ ws"
    "\<forall>x. x \<notin> log_blocks 2 n \<longrightarrow> disk t (unat x) = C x"
    "\<forall>k r. restarted s (take k ws) r \<longrightarrow> (\<exists>u. initlog 1 (binit r) = Inr u \<and>
        (\<forall>x. x \<notin> log_blocks 2 n \<longrightarrow> disk u (unat x) = (if k \<le> n then D x else C x)))"
    by blast
  have "\<forall>k r. restarted s (take k ws) r \<longrightarrow>
      (\<exists>u. initlog 1 (binit r) = Inr u \<and> (disk u 100 = (\<lambda>_. 0) \<or> disk u 100 = (\<lambda>_. 7)))"
  proof (intro allI impI)
    fix k r assume that: "restarted s (take k ws) r"
    from t(4) [rule_format, OF that] x obtain u where "initlog 1 (binit r) = Inr u"
      "disk u (unat (100 :: uint)) = (if k \<le> n then D 100 else C 100)" by blast
    then have "disk u 100 = (if k \<le> n then (\<lambda>_. 0) else (\<lambda>_. 7))" "initlog 1 (binit r) = Inr u" using s(2,3) by simp_all
    then show "\<exists>u. initlog 1 (binit r) = Inr u \<and> (disk u 100 = (\<lambda>_. 0) \<or> disk u 100 = (\<lambda>_. 7))" by (cases "k \<le> n") auto
  qed
  moreover have "disk t 100 = (\<lambda>_. 7)" using t(3) [rule_format, OF x] s(2) by simp
  ultimately show ?thesis using t(1,2) by - (rule exI [of _ s], rule exI [of _ t], rule exI [of _ ws], (intro conjI; assumption))
qed

theorem log_recovery_idempotent_witness:
  "\<exists>t ws. initlog 1 demo_fs = Inr t \<and> dtrace t = dtrace demo_fs @ ws \<and> disk t 100 = (\<lambda>_. 0) \<and>
     (\<forall>k r. restarted demo_fs (take k ws) r \<longrightarrow> (\<exists>u. initlog 1 (binit r) = Inr u \<and> disk u 100 = (\<lambda>_. 0)))"
proof -
  have x: "100 \<notin> log_blocks 2 0" by (simp add: log_blocks_def)
  have "recovers 2 0 (disksize demo_fs) demo_D demo_D"
    by (rule recovers_empty [where D = demo_D, OF demo_head(1)]) (simp_all add: demo_fs_cache(2))
  from log_recovery_idempotent [OF demo_fs_cache(1) this _ demo_sb_of(1)] demo_fs_cache(2) have
    "\<exists>t ws. initlog 1 demo_fs = Inr t \<and> dtrace t = dtrace demo_fs @ ws \<and>
       (\<forall>x. x \<notin> log_blocks 2 0 \<longrightarrow> disk t (unat x) = demo_D x) \<and> (\<forall>k r. restarted demo_fs (take k ws) r \<longrightarrow>
          (\<exists>u. initlog 1 (binit r) = Inr u \<and> (\<forall>x. x \<notin> log_blocks 2 0 \<longrightarrow> disk u (unat x) = demo_D x)))" by simp
  then obtain t ws where t: "initlog 1 demo_fs = Inr t" "dtrace t = dtrace demo_fs @ ws"
    "\<forall>x. x \<notin> log_blocks 2 0 \<longrightarrow> disk t (unat x) = demo_D x"
    "\<forall>k r. restarted demo_fs (take k ws) r \<longrightarrow>
       (\<exists>u. initlog 1 (binit r) = Inr u \<and> (\<forall>x. x \<notin> log_blocks 2 0 \<longrightarrow> disk u (unat x) = demo_D x))"
    by blast
  have "\<forall>k r. restarted demo_fs (take k ws) r \<longrightarrow> (\<exists>u. initlog 1 (binit r) = Inr u \<and> disk u 100 = (\<lambda>_. 0))"
  proof (intro allI impI)
    fix k r assume that: "restarted demo_fs (take k ws) r"
    from t(4) [rule_format, OF that] obtain u where u: "initlog 1 (binit r) = Inr u"
      "\<forall>x. x \<notin> log_blocks 2 0 \<longrightarrow> disk u (unat x) = demo_D x" by blast
    from u(2) [rule_format, OF x] u(1) show "\<exists>u. initlog 1 (binit r) = Inr u \<and> disk u 100 = (\<lambda>_. 0)" by simp
  qed
  moreover have "disk t 100 = (\<lambda>_. 0)" using t(3) [rule_format, OF x] by simp
  ultimately show ?thesis using t(1,2) by - (rule exI [of _ t], rule exI [of _ ws], (intro conjI; assumption))
qed

end
