(* ===== verification/Kalloc.thy ===== *)
theory Kalloc
  imports Cstring Spinlock
begin

section \<open>The physical page allocator (kalloc.c)\<close>

text \<open>
  The free list is threaded through the free pages themselves: the first word of a free page
  is the address of the next one. The operations work on the byte memory; the representation
  predicate follows the words in it.
\<close>

subsection \<open>mmu.h, memlayout.h\<close>

definition PGSIZE :: uint where "PGSIZE = 4096"
definition KERNBASE :: uint where "KERNBASE = 0x80000000"
definition PHYSTOP :: uint where "PHYSTOP = 0xE000000"

definition v2p :: "uint \<Rightarrow> uint" where "v2p a = a - KERNBASE"
definition p2v :: "uint \<Rightarrow> uint" where "p2v a = a + KERNBASE"

definition PGROUNDUP :: "uint \<Rightarrow> uint" where
  "PGROUNDUP sz = (sz + PGSIZE - 1) AND NOT (PGSIZE - 1)"

definition PGROUNDDOWN :: "uint \<Rightarrow> uint" where
  "PGROUNDDOWN a = a AND NOT (PGSIZE - 1)"

subsection \<open>kalloc.c\<close>

definition load32 :: "memory \<Rightarrow> uint \<Rightarrow> uint" where
  "load32 m a = ucast (m a) OR push_bit 8 (ucast (m (a + 1))) OR push_bit 16 (ucast (m (a + 2)))
     OR push_bit 24 (ucast (m (a + 3)))"

text \<open>\<^verbatim>\<open>if(kmem.use_lock) acquire(&kmem.lock); \<dots> if(kmem.use_lock) release(&kmem.lock);\<close>\<close>

definition with_kmem :: "(kernel \<Rightarrow> ('r \<times> kernel) result) \<Rightarrow> kernel \<Rightarrow> ('r \<times> kernel) result" where
  "with_kmem f s = (if use_lock s then with_lock KmemLock f s else f s)"

definition kfree_push :: "uint \<Rightarrow> kernel \<Rightarrow> (unit \<times> kernel) result" where
  "kfree_push v s = Inr ((), s\<lparr>mem := store32 v (freelist s) (mem s), freelist := v\<rparr>)"

definition kfree :: "uint \<Rightarrow> kernel \<Rightarrow> kernel result" where
  "kfree v s =
     (if v mod PGSIZE \<noteq> 0 \<or> v < kend s \<or> v2p v \<ge> PHYSTOP then Inl (Panic ''kfree'')
      else rbind (with_kmem (kfree_push v) (s\<lparr>mem := memset v 1 PGSIZE (mem s)\<rparr>)) (\<lambda>(_, s). Inr s))"

definition kalloc_pop :: "kernel \<Rightarrow> (uint \<times> kernel) result" where
  "kalloc_pop s =
     (let r = freelist s in
      if r \<noteq> 0 then Inr (r, s\<lparr>freelist := load32 (mem s) r\<rparr>) else Inr (r, s))"

definition kalloc :: "kernel \<Rightarrow> (uint \<times> kernel) result" where
  "kalloc s = with_kmem kalloc_pop s"

text \<open>The loop of \<^verbatim>\<open>freerange\<close>; there are \<open>2 ^ 20\<close> pages, which bounds its turns.\<close>

fun freerange_loop :: "nat \<Rightarrow> uint \<Rightarrow> uint \<Rightarrow> kernel \<Rightarrow> kernel result" where
  "freerange_loop 0 p vend s = Inl Diverges"
| "freerange_loop (Suc n) p vend s =
     (if p + PGSIZE \<le> vend then rbind (kfree p s) (freerange_loop n (p + PGSIZE) vend) else Inr s)"

definition freerange :: "uint \<Rightarrow> uint \<Rightarrow> kernel \<Rightarrow> kernel result" where
  "freerange vstart vend s = freerange_loop (2 ^ 20) (PGROUNDUP vstart) vend s"

definition kinit1 :: "uint \<Rightarrow> uint \<Rightarrow> kernel \<Rightarrow> kernel result" where
  "kinit1 vstart vend s =
     freerange vstart vend ((initlock KmemLock ''kmem'' s)\<lparr>use_lock := False\<rparr>)"

definition kinit2 :: "uint \<Rightarrow> uint \<Rightarrow> kernel \<Rightarrow> kernel result" where
  "kinit2 vstart vend s = rbind (freerange vstart vend s) (\<lambda>s. Inr (s\<lparr>use_lock := True\<rparr>))"

subsection \<open>Words in memory\<close>

lemma uint_offsets [simp]:
  fixes a :: uint
  shows "a + 1 \<noteq> a" "a + 2 \<noteq> a" "a + 3 \<noteq> a" "a \<noteq> a + 1" "a \<noteq> a + 2" "a \<noteq> a + 3"
  by simp_all

lemma load32_store32: "load32 (store32 a w m) a = w"
proof -
  have "load32 (store32 a w m) a = ucast (ucast w :: uchar) OR push_bit 8 (ucast (ucast (drop_bit 8 w) :: uchar))
      OR push_bit 16 (ucast (ucast (drop_bit 16 w) :: uchar)) OR push_bit 24 (ucast (ucast (drop_bit 24 w) :: uchar))"
    by (simp add: load32_def store32_def)
  also have "\<dots> = w"
  proof (rule bit_word_eqI)
    fix n assume "n < LENGTH(32)"
    then have "n < 32" by simp
    then consider "n < 8" | "8 \<le> n" "n < 16" | "16 \<le> n" "n < 24" | "24 \<le> n" "n < 32"
      by linarith
    then show "bit (ucast (ucast w :: uchar) OR push_bit 8 (ucast (ucast (drop_bit 8 w) :: uchar)) OR
        push_bit 16 (ucast (ucast (drop_bit 16 w) :: uchar)) OR
        push_bit 24 (ucast (ucast (drop_bit 24 w) :: uchar)) :: uint) n = bit w n"
      by cases (auto simp: bit_simps)
  qed
  finally show ?thesis .
qed

lemma load32_cong:
  "m' a = m a \<Longrightarrow> m' (a + 1) = m (a + 1) \<Longrightarrow> m' (a + 2) = m (a + 2) \<Longrightarrow> m' (a + 3) = m (a + 3) \<Longrightarrow>
   load32 m' a = load32 m a"
  by (simp add: load32_def)

subsection \<open>Pages\<close>

definition page_of :: "uint \<Rightarrow> nat" where
  "page_of x = unat x div 4096"

definition aligned :: "uint \<Rightarrow> bool" where
  "aligned v \<longleftrightarrow> unat v mod 4096 = 0"

lemma aligned_mod: "v mod PGSIZE = 0 \<longleftrightarrow> aligned v"
proof -
  have "unat (v mod 4096) = unat v mod 4096" by (simp add: unat_mod)
  then show ?thesis by (metis PGSIZE_def aligned_def unat_eq_0)
qed

lemma aligned_bound: "aligned v \<Longrightarrow> unat v \<le> 2 ^ 32 - 4096"
  using unat_less32 [of v] by (auto simp: aligned_def dvd_def mod_eq_0_iff_dvd)

lemma aligned_page_inj: "aligned v \<Longrightarrow> aligned w \<Longrightarrow> page_of v = page_of w \<Longrightarrow> v = w"
  by (auto simp: aligned_def page_of_def word_unat_eq_iff mod_eq_0_iff_dvd elim!: dvdE)

text \<open>The four bytes of a word at the start of a page are in that page.\<close>

lemma page_of_word:
  assumes "aligned v" "k < 4096"
  shows "page_of (v + of_nat k) = page_of v"
proof -
  have "unat (v + of_nat k) = unat v + k"
    using assms aligned_bound [OF assms(1)] by (intro unat_plus_nat) simp
  with assms show ?thesis by (auto simp: page_of_def aligned_def mod_eq_0_iff_dvd elim!: dvdE)
qed

lemma page_fill:
  assumes "aligned v" "x - v < PGSIZE"
  shows "page_of x = page_of v"
proof -
  obtain k where k: "x = v + of_nat k" "k < 4096"
  proof
    show "x = v + of_nat (unat (x - v))" by simp
    show "unat (x - v) < 4096" using assms(2) by (simp add: word_less_nat_alt PGSIZE_def)
  qed
  with page_of_word [OF assms(1)] show ?thesis by simp
qed

text \<open>Memory that differs only inside one page.\<close>

definition same_outside :: "uint \<Rightarrow> memory \<Rightarrow> memory \<Rightarrow> bool" where
  "same_outside v m m' \<longleftrightarrow> (\<forall>x. page_of x \<noteq> page_of v \<longrightarrow> m' x = m x)"

lemma same_outside_trans: "same_outside v m m' \<Longrightarrow> same_outside v m' m'' \<Longrightarrow> same_outside v m m''"
  by (simp add: same_outside_def)

lemma memset_page: "aligned v \<Longrightarrow> same_outside v m (memset v c PGSIZE m)"
  using page_fill by (auto simp: same_outside_def memset_at)

lemma store32_page: "aligned v \<Longrightarrow> same_outside v m (store32 v w m)"
  using page_of_word [of v 0] page_of_word [of v 1] page_of_word [of v 2] page_of_word [of v 3]
  by (auto simp: same_outside_def store32_def)

lemma load32_outside:
  assumes "same_outside v m m'" "aligned v" "aligned a" "a \<noteq> v"
  shows "load32 m' a = load32 m a"
proof -
  have "page_of a \<noteq> page_of v" using aligned_page_inj assms by blast
  moreover have "page_of (a + 1) = page_of a" "page_of (a + 2) = page_of a" "page_of (a + 3) = page_of a"
    using page_of_word [OF assms(3), of 1] page_of_word [OF assms(3), of 2] page_of_word [OF assms(3), of 3]
    by simp_all
  ultimately show ?thesis
    using assms(1) by (intro load32_cong) (simp_all add: same_outside_def)
qed

subsection \<open>The free list\<close>

fun flist :: "memory \<Rightarrow> uint \<Rightarrow> uint list \<Rightarrow> bool" where
  "flist m h [] = (h = 0)"
| "flist m h (x # xs) = (h = x \<and> x \<noteq> 0 \<and> flist m (load32 m x) xs)"

definition valid_page :: "uint \<Rightarrow> uint \<Rightarrow> bool" where
  "valid_page e v \<longleftrightarrow> aligned v \<and> e \<le> v \<and> v2p v < PHYSTOP \<and> v \<noteq> 0"

definition free_rep :: "kernel \<Rightarrow> uint list \<Rightarrow> bool" where
  "free_rep s xs \<longleftrightarrow>
     flist (mem s) (freelist s) xs \<and> distinct xs \<and> (\<forall>v\<in>set xs. valid_page (kend s) v)"

text \<open>What the allocator needs of the lock, and what it leaves alone.\<close>

definition kmem_ok :: "kernel \<Rightarrow> bool" where
  "kmem_ok s \<longleftrightarrow> (use_lock s \<longrightarrow> lock_free KmemLock s \<and> cli_ok s)"

definition kmem_frame :: "kernel \<Rightarrow> kernel \<Rightarrow> bool" where
  "kmem_frame s t \<longleftrightarrow> lock_frame s t \<and>
     t\<lparr>mem := mem s, freelist := freelist s, locks := locks s, cpus := cpus s\<rparr> = s"

lemma kmem_frame_refl [simp]: "kmem_frame s s"
  by (simp add: kmem_frame_def)

lemma kmem_frame_trans:
  assumes "kmem_frame s t" "kmem_frame t u"
  shows "kmem_frame s u"
proof -
  have "u\<lparr>mem := mem s, freelist := freelist s, locks := locks s, cpus := cpus s\<rparr> = s"
    using assms by (cases s; cases t; cases u) (simp add: kmem_frame_def)
  moreover have "lock_frame s u" using assms lock_frame_trans by (auto simp: kmem_frame_def)
  ultimately show ?thesis by (simp add: kmem_frame_def)
qed

lemma kmem_frame_eq:
  assumes "kmem_frame s t"
  shows "use_lock t = use_lock s" "kend t = kend s" "procs t = procs s" "kmem_ok t = kmem_ok s"
proof -
  show "use_lock t = use_lock s" "kend t = kend s" "procs t = procs s"
    using assms by (cases s; cases t; simp add: kmem_frame_def)+
  then show "kmem_ok t = kmem_ok s"
    using assms lock_frame_free lock_frame_cli_ok by (auto simp: kmem_ok_def kmem_frame_def)
qed

lemma flist_outside:
  assumes "same_outside v m m'" "aligned v" "v \<notin> set xs" "\<forall>x\<in>set xs. aligned x"
  shows "flist m' h xs = flist m h xs"
  using assms(3,4) by (induction xs arbitrary: h) (auto simp: load32_outside [OF assms(1,2)])

text \<open>A body that only touches the free list, run with or without the lock.\<close>

lemma with_kmem_run:
  assumes ok: "kmem_ok s"
    and body: "\<And>t. mem t = mem s \<Longrightarrow> freelist t = freelist s \<Longrightarrow> f t = Inr (r, t\<lparr>mem := m, freelist := h\<rparr>)"
  shows "\<exists>t. with_kmem f s = Inr (r, t) \<and> mem t = m \<and> freelist t = h \<and> kmem_frame s t"
proof (cases "use_lock s")
  case True
  with ok have lk: "lock_free KmemLock s" "cli_ok s" by (simp_all add: kmem_ok_def)
  let ?a = "acquired KmemLock s"
  have b: "f ?a = Inr (r, ?a\<lparr>mem := m, freelist := h\<rparr>)" by (rule body) simp_all
  have fr: "lock_frame ?a (?a\<lparr>mem := m, freelist := h\<rparr>)" by (intro lock_frame_same) simp_all
  note w = with_lock_frame [where f = f, OF lk b fr]
  have "kmem_frame s (released KmemLock (?a\<lparr>mem := m, freelist := h\<rparr>))"
    using w(2) by (cases s) (simp add: kmem_frame_def released_def acquired_def pushcli_def upd_cpu_def)
  with w True show ?thesis by (auto simp: with_kmem_def)
next
  case False
  then have "with_kmem f s = Inr (r, s\<lparr>mem := m, freelist := h\<rparr>)" by (simp add: with_kmem_def body)
  moreover have "kmem_frame s (s\<lparr>mem := m, freelist := h\<rparr>)"
    by (cases s) (simp add: kmem_frame_def lock_frame_same)
  ultimately show ?thesis by auto
qed

lemma kfree_rep:
  assumes rep: "free_rep s xs" and ok: "kmem_ok s" and v: "valid_page (kend s) v" "v \<notin> set xs"
  shows "\<exists>t. kfree v s = Inr t \<and> free_rep t (v # xs) \<and> kmem_frame s t \<and> same_outside v (mem s) (mem t)"
proof -
  let ?m = "memset v 1 PGSIZE (mem s)"
  let ?s = "s\<lparr>mem := ?m\<rparr>"
  let ?m2 = "store32 v (freelist s) ?m"
  have al: "aligned v" using v(1) by (simp add: valid_page_def)
  have "kmem_ok ?s" using ok by (simp add: kmem_ok_def lock_free_def cli_ok_def cpu_of_def)
  from with_kmem_run [where f = "kfree_push v" and r = "()" and m = ?m2 and h = v, OF this]
  obtain t where t: "with_kmem (kfree_push v) ?s = Inr ((), t)" "mem t = ?m2" "freelist t = v"
    "kmem_frame ?s t"
    by (auto simp: kfree_push_def)
  have "kfree v s = Inr t"
    using v(1) t(1) aligned_mod [of v] by (auto simp: kfree_def valid_page_def not_le not_less)
  moreover have fr: "kmem_frame s t"
    using t(4) by (cases s; cases t) (simp add: kmem_frame_def lock_frame_def cpu_of_def)
  moreover have out: "same_outside v (mem s) (mem t)"
    unfolding t(2) using memset_page [OF al] store32_page [OF al] same_outside_trans by blast
  moreover have "free_rep t (v # xs)"
  proof -
    have "\<forall>x\<in>set xs. aligned x" using rep by (simp add: free_rep_def valid_page_def)
    with flist_outside [OF out al v(2)] rep have "flist (mem t) (freelist s) xs" by (simp add: free_rep_def)
    then show ?thesis
      using t rep v kmem_frame_eq(2) [OF fr] by (simp add: free_rep_def load32_store32 valid_page_def)
  qed
  ultimately show ?thesis by blast
qed

lemma kalloc_rep:
  assumes rep: "free_rep s xs" and ok: "kmem_ok s"
  shows "\<exists>t. kalloc s = Inr (case xs of [] \<Rightarrow> 0 | x # _ \<Rightarrow> x, t) \<and> free_rep t (tl xs) \<and> kmem_frame s t \<and>
     mem t = mem s"
proof (cases xs)
  case Nil
  with rep have "freelist s = 0" by (simp add: free_rep_def)
  then have b: "kalloc_pop t = Inr (0, t\<lparr>mem := mem s, freelist := 0\<rparr>)"
    if "mem t = mem s" "freelist t = freelist s" for t
    using that by (cases t) (simp add: kalloc_pop_def)
  from with_kmem_run [where f = kalloc_pop, OF ok b] obtain t where
    "kalloc s = Inr (0, t)" "mem t = mem s" "freelist t = 0" "kmem_frame s t"
    by (auto simp: kalloc_def)
  with Nil show ?thesis by (simp add: free_rep_def)
next
  case (Cons x ys)
  with rep have h: "freelist s = x" "x \<noteq> 0" "flist (mem s) (load32 (mem s) x) ys"
    by (simp_all add: free_rep_def)
  have b: "kalloc_pop t = Inr (x, t\<lparr>mem := mem s, freelist := load32 (mem s) x\<rparr>)"
    if "mem t = mem s" "freelist t = freelist s" for t
    using that h by (cases t) (simp add: kalloc_pop_def)
  from with_kmem_run [where f = kalloc_pop, OF ok b] obtain t where
    t: "kalloc s = Inr (x, t)" "mem t = mem s" "freelist t = load32 (mem s) x" "kmem_frame s t"
    by (auto simp: kalloc_def)
  with Cons h rep kmem_frame_eq(2) [OF t(4)] show ?thesis by (simp add: free_rep_def)
qed

subsection \<open>The interface of a page allocator\<close>

fun alloc_n :: "('s \<Rightarrow> (uint \<times> 's) result) \<Rightarrow> nat \<Rightarrow> 's \<Rightarrow> (uint list \<times> 's) result" where
  "alloc_n alloc 0 s = Inr ([], s)"
| "alloc_n alloc (Suc n) s =
     rbind (alloc s) (\<lambda>(v, s1). rbind (alloc_n alloc n s1) (\<lambda>(vs, s2). Inr (v # vs, s2)))"

locale page_allocator =
  fixes alloc :: "'s \<Rightarrow> (uint \<times> 's) result"
    and free :: "uint \<Rightarrow> 's \<Rightarrow> 's result"
    and rep :: "'s \<Rightarrow> uint list \<Rightarrow> bool"
    and ready :: "'s \<Rightarrow> bool"
    and valid :: "'s \<Rightarrow> uint \<Rightarrow> bool"
  assumes alloc_law: "rep s xs \<Longrightarrow> ready s \<Longrightarrow>
      \<exists>t. alloc s = Inr (case xs of [] \<Rightarrow> 0 | x # _ \<Rightarrow> x, t) \<and> rep t (tl xs) \<and> ready t \<and> valid t = valid s"
    and free_law: "rep s xs \<Longrightarrow> ready s \<Longrightarrow> valid s v \<Longrightarrow> v \<notin> set xs \<Longrightarrow>
      \<exists>t. free v s = Inr t \<and> rep t (v # xs) \<and> ready t \<and> valid t = valid s"
    and rep_pages: "rep s xs \<Longrightarrow> distinct xs \<and> 0 \<notin> set xs"
begin

lemma allocs:
  "rep s xs \<Longrightarrow> ready s \<Longrightarrow> n \<le> length xs \<Longrightarrow>
   \<exists>t. alloc_n alloc n s = Inr (take n xs, t) \<and> rep t (drop n xs) \<and> ready t"
proof (induction n arbitrary: s xs)
  case 0
  then show ?case by simp
next
  case (Suc n)
  then obtain x ys where xs: "xs = x # ys" "n \<le> length ys" by (cases xs) auto
  with alloc_law [OF Suc.prems(1,2)] obtain s1 where s1: "alloc s = Inr (x, s1)" "rep s1 ys" "ready s1"
    by auto
  from Suc.IH [OF s1(2,3) xs(2)] s1(1) xs show ?case by auto
qed

lemma free_then_alloc:
  assumes "rep s xs" "ready s" "valid s v" "v \<notin> set xs"
  shows "\<exists>t u. free v s = Inr t \<and> alloc t = Inr (v, u) \<and> rep u xs \<and> ready u"
proof -
  from free_law [OF assms] obtain t where t: "free v s = Inr t" "rep t (v # xs)" "ready t" by blast
  from alloc_law [OF t(2,3)] t(1) show ?thesis by auto
qed

lemma allocs_fresh:
  assumes "rep s xs" "ready s" "n \<le> length xs"
  shows "\<exists>ps t. alloc_n alloc n s = Inr (ps, t) \<and> length ps = n \<and> distinct ps \<and> 0 \<notin> set ps \<and>
     rep t (drop n xs) \<and> set ps \<inter> set (drop n xs) = {}"
proof -
  from allocs [OF assms] obtain t where t: "alloc_n alloc n s = Inr (take n xs, t)" "rep t (drop n xs)" by blast
  have d: "distinct (take n xs @ drop n xs)" "0 \<notin> set xs" using rep_pages [OF assms(1)] by simp_all
  then have "distinct (take n xs)" "set (take n xs) \<inter> set (drop n xs) = {}" by (simp_all only: distinct_append)
  moreover have "0 \<notin> set (take n xs)" using d(2) by (auto dest: in_set_takeD)
  ultimately show ?thesis using t assms(3) by auto
qed

end

interpretation kmem: page_allocator kalloc kfree free_rep kmem_ok "\<lambda>s. valid_page (kend s)"
proof
  show "\<exists>t. kalloc s = Inr (case xs of [] \<Rightarrow> 0 | x # _ \<Rightarrow> x, t) \<and> free_rep t (tl xs) \<and> kmem_ok t \<and>
      valid_page (kend t) = valid_page (kend s)" if "free_rep s xs" "kmem_ok s" for s xs
    using kalloc_rep [OF that] that(2) kmem_frame_eq by fastforce
  show "\<exists>t. kfree v s = Inr t \<and> free_rep t (v # xs) \<and> kmem_ok t \<and>
      valid_page (kend t) = valid_page (kend s)"
    if "free_rep s xs" "kmem_ok s" "valid_page (kend s) v" "v \<notin> set xs" for s xs v
    using kfree_rep [OF that] that(2) kmem_frame_eq by fastforce
  show "distinct xs \<and> 0 \<notin> set xs" if "free_rep s xs" for s xs
    using that by (auto simp: free_rep_def valid_page_def)
qed

subsection \<open>Properties\<close>

text \<open>
  C31. Allocation: as many \<^verbatim>\<open>kalloc\<close> calls as there are free pages return distinct non-null
  pages that are no longer free, and the free list afterwards holds exactly the others.
\<close>

theorem kalloc_returns_fresh_pages:
  assumes "free_rep s xs" "kmem_ok s" "n \<le> length xs"
  shows "\<exists>ps t. alloc_n kalloc n s = Inr (ps, t) \<and> length ps = n \<and> distinct ps \<and> 0 \<notin> set ps \<and>
     free_rep t (drop n xs) \<and> set ps \<inter> set (drop n xs) = {}"
  by (rule kmem.allocs_fresh [OF assms])

lemma empty_rep: "free_rep (bss b) []"
  by (simp add: free_rep_def)

text \<open>
  C32. Freeing a page makes it the next one \<^verbatim>\<open>kalloc\<close> returns; \<^verbatim>\<open>kfree\<close> panics on an address that
  is not page-aligned, below the end of the kernel or above the physical memory, and changes no
  byte outside the page.
\<close>

theorem kfree_then_kalloc:
  assumes "free_rep s xs" "kmem_ok s" "v \<notin> set xs"
  shows "if valid_page (kend s) v
     then \<exists>t u. kfree v s = Inr t \<and> kalloc t = Inr (v, u) \<and> free_rep u xs \<and> same_outside v (mem s) (mem u)
     else v = 0 \<or> kfree v s = Inl (Panic ''kfree'')"
proof (cases "valid_page (kend s) v")
  case True
  from kfree_rep [OF assms(1,2) True assms(3)] obtain t where
    t: "kfree v s = Inr t" "free_rep t (v # xs)" "kmem_frame s t" "same_outside v (mem s) (mem t)" by blast
  have "kmem_ok t" using kmem_frame_eq(4) [OF t(3)] assms(2) by simp
  from kalloc_rep [OF t(2) this] t True show ?thesis by auto
next
  case False
  then show ?thesis using aligned_mod [of v] by (auto simp: valid_page_def kfree_def not_le not_less)
qed

definition demo_free :: kernel where
  "demo_free = (bss True)\<lparr>kend := 0x80100000, freelist := 0x80100000\<rparr>"

lemma demo_free_rep: "free_rep demo_free [0x80100000]" "kmem_ok demo_free"
  by (simp_all add: demo_free_def free_rep_def load32_def bss_def valid_page_def aligned_def v2p_def
      KERNBASE_def PHYSTOP_def kmem_ok_def)

theorem kalloc_returns_fresh_pages_witness:
  "\<exists>p t. alloc_n kalloc 1 demo_free = Inr ([p], t) \<and> p \<noteq> 0 \<and> free_rep t []"
  using kalloc_returns_fresh_pages [OF demo_free_rep, of 1] by (auto simp: length_Suc_conv)

theorem kfree_then_kalloc_witness:
  "(\<exists>t u. kfree 0x80101000 demo_free = Inr t \<and> kalloc t = Inr (0x80101000, u)) \<and>
   kfree 0x80101004 demo_free = Inl (Panic ''kfree'')"
  using kfree_then_kalloc [OF demo_free_rep, of "0x80101000"] kfree_then_kalloc [OF demo_free_rep, of "0x80101004"]
  by (auto simp: demo_free_def valid_page_def aligned_def v2p_def KERNBASE_def PHYSTOP_def)

subsection \<open>Freeing a range\<close>

definition pages :: "uint \<Rightarrow> nat \<Rightarrow> uint list" where
  "pages p k = map (\<lambda>i. p + of_nat (4096 * i)) [0..<k]"

lemma pages_Suc: "pages p (Suc k) = p # pages (p + PGSIZE) k"
proof -
  have "[0..<Suc k] = 0 # map Suc [0..<k]" by (simp add: map_Suc_upt upt_conv_Cons del: upt_Suc)
  then show ?thesis by (simp add: pages_def PGSIZE_def algebra_simps)
qed

lemma freerange_loop_frees:
  assumes "free_rep s xs" "kmem_ok s" "unat p + 4096 * k \<le> unat vend" "unat vend < unat p + 4096 * Suc k"
    "unat vend + 4096 < 2 ^ 32" "k < n" "\<forall>v\<in>set (pages p k). valid_page (kend s) v \<and> v \<notin> set xs"
    "distinct (pages p k)"
  shows "\<exists>t. freerange_loop n p vend s = Inr t \<and> free_rep t (rev (pages p k) @ xs) \<and> kmem_frame s t"
  using assms
proof (induction k arbitrary: s p n xs)
  case 0
  then obtain m where n: "n = Suc m" by (cases n) auto
  have "unat (p + PGSIZE) = unat p + 4096"
    using 0 unat_plus_nat [of p 4096] by (simp add: PGSIZE_def)
  with 0 have "\<not> p + PGSIZE \<le> vend" by (simp add: word_le_nat_alt)
  with 0 n show ?case by (auto simp: pages_def)
next
  case (Suc k)
  then obtain m where n: "n = Suc m" by (cases n) auto
  have up: "unat (p + PGSIZE) = unat p + 4096"
    using Suc.prems unat_plus_nat [of p 4096] by (simp add: PGSIZE_def)
  with Suc.prems have le: "p + PGSIZE \<le> vend" by (simp add: word_le_nat_alt)
  from Suc.prems(7) have p: "valid_page (kend s) p" "p \<notin> set xs" by (simp_all add: pages_Suc)
  from kfree_rep [OF Suc.prems(1,2) p] obtain t where
    t: "kfree p s = Inr t" "free_rep t (p # xs)" "kmem_frame s t" by blast
  note eq = kmem_frame_eq [OF t(3)]
  have "\<exists>u. freerange_loop m (p + PGSIZE) vend t = Inr u \<and>
      free_rep u (rev (pages (p + PGSIZE) k) @ (p # xs)) \<and> kmem_frame t u"
    by (rule Suc.IH) (use Suc.prems t(2) eq up n in \<open>auto simp: pages_Suc\<close>)
  with t(1,3) le n show ?case using kmem_frame_trans by (fastforce simp: pages_Suc)
qed

lemma PGROUNDUP_unat:
  assumes "unat v + 4095 < 2 ^ 32"
  shows "unat (PGROUNDUP v) = (unat v + 4095) div 4096 * 4096"
proof -
  let ?x = "v + 4095"
  have m: "(PGSIZE - 1 :: uint) = mask 12" by (simp add: PGSIZE_def mask_eq_exp_minus_1)
  have x: "unat ?x = unat v + 4095" using unat_plus_nat [of v 4095] assms by simp
  have "PGROUNDUP v = ?x AND NOT (mask 12)"
    unfolding PGROUNDUP_def m by (simp add: PGSIZE_def add_diff_eq [symmetric])
  also have "\<dots> = push_bit 12 (drop_bit 12 ?x)"
    by (rule bit_word_eqI) (auto simp: bit_simps)
  finally have "unat (PGROUNDUP v) = unat (push_bit 12 (drop_bit 12 ?x))" by simp
  also have "\<dots> = (unat ?x div 4096) * 4096 mod 2 ^ 32"
    by (simp add: push_bit_eq_mult unat_word_ariths unat_drop_bit_eq drop_bit_eq_div)
  also have "(unat ?x div 4096) * 4096 mod 2 ^ 32 = (unat ?x div 4096) * 4096"
    using unat_less32 [of ?x] by (intro mod_less) (meson div_times_less_eq_dividend le_less_trans)
  finally show ?thesis by (simp add: x)
qed

lemma nth_pages:
  assumes "unat p + 4096 * k \<le> 2 ^ 32" "v \<in> set (pages p k)"
  shows "\<exists>i<k. v = p + of_nat (4096 * i) \<and> unat v = unat p + 4096 * i"
proof -
  from assms(2) obtain i where i: "i < k" "v = p + of_nat (4096 * i)" by (auto simp: pages_def)
  with assms(1) unat_plus_nat [of p "4096 * i"] have "unat v = unat p + 4096 * i" by simp
  with i show ?thesis by blast
qed

lemma distinct_pages:
  assumes "unat p + 4096 * k \<le> 2 ^ 32"
  shows "distinct (pages p k)"
  unfolding pages_def distinct_map
proof (intro conjI inj_onI)
  have u: "unat (p + of_nat (4096 * i)) = unat p + 4096 * i" if "i < k" for i
    using assms that by (intro unat_plus_nat) simp
  fix i j assume h: "i \<in> set [0..<k]" "j \<in> set [0..<k]" "p + of_nat (4096 * i) = p + of_nat (4096 * j)"
  then have "unat p + 4096 * i = unat p + 4096 * j"
    using u [of i] u [of j] by (simp only: set_upt atLeastLessThan_iff)
  then show "i = j" by simp
qed simp

text \<open>
  \<^verbatim>\<open>freerange\<close> on a range of kernel addresses inside the physical memory ends, frees
  exactly the whole pages between the rounded-up start and the end, the first page last on the
  list, and keeps the pages that were free before.
\<close>

theorem freerange_frees_whole_pages:
  fixes vstart vend :: uint and s :: kernel
  defines "p \<equiv> PGROUNDUP vstart"
  defines "k \<equiv> (unat vend - unat p) div 4096"
  assumes "free_rep s xs" "kmem_ok s" "KERNBASE \<le> vstart" "kend s \<le> vstart" "vstart \<le> vend"
    "v2p vend \<le> PHYSTOP" "p \<le> vend" "\<forall>v\<in>set xs. v < p"
  shows "\<exists>t. freerange vstart vend s = Inr t \<and> free_rep t (rev (pages p k) @ xs) \<and> kmem_frame s t \<and>
     unat p + 4096 * k \<le> unat vend \<and> unat vend < unat p + 4096 * Suc k"
proof -
  have K: "unat KERNBASE = 2147483648" "unat PHYSTOP = 234881024"
    by (simp_all add: KERNBASE_def PHYSTOP_def)
  have le: "2147483648 \<le> unat vstart" "unat vstart \<le> unat vend" "unat (kend s) \<le> unat vstart"
    "unat p \<le> unat vend"
    using assms(5-7,9) K by (simp_all add: word_le_nat_alt)
  then have "unat (v2p vend) = unat vend - 2147483648"
    using K by (simp add: v2p_def unat_sub word_le_nat_alt)
  with assms(8) K have top: "unat vend \<le> 2382364672" by (simp add: word_le_nat_alt)
  have pu: "unat p = (unat vstart + 4095) div 4096 * 4096"
    unfolding p_def using le top by (intro PGROUNDUP_unat) simp
  then have pv: "unat vstart \<le> unat p" by linarith
  have k: "unat p + 4096 * k \<le> unat vend" "unat vend < unat p + 4096 * Suc k"
  proof -
    have "(unat vend - unat p) mod 4096 < 4096" by simp
    moreover have "k * 4096 + (unat vend - unat p) mod 4096 = unat vend - unat p"
      unfolding k_def by (rule div_mult_mod_eq)
    ultimately show "unat p + 4096 * k \<le> unat vend" "unat vend < unat p + 4096 * Suc k"
      using le(4) unfolding mult_Suc_right by linarith+
  qed
  have valid: "valid_page (kend s) v \<and> v \<notin> set xs" if "v \<in> set (pages p k)" for v
  proof -
    have "unat p + 4096 * k \<le> 2 ^ 32" using k(1) top by simp
    from nth_pages [OF this that] obtain i where i: "i < k" "unat v = unat p + 4096 * i" by blast
    have "unat v + 4096 \<le> unat vend" using i k(1) by simp
    moreover have "aligned v" using i(2) pu by (simp add: aligned_def)
    moreover have "unat (v2p v) = unat v - 2147483648"
      using K i(2) pv le(1) by (simp add: v2p_def unat_sub word_le_nat_alt)
    moreover have "v \<noteq> 0" using i(2) pv le(1) by auto
    ultimately have "valid_page (kend s) v"
      using top le(3) pv i(2) K by (simp add: valid_page_def word_le_nat_alt word_less_nat_alt)
    moreover have "v \<notin> set xs" using assms(10) i(2) by (auto simp: word_less_nat_alt)
    ultimately show ?thesis by blast
  qed
  have "k < 2 ^ 20" using k(1) top by simp
  moreover have "distinct (pages p k)" using k(1) top by (intro distinct_pages) simp
  ultimately have "\<exists>t. freerange_loop (2 ^ 20) p vend s = Inr t \<and> free_rep t (rev (pages p k) @ xs) \<and> kmem_frame s t"
    using assms(3,4) k top valid by (intro freerange_loop_frees) auto
  with k show ?thesis by (auto simp: freerange_def p_def)
qed

theorem freerange_frees_whole_pages_witness:
  "\<exists>t. freerange 0x80101000 0x80103000 demo_free = Inr t \<and>
     free_rep t (rev (pages 0x80101000 2) @ [0x80100000])"
proof -
  have r: "PGROUNDUP 0x80101000 = 0x80101000" by (simp add: PGROUNDUP_def PGSIZE_def)
  from freerange_frees_whole_pages [OF demo_free_rep, of "0x80101000" "0x80103000", unfolded r] show ?thesis
    by (auto simp: KERNBASE_def PHYSTOP_def v2p_def demo_free_def)
qed

end
