(* ===== verification/Ring.thy ===== *)
theory Ring
  imports Xv6_State
begin

section \<open>Ring buffers\<close>

text \<open>
  Pipes and the console's input keep bytes in a ring: free-running 32-bit counters of the bytes put and
  taken, used modulo the size of the buffer, a power of two. The counters may wrap around. The interface
  \<open>fifo\<close> states what the users of a ring rely on.
\<close>

definition ring :: "uint \<Rightarrow> (nat \<Rightarrow> 'a) \<Rightarrow> uint \<Rightarrow> uint \<Rightarrow> 'a list" where
  "ring cap d r w = map (\<lambda>i. d (unat ((r + of_nat i) mod cap))) [0..<unat (w - r)]"

text \<open>Sizes that divide the range of the counters.\<close>

definition ring_size :: "uint \<Rightarrow> bool" where
  "ring_size cap \<longleftrightarrow> 0 < cap \<and> unat cap dvd 2 ^ 32"

lemma length_ring [simp]: "length (ring cap d r w) = unat (w - r)"
  by (simp add: ring_def)

lemma ring_index:
  assumes "ring_size cap"
  shows "unat ((r + of_nat i) mod cap) = (unat r + i) mod unat cap"
proof -
  have "unat (r + of_nat i) = (unat r + i) mod 2 ^ 32"
    by (simp add: unat_word_ariths(1) unat_of_nat mod_add_right_eq)
  then show ?thesis using assms by (simp add: unat_mod ring_size_def mod_mod_cancel)
qed

lemma mod_neq_less:
  assumes "i < j" "j < i + (c :: nat)"
  shows "(a + i) mod c \<noteq> (a + j) mod c"
proof
  assume "(a + i) mod c = (a + j) mod c"
  then have "c dvd (a + j) - (a + i)" using assms(1) by (metis mod_eq_dvd_iff_nat add_le_cancel_left less_imp_le)
  then have "c dvd j - i" by simp
  then show False using assms by (auto dest: dvd_imp_le)
qed

lemma unat_Suc: "unat x < 2 ^ 32 - 1 \<Longrightarrow> unat (x + 1 :: uint) = Suc (unat x)"
  by (simp add: unat_word_ariths(1))

lemma ring_put:
  assumes cap: "ring_size cap" and room: "unat (w - r) < unat cap" "unat cap < 2 ^ 32"
  shows "ring cap (d(unat (w mod cap) := b)) r (w + 1) = ring cap d r w @ [b]"
proof -
  let ?n = "unat (w - r)" and ?c = "unat cap"
  have w: "w = r + of_nat ?n" by simp
  have i: "unat (w mod cap) = (unat r + ?n) mod ?c" using ring_index [OF cap, of r ?n] by simp
  have n: "unat (w + 1 - r) = Suc ?n"
  proof -
    have eq: "w + 1 - r = (w - r) + 1" by simp
    show ?thesis unfolding eq using unat_Suc [of "w - r"] room by simp
  qed
  have "(unat r + j) mod ?c \<noteq> (unat r + ?n) mod ?c" if "j < ?n" for j
    using mod_neq_less [of j ?n ?c "unat r"] that room(1) by simp
  then show ?thesis unfolding ring_def n by (simp add: ring_index [OF cap] i)
qed

lemma ring_get:
  assumes "r \<noteq> w"
  shows "ring cap d r w = d (unat (r mod cap)) # ring cap d (r + 1) w"
proof -
  let ?n = "unat (w - (r + 1))"
  have "w - r \<noteq> 0" using assms by simp
  then have "0 < unat (w - r)" by (simp add: unat_gt_0)
  moreover have "unat (w - (r + 1)) = unat (w - r) - 1"
  proof -
    have eq: "w - (r + 1) = (w - r) - 1" by simp
    show ?thesis unfolding eq using unat_minus_one [OF \<open>w - r \<noteq> 0\<close>] .
  qed
  ultimately have n: "unat (w - r) = Suc ?n" by simp
  have "r + of_nat (Suc i) = r + 1 + of_nat i" for i by simp
  then show ?thesis unfolding ring_def n by (simp add: upt_conv_Cons map_Suc_upt [symmetric] add.assoc del: upt_Suc of_nat_Suc)
qed

lemma ring_unput:
  assumes "r \<noteq> w"
  shows "ring cap d r (w - 1) = butlast (ring cap d r w)"
proof -
  have "w - r \<noteq> 0" using assms by simp
  then have "unat (w - 1 - r) = unat (w - r) - 1"
    by (metis diff_right_commute unat_minus_one)
  moreover have "butlast [0..<n] = [0..<n - 1]" for n by (cases n) simp_all
  ultimately show ?thesis by (simp add: ring_def map_butlast [symmetric])
qed

lemma ring_empty: "r = w \<longleftrightarrow> ring cap d r w = []"
  by (auto simp: ring_def unat_eq_zero)

subsection \<open>The interface\<close>

locale fifo =
  fixes items :: "'r \<Rightarrow> 'a list" and ok :: "'r \<Rightarrow> bool" and full :: "'r \<Rightarrow> bool"
    and put :: "'a \<Rightarrow> 'r \<Rightarrow> 'r" and get :: "'r \<Rightarrow> 'r" and front :: "'r \<Rightarrow> 'a" and cap :: nat
  assumes put_law: "ok r \<Longrightarrow> \<not> full r \<Longrightarrow> ok (put a r) \<and> items (put a r) = items r @ [a]"
    and get_law: "ok r \<Longrightarrow> items r \<noteq> [] \<Longrightarrow> ok (get r) \<and> items r = front r # items (get r)"
    and full_law: "ok r \<Longrightarrow> full r \<longleftrightarrow> length (items r) = cap"
    and cap_law: "ok r \<Longrightarrow> length (items r) \<le> cap"
begin

lemma put_all:
  assumes "ok r" "length (items r) + length as \<le> cap"
  shows "ok (fold put as r) \<and> items (fold put as r) = items r @ as"
  using assms
proof (induction as arbitrary: r)
  case (Cons a as)
  then have "\<not> full r" using full_law by simp
  with put_law [OF Cons.prems(1), of a] Cons.IH [of "put a r"] Cons.prems(2) show ?case by simp
qed simp

lemma get_all:
  assumes "ok r" "n \<le> length (items r)"
  shows "ok ((get ^^ n) r) \<and> items ((get ^^ n) r) = drop n (items r)"
  using assms
proof (induction n)
  case (Suc n)
  then have "items ((get ^^ n) r) \<noteq> []" by simp
  with Suc get_law [of "(get ^^ n) r"] have "ok (get ((get ^^ n) r))"
    "drop n (items r) = front ((get ^^ n) r) # items (get ((get ^^ n) r))" by auto
  then show ?case by (simp add: drop_Suc drop_tl)
qed simp

text \<open>What is put is what is taken, in order.\<close>

lemma pass:
  assumes "ok r" "length (items r) + length as \<le> cap"
  shows "items ((get ^^ length (items r)) (fold put as r)) = as"
  using get_all [of "fold put as r" "length (items r)"] put_all [OF assms] by simp

end

end
