(* ===== verification/Pipe.thy ===== *)
theory Pipe
  imports Quiet Kalloc Ring
begin

section \<open>Pipes (pipe.c)\<close>

text \<open>
  A pipe is found by the address of its page. A read or write that goes to sleep releases the pipe's
  lock and, when woken, takes it again and continues with what is left, so the result of a critical
  section is either the return value or the request to sleep with the rest of the work. \<^verbatim>\<open>pipealloc\<close> is with
  the file table.
\<close>

definition PIPESIZE :: uint where "PIPESIZE = 512"

definition upd_pipe :: "uint \<Rightarrow> (pipe \<Rightarrow> pipe) \<Rightarrow> kernel \<Rightarrow> kernel" where
  "upd_pipe p f s = s\<lparr>pipes := (pipes s)(p := f (pipes s p))\<rparr>"

definition pipeclose_locked :: "uint \<Rightarrow> bool \<Rightarrow> kernel \<Rightarrow> (bool \<times> kernel) result" where
  "pipeclose_locked p writable s =
     rbind (if writable
       then wakeup (Some (ChanPipeRead p)) (upd_pipe p (\<lambda>r. r\<lparr>pi_writeopen := False\<rparr>) s)
       else wakeup (Some (ChanPipeWrite p)) (upd_pipe p (\<lambda>r. r\<lparr>pi_readopen := False\<rparr>) s)) (\<lambda>s.
     Inr (\<not> pi_readopen (pipes s p) \<and> \<not> pi_writeopen (pipes s p), s))"

definition pipeclose :: "uint \<Rightarrow> bool \<Rightarrow> kernel \<Rightarrow> kernel result" where
  "pipeclose p writable s =
     rbind (with_lock (PipeLock p) (pipeclose_locked p writable) s) (\<lambda>(gone, s).
     if gone then kfree p s else Inr s)"

datatype 'a io = Done int 'a | Sleeps 'a

text \<open>The loop of \<^verbatim>\<open>pipewrite\<close> with the bytes still to be written; \<open>n\<close> is the result when all are written.\<close>

fun pipewrite_loop :: "uint \<Rightarrow> int \<Rightarrow> uchar list \<Rightarrow> kernel \<Rightarrow> (uchar list io \<times> kernel) result" where
  "pipewrite_loop p n [] s =
     rbind (wakeup (Some (ChanPipeRead p)) s) (\<lambda>s. Inr (Done n [], s))"
| "pipewrite_loop p n (b # bs) s =
     (if pi_nwrite (pipes s p) = pi_nread (pipes s p) + PIPESIZE
      then case proc_of s of None \<Rightarrow> Inl NullDeref | Some me \<Rightarrow>
        if \<not> pi_readopen (pipes s p) \<or> p_killed (procs s me) then Inr (Done (-1) (b # bs), s)
        else rbind (wakeup (Some (ChanPipeRead p)) s) (\<lambda>s. Inr (Sleeps (b # bs), s))
      else pipewrite_loop p n bs (upd_pipe p (\<lambda>r. r\<lparr>pi_data := (pi_data r)(unat (pi_nwrite r mod PIPESIZE) := b),
        pi_nwrite := pi_nwrite r + 1\<rparr>) s))"

text \<open>From the lock on: at the call, and again after every sleep.\<close>

definition pipewrite :: "uint \<Rightarrow> int \<Rightarrow> uchar list \<Rightarrow> kernel \<Rightarrow> (uchar list io \<times> kernel) result" where
  "pipewrite p n bs s = with_lock (PipeLock p) (pipewrite_loop p n bs) s"

fun piperead_copy :: "uint \<Rightarrow> nat \<Rightarrow> uchar list \<Rightarrow> kernel \<Rightarrow> uchar list \<times> kernel" where
  "piperead_copy p 0 bs s = (bs, s)"
| "piperead_copy p (Suc n) bs s =
     (if pi_nread (pipes s p) = pi_nwrite (pipes s p) then (bs, s)
      else piperead_copy p n (bs @ [pi_data (pipes s p) (unat (pi_nread (pipes s p) mod PIPESIZE))])
        (upd_pipe p (\<lambda>r. r\<lparr>pi_nread := pi_nread r + 1\<rparr>) s))"

definition piperead_locked :: "uint \<Rightarrow> int \<Rightarrow> kernel \<Rightarrow> (uchar list io \<times> kernel) result" where
  "piperead_locked p n s =
     (if pi_nread (pipes s p) = pi_nwrite (pipes s p) \<and> pi_writeopen (pipes s p)
      then case proc_of s of None \<Rightarrow> Inl NullDeref | Some me \<Rightarrow>
        if p_killed (procs s me) then Inr (Done (-1) [], s) else Inr (Sleeps [], s)
      else case piperead_copy p (nat n) [] s of (bs, s) \<Rightarrow>
        rbind (wakeup (Some (ChanPipeWrite p)) s) (\<lambda>s. Inr (Done (int (length bs)) bs, s)))"

definition piperead :: "uint \<Rightarrow> int \<Rightarrow> kernel \<Rightarrow> (uchar list io \<times> kernel) result" where
  "piperead p n s = with_lock (PipeLock p) (piperead_locked p n) s"


subsection \<open>The pipe as a queue\<close>

definition pipe_items :: "pipe \<Rightarrow> uchar list" where
  "pipe_items r = ring PIPESIZE (pi_data r) (pi_nread r) (pi_nwrite r)"

definition pipe_ok :: "pipe \<Rightarrow> bool" where
  "pipe_ok r \<longleftrightarrow> unat (pi_nwrite r - pi_nread r) \<le> 512"

definition pipe_full :: "pipe \<Rightarrow> bool" where
  "pipe_full r \<longleftrightarrow> pi_nwrite r = pi_nread r + PIPESIZE"

definition pipe_put :: "uchar \<Rightarrow> pipe \<Rightarrow> pipe" where
  "pipe_put b r = r\<lparr>pi_data := (pi_data r)(unat (pi_nwrite r mod PIPESIZE) := b), pi_nwrite := pi_nwrite r + 1\<rparr>"

definition pipe_get :: "pipe \<Rightarrow> pipe" where
  "pipe_get r = r\<lparr>pi_nread := pi_nread r + 1\<rparr>"

definition pipe_front :: "pipe \<Rightarrow> uchar" where
  "pipe_front r = pi_data r (unat (pi_nread r mod PIPESIZE))"

lemma ring_size_pipe: "ring_size PIPESIZE"
  by (simp add: ring_size_def PIPESIZE_def)

lemma pipe_full_iff: "pipe_full r \<longleftrightarrow> unat (pi_nwrite r - pi_nread r) = 512"
proof -
  have "unat (pi_nwrite r - pi_nread r) = 512 \<longleftrightarrow> pi_nwrite r - pi_nread r = 512" by (simp add: word_unat_eq_iff)
  also have "\<dots> \<longleftrightarrow> pi_nwrite r = pi_nread r + 512" by (auto simp: algebra_simps)
  finally show ?thesis by (simp add: pipe_full_def PIPESIZE_def)
qed

interpretation pq: fifo pipe_items pipe_ok pipe_full pipe_put pipe_get pipe_front 512
proof
  fix r a
  assume ok: "pipe_ok r"
  show "pipe_full r \<longleftrightarrow> length (pipe_items r) = 512" by (simp add: pipe_full_iff pipe_items_def)
  show "length (pipe_items r) \<le> 512" using ok by (simp add: pipe_items_def pipe_ok_def)
  {
    assume "\<not> pipe_full r"
    then have lt: "unat (pi_nwrite r - pi_nread r) < unat PIPESIZE"
      using ok by (simp add: pipe_full_iff pipe_ok_def PIPESIZE_def)
    from ring_put [OF ring_size_pipe this] have i: "pipe_items (pipe_put a r) = pipe_items r @ [a]"
      by (simp add: pipe_items_def pipe_put_def PIPESIZE_def)
    then have "length (pipe_items (pipe_put a r)) = Suc (length (pipe_items r))" by simp
    then have "pipe_ok (pipe_put a r)" using lt by (simp add: pipe_items_def pipe_ok_def PIPESIZE_def)
    with i show "pipe_ok (pipe_put a r) \<and> pipe_items (pipe_put a r) = pipe_items r @ [a]" by simp
  }
  assume "pipe_items r \<noteq> []"
  then have "pi_nread r \<noteq> pi_nwrite r" using ring_empty by (metis pipe_items_def)
  from ring_get [OF this] have i: "pipe_items r = pipe_front r # pipe_items (pipe_get r)"
    by (simp add: pipe_items_def pipe_front_def pipe_get_def)
  then have "length (pipe_items r) = Suc (length (pipe_items (pipe_get r)))" by simp
  then have "pipe_ok (pipe_get r)" using ok by (simp add: pipe_items_def pipe_ok_def)
  with i show "pipe_ok (pipe_get r) \<and> pipe_items r = pipe_front r # pipe_items (pipe_get r)" by simp
qed

lemma pipe_empty: "pi_nread r = pi_nwrite r \<longleftrightarrow> pipe_items r = []"
  unfolding pipe_items_def by (rule ring_empty)


subsection \<open>What a critical section does\<close>

lemma upd_pipe_acquired: "upd_pipe p f (acquired l s) = acquired l (upd_pipe p f s)"
  by (simp add: upd_pipe_def acquired_def pushcli_def upd_cpu_def cpu_of_def)

lemma same_core_pipe [simp]: "same_core s (upd_pipe p f s)"
  by (simp add: same_core_def upd_pipe_def)

lemma upd_pipe_simps [simp]:
  "pipes (upd_pipe p f s) = (pipes s)(p := f (pipes s p))" "proc_of (upd_pipe p f s) = proc_of s"
  "procs (upd_pipe p f s) = procs s" "upd_pipe p g (upd_pipe p f s) = upd_pipe p (\<lambda>r. g (f r)) s"
  by (simp_all add: upd_pipe_def proc_of_def)

lemma calm_upd_pipe [simp]: "calm (upd_pipe p f s) = calm s"
  by (rule same_core_calm) simp

lemma upd_pipe_id: "upd_pipe p (\<lambda>r. r) s = s"
  by (simp add: upd_pipe_def)

lemma pipe_get_eta: "(\<lambda>r. r\<lparr>pi_nread := pi_nread r + 1\<rparr>) = pipe_get"
  by (simp add: fun_eq_iff pipe_get_def)

lemma pipe_put_eta:
  "(\<lambda>r. r\<lparr>pi_data := (pi_data r)(unat (pi_nwrite r mod PIPESIZE) := b), pi_nwrite := pi_nwrite r + 1\<rparr>) = pipe_put b"
  by (simp add: fun_eq_iff pipe_put_def)

lemma pipe_put_flags [simp]: "pi_readopen (pipe_put b r) = pi_readopen r" "pi_writeopen (pipe_put b r) = pi_writeopen r"
  by (simp_all add: pipe_put_def)

text \<open>The bytes that fit, and the outcome of a write.\<close>

definition room :: "pipe \<Rightarrow> nat" where
  "room r = 512 - length (pipe_items r)"

definition write_outcome :: "int \<Rightarrow> uchar list \<Rightarrow> bool \<Rightarrow> pipe \<Rightarrow> uchar list io" where
  "write_outcome n bs killed r =
     (if length bs \<le> room r then Done n []
      else if \<not> pi_readopen r \<or> killed then Done (-1) (drop (room r) bs)
      else Sleeps (drop (room r) bs))"

lemma pipewrite_loop_spec:
  assumes "calm s" "pipe_ok (pipes s p)" "proc_of s = Some me"
  shows "\<exists>u. pipewrite_loop p n bs (acquired (PipeLock p) s) =
      Inr (write_outcome n bs (p_killed (procs s me)) (pipes s p), u) \<and>
     quiet (acquired (PipeLock p) (upd_pipe p (fold pipe_put (take (room (pipes s p)) bs)) s)) u"
  using assms
proof (induction bs arbitrary: s)
  case Nil
  from wakeup_locked [OF Nil(1), of "PipeLock p" "Some (ChanPipeRead p)"] show ?case
    by (auto simp: write_outcome_def upd_pipe_id)
next
  case (Cons b bs)
  let ?r = "pipes s p" and ?l = "PipeLock p"
  show ?case
  proof (cases "pipe_full ?r")
    case True
    then have z: "room ?r = 0" using pq.full_law [OF Cons.prems(2)] by (simp add: room_def)
    have f: "pi_nwrite ?r = pi_nread ?r + PIPESIZE" using True by (simp add: pipe_full_def)
    from wakeup_locked [OF Cons.prems(1), of ?l "Some (ChanPipeRead p)"] obtain u where
      u: "wakeup (Some (ChanPipeRead p)) (acquired ?l s) = Inr u" "quiet (acquired ?l s) u" by auto
    show ?thesis
      using f u z Cons.prems(3) by (cases "\<not> pi_readopen ?r \<or> p_killed (procs s me)")
        (auto simp: write_outcome_def upd_pipe_id)
  next
    case False
    then have f: "pi_nwrite ?r \<noteq> pi_nread ?r + PIPESIZE" by (simp add: pipe_full_def)
    let ?s = "upd_pipe p (pipe_put b) s"
    have put: "pipe_ok (pipe_put b ?r)" "pipe_items (pipe_put b ?r) = pipe_items ?r @ [b]"
      using pq.put_law [OF Cons.prems(2) False] by simp_all
    have rm: "room ?r = Suc (room (pipe_put b ?r))"
      using pq.cap_law [OF put(1)] put(2) by (simp add: room_def)
    have "pipewrite_loop p n (b # bs) (acquired ?l s) = pipewrite_loop p n bs (acquired ?l ?s)"
      using f by (simp add: upd_pipe_acquired pipe_put_eta)
    moreover have "write_outcome n (b # bs) k ?r = write_outcome n bs k (pipe_put b ?r)" for k
      using rm by (simp add: write_outcome_def)
    moreover have "upd_pipe p (fold pipe_put (take (room ?r) (b # bs))) s = upd_pipe p (fold pipe_put (take (room (pipe_put b ?r)) bs)) ?s"
      using rm by (simp add: comp_def)
    ultimately show ?thesis using Cons.IH [of ?s] Cons.prems put(1) by simp
  qed
qed

lemma pipewrite_effect:
  assumes "calm s" "pipe_ok (pipes s p)" "proc_of s = Some me"
  shows "\<exists>t. pipewrite p n bs s = Inr (write_outcome n bs (p_killed (procs s me)) (pipes s p), t) \<and>
     quiet (upd_pipe p (fold pipe_put (take (room (pipes s p)) bs)) s) t"
proof -
  from pipewrite_loop_spec [OF assms, of n bs] obtain u where
    u: "pipewrite_loop p n bs (acquired (PipeLock p) s) = Inr (write_outcome n bs (p_killed (procs s me)) (pipes s p), u)"
    "quiet (acquired (PipeLock p) (upd_pipe p (fold pipe_put (take (room (pipes s p)) bs)) s)) u" by blast
  from locked_quiet [where f = "pipewrite_loop p n bs", OF assms(1) u] show ?thesis by (simp add: pipewrite_def)
qed

lemma piperead_copy_spec:
  assumes "pipe_ok (pipes s p)"
  shows "piperead_copy p n bs (acquired l s) =
     (bs @ take n (pipe_items (pipes s p)),
      acquired l (upd_pipe p (pipe_get ^^ min n (length (pipe_items (pipes s p)))) s))"
  using assms
proof (induction n arbitrary: bs s)
  case 0
  then show ?case by (simp add: upd_pipe_id id_def)
next
  case (Suc n)
  let ?r = "pipes s p"
  show ?case
  proof (cases "pipe_items ?r = []")
    case True
    then show ?thesis using pipe_empty [of ?r] by (simp add: upd_pipe_id id_def)
  next
    case False
    let ?s = "upd_pipe p pipe_get s"
    note g = pq.get_law [OF Suc.prems False]
    have eq: "take (Suc n) (pipe_items ?r) = pipe_front ?r # take n (pipe_items (pipe_get ?r))"
      "min (Suc n) (length (pipe_items ?r)) = Suc (min n (length (pipe_items (pipe_get ?r))))"
      using g by (metis take_Suc_Cons) (metis g length_Cons min_Suc_Suc)
    have "piperead_copy p (Suc n) bs (acquired l s) = piperead_copy p n (bs @ [pipe_front ?r]) (acquired l ?s)"
      using False pipe_empty [of ?r] by (simp add: upd_pipe_acquired pipe_get_eta pipe_front_def)
    then show ?thesis using Suc.IH [of ?s "bs @ [pipe_front ?r]"] g unfolding eq
      by (simp add: funpow_Suc_right comp_def del: funpow.simps)
  qed
qed


text \<open>The outcome of a read, and the bytes it takes.\<close>

definition read_waits :: "pipe \<Rightarrow> bool" where
  "read_waits r \<longleftrightarrow> pipe_items r = [] \<and> pi_writeopen r"

definition read_outcome :: "int \<Rightarrow> bool \<Rightarrow> pipe \<Rightarrow> uchar list io" where
  "read_outcome n killed r =
     (if read_waits r then if killed then Done (-1) [] else Sleeps []
      else Done (int (min (nat n) (length (pipe_items r)))) (take (nat n) (pipe_items r)))"

lemma piperead_effect:
  assumes "calm s" "pipe_ok (pipes s p)" "proc_of s = Some me"
  shows "\<exists>t. piperead p n s = Inr (read_outcome n (p_killed (procs s me)) (pipes s p), t) \<and>
     quiet (upd_pipe p (pipe_get ^^ min (nat n) (length (pipe_items (pipes s p)))) s) t"
proof -
  let ?r = "pipes s p" and ?l = "PipeLock p"
  let ?s = "upd_pipe p (pipe_get ^^ min (nat n) (length (pipe_items ?r))) s"
  have "\<exists>u. piperead_locked p n (acquired ?l s) = Inr (read_outcome n (p_killed (procs s me)) ?r, u) \<and> quiet (acquired ?l ?s) u"
  proof (cases "read_waits ?r")
    case True
    then have "pi_nread ?r = pi_nwrite ?r" "pi_writeopen ?r" "pipe_items ?r = []" by (simp_all add: read_waits_def pipe_empty)
    then show ?thesis using assms(3) True by (simp add: piperead_locked_def read_outcome_def upd_pipe_id id_def)
  next
    case False
    have "calm ?s" using assms(1) by simp
    from wakeup_locked [OF this, of ?l "Some (ChanPipeWrite p)"] obtain u where
      u: "wakeup (Some (ChanPipeWrite p)) (acquired ?l ?s) = Inr u" "quiet (acquired ?l ?s) u" by auto
    have "\<not> (pi_nread ?r = pi_nwrite ?r \<and> pi_writeopen ?r)" using False by (simp add: read_waits_def pipe_empty)
    then have "piperead_locked p n (acquired ?l s) = Inr (read_outcome n (p_killed (procs s me)) ?r, u)"
      using u(1) False by (auto simp: piperead_locked_def read_outcome_def piperead_copy_spec [OF assms(2)] min.commute)
    with u(2) show ?thesis by blast
  qed
  then obtain u where u: "piperead_locked p n (acquired ?l s) = Inr (read_outcome n (p_killed (procs s me)) ?r, u)"
    "quiet (acquired ?l ?s) u" by blast
  from locked_quiet [where f = "piperead_locked p n", OF assms(1) u] show ?thesis by (simp add: piperead_def)
qed

subsection \<open>Readers and writers together\<close>

text \<open>
  Any number of processes write to and read from a pipe, a critical section at a time; between them
  the rest of the kernel runs and leaves the pipe alone. The history keeps the bytes accepted by writes
  and the bytes delivered by reads.
\<close>

fun io_rest :: "uchar list io \<Rightarrow> uchar list" where
  "io_rest (Done r bs) = bs"
| "io_rest (Sleeps bs) = bs"

inductive pipe_run :: "uint \<Rightarrow> kernel \<Rightarrow> kernel \<Rightarrow> uchar list \<Rightarrow> uchar list \<Rightarrow> bool" for p s0 where
  pstart: "pipe_run p s0 s0 (pipe_items (pipes s0 p)) []"
| pwrite: "pipe_run p s0 s sent recvd \<Longrightarrow> pipewrite p n bs s = Inr (out, t) \<Longrightarrow>
    pipe_run p s0 t (sent @ take (length bs - length (io_rest out)) bs) recvd"
| pread: "pipe_run p s0 s sent recvd \<Longrightarrow> piperead p n s = Inr (out, t) \<Longrightarrow>
    pipe_run p s0 t sent (recvd @ io_rest out)"
| pother: "pipe_run p s0 s sent recvd \<Longrightarrow> calm t \<Longrightarrow> proc_of t \<noteq> None \<Longrightarrow> pipes t p = pipes s p \<Longrightarrow>
    pipe_run p s0 t sent recvd"

lemma pipe_run_inv:
  assumes "pipe_run p s0 s sent recvd" "calm s0" "proc_of s0 \<noteq> None" "pipe_ok (pipes s0 p)"
  shows "calm s \<and> proc_of s \<noteq> None \<and> pipe_ok (pipes s p) \<and> sent = recvd @ pipe_items (pipes s p)"
  using assms
proof (induction rule: pipe_run.induct)
  case (pwrite s sent recvd n bs out t)
  let ?r = "pipes s p"
  from pwrite.IH pwrite.prems obtain me where i: "calm s" "proc_of s = Some me" "pipe_ok ?r" "sent = recvd @ pipe_items ?r" by auto
  let ?k = "min (room ?r) (length bs)"
  from pipewrite_effect [OF i(1,3,2), of n bs] pwrite.hyps(2) have
    outc: "out = write_outcome n bs (p_killed (procs s me)) ?r" and
    q: "quiet (upd_pipe p (fold pipe_put (take (room ?r) bs)) s) t" by auto
  have "length (pipe_items ?r) + length (take (room ?r) bs) \<le> 512" using pq.cap_law [OF i(3)] by (simp add: room_def)
  from pq.put_all [OF i(3) this] have p: "pipe_ok (fold pipe_put (take (room ?r) bs) ?r)"
    "pipe_items (fold pipe_put (take (room ?r) bs) ?r) = pipe_items ?r @ take (room ?r) bs" by simp_all
  have "pipes t p = fold pipe_put (take (room ?r) bs) ?r" using quiet_eq [OF q] by simp
  moreover have "take (length bs - length (io_rest out)) bs = take (room ?r) bs" by (simp add: outc write_outcome_def)
  moreover have "calm t" "proc_of t \<noteq> None" using quiet_calm [OF q] quiet_proc_of [OF q] i(1,2) by simp_all
  ultimately show ?case using p i(4) by simp
next
  case (pread s sent recvd n out t)
  let ?r = "pipes s p"
  from pread.IH pread.prems obtain me where i: "calm s" "proc_of s = Some me" "pipe_ok ?r" "sent = recvd @ pipe_items ?r" by auto
  let ?k = "min (nat n) (length (pipe_items ?r))"
  from piperead_effect [OF i(1,3,2), of n] pread.hyps(2) have
    outc: "out = read_outcome n (p_killed (procs s me)) ?r" and q: "quiet (upd_pipe p (pipe_get ^^ ?k) s) t" by auto
  from pq.get_all [OF i(3), of ?k] have g: "pipe_ok ((pipe_get ^^ ?k) ?r)" "pipe_items ((pipe_get ^^ ?k) ?r) = drop ?k (pipe_items ?r)"
    by simp_all
  have "pipes t p = (pipe_get ^^ ?k) ?r" using quiet_eq [OF q] by simp
  moreover have "io_rest out @ drop ?k (pipe_items ?r) = pipe_items ?r"
    by (cases "nat n \<le> length (pipe_items ?r)") (auto simp: outc read_outcome_def read_waits_def)
  moreover have "calm t" "proc_of t \<noteq> None" using quiet_calm [OF q] quiet_proc_of [OF q] i(1,2) by simp_all
  ultimately show ?case using g i(4) by simp
qed auto

text \<open>
  C11. Pipes are reliable byte streams (\<^verbatim>\<open>pipewrite\<close>, \<^verbatim>\<open>piperead\<close>): however the writes and reads of a pipe interleave,
  the bytes accepted so far are the bytes delivered so far followed by at most 512 bytes in the buffer:
  nothing is lost, duplicated or reordered, also when the counters wrap around.
\<close>

theorem pipe_stream:
  assumes "pipe_run p s0 s sent recvd" "calm s0" "proc_of s0 \<noteq> None" "pipe_ok (pipes s0 p)"
  shows "\<exists>q. sent = recvd @ q \<and> length q \<le> 512 \<and> q = pipe_items (pipes s p)"
  using pipe_run_inv [OF assms] pq.cap_law by blast


definition demo_pipe :: kernel where
  "demo_pipe = upd_pipe 0x1000 (\<lambda>r. r\<lparr>pi_nread := -1, pi_nwrite := -1, pi_readopen := True, pi_writeopen := True\<rparr>) demo"

lemma demo_pipe: "calm demo_pipe" "proc_of demo_pipe = Some 0" "pipe_items (pipes demo_pipe 0x1000) = []"
  "pipe_ok (pipes demo_pipe 0x1000)" "pi_writeopen (pipes demo_pipe 0x1000)"
proof -
  have "proc_of demo = Some 0" by (simp add: demo_def table_def proc_of_def)
  then show "calm demo_pipe" "proc_of demo_pipe = Some 0" "pipe_items (pipes demo_pipe 0x1000) = []"
    "pipe_ok (pipes demo_pipe 0x1000)" "pi_writeopen (pipes demo_pipe 0x1000)"
    using calm_demo by (simp_all add: demo_pipe_def pipe_items_def ring_def pipe_ok_def)
qed

theorem pipe_stream_witness:
  "\<exists>s q. pipe_run 0x1000 demo_pipe s [1, 2, 3] [1, 2] \<and> [1, 2, 3] = [1, 2] @ q \<and> q = pipe_items (pipes s 0x1000)"
proof -
  let ?p = "0x1000 :: uint" and ?s = demo_pipe
  have rm: "room (pipes ?s ?p) = 512" by (simp add: room_def demo_pipe(3))
  from pipewrite_effect [OF demo_pipe(1,4,2), of 3 "[1, 2, 3]"] obtain t where
    t: "pipewrite ?p 3 [1, 2, 3] ?s = Inr (Done 3 [], t)" "quiet (upd_pipe ?p (fold pipe_put [1, 2, 3]) ?s) t"
    by (auto simp: write_outcome_def rm)
  from pipe_run.pwrite [OF pipe_run.pstart t(1)] demo_pipe(3) have rt: "pipe_run ?p ?s t [1, 2, 3] []" by simp
  note it = pipe_run_inv [OF rt demo_pipe(1) _ demo_pipe(4)]
  have items: "pipe_items (pipes t ?p) = [1, 2, 3]" and ok: "calm t" "pipe_ok (pipes t ?p)"
    using it demo_pipe(2) by simp_all
  obtain me where me: "proc_of t = Some me" using it demo_pipe(2) by auto
  from piperead_effect [OF ok me, of 2] obtain u where u: "piperead ?p 2 t = Inr (Done 2 [1, 2], u)"
    by (auto simp: read_outcome_def read_waits_def items)
  from pipe_run.pread [OF rt u] have ru: "pipe_run ?p ?s u [1, 2, 3] [1, 2]" by simp
  from pipe_stream [OF ru demo_pipe(1) _ demo_pipe(4)] demo_pipe(2) ru show ?thesis by auto
qed

end
