(* ===== verification/Cprintf.thy ===== *)
theory Cprintf
  imports Spinlock
begin

section \<open>Console output (console.c, uart.c)\<close>

text \<open>
  The screen driver, the serial port's output and \<^verbatim>\<open>cprintf\<close>. The cursor position lives in two
  registers of the screen controller and the screen in memory of its own; the bytes given to the
  serial port are a list. A format and a string are the bytes before the terminating zero. The
  variable arguments are a list, a null string pointer being \<open>VStr None\<close>.
\<close>

datatype varg = VWord uint | VStr "uchar list option"

definition chars :: "string \<Rightarrow> uchar list" where
  "chars = map of_char"

subsection \<open>uart.c: uartputc\<close>

text \<open>The wait for the transmitter gives up after 128 rounds, so the byte is sent in any case.\<close>

definition uartputc :: "uint \<Rightarrow> kernel \<Rightarrow> kernel" where
  "uartputc c s = (if \<not> uart s then s else s\<lparr>consout := consout s @ [ucast c]\<rparr>)"

subsection \<open>console.c: cgaputc, consputc\<close>

definition BACKSPACE :: uint where "BACKSPACE = 0x100"

definition cga_advance :: "uint \<Rightarrow> nat \<Rightarrow> (nat \<Rightarrow> ushort) \<Rightarrow> nat \<times> (nat \<Rightarrow> ushort)" where
  "cga_advance c pos m =
     (if c = 10 then (pos + (80 - pos mod 80), m)
      else if c = BACKSPACE then (if pos > 0 then pos - 1 else pos, m)
      else (pos + 1, m(pos := ucast (c AND 0xff) OR 0x0700)))"

definition cga_scroll :: "nat \<times> (nat \<Rightarrow> ushort) \<Rightarrow> nat \<times> (nat \<Rightarrow> ushort)" where
  "cga_scroll pm =
     (case pm of (pos, m) \<Rightarrow>
        if pos div 80 \<ge> 24
        then let m1 = (\<lambda>i. if i < 23 * 80 then m (i + 80) else m i);
                 pos1 = pos - 80
             in (pos1, \<lambda>i. if pos1 \<le> i \<and> i < 24 * 80 then 0 else m1 i)
        else (pos, m))"

definition cgaputc :: "uint \<Rightarrow> kernel \<Rightarrow> kernel result" where
  "cgaputc c s =
     (let pm = cga_advance c (crt_pos s) (crt s) in
      if fst pm > 25 * 80 then Inl (Panic ''pos under/overflow'')
      else case cga_scroll pm of (pos, m) \<Rightarrow>
        Inr (s\<lparr>crt_pos := pos, crt := m(pos := 0x0720)\<rparr>))"

text \<open>After a panic every CPU that prints spins for ever.\<close>

definition consputc :: "uint \<Rightarrow> kernel \<Rightarrow> kernel result" where
  "consputc c s =
     (if panicked s then Inl Diverges
      else cgaputc c
        (if c = BACKSPACE then uartputc 8 (uartputc 32 (uartputc 8 s)) else uartputc c s))"

subsection \<open>console.c: printint, cprintf\<close>

definition digits_lower :: "uchar list" where
  "digits_lower = [48, 49, 50, 51, 52, 53, 54, 55, 56, 57, 97, 98, 99, 100, 101, 102]"

text \<open>The loop that fills \<^verbatim>\<open>buf[16]\<close>, of which \<open>k\<close> bytes are left.\<close>

fun cons_digits :: "nat \<Rightarrow> uint \<Rightarrow> uint \<Rightarrow> uchar list \<Rightarrow> uchar list result" where
  "cons_digits 0 base x buf = Inl OutOfBounds"
| "cons_digits (Suc k) base x buf =
     (let buf' = buf @ [digits_lower ! unat (x mod base)] in
      if x div base \<noteq> 0 then cons_digits k base (x div base) buf' else Inr buf')"

definition printint :: "uint \<Rightarrow> uint \<Rightarrow> bool \<Rightarrow> kernel \<Rightarrow> kernel result" where
  "printint xx base sign s =
     (let sign' = (sign \<and> sint xx < 0);
          x = (if sign' then - xx else xx)
      in rbind (cons_digits 16 base x []) (\<lambda>buf.
         if sign' \<and> length buf \<ge> 16 then Inl OutOfBounds
         else rfold (\<lambda>c. consputc (scast c)) (rev (if sign' then buf @ [45] else buf)) s))"

fun cprintf_loop :: "uchar list \<Rightarrow> varg list \<Rightarrow> kernel \<Rightarrow> kernel result" where
  "cprintf_loop [] args s = Inr s"
| "cprintf_loop (c # fmt) args s =
     (if c \<noteq> 37 then rbind (consputc (ucast c) s) (cprintf_loop fmt args)
      else case fmt of [] \<Rightarrow> Inr s
      | d # fmt' \<Rightarrow>
          if d = 100
          then case args of VWord w # args' \<Rightarrow> rbind (printint w 10 True s) (cprintf_loop fmt' args')
               | _ \<Rightarrow> Inl OutOfBounds
          else if d = 120 \<or> d = 112
          then case args of VWord w # args' \<Rightarrow> rbind (printint w 16 False s) (cprintf_loop fmt' args')
               | _ \<Rightarrow> Inl OutOfBounds
          else if d = 115
          then case args of
                 VStr t # args' \<Rightarrow>
                   rbind (rfold (\<lambda>c. consputc (scast c)) (case t of None \<Rightarrow> chars ''(null)'' | Some t \<Rightarrow> t) s)
                     (cprintf_loop fmt' args')
               | _ \<Rightarrow> Inl OutOfBounds
          else if d = 37 then rbind (consputc 37 s) (cprintf_loop fmt' args)
          else rbind (rbind (consputc 37 s) (consputc (ucast d))) (cprintf_loop fmt' args))"

definition cprintf :: "uchar list option \<Rightarrow> varg list \<Rightarrow> kernel \<Rightarrow> kernel result" where
  "cprintf fmt args s =
     (let locking = cons_locking s in
      rbind (if locking then acquire ConsLock s else Inr s) (\<lambda>s.
      case fmt of None \<Rightarrow> Inl (Panic ''null fmt'') | Some fmt \<Rightarrow>
      rbind (cprintf_loop fmt args s) (\<lambda>s.
      if locking then release ConsLock s else Inr s)))"

subsection \<open>What is printed\<close>

text \<open>The numeral of a number in a base of at least two, most significant digit first.\<close>

fun digit_text :: "nat \<Rightarrow> nat \<Rightarrow> uchar list" where
  "digit_text b n =
     (if b < 2 \<or> n < b then [digits_lower ! n] else digit_text b (n div b) @ [digits_lower ! (n mod b)])"

declare digit_text.simps [simp del]

lemma cons_digits_text:
  assumes "2 \<le> unat base" "unat x < unat base ^ k" "k \<noteq> 0" "k \<le> j"
  shows "cons_digits j base x buf = Inr (buf @ rev (digit_text (unat base) (unat x)))"
    and "length (digit_text (unat base) (unat x)) \<le> k"
proof -
  have "cons_digits j base x buf = Inr (buf @ rev (digit_text (unat base) (unat x))) \<and>
      length (digit_text (unat base) (unat x)) \<le> k"
    using assms(2-4)
  proof (induction k arbitrary: x buf j)
    case (Suc k)
    then obtain i where j: "j = Suc i" "k \<le> i" by (cases j) auto
    have dm: "unat (x div base) = unat x div unat base" "unat (x mod base) = unat x mod unat base"
      by (simp_all add: unat_div unat_mod)
    show ?case
    proof (cases "unat x < unat base")
      case True
      then have "x div base = 0" using dm(1) by (simp add: unat_eq_0 [symmetric])
      with True assms(1) j dm show ?thesis by (simp add: digit_text.simps [of "unat base" "unat x"])
    next
      case False
      then have "unat (x div base) \<noteq> 0" using dm(1) assms(1) by (simp add: div_eq_0_iff not_less)
      then have nz: "x div base \<noteq> 0" by (metis unat_0)
      have k: "k \<noteq> 0"
      proof
        assume "k = 0"
        with Suc.prems(1) False show False by simp
      qed
      have "unat (x div base) < unat base ^ k"
        using Suc.prems(1) assms(1) dm(1) by (simp add: less_mult_imp_div_less mult.commute)
      from Suc.IH [OF this k j(2)] nz False assms(1) j dm show ?thesis
        by (simp add: digit_text.simps [of "unat base" "unat x"])
    qed
  qed simp
  then show "cons_digits j base x buf = Inr (buf @ rev (digit_text (unat base) (unat x)))"
    "length (digit_text (unat base) (unat x)) \<le> k" by simp_all
qed

definition int_text :: "uint \<Rightarrow> uint \<Rightarrow> bool \<Rightarrow> uchar list" where
  "int_text w base sign =
     (if sign \<and> sint w < 0 then 45 # digit_text (unat base) (unat (- w)) else digit_text (unat base) (unat w))"

fun render :: "uchar list \<Rightarrow> varg list \<Rightarrow> uchar list option" where
  "render [] args = Some []"
| "render (c # fmt) args =
     (if c \<noteq> 37 then map_option (Cons c) (render fmt args)
      else case fmt of [] \<Rightarrow> Some []
      | d # fmt' \<Rightarrow>
          if d = 100 \<or> d = 120 \<or> d = 112
          then case args of
                 VWord w # args' \<Rightarrow>
                   map_option ((@) (int_text w (if d = 100 then 10 else 16) (d = 100))) (render fmt' args')
               | _ \<Rightarrow> None
          else if d = 115
          then case args of
                 VStr t # args' \<Rightarrow>
                   map_option ((@) (case t of None \<Rightarrow> chars ''(null)'' | Some t \<Rightarrow> t)) (render fmt' args')
               | _ \<Rightarrow> None
          else map_option ((@) (if d = 37 then [37] else [37, d])) (render fmt' args))"

text \<open>The cursor stays above the bottom line, which keeps \<^verbatim>\<open>cgaputc\<close> from panicking.\<close>

definition cons_ok :: "kernel \<Rightarrow> bool" where
  "cons_ok s \<longleftrightarrow> \<not> panicked s \<and> crt_pos s < 24 * 80"

definition emits :: "uchar list \<Rightarrow> kernel \<Rightarrow> kernel \<Rightarrow> bool" where
  "emits bs s t \<longleftrightarrow> cons_ok t \<and> consout t = consout s @ (if uart s then bs else []) \<and>
     t\<lparr>consout := consout s, crt_pos := crt_pos s, crt := crt s\<rparr> = s"

lemma emits_nil: "cons_ok s \<Longrightarrow> emits [] s s"
  by (simp add: emits_def)

lemma emits_append:
  assumes "emits bs s t" "emits cs t u"
  shows "emits (bs @ cs) s u"
  using assms by (cases s; cases t; cases u) (auto simp: emits_def)

lemma emits_ok: "emits bs s t \<Longrightarrow> cons_ok t"
  by (simp add: emits_def)

lemma cga_bound:
  assumes "pos < 24 * 80"
  shows "fst (cga_advance c pos m) \<le> 24 * 80" "fst (cga_scroll (cga_advance c pos m)) < 24 * 80"
proof -
  have "pos mod 80 < 80" "80 * (pos div 80) + pos mod 80 = pos" by simp_all
  then have "pos + (80 - pos mod 80) = 80 * (pos div 80) + 80" by linarith
  moreover have "pos div 80 < 24" using assms by (simp add: less_mult_imp_div_less)
  ultimately have "pos + (80 - pos mod 80) \<le> 24 * 80" by linarith
  with assms show a: "fst (cga_advance c pos m) \<le> 24 * 80" by (auto simp: cga_advance_def)
  have "p < 24 * 80" if "\<not> p div 80 \<ge> 24" for p :: nat
    using that by (simp add: not_le div_less_iff_less_mult)
  with a show "fst (cga_scroll (cga_advance c pos m)) < 24 * 80"
    by (auto simp: cga_scroll_def Let_def split: prod.splits)
qed

lemma cgaputc_ok:
  assumes "crt_pos s < 24 * 80"
  shows "\<exists>p m. cgaputc c s = Inr (s\<lparr>crt_pos := p, crt := m\<rparr>) \<and> p < 24 * 80"
proof -
  let ?pm = "cga_advance c (crt_pos s) (crt s)"
  obtain p m where pm: "cga_scroll ?pm = (p, m)" by fastforce
  have "p < 24 * 80" using cga_bound(2) [OF assms, of c "crt s"] pm by simp
  moreover have "\<not> fst ?pm > 25 * 80" using cga_bound(1) [OF assms, of c "crt s"] by simp
  ultimately show ?thesis using pm by (auto simp: cgaputc_def Let_def)
qed

lemma consputc_emits:
  assumes "cons_ok s" "c \<noteq> BACKSPACE"
  shows "\<exists>t. consputc c s = Inr t \<and> emits [ucast c] s t"
proof -
  have "crt_pos (uartputc c s) < 24 * 80" using assms(1) by (simp add: cons_ok_def uartputc_def)
  from cgaputc_ok [OF this, of c] obtain p m where
    "cgaputc c (uartputc c s) = Inr ((uartputc c s)\<lparr>crt_pos := p, crt := m\<rparr>)" "p < 24 * 80" by blast
  then show ?thesis
    using assms by (cases "uart s") (simp_all add: consputc_def cons_ok_def emits_def uartputc_def)
qed

lemma not_backspace [simp]: "ucast (c :: uchar) \<noteq> BACKSPACE" "scast (c :: uchar) \<noteq> BACKSPACE"
proof -
  have "ucast (ucast c :: uint) = c" "ucast (scast c :: uint) = c" by (rule bit_word_eqI; auto simp: bit_simps)+
  moreover have "ucast BACKSPACE = (0 :: uchar)" by (simp add: BACKSPACE_def)
  moreover have "ucast (0 :: uchar) \<noteq> BACKSPACE" "scast (0 :: uchar) \<noteq> BACKSPACE" by (simp_all add: BACKSPACE_def)
  ultimately show "ucast c \<noteq> BACKSPACE" "scast c \<noteq> BACKSPACE" by metis+
qed

lemma ucast_scast_char [simp]: "ucast (scast (c :: uchar) :: uint) = c" "ucast (ucast (c :: uchar) :: uint) = c"
  by (rule bit_word_eqI; auto simp: bit_simps)+

text \<open>Printing in sequence.\<close>

lemma emits_bind:
  assumes "\<exists>t. f s = Inr t \<and> emits bs s t" and "\<And>t. cons_ok t \<Longrightarrow> \<exists>u. g t = Inr u \<and> emits cs t u"
  shows "\<exists>u. rbind (f s) g = Inr u \<and> emits (bs @ cs) s u"
proof -
  from assms(1) obtain t where t: "f s = Inr t" "emits bs s t" by blast
  from assms(2) [OF emits_ok [OF t(2)]] obtain u where "g t = Inr u" "emits cs t u" by blast
  with t emits_append show ?thesis by fastforce
qed

lemma string_emits:
  "cons_ok s \<Longrightarrow> \<exists>t. rfold (\<lambda>c. consputc (scast c)) cs s = Inr t \<and> emits cs s t"
proof (induction cs arbitrary: s)
  case (Cons c cs)
  show ?case
    using emits_bind [where f = "consputc (scast c)" and g = "rfold (\<lambda>c. consputc (scast c)) cs" and bs = "[c]",
        OF _ Cons.IH] consputc_emits [OF Cons.prems, of "scast c"] by simp
qed (simp add: emits_nil)

lemma printint_emits:
  assumes "cons_ok s" "10 \<le> unat base"
  shows "\<exists>t. printint w base sign s = Inr t \<and> emits (int_text w base sign) s t"
proof -
  let ?n = "sign \<and> sint w < 0"
  let ?x = "if ?n then - w else w"
  have "unat ?x < 2 ^ 32" using unsigned_less [of ?x, where ?'a = nat] by simp
  also have "\<dots> < (10 :: nat) ^ 10" by simp
  also have "\<dots> \<le> unat base ^ 10" using assms(2) by (rule power_mono) simp
  finally have x: "unat ?x < unat base ^ 10" .
  have two: "2 \<le> unat base" using assms(2) by simp
  note d = cons_digits_text(1) [OF two x, of 16 "[]"] cons_digits_text(2) [OF two x, of 16]
  have "printint w base sign s = rfold (\<lambda>c. consputc (scast c)) (int_text w base sign) s"
  proof (cases ?n)
    case True
    with d show ?thesis by (simp add: printint_def int_text_def Let_def)
  next
    case False
    then have "?x = w" by (simp only: if_False)
    with d False show ?thesis by (auto simp: printint_def int_text_def Let_def)
  qed
  with string_emits [OF assms(1)] show ?thesis by simp
qed

lemma cprintf_loop_emits:
  "cons_ok s \<Longrightarrow> render fmt args = Some bs \<Longrightarrow> \<exists>t. cprintf_loop fmt args s = Inr t \<and> emits bs s t"
proof (induction fmt args arbitrary: s bs rule: render.induct)
  case (1 args)
  then show ?case by (simp add: emits_nil)
next
  case (2 c fmt args)
  show ?case
  proof (cases "c = 37")
    case False
    with "2.prems" obtain cs where cs: "render fmt args = Some cs" "bs = c # cs" by auto
    have "\<exists>t. rbind (consputc (ucast c) s) (cprintf_loop fmt args) = Inr t \<and> emits ([c] @ cs) s t"
      by (rule emits_bind) (use consputc_emits [OF "2.prems"(1), of "ucast c"] "2.IH"(1) [OF False _ cs(1)] in auto)
    with False cs show ?thesis by simp
  next
    case True
    show ?thesis
    proof (cases fmt)
      case Nil
      with True "2.prems" show ?thesis by (auto simp: emits_nil)
    next
      case (Cons d fmt')
      have pct: "\<exists>t. consputc 37 s = Inr t \<and> emits [37] s t" if "cons_ok s" for s
        using consputc_emits [OF that, of 37] by (simp add: BACKSPACE_def)
      consider (n) "d = 100 \<or> d = 120 \<or> d = 112" | (s) "d = 115"
        | (o) "\<not> (d = 100 \<or> d = 120 \<or> d = 112)" "d \<noteq> 115" by blast
      then show ?thesis
      proof cases
        case n
        with True Cons "2.prems" obtain w args' cs where a: "args = VWord w # args'" "render fmt' args' = Some cs"
          "bs = int_text w (if d = 100 then 10 else 16) (d = 100) @ cs"
          by (auto split: list.splits varg.splits)
        have "\<exists>t. rbind (printint w (if d = 100 then 10 else 16) (d = 100) s) (cprintf_loop fmt' args') = Inr t \<and>
            emits bs s t"
          unfolding a(3) using "2.IH"(2) [OF _ Cons n a(1)] True a(2)
          by (intro emits_bind printint_emits "2.prems"(1)) simp_all
        with n True Cons a(1) show ?thesis by auto
      next
        case s
        with True Cons "2.prems" obtain t args' cs where a: "args = VStr t # args'" "render fmt' args' = Some cs"
          "bs = (case t of None \<Rightarrow> chars ''(null)'' | Some t \<Rightarrow> t) @ cs"
          by (auto split: list.splits varg.splits)
        have "\<exists>u. rbind (rfold (\<lambda>c. consputc (scast c)) (case t of None \<Rightarrow> chars ''(null)'' | Some t \<Rightarrow> t) s)
            (cprintf_loop fmt' args') = Inr u \<and> emits bs s u"
          unfolding a(3) using "2.IH"(3) [OF _ Cons _ s a(1)] True a(2) s
          by (intro emits_bind string_emits "2.prems"(1)) simp_all
        with s True Cons a(1) show ?thesis by simp
      next
        case o
        with True Cons "2.prems" obtain cs where cs: "render fmt' args = Some cs"
          "bs = (if d = 37 then [37] else [37, d]) @ cs" by auto
        have two: "\<exists>t. rbind (consputc 37 s) (consputc (ucast d)) = Inr t \<and> emits ([37] @ [d]) s t"
          using pct [OF "2.prems"(1)] consputc_emits [of _ "ucast d"] by (intro emits_bind) simp_all
        have "\<exists>u. rbind (if d = 37 then consputc 37 s else rbind (consputc 37 s) (consputc (ucast d)))
            (cprintf_loop fmt' args) = Inr u \<and> emits bs s u"
          unfolding cs(2)
          using pct [OF "2.prems"(1)] two "2.IH"(4) [OF _ Cons o(1,2)] True cs(1)
          by (intro emits_bind [where f = "\<lambda>s. if d = 37 then consputc 37 s else rbind (consputc 37 s) (consputc (ucast d))"])
            auto
        with o True Cons show ?thesis by (cases "d = 37") simp_all
      qed
    qed
  qed
qed

text \<open>The lock of the console, taken when \<^verbatim>\<open>cons.locking\<close> is set.\<close>

definition cons_lockable :: "kernel \<Rightarrow> bool" where
  "cons_lockable s \<longleftrightarrow> cons_locking s \<longrightarrow> lock_free ConsLock s \<and> cli_ok s"

definition cons_frame :: "kernel \<Rightarrow> kernel \<Rightarrow> bool" where
  "cons_frame s t \<longleftrightarrow> lock_frame s t \<and>
     t\<lparr>consout := consout s, crt_pos := crt_pos s, crt := crt s, locks := locks s, cpus := cpus s\<rparr> = s"

lemma emits_frame: "emits bs s t \<Longrightarrow> locks t = locks s \<and> cpus t = cpus s \<and> cpuno t = cpuno s"
  by (cases s; cases t) (simp add: emits_def)

lemma cprintf_emits:
  assumes ok: "cons_ok s" "cons_lockable s" and r: "render fmt args = Some bs"
  shows "\<exists>t. cprintf (Some fmt) args s = Inr t \<and> cons_ok t \<and>
     consout t = consout s @ (if uart s then bs else []) \<and> cons_frame s t"
proof (cases "cons_locking s")
  case False
  with cprintf_loop_emits [OF ok(1) r] obtain t where t: "cprintf (Some fmt) args s = Inr t" "emits bs s t"
    by (auto simp: cprintf_def)
  moreover have "cons_frame s t"
    using t(2) emits_frame [OF t(2)] by (cases s; cases t) (simp add: cons_frame_def emits_def lock_frame_same)
  ultimately show ?thesis by (auto simp: emits_def)
next
  case True
  with ok have lk: "lock_free ConsLock s" "cli_ok s" by (simp_all add: cons_lockable_def)
  let ?a = "acquired ConsLock s"
  have "cons_ok ?a" using ok(1) by (simp add: cons_ok_def)
  from cprintf_loop_emits [OF this r] obtain t where t: "cprintf_loop fmt args ?a = Inr t" "emits bs ?a t"
    by blast
  have fr: "lock_frame ?a t" using emits_frame [OF t(2)] by (intro lock_frame_same) simp_all
  let ?f = "\<lambda>s. rbind (cprintf_loop fmt args s) (\<lambda>s. Inr ((), s))"
  have "?f ?a = Inr ((), t)" using t(1) by simp
  note w = with_lock_frame [where f = ?f, OF lk this fr]
  have "cprintf (Some fmt) args s = Inr (released ConsLock t)"
    using w(1) True by (auto simp: cprintf_def with_lock_def acquire_free [OF lk(1)] t(1) result_simps)
  moreover have "cons_frame s (released ConsLock t)"
    using w(2) t(2) by (cases s; cases t) (simp add: cons_frame_def emits_def released_def acquired_def
        pushcli_def upd_cpu_def)
  ultimately show ?thesis using t(2) by (auto simp: emits_def cons_ok_def)
qed

text \<open>
  C25. \<^verbatim>\<open>cprintf\<close> on a machine that has not panicked never fails: with arguments that fit the
  format it sends exactly the rendered text to the serial port, keeps the cursor above the
  bottom line (so \<^verbatim>\<open>cgaputc\<close> does not panic), gives the console lock back, and changes nothing
  else.
\<close>

theorem cprintf_prints:
  assumes "cons_ok s" "cons_lockable s" "render fmt args = Some bs"
  shows "\<exists>t. cprintf (Some fmt) args s = Inr t \<and> cons_ok t \<and>
     consout t = consout s @ (if uart s then bs else []) \<and> cons_frame s t"
  using assms by (rule cprintf_emits)

theorem cprintf_prints_witness:
  "\<exists>t. cprintf (Some (chars ''cpu%d: %s%x'')) [VWord (-7), VStr None, VWord 255] ((bss True)\<lparr>uart := True\<rparr>) = Inr t \<and>
     consout t = chars ''cpu-7: (null)ff''"
proof -
  have d: "digit_text 10 7 = [55]" "digit_text 16 255 = [102, 102]"
    by (simp_all add: digit_text.simps digits_lower_def)
  have "render (chars ''cpu%d: %s%x'') [VWord (-7), VStr None, VWord 255] = Some (chars ''cpu-7: (null)ff'')"
    by (simp add: chars_def int_text_def d)
  moreover have "cons_ok ((bss True)\<lparr>uart := True\<rparr>)" "cons_lockable ((bss True)\<lparr>uart := True\<rparr>)"
    by (simp_all add: cons_ok_def cons_lockable_def bss_def)
  ultimately show ?thesis
    using cprintf_prints [of "(bss True)\<lparr>uart := True\<rparr>" "chars ''cpu%d: %s%x''"
        "[VWord (-7), VStr None, VWord 255]"] by (auto simp: bss_def)
qed

end
