(* ===== verification/Fs_Inode.thy ===== *)
theory Fs_Inode
  imports Log_Trans Cprintf
begin

section \<open>Blocks and inodes (fs.c)\<close>

text \<open>
  The block allocator, the inode cache and the mapping of file blocks. An inode pointer is the index of
  its entry of \<^verbatim>\<open>icache.inode\<close>; where the code tests it for null it is an option. On-disk inodes are laid over
  the bytes of a block. \<^verbatim>\<open>ilock\<close> on a locked inode stops with \<open>Blocks\<close>.
\<close>

definition upd_inode :: "nat \<Rightarrow> (inode \<Rightarrow> inode) \<Rightarrow> kernel \<Rightarrow> kernel" where
  "upd_inode ip f s = s\<lparr>inodes := (inodes s)(ip := f (inodes s ip))\<rparr>"

subsection \<open>The layout of the disk (fs.h)\<close>

definition NDIRECT :: nat where "NDIRECT = 10"
definition NINDIRECT :: nat where "NINDIRECT = BSIZE div 4"
definition MAXFILE :: nat where "MAXFILE = NDIRECT + NINDIRECT"
definition IPB :: nat where "IPB = BSIZE div 64"
definition BPB :: nat where "BPB = BSIZE * 8"
definition DIRSIZ :: nat where "DIRSIZ = 14"
definition T_DIR :: ushort where "T_DIR = 1"
definition T_FILE :: ushort where "T_FILE = 2"
definition T_DEV :: ushort where "T_DEV = 3"
definition ROOTDEV :: uint where "ROOTDEV = 1"
definition ROOTINO :: uint where "ROOTINO = 1"
definition NDEV :: int where "NDEV = 10"
definition DEFAULT_UID :: ushort where "DEFAULT_UID = 0"
definition DEFAULT_GID :: ushort where "DEFAULT_GID = 0"
definition DEFAULT_MODE :: uint where "DEFAULT_MODE = 493"

definition IBLOCK :: "uint \<Rightarrow> superblock \<Rightarrow> uint" where
  "IBLOCK i r = i div of_nat IPB + sb_inodestart r"

definition BBLOCK :: "uint \<Rightarrow> superblock \<Rightarrow> uint" where
  "BBLOCK b r = b div of_nat BPB + sb_bmapstart r"

text \<open>The on-disk inode in the bytes of its block, from offset \<open>p\<close> on.\<close>

definition dinode_at :: "uint \<Rightarrow> nat" where
  "dinode_at inum = 64 * (unat inum mod IPB)"

definition put_dinode :: "nat \<Rightarrow> inode \<Rightarrow> block \<Rightarrow> block" where
  "put_dinode p ip d =
     put_array (p + 20) (i_addrs ip) (NDIRECT + 1)
     (put32 (p + 16) (i_size ip)
     (put32 (p + 12) (i_mode ip)
     (put16 (p + 10) (i_gid ip)
     (put16 (p + 8) (i_uid ip)
     (put16 (p + 6) (i_nlink ip)
     (put16 (p + 4) (i_minor ip)
     (put16 (p + 2) (i_major ip)
     (put16 p (i_type ip) d))))))))"

definition get_dinode :: "nat \<Rightarrow> block \<Rightarrow> inode \<Rightarrow> inode" where
  "get_dinode p d ip = ip\<lparr>i_type := get16 d p, i_major := get16 d (p + 2), i_minor := get16 d (p + 4),
     i_nlink := get16 d (p + 6), i_size := get32 d (p + 16), i_uid := get16 d (p + 8),
     i_gid := get16 d (p + 10), i_mode := get32 d (p + 12),
     i_addrs := (\<lambda>i. if i \<le> NDIRECT then get32 d (p + 20 + 4 * i) else i_addrs ip i)\<rparr>"

subsection \<open>Blocks\<close>

definition bzero :: "uint \<Rightarrow> uint \<Rightarrow> kernel \<Rightarrow> kernel result" where
  "bzero dev bno s =
     rbind (bread dev bno s) (\<lambda>(bp, s).
     rbind (log_write bp (set_data bp (\<lambda>i. if i < BSIZE then 0 else b_data (bufs s bp) i) s)) (brelse bp))"

text \<open>The bit of a block in a block of the free map.\<close>

definition bit_free :: "block \<Rightarrow> nat \<Rightarrow> bool" where
  "bit_free d bi \<longleftrightarrow> d (bi div 8) AND push_bit (bi mod 8) 1 = 0"

definition mark_bit :: "nat \<Rightarrow> block \<Rightarrow> block" where
  "mark_bit bi d = d(bi div 8 := d (bi div 8) OR push_bit (bi mod 8) 1)"

definition clear_bit :: "nat \<Rightarrow> block \<Rightarrow> block" where
  "clear_bit bi d = d(bi div 8 := d (bi div 8) AND NOT (push_bit (bi mod 8) 1))"

text \<open>The inner loop of \<^verbatim>\<open>balloc\<close>: the first free bit of a block of the map.\<close>

fun balloc_bit :: "nat \<Rightarrow> nat \<Rightarrow> uint \<Rightarrow> uint \<Rightarrow> block \<Rightarrow> nat option" where
  "balloc_bit 0 bi b sz d = None"
| "balloc_bit (Suc k) bi b sz d =
     (if \<not> b + of_nat bi < sz then None
      else if bit_free d bi then Some bi
      else balloc_bit k (Suc bi) b sz d)"

fun balloc_loop :: "nat \<Rightarrow> uint \<Rightarrow> uint \<Rightarrow> kernel \<Rightarrow> (uint \<times> kernel) result" where
  "balloc_loop 0 dev b s = Inl Diverges"
| "balloc_loop (Suc k) dev b s =
     (if b < sb_size (sb s)
      then rbind (bread dev (BBLOCK b (sb s)) s) (\<lambda>(bp, s).
        case balloc_bit BPB 0 b (sb_size (sb s)) (b_data (bufs s bp)) of
          Some bi \<Rightarrow>
            rbind (log_write bp (set_data bp (mark_bit bi (b_data (bufs s bp))) s)) (\<lambda>s.
            rbind (brelse bp s) (\<lambda>s.
            rbind (bzero dev (b + of_nat bi) s) (\<lambda>s. Inr (b + of_nat bi, s))))
        | None \<Rightarrow> rbind (brelse bp s) (balloc_loop k dev (b + of_nat BPB)))
      else Inl (Panic ''balloc: out of blocks''))"

definition balloc :: "uint \<Rightarrow> kernel \<Rightarrow> (uint \<times> kernel) result" where
  "balloc dev s = balloc_loop (2 ^ 20) dev 0 s"

definition bfree :: "uint \<Rightarrow> uint \<Rightarrow> kernel \<Rightarrow> kernel result" where
  "bfree dev b s =
     rbind (readsb dev s) (\<lambda>(r, s).
     let s = s\<lparr>sb := r\<rparr> in
     rbind (bread dev (BBLOCK b (sb s)) s) (\<lambda>(bp, s).
     let bi = unat b mod BPB in
     if bit_free (b_data (bufs s bp)) bi then Inl (Panic ''freeing free block'')
     else rbind (log_write bp (set_data bp (clear_bit bi (b_data (bufs s bp))) s)) (brelse bp)))"

subsection \<open>The inode cache\<close>

definition iinit :: "uint \<Rightarrow> kernel \<Rightarrow> kernel result" where
  "iinit dev s =
     rbind (readsb dev (initlock IcacheLock ''icache'' s)) (\<lambda>(r, s).
     cprintf (Some (chars ''sb: size %d nblocks %d ninodes %d nlog %d logstart %d inodestart %d bmap start %d'' @ [10]))
       [VWord (sb_size r), VWord (sb_nblocks r), VWord (sb_ninodes r), VWord (sb_nlog r), VWord (sb_logstart r),
        VWord (sb_inodestart r), VWord (sb_bmapstart r)] (s\<lparr>sb := r\<rparr>))"

text \<open>The search of the inode cache: a cached entry, or the first empty slot.\<close>

fun iget_scan :: "uint \<Rightarrow> uint \<Rightarrow> nat \<Rightarrow> nat \<Rightarrow> nat option \<Rightarrow> kernel \<Rightarrow> nat + nat option" where
  "iget_scan dev inum 0 i e s = Inr e"
| "iget_scan dev inum (Suc k) i e s =
     (let ip = inodes s i in
      if i_ref ip > 0 \<and> i_dev ip = dev \<and> i_inum ip = inum then Inl i
      else iget_scan dev inum k (Suc i) (if e = None \<and> i_ref ip = 0 then Some i else e) s)"

definition iget_locked :: "uint \<Rightarrow> uint \<Rightarrow> kernel \<Rightarrow> (nat \<times> kernel) result" where
  "iget_locked dev inum s =
     (case iget_scan dev inum NINODE 0 None s of
        Inl i \<Rightarrow> Inr (i, upd_inode i (\<lambda>ip. ip\<lparr>i_ref := i_ref ip + 1\<rparr>) s)
      | Inr None \<Rightarrow> Inl (Panic ''iget: no inodes'')
      | Inr (Some i) \<Rightarrow> Inr (i, upd_inode i (\<lambda>ip. ip\<lparr>i_dev := dev, i_inum := inum, i_ref := 1,
          i_busy := False, i_valid := False\<rparr>) s))"

definition iget :: "uint \<Rightarrow> uint \<Rightarrow> kernel \<Rightarrow> (nat \<times> kernel) result" where
  "iget dev inum s = with_lock IcacheLock (iget_locked dev inum) s"

text \<open>A new on-disk inode: zero but for its type, owner and mode.\<close>

definition new_dinode :: "ushort \<Rightarrow> inode" where
  "new_dinode ty = \<lparr>i_dev = 0, i_inum = 0, i_ref = 0, i_busy = False, i_valid = False, i_type = ty,
     i_major = 0, i_minor = 0, i_nlink = 0, i_uid = DEFAULT_UID, i_gid = DEFAULT_GID, i_mode = DEFAULT_MODE,
     i_size = 0, i_addrs = (\<lambda>_. 0)\<rparr>"

fun ialloc_loop :: "uint \<Rightarrow> ushort \<Rightarrow> nat list \<Rightarrow> kernel \<Rightarrow> (nat \<times> kernel) result" where
  "ialloc_loop dev ty [] s = Inl (Panic ''ialloc: no inodes'')"
| "ialloc_loop dev ty (inum # inums) s =
     rbind (bread dev (IBLOCK (of_nat inum) (sb s)) s) (\<lambda>(bp, s).
     let p = dinode_at (of_nat inum); d = b_data (bufs s bp) in
     if get16 d p = 0
     then rbind (log_write bp (set_data bp (put_dinode p (new_dinode ty) d) s)) (\<lambda>s.
          rbind (brelse bp s) (iget dev (of_nat inum)))
     else rbind (brelse bp s) (ialloc_loop dev ty inums))"

definition ialloc :: "uint \<Rightarrow> ushort \<Rightarrow> kernel \<Rightarrow> (nat \<times> kernel) result" where
  "ialloc dev ty s = ialloc_loop dev ty [1..<unat (sb_ninodes (sb s))] s"

definition iupdate :: "nat \<Rightarrow> kernel \<Rightarrow> kernel result" where
  "iupdate ip s =
     rbind (bread (i_dev (inodes s ip)) (IBLOCK (i_inum (inodes s ip)) (sb s)) s) (\<lambda>(bp, s).
     rbind (log_write bp (set_data bp (put_dinode (dinode_at (i_inum (inodes s ip))) (inodes s ip) (b_data (bufs s bp))) s))
       (brelse bp))"

definition idup :: "nat \<Rightarrow> kernel \<Rightarrow> (nat \<times> kernel) result" where
  "idup ip s = with_lock IcacheLock (\<lambda>s. Inr (ip, upd_inode ip (\<lambda>r. r\<lparr>i_ref := i_ref r + 1\<rparr>) s)) s"

definition ilock_locked :: "nat \<Rightarrow> kernel \<Rightarrow> (unit \<times> kernel) result" where
  "ilock_locked ip s =
     (if i_busy (inodes s ip) then Inl (Blocks (ChanInode ip))
      else Inr ((), upd_inode ip (\<lambda>r. r\<lparr>i_busy := True\<rparr>) s))"

definition ilock :: "nat option \<Rightarrow> kernel \<Rightarrow> kernel result" where
  "ilock ipp s =
     (case ipp of None \<Rightarrow> Inl (Panic ''ilock'') | Some ip \<Rightarrow>
      if i_ref (inodes s ip) < 1 then Inl (Panic ''ilock'')
      else rbind (with_lock IcacheLock (ilock_locked ip) s) (\<lambda>(_, s).
        if i_valid (inodes s ip) then Inr s
        else rbind (bread (i_dev (inodes s ip)) (IBLOCK (i_inum (inodes s ip)) (sb s)) s) (\<lambda>(bp, s).
          let s = upd_inode ip (get_dinode (dinode_at (i_inum (inodes s ip))) (b_data (bufs s bp))) s in
          rbind (brelse bp s) (\<lambda>s.
          let s = upd_inode ip (\<lambda>r. r\<lparr>i_valid := True\<rparr>) s in
          if i_type (inodes s ip) = 0 then Inl (Panic ''ilock: no type'') else Inr s))))"

definition iunlock :: "nat option \<Rightarrow> kernel \<Rightarrow> kernel result" where
  "iunlock ipp s =
     (case ipp of None \<Rightarrow> Inl (Panic ''iunlock'') | Some ip \<Rightarrow>
      if \<not> i_busy (inodes s ip) \<or> i_ref (inodes s ip) < 1 then Inl (Panic ''iunlock'')
      else rbind (with_lock IcacheLock (\<lambda>s.
        rbind (wakeup (Some (ChanInode ip)) (upd_inode ip (\<lambda>r. r\<lparr>i_busy := False\<rparr>) s)) (\<lambda>s. Inr ((), s))) s)
        (\<lambda>(_, s). Inr s))"

subsection \<open>Truncating and releasing an inode\<close>

definition itrunc_direct :: "nat \<Rightarrow> nat \<Rightarrow> kernel \<Rightarrow> kernel result" where
  "itrunc_direct ip i s =
     (if i_addrs (inodes s ip) i \<noteq> 0
      then rbind (bfree (i_dev (inodes s ip)) (i_addrs (inodes s ip) i) s) (\<lambda>s.
        Inr (upd_inode ip (\<lambda>r. r\<lparr>i_addrs := (i_addrs r)(i := 0)\<rparr>) s))
      else Inr s)"

definition itrunc_indirect :: "nat \<Rightarrow> nat \<Rightarrow> nat \<Rightarrow> kernel \<Rightarrow> kernel result" where
  "itrunc_indirect ip bp j s =
     (let a = get32 (b_data (bufs s bp)) (4 * j) in
      if a \<noteq> 0 then bfree (i_dev (inodes s ip)) a s else Inr s)"

definition itrunc :: "nat \<Rightarrow> kernel \<Rightarrow> kernel result" where
  "itrunc ip s =
     rbind (rfold (itrunc_direct ip) [0..<NDIRECT] s) (\<lambda>s.
     rbind (if i_addrs (inodes s ip) NDIRECT \<noteq> 0
       then rbind (bread (i_dev (inodes s ip)) (i_addrs (inodes s ip) NDIRECT) s) (\<lambda>(bp, s).
            rbind (rfold (itrunc_indirect ip bp) [0..<NINDIRECT] s) (\<lambda>s.
            rbind (brelse bp s) (\<lambda>s.
            rbind (bfree (i_dev (inodes s ip)) (i_addrs (inodes s ip) NDIRECT) s) (\<lambda>s.
            Inr (upd_inode ip (\<lambda>r. r\<lparr>i_addrs := (i_addrs r)(NDIRECT := 0)\<rparr>) s)))))
       else Inr s) (\<lambda>s.
     iupdate ip (upd_inode ip (\<lambda>r. r\<lparr>i_size := 0\<rparr>) s)))"

text \<open>The first critical section of \<^verbatim>\<open>iput\<close> tells whether the inode has to be freed.\<close>

definition iput_locked :: "nat \<Rightarrow> kernel \<Rightarrow> (bool \<times> kernel) result" where
  "iput_locked ip s =
     (let r = inodes s ip in
      if i_ref r = 1 \<and> i_valid r \<and> i_nlink r = 0
      then if i_busy r then Inl (Panic ''iput busy'') else Inr (True, upd_inode ip (\<lambda>r. r\<lparr>i_busy := True\<rparr>) s)
      else Inr (False, upd_inode ip (\<lambda>r. r\<lparr>i_ref := i_ref r - 1\<rparr>) s))"

definition iput :: "nat \<Rightarrow> kernel \<Rightarrow> kernel result" where
  "iput ip s =
     rbind (with_lock IcacheLock (iput_locked ip) s) (\<lambda>(free, s).
     if free
     then rbind (itrunc ip s) (\<lambda>s.
          rbind (iupdate ip (upd_inode ip (\<lambda>r. r\<lparr>i_type := 0\<rparr>) s)) (\<lambda>s.
          rbind (with_lock IcacheLock (\<lambda>s.
            rbind (wakeup (Some (ChanInode ip)) (upd_inode ip (\<lambda>r. r\<lparr>i_busy := False, i_valid := False\<rparr>) s)) (\<lambda>s.
            Inr ((), upd_inode ip (\<lambda>r. r\<lparr>i_ref := i_ref r - 1\<rparr>) s))) s) (\<lambda>(_, s). Inr s)))
     else Inr s)"

definition iunlockput :: "nat \<Rightarrow> kernel \<Rightarrow> kernel result" where
  "iunlockput ip s = rbind (iunlock (Some ip) s) (iput ip)"

subsection \<open>The blocks of a file\<close>

definition bmap :: "nat \<Rightarrow> uint \<Rightarrow> kernel \<Rightarrow> (uint \<times> kernel) result" where
  "bmap ip bn s =
     (if unat bn < NDIRECT
      then
        let addr = i_addrs (inodes s ip) (unat bn) in
        if addr = 0
        then rbind (balloc (i_dev (inodes s ip)) s) (\<lambda>(addr, s).
             Inr (addr, upd_inode ip (\<lambda>r. r\<lparr>i_addrs := (i_addrs r)(unat bn := addr)\<rparr>) s))
        else Inr (addr, s)
      else if unat bn - NDIRECT < NINDIRECT
      then
        let bi = unat bn - NDIRECT in
        rbind (if i_addrs (inodes s ip) NDIRECT = 0
          then rbind (balloc (i_dev (inodes s ip)) s) (\<lambda>(addr, s).
               Inr (addr, upd_inode ip (\<lambda>r. r\<lparr>i_addrs := (i_addrs r)(NDIRECT := addr)\<rparr>) s))
          else Inr (i_addrs (inodes s ip) NDIRECT, s)) (\<lambda>(addr, s).
        rbind (bread (i_dev (inodes s ip)) addr s) (\<lambda>(bp, s).
        let addr = get32 (b_data (bufs s bp)) (4 * bi) in
        rbind (if addr = 0
          then rbind (balloc (i_dev (inodes s ip)) s) (\<lambda>(addr, s).
               rbind (log_write bp (set_data bp (put32 (4 * bi) addr (b_data (bufs s bp))) s)) (\<lambda>s. Inr (addr, s)))
          else Inr (addr, s)) (\<lambda>(addr, s).
        rbind (brelse bp s) (\<lambda>s. Inr (addr, s)))))
      else Inl (Panic ''bmap: out of range''))"

record stat =
  st_type :: ushort
  st_dev :: uint
  st_ino :: uint
  st_nlink :: ushort
  st_size :: uint
  st_uid :: ushort
  st_gid :: ushort
  st_mode :: uint

definition stati :: "nat \<Rightarrow> kernel \<Rightarrow> stat" where
  "stati ip s = (let r = inodes s ip in
     \<lparr>st_type = i_type r, st_dev = i_dev r, st_ino = i_inum r, st_nlink = i_nlink r, st_size = i_size r,
      st_uid = i_uid r, st_gid = i_gid r, st_mode = i_mode r\<rparr>)"

end
