(* ===== verification/Vm.thy ===== *)
theory Vm
  imports Kalloc Cprintf
begin

section \<open>Page tables and address spaces (vm.c)\<close>

text \<open>
  Page directories and page tables are pages of the byte memory, read and written word by word
  at the addresses the C code computes. A null pointer result is the address 0. The segment
  descriptors, the task state and the page-table register are not part of the state.
\<close>

subsection \<open>mmu.h, memlayout.h\<close>

definition PTE_P :: uint where "PTE_P = 0x001"
definition PTE_W :: uint where "PTE_W = 0x002"
definition PTE_U :: uint where "PTE_U = 0x004"

definition PTE_ADDR :: "uint \<Rightarrow> uint" where "PTE_ADDR pte = pte AND NOT 0xFFF"
definition PTE_FLAGS :: "uint \<Rightarrow> uint" where "PTE_FLAGS pte = pte AND 0xFFF"

definition PDX :: "uint \<Rightarrow> uint" where "PDX va = drop_bit 22 va AND 0x3FF"
definition PTX :: "uint \<Rightarrow> uint" where "PTX va = drop_bit 12 va AND 0x3FF"

definition NPDENTRIES :: nat where "NPDENTRIES = 1024"
definition NPTENTRIES :: uint where "NPTENTRIES = 1024"

definition EXTMEM :: uint where "EXTMEM = 0x100000"
definition DEVSPACE :: uint where "DEVSPACE = 0xFE000000"
definition KERNLINK :: uint where "KERNLINK = KERNBASE + EXTMEM"

subsection \<open>walkpgdir, mappages\<close>

definition walkpgdir :: "uint \<Rightarrow> uint \<Rightarrow> bool \<Rightarrow> kernel \<Rightarrow> (uint \<times> kernel) result" where
  "walkpgdir pgdir va alloc s =
     (let pde = pgdir + 4 * PDX va in
      if load32 (mem s) pde AND PTE_P \<noteq> 0
      then Inr (p2v (PTE_ADDR (load32 (mem s) pde)) + 4 * PTX va, s)
      else if \<not> alloc then Inr (0, s)
      else rbind (kalloc s) (\<lambda>(pgtab, s).
        if pgtab = 0 then Inr (0, s)
        else
          let m = memset pgtab 0 PGSIZE (mem s);
              m = store32 pde (v2p pgtab OR PTE_P OR PTE_W OR PTE_U) m
          in Inr (pgtab + 4 * PTX va, s\<lparr>mem := m\<rparr>)))"

text \<open>
  The loop of \<^verbatim>\<open>mappages\<close> steps through page addresses until it meets \<^verbatim>\<open>last\<close>, so it takes at
  most \<open>2 ^ 20\<close> turns.
\<close>

fun mappages_loop :: "nat \<Rightarrow> uint \<Rightarrow> uint \<Rightarrow> uint \<Rightarrow> uint \<Rightarrow> uint \<Rightarrow> kernel \<Rightarrow> (int \<times> kernel) result" where
  "mappages_loop 0 pgdir a last_a pa perm s = Inl Diverges"
| "mappages_loop (Suc n) pgdir a last_a pa perm s =
     rbind (walkpgdir pgdir a True s) (\<lambda>(pte, s).
       if pte = 0 then Inr (-1, s)
       else if load32 (mem s) pte AND PTE_P \<noteq> 0 then Inl (Panic ''remap'')
       else
         let s = s\<lparr>mem := store32 pte (pa OR perm OR PTE_P) (mem s)\<rparr> in
         if a = last_a then Inr (0, s)
         else mappages_loop n pgdir (a + PGSIZE) last_a (pa + PGSIZE) perm s)"

definition mappages :: "uint \<Rightarrow> uint \<Rightarrow> uint \<Rightarrow> uint \<Rightarrow> uint \<Rightarrow> kernel \<Rightarrow> (int \<times> kernel) result" where
  "mappages pgdir va sz pa perm s =
     mappages_loop (2 ^ 20) pgdir (PGROUNDDOWN va) (PGROUNDDOWN (va + sz - 1)) pa perm s"

subsection \<open>The kernel's mappings\<close>

record kmapping =
  km_virt :: uint
  km_phys_start :: uint
  km_phys_end :: uint
  km_perm :: uint

definition kmap :: "uint \<Rightarrow> kmapping list" where
  "kmap data =
     [\<lparr>km_virt = KERNBASE, km_phys_start = 0, km_phys_end = EXTMEM, km_perm = PTE_W\<rparr>,
      \<lparr>km_virt = KERNLINK, km_phys_start = v2p KERNLINK, km_phys_end = v2p data, km_perm = 0\<rparr>,
      \<lparr>km_virt = data, km_phys_start = v2p data, km_phys_end = PHYSTOP, km_perm = PTE_W\<rparr>,
      \<lparr>km_virt = DEVSPACE, km_phys_start = DEVSPACE, km_phys_end = 0, km_perm = PTE_W\<rparr>]"

fun setupkvm_loop :: "kmapping list \<Rightarrow> uint \<Rightarrow> kernel \<Rightarrow> (uint \<times> kernel) result" where
  "setupkvm_loop [] pgdir s = Inr (pgdir, s)"
| "setupkvm_loop (k # ks) pgdir s =
     rbind (mappages pgdir (km_virt k) (km_phys_end k - km_phys_start k) (km_phys_start k) (km_perm k) s)
       (\<lambda>(r, s). if r < 0 then Inr (0, s) else setupkvm_loop ks pgdir s)"

definition setupkvm :: "kernel \<Rightarrow> (uint \<times> kernel) result" where
  "setupkvm s =
     rbind (kalloc s) (\<lambda>(pgdir, s).
       if pgdir = 0 then Inr (0, s)
       else
         let s = s\<lparr>mem := memset pgdir 0 PGSIZE (mem s)\<rparr> in
         if p2v PHYSTOP > DEVSPACE then Inl (Panic ''PHYSTOP too high'')
         else setupkvm_loop (kmap (kdata s)) pgdir s)"

definition kvmalloc :: "kernel \<Rightarrow> kernel result" where
  "kvmalloc s = rbind (setupkvm s) (\<lambda>(pgdir, s). Inr (s\<lparr>kpgdir := pgdir\<rparr>))"

subsection \<open>User memory\<close>

text \<open>Bytes stored from a buffer outside the modelled memory, \<^verbatim>\<open>memmove(a, buf, n)\<close>.\<close>

fun store_bytes :: "uint \<Rightarrow> uchar list \<Rightarrow> memory \<Rightarrow> memory" where
  "store_bytes a [] m = m"
| "store_bytes a (b # bs) m = store_bytes (a + 1) bs (m(a := b))"

definition inituvm :: "uint \<Rightarrow> uchar list \<Rightarrow> kernel \<Rightarrow> kernel result" where
  "inituvm pgdir init s =
     (if length init \<ge> unat PGSIZE then Inl (Panic ''inituvm: more than a page'')
      else rbind (kalloc s) (\<lambda>(a, s).
        if a = 0 then Inl NullDeref
        else rbind (mappages pgdir 0 PGSIZE (v2p a) (PTE_W OR PTE_U) (s\<lparr>mem := memset a 0 PGSIZE (mem s)\<rparr>))
          (\<lambda>(_, s). Inr (s\<lparr>mem := store_bytes a init (mem s)\<rparr>))))"

text \<open>
  The loop of \<^verbatim>\<open>deallocuvm\<close>. Sizes are at most \<^verbatim>\<open>KERNBASE\<close> in every call, so the address does not
  wrap around and at most \<open>2 ^ 20\<close> turns are taken.
\<close>

fun deallocuvm_loop :: "nat \<Rightarrow> uint \<Rightarrow> uint \<Rightarrow> uint \<Rightarrow> kernel \<Rightarrow> kernel result" where
  "deallocuvm_loop 0 pgdir a oldsz s = Inl Diverges"
| "deallocuvm_loop (Suc n) pgdir a oldsz s =
     (if a < oldsz
      then rbind (walkpgdir pgdir a False s) (\<lambda>(pte, s).
        if pte = 0 then deallocuvm_loop n pgdir (a + (NPTENTRIES - 1) * PGSIZE + PGSIZE) oldsz s
        else if load32 (mem s) pte AND PTE_P \<noteq> 0
        then
          let pa = PTE_ADDR (load32 (mem s) pte) in
          if pa = 0 then Inl (Panic ''kfree'')
          else rbind (kfree (p2v pa) s) (\<lambda>s.
            deallocuvm_loop n pgdir (a + PGSIZE) oldsz (s\<lparr>mem := store32 pte 0 (mem s)\<rparr>))
        else deallocuvm_loop n pgdir (a + PGSIZE) oldsz s)
      else Inr s)"

definition deallocuvm :: "uint \<Rightarrow> uint \<Rightarrow> uint \<Rightarrow> kernel \<Rightarrow> (uint \<times> kernel) result" where
  "deallocuvm pgdir oldsz newsz s =
     (if newsz \<ge> oldsz then Inr (oldsz, s)
      else rbind (deallocuvm_loop (2 ^ 20) pgdir (PGROUNDUP newsz) oldsz s) (\<lambda>s. Inr (newsz, s)))"

text \<open>The result of \<^verbatim>\<open>mappages\<close> is ignored.\<close>

fun allocuvm_loop :: "nat \<Rightarrow> uint \<Rightarrow> uint \<Rightarrow> uint \<Rightarrow> uint \<Rightarrow> kernel \<Rightarrow> (uint \<times> kernel) result" where
  "allocuvm_loop 0 pgdir a oldsz newsz s = Inl Diverges"
| "allocuvm_loop (Suc n) pgdir a oldsz newsz s =
     (if a < newsz
      then rbind (kalloc s) (\<lambda>(v, s).
        if v = 0
        then rbind (cprintf (Some (chars ''allocuvm out of memory'' @ [10])) [] s) (\<lambda>s.
             rbind (deallocuvm pgdir newsz oldsz s) (\<lambda>(_, s). Inr (0, s)))
        else rbind (mappages pgdir a PGSIZE (v2p v) (PTE_W OR PTE_U) (s\<lparr>mem := memset v 0 PGSIZE (mem s)\<rparr>))
          (\<lambda>(_, s). allocuvm_loop n pgdir (a + PGSIZE) oldsz newsz s))
      else Inr (newsz, s))"

definition allocuvm :: "uint \<Rightarrow> uint \<Rightarrow> uint \<Rightarrow> kernel \<Rightarrow> (uint \<times> kernel) result" where
  "allocuvm pgdir oldsz newsz s =
     (if newsz \<ge> KERNBASE then Inr (0, s)
      else if newsz < oldsz then Inr (oldsz, s)
      else allocuvm_loop (2 ^ 20) pgdir (PGROUNDUP oldsz) oldsz newsz s)"

definition freevm_table :: "uint \<Rightarrow> nat \<Rightarrow> kernel \<Rightarrow> kernel result" where
  "freevm_table pgdir i s =
     (let pde = load32 (mem s) (pgdir + 4 * of_nat i) in
      if pde AND PTE_P \<noteq> 0 then kfree (p2v (PTE_ADDR pde)) s else Inr s)"

definition freevm :: "uint \<Rightarrow> kernel \<Rightarrow> kernel result" where
  "freevm pgdir s =
     (if pgdir = 0 then Inl (Panic ''freevm: no pgdir'')
      else rbind (deallocuvm pgdir KERNBASE 0 s) (\<lambda>(_, s).
           rbind (rfold (freevm_table pgdir) [0..<NPDENTRIES] s) (kfree pgdir)))"

definition clearpteu :: "uint \<Rightarrow> uint \<Rightarrow> kernel \<Rightarrow> kernel result" where
  "clearpteu pgdir uva s =
     rbind (walkpgdir pgdir uva False s) (\<lambda>(pte, s).
       if pte = 0 then Inl (Panic ''clearpteu'')
       else Inr (s\<lparr>mem := store32 pte (load32 (mem s) pte AND NOT PTE_U) (mem s)\<rparr>))"

fun copyuvm_loop :: "nat \<Rightarrow> uint \<Rightarrow> uint \<Rightarrow> uint \<Rightarrow> uint \<Rightarrow> kernel \<Rightarrow> (uint \<times> kernel) result" where
  "copyuvm_loop 0 pgdir d i sz s = Inl Diverges"
| "copyuvm_loop (Suc n) pgdir d i sz s =
     (if i < sz
      then rbind (walkpgdir pgdir i False s) (\<lambda>(pte, s).
        if pte = 0 then Inl (Panic ''copyuvm: pte should exist'')
        else if load32 (mem s) pte AND PTE_P = 0 then Inl (Panic ''copyuvm: page not present'')
        else
          let pa = PTE_ADDR (load32 (mem s) pte); flags = PTE_FLAGS (load32 (mem s) pte) in
          rbind (kalloc s) (\<lambda>(v, s).
            if v = 0 then rbind (freevm d s) (\<lambda>s. Inr (0, s))
            else rbind (mappages d i PGSIZE (v2p v) flags (s\<lparr>mem := memmove v (p2v pa) PGSIZE (mem s)\<rparr>))
              (\<lambda>(r, s).
                if r < 0 then rbind (freevm d s) (\<lambda>s. Inr (0, s))
                else copyuvm_loop n pgdir d (i + PGSIZE) sz s)))
      else Inr (d, s))"

definition copyuvm :: "uint \<Rightarrow> uint \<Rightarrow> kernel \<Rightarrow> (uint \<times> kernel) result" where
  "copyuvm pgdir sz s =
     rbind (setupkvm s) (\<lambda>(d, s).
       if d = 0 then Inr (0, s) else copyuvm_loop (2 ^ 20) pgdir d 0 sz s)"

text \<open>\<^verbatim>\<open>uva2ka\<close> dereferences the result of \<^verbatim>\<open>walkpgdir\<close> without a test for null.\<close>

definition uva2ka :: "uint \<Rightarrow> uint \<Rightarrow> kernel \<Rightarrow> uint result" where
  "uva2ka pgdir uva s =
     rbind (walkpgdir pgdir uva False s) (\<lambda>(pte, s).
       if pte = 0 then Inl NullDeref
       else if load32 (mem s) pte AND PTE_P = 0 then Inr 0
       else if load32 (mem s) pte AND PTE_U = 0 then Inr 0
       else Inr (p2v (PTE_ADDR (load32 (mem s) pte))))"

text \<open>
  \<^verbatim>\<open>copyout\<close> of the bytes of a buffer. Every turn but the first starts at a page boundary, so
  there are at most as many turns as bytes.
\<close>

fun copyout_loop :: "nat \<Rightarrow> uint \<Rightarrow> uint \<Rightarrow> uchar list \<Rightarrow> kernel \<Rightarrow> (int \<times> kernel) result" where
  "copyout_loop 0 pgdir va buf s = Inl Diverges"
| "copyout_loop (Suc k) pgdir va buf s =
     (if buf = [] then Inr (0, s)
      else
        let va0 = PGROUNDDOWN va in
        rbind (uva2ka pgdir va0 s) (\<lambda>pa0.
          if pa0 = 0 then Inr (-1, s)
          else
            let n = min (unat (PGSIZE - (va - va0))) (length buf) in
            copyout_loop k pgdir (va0 + PGSIZE) (drop n buf)
              (s\<lparr>mem := store_bytes (pa0 + (va - va0)) (take n buf) (mem s)\<rparr>)))"

definition copyout :: "uint \<Rightarrow> uint \<Rightarrow> uchar list \<Rightarrow> kernel \<Rightarrow> (int \<times> kernel) result" where
  "copyout pgdir va p s = copyout_loop (Suc (length p)) pgdir va p s"

end
