(* ===== verification/Proc_Dump.thy ===== *)
theory Proc_Dump
  imports Sched Cprintf Vm
begin

section \<open>Process listings (proc.c)\<close>

text \<open>
  What the console prints for the control keys: the process table and the lists of processes. A tab
  is the byte 9, a newline the byte 10. \<^verbatim>\<open>procdump\<close> follows the saved frame pointers of sleeping
  processes; the frame pointer that the assembly of \<^verbatim>\<open>swtch\<close> has left in a process's context is an argument.
\<close>

subsection \<open>spinlock.c: getcallerpcs\<close>

fun callerpcs :: "nat \<Rightarrow> uint \<Rightarrow> memory \<Rightarrow> uint list" where
  "callerpcs 0 ebp m = []"
| "callerpcs (Suc k) ebp m =
     (if ebp = 0 \<or> ebp < KERNBASE \<or> ebp = 0xffffffff then replicate (Suc k) 0
      else load32 m (ebp + 4) # callerpcs k (load32 m ebp) m)"

definition getcallerpcs :: "uint \<Rightarrow> memory \<Rightarrow> uint list" where
  "getcallerpcs v m = callerpcs 10 (v - 8) m"

subsection \<open>proc.c: procdump\<close>

definition dump_time :: "uchar list \<Rightarrow> uint \<Rightarrow> kernel \<Rightarrow> kernel result" where
  "dump_time suffix t s =
     (let secs = t div 1000; mils = t mod 1000 in
      if mils < 1000 \<and> mils > 99 then cprintf (Some (chars ''%d.%d'' @ suffix)) [VWord secs, VWord mils] s
      else if mils < 100 \<and> mils > 9 then cprintf (Some (chars ''%d.0%d'' @ suffix)) [VWord secs, VWord mils] s
      else cprintf (Some (chars ''%d.00%d'' @ suffix)) [VWord secs, VWord mils] s)"

definition procdumpP4 :: "nat \<Rightarrow> string \<Rightarrow> kernel \<Rightarrow> kernel result" where
  "procdumpP4 p state s =
     (let r = procs s p;
          ppid = (case p_parent r of Some q \<Rightarrow> p_pid (procs s q) | None \<Rightarrow> p_pid r);
          sep = (if length (p_name r) < 8 then [9, 9] else [9])
      in
      rbind (cprintf (Some (chars ''%d'' @ [9] @ chars ''%s'' @ sep @ chars ''%d'' @ [9] @ chars ''%d'' @ [9] @
          chars ''%d'' @ [9] @ chars ''%d'' @ [9]))
        [VWord (p_pid r), VStr (Some (p_name r)), VWord (p_uid r), VWord (p_gid r), VWord ppid, VWord (p_priority r)] s) (\<lambda>s.
      rbind (dump_time ([9] @ chars ''  '') (ticks s - p_start_ticks r) s) (\<lambda>s.
      rbind (dump_time [9, 9] (p_cpu_ticks_total r) s)
        (cprintf (Some (chars ''%s'' @ [9] @ chars ''%d'' @ [9])) [VStr (Some (chars state)), VWord (p_sz r)]))))"

definition dump_pc :: "uint \<Rightarrow> kernel \<Rightarrow> kernel result" where
  "dump_pc pc = cprintf (Some (chars '' %p'')) [VWord pc]"

definition dump_one :: "(nat \<Rightarrow> uint) \<Rightarrow> nat \<Rightarrow> kernel \<Rightarrow> kernel result" where
  "dump_one ebp p s =
     (let st = p_state (procs s p) in
      if st = UNUSED then Inr s
      else rbind (procdumpP4 p (states st) s) (\<lambda>s.
        rbind (if st = SLEEPING
          then rfold dump_pc (takeWhile (\<lambda>pc. pc \<noteq> 0) (getcallerpcs (ebp p + 8) (mem s))) s
          else Inr s)
        (cprintf (Some [10]) [])))"

definition dump_header :: "uchar list" where
  "dump_header = [10] @ chars ''PID'' @ [9] @ chars ''Name'' @ [9, 9] @ chars ''UID'' @ [9] @ chars ''GID'' @ [9] @
     chars ''PPID'' @ [9] @ chars ''Prio'' @ [9] @ chars ''Elapsed'' @ [9] @ chars ''  CPU'' @ [9, 9] @
     chars ''State'' @ [9] @ chars ''Size'' @ [9] @ chars '' PCs'' @ [10]"

definition procdump :: "(nat \<Rightarrow> uint) \<Rightarrow> kernel \<Rightarrow> kernel result" where
  "procdump ebp s =
     rbind (with_lock PtableLock (\<lambda>s.
       rbind (cprintf (Some dump_header) [] s) (\<lambda>s.
       rbind (rfold (dump_one ebp) [0..<NPROC] s) (\<lambda>s. Inr ((), s)))) s) (\<lambda>(_, s). Inr s)"

subsection \<open>proc.c: cready, cfree, csleep, czombie\<close>

text \<open>A visit of a list that prints; the next process is read after printing.\<close>

definition print_visit :: "(nat \<Rightarrow> kernel \<Rightarrow> uchar list \<times> varg list) \<Rightarrow> nat \<Rightarrow> kernel \<Rightarrow> (unit option \<times> kernel) result" where
  "print_visit f p s = (case f p s of (fmt, args) \<Rightarrow> rbind (cprintf (Some fmt) args s) (\<lambda>s. Inr (None, s)))"

definition ready_entry :: "nat \<Rightarrow> kernel \<Rightarrow> uchar list \<times> varg list" where
  "ready_entry p s =
     (let r = procs s p; args = [VWord (p_pid r), VWord (of_int (p_budget r))] in
      if p_next r \<noteq> None then (chars ''(%d, %d) -> '', args) else (chars ''(%d, %d)'' @ [10, 10], args))"

definition cready_list :: "nat \<Rightarrow> kernel \<Rightarrow> kernel result" where
  "cready_list i s =
     rbind (cprintf (Some (if i < 10 then chars ''%d:   '' else chars ''%d:  '')) [VWord (of_nat i)] s) (\<lambda>s.
     rbind (walk_list (print_visit ready_entry) (LReady i) s) (\<lambda>(_, s).
     if heads s (LReady i) = None then cprintf (Some (chars ''EMPTY'' @ [10, 10])) [] s else Inr s))"

definition cready :: "kernel \<Rightarrow> kernel result" where
  "cready s =
     rbind (with_lock PtableLock (\<lambda>s.
       rbind (cprintf (Some ([10] @ chars ''Ready List Processes:'' @ [10])) [] s) (\<lambda>s.
       rbind (rfold cready_list [0..<MAXPRIO + 1] s) (\<lambda>s. Inr ((), s)))) s) (\<lambda>(_, s). Inr s)"

fun count_list :: "nat \<Rightarrow> nat option \<Rightarrow> kernel \<Rightarrow> nat result" where
  "count_list 0 cur s = Inl Diverges"
| "count_list (Suc k) cur s =
     (case cur of None \<Rightarrow> Inr 0 | Some p \<Rightarrow> rbind (count_list k (p_next (procs s p)) s) (\<lambda>n. Inr (Suc n)))"

definition cfree :: "kernel \<Rightarrow> kernel result" where
  "cfree s =
     rbind (with_lock PtableLock (\<lambda>s.
       rbind (count_list (Suc NPROC) (heads s LFree) s) (\<lambda>i.
       rbind (cprintf (Some ([10] @ chars ''Free List Size: %d Processes'' @ [10])) [VWord (of_nat i)] s) (\<lambda>s. Inr ((), s)))) s)
       (\<lambda>(_, s). Inr s)"

definition sleep_entry :: "nat \<Rightarrow> kernel \<Rightarrow> uchar list \<times> varg list" where
  "sleep_entry p s =
     (let r = procs s p in
      if p_next r \<noteq> None then (chars ''%d -> '', [VWord (p_pid r)]) else (chars ''%d'' @ [10], [VWord (p_pid r)]))"

definition csleep :: "kernel \<Rightarrow> kernel result" where
  "csleep s =
     rbind (with_lock PtableLock (\<lambda>s.
       rbind (cprintf (Some ([10] @ chars ''Sleep List Processes:'' @ [10])) [] s) (\<lambda>s.
       rbind (walk_list (print_visit sleep_entry) LSleep s) (\<lambda>(_, s).
       rbind (if heads s LSleep = None then cprintf (Some (chars ''EMPTY'' @ [10])) [] s else Inr s) (\<lambda>s. Inr ((), s))))) s)
       (\<lambda>(_, s). Inr s)"

definition zombie_entry :: "nat \<Rightarrow> kernel \<Rightarrow> uchar list \<times> varg list" where
  "zombie_entry p s =
     (let r = procs s p;
          ppid = (case p_parent r of Some q \<Rightarrow> p_pid (procs s q) | None \<Rightarrow> p_pid r);
          args = [VWord (p_pid r), VWord ppid]
      in if p_next r \<noteq> None then (chars ''(%d, %d) -> '', args) else (chars ''(%d, %d)'' @ [10], args))"

definition czombie :: "kernel \<Rightarrow> kernel result" where
  "czombie s =
     rbind (with_lock PtableLock (\<lambda>s.
       rbind (cprintf (Some ([10] @ chars ''Zombie List Processes:'' @ [10])) [] s) (\<lambda>s.
       rbind (walk_list (print_visit zombie_entry) LZombie s) (\<lambda>(_, s).
       rbind (if heads s LZombie = None then cprintf (Some (chars ''EMPTY'' @ [10])) [] s else Inr s) (\<lambda>s. Inr ((), s))))) s)
       (\<lambda>(_, s). Inr s)"

end
