(* ===== verification/Console.thy ===== *)
theory Console
  imports Fs_Inode Proc_Dump
begin

section \<open>Console input (console.c)\<close>

text \<open>
  The line editor of the console and its device functions. The bytes that \<^verbatim>\<open>getc\<close> returns before it has
  none are an argument of \<^verbatim>\<open>consoleintr\<close>; they come from the serial port or the keyboard. \<^verbatim>\<open>consoleread\<close> returns
  the bytes it has stored with its result; when it has to wait for input it stops with \<open>Blocks\<close>.
\<close>

definition INPUT_BUF :: uint where "INPUT_BUF = 128"

definition upd_input :: "(inputbuf \<Rightarrow> inputbuf) \<Rightarrow> kernel \<Rightarrow> kernel" where
  "upd_input f s = s\<lparr>input := f (input s)\<rparr>"

text \<open>The serial port's receiver: the byte it holds, if any.\<close>

definition uartgetc :: "uchar option \<Rightarrow> kernel \<Rightarrow> int" where
  "uartgetc rx s = (if \<not> uart s then -1 else case rx of None \<Rightarrow> -1 | Some c \<Rightarrow> uint c)"

subsection \<open>consoleintr\<close>

record consflags =
  doprocdump :: bool
  doready :: bool
  dofree :: bool
  dosleep :: bool
  dozombie :: bool

fun kill_line :: "nat \<Rightarrow> kernel \<Rightarrow> kernel result" where
  "kill_line 0 s = Inl Diverges"
| "kill_line (Suc k) s =
     (let i = input s in
      if in_e i \<noteq> in_w i \<and> in_buf i (unat ((in_e i - 1) mod INPUT_BUF)) \<noteq> 10
      then rbind (consputc BACKSPACE (upd_input (\<lambda>i. i\<lparr>in_e := in_e i - 1\<rparr>) s)) (kill_line k)
      else Inr s)"

definition console_char :: "uint \<Rightarrow> kernel \<Rightarrow> kernel result" where
  "console_char c s =
     (if c \<noteq> 0 \<and> in_e (input s) - in_r (input s) < INPUT_BUF
      then
        let c = (if c = 13 then 10 else c);
            s = upd_input (\<lambda>i. i\<lparr>in_buf := (in_buf i)(unat (in_e i mod INPUT_BUF) := ucast c), in_e := in_e i + 1\<rparr>) s
        in
        rbind (consputc c s) (\<lambda>s.
        if c = 10 \<or> c = 4 \<or> in_e (input s) = in_r (input s) + INPUT_BUF
        then wakeup (Some ChanInput) (upd_input (\<lambda>i. i\<lparr>in_w := in_e i\<rparr>) s)
        else Inr s)
      else Inr s)"

definition consoleintr_char :: "uint \<Rightarrow> consflags \<times> kernel \<Rightarrow> (consflags \<times> kernel) result" where
  "consoleintr_char c fs =
     (case fs of (f, s) \<Rightarrow>
      if c = 0x10 then Inr (f\<lparr>doprocdump := True\<rparr>, s)
      else if c = 0x12 then Inr (f\<lparr>doready := True\<rparr>, s)
      else if c = 0x06 then Inr (f\<lparr>dofree := True\<rparr>, s)
      else if c = 0x13 then Inr (f\<lparr>dosleep := True\<rparr>, s)
      else if c = 0x1A then Inr (f\<lparr>dozombie := True\<rparr>, s)
      else if c = 0x15 then rbind (kill_line (Suc (2 ^ 32)) s) (\<lambda>s. Inr (f, s))
      else if c = 0x08 \<or> c = 0x7f
      then if in_e (input s) \<noteq> in_w (input s)
           then rbind (consputc BACKSPACE (upd_input (\<lambda>i. i\<lparr>in_e := in_e i - 1\<rparr>) s)) (\<lambda>s. Inr (f, s))
           else Inr (f, s)
      else rbind (console_char c s) (\<lambda>s. Inr (f, s)))"

definition consoleintr :: "(nat \<Rightarrow> uint) \<Rightarrow> uint list \<Rightarrow> kernel \<Rightarrow> kernel result" where
  "consoleintr ebp cs s =
     rbind (with_lock ConsLock (\<lambda>s. rfold consoleintr_char cs
       (\<lparr>doprocdump = False, doready = False, dofree = False, dosleep = False, dozombie = False\<rparr>, s)) s) (\<lambda>(f, s).
     rbind (if doprocdump f then procdump ebp s else Inr s) (\<lambda>s.
     rbind (if doready f then cready s else Inr s) (\<lambda>s.
     rbind (if dofree f then cfree s else Inr s) (\<lambda>s.
     rbind (if dosleep f then csleep s else Inr s) (\<lambda>s.
     if dozombie f then czombie s else Inr s)))))"

subsection \<open>consoleread, consolewrite, consoleinit\<close>

text \<open>
  The loop of \<^verbatim>\<open>consoleread\<close>, with the bytes stored so far and the number of bytes still wanted. The result
  says whether the process was killed while it waited.
\<close>

fun consoleread_loop :: "nat \<Rightarrow> nat \<Rightarrow> uchar list \<Rightarrow> kernel \<Rightarrow> ((bool \<times> uchar list) \<times> kernel) result" where
  "consoleread_loop target 0 bs s = Inr ((False, bs), s)"
| "consoleread_loop target (Suc n) bs s =
     (case proc_of s of None \<Rightarrow> Inl NullDeref | Some me \<Rightarrow>
      if in_r (input s) = in_w (input s)
      then if p_killed (procs s me) then Inr ((True, bs), s) else Inl (Blocks ChanInput)
      else
        let c = in_buf (input s) (unat (in_r (input s) mod INPUT_BUF));
            s' = upd_input (\<lambda>i. i\<lparr>in_r := in_r i + 1\<rparr>) s
        in
        if c = 4
        then Inr ((False, bs), if Suc n < target then s else s')
        else if c = 10 then Inr ((False, bs @ [c]), s')
        else consoleread_loop target n (bs @ [c]) s')"

definition consoleread :: "nat \<Rightarrow> int \<Rightarrow> kernel \<Rightarrow> ((int \<times> uchar list) \<times> kernel) result" where
  "consoleread ip n s =
     rbind (iunlock (Some ip) s) (\<lambda>s.
     rbind (with_lock ConsLock (consoleread_loop (nat n) (nat n) []) s) (\<lambda>((killed, bs), s).
     rbind (ilock (Some ip) s) (\<lambda>s.
     Inr ((if killed then -1 else int (length bs), bs), s))))"

definition consolewrite :: "nat \<Rightarrow> uchar list \<Rightarrow> kernel \<Rightarrow> (int \<times> kernel) result" where
  "consolewrite ip bs s =
     rbind (iunlock (Some ip) s) (\<lambda>s.
     rbind (with_lock ConsLock (\<lambda>s. rbind (rfold (\<lambda>c. consputc (ucast c)) bs s) (\<lambda>s. Inr ((), s))) s) (\<lambda>(_, s).
     rbind (ilock (Some ip) s) (\<lambda>s. Inr (int (length bs), s))))"

text \<open>\<^verbatim>\<open>picenable\<close> and \<^verbatim>\<open>ioapicenable\<close> program the interrupt controllers, which are no part of the state.\<close>

definition consoleinit :: "kernel \<Rightarrow> kernel" where
  "consoleinit s = (initlock ConsLock ''console'' s)\<lparr>devsw := (devsw s)(1 := True), cons_locking := True\<rparr>"

end
