(* ===== verification/Fs_File.thy ===== *)
theory Fs_File
  imports Console
begin

section \<open>File contents, directories and paths (fs.c)\<close>

text \<open>
  Reading and writing inodes, directory entries and path names. The buffer that \<^verbatim>\<open>readi\<close> fills is the list
  of bytes it returns with its result; \<^verbatim>\<open>writei\<close> is given the bytes to write. A path is the bytes before its
  terminating zero, and a name is the bytes of an array of \<^verbatim>\<open>DIRSIZ\<close> before its zero, if there is one.
\<close>

subsection \<open>readi, writei\<close>

definition dev_ok :: "nat \<Rightarrow> kernel \<Rightarrow> bool" where
  "dev_ok ip s \<longleftrightarrow> (let major = sint (i_major (inodes s ip)) in \<not> (major < 0 \<or> major \<ge> NDEV \<or> \<not> devsw s (nat major)))"

text \<open>The number of bytes a turn of the loop moves, and the bytes of a block it moves.\<close>

definition chunk :: "uint \<Rightarrow> uint \<Rightarrow> uint" where
  "chunk left off = (let room = of_nat BSIZE - off mod of_nat BSIZE in if left < room then left else room)"

definition block_bytes :: "block \<Rightarrow> nat \<Rightarrow> nat \<Rightarrow> uchar list" where
  "block_bytes d p m = map (\<lambda>i. d (p + i)) [0..<m]"

definition put_bytes :: "nat \<Rightarrow> uchar list \<Rightarrow> block \<Rightarrow> block" where
  "put_bytes p bs d = (\<lambda>i. if p \<le> i \<and> i < p + length bs then bs ! (i - p) else d i)"

text \<open>
  A turn of the loops needs a block that \<^verbatim>\<open>bmap\<close> can map, so there are at most \<^verbatim>\<open>MAXFILE\<close> turns before the
  loop ends or \<^verbatim>\<open>bmap\<close> panics.
\<close>

fun readi_loop :: "nat \<Rightarrow> nat \<Rightarrow> uint \<Rightarrow> uint \<Rightarrow> uchar list \<Rightarrow> kernel \<Rightarrow> (uchar list \<times> kernel) result" where
  "readi_loop 0 ip off left bs s = Inl Diverges"
| "readi_loop (Suc k) ip off left bs s =
     (if left = 0 then Inr (bs, s)
      else rbind (bmap ip (off div of_nat BSIZE) s) (\<lambda>(addr, s).
        rbind (bread (i_dev (inodes s ip)) addr s) (\<lambda>(bp, s).
        let m = chunk left off;
            bs' = block_bytes (b_data (bufs s bp)) (unat (off mod of_nat BSIZE)) (unat m)
        in rbind (brelse bp s) (readi_loop k ip (off + m) (left - m) (bs @ bs')))))"

definition readi :: "nat \<Rightarrow> uint \<Rightarrow> uint \<Rightarrow> kernel \<Rightarrow> ((int \<times> uchar list) \<times> kernel) result" where
  "readi ip off n s =
     (let r = inodes s ip in
      if i_type r = T_DEV
      then if dev_ok ip s then consoleread ip (sint n) s else Inr ((-1, []), s)
      else if off > i_size r \<or> off + n < off then Inr ((-1, []), s)
      else
        let n = (if off + n > i_size r then i_size r - off else n) in
        rbind (readi_loop (MAXFILE + 2) ip off n [] s) (\<lambda>(bs, s). Inr ((sint n, bs), s)))"

fun writei_loop :: "nat \<Rightarrow> nat \<Rightarrow> uint \<Rightarrow> uchar list \<Rightarrow> kernel \<Rightarrow> (uint \<times> kernel) result" where
  "writei_loop 0 ip off bs s = Inl Diverges"
| "writei_loop (Suc k) ip off bs s =
     (if bs = [] then Inr (off, s)
      else rbind (bmap ip (off div of_nat BSIZE) s) (\<lambda>(addr, s).
        rbind (bread (i_dev (inodes s ip)) addr s) (\<lambda>(bp, s).
        let m = unat (chunk (of_nat (length bs)) off) in
        rbind (log_write bp (set_data bp (put_bytes (unat (off mod of_nat BSIZE)) (take m bs) (b_data (bufs s bp))) s)) (\<lambda>s.
        rbind (brelse bp s) (writei_loop k ip (off + of_nat m) (drop m bs))))))"

definition writei :: "nat \<Rightarrow> uchar list \<Rightarrow> uint \<Rightarrow> kernel \<Rightarrow> (int \<times> kernel) result" where
  "writei ip bs off s =
     (let r = inodes s ip; n = of_nat (length bs) :: uint in
      if i_type r = T_DEV
      then if dev_ok ip s then consolewrite ip bs s else Inr (-1, s)
      else if off > i_size r \<or> off + n < off then Inr (-1, s)
      else if off + n > of_nat (MAXFILE * BSIZE) then Inr (-1, s)
      else rbind (writei_loop (MAXFILE + 2) ip off bs s) (\<lambda>(off, s).
        rbind (if n > 0 \<and> off > i_size (inodes s ip)
          then iupdate ip (upd_inode ip (\<lambda>r. r\<lparr>i_size := off\<rparr>) s)
          else Inr s) (\<lambda>s. Inr (sint n, s))))"

subsection \<open>Directories\<close>

definition hd0 :: "uchar list \<Rightarrow> uchar" where
  "hd0 bs = (case bs of [] \<Rightarrow> 0 | b # _ \<Rightarrow> b)"

text \<open>\<^verbatim>\<open>strncmp\<close> on two arrays of characters; an array is followed by a zero.\<close>

fun strncmp_bytes :: "nat \<Rightarrow> uchar list \<Rightarrow> uchar list \<Rightarrow> int" where
  "strncmp_bytes 0 p q = 0"
| "strncmp_bytes (Suc n) p q =
     (if hd0 p \<noteq> 0 \<and> hd0 p = hd0 q then strncmp_bytes n (tl p) (tl q) else uint (hd0 p) - uint (hd0 q))"

definition namecmp :: "uchar list \<Rightarrow> uchar list \<Rightarrow> int" where
  "namecmp s t = strncmp_bytes DIRSIZ s t"

text \<open>A directory entry in its 16 bytes.\<close>

definition de_inum :: "uchar list \<Rightarrow> ushort" where
  "de_inum bs = ucast (bs ! 0) OR push_bit 8 (ucast (bs ! 1))"

definition de_name :: "uchar list \<Rightarrow> uchar list" where
  "de_name bs = take DIRSIZ (drop 2 bs)"

definition mk_dirent :: "ushort \<Rightarrow> uchar list \<Rightarrow> uchar list" where
  "mk_dirent inum name = [ucast inum, ucast (drop_bit 8 inum)] @ take DIRSIZ (name @ replicate DIRSIZ 0)"

text \<open>
  The search returns the entry and its offset. The size of a directory bounds the number of turns; the
  offset is a 32-bit number.
\<close>

fun dirlookup_loop :: "nat \<Rightarrow> nat \<Rightarrow> uchar list \<Rightarrow> uint \<Rightarrow> kernel \<Rightarrow> ((nat \<times> uint) option \<times> kernel) result" where
  "dirlookup_loop 0 dp name off s = Inl Diverges"
| "dirlookup_loop (Suc k) dp name off s =
     (if \<not> off < i_size (inodes s dp) then Inr (None, s)
      else rbind (readi dp off 16 s) (\<lambda>((n, de), s).
        if n \<noteq> 16 then Inl (Panic ''dirlink read'')
        else if de_inum de = 0 then dirlookup_loop k dp name (off + 16) s
        else if namecmp name (de_name de) = 0
        then rbind (iget (i_dev (inodes s dp)) (ucast (de_inum de)) s) (\<lambda>(ip, s). Inr (Some (ip, off), s))
        else dirlookup_loop k dp name (off + 16) s))"

definition dirlookup :: "nat \<Rightarrow> uchar list \<Rightarrow> kernel \<Rightarrow> ((nat \<times> uint) option \<times> kernel) result" where
  "dirlookup dp name s =
     (if i_type (inodes s dp) \<noteq> T_DIR then Inl (Panic ''dirlookup not DIR'')
      else dirlookup_loop (2 ^ 28 + 1) dp name 0 s)"

fun dirlink_slot :: "nat \<Rightarrow> nat \<Rightarrow> uint \<Rightarrow> kernel \<Rightarrow> (uint \<times> kernel) result" where
  "dirlink_slot 0 dp off s = Inl Diverges"
| "dirlink_slot (Suc k) dp off s =
     (if \<not> off < i_size (inodes s dp) then Inr (off, s)
      else rbind (readi dp off 16 s) (\<lambda>((n, de), s).
        if n \<noteq> 16 then Inl (Panic ''dirlink read'')
        else if de_inum de = 0 then Inr (off, s)
        else dirlink_slot k dp (off + 16) s))"

definition dirlink :: "nat \<Rightarrow> uchar list \<Rightarrow> uint \<Rightarrow> kernel \<Rightarrow> (int \<times> kernel) result" where
  "dirlink dp name inum s =
     rbind (dirlookup dp name s) (\<lambda>(found, s).
     case found of
       Some (ip, _) \<Rightarrow> rbind (iput ip s) (\<lambda>s. Inr (-1, s))
     | None \<Rightarrow>
         rbind (dirlink_slot (2 ^ 28 + 1) dp 0 s) (\<lambda>(off, s).
         rbind (writei dp (mk_dirent (ucast inum) name) off s) (\<lambda>(n, s).
         if n \<noteq> 16 then Inl (Panic ''dirlink'') else Inr (0, s))))"

subsection \<open>Paths\<close>

abbreviation slash :: uchar where "slash \<equiv> 47"

text \<open>The next element of a path and the path after it; none if there is no element.\<close>

definition skipelem :: "uchar list \<Rightarrow> (uchar list \<times> uchar list) option" where
  "skipelem pth =
     (let pth = dropWhile (\<lambda>c. c = slash) pth in
      if pth = [] then None
      else
        let elem = takeWhile (\<lambda>c. c \<noteq> slash) pth;
            rest = dropWhile (\<lambda>c. c \<noteq> slash) pth
        in Some (take DIRSIZ elem, dropWhile (\<lambda>c. c = slash) rest))"

text \<open>A turn of the loop of \<^verbatim>\<open>namex\<close> removes an element from the path.\<close>

fun namex_loop :: "nat \<Rightarrow> bool \<Rightarrow> uchar list \<Rightarrow> uchar list \<Rightarrow> nat \<Rightarrow> kernel \<Rightarrow> ((nat option \<times> uchar list) \<times> kernel) result" where
  "namex_loop 0 par pth name ip s = Inl Diverges"
| "namex_loop (Suc k) par pth name ip s =
     (case skipelem pth of
        None \<Rightarrow> if par then rbind (iput ip s) (\<lambda>s. Inr ((None, name), s)) else Inr ((Some ip, name), s)
      | Some (name, pth) \<Rightarrow>
          rbind (ilock (Some ip) s) (\<lambda>s.
          if i_type (inodes s ip) \<noteq> T_DIR then rbind (iunlockput ip s) (\<lambda>s. Inr ((None, name), s))
          else if par \<and> pth = [] then rbind (iunlock (Some ip) s) (\<lambda>s. Inr ((Some ip, name), s))
          else rbind (dirlookup ip name s) (\<lambda>(found, s).
            case found of
              None \<Rightarrow> rbind (iunlockput ip s) (\<lambda>s. Inr ((None, name), s))
            | Some (ip', _) \<Rightarrow> rbind (iunlockput ip s) (namex_loop k par pth name ip'))))"

definition namex :: "uchar list \<Rightarrow> bool \<Rightarrow> kernel \<Rightarrow> ((nat option \<times> uchar list) \<times> kernel) result" where
  "namex pth par s =
     rbind (if pth \<noteq> [] \<and> hd pth = slash then iget ROOTDEV ROOTINO s
       else case proc_of s of None \<Rightarrow> Inl NullDeref | Some me \<Rightarrow>
         case p_cwd (procs s me) of None \<Rightarrow> Inl NullDeref | Some cwd \<Rightarrow> idup cwd s) (\<lambda>(ip, s).
     namex_loop (Suc (length pth)) par pth [] ip s)"

definition namei :: "uchar list \<Rightarrow> kernel \<Rightarrow> (nat option \<times> kernel) result" where
  "namei pth s = rbind (namex pth False s) (\<lambda>((ip, _), s). Inr (ip, s))"

definition nameiparent :: "uchar list \<Rightarrow> kernel \<Rightarrow> ((nat option \<times> uchar list) \<times> kernel) result" where
  "nameiparent pth s = namex pth True s"

subsection \<open>chmod, chown, chgrp\<close>

text \<open>The three functions differ in the limit they check and the field they set.\<close>

definition set_attr :: "int \<Rightarrow> (inode \<Rightarrow> inode) \<Rightarrow> uchar list \<Rightarrow> int \<Rightarrow> kernel \<Rightarrow> (int \<times> kernel) result" where
  "set_attr limit f pth v s =
     rbind (begin_op s) (\<lambda>s.
     if v < 0 \<or> v > limit then rbind (end_op s) (\<lambda>s. Inr (-1, s))
     else rbind (namei pth s) (\<lambda>(found, s).
       case found of
         None \<Rightarrow> rbind (end_op s) (\<lambda>s. Inr (-1, s))
       | Some ip \<Rightarrow>
           rbind (ilock (Some ip) s) (\<lambda>s.
           rbind (iupdate ip (upd_inode ip f s)) (\<lambda>s.
           rbind (iunlockput ip s) (\<lambda>s.
           rbind (end_op s) (\<lambda>s. Inr (0, s)))))))"

definition chmod :: "uchar list \<Rightarrow> int \<Rightarrow> kernel \<Rightarrow> (int \<times> kernel) result" where
  "chmod pth mode = set_attr 1023 (\<lambda>r. r\<lparr>i_mode := of_int mode\<rparr>) pth mode"

definition chown :: "uchar list \<Rightarrow> int \<Rightarrow> kernel \<Rightarrow> (int \<times> kernel) result" where
  "chown pth owner = set_attr 32767 (\<lambda>r. r\<lparr>i_uid := of_int owner\<rparr>) pth owner"

definition chgrp :: "uchar list \<Rightarrow> int \<Rightarrow> kernel \<Rightarrow> (int \<times> kernel) result" where
  "chgrp pth grp = set_attr 32767 (\<lambda>r. r\<lparr>i_gid := of_int grp\<rparr>) pth grp"

end
