(* ===== verification/File.thy ===== *)
theory File
  imports Fs_File Pipe
begin

section \<open>Open files (file.c, pipe.c)\<close>

text \<open>
  The table of open files. A file pointer is the index of its entry. A pipe operation that goes to sleep
  stops the call with \<open>Blocks\<close>. \<^verbatim>\<open>pipealloc\<close> is here because it and \<^verbatim>\<open>fileclose\<close> call each other's components.
\<close>

definition upd_file :: "nat \<Rightarrow> (kfile \<Rightarrow> kfile) \<Rightarrow> kernel \<Rightarrow> kernel" where
  "upd_file f g s = s\<lparr>files := (files s)(f := g (files s f))\<rparr>"

definition fileinit :: "kernel \<Rightarrow> kernel" where
  "fileinit = initlock FtableLock ''ftable''"

fun filealloc_scan :: "nat \<Rightarrow> nat \<Rightarrow> kernel \<Rightarrow> nat option" where
  "filealloc_scan 0 f s = None"
| "filealloc_scan (Suc k) f s = (if f_ref (files s f) = 0 then Some f else filealloc_scan k (Suc f) s)"

definition filealloc :: "kernel \<Rightarrow> (nat option \<times> kernel) result" where
  "filealloc s = with_lock FtableLock (\<lambda>s.
     case filealloc_scan NFILE 0 s of
       Some f \<Rightarrow> Inr (Some f, upd_file f (\<lambda>r. r\<lparr>f_ref := 1\<rparr>) s)
     | None \<Rightarrow> Inr (None, s)) s"

definition filedup :: "nat \<Rightarrow> kernel \<Rightarrow> (nat \<times> kernel) result" where
  "filedup f s = with_lock FtableLock (\<lambda>s.
     if f_ref (files s f) < 1 then Inl (Panic ''filedup'')
     else Inr (f, upd_file f (\<lambda>r. r\<lparr>f_ref := f_ref r + 1\<rparr>) s)) s"

text \<open>The critical section of \<^verbatim>\<open>fileclose\<close> returns the file that is closed for good.\<close>

definition fileclose_locked :: "nat \<Rightarrow> kernel \<Rightarrow> (kfile option \<times> kernel) result" where
  "fileclose_locked f s =
     (if f_ref (files s f) < 1 then Inl (Panic ''fileclose'')
      else
        let s = upd_file f (\<lambda>r. r\<lparr>f_ref := f_ref r - 1\<rparr>) s in
        if f_ref (files s f) > 0 then Inr (None, s)
        else Inr (Some (files s f), upd_file f (\<lambda>r. r\<lparr>f_ref := 0, f_type := FD_NONE\<rparr>) s))"

definition fileclose :: "nat \<Rightarrow> kernel \<Rightarrow> kernel result" where
  "fileclose f s =
     rbind (with_lock FtableLock (fileclose_locked f) s) (\<lambda>(closed, s).
     case closed of None \<Rightarrow> Inr s | Some ff \<Rightarrow>
       (case f_type ff of
          FD_PIPE \<Rightarrow> pipeclose (f_pipe ff) (f_writable ff) s
        | FD_INODE \<Rightarrow>
            rbind (begin_op s) (\<lambda>s.
            rbind (case f_ip ff of None \<Rightarrow> Inl NullDeref | Some ip \<Rightarrow> iput ip s) end_op)
        | FD_NONE \<Rightarrow> Inr s))"

definition filestat :: "nat \<Rightarrow> kernel \<Rightarrow> (stat option \<times> kernel) result" where
  "filestat f s =
     (if f_type (files s f) = FD_INODE
      then rbind (ilock (f_ip (files s f)) s) (\<lambda>s.
           case f_ip (files s f) of None \<Rightarrow> Inl NullDeref | Some ip \<Rightarrow>
           let st = stati ip s in rbind (iunlock (Some ip) s) (\<lambda>s. Inr (Some st, s)))
      else Inr (None, s))"

fun io_result :: "chan \<Rightarrow> uchar list io \<times> kernel \<Rightarrow> ((int \<times> uchar list) \<times> kernel) result" where
  "io_result c (Done r bs, s) = Inr ((r, bs), s)"
| "io_result c (Sleeps bs, s) = Inl (Blocks c)"

definition fileread :: "nat \<Rightarrow> int \<Rightarrow> kernel \<Rightarrow> ((int \<times> uchar list) \<times> kernel) result" where
  "fileread f n s =
     (let r = files s f in
      if \<not> f_readable r then Inr ((-1, []), s)
      else case f_type r of
        FD_PIPE \<Rightarrow> rbind (piperead (f_pipe r) n s) (io_result (ChanPipeRead (f_pipe r)))
      | FD_INODE \<Rightarrow>
          rbind (ilock (f_ip r) s) (\<lambda>s.
          case f_ip r of None \<Rightarrow> Inl NullDeref | Some ip \<Rightarrow>
          rbind (readi ip (f_off (files s f)) (of_int n) s) (\<lambda>((k, bs), s).
          let s = (if k > 0 then upd_file f (\<lambda>r. r\<lparr>f_off := f_off r + of_int k\<rparr>) s else s) in
          rbind (iunlock (Some ip) s) (\<lambda>s. Inr ((k, bs), s))))
      | FD_NONE \<Rightarrow> Inl (Panic ''fileread''))"

definition write_max :: nat where
  "write_max = nat ((LOGSIZE - 1 - 1 - 2) div 2) * 512"

text \<open>The loop of \<^verbatim>\<open>filewrite\<close>, with the bytes still to be written; it ends early on an error.\<close>

fun filewrite_loop :: "nat \<Rightarrow> nat \<Rightarrow> nat option \<Rightarrow> uchar list \<Rightarrow> kernel \<Rightarrow> (bool \<times> kernel) result" where
  "filewrite_loop 0 f ipp bs s = Inl Diverges"
| "filewrite_loop (Suc k) f ipp bs s =
     (if bs = [] then Inr (True, s)
      else
        let n1 = min (length bs) write_max in
        rbind (begin_op s) (\<lambda>s.
        rbind (ilock ipp s) (\<lambda>s.
        case ipp of None \<Rightarrow> Inl NullDeref | Some ip \<Rightarrow>
        rbind (writei ip (take n1 bs) (f_off (files s f)) s) (\<lambda>(r, s).
        let s = (if r > 0 then upd_file f (\<lambda>g. g\<lparr>f_off := f_off g + of_int r\<rparr>) s else s) in
        rbind (iunlock (Some ip) s) (\<lambda>s.
        rbind (end_op s) (\<lambda>s.
        if r < 0 then Inr (False, s)
        else if r \<noteq> int n1 then Inl (Panic ''short filewrite'')
        else filewrite_loop k f ipp (drop n1 bs) s))))))"

text \<open>The count \<open>n\<close> may be negative; \<open>bs\<close> are the \<^verbatim>\<open>n\<close> bytes at \<^verbatim>\<open>addr\<close>, none if it is.\<close>

definition filewrite :: "nat \<Rightarrow> int \<Rightarrow> uchar list \<Rightarrow> kernel \<Rightarrow> (int \<times> kernel) result" where
  "filewrite f n bs s =
     (let r = files s f in
      if \<not> f_writable r then Inr (-1, s)
      else case f_type r of
        FD_PIPE \<Rightarrow>
          rbind (pipewrite (f_pipe r) n bs s) (\<lambda>os.
          rbind (io_result (ChanPipeWrite (f_pipe r)) os) (\<lambda>((k, _), s). Inr (k, s)))
      | FD_INODE \<Rightarrow>
          rbind (filewrite_loop (Suc (length bs)) f (f_ip r) bs s) (\<lambda>(all, s).
          Inr (if all \<and> int (length bs) = n then n else -1, s))
      | FD_NONE \<Rightarrow> Inl (Panic ''filewrite''))"

subsection \<open>pipe.c: pipealloc\<close>

definition close_opt :: "nat option \<Rightarrow> kernel \<Rightarrow> kernel result" where
  "close_opt f s = (case f of None \<Rightarrow> Inr s | Some f \<Rightarrow> fileclose f s)"

definition pipealloc :: "kernel \<Rightarrow> ((nat \<times> nat) option \<times> kernel) result" where
  "pipealloc s =
     rbind (filealloc s) (\<lambda>(f0, s).
     rbind (if f0 = None then Inr (None, s) else filealloc s) (\<lambda>(f1, s).
     let bad = (\<lambda>s. rbind (close_opt f0 s) (\<lambda>s. rbind (close_opt f1 s) (\<lambda>s. Inr (None, s)))) in
     case (f0, f1) of
       (Some r, Some w) \<Rightarrow>
         rbind (kalloc s) (\<lambda>(p, s).
         if p = 0 then bad s
         else
           let s = initlock (PipeLock p) ''pipe''
                 (s\<lparr>pipes := (pipes s)(p := (pipes s p)\<lparr>pi_readopen := True, pi_writeopen := True, pi_nwrite := 0, pi_nread := 0\<rparr>)\<rparr>);
               s = upd_file r (\<lambda>g. g\<lparr>f_type := FD_PIPE, f_readable := True, f_writable := False, f_pipe := p\<rparr>) s;
               s = upd_file w (\<lambda>g. g\<lparr>f_type := FD_PIPE, f_readable := False, f_writable := True, f_pipe := p\<rparr>) s
           in Inr (Some (r, w), s))
     | _ \<Rightarrow> bad s))"

end
