(* ===== verification/Proc_Life.thy ===== *)
theory Proc_Life
  imports File
begin

section \<open>The life of a process (proc.c)\<close>

text \<open>
  Creation, growth, exit and reaping of processes in the CS333_P3P4 build. A process pointer is its
  index in the table. The trap frame and the context that \<^verbatim>\<open>allocproc\<close> lays out on the kernel stack are fields
  of the process; the new trap frame keeps its former contents until \<^verbatim>\<open>fork\<close> or \<^verbatim>\<open>userinit\<close> fills it. A name is the
  bytes before its zero. \<^verbatim>\<open>wait\<close> stops with \<open>Blocks\<close> where it goes to sleep; it has changed nothing then.
\<close>

subsection \<open>allocproc\<close>

definition allocproc_locked :: "kernel \<Rightarrow> (nat option \<times> kernel) result" where
  "allocproc_locked s =
     (case heads s LFree of
        None \<Rightarrow> Inr (None, s)
      | Some p \<Rightarrow>
          rbind (changeState LFree LEmbryo p UNUSED EMBRYO ''allocproc()'' s) (\<lambda>s.
          Inr (Some p, (upd_proc p (\<lambda>r. r\<lparr>p_pid := nextpid s\<rparr>) s)\<lparr>nextpid := nextpid s + 1\<rparr>)))"

definition to_free :: "string \<Rightarrow> nat \<Rightarrow> kernel \<Rightarrow> kernel result" where
  "to_free err p s =
     rbind (with_lock PtableLock (\<lambda>s. rbind (changeState LEmbryo LFree p EMBRYO UNUSED err s) (\<lambda>s. Inr ((), s))) s)
       (\<lambda>(_, s). Inr s)"

definition allocproc :: "kernel \<Rightarrow> (nat option \<times> kernel) result" where
  "allocproc s =
     rbind (with_lock PtableLock allocproc_locked s) (\<lambda>(found, s).
     case found of None \<Rightarrow> Inr (None, s) | Some p \<Rightarrow>
     rbind (kalloc s) (\<lambda>(stk, s).
     let s = upd_proc p (\<lambda>r. r\<lparr>p_kstack := stk\<rparr>) s in
     if stk = 0 then rbind (to_free ''allocproc()'' p s) (\<lambda>s. Inr (None, s))
     else Inr (Some p, upd_proc p (\<lambda>r. r\<lparr>p_context := CtxForkret, p_start_ticks := ticks s,
       p_cpu_ticks_total := 0, p_cpu_ticks_in := 0, p_priority := 0, p_budget := MAX_BUDGET\<rparr>) s)))"

subsection \<open>getprocs\<close>

definition STRMAX :: nat where "STRMAX = 32"

record uproc =
  u_pid :: uint
  u_uid :: uint
  u_gid :: uint
  u_ppid :: uint
  u_elapsed_ticks :: uint
  u_CPU_total_ticks :: uint
  u_state :: "uchar list"
  u_size :: uint
  u_name :: "uchar list"
  u_priority :: uint

fun ustate :: "procstate \<Rightarrow> string" where
  "ustate UNUSED = ''unused''"
| "ustate EMBRYO = ''embryo''"
| "ustate SLEEPING = ''sleep''"
| "ustate RUNNABLE = ''runble''"
| "ustate RUNNING = ''run''"
| "ustate ZOMBIE = ''zombie''"

definition uproc_of :: "kernel \<Rightarrow> nat \<Rightarrow> uproc" where
  "uproc_of s p = (let r = procs s p in
     \<lparr>u_pid = p_pid r, u_uid = p_uid r, u_gid = p_gid r,
      u_ppid = (case p_parent r of Some q \<Rightarrow> p_pid (procs s q) | None \<Rightarrow> p_pid r),
      u_elapsed_ticks = ticks s - p_start_ticks r, u_CPU_total_ticks = p_cpu_ticks_total r,
      u_state = take (STRMAX - 1) (chars (ustate (p_state r))), u_size = p_sz r,
      u_name = take (STRMAX - 1) (p_name r), u_priority = p_priority r\<rparr>)"

fun getprocs_loop :: "nat \<Rightarrow> nat list \<Rightarrow> kernel \<Rightarrow> uproc list" where
  "getprocs_loop k [] s = []"
| "getprocs_loop k (p # ps) s =
     (if k = 0 then []
      else if p_state (procs s p) \<noteq> UNUSED \<and> p_state (procs s p) \<noteq> EMBRYO
      then uproc_of s p # getprocs_loop (k - 1) ps s
      else getprocs_loop k ps s)"

definition getprocs :: "uint \<Rightarrow> kernel \<Rightarrow> ((int \<times> uproc list) \<times> kernel) result" where
  "getprocs mx s =
     rbind (with_lock PtableLock (\<lambda>s. Inr (getprocs_loop (unat mx) [0..<NPROC] s, s)) s) (\<lambda>(us, s).
     Inr ((if length us < 1 then -1 else int (length us), us), s))"

subsection \<open>userinit\<close>

definition user_tf :: trapframe where
  "user_tf = \<lparr>tf_eax = 0, tf_esp = PGSIZE, tf_eip = 0, tf_cs = 0x23, tf_ds = 0x2b, tf_es = 0x2b, tf_ss = 0x2b,
     tf_eflags = 0x200\<rparr>"

definition userinit :: "uchar list \<Rightarrow> kernel \<Rightarrow> kernel result" where
  "userinit initcode s =
     rbind (with_lock PtableLock (\<lambda>s.
       rbind (initFreeList (initProcessLists s)) (\<lambda>s.
       Inr ((), s\<lparr>PromoteAtTime := ticks s + TICKS_TO_PROMOTE\<rparr>))) s) (\<lambda>(_, s).
     rbind (allocproc s) (\<lambda>(found, s).
     let s = s\<lparr>initproc := found\<rparr> in
     case found of None \<Rightarrow> Inl NullDeref | Some p \<Rightarrow>
     rbind (setupkvm s) (\<lambda>(pgdir, s).
     let s = upd_proc p (\<lambda>r. r\<lparr>p_pgdir := pgdir\<rparr>) s in
     if pgdir = 0 then Inl (Panic ''userinit: out of memory?'')
     else rbind (inituvm pgdir initcode s) (\<lambda>s.
     let s = upd_proc p (\<lambda>r. r\<lparr>p_sz := PGSIZE, p_tf := user_tf, p_name := chars ''initcode''\<rparr>) s in
     rbind (namei [slash] s) (\<lambda>(cwd, s).
     let s = upd_proc p (\<lambda>r. r\<lparr>p_cwd := cwd, p_uid := 0, p_gid := 0\<rparr>) s in
     rbind (stateListRemove LEmbryo (Some p) s) (\<lambda>(rc, s).
     if rc = -1
     then Inl (Panic ''Error: Process to be removed from EMBRYO list does not exist. (proc.c: userinit(): Line 313'')
     else rbind (assertState p EMBRYO s) (\<lambda>_.
       let s = set_state p RUNNABLE s in
       Inr ((upd_proc p (\<lambda>r. r\<lparr>p_next := None\<rparr>) s)\<lparr>heads := (heads s)(LReady 0 := Some p),
         tails := (tails s)(LReady 0 := Some p)\<rparr>))))))))"

subsection \<open>growproc\<close>

definition growproc :: "int \<Rightarrow> kernel \<Rightarrow> (int \<times> kernel) result" where
  "growproc n s =
     (case proc_of s of None \<Rightarrow> Inl NullDeref | Some me \<Rightarrow>
      let sz = p_sz (procs s me); pgdir = p_pgdir (procs s me) in
      rbind (if n > 0 then allocuvm pgdir sz (sz + of_int n) s
        else if n < 0 then deallocuvm pgdir sz (sz + of_int n) s
        else Inr (sz, s)) (\<lambda>(sz, s).
      if n \<noteq> 0 \<and> sz = 0 then Inr (-1, s)
      else rbind (switchuvm me (upd_proc me (\<lambda>r. r\<lparr>p_sz := sz\<rparr>) s)) (\<lambda>s. Inr (0, s))))"

subsection \<open>fork\<close>

definition dup_file :: "nat \<Rightarrow> nat \<Rightarrow> nat \<Rightarrow> kernel \<Rightarrow> kernel result" where
  "dup_file me np i s =
     (case p_ofile (procs s me) i of
        None \<Rightarrow> Inr s
      | Some f \<Rightarrow> rbind (filedup f s) (\<lambda>(f, s). Inr (upd_proc np (\<lambda>r. r\<lparr>p_ofile := (p_ofile r)(i := Some f)\<rparr>) s)))"

definition fork :: "kernel \<Rightarrow> (int \<times> kernel) result" where
  "fork s =
     rbind (allocproc s) (\<lambda>(found, s).
     case found of None \<Rightarrow> Inr (-1, s) | Some np \<Rightarrow>
     case proc_of s of None \<Rightarrow> Inl NullDeref | Some me \<Rightarrow>
     rbind (copyuvm (p_pgdir (procs s me)) (p_sz (procs s me)) s) (\<lambda>(pgdir, s).
     let s = upd_proc np (\<lambda>r. r\<lparr>p_pgdir := pgdir\<rparr>) s in
     if pgdir = 0
     then rbind (kfree (p_kstack (procs s np)) s) (\<lambda>s.
          rbind (to_free ''fork()'' np (upd_proc np (\<lambda>r. r\<lparr>p_kstack := 0\<rparr>) s)) (\<lambda>s. Inr (-1, s)))
     else
       let c = procs s me;
           s = upd_proc np (\<lambda>r. r\<lparr>p_sz := p_sz c, p_parent := Some me, p_tf := (p_tf c)\<lparr>tf_eax := 0\<rparr>,
             p_uid := p_uid c, p_gid := p_gid c\<rparr>) s
       in
       rbind (rfold (dup_file me np) [0..<NOFILE] s) (\<lambda>s.
       case p_cwd (procs s me) of None \<Rightarrow> Inl NullDeref | Some cwd \<Rightarrow>
       rbind (idup cwd s) (\<lambda>(cwd, s).
       let s = upd_proc np (\<lambda>r. r\<lparr>p_cwd := Some cwd, p_name := take 15 (p_name c)\<rparr>) s;
           pid = p_pid (procs s np)
       in
       rbind (with_lock PtableLock (\<lambda>s. rbind (changeState LEmbryo (LReady 0) np EMBRYO RUNNABLE ''fork()'' s) (\<lambda>s. Inr ((), s))) s)
         (\<lambda>(_, s). Inr (sint pid, s))))))"

subsection \<open>exit\<close>

text \<open>
  A child is handed to \<^verbatim>\<open>initproc\<close>. The inner loop over the zombie list returns in its first turn, so the whole
  search ends at the first child when there is a zombie.
\<close>

definition exit_visit :: "nat \<Rightarrow> nat \<Rightarrow> kernel \<Rightarrow> (unit option \<times> kernel) result" where
  "exit_visit pExit p s =
     (if p_parent (procs s p) = Some pExit
      then
        let s = upd_proc p (\<lambda>r. r\<lparr>p_parent := initproc s\<rparr>) s in
        case heads s LZombie of
          None \<Rightarrow> Inr (None, s)
        | Some pZ \<Rightarrow>
            rbind (if p = pZ then wakeup1 (map_option ChanProc (initproc s)) s else Inr s) (\<lambda>s. Inr (Some (), s))
      else Inr (None, s))"

definition exitSearchAll :: "listid \<Rightarrow> nat \<Rightarrow> kernel \<Rightarrow> (bool \<times> kernel) result" where
  "exitSearchAll l pExit s = rbind (walk_list (exit_visit pExit) l s) (\<lambda>(r, s). Inr (r \<noteq> None, s))"

definition exitSearchReady :: "nat \<Rightarrow> kernel \<Rightarrow> (bool \<times> kernel) result" where
  "exitSearchReady pExit s =
     rbind (first_some (\<lambda>i. walk_list (exit_visit pExit) (LReady i)) [0..<MAXPRIO + 1] s) (\<lambda>(r, s). Inr (r \<noteq> None, s))"

definition unless_found :: "(kernel \<Rightarrow> (bool \<times> kernel) result) \<Rightarrow> bool \<times> kernel \<Rightarrow> (bool \<times> kernel) result" where
  "unless_found f fs = (case fs of (found, s) \<Rightarrow> if found then Inr (True, s) else f s)"

definition exit_search :: "nat \<Rightarrow> kernel \<Rightarrow> kernel result" where
  "exit_search me s =
     rbind (exitSearchAll LEmbryo me s) (\<lambda>fs.
     rbind (unless_found (exitSearchReady me) fs) (\<lambda>fs.
     rbind (unless_found (exitSearchAll LSleep me) fs) (\<lambda>fs.
     rbind (unless_found (exitSearchAll LRunning me) fs) (\<lambda>fs.
     rbind (unless_found (exitSearchAll LZombie me) fs) (\<lambda>(_, s). Inr s)))))"

definition close_fd :: "nat \<Rightarrow> nat \<Rightarrow> kernel \<Rightarrow> kernel result" where
  "close_fd me fd s =
     (case p_ofile (procs s me) fd of
        None \<Rightarrow> Inr s
      | Some f \<Rightarrow> rbind (fileclose f s) (\<lambda>s. Inr (upd_proc me (\<lambda>r. r\<lparr>p_ofile := (p_ofile r)(fd := None)\<rparr>) s)))"

text \<open>\<^verbatim>\<open>exit\<close> up to the switch to the scheduler, from which it does not return.\<close>

definition exit :: "kernel \<Rightarrow> kernel result" where
  "exit s =
     (case proc_of s of None \<Rightarrow> Inl NullDeref | Some me \<Rightarrow>
      if proc_of s = initproc s then Inl (Panic ''init exiting'')
      else rbind (rfold (close_fd me) [0..<NOFILE] s) (\<lambda>s.
        rbind (begin_op s) (\<lambda>s.
        rbind (case p_cwd (procs s me) of None \<Rightarrow> Inl NullDeref | Some cwd \<Rightarrow> iput cwd s) (\<lambda>s.
        rbind (end_op s) (\<lambda>s.
        rbind (acquire PtableLock (upd_proc me (\<lambda>r. r\<lparr>p_cwd := None\<rparr>) s)) (\<lambda>s.
        rbind (wakeup1 (map_option ChanProc (p_parent (procs s me))) s) (\<lambda>s.
        rbind (exit_search me s) (\<lambda>s.
        rbind (changeState LRunning LZombie me RUNNING ZOMBIE ''exit()'' s) (sched InExit)))))))))"

subsection \<open>wait\<close>

definition reap :: "nat \<Rightarrow> string \<Rightarrow> kernel \<Rightarrow> kernel result" where
  "reap p err s =
     rbind (kfree (p_kstack (procs s p)) s) (\<lambda>s.
     let s = upd_proc p (\<lambda>r. r\<lparr>p_kstack := 0\<rparr>) s in
     rbind (freevm (p_pgdir (procs s p)) s) (\<lambda>s.
     rbind (changeState LZombie LFree p ZOMBIE UNUSED err s) (\<lambda>s.
     Inr (upd_proc p (\<lambda>r. r\<lparr>p_pid := 0, p_parent := None, p_name := [], p_killed := False\<rparr>) s))))"

fun wait_zombies :: "nat \<Rightarrow> nat \<Rightarrow> string \<Rightarrow> nat option \<Rightarrow> int \<Rightarrow> kernel \<Rightarrow> (int \<times> kernel) result" where
  "wait_zombies 0 p1 err p2 pid s = Inl Diverges"
| "wait_zombies (Suc k) p1 err p2 pid s =
     (case p2 of None \<Rightarrow> Inr (pid, s)
      | Some q \<Rightarrow>
          if p1 = q
          then rbind (reap p1 err s) (\<lambda>s'. wait_zombies k p1 err (nexts s' q) (sint (p_pid (procs s p1))) s')
          else wait_zombies k p1 err (nexts s q) pid s)"

fun wait_list :: "nat \<Rightarrow> nat \<Rightarrow> string \<Rightarrow> nat option \<Rightarrow> bool \<times> int \<Rightarrow> kernel \<Rightarrow> ((bool \<times> int) \<times> kernel) result" where
  "wait_list 0 pWait err p1 hp s = Inl Diverges"
| "wait_list (Suc k) pWait err p1 hp s =
     (case p1 of None \<Rightarrow> Inr (hp, s)
      | Some p \<Rightarrow>
          if p_parent (procs s p) \<noteq> Some pWait then wait_list k pWait err (nexts s p) hp s
          else rbind (wait_zombies (Suc NPROC) p err (heads s LZombie) (snd hp) s) (\<lambda>(pid, s).
            wait_list k pWait err (nexts s p) (True, pid) s))"

definition waitSearchAll :: "listid \<Rightarrow> nat \<Rightarrow> bool \<Rightarrow> kernel \<Rightarrow> ((bool \<times> int) \<times> kernel) result" where
  "waitSearchAll l pWait havekids s = wait_list (Suc NPROC) pWait ''waitSearchAll()'' (heads s l) (havekids, -1) s"

definition waitSearchReady :: "nat \<Rightarrow> bool \<Rightarrow> kernel \<Rightarrow> ((bool \<times> int) \<times> kernel) result" where
  "waitSearchReady pWait havekids s =
     rfold (\<lambda>i (hp, s). wait_list (Suc NPROC) pWait ''waitSearchReady()'' (heads s (LReady i)) hp s)
       [0..<MAXPRIO + 1] ((havekids, -1), s)"

definition unless_pid :: "(bool \<Rightarrow> kernel \<Rightarrow> ((bool \<times> int) \<times> kernel) result) \<Rightarrow> (bool \<times> int) \<times> kernel \<Rightarrow> ((bool \<times> int) \<times> kernel) result" where
  "unless_pid f x = (case x of ((havekids, pid), s) \<Rightarrow> if pid = -1 then f havekids s else Inr x)"

definition wait_locked :: "nat \<Rightarrow> kernel \<Rightarrow> (int \<times> kernel) result" where
  "wait_locked me s =
     rbind (waitSearchAll LEmbryo me False s) (\<lambda>x.
     rbind (unless_pid (waitSearchReady me) x) (\<lambda>x.
     rbind (unless_pid (waitSearchAll LSleep me) x) (\<lambda>x.
     rbind (unless_pid (waitSearchAll LRunning me) x) (\<lambda>x.
     rbind (unless_pid (waitSearchAll LZombie me) x) (\<lambda>((havekids, pid), s).
     if pid \<noteq> -1 then Inr (pid, s)
     else if \<not> havekids \<or> p_killed (procs s me) then Inr (-1, s)
     else Inl (Blocks (ChanProc me)))))))"

definition wait :: "kernel \<Rightarrow> (int \<times> kernel) result" where
  "wait s =
     (case proc_of s of None \<Rightarrow> Inl NullDeref | Some me \<Rightarrow> with_lock PtableLock (wait_locked me) s)"

subsection \<open>forkret\<close>

definition forkret :: "kernel \<Rightarrow> kernel result" where
  "forkret s =
     rbind (release PtableLock s) (\<lambda>s.
     if forkret_first s
     then rbind (iinit ROOTDEV (s\<lparr>forkret_first := False\<rparr>)) (initlog ROOTDEV)
     else Inr s)"

end
