(* ===== verification/Uaccess.thy ===== *)
theory Uaccess
  imports Proc_Life
begin

section \<open>User memory and system call arguments (syscall.c)\<close>

text \<open>
  The kernel runs on the page table of the current process and dereferences user addresses directly.
  The page must be present; otherwise the access traps in the kernel, which panics.
\<close>

definition kaddr :: "uint \<Rightarrow> kernel \<Rightarrow> uint result" where
  "kaddr va s =
     (case proc_of s of None \<Rightarrow> Inl NullDeref | Some me \<Rightarrow>
      rbind (walkpgdir (p_pgdir (procs s me)) va False s) (\<lambda>(pte, s).
      if pte = 0 \<or> load32 (mem s) pte AND PTE_P = 0 then Inl (Panic ''trap'')
      else Inr (p2v (PTE_ADDR (load32 (mem s) pte)) + va mod PGSIZE)))"

definition uload8 :: "uint \<Rightarrow> kernel \<Rightarrow> uchar result" where
  "uload8 va s = rbind (kaddr va s) (\<lambda>a. Inr (mem s a))"

fun uload :: "nat \<Rightarrow> uint \<Rightarrow> kernel \<Rightarrow> uchar list result" where
  "uload 0 va s = Inr []"
| "uload (Suc n) va s = rbind (uload8 va s) (\<lambda>b. rbind (uload n (va + 1) s) (\<lambda>bs. Inr (b # bs)))"

fun ustore :: "uint \<Rightarrow> uchar list \<Rightarrow> kernel \<Rightarrow> kernel result" where
  "ustore va [] s = Inr s"
| "ustore va (b # bs) s = rbind (kaddr va s) (\<lambda>a. ustore (va + 1) bs (s\<lparr>mem := (mem s)(a := b)\<rparr>))"

definition word_of_bytes :: "uchar list \<Rightarrow> uint" where
  "word_of_bytes bs = get32 (\<lambda>i. bs ! i) 0"

definition bytes_of_word :: "uint \<Rightarrow> uchar list" where
  "bytes_of_word w = map (put32 0 w (\<lambda>_. 0)) [0..<4]"

definition bytes_of_short :: "ushort \<Rightarrow> uchar list" where
  "bytes_of_short w = map (put16 0 w (\<lambda>_. 0)) [0..<2]"

subsection \<open>fetchint, fetchstr\<close>

text \<open>A failed fetch, the result -1 of the C functions, is \<open>None\<close>.\<close>

definition psz :: "kernel \<Rightarrow> uint result" where
  "psz s = (case proc_of s of None \<Rightarrow> Inl NullDeref | Some me \<Rightarrow> Inr (p_sz (procs s me)))"

definition fetchint :: "uint \<Rightarrow> kernel \<Rightarrow> uint option result" where
  "fetchint addr s =
     rbind (psz s) (\<lambda>sz.
     if addr \<ge> sz \<or> addr + 4 > sz then Inr None
     else rbind (uload 4 addr s) (\<lambda>bs. Inr (Some (word_of_bytes bs))))"

fun fetchstr_loop :: "nat \<Rightarrow> uint \<Rightarrow> uchar list \<Rightarrow> kernel \<Rightarrow> uchar list option result" where
  "fetchstr_loop 0 a acc s = Inr None"
| "fetchstr_loop (Suc k) a acc s =
     rbind (uload8 a s) (\<lambda>c. if c = 0 then Inr (Some acc) else fetchstr_loop k (a + 1) (acc @ [c]) s)"

definition fetchstr :: "uint \<Rightarrow> kernel \<Rightarrow> uchar list option result" where
  "fetchstr addr s =
     rbind (psz s) (\<lambda>sz. if addr \<ge> sz then Inr None else fetchstr_loop (unat (sz - addr)) addr [] s)"

subsection \<open>argint, argptr, argstr\<close>

definition argint :: "nat \<Rightarrow> kernel \<Rightarrow> uint option result" where
  "argint n s =
     (case proc_of s of None \<Rightarrow> Inl NullDeref
      | Some me \<Rightarrow> fetchint (tf_esp (p_tf (procs s me)) + 4 + 4 * of_nat n) s)"

definition argptr :: "nat \<Rightarrow> uint \<Rightarrow> kernel \<Rightarrow> uint option result" where
  "argptr n sz s =
     rbind (argint n s) (\<lambda>r.
     case r of None \<Rightarrow> Inr None | Some i \<Rightarrow>
     rbind (psz s) (\<lambda>top'. if i \<ge> top' \<or> i + sz > top' then Inr None else Inr (Some i)))"

definition argstr :: "nat \<Rightarrow> kernel \<Rightarrow> uchar list option result" where
  "argstr n s =
     rbind (argint n s) (\<lambda>r. case r of None \<Rightarrow> Inr None | Some addr \<Rightarrow> fetchstr addr s)"

text \<open>A system call that returns -1 when an argument cannot be fetched.\<close>

definition with_arg :: "'a option result \<Rightarrow> ('a \<Rightarrow> (int \<times> kernel) result) \<Rightarrow> kernel \<Rightarrow> (int \<times> kernel) result" where
  "with_arg r f s = rbind r (\<lambda>v. case v of None \<Rightarrow> Inr (-1, s) | Some x \<Rightarrow> f x)"

end
