(* ===== verification/Exec.thy ===== *)
theory Exec
  imports Uaccess
begin

section \<open>Running a program (exec.c)\<close>

text \<open>
  \<^verbatim>\<open>exec\<close> with the execute permission and set-uid bits of the CS333_P5 build, and \<^verbatim>\<open>loaduvm\<close> of \<^verbatim>\<open>vm.c\<close>. The ELF
  structures are read from the bytes of the file. \<^verbatim>\<open>readi\<close> returns -1 as a number that the comparison with
  \<^verbatim>\<open>sizeof\<close> makes unsigned, so a failed read of the header is not noticed; the bytes of the kernel stack that
  the header variable then holds are an argument. The argument strings are given as lists of bytes.
\<close>

subsection \<open>vm.c: loaduvm\<close>

fun loaduvm_loop :: "nat \<Rightarrow> uint \<Rightarrow> uint \<Rightarrow> nat \<Rightarrow> uint \<Rightarrow> uint \<Rightarrow> uint \<Rightarrow> kernel \<Rightarrow> (int \<times> kernel) result" where
  "loaduvm_loop 0 pgdir addr ip off i sz s = Inl Diverges"
| "loaduvm_loop (Suc k) pgdir addr ip off i sz s =
     (if i < sz
      then rbind (walkpgdir pgdir (addr + i) False s) (\<lambda>(pte, s).
        if pte = 0 then Inl (Panic ''loaduvm: address should exist'')
        else
          let pa = PTE_ADDR (load32 (mem s) pte);
              n = (if sz - i < PGSIZE then sz - i else PGSIZE)
          in
          rbind (readi ip (off + i) n s) (\<lambda>((r, bs), s).
          let s = s\<lparr>mem := store_bytes (p2v pa) bs (mem s)\<rparr> in
          if of_int r \<noteq> n then Inr (-1, s) else loaduvm_loop k pgdir addr ip off (i + PGSIZE) sz s))
      else Inr (0, s))"

definition loaduvm :: "uint \<Rightarrow> uint \<Rightarrow> nat \<Rightarrow> uint \<Rightarrow> uint \<Rightarrow> kernel \<Rightarrow> (int \<times> kernel) result" where
  "loaduvm pgdir addr ip off sz s =
     (if addr mod PGSIZE \<noteq> 0 then Inl (Panic ''loaduvm: addr must be page aligned'')
      else loaduvm_loop (2 ^ 20 + 1) pgdir addr ip off 0 sz s)"

subsection \<open>elf.h\<close>

definition ELF_MAGIC :: uint where "ELF_MAGIC = 0x464C457F"

record elfhdr =
  e_magic :: uint
  e_entry :: uint
  e_phoff :: uint
  e_phnum :: ushort

definition elf_of :: "block \<Rightarrow> elfhdr" where
  "elf_of d = \<lparr>e_magic = get32 d 0, e_entry = get32 d 24, e_phoff = get32 d 28, e_phnum = get16 d 44\<rparr>"

record proghdr =
  ph_type :: uint
  ph_off :: uint
  ph_vaddr :: uint
  ph_filesz :: uint
  ph_memsz :: uint

definition ph_of :: "block \<Rightarrow> proghdr" where
  "ph_of d = \<lparr>ph_type = get32 d 0, ph_off = get32 d 4, ph_vaddr = get32 d 8, ph_filesz = get32 d 16, ph_memsz = get32 d 20\<rparr>"

definition filled :: "uchar list \<Rightarrow> block \<Rightarrow> block" where
  "filled bs d = (\<lambda>i. if i < length bs then bs ! i else d i)"

subsection \<open>exec.c: exec\<close>

text \<open>The execute permission of the class the process belongs to.\<close>

definition may_exec :: "proc \<Rightarrow> stat \<Rightarrow> bool" where
  "may_exec r st =
     (if p_uid r = ucast (st_uid st) then bit (st_mode st) 6
      else if p_gid r = ucast (st_gid st) then bit (st_mode st) 3
      else bit (st_mode st) 0)"

text \<open>The loop over the program headers; \<open>None\<close> is the jump to \<^verbatim>\<open>bad\<close>.\<close>

fun load_segments :: "nat \<Rightarrow> uint \<Rightarrow> nat \<Rightarrow> uint \<Rightarrow> uint \<Rightarrow> kernel \<Rightarrow> (uint option \<times> kernel) result" where
  "load_segments 0 pgdir ip off sz s = Inr (Some sz, s)"
| "load_segments (Suc k) pgdir ip off sz s =
     rbind (readi ip off 32 s) (\<lambda>((r, bs), s).
     if r \<noteq> 32 then Inr (None, s)
     else
       let ph = ph_of (filled bs (\<lambda>_. 0)) in
       if ph_type ph \<noteq> 1 then load_segments k pgdir ip (off + 32) sz s
       else if ph_memsz ph < ph_filesz ph then Inr (None, s)
       else rbind (allocuvm pgdir sz (ph_vaddr ph + ph_memsz ph) s) (\<lambda>(sz, s).
         if sz = 0 then Inr (None, s)
         else rbind (loaduvm pgdir (ph_vaddr ph) ip (ph_off ph) (ph_filesz ph) s) (\<lambda>(r, s).
           if r < 0 then Inr (None, s) else load_segments k pgdir ip (off + 32) sz s)))"

definition MAXARG :: nat where "MAXARG = 32"

text \<open>The argument strings on the new stack: the stack pointer and the addresses of the strings.\<close>

fun push_args :: "nat \<Rightarrow> uint \<Rightarrow> uchar list list \<Rightarrow> uint \<Rightarrow> uint list \<Rightarrow> kernel \<Rightarrow> ((uint \<times> uint list) option \<times> kernel) result" where
  "push_args argc pgdir [] sp us s = Inr (Some (sp, us), s)"
| "push_args argc pgdir (a # as) sp us s =
     (if argc \<ge> MAXARG then Inr (None, s)
      else
        let sp = (sp - of_nat (length a + 1)) AND NOT 3 in
        rbind (copyout pgdir sp (a @ [0]) s) (\<lambda>(r, s).
        if r < 0 then Inr (None, s) else push_args (Suc argc) pgdir as sp (us @ [sp]) s))"

fun last_elem :: "uchar list \<Rightarrow> uchar list \<Rightarrow> uchar list" where
  "last_elem l [] = l"
| "last_elem l (c # cs) = last_elem (if c = slash then cs else l) cs"

text \<open>From the loaded segments on: the stack, the arguments and the switch to the new image.\<close>

definition exec_image :: "uchar list \<Rightarrow> uchar list list \<Rightarrow> stat \<Rightarrow> uint \<Rightarrow> uint \<Rightarrow> uint \<Rightarrow> kernel \<Rightarrow> (int \<times> kernel) result" where
  "exec_image pth argv st entry pgdir sz s =
     (let bad = (\<lambda>s. rbind (freevm pgdir s) (\<lambda>s. Inr (-1, s))); sz = PGROUNDUP sz in
      rbind (allocuvm pgdir sz (sz + 2 * PGSIZE) s) (\<lambda>(sz, s).
      if sz = 0 then bad s
      else rbind (clearpteu pgdir (sz - 2 * PGSIZE) s) (\<lambda>s.
        rbind (push_args 0 pgdir argv sz [] s) (\<lambda>(pushed, s).
        case pushed of None \<Rightarrow> bad s | Some (sp, us) \<Rightarrow>
        let argc = of_nat (length us) :: uint;
            ustack = [0xffffffff, argc, sp - (argc + 1) * 4] @ us @ [0];
            sp = sp - (3 + argc + 1) * 4
        in
        rbind (copyout pgdir sp (concat (map bytes_of_word ustack)) s) (\<lambda>(r, s).
        if r < 0 then bad s
        else case proc_of s of None \<Rightarrow> Inl NullDeref | Some me \<Rightarrow>
          let oldpgdir = p_pgdir (procs s me);
              s = upd_proc me (\<lambda>r. r\<lparr>p_name := take 15 (last_elem pth pth), p_pgdir := pgdir, p_sz := sz,
                p_tf := (p_tf r)\<lparr>tf_eip := entry, tf_esp := sp\<rparr>\<rparr>) s;
              s = (if bit (st_mode st) 9 then upd_proc me (\<lambda>r. r\<lparr>p_uid := ucast (st_uid st)\<rparr>) s else s)
          in
          rbind (switchuvm me s) (\<lambda>s. rbind (freevm oldpgdir s) (\<lambda>s. Inr (0, s))))))))"

definition exec_bad :: "uint \<Rightarrow> nat \<Rightarrow> kernel \<Rightarrow> (int \<times> kernel) result" where
  "exec_bad pgdir ip s =
     rbind (if pgdir \<noteq> 0 then freevm pgdir s else Inr s) (\<lambda>s.
     rbind (iunlockput ip s) (\<lambda>s. rbind (end_op s) (\<lambda>s. Inr (-1, s))))"

definition exec :: "block \<Rightarrow> uchar list \<Rightarrow> uchar list list \<Rightarrow> kernel \<Rightarrow> (int \<times> kernel) result" where
  "exec stk pth argv s =
     rbind (begin_op s) (\<lambda>s.
     rbind (namei pth s) (\<lambda>(found, s).
     case found of None \<Rightarrow> rbind (end_op s) (\<lambda>s. Inr (-1, s)) | Some ip \<Rightarrow>
     rbind (ilock (Some ip) s) (\<lambda>s.
     let st = stati ip s in
     case proc_of s of None \<Rightarrow> Inl NullDeref | Some me \<Rightarrow>
     if \<not> may_exec (procs s me) st then exec_bad 0 ip s
     else rbind (readi ip 0 52 s) (\<lambda>((r, bs), s).
     if (of_int r :: uint) < 52 then exec_bad 0 ip s
     else
       let elf = elf_of (filled bs stk) in
       if e_magic elf \<noteq> ELF_MAGIC then exec_bad 0 ip s
       else rbind (setupkvm s) (\<lambda>(pgdir, s).
       if pgdir = 0 then exec_bad 0 ip s
       else rbind (load_segments (unat (e_phnum elf)) pgdir ip (e_phoff elf) 0 s) (\<lambda>(loaded, s).
       case loaded of None \<Rightarrow> exec_bad pgdir ip s | Some sz \<Rightarrow>
       rbind (iunlockput ip s) (\<lambda>s.
       rbind (end_op s) (\<lambda>s.
       exec_image pth argv st (e_entry elf) pgdir sz s))))))))"

end
