(* ===== verification/Sysfile.thy ===== *)
theory Sysfile
  imports Exec
begin

section \<open>File system calls (sysfile.c)\<close>

text \<open>
  The system calls on files fetch their arguments from user memory and check them. A result of -1 is a
  failure as in the C code. Structures returned to the user are stored field by field.
\<close>

definition O_RDONLY :: uint where "O_RDONLY = 0"
definition O_WRONLY :: uint where "O_WRONLY = 1"
definition O_RDWR :: uint where "O_RDWR = 2"
definition O_CREATE :: uint where "O_CREATE = 0x200"

definition argfd :: "nat \<Rightarrow> kernel \<Rightarrow> (nat \<times> nat) option result" where
  "argfd n s =
     rbind (argint n s) (\<lambda>r.
     case r of None \<Rightarrow> Inr None | Some w \<Rightarrow>
     case proc_of s of None \<Rightarrow> Inl NullDeref | Some me \<Rightarrow>
     let fd = sint w in
     if fd < 0 \<or> fd \<ge> int NOFILE then Inr None
     else Inr (map_option (\<lambda>f. (nat fd, f)) (p_ofile (procs s me) (nat fd))))"

fun fdalloc_scan :: "nat \<Rightarrow> nat \<Rightarrow> (nat \<Rightarrow> nat option) \<Rightarrow> nat option" where
  "fdalloc_scan 0 fd ofile = None"
| "fdalloc_scan (Suc k) fd ofile = (if ofile fd = None then Some fd else fdalloc_scan k (Suc fd) ofile)"

definition fdalloc :: "nat \<Rightarrow> kernel \<Rightarrow> (nat option \<times> kernel) result" where
  "fdalloc f s =
     (case proc_of s of None \<Rightarrow> Inl NullDeref | Some me \<Rightarrow>
      case fdalloc_scan NOFILE 0 (p_ofile (procs s me)) of
        None \<Rightarrow> Inr (None, s)
      | Some fd \<Rightarrow> Inr (Some fd, upd_proc me (\<lambda>r. r\<lparr>p_ofile := (p_ofile r)(fd := Some f)\<rparr>) s))"

definition sys_dup :: "kernel \<Rightarrow> (int \<times> kernel) result" where
  "sys_dup s = with_arg (argfd 0 s) (\<lambda>(_, f).
     rbind (fdalloc f s) (\<lambda>(fd, s).
     case fd of None \<Rightarrow> Inr (-1, s) | Some fd \<Rightarrow>
     rbind (filedup f s) (\<lambda>(_, s). Inr (int fd, s)))) s"

definition sys_read :: "kernel \<Rightarrow> (int \<times> kernel) result" where
  "sys_read s = with_arg (argfd 0 s) (\<lambda>(_, f).
     with_arg (argint 2 s) (\<lambda>n.
     with_arg (argptr 1 n s) (\<lambda>p.
     rbind (fileread f (sint n) s) (\<lambda>((r, bs), s).
     rbind (ustore p bs s) (\<lambda>s. Inr (r, s)))) s) s) s"

definition sys_write :: "kernel \<Rightarrow> (int \<times> kernel) result" where
  "sys_write s = with_arg (argfd 0 s) (\<lambda>(_, f).
     with_arg (argint 2 s) (\<lambda>n.
     with_arg (argptr 1 n s) (\<lambda>p.
     rbind (uload (nat (sint n)) p s) (\<lambda>bs. filewrite f (sint n) bs s)) s) s) s"

definition sys_close :: "kernel \<Rightarrow> (int \<times> kernel) result" where
  "sys_close s = with_arg (argfd 0 s) (\<lambda>(fd, f).
     case proc_of s of None \<Rightarrow> Inl NullDeref | Some me \<Rightarrow>
     rbind (fileclose f (upd_proc me (\<lambda>r. r\<lparr>p_ofile := (p_ofile r)(fd := None)\<rparr>) s)) (\<lambda>s. Inr (0, s))) s"

text \<open>\<^verbatim>\<open>struct stat\<close> in user memory: 28 bytes, the two bytes after each \<^verbatim>\<open>short\<close> unused.\<close>

definition ustore_stat :: "uint \<Rightarrow> stat \<Rightarrow> kernel \<Rightarrow> kernel result" where
  "ustore_stat p st s =
     rbind (ustore p (bytes_of_short (st_type st)) s) (\<lambda>s.
     rbind (ustore (p + 4) (bytes_of_word (st_dev st) @ bytes_of_word (st_ino st) @ bytes_of_short (st_nlink st)) s)
       (ustore (p + 16) (bytes_of_word (st_size st) @ bytes_of_short (st_uid st) @ bytes_of_short (st_gid st) @
         bytes_of_word (st_mode st))))"

definition sys_fstat :: "kernel \<Rightarrow> (int \<times> kernel) result" where
  "sys_fstat s = with_arg (argfd 0 s) (\<lambda>(_, f).
     with_arg (argptr 1 28 s) (\<lambda>p.
     rbind (filestat f s) (\<lambda>(st, s).
     case st of None \<Rightarrow> Inr (-1, s) | Some st \<Rightarrow> rbind (ustore_stat p st s) (\<lambda>s. Inr (0, s)))) s) s"

subsection \<open>Links\<close>

definition fail_op :: "kernel \<Rightarrow> (int \<times> kernel) result" where
  "fail_op s = rbind (end_op s) (\<lambda>s. Inr (-1, s))"

definition put_fail :: "nat \<Rightarrow> kernel \<Rightarrow> (int \<times> kernel) result" where
  "put_fail ip s = rbind (iunlockput ip s) fail_op"

definition link_bad :: "nat \<Rightarrow> kernel \<Rightarrow> (int \<times> kernel) result" where
  "link_bad ip s =
     rbind (ilock (Some ip) s) (\<lambda>s.
     rbind (iupdate ip (upd_inode ip (\<lambda>r. r\<lparr>i_nlink := i_nlink r - 1\<rparr>) s)) (put_fail ip))"

definition sys_link :: "kernel \<Rightarrow> (int \<times> kernel) result" where
  "sys_link s = with_arg (argstr 0 s) (\<lambda>old.
     with_arg (argstr 1 s) (\<lambda>new.
     rbind (begin_op s) (\<lambda>s.
     rbind (namei old s) (\<lambda>(found, s).
     case found of None \<Rightarrow> fail_op s | Some ip \<Rightarrow>
     rbind (ilock (Some ip) s) (\<lambda>s.
     if i_type (inodes s ip) = T_DIR then put_fail ip s
     else
       rbind (iupdate ip (upd_inode ip (\<lambda>r. r\<lparr>i_nlink := i_nlink r + 1\<rparr>) s)) (\<lambda>s.
       rbind (iunlock (Some ip) s) (\<lambda>s.
       rbind (nameiparent new s) (\<lambda>((parent, name), s).
       case parent of None \<Rightarrow> link_bad ip s | Some dp \<Rightarrow>
       rbind (ilock (Some dp) s) (\<lambda>s.
       rbind (if i_dev (inodes s dp) \<noteq> i_dev (inodes s ip) then Inr (-1, s)
         else dirlink dp name (i_inum (inodes s ip)) s) (\<lambda>(r, s).
       if r < 0 then rbind (iunlockput dp s) (link_bad ip)
       else
         rbind (iunlockput dp s) (\<lambda>s.
         rbind (iput ip s) (\<lambda>s.
         rbind (end_op s) (\<lambda>s. Inr (0, s))))))))))))) s) s"

fun isdirempty_loop :: "nat \<Rightarrow> nat \<Rightarrow> uint \<Rightarrow> kernel \<Rightarrow> (bool \<times> kernel) result" where
  "isdirempty_loop 0 dp off s = Inl Diverges"
| "isdirempty_loop (Suc k) dp off s =
     (if \<not> off < i_size (inodes s dp) then Inr (True, s)
      else rbind (readi dp off 16 s) (\<lambda>((n, de), s).
        if n \<noteq> 16 then Inl (Panic ''isdirempty: readi'')
        else if de_inum de \<noteq> 0 then Inr (False, s)
        else isdirempty_loop k dp (off + 16) s))"

definition isdirempty :: "nat \<Rightarrow> kernel \<Rightarrow> (bool \<times> kernel) result" where
  "isdirempty dp s = isdirempty_loop (2 ^ 28 + 1) dp 32 s"

definition sys_unlink :: "kernel \<Rightarrow> (int \<times> kernel) result" where
  "sys_unlink s = with_arg (argstr 0 s) (\<lambda>pth.
     rbind (begin_op s) (\<lambda>s.
     rbind (nameiparent pth s) (\<lambda>((parent, name), s).
     case parent of None \<Rightarrow> fail_op s | Some dp \<Rightarrow>
     rbind (ilock (Some dp) s) (\<lambda>s.
     if namecmp name (chars ''.'') = 0 \<or> namecmp name (chars ''..'') = 0 then put_fail dp s
     else rbind (dirlookup dp name s) (\<lambda>(found, s).
     case found of None \<Rightarrow> put_fail dp s | Some (ip, off) \<Rightarrow>
     rbind (ilock (Some ip) s) (\<lambda>s.
     if sint (i_nlink (inodes s ip)) < 1 then Inl (Panic ''unlink: nlink < 1'')
     else rbind (if i_type (inodes s ip) = T_DIR then isdirempty ip s else Inr (True, s)) (\<lambda>(ok, s).
     if \<not> ok then rbind (iunlockput ip s) (put_fail dp)
     else rbind (writei dp (replicate 16 0) off s) (\<lambda>(n, s).
     if n \<noteq> 16 then Inl (Panic ''unlink: writei'')
     else
       rbind (if i_type (inodes s ip) = T_DIR
         then iupdate dp (upd_inode dp (\<lambda>r. r\<lparr>i_nlink := i_nlink r - 1\<rparr>) s) else Inr s) (\<lambda>s.
       rbind (iunlockput dp s) (\<lambda>s.
       rbind (iupdate ip (upd_inode ip (\<lambda>r. r\<lparr>i_nlink := i_nlink r - 1\<rparr>) s)) (\<lambda>s.
       rbind (iunlockput ip s) (\<lambda>s.
       rbind (end_op s) (\<lambda>s. Inr (0, s)))))))))))))) s"

subsection \<open>Creating and opening\<close>

definition create_new :: "nat \<Rightarrow> uchar list \<Rightarrow> ushort \<Rightarrow> ushort \<Rightarrow> ushort \<Rightarrow> kernel \<Rightarrow> (nat option \<times> kernel) result" where
  "create_new dp name ty major minor s =
     rbind (ialloc (i_dev (inodes s dp)) ty s) (\<lambda>(ip, s).
     rbind (ilock (Some ip) s) (\<lambda>s.
     rbind (iupdate ip (upd_inode ip (\<lambda>r. r\<lparr>i_major := major, i_minor := minor, i_nlink := 1\<rparr>) s)) (\<lambda>s.
     rbind (if ty = T_DIR
       then rbind (iupdate dp (upd_inode dp (\<lambda>r. r\<lparr>i_nlink := i_nlink r + 1\<rparr>) s)) (\<lambda>s.
            rbind (dirlink ip (chars ''.'') (i_inum (inodes s ip)) s) (\<lambda>(r, s).
            if r < 0 then Inl (Panic ''create dots'')
            else rbind (dirlink ip (chars ''..'') (i_inum (inodes s dp)) s) (\<lambda>(r, s).
              if r < 0 then Inl (Panic ''create dots'') else Inr s)))
       else Inr s) (\<lambda>s.
     rbind (dirlink dp name (i_inum (inodes s ip)) s) (\<lambda>(r, s).
     if r < 0 then Inl (Panic ''create: dirlink'')
     else rbind (iunlockput dp s) (\<lambda>s. Inr (Some ip, s)))))))"

definition create :: "uchar list \<Rightarrow> ushort \<Rightarrow> ushort \<Rightarrow> ushort \<Rightarrow> kernel \<Rightarrow> (nat option \<times> kernel) result" where
  "create pth ty major minor s =
     rbind (nameiparent pth s) (\<lambda>((parent, name), s).
     case parent of None \<Rightarrow> Inr (None, s) | Some dp \<Rightarrow>
     rbind (ilock (Some dp) s) (\<lambda>s.
     rbind (dirlookup dp name s) (\<lambda>(found, s).
     case found of
       Some (ip, _) \<Rightarrow>
         rbind (iunlockput dp s) (\<lambda>s.
         rbind (ilock (Some ip) s) (\<lambda>s.
         if ty = T_FILE \<and> i_type (inodes s ip) = T_FILE then Inr (Some ip, s)
         else rbind (iunlockput ip s) (\<lambda>s. Inr (None, s))))
     | None \<Rightarrow> create_new dp name ty major minor s)))"

text \<open>The inode to open, locked; \<open>None\<close> when the call fails, with the transaction still open.\<close>

definition open_inode :: "uchar list \<Rightarrow> uint \<Rightarrow> kernel \<Rightarrow> (nat option \<times> kernel) result" where
  "open_inode pth omode s =
     (if omode AND O_CREATE \<noteq> 0 then create pth T_FILE 0 0 s
      else rbind (namei pth s) (\<lambda>(found, s).
        case found of None \<Rightarrow> Inr (None, s) | Some ip \<Rightarrow>
        rbind (ilock (Some ip) s) (\<lambda>s.
        if i_type (inodes s ip) = T_DIR \<and> omode \<noteq> O_RDONLY
        then rbind (iunlockput ip s) (\<lambda>s. Inr (None, s))
        else Inr (Some ip, s))))"

definition sys_open :: "kernel \<Rightarrow> (int \<times> kernel) result" where
  "sys_open s = with_arg (argstr 0 s) (\<lambda>pth.
     with_arg (argint 1 s) (\<lambda>omode.
     rbind (begin_op s) (\<lambda>s.
     rbind (open_inode pth omode s) (\<lambda>(found, s).
     case found of None \<Rightarrow> fail_op s | Some ip \<Rightarrow>
     rbind (filealloc s) (\<lambda>(f, s).
     case f of None \<Rightarrow> put_fail ip s | Some f \<Rightarrow>
     rbind (fdalloc f s) (\<lambda>(fd, s).
     case fd of None \<Rightarrow> rbind (fileclose f s) (put_fail ip) | Some fd \<Rightarrow>
     rbind (iunlock (Some ip) s) (\<lambda>s.
     rbind (end_op s) (\<lambda>s.
     Inr (int fd, upd_file f (\<lambda>r. r\<lparr>f_type := FD_INODE, f_ip := Some ip, f_off := 0,
       f_readable := (omode AND O_WRONLY = 0),
       f_writable := (omode AND O_WRONLY \<noteq> 0 \<or> omode AND O_RDWR \<noteq> 0)\<rparr>) s)))))))) s) s"

definition finish_create :: "nat option \<times> kernel \<Rightarrow> (int \<times> kernel) result" where
  "finish_create x =
     (case x of (found, s) \<Rightarrow>
      case found of None \<Rightarrow> fail_op s
      | Some ip \<Rightarrow> rbind (iunlockput ip s) (\<lambda>s. rbind (end_op s) (\<lambda>s. Inr (0, s))))"

definition sys_mkdir :: "kernel \<Rightarrow> (int \<times> kernel) result" where
  "sys_mkdir s =
     rbind (begin_op s) (\<lambda>s.
     rbind (argstr 0 s) (\<lambda>pth.
     case pth of None \<Rightarrow> fail_op s | Some pth \<Rightarrow> rbind (create pth T_DIR 0 0 s) finish_create))"

definition sys_mknod :: "kernel \<Rightarrow> (int \<times> kernel) result" where
  "sys_mknod s =
     rbind (begin_op s) (\<lambda>s.
     rbind (argstr 0 s) (\<lambda>pth.
     case pth of None \<Rightarrow> fail_op s | Some pth \<Rightarrow>
     rbind (argint 1 s) (\<lambda>major.
     case major of None \<Rightarrow> fail_op s | Some major \<Rightarrow>
     rbind (argint 2 s) (\<lambda>minor.
     case minor of None \<Rightarrow> fail_op s | Some minor \<Rightarrow>
     rbind (create pth T_DEV (ucast major) (ucast minor) s) finish_create))))"

definition sys_chdir :: "kernel \<Rightarrow> (int \<times> kernel) result" where
  "sys_chdir s =
     rbind (begin_op s) (\<lambda>s.
     rbind (argstr 0 s) (\<lambda>pth.
     case pth of None \<Rightarrow> fail_op s | Some pth \<Rightarrow>
     rbind (namei pth s) (\<lambda>(found, s).
     case found of None \<Rightarrow> fail_op s | Some ip \<Rightarrow>
     rbind (ilock (Some ip) s) (\<lambda>s.
     if i_type (inodes s ip) \<noteq> T_DIR then put_fail ip s
     else
       rbind (iunlock (Some ip) s) (\<lambda>s.
       case proc_of s of None \<Rightarrow> Inl NullDeref | Some me \<Rightarrow>
       case p_cwd (procs s me) of None \<Rightarrow> Inl NullDeref | Some cwd \<Rightarrow>
       rbind (iput cwd s) (\<lambda>s.
       rbind (end_op s) (\<lambda>s.
       Inr (0, upd_proc me (\<lambda>r. r\<lparr>p_cwd := Some ip\<rparr>) s))))))))"

subsection \<open>exec, pipe, attributes\<close>

fun fetch_argv :: "nat \<Rightarrow> uint \<Rightarrow> kernel \<Rightarrow> uchar list list option result" where
  "fetch_argv 0 uargv s = Inr None"
| "fetch_argv (Suc k) uargv s =
     rbind (fetchint uargv s) (\<lambda>uarg.
     case uarg of None \<Rightarrow> Inr None | Some a \<Rightarrow>
     if a = 0 then Inr (Some [])
     else rbind (fetchstr a s) (\<lambda>str.
       case str of None \<Rightarrow> Inr None | Some bs \<Rightarrow>
       rbind (fetch_argv k (uargv + 4) s) (\<lambda>r. Inr (map_option (\<lambda>as. bs # as) r))))"

definition sys_exec :: "block \<Rightarrow> kernel \<Rightarrow> (int \<times> kernel) result" where
  "sys_exec stk s = with_arg (argstr 0 s) (\<lambda>pth.
     with_arg (argint 1 s) (\<lambda>uargv.
     with_arg (fetch_argv MAXARG uargv s) (\<lambda>argv. exec stk pth argv s) s) s) s"

definition sys_pipe :: "kernel \<Rightarrow> (int \<times> kernel) result" where
  "sys_pipe s = with_arg (argptr 0 8 s) (\<lambda>p.
     rbind (pipealloc s) (\<lambda>(fs, s).
     case fs of None \<Rightarrow> Inr (-1, s) | Some (rd, wr) \<Rightarrow>
     rbind (fdalloc rd s) (\<lambda>(fd0, s).
     rbind (if fd0 = None then Inr (None, s) else fdalloc wr s) (\<lambda>(fd1, s).
     case (fd0, fd1) of
       (Some a, Some b) \<Rightarrow>
         rbind (ustore p (bytes_of_word (of_nat a) @ bytes_of_word (of_nat b)) s) (\<lambda>s. Inr (0, s))
     | _ \<Rightarrow>
         (case proc_of s of None \<Rightarrow> Inl NullDeref | Some me \<Rightarrow>
          let s = (case fd0 of None \<Rightarrow> s | Some a \<Rightarrow> upd_proc me (\<lambda>r. r\<lparr>p_ofile := (p_ofile r)(a := None)\<rparr>) s) in
          rbind (fileclose rd s) (\<lambda>s. rbind (fileclose wr s) (\<lambda>s. Inr (-1, s)))))))) s"

definition sys_attr :: "int \<Rightarrow> (uchar list \<Rightarrow> int \<Rightarrow> kernel \<Rightarrow> (int \<times> kernel) result) \<Rightarrow> kernel \<Rightarrow> (int \<times> kernel) result" where
  "sys_attr limit f s = with_arg (argstr 0 s) (\<lambda>pth.
     with_arg (argint 1 s) (\<lambda>v.
     if sint v < 0 \<or> sint v > limit then Inr (-1, s) else f pth (sint v) s) s) s"

definition sys_chmod :: "kernel \<Rightarrow> (int \<times> kernel) result" where
  "sys_chmod = sys_attr 1023 chmod"

definition sys_chown :: "kernel \<Rightarrow> (int \<times> kernel) result" where
  "sys_chown = sys_attr 32767 chown"

definition sys_chgrp :: "kernel \<Rightarrow> (int \<times> kernel) result" where
  "sys_chgrp = sys_attr 32767 chgrp"

end
