(* ===== verification/Devices.thy ===== *)
theory Devices
  imports Console
begin

unbundle bit_operations_syntax

section \<open>Keyboard and clock (kbd.c, kbd.h, lapic.c)\<close>

text \<open>
  The values the kernel reads from the ports of a device are arguments: for the keyboard the list of pairs of
  status and data, for the clock a function from the time of a read and the register to the byte.
\<close>

subsection \<open>kbd.h\<close>

definition KBS_DIB :: uint where "KBS_DIB = 1"
definition SHIFT :: uint where "SHIFT = 1"
definition CTL :: uint where "CTL = 2"
definition ALT :: uint where "ALT = 4"
definition CAPSLOCK :: uint where "CAPSLOCK = 8"
definition NUMLOCK :: uint where "NUMLOCK = 16"
definition SCROLLLOCK :: uint where "SCROLLLOCK = 32"
definition E0ESC :: uint where "E0ESC = 64"

definition shiftcode :: "nat \<Rightarrow> uint" where
  "shiftcode i =
     (if i = 0x1D then CTL else if i = 0x2A then SHIFT else if i = 0x36 then SHIFT else if i = 0x38 then ALT
      else if i = 0x9D then CTL else if i = 0xB8 then ALT else 0)"

definition togglecode :: "nat \<Rightarrow> uint" where
  "togglecode i = (if i = 0x3A then CAPSLOCK else if i = 0x45 then NUMLOCK else if i = 0x46 then SCROLLLOCK else 0)"

text \<open>The entries from 0x97 on, which the three maps share but for \<^verbatim>\<open>KP_Enter\<close> and \<^verbatim>\<open>KP_Div\<close>.\<close>

definition key_code :: "uint \<Rightarrow> uint \<Rightarrow> nat \<Rightarrow> uint" where
  "key_code enter slsh i =
     (if i = 0x9C then enter else if i = 0xB5 then slsh
      else if i = 0xC8 then 0xE2 else if i = 0xD0 then 0xE3
      else if i = 0xC9 then 0xE6 else if i = 0xD1 then 0xE7
      else if i = 0xCB then 0xE4 else if i = 0xCD then 0xE5
      else if i = 0x97 then 0xE0 else if i = 0xCF then 0xE1
      else if i = 0xD2 then 0xE8 else if i = 0xD3 then 0xE9 else 0)"

text \<open>A row of a map as a string, in which a space stands for \<^verbatim>\<open>NO\<close>; the key of the space bar is 0x39.\<close>

definition row :: "string \<Rightarrow> uint list" where
  "row cs = map (\<lambda>c. if c = CHR '' '' then 0 else of_nat (of_char c)) cs"

definition from_map :: "uint list \<Rightarrow> (nat \<Rightarrow> uint) \<Rightarrow> nat \<Rightarrow> uint" where
  "from_map ks f i = (if i < length ks then ks ! i else f i)"

definition normalmap :: "nat \<Rightarrow> uint" where
  "normalmap = from_map
     ([0, 0x1B] @ row ''123456'' @
      row ''7890-='' @ [8, 9] @
      row ''qwertyui'' @
      row ''op[]'' @ [10, 0] @ row ''as'' @
      row ''dfghjkl;'' @
      [39] @ row ''` '' @ [92] @ row ''zxcv'' @
      row ''bnm,./ *'' @
      [0, 32] @ row ''      '' @
      row ''       7'' @
      row ''89-456+1'' @
      row ''230.    '') (key_code 10 47)"

definition shiftmap :: "nat \<Rightarrow> uint" where
  "shiftmap = from_map
     ([0, 27] @ row ''!@#$%^'' @
      row ''&*()_+'' @ [8, 9] @
      row ''QWERTYUI'' @
      row ''OP{}'' @ [10, 0] @ row ''AS'' @
      row ''DFGHJKL:'' @
      [34] @ row ''~ |ZXCV'' @
      row ''BNM<>? *'' @
      [0, 32] @ row ''      '' @
      row ''       7'' @
      row ''89-456+1'' @
      row ''230.    '') (key_code 10 47)"

text \<open>In \<^verbatim>\<open>ctlmap\<close> an entry \<^verbatim>\<open>C(x)\<close> is \<^verbatim>\<open>x - '@'\<close> as an unsigned byte.\<close>

definition ctl_row :: "string \<Rightarrow> uint list" where
  "ctl_row cs = map (\<lambda>c. if c = 0 then 0 else (c - 64) mod 256) (row cs)"

definition ctlmap :: "nat \<Rightarrow> uint" where
  "ctlmap = from_map
     (replicate 16 0 @
      ctl_row ''QWERTYUI'' @
      ctl_row ''OP  '' @ [13, 0] @ ctl_row ''AS'' @
      ctl_row ''DFGHJKL '' @
      ctl_row ''   '' @ [28] @ ctl_row ''ZXCV'' @
      ctl_row ''BNM  /  '') (key_code 13 239)"

subsection \<open>kbdgetc, kbdintr\<close>

definition charcode :: "uint \<Rightarrow> nat \<Rightarrow> uint" where
  "charcode m = (if m = 0 then normalmap else if m = 1 then shiftmap else ctlmap)"

text \<open>The result -1, when the controller has no data, is \<open>None\<close>; the state is the variable \<^verbatim>\<open>shift\<close>.\<close>

definition kbdgetc :: "uchar \<Rightarrow> uchar \<Rightarrow> uint \<Rightarrow> uint option \<times> uint" where
  "kbdgetc st dat shift =
     (let data = ucast dat :: uint in
      if (ucast st :: uint) AND KBS_DIB = 0 then (None, shift)
      else if data = 0xE0 then (Some 0, shift OR E0ESC)
      else if data AND 0x80 \<noteq> 0
      then let data = (if shift AND E0ESC \<noteq> 0 then data else data AND 0x7F) in
           (Some 0, shift AND NOT (shiftcode (unat data) OR E0ESC))
      else
        let (data, shift) = (if shift AND E0ESC \<noteq> 0 then (data OR 0x80, shift AND NOT E0ESC) else (data, shift));
            shift = shift OR shiftcode (unat data);
            shift = shift XOR togglecode (unat data);
            c = charcode (shift AND (CTL OR SHIFT)) (unat data);
            c = (if shift AND CAPSLOCK \<noteq> 0
                 then if 97 \<le> c \<and> c \<le> 122 then c - 32 else if 65 \<le> c \<and> c \<le> 90 then c + 32 else c
                 else c)
        in (Some c, shift))"

text \<open>The calls of \<^verbatim>\<open>kbdgetc\<close> in a run of \<^verbatim>\<open>consoleintr\<close>: up to the first that finds no data.\<close>

fun kbd_chars :: "(uchar \<times> uchar) list \<Rightarrow> uint \<Rightarrow> uint list \<times> uint" where
  "kbd_chars [] shift = ([], shift)"
| "kbd_chars ((st, dat) # rs) shift =
     (case kbdgetc st dat shift of
        (None, shift) \<Rightarrow> ([], shift)
      | (Some c, shift) \<Rightarrow> (let (cs, shift) = kbd_chars rs shift in (c # cs, shift)))"

definition kbdintr :: "(nat \<Rightarrow> uint) \<Rightarrow> (uchar \<times> uchar) list \<Rightarrow> kernel \<Rightarrow> kernel result" where
  "kbdintr ebp rs s = (let (cs, shift) = kbd_chars rs (kbd_shift s) in consoleintr ebp cs (s\<lparr>kbd_shift := shift\<rparr>))"

fun uart_chars :: "uchar option list \<Rightarrow> kernel \<Rightarrow> uint list" where
  "uart_chars [] s = []"
| "uart_chars (rx # rs) s = (let c = uartgetc rx s in if c < 0 then [] else of_int c # uart_chars rs s)"

definition uartintr :: "(nat \<Rightarrow> uint) \<Rightarrow> uchar option list \<Rightarrow> kernel \<Rightarrow> kernel result" where
  "uartintr ebp rs s = consoleintr ebp (uart_chars rs s) s"

subsection \<open>cmostime\<close>

record rtcdate =
  second :: uint
  minute :: uint
  hour :: uint
  day :: uint
  month :: uint
  year :: uint

type_synonym cmos = "nat \<Rightarrow> nat \<Rightarrow> uchar"

definition cmos_read :: "cmos \<Rightarrow> nat \<Rightarrow> nat \<Rightarrow> uint" where
  "cmos_read cm t reg = ucast (cm t reg)"

definition fill_rtcdate :: "cmos \<Rightarrow> nat \<Rightarrow> rtcdate" where
  "fill_rtcdate cm t = \<lparr>second = cmos_read cm t 0, minute = cmos_read cm (t + 1) 2, hour = cmos_read cm (t + 2) 4,
     day = cmos_read cm (t + 3) 7, month = cmos_read cm (t + 4) 8, year = cmos_read cm (t + 5) 9\<rparr>"

fun cmos_stable :: "nat \<Rightarrow> cmos \<Rightarrow> nat \<Rightarrow> rtcdate result" where
  "cmos_stable 0 cm t = Inl Diverges"
| "cmos_stable (Suc k) cm t =
     (let t1 = fill_rtcdate cm t in
      if cmos_read cm (t + 6) 0x0A AND 0x80 \<noteq> 0 then cmos_stable k cm (t + 7)
      else if t1 = fill_rtcdate cm (t + 7) then Inr t1
      else cmos_stable k cm (t + 13))"

definition conv_bcd :: "uint \<Rightarrow> uint" where
  "conv_bcd x = drop_bit 4 x * 10 + (x AND 0xf)"

definition cmostime :: "nat \<Rightarrow> cmos \<Rightarrow> nat \<Rightarrow> rtcdate result" where
  "cmostime fuel cm t =
     (let bcd = (cmos_read cm t 0x0B AND 4 = 0) in
      rbind (cmos_stable fuel cm (t + 1)) (\<lambda>t1.
      let t1 = (if bcd
        then \<lparr>second = conv_bcd (second t1), minute = conv_bcd (minute t1), hour = conv_bcd (hour t1),
          day = conv_bcd (day t1), month = conv_bcd (month t1), year = conv_bcd (year t1)\<rparr>
        else t1)
      in Inr (t1\<lparr>year := year t1 + 2000\<rparr>)))"

end
