(* ===== verification/Syscall.thy ===== *)
theory Syscall
  imports Sysfile Devices
begin

unbundle bit_operations_syntax

section \<open>Process system calls, the dispatcher and traps (sysproc.c, syscall.c, trap.c)\<close>

text \<open>
  A system call returns a value, or does not return to its caller because the process has exited. What the
  handlers read from the outside is an argument of type \<open>hardware\<close>: the bytes on the kernel stack below an
  uninitialised structure, the clock, the input devices, the saved frame pointers, the fault address and the status register of the disk.
\<close>

record hardware =
  hw_stack :: block
  hw_clock :: cmos
  hw_clock_tries :: nat
  hw_kbd :: "(uchar \<times> uchar) list"
  hw_uart :: "uchar option list"
  hw_ebp :: "nat \<Rightarrow> uint"
  hw_cr2 :: uint
  hw_ide_status :: "uint list"
  hw_ide_ready :: "uint list"

datatype sysret = Returns int | Exits

subsection \<open>sysproc.c\<close>

definition my :: "kernel \<Rightarrow> (nat \<Rightarrow> 'a result) \<Rightarrow> 'a result" where
  "my s f = (case proc_of s of None \<Rightarrow> Inl NullDeref | Some me \<Rightarrow> f me)"

definition sys_fork :: "kernel \<Rightarrow> (int \<times> kernel) result" where
  "sys_fork s = fork s"

definition sys_exit :: "kernel \<Rightarrow> (sysret \<times> kernel) result" where
  "sys_exit s = rbind (exit s) (\<lambda>s. Inr (Exits, s))"

definition sys_wait :: "kernel \<Rightarrow> (int \<times> kernel) result" where
  "sys_wait s = wait s"

definition sys_kill :: "kernel \<Rightarrow> (int \<times> kernel) result" where
  "sys_kill s = with_arg (argint 0 s) (\<lambda>pid. kill pid s) s"

definition sys_getpid :: "kernel \<Rightarrow> (int \<times> kernel) result" where
  "sys_getpid s = my s (\<lambda>me. Inr (sint (p_pid (procs s me)), s))"

definition sys_sbrk :: "kernel \<Rightarrow> (int \<times> kernel) result" where
  "sys_sbrk s = with_arg (argint 0 s) (\<lambda>n.
     my s (\<lambda>me.
     rbind (growproc (sint n) s) (\<lambda>(r, s').
     Inr (if r < 0 then -1 else sint (p_sz (procs s me)), s')))) s"

text \<open>
  \<^verbatim>\<open>sys_sleep\<close> from a turn of its loop on, with its variables \<^verbatim>\<open>ticks0\<close> and \<^verbatim>\<open>n\<close>. The comparison is unsigned. When
  it goes to sleep it stops with \<open>Blocks\<close>, and the next turn starts when it is woken.
\<close>

definition sleep_turn :: "uint \<Rightarrow> uint \<Rightarrow> kernel \<Rightarrow> (int \<times> kernel) result" where
  "sleep_turn ticks0 n s =
     (if ticks s - ticks0 < n
      then my s (\<lambda>me. if p_killed (procs s me) then Inr (-1, s) else Inl (Blocks ChanTicks))
      else Inr (0, s))"

definition sys_sleep :: "kernel \<Rightarrow> (int \<times> kernel) result" where
  "sys_sleep s = with_arg (argint 0 s) (\<lambda>n. sleep_turn (ticks s) n s) s"

definition sys_uptime :: "kernel \<Rightarrow> (int \<times> kernel) result" where
  "sys_uptime s = Inr (sint (ticks s), s)"

text \<open>\<^verbatim>\<open>sys_halt\<close> on a machine that does not power off.\<close>

definition sys_halt :: "kernel \<Rightarrow> (int \<times> kernel) result" where
  "sys_halt s = rbind (cprintf (Some (chars ''Shutting down ...'' @ [10])) [] s) (\<lambda>s. Inr (0, s))"

definition sys_date :: "hardware \<Rightarrow> kernel \<Rightarrow> (int \<times> kernel) result" where
  "sys_date hw s = with_arg (argptr 0 24 s) (\<lambda>p.
     rbind (cmostime (hw_clock_tries hw) (hw_clock hw) 0) (\<lambda>d.
     rbind (ustore p (concat (map bytes_of_word [second d, minute d, hour d, day d, month d, year d])) s) (\<lambda>s.
     Inr (0, s)))) s"

definition sys_getuid :: "kernel \<Rightarrow> (int \<times> kernel) result" where
  "sys_getuid s = my s (\<lambda>me. Inr (sint (p_uid (procs s me)), s))"

definition sys_getgid :: "kernel \<Rightarrow> (int \<times> kernel) result" where
  "sys_getgid s = my s (\<lambda>me. Inr (sint (p_gid (procs s me)), s))"

definition sys_getppid :: "kernel \<Rightarrow> (int \<times> kernel) result" where
  "sys_getppid s = my s (\<lambda>me.
     Inr (sint (p_pid (procs s (case p_parent (procs s me) of Some q \<Rightarrow> q | None \<Rightarrow> me))), s))"

definition sys_setuid :: "kernel \<Rightarrow> (int \<times> kernel) result" where
  "sys_setuid s = with_arg (argint 0 s) (\<lambda>uid.
     if sint uid < 0 \<or> sint uid > 32767 then Inr (-1, s)
     else my s (\<lambda>me. Inr (0, upd_proc me (\<lambda>r. r\<lparr>p_uid := uid\<rparr>) s))) s"

definition sys_setgid :: "kernel \<Rightarrow> (int \<times> kernel) result" where
  "sys_setgid s = with_arg (argint 0 s) (\<lambda>gid.
     if sint gid < 0 \<or> sint gid > 32767 then Inr (-1, s)
     else my s (\<lambda>me. Inr (0, upd_proc me (\<lambda>r. r\<lparr>p_gid := gid\<rparr>) s))) s"

text \<open>
  An entry of the table, 96 bytes. The strings are copied with \<^verbatim>\<open>safestrcpy\<close>, which stores nothing after their zero.
\<close>

definition ustore_uproc :: "uint \<Rightarrow> uproc \<Rightarrow> kernel \<Rightarrow> kernel result" where
  "ustore_uproc p u s =
     rbind (ustore p (concat (map bytes_of_word
       [u_pid u, u_uid u, u_gid u, u_ppid u, u_elapsed_ticks u, u_CPU_total_ticks u])) s) (\<lambda>s.
     rbind (ustore (p + 24) (u_state u @ [0]) s) (\<lambda>s.
     rbind (ustore (p + 56) (bytes_of_word (u_size u)) s) (\<lambda>s.
     rbind (ustore (p + 60) (u_name u @ [0]) s) (\<lambda>s.
     ustore (p + 92) (bytes_of_word (u_priority u)) s))))"

fun ustore_uprocs :: "uint \<Rightarrow> uproc list \<Rightarrow> kernel \<Rightarrow> kernel result" where
  "ustore_uprocs p [] s = Inr s"
| "ustore_uprocs p (u # us) s = rbind (ustore_uproc p u s) (ustore_uprocs (p + 96) us)"

text \<open>The size that is checked, \<^verbatim>\<open>sizeof(&table) * max\<close>, is four bytes for an entry.\<close>

definition sys_getprocs :: "kernel \<Rightarrow> (int \<times> kernel) result" where
  "sys_getprocs s = with_arg (argint 0 s) (\<lambda>mx.
     with_arg (argptr 1 (4 * mx) s) (\<lambda>table.
     rbind (getprocs mx s) (\<lambda>((r, us), s).
     rbind (ustore_uprocs table us s) (\<lambda>s. Inr (r, s)))) s) s"

definition sys_setpriority :: "kernel \<Rightarrow> (int \<times> kernel) result" where
  "sys_setpriority s = with_arg (argint 0 s) (\<lambda>pID.
     with_arg (argint 1 s) (\<lambda>prio.
     if sint pID < 1 then Inr (-1, s)
     else if sint prio < 0 \<or> sint prio > int MAXPRIO then Inr (-1, s)
     else setpriority pID prio s) s) s"

subsection \<open>syscall.c\<close>

definition returns :: "(int \<times> kernel) result \<Rightarrow> (sysret \<times> kernel) result" where
  "returns r = rbind r (\<lambda>(v, s). Inr (Returns v, s))"

definition syscalls :: "hardware \<Rightarrow> ((kernel \<Rightarrow> (sysret \<times> kernel) result)) list" where
  "syscalls hw =
     [\<lambda>s. returns (sys_fork s), sys_exit, \<lambda>s. returns (sys_wait s), \<lambda>s. returns (sys_pipe s),
      \<lambda>s. returns (sys_read s), \<lambda>s. returns (sys_kill s), \<lambda>s. returns (sys_exec (hw_stack hw) s),
      \<lambda>s. returns (sys_fstat s), \<lambda>s. returns (sys_chdir s), \<lambda>s. returns (sys_dup s),
      \<lambda>s. returns (sys_getpid s), \<lambda>s. returns (sys_sbrk s), \<lambda>s. returns (sys_sleep s),
      \<lambda>s. returns (sys_uptime s), \<lambda>s. returns (sys_open s), \<lambda>s. returns (sys_write s),
      \<lambda>s. returns (sys_mknod s), \<lambda>s. returns (sys_unlink s), \<lambda>s. returns (sys_link s),
      \<lambda>s. returns (sys_mkdir s), \<lambda>s. returns (sys_close s), \<lambda>s. returns (sys_halt s),
      \<lambda>s. returns (sys_date hw s), \<lambda>s. returns (sys_getuid s), \<lambda>s. returns (sys_getgid s),
      \<lambda>s. returns (sys_getppid s), \<lambda>s. returns (sys_setuid s), \<lambda>s. returns (sys_setgid s),
      \<lambda>s. returns (sys_getprocs s), \<lambda>s. returns (sys_setpriority s), \<lambda>s. returns (sys_chmod s),
      \<lambda>s. returns (sys_chown s), \<lambda>s. returns (sys_chgrp s)]"

definition set_eax :: "nat \<Rightarrow> uint \<Rightarrow> kernel \<Rightarrow> kernel" where
  "set_eax me v = upd_proc me (\<lambda>r. r\<lparr>p_tf := (p_tf r)\<lparr>tf_eax := v\<rparr>\<rparr>)"

definition syscall :: "hardware \<Rightarrow> kernel \<Rightarrow> (bool \<times> kernel) result" where
  "syscall hw s = my s (\<lambda>me.
     let num = sint (tf_eax (p_tf (procs s me))) in
     if num > 0 \<and> num \<le> int (length (syscalls hw))
     then rbind ((syscalls hw ! nat (num - 1)) s) (\<lambda>(r, s).
       case r of Exits \<Rightarrow> Inr (False, s) | Returns v \<Rightarrow> Inr (True, set_eax me (of_int v) s))
     else
       rbind (cprintf (Some (chars ''%d %s: unknown sys call %d'' @ [10]))
         [VWord (p_pid (procs s me)), VStr (Some (p_name (procs s me))), VWord (of_int num)] s) (\<lambda>s.
       Inr (True, set_eax me (-1) s)))"

end
