(* ===== verification/Ide.thy ===== *)
theory Ide
  imports Bio_Inv
begin

unbundle bit_operations_syntax

section \<open>The interrupt-driven disk driver (ide.c)\<close>

text \<open>
  The driver keeps a queue of buffers linked through \<^verbatim>\<open>qnext\<close>, gives the request at its head to the disk and
  goes to sleep until the interrupt handler has finished the request. The first part holds the driver, the
  second the disk it talks to. The last part shows that, with any interleaving of requests and
  interrupts, the driver does what the synchronous driver of \<^verbatim>\<open>memide.c\<close> does.
\<close>

subsection \<open>The registers of the disk\<close>

text \<open>
  A disk takes the sector number from three registers and the low half of a fourth, and the drive from a bit of
  the fourth; a command with data is a write.
\<close>

definition ide_command :: "uint \<Rightarrow> uint \<Rightarrow> uint \<Rightarrow> uint \<Rightarrow> block option \<Rightarrow> uint \<times> uint \<times> block option" where
  "ide_command r3 r4 r5 r6 d =
     (drop_bit 4 r6 AND 1, r3 OR push_bit 8 r4 OR push_bit 16 r5 OR push_bit 24 (r6 AND 0x0f), d)"

subsection \<open>The driver\<close>

text \<open>
  The status register is an argument wherever the driver waits for the disk: the values that the loop reads one after the other. If
  none of them shows a ready disk, the loop does not end.
\<close>

fun idewait :: "bool \<Rightarrow> uint list \<Rightarrow> int result" where
  "idewait checkerr [] = Inl Diverges"
| "idewait checkerr (r # rs) =
     (if r AND (0x80 OR 0x40) \<noteq> 0x40 then idewait checkerr rs
      else Inr (if checkerr \<and> r AND (0x20 OR 0x01) \<noteq> 0 then -1 else 0))"

text \<open>The present disk answers one of a thousand status reads with a value other than 0.\<close>

definition ideinit_pio :: "uint list \<Rightarrow> (nat \<Rightarrow> uint) \<Rightarrow> kernel \<Rightarrow> kernel result" where
  "ideinit_pio rs st s =
     rbind (idewait False rs) (\<lambda>_.
     let s = initlock IdeLock ''ide'' s in
     Inr (if \<exists>i\<in>set [0..<1000]. st i \<noteq> 0 then s\<lparr>havedisk1 := True\<rparr> else s))"

definition idestart :: "uint list \<Rightarrow> nat option \<Rightarrow> kernel \<Rightarrow> kernel result" where
  "idestart rs bo s =
     (case bo of None \<Rightarrow> Inl (Panic ''idestart'') | Some b \<Rightarrow>
      let r = bufs s b in
      if b_blockno r \<ge> FSSIZE then Inl (Panic ''incorrect blockno'')
      else
        let sector_per_block = of_nat BSIZE div 512 :: uint;
            sector = b_blockno r * sector_per_block
        in
        if sector_per_block > 7 then Inl (Panic ''idestart'')
        else rbind (idewait False rs) (\<lambda>_.
          Inr (s\<lparr>ide_cmd := Some (ide_command (sector AND 0xff) (drop_bit 8 sector AND 0xff)
            (drop_bit 16 sector AND 0xff) (0xe0 OR push_bit 4 (b_dev r AND 1) OR (drop_bit 24 sector AND 0x0f))
            (if b_dirty r then Some (b_data r) else None))\<rparr>)))"

text \<open>
  The interrupt handler is given the status values that it reads, before it takes the data and before it starts the next request, and the
  block that the data port shows. \<open>ide_finish\<close> is the handler up to the wakeup; \<open>got\<close> says whether the data was read.
\<close>

definition ide_finish :: "bool \<Rightarrow> block \<Rightarrow> nat \<Rightarrow> kernel \<Rightarrow> kernel" where
  "ide_finish got d b s =
     upd_buf b (\<lambda>r. r\<lparr>b_data := (if got then d else b_data r), b_valid := True, b_dirty := False\<rparr>)
       (s\<lparr>idequeue := b_qnext (bufs s b)\<rparr>)"

definition ideintr_locked :: "uint list \<Rightarrow> block \<Rightarrow> uint list \<Rightarrow> kernel \<Rightarrow> (unit \<times> kernel) result" where
  "ideintr_locked ws d rs s =
     (case idequeue s of None \<Rightarrow> Inr ((), s) | Some b \<Rightarrow>
      rbind (if b_dirty (bufs s b) then Inr False else rbind (idewait True ws) (\<lambda>r. Inr (r \<ge> 0))) (\<lambda>got.
      rbind (wakeup (Some (ChanBuf b)) (ide_finish got d b s)) (\<lambda>s.
      rbind (if idequeue s \<noteq> None then idestart rs (idequeue s) s else Inr s) (\<lambda>s. Inr ((), s)))))"

definition ideintr :: "uint list \<Rightarrow> block \<Rightarrow> uint list \<Rightarrow> kernel \<Rightarrow> kernel result" where
  "ideintr ws d rs s = rbind (with_lock IdeLock (ideintr_locked ws d rs) s) (\<lambda>(_, s). Inr s)"

fun ide_append :: "nat \<Rightarrow> nat \<Rightarrow> nat \<Rightarrow> kernel \<Rightarrow> kernel result" where
  "ide_append 0 b q s = Inl Diverges"
| "ide_append (Suc k) b q s =
     (case b_qnext (bufs s q) of
        None \<Rightarrow> Inr (upd_buf q (\<lambda>r. r\<lparr>b_qnext := Some b\<rparr>) s)
      | Some q \<Rightarrow> ide_append k b q s)"

definition ide_insert :: "nat \<Rightarrow> kernel \<Rightarrow> kernel result" where
  "ide_insert b s =
     (let s = upd_buf b (\<lambda>r. r\<lparr>b_qnext := None\<rparr>) s in
      case idequeue s of None \<Rightarrow> Inr (s\<lparr>idequeue := Some b\<rparr>) | Some q \<Rightarrow> ide_append (Suc NBUF) b q s)"

text \<open>
  \<^verbatim>\<open>iderw\<close> up to its sleep, which gives the lock back, and its loop when it has been woken. The result says
  whether the loop has ended.
\<close>

definition ide_wait :: "nat \<Rightarrow> kernel \<Rightarrow> (bool \<times> kernel) result" where
  "ide_wait b s = Inr (b_valid (bufs s b) \<and> \<not> b_dirty (bufs s b), s)"

definition iderw_pio :: "uint list \<Rightarrow> nat \<Rightarrow> kernel \<Rightarrow> (bool \<times> kernel) result" where
  "iderw_pio rs b s =
     (let r = bufs s b in
      if \<not> b_busy r then Inl (Panic ''iderw: buf not busy'')
      else if b_valid r \<and> \<not> b_dirty r then Inl (Panic ''iderw: nothing to do'')
      else if b_dev r \<noteq> 0 \<and> \<not> havedisk1 s then Inl (Panic ''iderw: ide disk 1 not present'')
      else with_lock IdeLock (\<lambda>s.
        rbind (ide_insert b s) (\<lambda>s.
        rbind (if idequeue s = Some b then idestart rs (Some b) s else Inr s) (ide_wait b))) s)"

definition iderw_woken :: "nat \<Rightarrow> kernel \<Rightarrow> (bool \<times> kernel) result" where
  "iderw_woken b s = with_lock IdeLock (ide_wait b) s"

subsection \<open>The disk\<close>

text \<open>
  Drive 1 holds the file system. It carries out the command it has, then interrupts: a write stores the
  block, and after a read the data port shows the block.
\<close>

definition ide_done :: "kernel \<Rightarrow> kernel" where
  "ide_done s =
     (case ide_cmd s of
        Some (dr, sec, Some d) \<Rightarrow>
          if dr = 1 then s\<lparr>disk := (disk s)(unat sec := d), dtrace := dtrace s @ [(unat sec, d)]\<rparr> else s
      | _ \<Rightarrow> s)"

definition ide_data :: "kernel \<Rightarrow> block" where
  "ide_data s = (case ide_cmd s of Some (_, sec, _) \<Rightarrow> disk s (unat sec) | None \<Rightarrow> (\<lambda>_. 0))"

text \<open>
  The events of a run: a process makes a request, with the status values that the driver reads if it starts the request at once, or the
  disk interrupts, with the values read by the handler.
\<close>

datatype ide_event = Request nat "uint list" | Interrupt "uint list" "uint list"

fun ide_do :: "ide_event \<Rightarrow> kernel \<Rightarrow> kernel result" where
  "ide_do (Request b rs) s = rbind (iderw_pio rs b s) (\<lambda>(_, s). Inr s)"
| "ide_do (Interrupt ws rs) s =
     (if idequeue s = None then ideintr ws (\<lambda>_. 0) rs s else ideintr ws (ide_data s) rs (ide_done s))"

text \<open>The disk becomes ready whenever the driver waits for it; after a read it may report an error.\<close>

fun disk_ready :: "ide_event \<Rightarrow> bool" where
  "disk_ready (Request b rs) = (idewait False rs = Inr 0)"
| "disk_ready (Interrupt ws rs) = ((\<exists>r. idewait True ws = Inr r) \<and> idewait False rs = Inr 0)"

definition no_error :: "uint list \<Rightarrow> bool" where
  "no_error ws \<longleftrightarrow> idewait True ws = Inr 0"

lemma idewait_error: "\<exists>r. idewait True ws = Inr r \<Longrightarrow> idewait True ws = Inr (if no_error ws then 0 else -1)"
  unfolding no_error_def by (induction ws) (auto split: if_splits)

subsection \<open>The command for a buffer\<close>

lemma masks: "0xff = (mask 8 :: uint)" "0x0f = (mask 4 :: uint)" "0xe0 = (push_bit 5 (mask 3) :: uint)" "1 = (mask 1 :: uint)"
  by (simp_all add: mask_eq_exp_minus_1 push_bit_eq_mult)

lemma sector_bytes:
  fixes x :: uint
  shows "(x AND mask 8) OR push_bit 8 (drop_bit 8 x AND mask 8) OR push_bit 16 (drop_bit 16 x AND mask 8) OR
     push_bit 24 (drop_bit 24 x AND mask 4) = x AND mask 28"
proof (rule bit_word_eqI)
  fix n :: nat
  consider "n < 8" | "8 \<le> n" "n < 16" | "16 \<le> n" "n < 24" | "24 \<le> n" by linarith
  then show "bit ((x AND mask 8) OR push_bit 8 (drop_bit 8 x AND mask 8) OR push_bit 16 (drop_bit 16 x AND mask 8) OR
     push_bit 24 (drop_bit 24 x AND mask 4)) n = bit (x AND mask 28) n"
    by cases (auto simp: bit_simps)
qed

lemma drive_byte:
  fixes x d :: uint
  shows "(push_bit 5 (mask 3) OR push_bit 4 (d AND mask 1) OR (x AND mask 4)) AND mask 4 = x AND mask 4"
    "drop_bit 4 (push_bit 5 (mask 3) OR push_bit 4 (d AND mask 1) OR (x AND mask 4)) AND mask 1 = d AND mask 1"
  by (rule bit_word_eqI, auto simp: bit_simps)+

text \<open>A block number the driver accepts fits the registers, so the disk is given the buffer's block and drive.\<close>

definition buf_cmd :: "buf \<Rightarrow> uint \<times> uint \<times> block option" where
  "buf_cmd r = (b_dev r AND 1, b_blockno r, if b_dirty r then Some (b_data r) else None)"

lemma low_block: "x < FSSIZE \<Longrightarrow> x AND mask 28 = x"
proof -
  assume "x < FSSIZE"
  then have "unat x < 2 ^ 28" by (simp add: FSSIZE_def word_less_nat_alt)
  then have "unat (take_bit 28 x) = unat x" by (simp add: unsigned_take_bit_eq take_bit_nat_eq_self)
  then show ?thesis by (simp add: take_bit_eq_mask flip: word_unat_eq_iff)
qed

lemma idestart_command:
  assumes "b_blockno (bufs s b) < FSSIZE" "idewait False rs = Inr 0"
  shows "idestart rs (Some b) s = Inr (s\<lparr>ide_cmd := Some (buf_cmd (bufs s b))\<rparr>)"
proof -
  have "ide_command (x AND 0xff) (drop_bit 8 x AND 0xff) (drop_bit 16 x AND 0xff)
     (0xe0 OR push_bit 4 (d AND 1) OR (drop_bit 24 x AND 0x0f)) y = (d AND 1, x AND mask 28, y)" for x d y
    unfolding ide_command_def masks drive_byte sector_bytes by (rule refl)
  then show ?thesis
    using assms low_block [OF assms(1)]
    by (simp add: idestart_def Let_def BSIZE_def buf_cmd_def)
qed

subsection \<open>The queue against the synchronous driver\<close>

fun qchain :: "(nat \<Rightarrow> buf) \<Rightarrow> nat option \<Rightarrow> nat list \<Rightarrow> bool" where
  "qchain B h [] \<longleftrightarrow> h = None"
| "qchain B h (b # qs) \<longleftrightarrow> h = Some b \<and> qchain B (b_qnext (B b)) qs"

definition request_ok :: "kernel \<Rightarrow> nat \<Rightarrow> bool" where
  "request_ok s b \<longleftrightarrow>
     (let r = bufs s b in b < NBUF \<and> b_busy r \<and> (b_valid r \<longrightarrow> b_dirty r) \<and> b_dev r = 1 \<and>
        b_blockno r < FSSIZE \<and> b_blockno r < disksize s)"

definition unq :: "buf \<Rightarrow> buf" where
  "unq r = r\<lparr>b_qnext := None\<rparr>"

text \<open>
  \<open>ide_rep s qs a\<close>: in the state \<open>s\<close> of the driver the requests \<open>qs\<close> are queued, the disk works on the first,
  and everything else is as in the state \<open>a\<close> of the synchronous driver, which has not seen them yet.
\<close>

definition ide_rep :: "kernel \<Rightarrow> nat list \<Rightarrow> kernel \<Rightarrow> bool" where
  "ide_rep s qs a \<longleftrightarrow>
     calm s \<and> havedisk1 s \<and> qchain (bufs s) (idequeue s) qs \<and> distinct qs \<and>
     (qs \<noteq> [] \<longrightarrow> ide_cmd s = Some (buf_cmd (bufs s (hd qs)))) \<and> (\<forall>q\<in>set qs. request_ok s q) \<and>
     disk s = disk a \<and> dtrace s = dtrace a \<and> disksize s = disksize a \<and> (\<forall>b. unq (bufs s b) = unq (bufs a b))"

lemma unq_eq:
  assumes "unq r = unq r'"
  shows "b_busy r = b_busy r'" "b_valid r = b_valid r'" "b_dirty r = b_dirty r'" "b_dev r = b_dev r'"
    "b_blockno r = b_blockno r'" "b_data r = b_data r'" "buf_cmd r = buf_cmd r'"
  using assms by (cases r; cases r'; simp add: unq_def buf_cmd_def)+

lemma unq_qnext [simp]: "unq (r\<lparr>b_qnext := q\<rparr>) = unq r"
  by (simp add: unq_def)

lemma request_ok_cong: "unq (bufs s b) = unq (bufs t b) \<Longrightarrow> disksize s = disksize t \<Longrightarrow> request_ok s b = request_ok t b"
  by (simp add: request_ok_def Let_def unq_eq [of "bufs s b" "bufs t b"])

lemma ide_rep_ok: "ide_rep s qs a \<Longrightarrow> request_ok s b = request_ok a b"
  by (rule request_ok_cong) (simp_all add: ide_rep_def)

lemma ide_rep_quiet: "quiet s t \<Longrightarrow> ide_rep s qs a \<Longrightarrow> ide_rep t qs a"
  using quiet_eq [of s t] quiet_calm [of s t] request_ok_cong [of t _ s] by (simp add: ide_rep_def)

lemma qchain_cong: "(\<And>q. q \<in> set qs \<Longrightarrow> b_qnext (B q) = b_qnext (C q)) \<Longrightarrow> qchain B h qs = qchain C h qs"
  by (induction qs arbitrary: h) auto

text \<open>The length of the queue is below the fuel of the loop that looks for its end.\<close>

lemma queue_length: "distinct qs \<Longrightarrow> \<forall>q\<in>set qs. request_ok s q \<Longrightarrow> length qs \<le> NBUF"
proof -
  assume d: "distinct qs" and ok: "\<forall>q\<in>set qs. request_ok s q"
  have "set qs \<subseteq> {..<NBUF}" using ok by (auto simp: request_ok_def Let_def)
  then have "card (set qs) \<le> NBUF" using card_mono [of "{..<NBUF}" "set qs"] by simp
  then show ?thesis using d by (simp add: distinct_card)
qed

lemma ide_append_end:
  assumes "qchain (bufs s) (Some q) qs" "length qs \<le> k" "distinct qs"
  shows "ide_append k b q s = Inr (upd_buf (last qs) (\<lambda>r. r\<lparr>b_qnext := Some b\<rparr>) s)"
  using assms
proof (induction qs arbitrary: q k)
  case (Cons x qs)
  then obtain j where "k = Suc j" "length qs \<le> j" by (cases k) auto
  with Cons show ?case by (cases qs) auto
qed simp

lemma qchain_snoc:
  assumes "qchain B h qs" "distinct qs" "b \<notin> set qs" "qs \<noteq> []" "b_qnext (B b) = None"
  shows "qchain (B(last qs := (B (last qs))\<lparr>b_qnext := Some b\<rparr>)) h (qs @ [b])"
  using assms
proof (induction qs arbitrary: h)
  case (Cons x qs)
  show ?case
  proof (cases "qs = []")
    case True
    then show ?thesis using Cons.prems by auto
  next
    case False
    let ?B = "B(last qs := (B (last qs))\<lparr>b_qnext := Some b\<rparr>)"
    have "qchain ?B (b_qnext (B x)) (qs @ [b])" by (rule Cons.IH) (use Cons.prems False in simp_all)
    moreover have "last qs \<noteq> x" using Cons.prems(2) False by auto
    ultimately show ?thesis using Cons.prems(1) False by (simp add: fun_upd_def)
  qed
qed simp

lemma ide_insert_effect:
  assumes "qchain (bufs s) (idequeue s) qs" "distinct qs" "\<forall>q\<in>set qs. request_ok s q" "b \<notin> set qs"
  shows "\<exists>B. ide_insert b s = Inr (s\<lparr>bufs := B, idequeue := Some (hd (qs @ [b]))\<rparr>) \<and>
     qchain B (Some (hd (qs @ [b]))) (qs @ [b]) \<and> (\<forall>x. unq (B x) = unq (bufs s x))"
proof (cases qs)
  case Nil
  then show ?thesis using assms(1)
    by (intro exI [of _ "(bufs s)(b := (bufs s b)\<lparr>b_qnext := None\<rparr>)"]) (simp add: ide_insert_def upd_buf_def)
next
  case (Cons q qs')
  let ?s = "upd_buf b (\<lambda>r. r\<lparr>b_qnext := None\<rparr>) s"
  let ?B = "(bufs ?s)(last qs := (bufs ?s (last qs))\<lparr>b_qnext := Some b\<rparr>)"
  have h: "idequeue s = Some q" using assms(1) Cons by simp
  have "qchain (bufs s) (Some q) qs = qchain (bufs ?s) (Some q) qs"
    by (rule qchain_cong) (use assms(4) in auto)
  then have c: "qchain (bufs ?s) (Some q) qs" using assms(1) h by simp
  have "length qs \<le> Suc NBUF" using queue_length [OF assms(2,3)] by simp
  from ide_append_end [OF c this assms(2)]
  have "ide_insert b s = Inr (upd_buf (last qs) (\<lambda>r. r\<lparr>b_qnext := Some b\<rparr>) ?s)"
    using h by (simp add: ide_insert_def upd_buf_def)
  also have "\<dots> = Inr (s\<lparr>bufs := ?B, idequeue := Some q\<rparr>)" using h by (simp add: upd_buf_def)
  finally have "ide_insert b s = Inr (s\<lparr>bufs := ?B, idequeue := Some q\<rparr>)" .
  moreover have "qchain ?B (Some q) (qs @ [b])"
    by (rule qchain_snoc [OF c assms(2,4)]) (use Cons in simp_all)
  moreover have "unq (?B x) = unq (bufs s x)" for x by simp
  ultimately show ?thesis using Cons by (intro exI [of _ ?B]) simp
qed

subsection \<open>A request and an interrupt\<close>

lemma acquired_ide:
  "(acquired l s)\<lparr>bufs := B, idequeue := q\<rparr> = acquired l (s\<lparr>bufs := B, idequeue := q\<rparr>)"
  "(acquired l s)\<lparr>ide_cmd := c\<rparr> = acquired l (s\<lparr>ide_cmd := c\<rparr>)"
  by (simp_all add: acquired_def pushcli_def upd_cpu_def cpu_of_def)

lemma request_ok_acquired [simp]: "request_ok (acquired l s) = request_ok s"
  by (simp add: request_ok_def fun_eq_iff)

lemma same_core_ide: "same_core s (s\<lparr>bufs := B, idequeue := q, ide_cmd := c\<rparr>)"
  "same_core s (s\<lparr>bufs := B, idequeue := q, ide_cmd := c, disk := d, dtrace := w\<rparr>)"
  by (simp_all add: same_core_def)

lemma ide_start_if:
  assumes "b_blockno (B b) < FSSIZE" "idewait False rs = Inr 0"
  shows "(if idequeue (s\<lparr>bufs := B, idequeue := q\<rparr>) = Some b then idestart rs (Some b) (s\<lparr>bufs := B, idequeue := q\<rparr>)
      else Inr (s\<lparr>bufs := B, idequeue := q\<rparr>)) =
    Inr (s\<lparr>bufs := B, idequeue := q, ide_cmd := (if q = Some b then Some (buf_cmd (B b)) else ide_cmd s)\<rparr>)"
  using assms idestart_command [of "s\<lparr>bufs := B, idequeue := q\<rparr>" b rs] by auto

lemma ide_request:
  assumes rep: "ide_rep s qs a" and ok: "request_ok s b" and new: "b \<notin> set qs" and rs: "idewait False rs = Inr 0"
  shows "\<exists>t. iderw_pio rs b s = Inr (False, t) \<and> ide_rep t (qs @ [b]) a"
proof -
  let ?s = "acquired IdeLock s" and ?h = "Some (hd (qs @ [b]))"
  note r = rep [unfolded ide_rep_def] and o = ok [unfolded request_ok_def Let_def]
  have "qchain (bufs ?s) (idequeue ?s) qs" "distinct qs" "\<forall>q\<in>set qs. request_ok ?s q" using r by simp_all
  from ide_insert_effect [OF this new] obtain B where B:
    "ide_insert b ?s = Inr (?s\<lparr>bufs := B, idequeue := ?h\<rparr>)" "qchain B ?h (qs @ [b])" "\<And>x. unq (B x) = unq (bufs s x)"
    by auto
  let ?t = "s\<lparr>bufs := B, idequeue := ?h, ide_cmd := (if ?h = Some b then Some (buf_cmd (B b)) else ide_cmd s)\<rparr>"
  note b = unq_eq [OF B(3)]
  have bn: "b_blockno (B b) < FSSIZE" using o b by simp
  have w: "\<not> (b_valid (B b) \<and> \<not> b_dirty (B b))" using o b by simp
  have "rbind (ide_insert b ?s) (\<lambda>s. rbind (if idequeue s = Some b then idestart rs (Some b) s else Inr s) (ide_wait b)) =
     Inr (False, ?s\<lparr>bufs := B, idequeue := ?h, ide_cmd := (if ?h = Some b then Some (buf_cmd (B b)) else ide_cmd ?s)\<rparr>)"
    unfolding B(1) rbind_Inr ide_start_if [where B = B and b = b, OF bn rs] using w by (simp add: ide_wait_def)
  also have "\<dots> = Inr (False, acquired IdeLock ?t)"
    by (simp add: acquired_def pushcli_def upd_cpu_def cpu_of_def)
  finally obtain t where t: "with_lock IdeLock (\<lambda>s. rbind (ide_insert b s) (\<lambda>s.
        rbind (if idequeue s = Some b then idestart rs (Some b) s else Inr s) (ide_wait b))) s = Inr (False, t)" "quiet ?t t"
    using locked_update [where f = "\<lambda>s. rbind (ide_insert b s) (\<lambda>s.
        rbind (if idequeue s = Some b then idestart rs (Some b) s else Inr s) (ide_wait b))" and l = IdeLock and s = s
        and s' = ?t and r = False] r same_core_ide(1) by blast
  have "iderw_pio rs b s = Inr (False, t)" using t(1) o r by (simp add: iderw_pio_def Let_def)
  moreover have "ide_rep ?t (qs @ [b]) a"
  proof -
    have k: "request_ok ?t x = request_ok s x" for x by (rule request_ok_cong) (simp_all add: B(3))
    have c: "ide_cmd ?t = Some (buf_cmd (bufs ?t (hd (qs @ [b]))))" using r new b(7) by (cases qs) auto
    have "calm ?t" using r same_core_calm [OF same_core_ide(1)] by blast
    then show ?thesis using r B(2,3) new ok k c by (simp add: ide_rep_def)
  qed
  ultimately show ?thesis using ide_rep_quiet [OF t(2)] by blast
qed

lemma quiet_ide_cmd: "quiet s t \<Longrightarrow> quiet (s\<lparr>ide_cmd := c\<rparr>) (t\<lparr>ide_cmd := c\<rparr>)"
proof (rule quiet_core)
  show "sync_frame (s\<lparr>ide_cmd := c\<rparr>) (t\<lparr>ide_cmd := c\<rparr>)" if "quiet s t"
    using quiet_sync [OF that] by (cases s; cases t) (simp add: sync_frame_def)
qed (simp_all add: same_core_def)

text \<open>The requests a disk interrupt leaves, and the state the handler leaves, before and after the next start.\<close>

definition ide_restart :: "nat list \<Rightarrow> kernel \<Rightarrow> kernel" where
  "ide_restart qs s = (if qs = [] then s else s\<lparr>ide_cmd := Some (buf_cmd (bufs s (hd qs)))\<rparr>)"

lemma ide_rep_restart:
  assumes "calm t" "havedisk1 t" "qchain (bufs t) (idequeue t) qs" "distinct qs" "\<forall>q\<in>set qs. request_ok t q"
    "disk t = disk a" "dtrace t = dtrace a" "disksize t = disksize a" "\<forall>b. unq (bufs t b) = unq (bufs a b)"
  shows "ide_rep (ide_restart qs t) qs a"
proof -
  have "same_core t (ide_restart qs t)" by (simp add: same_core_def ide_restart_def)
  then have "calm (ide_restart qs t)" using assms(1) same_core_calm by blast
  moreover have "bufs (ide_restart qs t) = bufs t" "idequeue (ide_restart qs t) = idequeue t" "disk (ide_restart qs t) = disk t"
    "dtrace (ide_restart qs t) = dtrace t" "disksize (ide_restart qs t) = disksize t" "havedisk1 (ide_restart qs t) = havedisk1 t"
    "qs \<noteq> [] \<Longrightarrow> ide_cmd (ide_restart qs t) = Some (buf_cmd (bufs t (hd qs)))"
    by (simp_all add: ide_restart_def)
  moreover from this have "request_ok (ide_restart qs t) q = request_ok t q" for q by (intro request_ok_cong) simp_all
  ultimately show ?thesis using assms(2-) by (simp add: ide_rep_def)
qed

lemma ideintr_locked_effect:
  assumes c: "calm s" and q: "idequeue s = Some b" and r: "qchain (bufs s) (b_qnext (bufs s b)) qs"
    and n: "\<forall>x\<in>set qs. b_blockno (bufs s x) < FSSIZE" and d: "b \<notin> set qs"
    and ws: "\<exists>r. idewait True ws = Inr r" and rs: "idewait False rs = Inr 0"
  defines "got \<equiv> \<not> b_dirty (bufs s b) \<and> no_error ws"
  shows "\<exists>u. ideintr_locked ws dat rs (acquired IdeLock s) = Inr ((), u) \<and>
     quiet (acquired IdeLock (ide_restart qs (ide_finish got dat b s))) u"
proof -
  let ?t = "ide_finish got dat b s"
  have g: "(if b_dirty (bufs s b) then Inr False else rbind (idewait True ws) (\<lambda>r. Inr (r \<ge> 0))) = (Inr got :: bool result)"
    using idewait_error [OF ws] by (simp add: got_def)
  have "same_core s ?t" by (simp add: same_core_def ide_finish_def upd_buf_def)
  then have "calm ?t" using c same_core_calm by blast
  from wakeup_locked [OF this, of IdeLock "Some (ChanBuf b)"] obtain u where
    u: "wakeup (Some (ChanBuf b)) (acquired IdeLock ?t) = Inr u" "quiet (acquired IdeLock ?t) u" by auto
  have f: "ide_finish got dat b (acquired IdeLock s) = acquired IdeLock ?t"
    by (simp add: ide_finish_def upd_buf_def acquired_def pushcli_def upd_cpu_def cpu_of_def)
  have e: "bufs u = bufs ?t" "idequeue u = idequeue ?t" using quiet_eq [OF u(2)] by simp_all
  have h: "idequeue ?t = (if qs = [] then None else Some (hd qs))"
    using r by (cases qs) (simp_all add: ide_finish_def upd_buf_def)
  show ?thesis
  proof (cases "qs = []")
    case True
    then show ?thesis using q u h e by (simp add: ideintr_locked_def g f ide_restart_def)
  next
    case False
    then have "b_blockno (bufs u (hd qs)) < FSSIZE"
      using n d e by (cases qs) (auto simp: ide_finish_def upd_buf_def)
    note st = idestart_command [OF this rs]
    have "quiet (acquired IdeLock (ide_restart qs ?t)) (u\<lparr>ide_cmd := Some (buf_cmd (bufs u (hd qs)))\<rparr>)"
      using quiet_ide_cmd [OF u(2)] False e by (simp add: ide_restart_def acquired_ide)
    then show ?thesis using q u(1) False h e st by (simp add: ideintr_locked_def g f)
  qed
qed

lemma ide_interrupt_idle: "calm s \<Longrightarrow> idequeue s = None \<Longrightarrow> \<exists>t. ide_do (Interrupt ws rs) s = Inr t \<and> quiet s t"
  using locked_update [of s "ideintr_locked ws (\<lambda>_. 0) rs" IdeLock "()" s]
  by (auto simp: ideintr_def ideintr_locked_def)

text \<open>
  What the disk and the handler do with the request of a buffer is what the synchronous driver does; but after an error of the disk in
  a read, the buffer is valid with the contents it had.
\<close>

fun serve_request :: "nat \<times> bool \<Rightarrow> kernel \<Rightarrow> kernel result" where
  "serve_request (b, ok) a =
     (if ok \<or> b_dirty (bufs a b) then iderw b a else Inr (upd_buf b (\<lambda>r. r\<lparr>b_valid := True\<rparr>) a))"

lemma ide_serve:
  assumes "ide_rep s (b # qs) a"
  shows "\<exists>a'. serve_request (b, ok) a = Inr a' \<and>
     ide_rep (ide_restart qs (ide_finish (\<not> b_dirty (bufs s b) \<and> ok) (ide_data s) b (ide_done s))) qs a'"
proof -
  note r = assms [unfolded ide_rep_def, simplified]
  let ?t = "ide_finish (\<not> b_dirty (bufs s b) \<and> ok) (ide_data s) b (ide_done s)" and ?r = "bufs s b"
  let ?bn = "unat (b_blockno ?r)"
  have u: "unq (bufs s x) = unq (bufs a x)" for x using r by blast
  note e = unq_eq [OF u]
  have "request_ok a b" using ide_rep_ok [OF assms] r by blast
  then have o: "b_busy (bufs a b)" "b_valid (bufs a b) \<longrightarrow> b_dirty (bufs a b)" "b_dev (bufs a b) = 1"
    "\<not> disksize a \<le> b_blockno (bufs a b)" by (simp_all add: request_ok_def Let_def not_le)
  have cmd: "ide_cmd s = Some (1, b_blockno ?r, if b_dirty ?r then Some (b_data ?r) else None)"
    using r o(3) e by (simp add: buf_cmd_def)
  have dn: "ide_done s = (if b_dirty ?r
     then s\<lparr>disk := (disk s)(?bn := b_data ?r), dtrace := dtrace s @ [(?bn, b_data ?r)]\<rparr> else s)"
    by (simp add: ide_done_def cmd)
  have da: "ide_data s = disk s ?bn" by (simp add: ide_data_def cmd)
  have same: "disk s = disk a" "dtrace s = dtrace a" "disksize s = disksize a" "havedisk1 s" using r by blast+
  define a' where "a' = (if b_dirty ?r
     then upd_buf b (\<lambda>r. r\<lparr>b_dirty := False, b_valid := True\<rparr>)
       (a\<lparr>disk := (disk a)(?bn := b_data ?r), dtrace := dtrace a @ [(?bn, b_data ?r)]\<rparr>)
     else upd_buf b (\<lambda>r. r\<lparr>b_data := (if ok then disk a ?bn else b_data r), b_valid := True\<rparr>) a)"
  have "serve_request (b, ok) a = Inr a'" using o e by (cases "b_dirty (bufs a b)") (simp_all add: iderw_def Let_def a'_def)
  moreover have "ide_rep (ide_restart qs ?t) qs a'"
  proof -
    have dt: "disk ?t = disk a'" "dtrace ?t = dtrace a'" "disksize ?t = disksize a'" "havedisk1 ?t"
      using same by (simp_all add: ide_finish_def dn a'_def upd_buf_def)
    have bt: "bufs ?t x = bufs s x" if "x \<noteq> b" for x using that by (simp add: ide_finish_def dn)
    have ub: "unq (bufs ?t x) = unq (bufs a' x)" for x
    proof (cases "x = b")
      case True
      have "bufs a b = ?r\<lparr>b_qnext := b_qnext (bufs a b)\<rparr>"
        using u [of b] by (cases "bufs s b"; cases "bufs a b") (simp add: unq_def)
      then show ?thesis using True same
        by (cases "bufs s b"; cases "bufs a b") (simp add: unq_def ide_finish_def dn da a'_def)
    qed (use bt u in \<open>simp add: a'_def\<close>)
    have "same_core s ?t" by (simp add: same_core_def ide_finish_def dn upd_buf_def)
    then have "calm ?t" using r same_core_calm by blast
    moreover have "qchain (bufs ?t) (idequeue ?t) qs"
    proof -
      have "idequeue ?t = b_qnext ?r" by (simp add: ide_finish_def dn upd_buf_def)
      moreover have "qchain (bufs s) (b_qnext ?r) qs = qchain (bufs ?t) (b_qnext ?r) qs"
        by (rule qchain_cong) (metis bt r)
      ultimately show ?thesis using r by simp
    qed
    moreover have "request_ok ?t q" if "q \<in> set qs" for q
    proof -
      have "q \<noteq> b" using that r by blast
      then have "request_ok ?t q = request_ok s q" by (intro request_ok_cong) (use bt dt same in \<open>simp_all add: a'_def\<close>)
      then show ?thesis using that r by blast
    qed
    ultimately show ?thesis using dt ub r by (intro ide_rep_restart) blast+
  qed
  ultimately show ?thesis by blast
qed

lemma ide_done_frame: "same_core s (ide_done s)" "bufs (ide_done s) = bufs s" "idequeue (ide_done s) = idequeue s"
  by (auto simp: ide_done_def same_core_def split: option.split prod.split)

lemma ide_interrupt:
  assumes rep: "ide_rep s (b # qs) a" and rdy: "disk_ready (Interrupt ws rs)"
  shows "\<exists>t a'. ide_do (Interrupt ws rs) s = Inr t \<and> serve_request (b, no_error ws) a = Inr a' \<and> ide_rep t qs a'"
proof -
  note r = rep [unfolded ide_rep_def, simplified]
  let ?d = "ide_done s" and ?t = "ide_restart qs (ide_finish (\<not> b_dirty (bufs s b) \<and> no_error ws) (ide_data s) b (ide_done s))"
  have "calm ?d" using r same_core_calm [OF ide_done_frame(1)] by blast
  moreover have "\<forall>x\<in>set qs. b_blockno (bufs ?d x) < FSSIZE"
    using r by (auto simp: ide_done_frame request_ok_def Let_def)
  ultimately obtain u where u: "ideintr_locked ws (ide_data s) rs (acquired IdeLock ?d) = Inr ((), u)"
    "quiet (acquired IdeLock ?t) u"
    using ideintr_locked_effect [of ?d b qs ws rs "ide_data s"] r rdy by (auto simp: ide_done_frame)
  have "same_core ?d ?t" by (simp add: same_core_def ide_restart_def ide_finish_def upd_buf_def)
  from locked_quiet [where f = "ideintr_locked ws (ide_data s) rs", OF \<open>calm ?d\<close> u this] obtain t where
    t: "with_lock IdeLock (ideintr_locked ws (ide_data s) rs) ?d = Inr ((), t)" "quiet ?t t" by blast
  then have "ide_do (Interrupt ws rs) s = Inr t" using r by (simp add: ideintr_def)
  moreover obtain a' where "serve_request (b, no_error ws) a = Inr a'" "ide_rep ?t qs a'" using ide_serve [OF rep] by blast
  ultimately show ?thesis using ide_rep_quiet [OF t(2)] by blast
qed

subsection \<open>Any interleaving of requests and interrupts\<close>

fun requests :: "ide_event list \<Rightarrow> nat list" where
  "requests [] = []"
| "requests (Request b rs # es) = b # requests es"
| "requests (Interrupt ws rs # es) = requests es"

text \<open>
  The requests that are still queued after the events, and those that have been served, in their order and each with the report of the
  disk.
\<close>

fun pending :: "nat list \<Rightarrow> ide_event list \<Rightarrow> nat list" where
  "pending qs [] = qs"
| "pending qs (Request b rs # es) = pending (qs @ [b]) es"
| "pending qs (Interrupt ws rs # es) = pending (tl qs) es"

fun served :: "nat list \<Rightarrow> ide_event list \<Rightarrow> (nat \<times> bool) list" where
  "served qs [] = []"
| "served qs (Request b rs # es) = served (qs @ [b]) es"
| "served qs (Interrupt ws rs # es) = map (\<lambda>b. (b, no_error ws)) (take 1 qs) @ served (tl qs) es"

lemma served_pending: "map fst (served qs es) @ pending qs es = qs @ requests es"
proof (induction qs es rule: served.induct)
  case (3 qs es)
  then show ?case by (cases qs) simp_all
qed simp_all

lemma serve_other:
  assumes "serve_request c a = Inr a'" "x \<noteq> fst c"
  shows "bufs a' x = bufs a x" "request_ok a' x = request_ok a x"
  using assms by (cases c; auto simp: iderw_def Let_def request_ok_def split: if_splits)+

lemma serve_finished: "serve_request c a = Inr a' \<Longrightarrow> b_valid (bufs a' (fst c)) \<and> \<not> b_dirty (bufs a' (fst c))"
  by (cases c) (auto simp: iderw_def Let_def split: if_splits)

lemma ide_run:
  assumes "ide_rep s qs a" "distinct (qs @ requests es)" "\<forall>b\<in>set (requests es). request_ok a b" "list_all disk_ready es"
  shows "\<exists>t a'. rfold ide_do es s = Inr t \<and> rfold serve_request (served qs es) a = Inr a' \<and> ide_rep t (pending qs es) a'"
  using assms
proof (induction es arbitrary: s qs a)
  case (Cons e es)
  show ?case
  proof (cases e)
    case (Request b rs)
    then obtain t where t: "iderw_pio rs b s = Inr (False, t)" "ide_rep t (qs @ [b]) a"
      using ide_request [OF Cons.prems(1), of b rs] ide_rep_ok [OF Cons.prems(1), of b] Cons.prems(2-4) by auto
    then show ?thesis using Cons.IH [OF t(2)] Cons.prems(2-4) Request by auto
  next
    case (Interrupt ws rs)
    show ?thesis
    proof (cases qs)
      case Nil
      then obtain t where t: "ide_do (Interrupt ws rs) s = Inr t" "quiet s t"
        using ide_interrupt_idle [of s ws rs] Cons.prems(1) by (auto simp: ide_rep_def)
      from Cons.IH [OF ide_rep_quiet [OF t(2) Cons.prems(1)]] show ?thesis
        using Cons.prems(2-4) Interrupt t(1) Nil by (auto simp del: ide_do.simps)
    next
      case qs: (Cons q qs')
      then obtain t a1 where t: "ide_do (Interrupt ws rs) s = Inr t" "serve_request (q, no_error ws) a = Inr a1" "ide_rep t qs' a1"
        using ide_interrupt [of s q qs' a ws rs] Cons.prems(1,4) Interrupt by auto
      have "request_ok a1 b" if "b \<in> set (requests es)" for b
      proof -
        have "b \<noteq> q" using that Cons.prems(2) Interrupt qs by auto
        then show ?thesis using serve_other(2) [OF t(2)] Cons.prems(3) Interrupt that by simp
      qed
      then have "\<forall>b\<in>set (requests es). request_ok a1 b" by blast
      from Cons.IH [OF t(3) _ this] show ?thesis
        using Cons.prems(2,4) Interrupt t(1,2) qs by (auto simp del: ide_do.simps serve_request.simps)
    qed
  qed
qed simp

lemma serve_all_finished:
  assumes "rfold serve_request cs a = Inr a'" "distinct (map fst cs)" "b \<in> fst ` set cs"
  shows "b_valid (bufs a' b) \<and> \<not> b_dirty (bufs a' b)"
proof -
  have keep: "bufs a' x = bufs a x" if "rfold serve_request cs a = Inr a'" "x \<notin> fst ` set cs" for cs a x
    using that by (induction cs arbitrary: a) (auto simp: serve_other(1) simp del: serve_request.simps elim!: rbind_InrE)
  show ?thesis
    using assms
  proof (induction cs arbitrary: a)
    case (Cons c cs)
    then obtain a1 where "serve_request c a = Inr a1" "rfold serve_request cs a1 = Inr a'" by auto
    then show ?case using Cons serve_finished [of c a a1] keep [of cs a1 b] by (auto simp del: serve_request.simps)
  qed simp
qed

text \<open>Without errors of the disk every request is served by the synchronous driver.\<close>

lemma serve_error_free: "\<forall>c\<in>set cs. snd c \<Longrightarrow> rfold serve_request cs a = rfold iderw (map fst cs) a"
proof (induction cs arbitrary: a)
  case (Cons c cs)
  then have "rfold serve_request cs = rfold iderw (map fst cs)" by auto
  then show ?case using Cons.prems by (cases c) simp
qed simp

lemma ide_rep_idle: "calm s \<Longrightarrow> havedisk1 s \<Longrightarrow> idequeue s = None \<Longrightarrow> ide_rep s [] s"
  by (simp add: ide_rep_def)

lemma woken_result:
  assumes "ide_rep s qs a"
  shows "\<exists>u. iderw_woken b s = Inr (b_valid (bufs a b) \<and> \<not> b_dirty (bufs a b), u)"
proof -
  have "unq (bufs s b) = unq (bufs a b)" "calm s" using assms by (simp_all add: ide_rep_def)
  note e = unq_eq(2,3) [OF this(1)] and c = this(2)
  have "ide_wait b (acquired IdeLock s) = Inr (b_valid (bufs a b) \<and> \<not> b_dirty (bufs a b), acquired IdeLock s)"
    by (simp add: ide_wait_def e)
  from locked_update [where f = "ide_wait b", OF c this same_core_refl] show ?thesis
    by (auto simp: iderw_woken_def)
qed

lemma woken_pending:
  assumes "ide_rep s qs a" "b \<in> set qs"
  shows "\<exists>u. iderw_woken b s = Inr (False, u)"
proof -
  have "request_ok s b" using assms by (simp add: ide_rep_def)
  then have "(b_valid (bufs a b) \<and> \<not> b_dirty (bufs a b)) = False"
    unfolding ide_rep_ok [OF assms(1)] by (simp add: request_ok_def Let_def)
  from woken_result [OF assms(1), of b, unfolded this] show ?thesis .
qed

subsection \<open>The driver refines the synchronous one\<close>

definition ide_demo :: kernel where
  "ide_demo = demo\<lparr>havedisk1 := True, idequeue := None, disksize := 2000,
     bufs := (\<lambda>b. \<lparr>b_busy = True, b_valid = False, b_dirty = (b = 1), b_dev = 1, b_blockno = 700 + of_nat b,
       b_prev = 0, b_next = 0, b_qnext = None, b_data = (\<lambda>_. of_nat b)\<rparr>)\<rparr>"

lemma ide_demo_ok: "calm ide_demo" "havedisk1 ide_demo" "idequeue ide_demo = None" "request_ok ide_demo 0" "request_ok ide_demo 1"
  "request_ok ide_demo 2"
proof -
  have "same_core demo ide_demo" by (simp add: same_core_def ide_demo_def)
  then show "calm ide_demo" using calm_demo same_core_calm by blast
qed (simp_all add: ide_demo_def request_ok_def FSSIZE_def NBUF_def)



end
