(* ===== verification/Trap.thy ===== *)
theory Trap
  imports Syscall Ide
begin

unbundle bit_operations_syntax

section \<open>Traps and interrupts (trap.c, traps.h)\<close>

text \<open>
  The handler that all traps and interrupts reach, with the trap frame, the trap number and the error code as
  arguments. It returns to the interrupted code, or has given the CPU to the scheduler in \<^verbatim>\<open>yield\<close> or in \<^verbatim>\<open>exit\<close>; after
  \<^verbatim>\<open>yield\<close> it goes on with \<open>trap_rest\<close> when the process runs again. \<^verbatim>\<open>lapiceoi\<close> acknowledges the interrupt to the
  interrupt controller, which is no part of the state.
\<close>

definition T_SYSCALL :: uint where "T_SYSCALL = 64"
definition T_IRQ0 :: uint where "T_IRQ0 = 32"
definition IRQ_TIMER :: uint where "IRQ_TIMER = 0"
definition IRQ_KBD :: uint where "IRQ_KBD = 1"
definition IRQ_COM1 :: uint where "IRQ_COM1 = 4"
definition IRQ_IDE :: uint where "IRQ_IDE = 14"
definition IRQ_SPURIOUS :: uint where "IRQ_SPURIOUS = 31"
definition SCHED_INTERVAL :: uint where "SCHED_INTERVAL = 1000 div 100"
definition DPL_USER :: uint where "DPL_USER = 3"

datatype trapret = Resumes | Yielded | Exited

subsection \<open>The parts of the handler\<close>

definition my_killed :: "kernel \<Rightarrow> bool" where
  "my_killed s = (case proc_of s of None \<Rightarrow> False | Some me \<Rightarrow> p_killed (procs s me))"

definition trap_syscall :: "hardware \<Rightarrow> trapframe \<Rightarrow> kernel \<Rightarrow> (trapret \<times> kernel) result" where
  "trap_syscall hw tf s = my s (\<lambda>me.
     if p_killed (procs s me) then rbind (exit s) (\<lambda>s. Inr (Exited, s))
     else rbind (syscall hw (upd_proc me (\<lambda>r. r\<lparr>p_tf := tf\<rparr>) s)) (\<lambda>(back, s).
       if \<not> back then Inr (Exited, s)
       else if my_killed s then rbind (exit s) (\<lambda>s. Inr (Exited, s))
       else Inr (Resumes, s)))"

definition timer_tick :: "kernel \<Rightarrow> kernel result" where
  "timer_tick s = (if cpu_id (cpu_of s) = 0 then wakeup (Some ChanTicks) (s\<lparr>ticks := ticks s + 1\<rparr>) else Inr s)"

definition unexpected :: "hardware \<Rightarrow> trapframe \<Rightarrow> uint \<Rightarrow> uint \<Rightarrow> kernel \<Rightarrow> kernel result" where
  "unexpected hw tf trapno err s =
     (let in_kernel = rbind (cprintf (Some (chars ''unexpected trap %d from cpu %d eip %x (cr2=0x%x)'' @ [10]))
            [VWord trapno, VWord (ucast (cpu_id (cpu_of s))), VWord (tf_eip tf), VWord (hw_cr2 hw)] s) (\<lambda>_. Inl (Panic ''trap'')) in
      case proc_of s of
        Some me \<Rightarrow>
          if tf_cs tf AND 3 = 0 then in_kernel
          else
            rbind (cprintf (Some (chars ''pid %d %s: trap %d err %d on cpu %d eip 0x%x addr 0x%x--kill proc'' @ [10]))
              [VWord (p_pid (procs s me)), VStr (Some (p_name (procs s me))), VWord trapno, VWord err,
               VWord (ucast (cpu_id (cpu_of s))), VWord (tf_eip tf), VWord (hw_cr2 hw)] s) (\<lambda>s.
            Inr (upd_proc me (\<lambda>r. r\<lparr>p_killed := True\<rparr>) s))
      | None \<Rightarrow> in_kernel)"

text \<open>The interrupt of the disk finds the block of the command at the data port; the status values are an argument.\<close>

definition interrupt :: "hardware \<Rightarrow> trapframe \<Rightarrow> uint \<Rightarrow> uint \<Rightarrow> kernel \<Rightarrow> kernel result" where
  "interrupt hw tf trapno err s =
     (if trapno = T_IRQ0 + IRQ_TIMER then timer_tick s
      else if trapno = T_IRQ0 + IRQ_IDE then ideintr (hw_ide_status hw) (ide_data s) (hw_ide_ready hw) s
      else if trapno = T_IRQ0 + IRQ_IDE + 1 then Inr s
      else if trapno = T_IRQ0 + IRQ_KBD then kbdintr (hw_ebp hw) (hw_kbd hw) s
      else if trapno = T_IRQ0 + IRQ_COM1 then uartintr (hw_ebp hw) (hw_uart hw) s
      else if trapno = T_IRQ0 + 7 \<or> trapno = T_IRQ0 + IRQ_SPURIOUS
      then cprintf (Some (chars ''cpu%d: spurious interrupt at %x:%x'' @ [10]))
        [VWord (ucast (cpu_id (cpu_of s))), VWord (tf_cs tf), VWord (tf_eip tf)] s
      else unexpected hw tf trapno err s)"

definition exit_if_killed :: "trapframe \<Rightarrow> kernel \<Rightarrow> (trapret \<times> kernel) result" where
  "exit_if_killed tf s =
     (if my_killed s \<and> tf_cs tf AND 3 = DPL_USER then rbind (exit s) (\<lambda>s. Inr (Exited, s)) else Inr (Resumes, s))"

text \<open>The last test, which runs at once or after the process has been switched to again.\<close>

definition trap_rest :: "trapframe \<Rightarrow> kernel \<Rightarrow> (trapret \<times> kernel) result" where
  "trap_rest tf s = exit_if_killed tf s"

definition must_yield :: "uint \<Rightarrow> kernel \<Rightarrow> bool" where
  "must_yield trapno s =
     (case proc_of s of None \<Rightarrow> False | Some me \<Rightarrow>
      p_state (procs s me) = RUNNING \<and> trapno = T_IRQ0 + IRQ_TIMER \<and> ticks s mod SCHED_INTERVAL = 0)"

definition trap :: "hardware \<Rightarrow> trapframe \<Rightarrow> uint \<Rightarrow> uint \<Rightarrow> kernel \<Rightarrow> (trapret \<times> kernel) result" where
  "trap hw tf trapno err s =
     (if trapno = T_SYSCALL then trap_syscall hw tf s
      else
        rbind (interrupt hw tf trapno err s) (\<lambda>s.
        rbind (exit_if_killed tf s) (\<lambda>(r, s).
        if r = Exited then Inr (Exited, s)
        else if must_yield trapno s then rbind (yield s) (\<lambda>s. Inr (Yielded, s))
        else trap_rest tf s)))"

end
