(* ===== verification/Umalloc.thy ===== *)
theory Umalloc
  imports Xv6_State "HOL-Library.Multiset"
begin

unbundle bit_operations_syntax

section \<open>The memory allocator of the user library (umalloc.c)\<close>

text \<open>
  The allocator of Kernighan and Ritchie. A header is found by its address; the two fields of the headers are
  maps from addresses. User addresses stay below \<^verbatim>\<open>KERNBASE\<close>, so they are natural numbers; the sizes computed from the
  argument keep their width. \<^verbatim>\<open>sbrk\<close> is the system call: it either refuses or moves the end of the memory
  and returns the old end; what it does is an argument.
\<close>

record uheap =
  h_ptr :: "nat \<Rightarrow> nat"
  h_size :: "nat \<Rightarrow> nat"
  h_freep :: nat              \<comment> \<open>\<^verbatim>\<open>freep\<close>, 0 before the first call\<close>
  h_base :: nat               \<comment> \<open>the address of the static variable \<^verbatim>\<open>base\<close>\<close>
  h_brk :: nat                \<comment> \<open>the end of the memory of the process\<close>

type_synonym sbrk = "nat \<Rightarrow> int \<Rightarrow> bool"

abbreviation HDR :: nat where "HDR \<equiv> 8"

subsection \<open>free\<close>

fun free_find :: "nat \<Rightarrow> nat \<Rightarrow> nat \<Rightarrow> uheap \<Rightarrow> nat result" where
  "free_find 0 bp p s = Inl Diverges"
| "free_find (Suc k) bp p s =
     (if bp > p \<and> bp < h_ptr s p then Inr p
      else if p \<ge> h_ptr s p \<and> (bp > p \<or> bp < h_ptr s p) then Inr p
      else free_find k bp (h_ptr s p) s)"

definition free_link :: "nat \<Rightarrow> nat \<Rightarrow> uheap \<Rightarrow> uheap" where
  "free_link bp p s =
     (let n = h_ptr s p;
          s = (if bp + HDR * h_size s bp = n
               then s\<lparr>h_size := (h_size s)(bp := h_size s bp + h_size s n), h_ptr := (h_ptr s)(bp := h_ptr s n)\<rparr>
               else s\<lparr>h_ptr := (h_ptr s)(bp := n)\<rparr>);
          s = (if p + HDR * h_size s p = bp
               then s\<lparr>h_size := (h_size s)(p := h_size s p + h_size s bp), h_ptr := (h_ptr s)(p := h_ptr s bp)\<rparr>
               else s\<lparr>h_ptr := (h_ptr s)(p := bp)\<rparr>)
      in s\<lparr>h_freep := p\<rparr>)"

definition free :: "nat \<Rightarrow> nat \<Rightarrow> uheap \<Rightarrow> uheap result" where
  "free fuel ap s =
     (let bp = ap - HDR in rbind (free_find fuel bp (h_freep s) s) (\<lambda>p. Inr (free_link bp p s)))"

subsection \<open>malloc\<close>

text \<open>\<^verbatim>\<open>morecore\<close> asks for at least 4096 units; the number of bytes is a 32-bit product that \<^verbatim>\<open>sbrk\<close> takes as a signed number.\<close>

definition morecore :: "nat \<Rightarrow> sbrk \<Rightarrow> uint \<Rightarrow> uheap \<Rightarrow> (nat option \<times> uheap) result" where
  "morecore fuel grow nu s =
     (let nu = (if nu < 4096 then 4096 else nu);
          n = sint (nu * of_nat HDR);
          p = h_brk s
      in
      if \<not> grow p n then Inr (None, s)
      else
        rbind (free fuel (p + HDR) (s\<lparr>h_brk := nat (int p + n), h_size := (h_size s)(p := unat nu)\<rparr>)) (\<lambda>s.
        Inr (Some (h_freep s), s)))"

definition nunits :: "uint \<Rightarrow> uint" where
  "nunits nbytes = (nbytes + of_nat HDR - 1) div of_nat HDR + 1"

definition take_block :: "nat \<Rightarrow> nat \<Rightarrow> nat \<Rightarrow> uheap \<Rightarrow> nat \<times> uheap" where
  "take_block n prevp p s =
     (if h_size s p = n
      then (p + HDR, s\<lparr>h_ptr := (h_ptr s)(prevp := h_ptr s p), h_freep := prevp\<rparr>)
      else
        let m = h_size s p - n; q = p + HDR * m in
        (q + HDR, s\<lparr>h_size := (h_size s)(p := m, q := n), h_freep := prevp\<rparr>))"

fun malloc_loop :: "nat \<Rightarrow> nat \<Rightarrow> sbrk \<Rightarrow> uint \<Rightarrow> nat \<Rightarrow> nat \<Rightarrow> uheap \<Rightarrow> (nat option \<times> uheap) result" where
  "malloc_loop 0 fuel grow nu prevp p s = Inl Diverges"
| "malloc_loop (Suc k) fuel grow nu prevp p s =
     (if h_size s p \<ge> unat nu then (let (a, s) = take_block (unat nu) prevp p s in Inr (Some a, s))
      else if p = h_freep s
      then rbind (morecore fuel grow nu s) (\<lambda>(q, s).
        case q of None \<Rightarrow> Inr (None, s) | Some p \<Rightarrow> malloc_loop k fuel grow nu p (h_ptr s p) s)
      else malloc_loop k fuel grow nu p (h_ptr s p) s)"

definition malloc :: "nat \<Rightarrow> sbrk \<Rightarrow> uint \<Rightarrow> uheap \<Rightarrow> (nat option \<times> uheap) result" where
  "malloc fuel grow nbytes s =
     (let s = (if h_freep s = 0
               then s\<lparr>h_ptr := (h_ptr s)(h_base s := h_base s), h_freep := h_base s, h_size := (h_size s)(h_base s := 0)\<rparr>
               else s)
      in malloc_loop fuel fuel grow (nunits nbytes) (h_freep s) (h_ptr s (h_freep s)) s)"

subsection \<open>The ring of free blocks\<close>

text \<open>
  The free blocks \<open>xs\<close> in the order of their addresses form a ring with \<^verbatim>\<open>base\<close>. Two neighbours never touch:
  \<^verbatim>\<open>free\<close> has joined them.
\<close>

definition blk :: "uheap \<Rightarrow> nat \<Rightarrow> nat set" where
  "blk s x = {x..<x + HDR * h_size s x}"

definition apart :: "uheap \<Rightarrow> nat \<Rightarrow> nat \<Rightarrow> bool" where
  "apart s x y \<longleftrightarrow> x + HDR * h_size s x < y"

definition heap_ok :: "uheap \<Rightarrow> nat list \<Rightarrow> bool" where
  "heap_ok s xs \<longleftrightarrow>
     path (h_ptr s) (h_base s) xs (h_base s) \<and> sorted_wrt (apart s) xs \<and> 0 < h_base s \<and>
     h_size s (h_base s) = 0 \<and> h_freep s \<in> set (h_base s # xs) \<and>
     (\<forall>x\<in>set xs. h_base s < x \<and> 0 < h_size s x \<and> x + HDR * h_size s x \<le> h_brk s)"

definition free_mem :: "uheap \<Rightarrow> nat list \<Rightarrow> nat set" where
  "free_mem s xs = (\<Union>x\<in>set xs. blk s x)"

lemma path_map: "path f h xs e \<longleftrightarrow> map f (h # xs) = xs @ [e]"
  by (induction xs arbitrary: h) simp_all

lemma path_redirect:
  assumes "path f h xs e" "distinct (h # xs)"
  shows "path (f(last (h # xs) := v)) h xs v"
  using assms
proof (induction xs arbitrary: h)
  case (Cons x xs)
  then have "last (x # xs) \<noteq> h" by auto
  with Cons show ?case by simp
qed simp

text \<open>The ring seen from any of its nodes.\<close>

lemma ring_rotate:
  assumes "path f b xs b" "q \<in> set (b # xs)" "distinct (b # xs)"
  shows "\<exists>ys. path f q ys q \<and> set (q # ys) = set (b # xs) \<and> distinct (q # ys) \<and> length ys = length xs"
proof (cases "q = b")
  case True
  then show ?thesis using assms by blast
next
  case False
  then obtain l r where "xs = l @ q # r" using assms(2) by (auto dest: split_list)
  then have "path f q (r @ b # l) q \<and> set (q # r @ b # l) = set (b # xs) \<and> distinct (q # r @ b # l) \<and> length (r @ b # l) = length xs"
    using assms by auto
  then show ?thesis by blast
qed

lemma path_last: "path f h xs e \<Longrightarrow> f (last (h # xs)) = e"
  by (induction xs arbitrary: h) auto

lemma ring_pred:
  assumes "path f b (l @ y # r) b" "distinct (b # l @ y # r)" "q \<in> set (b # l @ y # r)" "f q = y"
  shows "q = last (b # l)"
proof -
  have m: "map f (b # l @ y # r) = (l @ y # r) @ [b]" using assms(1) by (simp only: path_map)
  have "distinct ((l @ y # r) @ [b])" using assms(2) by auto
  then have "distinct (map f (b # l @ y # r))" by (simp only: m)
  then have inj: "inj_on f (set (b # l @ y # r))" using distinct_map by blast
  have "f (last (b # l)) = y" by (rule path_last) (use assms(1) in simp)
  moreover have "last (b # l) \<in> set (b # l @ y # r)" by (cases l) auto
  ultimately show ?thesis using inj_onD [OF inj _ assms(3)] assms(4) by blast
qed

lemma apart_less: "apart s x y \<Longrightarrow> x < y"
  by (simp add: apart_def)

lemma apart_simps [simp]: "apart (s\<lparr>h_freep := q\<rparr>) = apart s" "apart (s\<lparr>h_ptr := f\<rparr>) = apart s" "apart (s\<lparr>h_brk := m\<rparr>) = apart s"
  by (simp_all add: apart_def fun_eq_iff)

lemma heap_distinct: "heap_ok s xs \<Longrightarrow> distinct (h_base s # xs)"
proof -
  assume h: "heap_ok s xs"
  then have "sorted_wrt (<) xs" using sorted_wrt_mono_rel [of xs "apart s" "(<)"] apart_less by (auto simp: heap_ok_def)
  then show ?thesis using h by (auto simp: heap_ok_def strict_sorted_iff)
qed

subsection \<open>free\<close>

text \<open>The node after which a block belongs, and the free blocks before and after it.\<close>

lemma heap_split:
  assumes "heap_ok s xs" "h_base s < bp"
  obtains l r where "xs = l @ r" "\<forall>x\<in>set l. x < bp" "\<forall>x\<in>set r. bp \<le> x"
proof
  show "xs = takeWhile (\<lambda>x. x < bp) xs @ dropWhile (\<lambda>x. x < bp) xs" by simp
  show "\<forall>x\<in>set (takeWhile (\<lambda>x. x < bp) xs). x < bp" by (auto dest: set_takeWhileD)
  have "sorted_wrt (<) xs"
    using assms(1) sorted_wrt_mono_rel [of xs "apart s" "(<)"] apart_less by (auto simp: heap_ok_def)
  then show "\<forall>x\<in>set (dropWhile (\<lambda>x. x < bp) xs). bp \<le> x"
  proof (induction xs)
    case (Cons x xs)
    then show ?case by (auto simp: not_less intro: le_less_trans less_imp_le)
  qed simp
qed

definition stops :: "uheap \<Rightarrow> nat \<Rightarrow> nat \<Rightarrow> bool" where
  "stops s bp p \<longleftrightarrow> bp > p \<and> bp < h_ptr s p \<or> p \<ge> h_ptr s p \<and> (bp > p \<or> bp < h_ptr s p)"

lemma free_find_step: "free_find (Suc k) bp q s = (if stops s bp q then Inr q else free_find k bp (h_ptr s q) s)"
  by (auto simp: stops_def)

declare free_find.simps [simp del]

lemma free_find_path:
  assumes "path (h_ptr s) q ys p" "\<forall>x\<in>set (q # ys). \<not> stops s bp x" "stops s bp p"
  shows "free_find (length ys + 2 + k) bp q s = Inr p"
  using assms
proof (induction ys arbitrary: q)
  case Nil
  then show ?case by (simp add: free_find_step)
next
  case (Cons y ys)
  then have "h_ptr s q = y" "\<not> stops s bp q" by simp_all
  then show ?case using Cons by (simp add: free_find_step)
qed

lemma heap_stops:
  assumes ok: "heap_ok s (l @ r)" and lr: "\<forall>x\<in>set l. x < bp" "\<forall>x\<in>set r. bp < x" and b: "h_base s < bp"
    and x: "x \<in> set (h_base s # l @ r)"
  shows "stops s bp x \<longleftrightarrow> x = last (h_base s # l)"
proof -
  let ?b = "h_base s" and ?zs = "h_base s # l @ r"
  have d: "distinct ?zs" by (rule heap_distinct [OF ok])
  have srt: "sorted_wrt (<) ?zs"
    using ok sorted_wrt_mono_rel [of "l @ r" "apart s" "(<)"] apart_less by (auto simp: heap_ok_def)
  obtain i where i: "i < length ?zs" "x = ?zs ! i" using x by (metis in_set_conv_nth)
  have m: "map (h_ptr s) ?zs = (l @ r) @ [?b]" using ok by (simp only: heap_ok_def path_map)
  have nx: "h_ptr s x = ((l @ r) @ [?b]) ! i" unfolding m [symmetric] i(2) using i(1) by (rule nth_map [symmetric])
  have below: "?zs ! j < bp \<longleftrightarrow> j \<le> length l" if j: "j < length ?zs" for j
  proof (cases "j \<le> length l")
    case True
    then have "?zs ! j = (?b # l) ! j" "(?b # l) ! j \<in> set (?b # l)"
      using nth_append [of "?b # l" r j] nth_mem [of j "?b # l"] by simp_all
    then have "?zs ! j \<in> set (?b # l)" by simp
    then show ?thesis using True lr(1) b by auto
  next
    case False
    then have "?zs ! j = r ! (j - Suc (length l))" "r ! (j - Suc (length l)) \<in> set r"
      using j nth_append [of "?b # l" r j] by auto
    then show ?thesis using False lr(2) by fastforce
  qed
  have last: "last (?b # l) = ?zs ! length l"
    using last_conv_nth [of "?b # l"] nth_append [of "?b # l" r "length l"] by simp
  have eq: "x = last (?b # l) \<longleftrightarrow> i = length l" unfolding last i(2) using d i(1) by (intro nth_eq_iff_index_eq) simp_all
  show ?thesis
  proof (cases "Suc i < length ?zs")
    case True
    then have "((l @ r) @ [?b]) ! i = (l @ r) ! i" by (subst nth_append) simp
    then have y: "h_ptr s x = ?zs ! Suc i" using nx by simp
    have "?zs ! i < ?zs ! Suc i" using sorted_wrt_nth_less [OF srt, of i "Suc i"] True by simp
    then have "x < h_ptr s x" unfolding y i(2) [symmetric] .
    moreover have "?zs ! Suc i \<in> set (l @ r)" using True nth_mem [of i "l @ r"] by simp
    then have "?zs ! Suc i \<noteq> bp" using lr by auto
    ultimately have "stops s bp x \<longleftrightarrow> x < bp \<and> \<not> ?zs ! Suc i < bp" unfolding stops_def y by linarith
    then show ?thesis unfolding eq using below [OF i(1)] below [OF True] i(2) by auto
  next
    case False
    then have n: "i = length (l @ r)" using i(1) by simp
    then have y: "h_ptr s x = ?b" using nx by (metis nth_append_length)
    have "\<forall>z\<in>set (l @ r). ?b < z" using ok by (simp add: heap_ok_def)
    then have "?b \<le> x" using x by (auto intro: less_imp_le)
    then show ?thesis unfolding eq stops_def y using below [OF i(1)] i(2) b n by auto
  qed
qed

lemma heap_find:
  assumes ok: "heap_ok s (l @ r)" and lr: "\<forall>x\<in>set l. x < bp" "\<forall>x\<in>set r. bp < x" and b: "h_base s < bp"
    and k: "length (l @ r) + 2 \<le> k"
  shows "free_find k bp (h_freep s) s = Inr (last (h_base s # l))"
proof -
  let ?b = "h_base s" and ?q = "h_freep s" and ?p = "last (h_base s # l)"
  have "path (h_ptr s) ?b (l @ r) ?b" "?q \<in> set (?b # l @ r)" using ok by (simp_all add: heap_ok_def)
  from ring_rotate [OF this heap_distinct [OF ok]] obtain ys where
    ys: "path (h_ptr s) ?q ys ?q" "set (?q # ys) = set (?b # l @ r)" "distinct (?q # ys)" "length ys = length (l @ r)" by blast
  have st: "stops s bp x \<longleftrightarrow> x = ?p" if "x \<in> set (?q # ys)" for x
    using heap_stops [OF ok lr b] that ys(2) by blast
  have p: "?p \<in> set (?q # ys)" unfolding ys(2) by (cases l) auto
  show ?thesis
  proof (cases "?q = ?p")
    case True
    then have "stops s bp ?q" using st by simp
    then show ?thesis using True k by (cases k) (simp_all add: free_find_step)
  next
    case False
    then obtain u v where uv: "ys = u @ ?p # v" using p by (auto dest: split_list)
    then have "path (h_ptr s) ?q u ?p" using ys(1) by simp
    moreover have "\<forall>x\<in>set (?q # u). \<not> stops s bp x"
    proof
      fix x
      assume "x \<in> set (?q # u)"
      then have "x \<in> set (?q # ys)" "x \<noteq> ?p" using uv ys(3) False by auto
      then show "\<not> stops s bp x" using st by blast
    qed
    moreover have "stops s bp ?p" using st p by blast
    ultimately have "free_find (length u + 2 + (k - (length u + 2))) bp ?q s = Inr ?p" by (rule free_find_path)
    moreover have "length u + 2 + (k - (length u + 2)) = k" using k uv ys(4) by simp
    ultimately show ?thesis by (simp only:)
  qed
qed

text \<open>Joined with its successor if they touch, the block is ready to be linked in behind the blocks \<open>l\<close>.\<close>

definition half_linked :: "uheap \<Rightarrow> nat list \<Rightarrow> nat \<Rightarrow> nat list \<Rightarrow> bool" where
  "half_linked s l bp r \<longleftrightarrow>
     (\<exists>e. path (h_ptr s) (h_base s) l e) \<and> path (h_ptr s) bp r (h_base s) \<and>
     sorted_wrt (apart s) l \<and> sorted_wrt (apart s) (bp # r) \<and> (\<forall>x\<in>set l. x + HDR * h_size s x \<le> bp) \<and>
     0 < h_base s \<and> h_size s (h_base s) = 0 \<and>
     (\<forall>x\<in>set (l @ bp # r). h_base s < x \<and> 0 < h_size s x \<and> x + HDR * h_size s x \<le> h_brk s)"

definition join_next :: "nat \<Rightarrow> nat \<Rightarrow> uheap \<Rightarrow> uheap" where
  "join_next bp n s =
     (if bp + HDR * h_size s bp = n
      then s\<lparr>h_size := (h_size s)(bp := h_size s bp + h_size s n), h_ptr := (h_ptr s)(bp := h_ptr s n)\<rparr>
      else s\<lparr>h_ptr := (h_ptr s)(bp := n)\<rparr>)"

definition join_prev :: "nat \<Rightarrow> nat \<Rightarrow> uheap \<Rightarrow> uheap" where
  "join_prev bp p s =
     (if p + HDR * h_size s p = bp
      then s\<lparr>h_size := (h_size s)(p := h_size s p + h_size s bp), h_ptr := (h_ptr s)(p := h_ptr s bp)\<rparr>
      else s\<lparr>h_ptr := (h_ptr s)(p := bp)\<rparr>)"

lemma free_link_joins: "free_link bp p s = (join_prev bp p (join_next bp (h_ptr s p) s))\<lparr>h_freep := p\<rparr>"
  by (simp add: free_link_def join_next_def join_prev_def Let_def)

lemma sorted_apart_cong: "(\<And>x. x \<in> set xs \<Longrightarrow> h_size s x = h_size t x) \<Longrightarrow> sorted_wrt (apart s) xs = sorted_wrt (apart t) xs"
  by (induction xs) (auto simp: apart_def)

lemma free_mem_cong: "(\<And>x. x \<in> set xs \<Longrightarrow> h_size s x = h_size t x) \<Longrightarrow> free_mem s xs = free_mem t xs"
  by (auto simp: free_mem_def blk_def)

lemma sorted_apart_upd: "h_size t = (h_size s)(a := v) \<Longrightarrow> a \<notin> set xs \<Longrightarrow> sorted_wrt (apart t) xs = sorted_wrt (apart s) xs"
  by (rule sorted_apart_cong) auto

lemma free_mem_upd: "h_size t = (h_size s)(a := v) \<Longrightarrow> a \<notin> set xs \<Longrightarrow> free_mem t xs = free_mem s xs"
  by (rule free_mem_cong) auto

lemma free_mem_simps [simp]: "free_mem s [] = {}" "free_mem s (x # xs) = blk s x \<union> free_mem s xs"
  "free_mem s (xs @ ys) = free_mem s xs \<union> free_mem s ys"
  by (auto simp: free_mem_def)

lemma join_next_effect:
  assumes ok: "heap_ok s (l @ r)" and n: "n = hd (r @ [h_base s])"
    and bp: "h_base s < bp" "0 < h_size s bp" "bp + HDR * h_size s bp \<le> h_brk s"
    and l: "\<forall>x\<in>set l. x + HDR * h_size s x \<le> bp" and r: "\<forall>y\<in>set r. bp + HDR * h_size s bp \<le> y"
  shows "\<exists>r'. half_linked (join_next bp n s) l bp r' \<and> set r' \<subseteq> set r \<and>
     free_mem (join_next bp n s) (l @ bp # r') = free_mem s (l @ r) \<union> blk s bp"
proof -
  let ?b = "h_base s" and ?s = "join_next bp n s"
  note o = ok [unfolded heap_ok_def]
  have d: "distinct (?b # l @ r)" by (rule heap_distinct [OF ok])
  have nl: "bp \<notin> set l"
  proof
    assume "bp \<in> set l"
    then have "bp + HDR * h_size s bp \<le> bp" using l by blast
    then show False using bp(2) by simp
  qed
  have nr: "bp \<notin> set r"
  proof
    assume "bp \<in> set r"
    then have "bp + HDR * h_size s bp \<le> bp" using r by blast
    then show False using bp(2) by simp
  qed
  have pl: "\<exists>e. path (h_ptr s) ?b l e" using o by (cases r) auto
  have pr: "r \<noteq> [] \<Longrightarrow> path (h_ptr s) (hd r) (tl r) ?b" using o by (cases r) auto
  show ?thesis
  proof (cases "r \<noteq> [] \<and> bp + HDR * h_size s bp = n")
    case True
    then obtain r' where r': "r = n # r'" using n by (cases r) auto
    have S: "?s = s\<lparr>h_size := (h_size s)(bp := h_size s bp + h_size s n), h_ptr := (h_ptr s)(bp := h_ptr s n)\<rparr>"
      using True by (simp add: join_next_def)
    have h: "h_size ?s = (h_size s)(bp := h_size s bp + h_size s n)" by (simp add: S)
    have nr': "bp \<notin> set r'" using nr r' by simp
    have "path (h_ptr s) n r' ?b" using pr r' by simp
    then have "path ((h_ptr s)(bp := h_ptr s n)) bp r' ?b" using nr' by (cases r') auto
    moreover have "\<exists>e. path ((h_ptr s)(bp := h_ptr s n)) ?b l e" using pl nl bp(1) by auto
    moreover have "sorted_wrt (apart s) l" "sorted_wrt (apart s) r'" "\<forall>y\<in>set r'. apart s n y"
      "n + HDR * h_size s n \<le> h_brk s" using o r' by (simp_all add: sorted_wrt_append)
    moreover from this have "sorted_wrt (apart ?s) l" "sorted_wrt (apart ?s) (bp # r')"
      using sorted_apart_upd [OF h nl] sorted_apart_upd [OF h nr'] True by (auto simp: apart_def h)
    ultimately have "half_linked ?s l bp r'"
      using o l bp r' nl nr True unfolding half_linked_def by (auto simp: S)
    moreover have "free_mem ?s (l @ bp # r') = free_mem s (l @ r) \<union> blk s bp"
    proof -
      have "blk ?s bp = blk s bp \<union> blk s n" using True by (auto simp: blk_def S)
      then show ?thesis using r' free_mem_upd [OF h nl] free_mem_upd [OF h nr'] by auto
    qed
    ultimately show ?thesis using r' by (intro exI [of _ r']) auto
  next
    case False
    have "bp + HDR * h_size s bp \<noteq> n" using False n bp by auto
    then have S: "?s = s\<lparr>h_ptr := (h_ptr s)(bp := n)\<rparr>" by (simp add: join_next_def)
    have "path ((h_ptr s)(bp := n)) bp r ?b" using pr n nr by (cases r) auto
    moreover have "\<exists>e. path ((h_ptr s)(bp := n)) ?b l e" using pl nl bp(1) by auto
    moreover have "sorted_wrt (apart s) l" "sorted_wrt (apart s) r" using o by (simp_all add: sorted_wrt_append)
    moreover have "apart s bp y" if "y \<in> set r" for y
    proof -
      have "n \<le> y"
        using that n o apart_less by (cases r) (fastforce simp: sorted_wrt_append)+
      moreover have "bp + HDR * h_size s bp \<le> n" using that n r by (cases r) auto
      ultimately show ?thesis using \<open>bp + HDR * h_size s bp \<noteq> n\<close> by (simp add: apart_def)
    qed
    ultimately have "half_linked ?s l bp r"
      using o l bp sorted_apart_cong [of l ?s s] sorted_apart_cong [of r ?s s] unfolding half_linked_def by (auto simp: S apart_def)
    moreover have "free_mem ?s (l @ bp # r) = free_mem s (l @ r) \<union> blk s bp"
      by (auto simp: free_mem_def blk_def S)
    ultimately show ?thesis by blast
  qed
qed

lemma join_prev_effect:
  assumes hl: "half_linked s l bp r" and p: "p = last (h_base s # l)"
  shows "\<exists>xs. heap_ok ((join_prev bp p s)\<lparr>h_freep := p\<rparr>) xs \<and> set xs \<subseteq> set (l @ bp # r) \<and>
     free_mem (join_prev bp p s) xs = free_mem s (l @ bp # r)"
proof -
  let ?b = "h_base s" and ?s = "join_prev bp p s"
  note o = hl [unfolded half_linked_def]
  obtain e where e: "path (h_ptr s) ?b l e" using o by blast
  have gap: "apart s x y" if "x \<in> set l" "y \<in> set r" for x y
  proof -
    have "x + HDR * h_size s x \<le> bp" "bp < y" using o that by (auto simp: apart_def)
    then show ?thesis by (simp add: apart_def)
  qed
  have ll: "\<forall>x\<in>set l. x < bp"
  proof
    fix x
    assume "x \<in> set l"
    then have "x + HDR * h_size s x \<le> bp" "0 < h_size s x" using o by auto
    then show "x < bp" by simp
  qed
  have rr: "\<forall>y\<in>set r. bp < y" using o apart_less by fastforce
  have db: "?b \<notin> set l" "?b \<notin> set r" "?b \<noteq> bp" "distinct l"
    using o sorted_wrt_mono_rel [of l "apart s" "(<)"] apart_less by (auto simp: strict_sorted_iff)
  have pin: "p \<in> set (?b # l)" unfolding p by (cases l) auto
  then have pn: "p \<notin> set r" "p \<noteq> bp" using ll rr db by (fastforce dest: less_asym)+
  show ?thesis
  proof (cases "p + HDR * h_size s p = bp")
    case True
    then have lne: "l \<noteq> []" using p o by auto
    obtain l' where l': "l = l' @ [p]" using lne p by (metis append_butlast_last_id last.simps)
    have pl': "p \<notin> set l'" using db(4) l' by auto
    have S: "?s = s\<lparr>h_size := (h_size s)(p := h_size s p + h_size s bp), h_ptr := (h_ptr s)(p := h_ptr s bp)\<rparr>"
      using True by (simp add: join_prev_def)
    have h: "h_size ?s = (h_size s)(p := h_size s p + h_size s bp)" by (simp add: S)
    have f: "h_base ?s = ?b" "h_brk ?s = h_brk s" "h_ptr ?s = (h_ptr s)(p := h_ptr s bp)" by (simp_all add: S)
    have pb: "p \<noteq> ?b" using l' db(1) by auto
    have "path ((h_ptr s)(p := h_ptr s bp)) ?b l (h_ptr s bp)"
      unfolding p by (rule path_redirect [OF e]) (use db in simp)
    moreover have "path ((h_ptr s)(p := h_ptr s bp)) ?b (l @ r) ?b"
    proof (cases r)
      case Nil
      then show ?thesis using \<open>path ((h_ptr s)(p := h_ptr s bp)) ?b l (h_ptr s bp)\<close> o by simp
    next
      case (Cons y ys)
      then have "h_ptr s bp = y" "path (h_ptr s) y ys ?b" using o by simp_all
      then have "path ((h_ptr s)(p := h_ptr s bp)) y ys ?b" using pn Cons by simp
      then show ?thesis
        using \<open>path ((h_ptr s)(p := h_ptr s bp)) ?b l (h_ptr s bp)\<close> \<open>h_ptr s bp = y\<close> Cons by simp
    qed
    moreover have "sorted_wrt (apart ?s) (l @ r)"
    proof -
      have "sorted_wrt (apart s) l'" "\<forall>x\<in>set l'. apart s x p" "sorted_wrt (apart s) r" "\<forall>y\<in>set r. apart s bp y"
        using o l' by (simp_all add: sorted_wrt_append)
      moreover have "\<forall>y\<in>set r. apart ?s p y" using True \<open>\<forall>y\<in>set r. apart s bp y\<close> by (auto simp: apart_def h)
      moreover have "\<forall>x\<in>set l'. apart ?s x p \<and> (\<forall>y\<in>set r. apart ?s x y)"
        using pl' gap l' \<open>\<forall>x\<in>set l'. apart s x p\<close> by (auto simp: apart_def h)
      ultimately show ?thesis
        using l' sorted_apart_upd [OF h pl'] sorted_apart_upd [OF h pn(1)] by (auto simp: sorted_wrt_append)
    qed
    moreover have "\<forall>x\<in>set (l @ r). ?b < x \<and> 0 < h_size ?s x \<and> x + HDR * h_size ?s x \<le> h_brk s"
      using o True pn by (auto simp: h)
    ultimately have "heap_ok (?s\<lparr>h_freep := p\<rparr>) (l @ r)"
      using o pin f pb unfolding heap_ok_def by (simp add: h)
    moreover have "free_mem ?s (l @ r) = free_mem s (l @ bp # r)"
    proof -
      have "blk ?s p = blk s p \<union> blk s bp" using True by (auto simp: blk_def h)
      then show ?thesis using l' free_mem_upd [OF h pl'] free_mem_upd [OF h pn(1)] by auto
    qed
    ultimately show ?thesis by (intro exI [of _ "l @ r"]) auto
  next
    case False
    then have S: "?s = s\<lparr>h_ptr := (h_ptr s)(p := bp)\<rparr>" by (simp add: join_prev_def)
    have "path ((h_ptr s)(p := bp)) ?b l bp" unfolding p by (rule path_redirect [OF e]) (use db in simp)
    moreover have "path ((h_ptr s)(p := bp)) bp r ?b" using o pn by simp
    moreover have "apart s x bp" if x: "x \<in> set l" for x
    proof (cases "x = p")
      case True
      then show ?thesis using False o x by (auto simp: apart_def)
    next
      case False
      then obtain l' where "l = l' @ [p]" "x \<in> set l'" using x p by (cases l rule: rev_cases) auto
      then have "apart s x p" "p < bp" using o ll by (auto simp: sorted_wrt_append)
      then show ?thesis by (simp add: apart_def)
    qed
    ultimately have "heap_ok (?s\<lparr>h_freep := p\<rparr>) (l @ bp # r)"
      using o pin gap by (auto simp: heap_ok_def S sorted_wrt_append)
    moreover have "free_mem ?s (l @ bp # r) = free_mem s (l @ bp # r)" by (rule free_mem_cong) (simp add: S)
    ultimately show ?thesis by blast
  qed
qed

lemma blk_start: "0 < h_size s x \<Longrightarrow> x \<in> blk s x"
  by (simp add: blk_def)

lemma free_mem_mem: "x \<in> set xs \<Longrightarrow> blk s x \<subseteq> free_mem s xs"
  by (auto simp: free_mem_def)

lemma free_effect:
  assumes ok: "heap_ok s xs" and bp: "h_base s < bp" "0 < h_size s bp" "bp + HDR * h_size s bp \<le> h_brk s"
    and dis: "blk s bp \<inter> free_mem s xs = {}" and k: "length xs + 2 \<le> k"
  shows "\<exists>t ys. free k (bp + HDR) s = Inr t \<and> heap_ok t ys \<and> free_mem t ys = free_mem s xs \<union> blk s bp \<and>
     h_brk t = h_brk s \<and> h_base t = h_base s \<and> (\<forall>a. a \<notin> insert bp (set xs) \<longrightarrow> h_size t a = h_size s a)"
proof -
  obtain l r where lr: "xs = l @ r" "\<forall>x\<in>set l. x < bp" "\<forall>x\<in>set r. bp \<le> x" by (rule heap_split [OF ok bp(1)])
  let ?p = "last (h_base s # l)" and ?n = "hd (r @ [h_base s])"
  have pos: "0 < h_size s x" if "x \<in> set xs" for x using ok that by (simp add: heap_ok_def)
  have off: "blk s x \<inter> blk s bp = {}" if "x \<in> set xs" for x using dis free_mem_mem [OF that] by blast
  have l: "\<forall>x\<in>set l. x + HDR * h_size s x \<le> bp"
  proof
    fix x
    assume x: "x \<in> set l"
    then have "bp \<notin> blk s x" using off [of x] blk_start [OF bp(2)] lr(1) by auto
    then show "x + HDR * h_size s x \<le> bp" using lr(2) x by (auto simp: blk_def)
  qed
  have r: "\<forall>y\<in>set r. bp + HDR * h_size s bp \<le> y"
  proof
    fix y
    assume y: "y \<in> set r"
    then have "y \<notin> blk s bp" using off [of y] blk_start [OF pos, of y] lr(1) by auto
    then show "bp + HDR * h_size s bp \<le> y" using lr(3) y by (auto simp: blk_def)
  qed
  have r': "\<forall>y\<in>set r. bp < y" using r bp(2) by fastforce
  have ok': "heap_ok s (l @ r)" using ok lr(1) by simp
  have find: "free_find k bp (h_freep s) s = Inr ?p"
    by (rule heap_find [OF ok' lr(2) r' bp(1)]) (use k lr(1) in simp)
  have pn: "h_ptr s ?p = ?n"
  proof (cases r)
    case Nil
    then have "path (h_ptr s) (h_base s) l (h_base s)" using ok' by (simp add: heap_ok_def)
    then show ?thesis using path_last Nil by simp
  next
    case (Cons y ys)
    then have "path (h_ptr s) (h_base s) l y" using ok' by (simp add: heap_ok_def)
    then show ?thesis using path_last Cons by simp
  qed
  let ?s = "join_next bp ?n s"
  let ?t = "(join_prev bp ?p ?s)\<lparr>h_freep := ?p\<rparr>"
  obtain r1 where r1: "half_linked ?s l bp r1" "free_mem ?s (l @ bp # r1) = free_mem s (l @ r) \<union> blk s bp"
    using join_next_effect [OF ok' refl bp l r] by blast
  have base: "h_base ?s = h_base s" "h_brk ?s = h_brk s" by (simp_all add: join_next_def)
  then have "?p = last (h_base ?s # l)" by simp
  from join_prev_effect [OF r1(1) this] obtain ys where
    ys: "heap_ok ?t ys" "free_mem (join_prev bp ?p ?s) ys = free_mem ?s (l @ bp # r1)" by blast
  have "free k (bp + HDR) s = Inr ?t"
    unfolding free_def Let_def add_diff_cancel_right' find rbind_Inr free_link_joins pn ..
  moreover have "free_mem ?t ys = free_mem (join_prev bp ?p ?s) ys" by (rule free_mem_cong) simp
  then have "free_mem ?t ys = free_mem s xs \<union> blk s bp" using ys(2) r1(2) lr(1) by simp
  moreover have "h_brk ?t = h_brk s" "h_base ?t = h_base s" by (simp_all add: join_prev_def base)
  moreover have "h_size ?t a = h_size s a" if a: "a \<notin> insert bp (set xs)" for a
  proof (cases "a = ?p")
    case True
    then have "l = []" using a lr(1) by (cases l rule: rev_cases) auto
    then have "h_size ?s ?p = 0" "h_size s ?p = 0" "?p \<noteq> bp" using ok' bp(1) by (auto simp: heap_ok_def join_next_def)
    then show ?thesis using True by (simp add: join_prev_def del: last.simps)
  qed (use a in \<open>auto simp: join_prev_def join_next_def\<close>)
  ultimately show ?thesis using ys(1) by blast
qed

subsection \<open>malloc\<close>

lemma take_block_effect:
  assumes ok: "heap_ok s xs" and y: "y \<in> set xs" "h_ptr s q = y" "q \<in> set (h_base s # xs)" and n: "0 < n" "n \<le> h_size s y"
  shows "\<exists>a t ys. take_block n q y s = (a + HDR, t) \<and> heap_ok t ys \<and> h_base s < a \<and> h_size t a = n \<and>
     blk t a \<subseteq> free_mem s xs \<and> free_mem t ys = free_mem s xs - blk t a \<and> h_brk t = h_brk s \<and> h_base t = h_base s \<and>
     (\<forall>x. x \<notin> free_mem s xs \<longrightarrow> h_size t x = h_size s x)"
proof -
  let ?b = "h_base s"
  note o = ok [unfolded heap_ok_def]
  obtain l r where lr: "xs = l @ y # r" using y(1) by (meson split_list)
  have d: "distinct (?b # l @ y # r)" using heap_distinct [OF ok] lr by simp
  have q: "q = last (?b # l)" by (rule ring_pred [where f = "h_ptr s" and y = y and r = r, OF _ d]) (use o y lr in simp_all)
  have srt: "sorted_wrt (apart s) l" "sorted_wrt (apart s) r" "\<forall>x\<in>set l. apart s x y" "\<forall>x\<in>set r. apart s y x"
    "\<forall>x\<in>set l. \<forall>z\<in>set r. apart s x z" using o lr by (auto simp: sorted_wrt_append)
  have offy: "blk s y \<inter> free_mem s (l @ r) = {}"
    using srt(3,4) by (fastforce simp: free_mem_def blk_def apart_def)
  show ?thesis
  proof (cases "h_size s y = n")
    case True
    let ?t = "s\<lparr>h_ptr := (h_ptr s)(q := h_ptr s y), h_freep := q\<rparr>"
    have "path ((h_ptr s)(q := h_ptr s y)) ?b (l @ r) ?b" unfolding q by (rule path_skip) (use o lr d in simp_all)
    moreover have "q \<in> set (?b # l @ r)" unfolding q by (cases l) auto
    ultimately have "heap_ok ?t (l @ r)" using o srt lr by (auto simp: heap_ok_def sorted_wrt_append)
    moreover have "free_mem ?t (l @ r) = free_mem s (l @ r)" by (rule free_mem_cong) simp
    moreover have "blk ?t y = blk s y" by (simp add: blk_def)
    moreover have "free_mem s xs = free_mem s (l @ r) \<union> blk s y" using lr by auto
    moreover have "take_block n q y s = (y + HDR, ?t)" using True by (simp add: take_block_def)
    ultimately show ?thesis using True offy o y(1)
      by (intro exI [of _ y] exI [of _ ?t] exI [of _ "l @ r"]) auto
  next
    case False
    define m where "m = h_size s y - n"
    define a where "a = y + HDR * m"
    define t where "t = s\<lparr>h_size := (h_size s)(y := m, a := n), h_freep := q\<rparr>"
    have ht: "h_size t = (h_size s)(y := m, a := n)" and f: "h_ptr t = h_ptr s" "h_base t = ?b" "h_brk t = h_brk s" "h_freep t = q"
      by (simp_all add: t_def)
    have m: "0 < m" "m + n = h_size s y" using False n by (auto simp: m_def)
    have ain: "a \<in> blk s y" using m n by (simp add: blk_def a_def)
    have ya: "y \<noteq> a" "h_size t y = m" "h_size t a = n" using m by (simp_all add: a_def ht)
    have anew: "a \<notin> set (l @ r)"
    proof
      assume a: "a \<in> set (l @ r)"
      then have "0 < h_size s a" using o lr by auto
      then have "a \<in> free_mem s (l @ r)" using a blk_start free_mem_mem by blast
      then show False using ain offy by blast
    qed
    have ab: "?b < y" "?b < a" using o y(1) by (auto simp: a_def)
    have sz: "h_size t x = h_size s x" if "x \<in> set (l @ r)" for x using that anew d by (auto simp: ht)
    have szl: "h_size t x = h_size s x" if "x \<in> set l" for x using sz that by simp
    have szr: "h_size t x = h_size s x" if "x \<in> set r" for x using sz that by simp
    have "sorted_wrt (apart t) l" "sorted_wrt (apart t) r"
      using srt(1,2) sorted_apart_cong [OF szl] sorted_apart_cong [OF szr] by blast+
    moreover have "\<forall>x\<in>set l. apart t x y" "\<forall>x\<in>set l. \<forall>z\<in>set r. apart t x z" "\<forall>z\<in>set r. apart t y z"
      using srt(3-5) m(2) by (auto simp: apart_def szl ya(2))
    ultimately have "sorted_wrt (apart t) xs" by (simp add: lr sorted_wrt_append)
    moreover have "?b < x \<and> 0 < h_size t x \<and> x + HDR * h_size t x \<le> h_brk s" if x: "x \<in> set xs" for x
    proof (cases "x = y")
      case True
      have "y + HDR * h_size s y \<le> h_brk s" using o y(1) by blast
      then show ?thesis using True ya(2) m ab(1) by simp
    next
      case False
      then have "h_size t x = h_size s x" using sz x lr by auto
      then show ?thesis using o x by simp
    qed
    ultimately have "heap_ok t xs" using o ab y(3) by (simp add: heap_ok_def f ht)
    moreover have "take_block n q y s = (a + HDR, t)" using False by (simp add: take_block_def Let_def t_def a_def m_def)
    moreover have "blk s y = blk t y \<union> blk t a" "blk t y \<inter> blk t a = {}"
      using m by (auto simp: blk_def ya a_def [symmetric]) (auto simp: a_def)
    moreover have "free_mem t (l @ r) = free_mem s (l @ r)" by (rule free_mem_cong) (rule sz)
    moreover have "free_mem s xs = free_mem s (l @ r) \<union> blk s y" "free_mem t xs = free_mem t (l @ r) \<union> blk t y" using lr by auto
    moreover have "h_size t x = h_size s x" if "x \<notin> free_mem s xs" for x
    proof -
      have "y \<in> blk s y" using n by (intro blk_start) simp
      then have "x \<noteq> a" "x \<noteq> y" using that ain free_mem_mem [OF y(1), of s] by auto
      then show ?thesis by (simp add: ht)
    qed
    ultimately show ?thesis using offy ab(2) ya(3) f
      by (intro exI [of _ a] exI [of _ t] exI [of _ xs] conjI) (assumption | blast)+
  qed
qed

text \<open>Free blocks never touch, so a free range lies in one block.\<close>

lemma apart_unique:
  assumes "sorted_wrt (apart s) xs" "x \<in> set xs" "y \<in> set xs" "x < y"
  shows "apart s x y"
proof -
  obtain i j where ij: "i < length xs" "x = xs ! i" "j < length xs" "y = xs ! j" using assms(2,3) by (metis in_set_conv_nth)
  have "\<not> j < i" using sorted_wrt_nth_less [OF assms(1), of j i] ij assms(4) apart_less [of s y x] by auto
  then have "i < j" using ij assms(4) by (metis nat_neq_iff)
  then show ?thesis using sorted_wrt_nth_less [OF assms(1)] ij by blast
qed

lemma contiguous_block:
  assumes ok: "heap_ok s xs" and sub: "{a..<b} \<subseteq> free_mem s xs" and ab: "a < b"
  shows "\<exists>z\<in>set xs. z \<le> a \<and> b \<le> z + HDR * h_size s z"
proof -
  have srt: "sorted_wrt (apart s) xs" using ok by (simp add: heap_ok_def)
  have "a \<in> {a..<b}" using ab by simp
  then obtain z where z: "z \<in> set xs" "a \<in> blk s z" using sub by (auto simp: free_mem_def)
  let ?e = "z + HDR * h_size s z"
  have "b \<le> ?e"
  proof (rule ccontr)
    assume "\<not> b \<le> ?e"
    then have "?e \<in> {a..<b}" using z(2) by (simp add: blk_def)
    then obtain w where w: "w \<in> set xs" "?e \<in> blk s w" using sub by (auto simp: free_mem_def)
    then have "w \<noteq> z" "w \<le> ?e" "?e < w + HDR * h_size s w" by (auto simp: blk_def)
    moreover have "w < z \<Longrightarrow> w + HDR * h_size s w < z" "z < w \<Longrightarrow> ?e < w"
      using apart_unique [OF srt] z(1) w(1) by (simp_all add: apart_def)
    ultimately show False by (cases "w < z") simp_all
  qed
  then show ?thesis using z by (auto simp: blk_def)
qed

lemma heap_length: "heap_ok s xs \<Longrightarrow> length xs \<le> h_brk s"
proof -
  assume ok: "heap_ok s xs"
  have "x < h_brk s" if "x \<in> set xs" for x
  proof -
    have "x + HDR * h_size s x \<le> h_brk s" "0 < h_size s x" using ok that by (simp_all add: heap_ok_def)
    then show ?thesis by simp
  qed
  then have "set xs \<subseteq> {..<h_brk s}" by auto
  then have "card (set xs) \<le> h_brk s" using card_mono [of "{..<h_brk s}" "set xs"] by simp
  moreover have "distinct xs" using heap_distinct [OF ok] by simp
  ultimately show ?thesis by (simp add: distinct_card)
qed

definition core_units :: "uint \<Rightarrow> nat" where
  "core_units nu = max 4096 (unat nu)"

lemma morecore_effect:
  assumes ok: "heap_ok s xs" and b: "h_base s < h_brk s" and nu: "HDR * core_units nu < 2 ^ 31" and k: "length xs + 2 \<le> k"
  shows "if grow (h_brk s) (int (HDR * core_units nu))
     then \<exists>t ys. morecore k grow nu s = Inr (Some (h_freep t), t) \<and> heap_ok t ys \<and>
       free_mem t ys = free_mem s xs \<union> {h_brk s..<h_brk t} \<and> h_brk t = h_brk s + HDR * core_units nu \<and>
       h_base t = h_base s \<and> (\<forall>x. x < h_brk s \<and> x \<notin> free_mem s xs \<longrightarrow> h_size t x = h_size s x)
     else morecore k grow nu s = Inr (None, s)"
proof -
  define nu' where "nu' = (if nu < 4096 then 4096 else nu)"
  have u: "unat nu' = core_units nu"
    by (auto simp: nu'_def core_units_def word_less_nat_alt)
  have "nu' * of_nat HDR = (word_of_int (int (HDR * core_units nu)) :: uint)"
    unfolding u [symmetric] by (simp add: mult.commute)
  then have n: "sint (nu' * of_nat HDR) = int (HDR * core_units nu)"
    using sint_of_int32 [of "int (HDR * core_units nu)"] nu by simp
  show ?thesis
  proof (cases "grow (h_brk s) (int (HDR * core_units nu))")
    case False
    then show ?thesis using n by (simp add: morecore_def Let_def nu'_def [symmetric])
  next
    case True
    let ?p = "h_brk s"
    define s1 where "s1 = s\<lparr>h_brk := ?p + HDR * core_units nu, h_size := (h_size s)(?p := core_units nu)\<rparr>"
    have below: "x + HDR * h_size s x \<le> ?p" "0 < h_size s x" if "x \<in> set xs" for x using ok that by (auto simp: heap_ok_def)
    then have new: "?p \<notin> set xs" by fastforce
    have h: "h_size s1 = (h_size s)(?p := core_units nu)" by (simp add: s1_def)
    have "sorted_wrt (apart s1) xs" using ok sorted_apart_upd [OF h new] by (simp add: heap_ok_def)
    moreover have "x + HDR * h_size s1 x \<le> h_brk s1" "0 < h_size s1 x" if "x \<in> set xs" for x
      using below [OF that] new that by (auto simp: s1_def)
    ultimately have ok1: "heap_ok s1 xs" using ok b new by (auto simp: heap_ok_def s1_def)
    have fm: "free_mem s1 xs = free_mem s xs" by (rule free_mem_upd [OF h new])
    have "y < ?p" if "y \<in> free_mem s xs" for y using that below by (fastforce simp: free_mem_def blk_def)
    then have dis: "blk s1 ?p \<inter> free_mem s1 xs = {}" unfolding fm by (fastforce simp: blk_def)
    have pos: "0 < core_units nu" by (simp add: core_units_def)
    have "h_base s1 < ?p" "0 < h_size s1 ?p" "?p + HDR * h_size s1 ?p \<le> h_brk s1" using b pos by (simp_all add: s1_def)
    from free_effect [OF ok1 this dis k] obtain t ys where
      t: "free k (?p + HDR) s1 = Inr t" "heap_ok t ys" "free_mem t ys = free_mem s xs \<union> blk s1 ?p" "h_brk t = h_brk s1"
      "h_base t = h_base s1" "\<And>a. a \<notin> insert ?p (set xs) \<Longrightarrow> h_size t a = h_size s1 a" unfolding fm by blast
    have "morecore k grow nu s = Inr (Some (h_freep t), t)"
      using True t(1) n by (simp add: morecore_def Let_def nu'_def [symmetric] u s1_def nat_add_distrib nat_mult_distrib)
    moreover have "blk s1 ?p = {?p..<h_brk t}" by (simp add: blk_def t(4) s1_def)
    moreover have "h_size t x = h_size s x" if x: "x < ?p" "x \<notin> free_mem s xs" for x
    proof -
      have "x \<notin> set xs" using x(2) below(2) blk_start free_mem_mem by blast
      then show ?thesis using t(6) [of x] x(1) by (simp add: h)
    qed
    ultimately show ?thesis using True t(2-5) by (auto simp: s1_def)
  qed
qed

lemma malloc_scan:
  assumes "path (h_ptr s) q ys p" "\<forall>y\<in>set ys. h_size s y < unat nu \<and> y \<noteq> h_freep s"
  shows "malloc_loop (length ys + k) fuel grow nu q (h_ptr s q) s = malloc_loop k fuel grow nu (last (q # ys)) p s"
  using assms by (induction ys arbitrary: q) auto

lemma malloc_found:
  assumes ok: "heap_ok s xs" and z: "z \<in> set xs" "unat nu \<le> h_size s z" and nu: "0 < unat nu" and k: "length xs + 1 \<le> k"
  shows "\<exists>q y. malloc_loop k fuel grow nu (h_freep s) (h_ptr s (h_freep s)) s =
       (let (a, s) = take_block (unat nu) q y s in Inr (Some a, s)) \<and>
     y \<in> set xs \<and> h_ptr s q = y \<and> q \<in> set (h_base s # xs) \<and> unat nu \<le> h_size s y"
proof -
  let ?f = "h_freep s"
  have "path (h_ptr s) (h_base s) xs (h_base s)" "?f \<in> set (h_base s # xs)" using ok by (simp_all add: heap_ok_def)
  from ring_rotate [OF this heap_distinct [OF ok]] obtain ys where
    ys: "path (h_ptr s) ?f ys ?f" "set (?f # ys) = set (h_base s # xs)" "distinct (?f # ys)" "length ys = length xs" by blast
  have "\<exists>x\<in>set (ys @ [?f]). unat nu \<le> h_size s x" using z ys(2) by (intro bexI [of _ z]) auto
  then obtain u y v where u: "ys @ [?f] = u @ y # v" "unat nu \<le> h_size s y" "\<forall>x\<in>set u. \<not> unat nu \<le> h_size s x"
    using split_list_first_prop [of "ys @ [?f]" "\<lambda>x. unat nu \<le> h_size s x"] by blast
  have uf: "path (h_ptr s) ?f u y \<and> ?f \<notin> set u \<and> set u \<subseteq> set ys \<and> y \<in> set (?f # ys)"
  proof (cases v rule: rev_cases)
    case Nil
    then show ?thesis using u(1) ys(1,3) by simp
  next
    case (snoc v' w)
    then have "ys = u @ y # v'" using u(1) by simp
    then show ?thesis using ys(1,3) by auto
  qed
  have "length (ys @ [?f]) = length (u @ y # v)" by (simp only: u(1))
  then have "length u \<le> length xs" using ys(4) by simp
  then have j: "k = length u + Suc (k - length u - 1)" using k by simp
  have "malloc_loop k fuel grow nu ?f (h_ptr s ?f) s =
     malloc_loop (Suc (k - length u - 1)) fuel grow nu (last (?f # u)) y s"
    by (subst j, rule malloc_scan) (use uf u(3) in auto)
  also have "\<dots> = (let (a, s) = take_block (unat nu) (last (?f # u)) y s in Inr (Some a, s))"
    using u(2) by (simp del: last.simps)
  moreover have "y \<in> set xs"
  proof -
    have "h_size s (h_base s) = 0" using ok by (simp add: heap_ok_def)
    moreover have "y \<in> set (h_base s # xs)" using uf ys(2) by blast
    ultimately show ?thesis using u(2) nu by auto
  qed
  moreover have "last (?f # u) \<in> set (h_base s # xs)" using uf ys(2) last_in_set [of "?f # u"] by (simp del: last.simps) blast
  moreover have "h_ptr s (last (?f # u)) = y" using uf path_last by blast
  ultimately show ?thesis using u(2) by (intro exI [of _ "last (?f # u)"] exI [of _ y]) simp
qed

lemma malloc_more:
  assumes ok: "heap_ok s xs" and small: "\<forall>x\<in>set xs. h_size s x < unat nu" and nu: "0 < unat nu"
  shows "malloc_loop (length xs + Suc j) fuel grow nu (h_freep s) (h_ptr s (h_freep s)) s =
     rbind (morecore fuel grow nu s) (\<lambda>(q, s).
        case q of None \<Rightarrow> Inr (None, s) | Some p \<Rightarrow> malloc_loop j fuel grow nu p (h_ptr s p) s)"
proof -
  let ?f = "h_freep s"
  have "path (h_ptr s) (h_base s) xs (h_base s)" "?f \<in> set (h_base s # xs)" "h_size s (h_base s) = 0"
    using ok by (simp_all add: heap_ok_def)
  from this(3) ring_rotate [OF this(1,2) heap_distinct [OF ok]] obtain ys where
    ys: "path (h_ptr s) ?f ys ?f" "set (?f # ys) = set (h_base s # xs)" "distinct (?f # ys)" "length ys = length xs"
    "h_size s (h_base s) = 0" by blast
  have sm: "h_size s x < unat nu" if "x \<in> set (?f # ys)" for x using that small nu ys(5) unfolding ys(2) by auto
  have "malloc_loop (length ys + Suc j) fuel grow nu ?f (h_ptr s ?f) s = malloc_loop (Suc j) fuel grow nu (last (?f # ys)) ?f s"
    by (rule malloc_scan [OF ys(1)]) (use sm ys(3) in auto)
  then show ?thesis using sm [of ?f] by (simp add: ys(4) not_le del: last.simps)
qed

text \<open>The result of \<^verbatim>\<open>malloc\<close> on an initialised heap.\<close>

definition fresh_block :: "nat \<Rightarrow> uheap \<Rightarrow> nat list \<Rightarrow> nat \<Rightarrow> uheap \<Rightarrow> bool" where
  "fresh_block n s xs a t \<longleftrightarrow>
     (\<exists>ys. heap_ok t ys \<and> h_base s < a \<and> h_size t a = n \<and> blk t a \<inter> free_mem t ys = {} \<and>
        blk t a \<union> free_mem t ys = free_mem s xs \<union> {h_brk s..<h_brk t}) \<and>
     h_brk s \<le> h_brk t \<and> h_base t = h_base s \<and> (\<forall>x. x < h_brk s \<and> x \<notin> free_mem s xs \<longrightarrow> h_size t x = h_size s x)"

lemma malloc_loop_effect:
  assumes ok: "heap_ok s xs" and b: "h_base s < h_brk s" and nu: "0 < unat nu" "HDR * core_units nu < 2 ^ 31"
    and fuel: "length xs + 2 \<le> fuel" and k: "2 * h_brk s + HDR * core_units nu + 4 \<le> k"
  shows "malloc_loop k fuel grow nu (h_freep s) (h_ptr s (h_freep s)) s = Inr (None, s) \<or>
     (\<exists>a t. malloc_loop k fuel grow nu (h_freep s) (h_ptr s (h_freep s)) s = Inr (Some (a + HDR), t) \<and> fresh_block (unat nu) s xs a t \<and>
        (h_brk t = h_brk s \<or> grow (h_brk s) (int (h_brk t) - int (h_brk s))))"
proof (cases "\<exists>z\<in>set xs. unat nu \<le> h_size s z")
  case True
  then obtain z where z: "z \<in> set xs" "unat nu \<le> h_size s z" by blast
  have "length xs + 1 \<le> k" using k heap_length [OF ok] by simp
  from malloc_found [OF ok z nu(1) this] obtain q y where
    y: "malloc_loop k fuel grow nu (h_freep s) (h_ptr s (h_freep s)) s = (let (a, s) = take_block (unat nu) q y s in Inr (Some a, s))"
    "y \<in> set xs" "h_ptr s q = y" "q \<in> set (h_base s # xs)" "unat nu \<le> h_size s y" by blast
  from take_block_effect [OF ok y(2-4) nu(1) y(5)] obtain a t ys where
    t: "take_block (unat nu) q y s = (a + HDR, t)" "heap_ok t ys" "h_base s < a" "h_size t a = unat nu"
    "blk t a \<subseteq> free_mem s xs" "free_mem t ys = free_mem s xs - blk t a" "h_brk t = h_brk s" "h_base t = h_base s"
    "\<forall>x. x \<notin> free_mem s xs \<longrightarrow> h_size t x = h_size s x" by blast
  have "fresh_block (unat nu) s xs a t" unfolding fresh_block_def using t(2-9) by (intro conjI exI [of _ ys]) auto
  then show ?thesis using y(1) t(1,7) by auto
next
  case False
  then have small: "\<forall>x\<in>set xs. h_size s x < unat nu" by (simp add: not_le)
  obtain j where j: "k = length xs + Suc j" "h_brk s + HDR * core_units nu + 1 \<le> j"
  proof
    show "k = length xs + Suc (k - length xs - 1)" "h_brk s + HDR * core_units nu + 1 \<le> k - length xs - 1"
      using k heap_length [OF ok] by simp_all
  qed
  note L = malloc_more [OF ok small nu(1), of j fuel grow, folded j(1)]
  show ?thesis
  proof (cases "grow (h_brk s) (int (HDR * core_units nu))")
    case False
    then have "morecore fuel grow nu s = Inr (None, s)" using morecore_effect [OF ok b nu(2) fuel, of grow] by simp
    then show ?thesis using L by simp
  next
    case g: True
    obtain t ys where t: "morecore fuel grow nu s = Inr (Some (h_freep t), t)" "heap_ok t ys"
      "free_mem t ys = free_mem s xs \<union> {h_brk s..<h_brk t}" "h_brk t = h_brk s + HDR * core_units nu" "h_base t = h_base s"
      "\<forall>x. x < h_brk s \<and> x \<notin> free_mem s xs \<longrightarrow> h_size t x = h_size s x"
      using morecore_effect [OF ok b nu(2) fuel, of grow] unfolding if_P [OF g] by blast
    have pos: "0 < core_units nu" "unat nu \<le> core_units nu" by (simp_all add: core_units_def)
    obtain z where z: "z \<in> set ys" "z \<le> h_brk s" "h_brk t \<le> z + HDR * h_size t z"
      using contiguous_block [OF t(2), of "h_brk s" "h_brk t"] t(3,4) pos(1) by (auto simp del: atLeastLessThan_iff)
    then have "unat nu \<le> h_size t z" using t(4) pos(2) by simp
    moreover have "length ys + 1 \<le> j" using j(2) heap_length [OF t(2)] t(4) by simp
    ultimately obtain q y where y: "malloc_loop j fuel grow nu (h_freep t) (h_ptr t (h_freep t)) t =
        (let (a, s) = take_block (unat nu) q y t in Inr (Some a, s))"
      "y \<in> set ys" "h_ptr t q = y" "q \<in> set (h_base t # ys)" "unat nu \<le> h_size t y"
      using malloc_found [OF t(2) z(1) _ nu(1)] by blast
    from take_block_effect [OF t(2) y(2-4) nu(1) y(5)] obtain a u zs where
      u: "take_block (unat nu) q y t = (a + HDR, u)" "heap_ok u zs" "h_base t < a" "h_size u a = unat nu"
      "blk u a \<subseteq> free_mem t ys" "free_mem u zs = free_mem t ys - blk u a" "h_brk u = h_brk t" "h_base u = h_base t"
      "\<forall>x. x \<notin> free_mem t ys \<longrightarrow> h_size u x = h_size t x" by blast
    have "blk u a \<inter> free_mem u zs = {}" "blk u a \<union> free_mem u zs = free_mem t ys" using u(5,6) by blast+
    moreover have "h_size u x = h_size s x" if x: "x < h_brk s" "x \<notin> free_mem s xs" for x
    proof -
      have "x \<notin> free_mem t ys" using x t(3) by simp
      then show ?thesis using u(9) t(6) x by simp
    qed
    moreover have "h_base s < a" "h_brk s \<le> h_brk u" "h_base u = h_base s" using u(3,7,8) t(4,5) by simp_all
    ultimately have "fresh_block (unat nu) s xs a u"
      unfolding fresh_block_def t(3) u(7) using u(2,4) by blast
    moreover have "malloc_loop k fuel grow nu (h_freep s) (h_ptr s (h_freep s)) s = Inr (Some (a + HDR), u)"
      using L t(1) y(1) u(1) by simp
    moreover have "grow (h_brk s) (int (h_brk u) - int (h_brk s))" using g u(7) t(4) by simp
    ultimately show ?thesis by blast
  qed
qed

subsection \<open>Calls of a program\<close>

text \<open>
  The memory obtained since the end of memory was \<open>b0\<close> is divided into the free blocks and the blocks of the
  allocated headers \<open>A\<close>: no two overlap and nothing is lost.
\<close>

definition heap_inv :: "nat \<Rightarrow> uheap \<Rightarrow> nat set \<Rightarrow> bool" where
  "heap_inv b0 s A \<longleftrightarrow> 0 < h_base s \<and> h_base s < b0 \<and> b0 \<le> h_brk s \<and>
     (if h_freep s = 0 then A = {} \<and> h_brk s = b0
      else \<exists>xs. heap_ok s xs \<and> (\<forall>x\<in>A. 0 < h_size s x \<and> blk s x \<inter> free_mem s xs = {}) \<and>
        pairwise (\<lambda>x y. blk s x \<inter> blk s y = {}) A \<and> (\<Union>x\<in>A. blk s x) \<union> free_mem s xs = {b0..<h_brk s})"

definition uinit :: "uheap \<Rightarrow> uheap" where
  "uinit s = (if h_freep s = 0
     then s\<lparr>h_ptr := (h_ptr s)(h_base s := h_base s), h_freep := h_base s, h_size := (h_size s)(h_base s := 0)\<rparr> else s)"

lemma malloc_uinit:
  "malloc fuel grow n s = malloc_loop fuel fuel grow (nunits n) (h_freep (uinit s)) (h_ptr (uinit s) (h_freep (uinit s))) (uinit s)"
  by (simp add: malloc_def uinit_def Let_def)

lemma uinit_inv:
  assumes "heap_inv b0 s A"
  shows "heap_inv b0 (uinit s) A" "h_freep (uinit s) \<noteq> 0" "h_brk (uinit s) = h_brk s" "x \<in> A \<Longrightarrow> h_size (uinit s) x = h_size s x"
proof -
  show "h_freep (uinit s) \<noteq> 0" "h_brk (uinit s) = h_brk s" using assms by (auto simp: heap_inv_def uinit_def)
  show "heap_inv b0 (uinit s) A"
  proof (cases "h_freep s = 0")
    case True
    then have "heap_ok (uinit s) []" using assms by (simp add: uinit_def heap_ok_def heap_inv_def)
    then show ?thesis using True assms by (auto simp: uinit_def heap_inv_def intro!: exI [of _ "[]"])
  qed (use assms in \<open>simp add: uinit_def\<close>)
  show "x \<in> A \<Longrightarrow> h_size (uinit s) x = h_size s x" using assms by (auto simp: heap_inv_def uinit_def split: if_splits)
qed

lemma nunits_small:
  assumes "unat n + 15 < 2 ^ 31"
  shows "unat (nunits n) = (unat n + 7) div 8 + 1"
proof -
  have "unat (n + 7) = unat n + 7" using assms by (simp add: unat_word_ariths)
  then have "unat ((n + 7) div 8) = (unat n + 7) div 8" by (simp add: unat_div)
  then show ?thesis using assms by (simp add: nunits_def unat_word_ariths)
qed

lemma heap_inv_other:
  assumes "heap_ok s xs" "(\<Union>x\<in>A. blk s x) \<union> free_mem s xs = {b0..<h_brk s}" "\<forall>x\<in>A. 0 < h_size s x \<and> blk s x \<inter> free_mem s xs = {}"
    "x \<in> A"
  shows "b0 \<le> x" "x + HDR * h_size s x \<le> h_brk s" "x \<notin> free_mem s xs" "x < h_brk s"
proof -
  have x: "x \<in> blk s x" "0 < h_size s x" using assms(3,4) blk_start by auto
  then show "x \<notin> free_mem s xs" using assms(3,4) by auto
  have sub: "blk s x \<subseteq> {b0..<h_brk s}" using assms(2,4) by blast
  then show "b0 \<le> x" "x < h_brk s" using x by auto
  have "x + HDR * h_size s x - 1 \<in> blk s x" using x(2) by (simp add: blk_def)
  then have "x + HDR * h_size s x - 1 < h_brk s" using sub by auto
  then show "x + HDR * h_size s x \<le> h_brk s" using x(2) by simp
qed

lemma malloc_inv:
  assumes inv: "heap_inv b0 s A" and n: "unat n + 15 < 2 ^ 31" and fuel: "2 * h_brk s + 2 ^ 31 + 4 \<le> fuel"
  shows "\<exists>r t. malloc fuel grow n s = Inr (r, t) \<and> (h_brk t = h_brk s \<or> grow (h_brk s) (int (h_brk t) - int (h_brk s))) \<and>
     (\<forall>x\<in>A. h_size t x = h_size s x) \<and>
     (case r of None \<Rightarrow> heap_inv b0 t A
      | Some p \<Rightarrow> HDR \<le> p \<and> p - HDR \<notin> A \<and> h_size t (p - HDR) = unat (nunits n) \<and> heap_inv b0 t (insert (p - HDR) A))"
proof -
  let ?u = "uinit s" and ?nu = "nunits n"
  note u = uinit_inv [OF inv]
  obtain xs where xs: "heap_ok ?u xs" "\<forall>x\<in>A. 0 < h_size ?u x \<and> blk ?u x \<inter> free_mem ?u xs = {}"
    "pairwise (\<lambda>x y. blk ?u x \<inter> blk ?u y = {}) A" "(\<Union>x\<in>A. blk ?u x) \<union> free_mem ?u xs = {b0..<h_brk ?u}"
    and b: "0 < h_base ?u" "h_base ?u < b0" "b0 \<le> h_brk ?u"
    using u(1,2) by (auto simp: heap_inv_def)
  have nu: "0 < unat ?nu" "HDR * core_units ?nu < 2 ^ 31" using n by (simp_all add: core_units_def nunits_small)
  have "length xs + 2 \<le> fuel" "2 * h_brk ?u + HDR * core_units ?nu + 4 \<le> fuel"
    using fuel nu(2) heap_length [OF xs(1)] u(3) by simp_all
  moreover have "h_base ?u < h_brk ?u" using b by simp
  ultimately consider
    (fail) "malloc fuel grow n s = Inr (None, ?u)"
  | (got) a t where "malloc fuel grow n s = Inr (Some (a + HDR), t)" "fresh_block (unat ?nu) ?u xs a t"
      "h_brk t = h_brk ?u \<or> grow (h_brk ?u) (int (h_brk t) - int (h_brk ?u))"
    unfolding malloc_uinit using malloc_loop_effect [OF xs(1) _ nu, of fuel fuel grow] by blast
  then show ?thesis
  proof cases
    case fail
    then show ?thesis using u by auto
  next
    case got
    from got(2) obtain ys where t: "heap_ok t ys" "h_base ?u < a" "h_size t a = unat ?nu" "blk t a \<inter> free_mem t ys = {}"
      "blk t a \<union> free_mem t ys = free_mem ?u xs \<union> {h_brk ?u..<h_brk t}" "h_brk ?u \<le> h_brk t" "h_base t = h_base ?u"
      "\<And>x. x < h_brk ?u \<Longrightarrow> x \<notin> free_mem ?u xs \<Longrightarrow> h_size t x = h_size ?u x"
      unfolding fresh_block_def by blast
    note other = heap_inv_other [OF xs(1,4,2)]
    have sz: "h_size t x = h_size ?u x" if "x \<in> A" for x using t(8) other(3,4) that by blast
    have bl: "blk t x = blk ?u x" if "x \<in> A" for x using sz that by (simp add: blk_def)
    have dis: "blk ?u x \<inter> (blk t a \<union> free_mem t ys) = {}" if "x \<in> A" for x
    proof -
      have "blk ?u x \<inter> free_mem ?u xs = {}" "blk ?u x \<subseteq> {b0..<h_brk ?u}" using xs(2,4) that by auto
      then show ?thesis unfolding t(5) by auto
    qed
    have "a \<notin> A"
    proof
      assume a: "a \<in> A"
      then have "a \<in> blk ?u a" "a \<in> blk t a" using xs(2) nu(1) t(3) by (simp_all add: blk_start)
      then show False using dis [OF a] by blast
    qed
    have "(\<Union>x\<in>insert a A. blk t x) \<union> free_mem t ys = {b0..<h_brk t}"
    proof -
      have "(\<Union>x\<in>A. blk t x) = (\<Union>x\<in>A. blk ?u x)" using bl by simp
      then have "(\<Union>x\<in>insert a A. blk t x) \<union> free_mem t ys = (\<Union>x\<in>A. blk ?u x) \<union> free_mem ?u xs \<union> {h_brk ?u..<h_brk t}"
        using t(5) by (simp only: UN_insert) blast
      also have "\<dots> = {b0..<h_brk t}" unfolding xs(4) using b(3) t(6) by auto
      finally show ?thesis .
    qed
    moreover have "pairwise (\<lambda>x y. blk t x \<inter> blk t y = {}) (insert a A)"
      using xs(3) dis bl by (auto simp: pairwise_insert pairwise_def)
    moreover have "\<forall>x\<in>insert a A. 0 < h_size t x \<and> blk t x \<inter> free_mem t ys = {}"
      using xs(2) dis bl sz t(3,4) nu(1) by auto
    moreover have "h_freep t \<noteq> 0" using t(1) by (auto simp: heap_ok_def)
    moreover have "0 < h_base t" "h_base t < b0" "b0 \<le> h_brk t" using t(6,7) b by simp_all
    ultimately have "heap_inv b0 t (insert a A)" unfolding heap_inv_def using t(1) by (simp only: if_False) blast
    then show ?thesis using got(1,3) t(3) sz u(3,4) \<open>a \<notin> A\<close> by (intro exI [of _ "Some (a + HDR)"] exI [of _ t]) auto
  qed
qed

lemma free_inv:
  assumes inv: "heap_inv b0 s A" and x: "x \<in> A" and fuel: "h_brk s + 2 \<le> fuel"
  shows "\<exists>t. free fuel (x + HDR) s = Inr t \<and> heap_inv b0 t (A - {x}) \<and> h_brk t = h_brk s \<and> (\<forall>y\<in>A - {x}. h_size t y = h_size s y)"
proof -
  have "h_freep s \<noteq> 0" using inv x by (auto simp: heap_inv_def split: if_splits)
  then obtain xs where xs: "heap_ok s xs" "\<forall>x\<in>A. 0 < h_size s x \<and> blk s x \<inter> free_mem s xs = {}"
    "pairwise (\<lambda>x y. blk s x \<inter> blk s y = {}) A" "(\<Union>x\<in>A. blk s x) \<union> free_mem s xs = {b0..<h_brk s}"
    and b: "0 < h_base s" "h_base s < b0" "b0 \<le> h_brk s"
    using inv by (auto simp: heap_inv_def)
  note other = heap_inv_other [OF xs(1,4,2)]
  have "h_base s < x" "0 < h_size s x" "x + HDR * h_size s x \<le> h_brk s" "blk s x \<inter> free_mem s xs = {}" "length xs + 2 \<le> fuel"
    using other(1,2) [OF x] xs(2) x b heap_length [OF xs(1)] fuel by auto
  from free_effect [OF xs(1) this] obtain t ys where
    t: "free fuel (x + HDR) s = Inr t" "heap_ok t ys" "free_mem t ys = free_mem s xs \<union> blk s x" "h_brk t = h_brk s" "h_base t = h_base s"
    "\<And>a. a \<notin> insert x (set xs) \<Longrightarrow> h_size t a = h_size s a" by blast
  have pos: "0 < h_size s z" if "z \<in> set xs" for z using xs(1) that by (simp add: heap_ok_def)
  have sz: "h_size t y = h_size s y" if y: "y \<in> A - {x}" for y
  proof -
    have "y \<notin> set xs" using other(3) [of y] y blk_start [OF pos, of y] free_mem_mem [of y xs s] by auto
    then show ?thesis using t(6) y by simp
  qed
  have bl: "blk t y = blk s y" if "y \<in> A - {x}" for y using sz [OF that] by (simp add: blk_def)
  have dis: "blk s y \<inter> blk s x = {}" if "y \<in> A - {x}" for y using xs(3) that x by (auto simp: pairwise_def)
  have "(\<Union>y\<in>A - {x}. blk t y) = (\<Union>y\<in>A - {x}. blk s y)" using bl by (intro SUP_cong) simp_all
  then have "(\<Union>y\<in>A - {x}. blk t y) \<union> free_mem t ys = (\<Union>y\<in>A. blk s y) \<union> free_mem s xs" using t(3) x by auto
  then have "(\<Union>y\<in>A - {x}. blk t y) \<union> free_mem t ys = {b0..<h_brk t}" using xs(4) t(4) by simp
  moreover have "pairwise (\<lambda>x y. blk t x \<inter> blk t y = {}) (A - {x})"
    using xs(3) bl by (simp add: pairwise_def)
  moreover have "\<forall>y\<in>A - {x}. 0 < h_size t y \<and> blk t y \<inter> free_mem t ys = {}"
  proof
    fix y
    assume y: "y \<in> A - {x}"
    then have "0 < h_size s y" "blk s y \<inter> free_mem s xs = {}" using xs(2) by auto
    then show "0 < h_size t y \<and> blk t y \<inter> free_mem t ys = {}" using sz [OF y] bl [OF y] dis [OF y] t(3) by auto
  qed
  moreover have "h_freep t \<noteq> 0" using t(2) by (auto simp: heap_ok_def)
  moreover have "0 < h_base t" "h_base t < b0" "b0 \<le> h_brk t" using t(4,5) b by simp_all
  ultimately have "heap_inv b0 t (A - {x})" unfolding heap_inv_def using t(2) by (simp only: if_False) blast
  then show ?thesis using t(1,4) sz by blast
qed

text \<open>
  A program calls \<^verbatim>\<open>malloc\<close> with a number of bytes, or frees one of the blocks it has, given by its place in the list
  of the addresses it was returned and has not freed.
\<close>

datatype ucall = Malloc uint | Free nat

fun ucall_step :: "nat \<Rightarrow> sbrk \<Rightarrow> ucall \<Rightarrow> uheap \<times> (nat \<times> uint) list \<Rightarrow> (uheap \<times> (nat \<times> uint) list) result" where
  "ucall_step fuel grow (Malloc n) (s, live) =
     rbind (malloc fuel grow n s) (\<lambda>(r, s). Inr (s, case r of None \<Rightarrow> live | Some p \<Rightarrow> (p, n) # live))"
| "ucall_step fuel grow (Free i) (s, live) =
     (if i < length live
      then rbind (free fuel (fst (live ! i)) s) (\<lambda>s. Inr (s, take i live @ drop (Suc i) live))
      else Inr (s, live))"

definition run_inv :: "nat \<Rightarrow> nat \<Rightarrow> uheap \<times> (nat \<times> uint) list \<Rightarrow> bool" where
  "run_inv b0 M sl \<longleftrightarrow> (case sl of (s, live) \<Rightarrow>
     heap_inv b0 s ((\<lambda>(p, n). p - HDR) ` set live) \<and> distinct (map (\<lambda>(p, n). p - HDR) live) \<and> h_brk s \<le> M \<and>
     (\<forall>(p, n)\<in>set live. HDR \<le> p \<and> h_size s (p - HDR) = unat (nunits n) \<and> unat n + 15 < 2 ^ 31))"

lemma ucall_malloc:
  assumes "run_inv b0 M (s, live)" "unat n + 15 < 2 ^ 31" "2 * M + 2 ^ 31 + 4 \<le> fuel" "\<forall>p m. grow p m \<longrightarrow> int p + m \<le> int M"
  shows "\<exists>sl. ucall_step fuel grow (Malloc n) (s, live) = Inr sl \<and> run_inv b0 M sl"
proof -
  note r = assms(1) [unfolded run_inv_def, simplified]
  let ?A = "(\<lambda>(p, n). p - HDR) ` set live"
  have "2 * h_brk s + 2 ^ 31 + 4 \<le> fuel" using r assms(3) by simp
  from malloc_inv [OF _ assms(2) this, of b0 ?A grow] r obtain res t where
    t: "malloc fuel grow n s = Inr (res, t)" "h_brk t = h_brk s \<or> grow (h_brk s) (int (h_brk t) - int (h_brk s))"
    "\<forall>x\<in>?A. h_size t x = h_size s x"
    "case res of None \<Rightarrow> heap_inv b0 t ?A
      | Some p \<Rightarrow> HDR \<le> p \<and> p - HDR \<notin> ?A \<and> h_size t (p - HDR) = unat (nunits n) \<and> heap_inv b0 t (insert (p - HDR) ?A)"
    by blast
  have brk: "h_brk t \<le> M" using t(2) assms(4) r by force
  have live: "\<forall>(p, m)\<in>set live. HDR \<le> p \<and> h_size t (p - HDR) = unat (nunits m) \<and> unat m + 15 < 2 ^ 31"
  proof (rule ballI, clarify)
    fix p m
    assume pm: "(p, m) \<in> set live"
    then have "p - HDR \<in> ?A" by force
    then show "HDR \<le> p \<and> h_size t (p - HDR) = unat (nunits m) \<and> unat m + 15 < 2 ^ 31" using t(3) r pm by fastforce
  qed
  show ?thesis
  proof (cases res)
    case None
    then show ?thesis using t(1,4) r brk live by (simp add: run_inv_def)
  next
    case (Some p)
    then have "run_inv b0 M (t, (p, n) # live)"
      using t(4) r brk live assms(2) unfolding run_inv_def by (simp add: image_iff)
    then show ?thesis using t(1) Some by simp
  qed
qed

lemma ucall_free:
  assumes "run_inv b0 M (s, live)" "2 * M + 2 ^ 31 + 4 \<le> fuel"
  shows "\<exists>sl. ucall_step fuel grow (Free i) (s, live) = Inr sl \<and> run_inv b0 M sl"
proof (cases "i < length live")
  case True
  let ?h = "\<lambda>(p, n :: uint). p - HDR" and ?l = "take i live @ drop (Suc i) live"
  note r = assms(1) [unfolded run_inv_def prod.case]
  obtain p n where pn: "live ! i = (p, n)" by (cases "live ! i")
  define l where "l = ?l"
  have split: "live = take i live @ (p, n) # drop (Suc i) live" using id_take_nth_drop [OF True] pn by simp
  then have "mset live = mset (take i live @ (p, n) # drop (Suc i) live)" by (rule arg_cong)
  then have m: "mset live = add_mset (p, n) (mset l)" by (simp add: l_def)
  have ms: "mset (map ?h live) = mset (map ?h ((p, n) # l))" by (simp add: m)
  have sl: "set live = insert (p, n) (set l)" unfolding set_mset_mset [symmetric] m by simp
  have "distinct (map ?h live)" using r by blast
  then have d: "distinct (map ?h l)" "p - HDR \<notin> ?h ` set l" using mset_eq_imp_distinct_iff [OF ms] by auto
  have p: "p - HDR \<in> ?h ` set live" by (subst sl) simp
  have p8: "p - HDR + HDR = p" using r sl by auto
  have A: "?h ` set live - {p - HDR} = ?h ` set l" using d(2) by (subst sl) simp
  have "h_brk s + 2 \<le> fuel" "heap_inv b0 s (?h ` set live)" using r assms(2) by simp_all
  from free_inv [OF this(2) p this(1)] obtain t where
    t: "free fuel p s = Inr t" "heap_inv b0 t (?h ` set l)" "h_brk t = h_brk s" "\<forall>y\<in>?h ` set l. h_size t y = h_size s y"
    unfolding A p8 by blast
  have "\<forall>(p, m)\<in>set l. HDR \<le> p \<and> h_size t (p - HDR) = unat (nunits m) \<and> unat m + 15 < 2 ^ 31"
  proof (rule ballI, clarify)
    fix q m
    assume qm: "(q, m) \<in> set l"
    then have "h_size t (q - HDR) = h_size s (q - HDR)" using t(4) by force
    then show "HDR \<le> q \<and> h_size t (q - HDR) = unat (nunits m) \<and> unat m + 15 < 2 ^ 31"
      using r sl qm by auto
  qed
  then have "run_inv b0 M (t, l)" unfolding run_inv_def prod.case using t(2,3) d(1) r by simp
  then show ?thesis using True t(1) pn by (simp add: l_def)
next
  case False
  then show ?thesis using assms(1) by simp
qed

lemma ucalls_inv:
  assumes "run_inv b0 M sl" "\<forall>c\<in>set cs. \<forall>n. c = Malloc n \<longrightarrow> unat n + 15 < 2 ^ 31"
    "2 * M + 2 ^ 31 + 4 \<le> fuel" "\<forall>p m. grow p m \<longrightarrow> int p + m \<le> int M"
  shows "\<exists>sl'. rfold (ucall_step fuel grow) cs sl = Inr sl' \<and> run_inv b0 M sl'"
proof (rule rfold_invariant [where P = "run_inv b0 M", OF assms(1)])
  fix c sl
  assume c: "c \<in> set cs" and inv: "run_inv b0 M sl"
  obtain s live where sl: "sl = (s, live)" by (cases sl)
  show "\<exists>sl'. ucall_step fuel grow c sl = Inr sl' \<and> run_inv b0 M sl'"
  proof (cases c)
    case (Malloc n)
    then show ?thesis using ucall_malloc [OF inv [unfolded sl] _ assms(3,4)] assms(2) c sl by auto
  next
    case (Free i)
    then show ?thesis using ucall_free [OF inv [unfolded sl] assms(3)] sl by auto
  qed
qed

text \<open>The bytes a caller was promised are inside the block, behind its header.\<close>

lemma run_inv_blocks:
  assumes "run_inv b0 M (s, live)" "i < length live" "live ! i = (p, n)"
  shows "{p..<p + unat n} \<subseteq> blk s (p - HDR)" "{p..<p + unat n} \<subseteq> {b0..<h_brk s}"
    "j < length live \<Longrightarrow> j \<noteq> i \<Longrightarrow> live ! j = (q, m) \<Longrightarrow> {p..<p + unat n} \<inter> {q..<q + unat m} = {}"
proof -
  note r = assms(1) [unfolded run_inv_def prod.case]
  let ?h = "\<lambda>(p, n :: uint). p - HDR"
  have bytes: "{p..<p + unat n} \<subseteq> blk s (p - HDR)" if "(p, n) \<in> set live" for p n
  proof -
    have "HDR \<le> p" "h_size s (p - HDR) = unat (nunits n)" "unat n + 15 < 2 ^ 31" using r that by auto
    then have "HDR \<le> p" "h_size s (p - HDR) = (unat n + 7) div 8 + 1" using nunits_small by simp_all
    moreover have "unat n + 7 < 8 * ((unat n + 7) div 8) + 8" by simp
    ultimately show ?thesis by (auto simp: blk_def)
  qed
  have mem: "(p, n) \<in> set live" using assms(2,3) nth_mem by metis
  show one: "{p..<p + unat n} \<subseteq> blk s (p - HDR)" by (rule bytes [OF mem])
  define A where "A = ?h ` set live"
  have inv: "heap_inv b0 s A" using r by (simp add: A_def)
  have pA: "p - HDR \<in> A" using mem by (force simp: A_def)
  then have "A \<noteq> {}" by auto
  then have "h_freep s \<noteq> 0" using inv by (auto simp: heap_inv_def split: if_splits)
  then obtain xs where xs: "pairwise (\<lambda>x y. blk s x \<inter> blk s y = {}) A" "(\<Union>x\<in>A. blk s x) \<union> free_mem s xs = {b0..<h_brk s}"
    using inv by (auto simp: heap_inv_def)
  then have "blk s (p - HDR) \<subseteq> {b0..<h_brk s}" using pA by blast
  then show "{p..<p + unat n} \<subseteq> {b0..<h_brk s}" using one by blast
  assume j: "j < length live" "j \<noteq> i" "live ! j = (q, m)"
  have "distinct (map ?h live)" using r by blast
  then have "map ?h live ! i \<noteq> map ?h live ! j" using j assms(2) by (simp add: nth_eq_iff_index_eq del: nth_map)
  then have ne: "p - HDR \<noteq> q - HDR" using j assms(2,3) by simp
  have qm: "(q, m) \<in> set live" using j nth_mem by metis
  then have "q - HDR \<in> A" by (force simp: A_def)
  then have "blk s (p - HDR) \<inter> blk s (q - HDR) = {}" using pairwiseD [OF xs(1) pA] ne by blast
  then show "{p..<p + unat n} \<inter> {q..<q + unat m} = {}" using one bytes [OF qm] by blast
qed

text \<open>
  C9. \<^verbatim>\<open>malloc\<close> and \<^verbatim>\<open>free\<close> hand out disjoint blocks and lose no memory. Run any sequence of requests for less than
  2 GB and of frees of blocks the program holds, on a heap that no call has used yet, with a kernel that
  decides freely when to refuse more memory but never grows it beyond \<open>M\<close>. Every call returns. At the end the blocks the program holds are
  inside the memory it has obtained, each has at least the requested number of bytes, and no two overlap.
  The blocks with their headers and the free list together are exactly the memory obtained. The bound on the requests is needed:
  the number of units is computed in 32 bits and wraps around for sizes near 2^32.
\<close>
theorem malloc_blocks_disjoint:
  assumes "h_freep s = 0" "0 < h_base s" "h_base s < h_brk s" "h_brk s \<le> M"
    and "\<forall>c\<in>set cs. \<forall>n. c = Malloc n \<longrightarrow> unat n + 15 < 2 ^ 31"
    and "\<forall>p m. grow p m \<longrightarrow> int p + m \<le> int M" "2 * M + 2 ^ 31 + 4 \<le> fuel"
  shows "\<exists>t live. rfold (ucall_step fuel grow) cs (s, []) = Inr (t, live) \<and>
     heap_inv (h_brk s) t ((\<lambda>(p, n). p - HDR) ` set live) \<and>
     (\<forall>i p n. i < length live \<and> live ! i = (p, n) \<longrightarrow>
        {p..<p + unat n} \<subseteq> blk t (p - HDR) \<and> {p..<p + unat n} \<subseteq> {h_brk s..<h_brk t} \<and>
        (\<forall>j q m. j < length live \<and> j \<noteq> i \<and> live ! j = (q, m) \<longrightarrow> {p..<p + unat n} \<inter> {q..<q + unat m} = {}))"
proof -
  have "run_inv (h_brk s) M (s, [])" using assms(1-4) by (simp add: run_inv_def heap_inv_def)
  from ucalls_inv [OF this assms(5,7,6)] obtain sl where
    "rfold (ucall_step fuel grow) cs (s, []) = Inr sl" "run_inv (h_brk s) M sl" by blast
  moreover obtain t live where "sl = (t, live)" by (cases sl)
  ultimately have t: "rfold (ucall_step fuel grow) cs (s, []) = Inr (t, live)" "run_inv (h_brk s) M (t, live)" by simp_all
  have inv: "heap_inv (h_brk s) t ((\<lambda>(p, n). p - HDR) ` set live)" using t(2) by (simp add: run_inv_def)
  have "\<forall>i p n. i < length live \<and> live ! i = (p, n) \<longrightarrow>
      {p..<p + unat n} \<subseteq> blk t (p - HDR) \<and> {p..<p + unat n} \<subseteq> {h_brk s..<h_brk t} \<and>
      (\<forall>j q m. j < length live \<and> j \<noteq> i \<and> live ! j = (q, m) \<longrightarrow> {p..<p + unat n} \<inter> {q..<q + unat m} = {})"
  proof (intro allI impI, elim conjE)
    fix i p n
    assume "i < length live" "live ! i = (p, n)"
    note b = run_inv_blocks [OF t(2) this]
    show "{p..<p + unat n} \<subseteq> blk t (p - HDR) \<and> {p..<p + unat n} \<subseteq> {h_brk s..<h_brk t} \<and>
        (\<forall>j q m. j < length live \<and> j \<noteq> i \<and> live ! j = (q, m) \<longrightarrow> {p..<p + unat n} \<inter> {q..<q + unat m} = {})"
      by (intro conjI b(1,2) allI impI) (elim conjE, rule b(3))
  qed
  with t(1) inv show ?thesis by (intro exI conjI)
qed

theorem malloc_blocks_disjoint_witness:
  "\<exists>t live. rfold (ucall_step (2 ^ 33) (\<lambda>p m. int p + m \<le> 2 ^ 31)) [Malloc 100, Malloc 7, Free 1, Malloc 70000]
       (\<lparr>h_ptr = (\<lambda>_. 0), h_size = (\<lambda>_. 0), h_freep = 0, h_base = 4000, h_brk = 8192\<rparr>, []) = Inr (t, live) \<and>
     heap_inv 8192 t ((\<lambda>(p, n). p - HDR) ` set live)"
proof -
  let ?s = "\<lparr>h_ptr = (\<lambda>_. 0), h_size = (\<lambda>_. 0), h_freep = 0, h_base = 4000, h_brk = 8192\<rparr> :: uheap"
  let ?g = "\<lambda>(p :: nat) m. int p + m \<le> 2 ^ 31"
  let ?cs = "[Malloc 100, Malloc 7, Free 1, Malloc 70000]"
  have p: "h_freep ?s = 0" "0 < h_base ?s" "h_base ?s < h_brk ?s" "h_brk ?s \<le> 2 ^ 31"
    "\<forall>c\<in>set ?cs. \<forall>n. c = Malloc n \<longrightarrow> unat n + 15 < 2 ^ 31" "\<forall>p m. ?g p m \<longrightarrow> int p + m \<le> int (2 ^ 31)" "2 * 2 ^ 31 + 2 ^ 31 + 4 \<le> (2 ^ 33 :: nat)"
    "h_brk ?s = 8192"
    by simp_all
  from malloc_blocks_disjoint [OF p(1-7)] obtain t live where
    "rfold (ucall_step (2 ^ 33) ?g) ?cs (?s, []) = Inr (t, live)" "heap_inv 8192 t ((\<lambda>(p, n). p - HDR) ` set live)"
    unfolding p(8) by - (elim exE conjE, rule that)
  then show ?thesis by (intro exI conjI)
qed

end
