(* ===== verification/Fs_Inv.thy ===== *)
theory Fs_Inv
  imports Fs_File Log_Trans
begin

section \<open>File contents inside a transaction\<close>

text \<open>
  Within a transaction the file system sees the cache as one array of blocks, in which it may still change a number of blocks. On
  top of it a file is an array of bytes: the blocks its inode maps, one after the other.
\<close>

subsection \<open>Blocks in a transaction\<close>

text \<open>There is room in the log for \<open>k\<close> more blocks.\<close>

definition in_trans :: "(uint \<Rightarrow> block) \<Rightarrow> (uint \<Rightarrow> block) \<Rightarrow> nat \<Rightarrow> kernel \<Rightarrow> bool" where
  "in_trans C D k s \<longleftrightarrow> (let h = lg_lh (klog s) in \<exists>n. lh_n h = int n \<and> cache s C D (hblk h ` {..<n}) Map.empty \<and>
     n + k \<le> 29 \<and> lg_size (klog s) = LOGSIZE \<and> 1 \<le> lg_outstanding (klog s))"

lemma log_frame_fields:
  assumes "log_frame s t"
  shows "inodes t = inodes s" "sb t = sb s" "disksize t = disksize s" "devsw t = devsw s"
  using bio_frame_eq [of "s\<lparr>klog := klog t\<rparr>" t] assms by (simp_all add: log_frame_def)

lemma in_trans_weaken: "in_trans C D k s \<Longrightarrow> j \<le> k \<Longrightarrow> in_trans C D j s"
  unfolding in_trans_def Let_def by (elim exE conjE, intro exI conjI) auto

text \<open>The buffer \<open>b\<close> of the block \<open>x\<close> is locked and unchanged.\<close>

definition reading :: "(uint \<Rightarrow> block) \<Rightarrow> (uint \<Rightarrow> block) \<Rightarrow> nat \<Rightarrow> nat \<Rightarrow> uint \<Rightarrow> kernel \<Rightarrow> bool" where
  "reading C D k b x s \<longleftrightarrow> (let h = lg_lh (klog s) in \<exists>n. lh_n h = int n \<and> cache s C D (hblk h ` {..<n}) (Map.empty(b \<mapsto> x)) \<and>
     n + k \<le> 29 \<and> lg_size (klog s) = LOGSIZE \<and> 1 \<le> lg_outstanding (klog s) \<and> (x \<in> hblk h ` {..<n} \<or> C x = D x))"

lemma trans_open:
  assumes i: "in_trans C D k s" and bn: "bn < disksize s"
  shows "\<exists>b t. bread 1 bn s = Inr (b, t) \<and> b_data (bufs t b) = C bn \<and> reading C D k b bn t \<and> bio_frame s t"
proof -
  define h where "h = lg_lh (klog s)"
  obtain n where n: "lh_n h = int n" "cache s C D (hblk h ` {..<n}) Map.empty" "n + k \<le> 29"
    "lg_size (klog s) = LOGSIZE" "1 \<le> lg_outstanding (klog s)" using i by (auto simp: in_trans_def Let_def h_def)
  have "card (hblk h ` {..<n}) < NBUF" using card_image_le [of "{..<n}" "hblk h"] n(3) by (simp add: NBUF_def)
  with bc.rd_law [OF n(2), of bn] bn obtain b t where t: "bread 1 bn s = Inr (b, t)"
    "cache t C D (hblk h ` {..<n}) (Map.empty(b \<mapsto> bn))" "bio_frame s t" by auto
  have d: "b_data (bufs t b) = C bn" using bc.dat_law [OF t(2), of b bn] by simp
  have "bn \<in> hblk h ` {..<n} \<or> C bn = D bn" using bc.clean_law [OF n(2), of bn] by auto
  then have "reading C D k b bn t" using n t(2) bio_frame_eq(2) [OF t(3)] by (auto simp: reading_def Let_def h_def)
  with t(1,3) d show ?thesis by blast
qed

lemma trans_close:
  assumes "reading C D k b x s"
  shows "\<exists>t. brelse b s = Inr t \<and> in_trans C D k t \<and> bio_frame s t"
proof -
  define h where "h = lg_lh (klog s)"
  obtain n where n: "lh_n h = int n" "cache s C D (hblk h ` {..<n}) (Map.empty(b \<mapsto> x))" "n + k \<le> 29"
    "lg_size (klog s) = LOGSIZE" "1 \<le> lg_outstanding (klog s)" "x \<in> hblk h ` {..<n} \<or> C x = D x"
    using assms by (auto simp: reading_def Let_def h_def)
  from bc.rel_law [OF n(2) _ n(6), of b] obtain t where t: "brelse b s = Inr t"
    "cache t C D (hblk h ` {..<n}) Map.empty" "bio_frame s t" by auto
  then have "in_trans C D k t" using n bio_frame_eq(2) [OF t(3)] by (auto simp: in_trans_def Let_def h_def)
  with t(1,3) show ?thesis by blast
qed

lemma trans_read:
  assumes "in_trans C D k s" "bn < disksize s"
  shows "\<exists>b t u. bread 1 bn s = Inr (b, t) \<and> b_data (bufs t b) = C bn \<and> brelse b t = Inr u \<and>
     in_trans C D k u \<and> bio_frame s t \<and> bio_frame s u"
  using trans_open [OF assms] trans_close bio_frame_trans by blast

lemma trans_write:
  assumes i: "in_trans C D (Suc k) s" and bn: "bn < disksize s"
  shows "\<exists>b t. bread 1 bn s = Inr (b, t) \<and> b_data (bufs t b) = C bn \<and> bio_frame s t \<and>
     (\<forall>v. \<exists>u w. log_write b (set_data b v t) = Inr u \<and> brelse b u = Inr w \<and> in_trans (C(bn := v)) D k w \<and> log_frame s w)"
proof -
  define h where "h = lg_lh (klog s)"
  obtain n where n: "lh_n h = int n" "cache s C D (hblk h ` {..<n}) Map.empty" "n + Suc k \<le> 29"
    "lg_size (klog s) = LOGSIZE" "1 \<le> lg_outstanding (klog s)" using i by (auto simp: in_trans_def Let_def h_def)
  have "card (hblk h ` {..<n}) < NBUF" using card_image_le [of "{..<n}" "hblk h"] n(3) by (simp add: NBUF_def)
  with bc.rd_law [OF n(2), of bn] bn obtain b t where t: "bread 1 bn s = Inr (b, t)"
    "cache t C D (hblk h ` {..<n}) (Map.empty(b \<mapsto> bn))" "bio_frame s t" by auto
  have d: "b_data (bufs t b) = C bn" using bc.dat_law [OF t(2), of b bn] by simp
  have "\<exists>u w. log_write b (set_data b v t) = Inr u \<and> brelse b u = Inr w \<and> in_trans (C(bn := v)) D k w \<and> log_frame s w" for v
  proof -
    from bc.put_law [OF t(2), of b bn v] have p: "cache (set_data b v t) (C(bn := v)) D (hblk h ` {..<n}) (Map.empty(b \<mapsto> bn))"
      "bio_frame t (set_data b v t)" by simp_all
    note fr = bio_frame_trans [OF t(3) p(2)]
    have k: "klog (set_data b v t) = klog s" using bio_frame_eq(2) [OF fr] .
    have "lh_n (lg_lh (klog s)) < LOGSIZE" "lh_n (lg_lh (klog s)) < lg_size (klog s) - 1"
      using n(1,3,4) by (auto simp: h_def LOGSIZE_def MAXOPBLOCKS_def)
    with log_write_effect [OF p(1), of b bn] n(5) obtain u where u: "log_write b (set_data b v t) = Inr u"
      "cache u (C(bn := v)) D (insert bn (hblk h ` {..<n})) (Map.empty(b \<mapsto> bn))" "log_frame (set_data b v t) u"
      "klog u = (klog s)\<lparr>lg_lh := absorb bn h\<rparr>" unfolding k by (auto simp: h_def)
    from bc.rel_law [OF u(2), of b bn] obtain w where w: "brelse b u = Inr w"
      "cache w (C(bn := v)) D (insert bn (hblk h ` {..<n})) Map.empty" "bio_frame u w" by auto
    obtain m where m: "lh_n (absorb bn h) = int m" "m \<le> Suc n" "hblk (absorb bn h) ` {..<m} = insert bn (hblk h ` {..<n})"
      using absorb_blocks [OF n(1)] by blast
    have "klog w = (klog s)\<lparr>lg_lh := absorb bn h\<rparr>" using bio_frame_eq(2) [OF w(3)] u(4) by simp
    then have "in_trans (C(bn := v)) D k w" using w(2) m n by (auto simp: in_trans_def Let_def)
    moreover have "log_frame s w"
      using log_frame_trans [OF bio_log_frame [OF fr] log_frame_trans [OF u(3) bio_log_frame [OF w(3)]]] .
    ultimately show ?thesis using u(1) w(1) by blast
  qed
  with t(1,3) d show ?thesis by blast
qed

lemma in_trans_upd_inode [simp]: "in_trans C D k (upd_inode ip f s) = in_trans C D k s"
proof -
  have "same_core s (upd_inode ip f s)" by (simp add: same_core_def upd_inode_def)
  then have "calm (upd_inode ip f s) = calm s" by (rule same_core_calm)
  then show ?thesis by (simp add: in_trans_def cache_def upd_inode_def)
qed

lemma reading_upd_inode [simp]: "reading C D k b x (upd_inode ip f s) = reading C D k b x s"
proof -
  have "same_core s (upd_inode ip f s)" by (simp add: same_core_def upd_inode_def)
  then have "calm (upd_inode ip f s) = calm s" by (rule same_core_calm)
  then show ?thesis by (simp add: reading_def cache_def upd_inode_def)
qed

subsection \<open>A file as an array of bytes\<close>

text \<open>The disk block of the \<open>b\<close>-th block of a file, and the \<open>i\<close>-th byte of a file.\<close>

definition fblk :: "(uint \<Rightarrow> block) \<Rightarrow> inode \<Rightarrow> nat \<Rightarrow> uint" where
  "fblk C r b = (if b < NDIRECT then i_addrs r b else get32 (C (i_addrs r NDIRECT)) (4 * (b - NDIRECT)))"

definition fbyte :: "(uint \<Rightarrow> block) \<Rightarrow> inode \<Rightarrow> nat \<Rightarrow> uchar" where
  "fbyte C r i = C (fblk C r (i div BSIZE)) (i mod BSIZE)"

text \<open>The first \<open>nb\<close> blocks of a file are allocated, on the disk and pairwise different.\<close>

definition file_ok :: "(uint \<Rightarrow> block) \<Rightarrow> uint \<Rightarrow> inode \<Rightarrow> nat \<Rightarrow> bool" where
  "file_ok C z r nb \<longleftrightarrow> i_dev r = 1 \<and> nb \<le> MAXFILE \<and> (\<forall>b<nb. fblk C r b \<noteq> 0 \<and> fblk C r b < z) \<and> inj_on (fblk C r) {..<nb} \<and>
     (NDIRECT < nb \<longrightarrow> i_addrs r NDIRECT \<noteq> 0 \<and> i_addrs r NDIRECT < z \<and> i_addrs r NDIRECT \<notin> fblk C r ` {..<nb})"

lemma bmap_mapped:
  assumes i: "in_trans C D k s" and f: "file_ok C (disksize s) (inodes s ip) nb" and bn: "unat bn < nb"
  shows "\<exists>t. bmap ip bn s = Inr (fblk C (inodes s ip) (unat bn), t) \<and> in_trans C D k t \<and> bio_frame s t"
proof (cases "unat bn < NDIRECT")
  case True
  then show ?thesis using f bn i by (auto simp: bmap_def Let_def file_ok_def fblk_def)
next
  case False
  let ?a = "i_addrs (inodes s ip) NDIRECT"
  have a: "?a \<noteq> 0" "?a < disksize s" "i_dev (inodes s ip) = 1" "unat bn - NDIRECT < NINDIRECT"
    using f bn False by (auto simp: file_ok_def MAXFILE_def)
  obtain b t u where t: "bread 1 ?a s = Inr (b, t)" "b_data (bufs t b) = C ?a" "brelse b t = Inr u" "in_trans C D k u"
    "bio_frame s t" "bio_frame s u" using trans_read [OF i a(2)] by blast
  have "get32 (C ?a) (4 * (unat bn - NDIRECT)) = fblk C (inodes s ip) (unat bn)" using False by (simp add: fblk_def)
  moreover have "fblk C (inodes s ip) (unat bn) \<noteq> 0" using f bn by (auto simp: file_ok_def)
  ultimately have "bmap ip bn s = Inr (fblk C (inodes s ip) (unat bn), u)"
    using False a t(1-3) by (simp add: bmap_def Let_def)
  with t(4,6) show ?thesis by blast
qed

subsection \<open>Chunks\<close>

text \<open>The loops of \<^verbatim>\<open>readi\<close> and \<^verbatim>\<open>writei\<close> cut a range at the block boundaries; the number of blocks it touches.\<close>

definition part :: "nat \<Rightarrow> nat \<Rightarrow> nat" where
  "part off n = min n (BSIZE - off mod BSIZE)"

definition touched :: "nat \<Rightarrow> nat \<Rightarrow> nat" where
  "touched off n = (if n = 0 then 0 else (off + n - 1) div BSIZE - off div BSIZE + 1)"

lemma unat_chunk: "unat (chunk left off) = part (unat off) (unat left)"
proof -
  have "unat (off mod of_nat BSIZE) = unat off mod 512" by (simp add: BSIZE_def unat_mod)
  then have "unat (of_nat BSIZE - off mod of_nat BSIZE) = 512 - unat off mod 512"
    by (subst unat_sub) (simp_all add: BSIZE_def word_le_nat_alt)
  then show ?thesis by (simp add: chunk_def Let_def part_def BSIZE_def word_less_nat_alt min_def)
qed

lemma part_pos: "0 < n \<Longrightarrow> 0 < part off n"
  by (simp add: part_def BSIZE_def)

lemma part_le: "part off n \<le> n"
  by (simp add: part_def)

lemma part_block:
  assumes "i < part off n"
  shows "(off + i) div BSIZE = off div BSIZE" "(off + i) mod BSIZE = off mod BSIZE + i"
proof -
  have "off mod 512 + i < 512" using assms by (simp add: part_def BSIZE_def less_diff_conv add.commute)
  moreover have "off + i = off div 512 * 512 + (off mod 512 + i)" by simp
  ultimately show "(off + i) div BSIZE = off div BSIZE" "(off + i) mod BSIZE = off mod BSIZE + i"
    unfolding BSIZE_def by (metis add.right_neutral div_less div_mult_self3 numeral_eq_iff semiring_norm(84) zero_neq_numeral, metis mod_less mod_mult_self3)
qed

lemma touched_part: "0 < n \<Longrightarrow> touched off n = Suc (touched (off + part off n) (n - part off n))"
proof -
  assume n: "0 < n"
  show ?thesis
  proof (cases "n \<le> BSIZE - off mod BSIZE")
    case True
    then have "part off n = n" by (simp add: part_def)
    then show ?thesis using part_block(1) [of "n - 1" off n] n by (simp add: touched_def)
  next
    case False
    then have p: "part off n = BSIZE - off mod BSIZE" by (simp add: part_def)
    have up: "r < 512 \<Longrightarrow> x * 512 + r + (512 - r) = (x + 1) * 512" for x r :: nat by simp
    have "off + (512 - off mod 512) = (off div 512 + 1) * 512" using up [of "off mod 512" "off div 512"] by (simp only: div_mult_mod_eq mod_less_divisor zero_less_numeral)
    then have d: "(off + part off n) div BSIZE = off div BSIZE + 1" unfolding p BSIZE_def by (metis nonzero_mult_div_cancel_right zero_neq_numeral)
    have "off + part off n \<le> off + n - 1" using False p by simp
    then have "(off + part off n) div BSIZE \<le> (off + n - 1) div BSIZE" by (rule div_le_mono)
    then show ?thesis using False d n p by (simp add: touched_def)
  qed
qed

lemma touched_bound:
  assumes "off + n \<le> nb * BSIZE"
  shows "touched off n \<le> nb"
proof (cases "n = 0")
  case False
  then have "off + n - 1 < nb * 512" using assms by (simp add: BSIZE_def)
  then have "(off + n - 1) div 512 < nb" by (simp add: less_mult_imp_div_less)
  then show ?thesis using False by (simp add: touched_def BSIZE_def)
qed (simp add: touched_def)

subsection \<open>Reading\<close>

lemma bytes_part:
  assumes "m \<le> part off n"
  shows "block_bytes (C (fblk C r (off div BSIZE))) (off mod BSIZE) m = map (fbyte C r) [off..<off + m]"
proof (rule nth_equalityI)
  fix i assume "i < length (block_bytes (C (fblk C r (off div BSIZE))) (off mod BSIZE) m)"
  then have i: "i < m" by (simp add: block_bytes_def)
  then show "block_bytes (C (fblk C r (off div BSIZE))) (off mod BSIZE) m ! i = map (fbyte C r) [off..<off + m] ! i"
    using part_block [of i off n] assms by (simp add: block_bytes_def fbyte_def)
qed (simp add: block_bytes_def)

lemma readi_loop_file:
  assumes "in_trans C D k s" "file_ok C (disksize s) (inodes s ip) nb" "unat off + unat left \<le> nb * BSIZE"
    and "touched (unat off) (unat left) < fuel"
  shows "\<exists>t. readi_loop fuel ip off left acc s = Inr (acc @ map (fbyte C (inodes s ip)) [unat off..<unat off + unat left], t) \<and>
     in_trans C D k t \<and> bio_frame s t"
  using assms
proof (induction fuel arbitrary: off left acc s)
  case (Suc fuel)
  let ?r = "inodes s ip"
  show ?case
  proof (cases "left = 0")
    case True
    then show ?thesis using Suc.prems(1) by (intro exI [of _ s]) simp
  next
    case False
    define m where "m = chunk left off"
    define o' where "o' = unat off"
    have n: "0 < unat left" using False by (simp add: unat_gt_0)
    have m: "unat m = part o' (unat left)" by (simp add: m_def unat_chunk o'_def)
    have mn: "0 < unat m" "unat m \<le> unat left" using m part_pos [OF n] part_le by simp_all
    have lim: "unat off + unat left \<le> 70656" using Suc.prems(2,3) by (simp add: file_ok_def MAXFILE_def NDIRECT_def NINDIRECT_def BSIZE_def)
    have um: "unat (off + m) = o' + unat m" "unat (left - m) = unat left - unat m"
      using lim mn by (simp_all add: o'_def unat_word_ariths unat_sub word_le_nat_alt)
    have bn: "unat (off div of_nat BSIZE) = o' div BSIZE" by (simp add: o'_def BSIZE_def unat_div)
    have "o' < nb * BSIZE" using Suc.prems(3) n by (simp add: o'_def)
    then have "unat (off div of_nat BSIZE) < nb" unfolding bn by (simp add: less_mult_imp_div_less)
    from bmap_mapped [OF Suc.prems(1,2) this] obtain s1 where
      s1: "bmap ip (off div of_nat BSIZE) s = Inr (fblk C ?r (o' div BSIZE), s1)" "in_trans C D k s1" "bio_frame s s1"
      unfolding bn by blast
    note e1 = bio_frame_eq(1,4) [OF s1(3)]
    have fb: "fblk C ?r (o' div BSIZE) < disksize s1" "i_dev (inodes s1 ip) = 1"
      using Suc.prems(2) \<open>unat (off div of_nat BSIZE) < nb\<close> e1 by (auto simp: file_ok_def bn)
    from trans_read [OF s1(2) fb(1)] obtain b t u where
      t: "bread 1 (fblk C ?r (o' div BSIZE)) s1 = Inr (b, t)" "b_data (bufs t b) = C (fblk C ?r (o' div BSIZE))" "brelse b t = Inr u"
        "in_trans C D k u" "bio_frame s1 u" by blast
    have fr: "bio_frame s u" using bio_frame_trans [OF s1(3) t(5)] .
    note e = bio_frame_eq(1,4) [OF fr]
    let ?acc = "acc @ map (fbyte C ?r) [o'..<o' + unat m]"
    have om: "unat (off mod of_nat BSIZE) = o' mod BSIZE" by (simp add: o'_def BSIZE_def unat_mod)
    have step: "readi_loop (Suc fuel) ip off left acc s = readi_loop fuel ip (off + m) (left - m) ?acc u"
      using False s1(1) fb(2) t(1-3) bytes_part [of "unat m" o' "unat left" C ?r] m om by (simp add: Let_def m_def [symmetric])
    have "\<exists>v. readi_loop fuel ip (off + m) (left - m) ?acc u =
        Inr (?acc @ map (fbyte C (inodes u ip)) [unat (off + m)..<unat (off + m) + unat (left - m)], v) \<and>
        in_trans C D k v \<and> bio_frame u v"
      by (rule Suc.IH [OF t(4)])
        (use Suc.prems(2-4) e um mn m touched_part [OF n, of o'] in \<open>simp_all add: o'_def\<close>)
    then obtain v where v: "readi_loop fuel ip (off + m) (left - m) ?acc u =
        Inr (?acc @ map (fbyte C ?r) [o' + unat m..<o' + unat left], v)" "in_trans C D k v" "bio_frame u v"
      using um mn e by auto
    have "[o'..<o' + unat m] @ [o' + unat m..<o' + unat left] = [o'..<o' + unat left]"
      using upt_add_eq_append [of o' "o' + unat m" "unat left - unat m"] mn by simp
    then have "?acc @ map (fbyte C ?r) [o' + unat m..<o' + unat left] = acc @ map (fbyte C ?r) [o'..<o' + unat left]"
      by (metis append.assoc map_append)
    then show ?thesis using step v(1,2) bio_frame_trans [OF fr v(3)] by (auto simp: o'_def)
  qed
qed simp

subsection \<open>Writing\<close>

text \<open>The bytes of a file after a write.\<close>

definition overlay :: "(nat \<Rightarrow> uchar) \<Rightarrow> nat \<Rightarrow> uchar list \<Rightarrow> nat \<Rightarrow> uchar" where
  "overlay f off bs i = (if off \<le> i \<and> i < off + length bs then bs ! (i - off) else f i)"

lemma overlay_Nil [simp]: "overlay f off [] = f"
  by (rule ext) (auto simp: overlay_def)

lemma overlay_split:
  assumes "m \<le> length bs"
  shows "overlay (overlay f off (take m bs)) (off + m) (drop m bs) i = overlay f off bs i"
proof (cases "off + m \<le> i \<and> i < off + length bs")
  case True
  then have "m + (i - (off + m)) = i - off" by simp
  then show ?thesis using True assms by (simp add: overlay_def)
next
  case False
  then show ?thesis using assms by (auto simp: overlay_def)
qed

text \<open>What a write of one block changes in the file: its other blocks stay, and so does the map of blocks.\<close>

lemma file_write_block:
  assumes f: "file_ok C z r nb" and b: "b < nb"
  shows "file_ok (C(fblk C r b := v)) z r nb" "\<And>c. c < nb \<Longrightarrow> fblk (C(fblk C r b := v)) r c = fblk C r c"
    "\<And>i. i < nb * BSIZE \<Longrightarrow> fbyte (C(fblk C r b := v)) r i = (if i div BSIZE = b then v (i mod BSIZE) else fbyte C r i)"
proof -
  let ?C = "C(fblk C r b := v)"
  have same: "fblk ?C r c = fblk C r c" if "c < nb" for c
  proof (cases "c < NDIRECT")
    case False
    then have "i_addrs r NDIRECT \<noteq> fblk C r b" using f b that by (auto simp: file_ok_def)
    then show ?thesis by (simp add: fblk_def)
  qed (simp add: fblk_def)
  then show "\<And>c. c < nb \<Longrightarrow> fblk ?C r c = fblk C r c" .
  have img: "fblk ?C r ` {..<nb} = fblk C r ` {..<nb}" using same by (auto intro!: image_cong)
  have "inj_on (fblk ?C r) {..<nb} = inj_on (fblk C r) {..<nb}" using same by (auto intro!: inj_on_cong)
  then show "file_ok ?C z r nb" using f same unfolding file_ok_def img by simp
  show "fbyte ?C r i = (if i div BSIZE = b then v (i mod BSIZE) else fbyte C r i)" if "i < nb * BSIZE" for i
  proof -
    have c: "i div BSIZE < nb" using that by (simp add: less_mult_imp_div_less)
    have "inj_on (fblk C r) {..<nb}" using f by (simp add: file_ok_def)
    then have "fblk C r (i div BSIZE) = fblk C r b \<longleftrightarrow> i div BSIZE = b" using c b by (auto simp: inj_on_def)
    then show ?thesis using same [OF c] by (simp add: fbyte_def)
  qed
qed

lemma fbyte_put_bytes:
  assumes f: "file_ok C z r nb" and off: "off div BSIZE < nb" "length bs \<le> part off n" and i: "i < nb * BSIZE"
  shows "fbyte (C(fblk C r (off div BSIZE) := put_bytes (off mod BSIZE) bs (C (fblk C r (off div BSIZE))))) r i =
     overlay (fbyte C r) off bs i"
proof -
  have in_block: "i div BSIZE = off div BSIZE \<and> off mod BSIZE \<le> i mod BSIZE \<and> i mod BSIZE < off mod BSIZE + length bs \<longleftrightarrow>
      off \<le> i \<and> i < off + length bs"
  proof
    assume a: "i div BSIZE = off div BSIZE \<and> off mod BSIZE \<le> i mod BSIZE \<and> i mod BSIZE < off mod BSIZE + length bs"
    have "i = i div BSIZE * BSIZE + i mod BSIZE" "off = off div BSIZE * BSIZE + off mod BSIZE" by simp_all
    with a show "off \<le> i \<and> i < off + length bs" by (metis add_le_cancel_left add_less_cancel_left add.assoc)
  next
    assume "off \<le> i \<and> i < off + length bs"
    then have "i - off < part off n" "off + (i - off) = i" "i - off < length bs" using off(2) by auto
    with part_block [of "i - off" off n]
    show "i div BSIZE = off div BSIZE \<and> off mod BSIZE \<le> i mod BSIZE \<and> i mod BSIZE < off mod BSIZE + length bs" by auto
  qed
  show ?thesis
  proof (cases "off \<le> i \<and> i < off + length bs")
    case True
    then have "i - off < part off n" "off + (i - off) = i" using off(2) by auto
    with part_block(2) [of "i - off" off n] have "i mod BSIZE - off mod BSIZE = i - off" by simp
    then show ?thesis using True in_block file_write_block(3) [OF f off(1) i] by (simp add: put_bytes_def overlay_def)
  next
    case False
    then show ?thesis using in_block file_write_block(3) [OF f off(1) i] by (auto simp: put_bytes_def overlay_def fbyte_def)
  qed
qed

lemma writei_loop_file:
  assumes "in_trans C D (touched (unat off) (length bs) + k) s" "file_ok C (disksize s) (inodes s ip) nb"
    and "unat off + length bs \<le> nb * BSIZE" "touched (unat off) (length bs) < fuel"
  shows "\<exists>C' t. writei_loop fuel ip off bs s = Inr (off + of_nat (length bs), t) \<and> in_trans C' D k t \<and> log_frame s t \<and>
     file_ok C' (disksize s) (inodes s ip) nb \<and> (\<forall>c<nb. fblk C' (inodes s ip) c = fblk C (inodes s ip) c) \<and>
     (\<forall>i < nb * BSIZE. fbyte C' (inodes s ip) i = overlay (fbyte C (inodes s ip)) (unat off) bs i) \<and>
     (\<forall>x. x \<notin> fblk C (inodes s ip) ` {..<nb} \<longrightarrow> C' x = C x)"
  using assms
proof (induction fuel arbitrary: off bs s C)
  case (Suc fuel)
  let ?r = "inodes s ip"
  show ?case
  proof (cases "bs = []")
    case True
    then show ?thesis using Suc.prems(1,2) by (intro exI [of _ C] exI [of _ s]) (simp add: touched_def)
  next
    case False
    define o' where "o' = unat off"
    define m where "m = part o' (length bs)"
    have n: "0 < length bs" using False by simp
    have mn: "0 < m" "m \<le> length bs" using part_pos [OF n] part_le by (simp_all add: m_def)
    have lim: "o' + length bs \<le> 70656"
      using Suc.prems(2,3) by (simp add: o'_def file_ok_def MAXFILE_def NDIRECT_def NINDIRECT_def BSIZE_def)
    have cm: "unat (chunk (of_nat (length bs)) off) = m" using lim by (simp add: unat_chunk unat_of_nat m_def o'_def)
    have um: "unat (off + of_nat m) = o' + m" using lim mn by (simp add: o'_def unat_word_ariths unat_of_nat)
    have bn: "unat (off div of_nat BSIZE) = o' div BSIZE" by (simp add: o'_def BSIZE_def unat_div)
    have om: "unat (off mod of_nat BSIZE) = o' mod BSIZE" by (simp add: o'_def BSIZE_def unat_mod)
    have "o' < nb * BSIZE" using Suc.prems(3) n unfolding o'_def by linarith
    then have ob: "o' div BSIZE < nb" by (simp add: less_mult_imp_div_less)
    have tp: "touched o' (length bs) = Suc (touched (o' + m) (length bs - m))" using touched_part [OF n] by (simp add: m_def)
    let ?x = "fblk C ?r (o' div BSIZE)"
    from bmap_mapped [OF Suc.prems(1,2), of "off div of_nat BSIZE"] obtain s1 where
      s1: "bmap ip (off div of_nat BSIZE) s = Inr (?x, s1)" "in_trans C D (touched o' (length bs) + k) s1" "bio_frame s s1"
      using ob unfolding bn o'_def by blast
    note e1 = bio_frame_eq(1,4) [OF s1(3)]
    have fb: "?x < disksize s1" "i_dev (inodes s1 ip) = 1" using Suc.prems(2) ob e1 by (auto simp: file_ok_def)
    have "in_trans C D (Suc (touched (o' + m) (length bs - m) + k)) s1" using s1(2) by (simp add: tp)
    from trans_write [OF this fb(1)] obtain b t where t: "bread 1 ?x s1 = Inr (b, t)" "b_data (bufs t b) = C ?x" "bio_frame s1 t"
      and w: "\<forall>v. \<exists>u w. log_write b (set_data b v t) = Inr u \<and> brelse b u = Inr w \<and>
        in_trans (C(?x := v)) D (touched (o' + m) (length bs - m) + k) w \<and> log_frame s1 w" by blast
    define v where "v = put_bytes (o' mod BSIZE) (take m bs) (C ?x)"
    define C1 where "C1 = C(?x := v)"
    from w obtain u w where u: "log_write b (set_data b v t) = Inr u" "brelse b u = Inr w"
      "in_trans C1 D (touched (o' + m) (length bs - m) + k) w" "log_frame s1 w" unfolding C1_def by blast
    have fr: "log_frame s w" using log_frame_trans [OF bio_log_frame [OF s1(3)] u(4)] .
    note e = log_frame_fields [OF fr]
    have step: "writei_loop (Suc fuel) ip off bs s = writei_loop fuel ip (off + of_nat m) (drop m bs) w"
      using False s1(1) fb(2) t(1,2) cm om u(1,2) by (simp add: Let_def v_def)
    note fw = file_write_block [OF Suc.prems(2) ob, where v = v, folded C1_def]
    have len: "length (drop m bs) = length bs - m" by simp
    have pre: "in_trans C1 D (touched (unat (off + of_nat m)) (length (drop m bs)) + k) w" "file_ok C1 (disksize w) (inodes w ip) nb"
      "unat (off + of_nat m) + length (drop m bs) \<le> nb * BSIZE" "touched (unat (off + of_nat m)) (length (drop m bs)) < fuel"
      using u(3) fw(1) Suc.prems(3,4) mn tp unfolding e um len o'_def by simp_all
    from Suc.IH [OF this] obtain C' t' where
      r: "writei_loop fuel ip (off + of_nat m) (drop m bs) w = Inr (off + of_nat m + of_nat (length bs - m), t')"
      "in_trans C' D k t'" "log_frame w t'" "file_ok C' (disksize s) ?r nb"
      "\<forall>c<nb. fblk C' ?r c = fblk C1 ?r c"
      "\<forall>i < nb * BSIZE. fbyte C' ?r i = overlay (fbyte C1 ?r) (o' + m) (drop m bs) i"
      "\<forall>x. x \<notin> fblk C1 ?r ` {..<nb} \<longrightarrow> C' x = C1 x"
      unfolding e um len by blast
    have img: "fblk C1 ?r ` {..<nb} = fblk C ?r ` {..<nb}" using fw(2) by (auto intro!: image_cong)
    have bytes: "\<forall>i < nb * BSIZE. fbyte C' ?r i = overlay (fbyte C ?r) o' bs i"
    proof (intro allI impI)
      fix i assume i: "i < nb * BSIZE"
      have "length (take m bs) \<le> part o' (length bs)" using mn by (simp add: m_def)
      from fbyte_put_bytes [OF Suc.prems(2) ob this i]
      have "fbyte C1 ?r i = overlay (fbyte C ?r) o' (take m bs) i" by (simp add: v_def C1_def)
      then have "overlay (fbyte C1 ?r) (o' + m) (drop m bs) i = overlay (overlay (fbyte C ?r) o' (take m bs)) (o' + m) (drop m bs) i"
        by (simp add: overlay_def)
      then show "fbyte C' ?r i = overlay (fbyte C ?r) o' bs i" using r(6) i overlay_split [OF mn(2)] by simp
    qed
    have lens: "off + of_nat m + of_nat (length bs - m) = off + of_nat (length bs)"
      using mn(2) by (simp add: of_nat_diff)
    have blocks: "\<forall>c<nb. fblk C' ?r c = fblk C ?r c" using r(5) fw(2) by simp
    have others: "\<forall>x. x \<notin> fblk C ?r ` {..<nb} \<longrightarrow> C' x = C x"
    proof (intro allI impI)
      fix x assume x: "x \<notin> fblk C ?r ` {..<nb}"
      then have "C' x = C1 x" using r(7) unfolding img by blast
      moreover have "x \<noteq> ?x" using x ob by blast
      ultimately show "C' x = C x" by (simp add: C1_def)
    qed
    show ?thesis
      unfolding step r(1) lens o'_def [symmetric]
      using r(2,4) log_frame_trans [OF fr r(3)] blocks bytes others by blast
  qed
qed simp

lemma iupdate_file:
  assumes i: "in_trans C D (Suc k) s" and r: "i_dev (inodes s ip) = 1" "IBLOCK (i_inum (inodes s ip)) (sb s) < disksize s"
  defines "x \<equiv> IBLOCK (i_inum (inodes s ip)) (sb s)"
  shows "\<exists>t. iupdate ip s = Inr t \<and> in_trans (C(x := put_dinode (dinode_at (i_inum (inodes s ip))) (inodes s ip) (C x))) D k t \<and>
     log_frame s t"
proof -
  from trans_write [OF i r(2)] obtain b t where t: "bread 1 x s = Inr (b, t)" "b_data (bufs t b) = C x" "bio_frame s t"
    and w: "\<forall>v. \<exists>u w. log_write b (set_data b v t) = Inr u \<and> brelse b u = Inr w \<and> in_trans (C(x := v)) D k w \<and> log_frame s w"
    unfolding x_def by blast
  have e: "inodes t = inodes s" using bio_frame_eq(4) [OF t(3)] .
  let ?v = "put_dinode (dinode_at (i_inum (inodes s ip))) (inodes s ip) (C x)"
  from w obtain u w where u: "log_write b (set_data b ?v t) = Inr u" "brelse b u = Inr w" "in_trans (C(x := ?v)) D k w" "log_frame s w"
    by blast
  have "iupdate ip s = Inr w" using t(1,2) u(1,2) r(1) e unfolding iupdate_def x_def [symmetric] by simp
  with u(3,4) show ?thesis by blast
qed

lemma sint_small: "unat (w :: uint) < 2 ^ 31 \<Longrightarrow> sint w = int (unat w)"
proof -
  assume "unat w < 2 ^ 31"
  then have "int (unat w) < 2 ^ 31" by (metis of_nat_less_iff of_nat_numeral of_nat_power)
  from sint_of_int_small [OF _ this] show ?thesis by simp
qed

text \<open>The block of the inode is none of the blocks of the file.\<close>

definition inode_apart :: "(uint \<Rightarrow> block) \<Rightarrow> uint \<Rightarrow> inode \<Rightarrow> nat \<Rightarrow> uint \<Rightarrow> bool" where
  "inode_apart C z r nb x \<longleftrightarrow> x < z \<and> x \<notin> fblk C r ` {..<nb} \<and> (NDIRECT < nb \<longrightarrow> x \<noteq> i_addrs r NDIRECT)"

lemma file_ok_cong:
  assumes "file_ok C z r nb" "inode_apart C z r nb x"
  shows "\<And>c. c < nb \<Longrightarrow> fblk (C(x := v)) (r\<lparr>i_size := n\<rparr>) c = fblk C r c" "file_ok (C(x := v)) z (r\<lparr>i_size := n\<rparr>) nb"
    "\<And>i. i < nb * BSIZE \<Longrightarrow> fbyte (C(x := v)) (r\<lparr>i_size := n\<rparr>) i = fbyte C r i"
proof -
  let ?C = "C(x := v)" and ?r = "r\<lparr>i_size := n\<rparr>"
  have same: "fblk ?C ?r c = fblk C r c" if "c < nb" for c using assms that by (auto simp: fblk_def inode_apart_def)
  then show "\<And>c. c < nb \<Longrightarrow> fblk ?C ?r c = fblk C r c" .
  have img: "fblk ?C ?r ` {..<nb} = fblk C r ` {..<nb}" using same by (auto intro!: image_cong)
  have "inj_on (fblk ?C ?r) {..<nb} = inj_on (fblk C r) {..<nb}" using same by (auto intro!: inj_on_cong)
  then show "file_ok ?C z ?r nb" using assms(1) same unfolding file_ok_def img by simp
  show "fbyte ?C ?r i = fbyte C r i" if "i < nb * BSIZE" for i
  proof -
    have c: "i div BSIZE < nb" using that by (simp add: less_mult_imp_div_less)
    then have "fblk C r (i div BSIZE) \<noteq> x" using assms(2) by (auto simp: inode_apart_def)
    then show ?thesis using same [OF c] by (simp add: fbyte_def)
  qed
qed

lemma readi_file:
  assumes "in_trans C D k s" "file_ok C (disksize s) (inodes s ip) nb" "i_type (inodes s ip) \<noteq> T_DEV"
    and "unat (i_size (inodes s ip)) \<le> nb * BSIZE" "unat off + unat n \<le> unat (i_size (inodes s ip))"
  shows "\<exists>t. readi ip off n s = Inr ((int (unat n), map (fbyte C (inodes s ip)) [unat off..<unat off + unat n]), t) \<and>
     in_trans C D k t \<and> bio_frame s t"
proof -
  let ?z = "i_size (inodes s ip)"
  have lim: "nb * BSIZE \<le> 70656" using assms(2) by (simp add: file_ok_def MAXFILE_def NDIRECT_def NINDIRECT_def BSIZE_def)
  have "unat (off + n) = unat off + unat n" using assms(4,5) lim by (simp add: unat_word_ariths)
  then have g: "\<not> (off > ?z \<or> off + n < off)" "\<not> off + n > ?z" using assms(5) by (auto simp: word_less_nat_alt)
  have nb: "unat off + unat n \<le> nb * BSIZE" using assms(4,5) by simp
  have "touched (unat off) (unat n) < MAXFILE + 2" using touched_bound [OF nb] assms(2) by (simp add: file_ok_def)
  from readi_loop_file [OF assms(1,2) nb this, of "[]"] obtain t where
    t: "readi_loop (MAXFILE + 2) ip off n [] s = Inr (map (fbyte C (inodes s ip)) [unat off..<unat off + unat n], t)"
      "in_trans C D k t" "bio_frame s t" by auto
  have "sint n = int (unat n)" by (rule sint_small) (use nb lim in simp)
  then have "readi ip off n s = Inr ((int (unat n), map (fbyte C (inodes s ip)) [unat off..<unat off + unat n]), t)"
    using assms(3) g t(1) by (simp add: readi_def Let_def del: readi_loop.simps)
  with t(2,3) show ?thesis by blast
qed

subsection \<open>A file is an array of bytes\<close>

lemma writei_file:
  assumes i: "in_trans C D (Suc (touched (unat off) (length bs))) s" and f: "file_ok C (disksize s) (inodes s ip) nb"
    and ty: "i_type (inodes s ip) \<noteq> T_DEV" and off: "off \<le> i_size (inodes s ip)" "unat off + length bs \<le> nb * BSIZE"
    and z: "unat (i_size (inodes s ip)) \<le> nb * BSIZE"
    and ap: "inode_apart C (disksize s) (inodes s ip) nb (IBLOCK (i_inum (inodes s ip)) (sb s))"
  defines "x \<equiv> IBLOCK (i_inum (inodes s ip)) (sb s)"
    and "n \<equiv> max (unat (i_size (inodes s ip))) (unat off + length bs)"
  shows "\<exists>C' t. writei ip bs off s = Inr (int (length bs), t) \<and> in_trans C' D 0 t \<and> disksize t = disksize s \<and>
     inodes t ip = (inodes s ip)\<lparr>i_size := of_nat n\<rparr> \<and> file_ok C' (disksize t) (inodes t ip) nb \<and>
     (\<forall>i < nb * BSIZE. fbyte C' (inodes t ip) i = overlay (fbyte C (inodes s ip)) (unat off) bs i) \<and>
     (\<forall>y. y \<notin> fblk C (inodes s ip) ` {..<nb} \<longrightarrow> y \<noteq> x \<longrightarrow> C' y = C y) \<and>
     C' x = (if unat (i_size (inodes s ip)) < n then put_dinode (dinode_at (i_inum (inodes s ip))) (inodes t ip) (C x) else C x)"
proof -
  let ?r = "inodes s ip" and ?n = "of_nat (length bs) :: uint"
  have lim: "nb * BSIZE \<le> 70656" using f by (simp add: file_ok_def MAXFILE_def NDIRECT_def NINDIRECT_def BSIZE_def)
  have un: "unat ?n = length bs" using off(2) lim by (simp add: unat_of_nat)
  have uo: "unat (off + ?n) = unat off + length bs" using off(2) lim by (simp add: unat_word_ariths unat_of_nat)
  have guard: "\<not> (off > i_size ?r \<or> off + ?n < off)" "\<not> off + ?n > of_nat (MAXFILE * BSIZE)"
    using off lim f uo by (auto simp: not_less word_le_nat_alt file_ok_def MAXFILE_def NDIRECT_def NINDIRECT_def BSIZE_def)
  have "touched (unat off) (length bs) < MAXFILE + 2" using touched_bound [OF off(2)] f by (simp add: file_ok_def)
  from writei_loop_file [of C D off bs 1 s ip nb, OF _ f off(2) this] i obtain C1 t where
    t: "writei_loop (MAXFILE + 2) ip off bs s = Inr (off + ?n, t)" "in_trans C1 D 1 t" "log_frame s t"
      "file_ok C1 (disksize s) ?r nb" "\<forall>c<nb. fblk C1 ?r c = fblk C ?r c"
      "\<forall>i < nb * BSIZE. fbyte C1 ?r i = overlay (fbyte C ?r) (unat off) bs i" "\<forall>x. x \<notin> fblk C ?r ` {..<nb} \<longrightarrow> C1 x = C x"
    by auto
  note e = log_frame_fields [OF t(3)]
  have sn: "sint ?n = int (length bs)" using sint_small [of ?n] un off(2) lim by simp
  have img: "fblk C1 ?r ` {..<nb} = fblk C ?r ` {..<nb}" using t(5) by (auto intro!: image_cong)
  have ap1: "inode_apart C1 (disksize s) ?r nb x" using ap unfolding inode_apart_def img x_def .
  have C1x: "C1 x = C x" using t(7) ap by (simp add: inode_apart_def x_def)
  show ?thesis
  proof (cases "unat (i_size ?r) < unat off + length bs")
    case False
    then have nn: "n = unat (i_size ?r)" "\<not> (?n > 0 \<and> off + ?n > i_size (inodes t ip))" by (auto simp: n_def word_less_nat_alt uo e)
    have rt: "inodes t ip = ?r\<lparr>i_size := of_nat n\<rparr>" by (simp add: nn(1) e)
    have w: "writei ip bs off s = Inr (int (length bs), t)"
      using ty guard t(1) nn(2) sn by (auto simp: writei_def Let_def simp del: writei_loop.simps)
    have "in_trans C1 D 0 t" using in_trans_weaken [OF t(2)] by simp
    moreover have "file_ok C1 (disksize t) (inodes t ip) nb" "\<forall>i < nb * BSIZE. fbyte C1 (inodes t ip) i = overlay (fbyte C ?r) (unat off) bs i"
      using t(4,6) e by simp_all
    ultimately show ?thesis using w rt C1x t(7) e nn(1) by (intro exI [of _ C1] exI [of _ t]) simp
  next
    case True
    then have nn: "n = unat off + length bs" "?n > 0" "off + ?n > i_size (inodes t ip)"
      using off(1) by (auto simp: n_def word_less_nat_alt word_le_nat_alt uo un e)
    have on: "off + ?n = of_nat n" by (simp add: nn(1))
    let ?u = "upd_inode ip (\<lambda>r. r\<lparr>i_size := off + ?n\<rparr>) t"
    have u: "inodes ?u ip = ?r\<lparr>i_size := of_nat n\<rparr>" "sb ?u = sb s" "disksize ?u = disksize s" by (simp_all add: upd_inode_def e on)
    have iu: "i_dev (inodes ?u ip) = 1" "IBLOCK (i_inum (inodes ?u ip)) (sb ?u) < disksize ?u"
      using f ap by (simp_all add: u file_ok_def inode_apart_def)
    have xu: "IBLOCK (i_inum (inodes ?u ip)) (sb ?u) = x" by (simp add: u x_def)
    let ?v = "put_dinode (dinode_at (i_inum ?r)) (?r\<lparr>i_size := of_nat n\<rparr>) (C x)"
    have "in_trans C1 D (Suc 0) ?u" using t(2) by simp
    from iupdate_file [OF this iu] obtain w where w: "iupdate ip ?u = Inr w" "in_trans (C1(x := ?v)) D 0 w" "log_frame ?u w"
      unfolding xu by (auto simp: u C1x)
    note ew = log_frame_fields [OF w(3)]
    note cong = file_ok_cong [OF t(4) ap1, where v = ?v and n = "of_nat n"]
    have wr: "writei ip bs off s = Inr (int (length bs), w)"
      using ty guard t(1) nn(2,3) sn w(1) by (auto simp: writei_def Let_def simp del: writei_loop.simps)
    have rw: "inodes w ip = ?r\<lparr>i_size := of_nat n\<rparr>" "disksize w = disksize s" using ew u by simp_all
    have others: "(C1(x := ?v)) y = C y" if "y \<notin> fblk C ?r ` {..<nb}" "y \<noteq> x" for y using t(7) that by simp
    have "unat (i_size ?r) < n" using True nn(1) by simp
    then show ?thesis
      using wr w(2) rw cong(2,3) t(6) others by (intro exI [of _ "C1(x := ?v)"] exI [of _ w]) simp
  qed
qed

text \<open>
  C6. Files are byte arrays: inside a transaction with room for the blocks touched and the inode, writei of bytes at an offset up to the size, over
  allocated blocks that are pairwise different and not the inode's block, returns their number, sets the size to the maximum of the old size and the
  end of the write, stores the inode when the size grew, changes no other block, and afterwards readi returns for any range of the
  file the old bytes overlaid with the written ones.
\<close>

theorem writei_readi:
  assumes "in_trans C D (Suc (touched (unat off) (length bs))) s" "file_ok C (disksize s) (inodes s ip) nb"
    and "i_type (inodes s ip) \<noteq> T_DEV" "off \<le> i_size (inodes s ip)" "unat off + length bs \<le> nb * BSIZE"
    and "unat (i_size (inodes s ip)) \<le> nb * BSIZE"
    and "inode_apart C (disksize s) (inodes s ip) nb (IBLOCK (i_inum (inodes s ip)) (sb s))"
  shows "\<exists>C' t. writei ip bs off s = Inr (int (length bs), t) \<and> in_trans C' D 0 t \<and>
     unat (i_size (inodes t ip)) = max (unat (i_size (inodes s ip))) (unat off + length bs) \<and>
     (\<forall>y. y \<notin> fblk C (inodes s ip) ` {..<nb} \<longrightarrow> y \<noteq> IBLOCK (i_inum (inodes s ip)) (sb s) \<longrightarrow> C' y = C y) \<and>
     (unat (i_size (inodes s ip)) < unat off + length bs \<longrightarrow> C' (IBLOCK (i_inum (inodes s ip)) (sb s)) =
        put_dinode (dinode_at (i_inum (inodes s ip))) (inodes t ip) (C (IBLOCK (i_inum (inodes s ip)) (sb s)))) \<and>
     (\<forall>pos n. unat pos + unat n \<le> unat (i_size (inodes t ip)) \<longrightarrow>
        (\<exists>u. readi ip pos n t =
           Inr ((int (unat n), map (overlay (fbyte C (inodes s ip)) (unat off) bs) [unat pos..<unat pos + unat n]), u)))"
proof -
  let ?r = "inodes s ip" and ?n = "max (unat (i_size (inodes s ip))) (unat off + length bs)"
  from writei_file [OF assms] obtain C' t where
    t: "writei ip bs off s = Inr (int (length bs), t)" "in_trans C' D 0 t" "inodes t ip = ?r\<lparr>i_size := of_nat ?n\<rparr>"
      "file_ok C' (disksize t) (inodes t ip) nb" "\<forall>i < nb * BSIZE. fbyte C' (inodes t ip) i = overlay (fbyte C ?r) (unat off) bs i"
      "\<forall>y. y \<notin> fblk C ?r ` {..<nb} \<longrightarrow> y \<noteq> IBLOCK (i_inum ?r) (sb s) \<longrightarrow> C' y = C y"
      "C' (IBLOCK (i_inum ?r) (sb s)) = (if unat (i_size ?r) < ?n
         then put_dinode (dinode_at (i_inum ?r)) (inodes t ip) (C (IBLOCK (i_inum ?r) (sb s))) else C (IBLOCK (i_inum ?r) (sb s)))"
    by blast
  have "nb * BSIZE \<le> 70656" using assms(2) by (simp add: file_ok_def MAXFILE_def NDIRECT_def NINDIRECT_def BSIZE_def)
  then have sz: "unat (i_size (inodes t ip)) = ?n" "?n \<le> nb * BSIZE" using assms(5,6) by (simp_all add: t(3) unat_of_nat)
  have ty: "i_type (inodes t ip) \<noteq> T_DEV" using assms(3) by (simp add: t(3))
  have "\<exists>u. readi ip pos n t = Inr ((int (unat n), map (overlay (fbyte C ?r) (unat off) bs) [unat pos..<unat pos + unat n]), u)"
    if "unat pos + unat n \<le> unat (i_size (inodes t ip))" for pos n
  proof -
    have "map (fbyte C' (inodes t ip)) [unat pos..<unat pos + unat n] = map (overlay (fbyte C ?r) (unat off) bs) [unat pos..<unat pos + unat n]"
      using t(5) that sz by (intro map_cong) auto
    with readi_file [OF t(2,4) ty _ that] sz show ?thesis by auto
  qed
  with t(1,2,6,7) sz(1) show ?thesis by (intro exI [of _ C'] exI [of _ t]) simp
qed

lemma log_inv_in_trans: "log_inv L C D [0] s \<Longrightarrow> in_trans C D 9 s"
  unfolding log_inv_def in_trans_def Let_def by (elim exE conjE, intro exI conjI) auto

text \<open>A file with one block in the transaction after booting.\<close>

definition demo_file :: "kernel \<Rightarrow> kernel" where
  "demo_file s = upd_inode 0 (\<lambda>r. r\<lparr>i_dev := 1, i_inum := 1, i_type := T_FILE, i_size := 0, i_addrs := (\<lambda>_. 0)(0 := 100)\<rparr>)
     (s\<lparr>sb := sb_of demo_sb\<rparr>)"

lemma in_trans_sb [simp]: "in_trans C D k (s\<lparr>sb := x\<rparr>) = in_trans C D k s"
proof -
  have "same_core s (s\<lparr>sb := x\<rparr>)" by (simp add: same_core_def)
  then have "calm (s\<lparr>sb := x\<rparr>) = calm s" by (rule same_core_calm)
  then show ?thesis by (simp add: in_trans_def cache_def)
qed

theorem writei_readi_witness:
  "\<exists>s t u v. initlog 1 demo_fs = Inr s \<and> begin_op s = Inr t \<and> writei 0 [7, 8, 9] 0 (demo_file t) = Inr (3, u) \<and>
     readi 0 1 2 u = Inr ((2, [8, 9]), v)"
proof -
  obtain s E where s: "initlog 1 demo_fs = Inr s" "log_inv 2 E E [] s" "disksize s = 2000" using demo_booted by blast
  from begin_op_step [OF s(2)] obtain t where t: "begin_op s = Inr t" "log_inv 2 E E [0] t" "disksize t = 2000"
    using s(3) by auto
  let ?s = "demo_file t"
  have z: "disksize ?s = 2000" "sb ?s = sb_of demo_sb" by (simp_all add: demo_file_def upd_inode_def t(3))
  have r: "i_dev (inodes ?s 0) = 1" "i_inum (inodes ?s 0) = 1" "i_type (inodes ?s 0) = T_FILE" "i_size (inodes ?s 0) = 0"
    "i_addrs (inodes ?s 0) 0 = 100" by (simp_all add: demo_file_def upd_inode_def)
  have fb: "fblk E (inodes ?s 0) 0 = 100" by (simp add: fblk_def r NDIRECT_def)
  have nb: "{..<1} = {0 :: nat}" by auto
  have tr: "in_trans E E (Suc (touched (unat 0) (length [7, 8, 9 :: uchar]))) ?s"
    using in_trans_weaken [OF log_inv_in_trans [OF t(2)], of 2] by (simp add: demo_file_def touched_def BSIZE_def numeral_2_eq_2)
  have f: "file_ok E (disksize ?s) (inodes ?s 0) 1"
    unfolding file_ok_def nb by (simp add: r fb z MAXFILE_def NDIRECT_def less_one)
  have ap: "inode_apart E (disksize ?s) (inodes ?s 0) 1 (IBLOCK (i_inum (inodes ?s 0)) (sb ?s))"
    unfolding inode_apart_def nb
    by (simp add: fb z r IBLOCK_def IPB_def BSIZE_def NDIRECT_def sb_of_def demo_sb_def get_put_apart)
  have "\<exists>C' u. writei 0 [7, 8, 9] 0 ?s = Inr (3, u) \<and> unat (i_size (inodes u 0)) = 3 \<and>
     (\<forall>pos n. unat pos + unat n \<le> unat (i_size (inodes u 0)) \<longrightarrow> (\<exists>v. readi 0 pos n u =
        Inr ((int (unat n), map (overlay (fbyte E (inodes ?s 0)) 0 [7, 8, 9]) [unat pos..<unat pos + unat n]), v)))"
    using writei_readi [OF tr f _ _ _ _ ap] by (auto simp: r T_FILE_def T_DEV_def BSIZE_def)
  then obtain u where u: "writei 0 [7, 8, 9] 0 ?s = Inr (3, u)" "unat (i_size (inodes u 0)) = 3"
     "\<forall>pos n. unat pos + unat n \<le> 3 \<longrightarrow> (\<exists>v. readi 0 pos n u =
        Inr ((int (unat n), map (overlay (fbyte E (inodes ?s 0)) 0 [7, 8, 9]) [unat pos..<unat pos + unat n]), v))" by auto
  from u(3) [rule_format, of 1 2] obtain v where "readi 0 1 2 u = Inr ((2, [8, 9]), v)"
    by (auto simp: overlay_def upt_conv_Cons)
  with s(1) t(1) u(1) show ?thesis by blast
qed

end
