(* ===== verification/Fs_Alloc.thy ===== *)
theory Fs_Alloc
  imports Fs_Inv
begin

unbundle bit_operations_syntax

section \<open>The block allocator\<close>

text \<open>
  The bitmap on the disk represents the set of the blocks in use. \<^verbatim>\<open>balloc\<close> adds the first block that is not in use and
  zeroes it, \<^verbatim>\<open>bfree\<close> removes a block.
\<close>

subsection \<open>Bits of a block\<close>

lemma byte_bits:
  fixes w :: uchar
  assumes "m < 8" "n < 8"
  shows "bit (w OR push_bit m 1) n \<longleftrightarrow> bit w n \<or> m = n" "bit (w AND NOT (push_bit m 1)) n \<longleftrightarrow> bit w n \<and> m \<noteq> n"
    "w AND push_bit n 1 = 0 \<longleftrightarrow> \<not> bit w n"
proof -
  show "bit (w OR push_bit m 1) n \<longleftrightarrow> bit w n \<or> m = n" "bit (w AND NOT (push_bit m 1)) n \<longleftrightarrow> bit w n \<and> m \<noteq> n"
    using assms by (auto simp: bit_or_iff bit_and_iff bit_not_iff bit_exp_iff)
  have "w AND push_bit n 1 = (if bit w n then push_bit n 1 else 0)"
    by (rule bit_word_eqI) (auto simp: bit_and_iff bit_exp_iff)
  then show "w AND push_bit n 1 = 0 \<longleftrightarrow> \<not> bit w n" using assms(2) by simp
qed

lemma bit_free_bit: "bit_free d bi \<longleftrightarrow> \<not> bit (d (bi div 8)) (bi mod 8)"
  unfolding bit_free_def by (rule byte_bits(3) [of 0]) simp_all

lemma same_bit: "bi = (bj :: nat) \<longleftrightarrow> bi div 8 = bj div 8 \<and> bi mod 8 = bj mod 8"
  by (metis div_mult_mod_eq)

lemma bit_free_mark: "bit_free (mark_bit bi d) bj \<longleftrightarrow> bit_free d bj \<and> bi \<noteq> bj"
  unfolding bit_free_bit mark_bit_def same_bit [of bi bj]
  using byte_bits(1) [of "bi mod 8" "bj mod 8"] by (cases "bi div 8 = bj div 8") simp_all

lemma bit_free_clear: "bit_free (clear_bit bi d) bj \<longleftrightarrow> bit_free d bj \<or> bi = bj"
  unfolding bit_free_bit clear_bit_def same_bit [of bi bj]
  using byte_bits(2) [of "bi mod 8" "bj mod 8"] by (cases "bi div 8 = bj div 8") simp_all

subsection \<open>The blocks in use\<close>

definition used :: "superblock \<Rightarrow> (uint \<Rightarrow> block) \<Rightarrow> uint set" where
  "used r C = {b. b < sb_size r \<and> \<not> bit_free (C (BBLOCK b r)) (unat b mod BPB)}"

text \<open>The bitmap lies on the disk and its own blocks are in use.\<close>

definition map_ok :: "superblock \<Rightarrow> uint \<Rightarrow> (uint \<Rightarrow> block) \<Rightarrow> bool" where
  "map_ok r z C \<longleftrightarrow> sb_size r \<le> z \<and> unat (sb_size r) < 2 ^ 31 \<and>
     (\<forall>b < sb_size r. BBLOCK b r < z \<and> BBLOCK b r \<in> used r C)"

lemma BBLOCK_eq:
  assumes "b < z" "b' < z" "unat (z :: uint) < 2 ^ 31"
  shows "BBLOCK b r = BBLOCK b' r \<longleftrightarrow> unat b div BPB = unat b' div BPB"
proof -
  have "unat (b div of_nat BPB) = unat b div BPB" "unat (b' div of_nat BPB) = unat b' div BPB"
    by (simp_all add: BPB_def BSIZE_def unat_div)
  moreover have "BBLOCK b r = BBLOCK b' r \<longleftrightarrow> b div of_nat BPB = b' div of_nat BPB" by (simp add: BBLOCK_def)
  ultimately show ?thesis by (simp only: word_unat_eq_iff)
qed

lemma same_block_bit:
  assumes "unat b div BPB = unat b' div BPB" "unat b mod BPB = unat b' mod BPB"
  shows "b = (b' :: uint)"
proof -
  have "unat b = unat b div BPB * BPB + unat b mod BPB" by simp
  also have "\<dots> = unat b' div BPB * BPB + unat b' mod BPB" by (simp only: assms)
  finally show ?thesis by (simp add: word_unat_eq_iff)
qed

lemma used_mark:
  assumes "map_ok r z C" "b < sb_size r"
  shows "used r (C(BBLOCK b r := mark_bit (unat b mod BPB) (C (BBLOCK b r)))) = insert b (used r C)"
proof -
  have z: "unat (sb_size r) < 2 ^ 31" using assms(1) by (simp add: map_ok_def)
  have "b' \<in> used r (C(BBLOCK b r := mark_bit (unat b mod BPB) (C (BBLOCK b r)))) \<longleftrightarrow> b' = b \<or> b' \<in> used r C" for b'
  proof (cases "b' < sb_size r \<and> BBLOCK b' r = BBLOCK b r")
    case True
    then have "unat b' div BPB = unat b div BPB" using BBLOCK_eq [OF _ assms(2) z] by blast
    then have "unat b mod BPB = unat b' mod BPB \<longleftrightarrow> b' = b" using same_block_bit [of b' b] by auto
    then show ?thesis using True by (auto simp: used_def bit_free_mark)
  next
    case False
    then show ?thesis using assms(2) by (auto simp: used_def)
  qed
  then show ?thesis by auto
qed

lemma used_clear:
  assumes "map_ok r z C" "b < sb_size r"
  shows "used r (C(BBLOCK b r := clear_bit (unat b mod BPB) (C (BBLOCK b r)))) = used r C - {b}"
proof -
  have z: "unat (sb_size r) < 2 ^ 31" using assms(1) by (simp add: map_ok_def)
  have "b' \<in> used r (C(BBLOCK b r := clear_bit (unat b mod BPB) (C (BBLOCK b r)))) \<longleftrightarrow> b' \<noteq> b \<and> b' \<in> used r C" for b'
  proof (cases "b' < sb_size r \<and> BBLOCK b' r = BBLOCK b r")
    case True
    then have "unat b' div BPB = unat b div BPB" using BBLOCK_eq [OF _ assms(2) z] by blast
    then have "unat b mod BPB = unat b' mod BPB \<longleftrightarrow> b' = b" using same_block_bit [of b' b] by auto
    then show ?thesis using True by (auto simp: used_def bit_free_clear)
  next
    case False
    then show ?thesis using assms(2) by (auto simp: used_def)
  qed
  then show ?thesis by auto
qed

text \<open>A change of a block outside the bitmap.\<close>

lemma used_other: "(\<And>b. b < sb_size r \<Longrightarrow> BBLOCK b r \<noteq> x) \<Longrightarrow> used r (C(x := v)) = used r C"
  by (auto simp: used_def)

subsection \<open>balloc\<close>

lemma balloc_bit_cases:
  assumes "unat b + bi + k < 2 ^ 32"
  shows "case balloc_bit k bi b sz d of
      Some j \<Rightarrow> bi \<le> j \<and> j < bi + k \<and> b + of_nat j < sz \<and> bit_free d j \<and> (\<forall>i. bi \<le> i \<and> i < j \<longrightarrow> \<not> bit_free d i)
    | None \<Rightarrow> \<forall>i. bi \<le> i \<and> i < bi + k \<and> b + of_nat i < sz \<longrightarrow> \<not> bit_free d i"
  using assms
proof (induction k arbitrary: bi)
  case (Suc k)
  have up: "b + of_nat i < sz \<longleftrightarrow> unat b + i < unat sz" if "i \<le> bi + k" for i
  proof -
    have "unat (b + of_nat i) = unat b + i" using Suc.prems that by (simp add: unat_word_ariths unat_of_nat)
    then show ?thesis by (simp add: word_less_nat_alt)
  qed
  show ?case
  proof (cases "b + of_nat bi < sz \<and> \<not> bit_free d bi")
    case True
    then have s: "balloc_bit (Suc k) bi b sz d = balloc_bit k (Suc bi) b sz d" by simp
    have split: "bi \<le> i \<longleftrightarrow> i = bi \<or> Suc bi \<le> i" for i by auto
    show ?thesis
    proof (cases "balloc_bit k (Suc bi) b sz d")
      case None
      then show ?thesis using Suc.IH [of "Suc bi"] Suc.prems True unfolding s by (auto simp: split)
    next
      case (Some j)
      then show ?thesis using Suc.IH [of "Suc bi"] Suc.prems True unfolding s by (auto simp: split)
    qed
  next
    case False
    show ?thesis
    proof (cases "b + of_nat bi < sz")
      case True
      then show ?thesis using False by auto
    next
      case out: False
      have "\<not> b + of_nat i < sz" if "bi \<le> i" "i < bi + Suc k" for i using out up [of i] up [of bi] that by simp
      then show ?thesis using out by auto
    qed
  qed
qed auto

definition zeroed :: "block \<Rightarrow> block" where
  "zeroed d = (\<lambda>i. if i < BSIZE then 0 else d i)"

lemma bzero_step:
  assumes "in_trans C D (Suc k) s" "x < disksize s"
  shows "\<exists>t. bzero 1 x s = Inr t \<and> in_trans (C(x := zeroed (C x))) D k t \<and> log_frame s t"
proof -
  from trans_write [OF assms] obtain b t where t: "bread 1 x s = Inr (b, t)" "b_data (bufs t b) = C x"
    and w: "\<forall>v. \<exists>u w. log_write b (set_data b v t) = Inr u \<and> brelse b u = Inr w \<and> in_trans (C(x := v)) D k w \<and> log_frame s w" by blast
  from w obtain u w where u: "log_write b (set_data b (zeroed (C x)) t) = Inr u" "brelse b u = Inr w"
    "in_trans (C(x := zeroed (C x))) D k w" "log_frame s w" by blast
  have "(\<lambda>i. if i < BSIZE then 0 else b_data (bufs t b) i) = zeroed (C x)" by (rule ext) (simp add: zeroed_def t(2))
  then have "bzero 1 x s = Inr w" using t(1) u(1,2) by (simp add: bzero_def)
  with u(3,4) show ?thesis by blast
qed

text \<open>The contents after \<^verbatim>\<open>balloc\<close> has taken the block \<open>x\<close>.\<close>

definition taken :: "superblock \<Rightarrow> uint \<Rightarrow> (uint \<Rightarrow> block) \<Rightarrow> uint \<Rightarrow> block" where
  "taken r x C = C(BBLOCK x r := mark_bit (unat x mod BPB) (C (BBLOCK x r)), x := zeroed (C x))"

lemma balloc_loop_takes:
  assumes "in_trans C D (Suc (Suc k)) s" "map_ok (sb s) (disksize s) C" "unat b = BPB * c"
    and "unat (sb_size (sb s)) \<le> unat b + BPB * n" "n < fuel" "\<forall>y < b. y < sb_size (sb s) \<longrightarrow> y \<in> used (sb s) C"
  shows "if \<forall>y < sb_size (sb s). y \<in> used (sb s) C
     then balloc_loop fuel 1 b s = Inl (Panic ''balloc: out of blocks'')
     else \<exists>x t. balloc_loop fuel 1 b s = Inr (x, t) \<and> x < sb_size (sb s) \<and> x \<notin> used (sb s) C \<and> (\<forall>y<x. y \<in> used (sb s) C) \<and>
       in_trans (taken (sb s) x C) D k t \<and> log_frame s t"
  using assms
proof (induction fuel arbitrary: b c n s)
  case (Suc fuel)
  let ?r = "sb s" and ?z = "sb_size (sb s)"
  note m = Suc.prems(2)
  have z: "unat ?z < 2 ^ 31" using m by (simp add: map_ok_def)
  show ?case
  proof (cases "b < ?z")
    case False
    then have "\<forall>y < ?z. y \<in> used ?r C" using Suc.prems(6) by auto
    then show ?thesis using False by simp
  next
    case True
    have ub: "unat b < 2 ^ 31" "unat b mod BPB = 0" using True z Suc.prems(3) by (simp_all add: word_less_nat_alt)
    have bb: "BBLOCK b ?r < disksize s" "BBLOCK b ?r \<in> used ?r C" using m True by (auto simp: map_ok_def)
    have bits: "case balloc_bit BPB 0 b ?z (C (BBLOCK b ?r)) of
        Some j \<Rightarrow> 0 \<le> j \<and> j < 0 + BPB \<and> b + of_nat j < ?z \<and> bit_free (C (BBLOCK b ?r)) j \<and> (\<forall>i. 0 \<le> i \<and> i < j \<longrightarrow> \<not> bit_free (C (BBLOCK b ?r)) i)
      | None \<Rightarrow> \<forall>i. 0 \<le> i \<and> i < 0 + BPB \<and> b + of_nat i < ?z \<longrightarrow> \<not> bit_free (C (BBLOCK b ?r)) i"
      by (rule balloc_bit_cases) (use ub in \<open>simp add: BPB_def BSIZE_def\<close>)
    have uj: "unat (b + of_nat j) = unat b + j" if "j < BPB" for j
      using ub that by (simp add: unat_word_ariths unat_of_nat BPB_def BSIZE_def)
    have dm: "(unat b + j) div BPB = unat b div BPB" "(unat b + j) mod BPB = j" if "j < BPB" for j
      using that Suc.prems(3) by (simp_all add: BPB_def BSIZE_def)
    have us: "b + of_nat j \<in> used ?r C \<longleftrightarrow> \<not> bit_free (C (BBLOCK b ?r)) j" if "j < BPB" "b + of_nat j < ?z" for j
    proof -
      have "BBLOCK (b + of_nat j) ?r = BBLOCK b ?r" using BBLOCK_eq [OF that(2) True z] uj [OF that(1)] dm(1) [OF that(1)] by simp
      then show ?thesis using that uj [OF that(1)] dm(2) [OF that(1)] by (simp add: used_def)
    qed
    have inside: "\<exists>j < BPB. y = b + of_nat j" if "b \<le> y" "unat y < unat b + BPB" for y
    proof -
      have "unat y - unat b < BPB" "unat b \<le> unat y" using that by (simp_all add: word_le_nat_alt)
      moreover from this have "y = b + of_nat (unat y - unat b)" using uj [of "unat y - unat b"] by (simp add: word_unat_eq_iff)
      ultimately show ?thesis by blast
    qed
    show ?thesis
    proof (cases "balloc_bit BPB 0 b ?z (C (BBLOCK b ?r))")
      case None
      have i: "in_trans C D (Suc (Suc k)) s" by (rule Suc.prems(1))
      from trans_read [OF i bb(1)] obtain p t u where t: "bread 1 (BBLOCK b ?r) s = Inr (p, t)" "b_data (bufs t p) = C (BBLOCK b ?r)"
        "brelse p t = Inr u" "in_trans C D (Suc (Suc k)) u" "bio_frame s t" "bio_frame s u" by blast
      note e = bio_frame_eq(1,3) [OF t(6)] and et = bio_frame_eq(3) [OF t(5)]
      have step: "balloc_loop (Suc fuel) 1 b s = balloc_loop fuel 1 (b + of_nat BPB) u"
        using True t(1-3) None et by simp
      have ub': "unat (b + of_nat BPB) = unat b + BPB" using ub by (simp add: unat_word_ariths BPB_def BSIZE_def)
      have n: "n = Suc (n - 1)" using Suc.prems(4) True by (cases n) (simp_all add: word_less_nat_alt)
      have full: "\<forall>y < b + of_nat BPB. y < ?z \<longrightarrow> y \<in> used ?r C"
      proof (intro allI impI)
        fix y assume y: "y < b + of_nat BPB" "y < ?z"
        show "y \<in> used ?r C"
        proof (cases "y < b")
          case False
          then obtain j where j: "j < BPB" "y = b + of_nat j" using inside [of y] y(1) ub' by (auto simp: word_less_nat_alt not_less word_le_nat_alt)
          then have "\<not> bit_free (C (BBLOCK b ?r)) j" using bits None y(2) by auto
          then show ?thesis using us [OF j(1)] y(2) j(2) by simp
        qed (use Suc.prems(6) y(2) in blast)
      qed
      have "if \<forall>y < sb_size (sb u). y \<in> used (sb u) C
        then balloc_loop fuel 1 (b + of_nat BPB) u = Inl (Panic ''balloc: out of blocks'')
        else \<exists>x t. balloc_loop fuel 1 (b + of_nat BPB) u = Inr (x, t) \<and> x < sb_size (sb u) \<and> x \<notin> used (sb u) C \<and>
          (\<forall>y<x. y \<in> used (sb u) C) \<and> in_trans (taken (sb u) x C) D k t \<and> log_frame u t"
      proof (rule Suc.IH [OF t(4), of "b + of_nat BPB" "Suc c" "n - 1"])
        show "unat (sb_size (sb u)) \<le> unat (b + of_nat BPB) + BPB * (n - 1)"
          using Suc.prems(4) n unfolding ub' e by (metis add.assoc mult_Suc_right)
      qed (use Suc.prems(2,3,5) e ub' n full in simp_all)
      then show ?thesis
        unfolding step e using log_frame_trans [OF bio_log_frame [OF t(6)]] by (auto split: if_splits)
    next
      case (Some j)
      then have j: "j < BPB" "b + of_nat j < ?z" "bit_free (C (BBLOCK b ?r)) j" "\<forall>i<j. \<not> bit_free (C (BBLOCK b ?r)) i"
        using bits by auto
      let ?x = "b + of_nat j"
      have free: "?x \<notin> used ?r C" using us [OF j(1,2)] j(3) by simp
      have xb: "BBLOCK ?x ?r = BBLOCK b ?r" using BBLOCK_eq [OF j(2) True z] uj [OF j(1)] dm(1) [OF j(1)] by simp
      have xm: "unat ?x mod BPB = j" using uj [OF j(1)] dm(2) [OF j(1)] by simp
      have first: "y \<in> used ?r C" if "y < ?x" for y
      proof (cases "y < b")
        case True
        moreover have "y < ?z" using that j(2) by simp
        ultimately show ?thesis using Suc.prems(6) by blast
      next
        case False
        have "unat y < unat b + j" using that uj [OF j(1)] by (simp add: word_less_nat_alt)
        then obtain i where i: "i < BPB" "y = b + of_nat i" using inside [of y] False j(1) by (auto simp: not_less)
        then have "i < j" using uj [OF i(1)] \<open>unat y < unat b + j\<close> by simp
        then show ?thesis using us [OF i(1)] i(2) j(4) that j(2) by auto
      qed
      from trans_write [OF Suc.prems(1) bb(1)] obtain p t where
        t: "bread 1 (BBLOCK b ?r) s = Inr (p, t)" "b_data (bufs t p) = C (BBLOCK b ?r)" "bio_frame s t"
        and w: "\<forall>v. \<exists>u w. log_write p (set_data p v t) = Inr u \<and> brelse p u = Inr w \<and>
          in_trans (C(BBLOCK b ?r := v)) D (Suc k) w \<and> log_frame s w" by blast
      define v where "v = mark_bit j (C (BBLOCK b ?r))"
      from w obtain u w where u: "log_write p (set_data p v t) = Inr u" "brelse p u = Inr w"
        "in_trans (C(BBLOCK b ?r := v)) D (Suc k) w" "log_frame s w" by blast
      note e = log_frame_fields [OF u(4)] and et = bio_frame_eq(3) [OF t(3)]
      have "?x < disksize w" using j(2) m by (auto simp: map_ok_def e)
      from bzero_step [OF u(3) this] obtain t' where t': "bzero 1 ?x w = Inr t'"
        "in_trans ((C(BBLOCK b ?r := v))(?x := zeroed ((C(BBLOCK b ?r := v)) ?x))) D k t'" "log_frame w t'" by blast
      have ne: "?x \<noteq> BBLOCK b ?r" using free bb(2) by auto
      have tk: "(C(BBLOCK b ?r := v))(?x := zeroed ((C(BBLOCK b ?r := v)) ?x)) = taken ?r ?x C"
        using ne by (simp add: taken_def xb xm v_def)
      have "balloc_loop (Suc fuel) 1 b s = Inr (?x, t')"
        using True t(1,2) Some et u(1,2) t'(1) by (simp add: v_def)
      moreover have "in_trans (taken ?r ?x C) D k t'" using t'(2) unfolding tk .
      ultimately show ?thesis
        using j(2) free first log_frame_trans [OF u(4) t'(3)] by auto
    qed
  qed
qed simp

lemma used_taken:
  assumes m: "map_ok r z C" and x: "x < sb_size r" "x \<notin> used r C"
  shows "used r (taken r x C) = insert x (used r C)"
proof -
  have "BBLOCK b r \<noteq> x" if "b < sb_size r" for b using m x that by (auto simp: map_ok_def)
  then show ?thesis using used_other used_mark [OF m x(1)] by (simp add: taken_def)
qed

lemma bfree_step:
  assumes i: "in_trans C D (Suc k) s" and m: "map_ok (sb s) (disksize s) C" and sb: "sb_of (C 1) = sb s" "1 < disksize s"
    and b: "b < sb_size (sb s)"
  shows "if b \<in> used (sb s) C
     then \<exists>t. bfree 1 b s = Inr t \<and> log_frame s t \<and>
       in_trans (C(BBLOCK b (sb s) := clear_bit (unat b mod BPB) (C (BBLOCK b (sb s))))) D k t
     else bfree 1 b s = Inl (Panic ''freeing free block'')"
proof -
  from trans_read [OF i sb(2)] obtain p t u where t: "bread 1 1 s = Inr (p, t)" "b_data (bufs t p) = C 1" "brelse p t = Inr u"
    "in_trans C D (Suc k) u" "bio_frame s u" by blast
  have e: "u\<lparr>sb := sb s\<rparr> = u" "disksize u = disksize s" "sb u = sb s" using bio_frame_eq(1,3) [OF t(5)] by simp_all
  have "BBLOCK b (sb s) < disksize u" using m b e by (simp add: map_ok_def)
  from trans_write [OF t(4) this] obtain p' t' where t': "bread 1 (BBLOCK b (sb s)) u = Inr (p', t')"
      "b_data (bufs t' p') = C (BBLOCK b (sb s))" "bio_frame u t'"
    and w: "\<forall>v. \<exists>u' w. log_write p' (set_data p' v t') = Inr u' \<and> brelse p' u' = Inr w \<and>
      in_trans (C(BBLOCK b (sb s) := v)) D k w \<and> log_frame u w" by blast
  have start: "bfree 1 b s = (if bit_free (C (BBLOCK b (sb s))) (unat b mod BPB) then Inl (Panic ''freeing free block'')
      else rbind (log_write p' (set_data p' (clear_bit (unat b mod BPB) (C (BBLOCK b (sb s)))) t')) (brelse p'))"
    using t(1-3) t'(1,2) sb(1) e(3) by (simp add: bfree_def readsb_def Let_def e(1))
  from w obtain u' w where "log_write p' (set_data p' (clear_bit (unat b mod BPB) (C (BBLOCK b (sb s)))) t') = Inr u'" "brelse p' u' = Inr w"
    "in_trans (C(BBLOCK b (sb s) := clear_bit (unat b mod BPB) (C (BBLOCK b (sb s))))) D k w" "log_frame u w" by blast
  then show ?thesis using start b log_frame_trans [OF bio_log_frame [OF t(5)]] by (auto simp: used_def)
qed

text \<open>
  C7. The block allocator implements a set of used blocks on its bitmap: balloc panics exactly when every block is in use, and otherwise returns the
  first block that is not, adds exactly it to the set, zeroes it and changes no block other than it and its bitmap block; bfree panics exactly on a block
  that is not in use, and otherwise removes exactly this block from the set and changes only its bitmap block.
\<close>

theorem block_allocator:
  assumes "in_trans C D (Suc (Suc k)) s" "map_ok (sb s) (disksize s) C"
  shows "(if \<forall>y < sb_size (sb s). y \<in> used (sb s) C then balloc 1 s = Inl (Panic ''balloc: out of blocks'')
      else \<exists>x C' t. balloc 1 s = Inr (x, t) \<and> x < sb_size (sb s) \<and> x \<notin> used (sb s) C \<and> (\<forall>y<x. y \<in> used (sb s) C) \<and>
        in_trans C' D k t \<and> used (sb s) C' = insert x (used (sb s) C) \<and> (\<forall>i<BSIZE. C' x i = 0) \<and>
        (\<forall>y. y \<noteq> x \<longrightarrow> y \<noteq> BBLOCK x (sb s) \<longrightarrow> C' y = C y)) \<and>
     (\<forall>b < sb_size (sb s). sb_of (C 1) = sb s \<and> 1 < disksize s \<longrightarrow>
       (if b \<notin> used (sb s) C then bfree 1 b s = Inl (Panic ''freeing free block'')
        else \<exists>C' t. bfree 1 b s = Inr t \<and> in_trans C' D k t \<and> used (sb s) C' = used (sb s) C - {b} \<and>
          (\<forall>y. y \<noteq> BBLOCK b (sb s) \<longrightarrow> C' y = C y)))"
proof -
  let ?r = "sb s" and ?z = "sb_size (sb s)"
  have z: "unat ?z < 2 ^ 31" using assms(2) by (simp add: map_ok_def)
  have n: "unat ?z \<le> unat (0 :: uint) + BPB * (2 ^ 20 - 1)" "2 ^ 20 - 1 < (2 ^ 20 :: nat)" using z by (simp_all add: BPB_def BSIZE_def)
  have loop: "if \<forall>y < ?z. y \<in> used ?r C then balloc 1 s = Inl (Panic ''balloc: out of blocks'')
     else \<exists>x t. balloc 1 s = Inr (x, t) \<and> x < ?z \<and> x \<notin> used ?r C \<and> (\<forall>y<x. y \<in> used ?r C) \<and>
       in_trans (taken ?r x C) D k t \<and> log_frame s t"
    unfolding balloc_def by (rule balloc_loop_takes [OF assms _ n, of 0]) simp_all
  have alloc: "if \<forall>y < ?z. y \<in> used ?r C then balloc 1 s = Inl (Panic ''balloc: out of blocks'')
     else \<exists>x C' t. balloc 1 s = Inr (x, t) \<and> x < ?z \<and> x \<notin> used ?r C \<and> (\<forall>y<x. y \<in> used ?r C) \<and>
       in_trans C' D k t \<and> used ?r C' = insert x (used ?r C) \<and> (\<forall>i<BSIZE. C' x i = 0) \<and>
       (\<forall>y. y \<noteq> x \<longrightarrow> y \<noteq> BBLOCK x ?r \<longrightarrow> C' y = C y)"
  proof (cases "\<forall>y < ?z. y \<in> used ?r C")
    case False
    with loop obtain x t where x: "balloc 1 s = Inr (x, t)" "x < ?z" "x \<notin> used ?r C" "\<forall>y<x. y \<in> used ?r C"
      "in_trans (taken ?r x C) D k t" by (auto split: if_splits)
    have "\<forall>i<BSIZE. taken ?r x C x i = 0" "\<forall>y. y \<noteq> x \<longrightarrow> y \<noteq> BBLOCK x ?r \<longrightarrow> taken ?r x C y = C y"
      by (simp_all add: taken_def zeroed_def)
    with x used_taken [OF assms(2) x(2,3)] show ?thesis unfolding if_not_P [OF False] by blast
  qed (use loop in simp)
  have "if b \<notin> used ?r C then bfree 1 b s = Inl (Panic ''freeing free block'')
     else \<exists>C' t. bfree 1 b s = Inr t \<and> in_trans C' D k t \<and> used ?r C' = used ?r C - {b} \<and> (\<forall>y. y \<noteq> BBLOCK b ?r \<longrightarrow> C' y = C y)"
    if b: "b < ?z" "sb_of (C 1) = ?r" "1 < disksize s" for b
  proof -
    have i: "in_trans C D (Suc k) s" by (rule in_trans_weaken [OF assms(1)]) simp
    show ?thesis
    proof (cases "b \<in> used ?r C")
      case True
      define C' where "C' = C(BBLOCK b ?r := clear_bit (unat b mod BPB) (C (BBLOCK b ?r)))"
      obtain t where "bfree 1 b s = Inr t" "in_trans C' D k t"
        using bfree_step [OF i assms(2) b(2,3,1)] unfolding if_P [OF True] C'_def by blast
      moreover have "used ?r C' = used ?r C - {b}" using used_clear [OF assms(2) b(1)] by (simp add: C'_def)
      moreover have "\<forall>y. y \<noteq> BBLOCK b ?r \<longrightarrow> C' y = C y" by (simp add: C'_def)
      ultimately show ?thesis using True unfolding not_not by (simp only: if_False not_True_eq_False simp_thms) blast
    next
      case False
      then show ?thesis using bfree_step [OF i assms(2) b(2,3,1)] by simp
    qed
  qed
  with alloc show ?thesis by blast
qed

lemma log_inv_in_trans1: "log_inv L C D [1] s \<Longrightarrow> in_trans C D 8 s"
  unfolding log_inv_def in_trans_def Let_def by (elim exE conjE, intro exI conjI) auto

text \<open>A disk of 200 blocks with the bitmap in block 100, where the first 104 blocks are in use.\<close>

definition demo_map_sb :: superblock where
  "demo_map_sb = (sb_of demo_sb)\<lparr>sb_size := 200, sb_bmapstart := 100\<rparr>"

definition demo_map :: block where
  "demo_map = (\<lambda>i. if i < 13 then - 1 else 0)"

lemma demo_map_used:
  assumes "C 100 = demo_map"
  shows "used demo_map_sb C = {y. y < 104}"
proof -
  have B: "BBLOCK y demo_map_sb = 100" "unat y mod BPB = unat y" if "y < 200" for y
  proof -
    have u: "unat y < 200" using that by (simp add: word_less_nat_alt)
    then have "unat (y div of_nat BPB) = 0" by (simp add: unat_div BPB_def BSIZE_def)
    then have "y div of_nat BPB = 0" by (simp only: unat_eq_0)
    then show "BBLOCK y demo_map_sb = 100" by (simp add: BBLOCK_def demo_map_sb_def)
    show "unat y mod BPB = unat y" using u by (simp add: BPB_def BSIZE_def)
  qed
  have "bit (demo_map (n div 8)) (n mod 8) \<longleftrightarrow> n < 104" for n
  proof -
    have "bit (demo_map (n div 8)) (n mod 8) \<longleftrightarrow> n div 8 < 13" by (simp add: demo_map_def)
    also have "\<dots> \<longleftrightarrow> n < 104" by (simp add: div_less_iff_less_mult)
    finally show ?thesis .
  qed
  then have "y < 200 \<and> \<not> bit_free (C (BBLOCK y demo_map_sb)) (unat y mod BPB) \<longleftrightarrow> y < 104" for y
  proof (cases "y < 200")
    case True
    then show ?thesis using B [of y] \<open>\<And>n. bit (demo_map (n div 8)) (n mod 8) \<longleftrightarrow> n < 104\<close> [of "unat y"]
      by (simp add: bit_free_bit assms word_less_nat_alt)
  next
    case False
    then show ?thesis by (simp add: word_less_nat_alt)
  qed
  then show ?thesis by (auto simp: used_def demo_map_sb_def)
qed

theorem block_allocator_witness:
  "\<exists>s t u v. initlog 1 demo_fs = Inr s \<and> begin_op s = Inr t \<and> write_block 100 demo_map t = Inr u \<and>
     balloc 1 (u\<lparr>sb := demo_map_sb\<rparr>) = Inr (104, v)"
proof -
  obtain s E where s: "initlog 1 demo_fs = Inr s" "log_inv 2 E E [] s" "disksize s = 2000" using demo_booted by blast
  from begin_op_step [OF s(2)] obtain t where t: "begin_op s = Inr t" "log_inv 2 E E [0] t" "disksize t = 2000"
    using s(3) by auto
  have "data_block 2 (disksize t) 100" using demo_geom(2) by (simp add: t(3))
  from write_block_step [OF t(2) _ _ this, of 0 demo_map] obtain u where u: "write_block 100 demo_map t = Inr u"
    "log_inv 2 (E(100 := demo_map)) E [1] u" "disksize u = 2000" by (auto simp: t(3))
  let ?s = "u\<lparr>sb := demo_map_sb\<rparr>" and ?C = "E(100 := demo_map)"
  have us: "used (sb ?s) ?C = {y. y < 104}" using demo_map_used [of ?C] by simp
  have bb: "BBLOCK b demo_map_sb = 100" if "b < 200" for b
  proof -
    have "unat (b div of_nat BPB) = 0" using that by (simp add: unat_div BPB_def BSIZE_def word_less_nat_alt)
    then show ?thesis by (simp add: BBLOCK_def demo_map_sb_def unat_eq_0)
  qed
  have m: "map_ok (sb ?s) (disksize ?s) ?C" unfolding map_ok_def us using bb by (simp add: u(3)) (simp add: demo_map_sb_def)
  have i: "in_trans ?C E (Suc (Suc 6)) ?s" using log_inv_in_trans1 [OF u(2)] by (simp add: eval_nat_numeral)
  have nf: "\<not> (\<forall>y < sb_size (sb ?s). y \<in> used (sb ?s) ?C)"
  proof -
    have "(104 :: uint) < sb_size (sb ?s)" "104 \<notin> used (sb ?s) ?C" unfolding us by (simp_all add: demo_map_sb_def)
    then show ?thesis by blast
  qed
  obtain x v where x: "balloc 1 ?s = Inr (x, v)" "x \<notin> used (sb ?s) ?C" "\<forall>y<x. y \<in> used (sb ?s) ?C"
    using conjunct1 [OF block_allocator [OF i m]] unfolding if_not_P [OF nf] by blast
  have "\<not> x < 104" using x(2) unfolding us by simp
  moreover have "\<not> 104 < x" using x(3) unfolding us by blast
  ultimately have "x = 104" by (metis linorder_neqE)
  with s(1) t(1) u(1) x(1) show ?thesis by blast
qed

end
