(* ===== verification/Fs_Icache.thy ===== *)
theory Fs_Icache
  imports Fs_Alloc
begin

section \<open>Inodes on the disk\<close>

text \<open>\<^verbatim>\<open>iupdate\<close> stores an inode in its slot of the inode blocks, and \<^verbatim>\<open>ilock\<close> reads it back.\<close>

lemma get_put_dinode:
  "get_dinode p (put_dinode p r d) q = q\<lparr>i_type := i_type r, i_major := i_major r, i_minor := i_minor r, i_nlink := i_nlink r,
     i_size := i_size r, i_uid := i_uid r, i_gid := i_gid r, i_mode := i_mode r,
     i_addrs := (\<lambda>i. if i \<le> NDIRECT then i_addrs r i else i_addrs q i)\<rparr>"
  unfolding get_dinode_def put_dinode_def
  by (simp add: get_put_apart get_put_array_apart get32_put_array less_Suc_eq_le fun_eq_iff)

lemma put_dinode_other: "i < p \<or> p + 64 \<le> i \<Longrightarrow> put_dinode p r d i = d i"
  unfolding put_dinode_def by (auto simp: put_array_other put32_other put16_other NDIRECT_def)

lemma get_dinode_cong:
  assumes "\<And>i. p \<le> i \<Longrightarrow> i < p + 64 \<Longrightarrow> d i = d' i"
  shows "get_dinode p d q = get_dinode p d' q"
proof -
  have g: "get16 d (p + j) = get16 d' (p + j)" if "j + 2 \<le> 64" for j using that assms by (simp add: get16_def)
  have h: "get32 d (p + j) = get32 d' (p + j)" if "j + 4 \<le> 64" for j using that assms by (simp add: get32_def)
  have "get16 d p = get16 d' p" using g [of 0] by simp
  moreover have "get32 d (p + 20 + 4 * i) = get32 d' (p + 20 + 4 * i)" if "i \<le> NDIRECT" for i
    using h [of "20 + 4 * i"] that by (simp add: NDIRECT_def add.assoc)
  ultimately show ?thesis using g [of 2] g [of 4] g [of 6] g [of 8] g [of 10] h [of 12] h [of 16] by (simp add: get_dinode_def fun_eq_iff)
qed

lemma get_dinode_apart:
  assumes "m \<noteq> n"
  shows "get_dinode (64 * m) (put_dinode (64 * n) r d) q = get_dinode (64 * m) d q"
proof (rule get_dinode_cong)
  fix i assume i: "64 * m \<le> i" "i < 64 * m + 64"
  have "m < n \<or> n < m" using assms by auto
  then have "i < 64 * n \<or> 64 * n + 64 \<le> i" using i by auto
  then show "put_dinode (64 * n) r d i = d i" by (rule put_dinode_other)
qed

lemma in_trans_quiet: "quiet s t \<Longrightarrow> in_trans C D k s \<Longrightarrow> in_trans C D k t"
  using cache_quiet quiet_eq(15) by (auto simp: in_trans_def Let_def quiet_eq)

lemma upd_inode_acquired: "upd_inode ip f (acquired l s) = acquired l (upd_inode ip f s)"
  by (simp add: upd_inode_def acquired_def pushcli_def upd_cpu_def)

lemma ilock_reads:
  assumes i: "in_trans C D k s" and r: "1 \<le> i_ref (inodes s ip)" "\<not> i_busy (inodes s ip)" "\<not> i_valid (inodes s ip)"
    "i_dev (inodes s ip) = 1" "IBLOCK (i_inum (inodes s ip)) (sb s) < disksize s"
  defines "q \<equiv> get_dinode (dinode_at (i_inum (inodes s ip))) (C (IBLOCK (i_inum (inodes s ip)) (sb s))) (inodes s ip)"
  assumes ty: "i_type q \<noteq> 0"
  shows "\<exists>t. ilock (Some ip) s = Inr t \<and> in_trans C D k t \<and> inodes t = (inodes s)(ip := q\<lparr>i_busy := True, i_valid := True\<rparr>) \<and>
     disksize t = disksize s \<and> sb t = sb s"
proof -
  let ?x = "IBLOCK (i_inum (inodes s ip)) (sb s)"
  let ?u = "upd_inode ip (\<lambda>r. r\<lparr>i_busy := True\<rparr>) s"
  have calm: "calm s" using i by (auto simp: in_trans_def Let_def cache_def)
  have "ilock_locked ip (acquired IcacheLock s) = Inr ((), acquired IcacheLock ?u)"
    using r(2) by (simp add: ilock_locked_def upd_inode_acquired)
  moreover have "same_core s ?u" by (simp add: same_core_def upd_inode_def)
  ultimately obtain t where t: "with_lock IcacheLock (ilock_locked ip) s = Inr ((), t)" "quiet ?u t"
    using locked_update [where f = "ilock_locked ip", OF calm] by blast
  note e = quiet_eq(12,15,17) [OF t(2)]
  have it: "in_trans C D k t" using in_trans_quiet [OF t(2)] i by simp
  have rt: "inodes t ip = (inodes s ip)\<lparr>i_busy := True\<rparr>" "sb t = sb s" "disksize t = disksize s" using e by (simp_all add: upd_inode_def)
  have xt: "?x < disksize t" using r(5) rt by simp
  from trans_open [OF it xt] obtain b t' where w: "bread 1 ?x t = Inr (b, t')" "b_data (bufs t' b) = C ?x"
    "reading C D k b ?x t'" "bio_frame t t'" by blast
  define g where "g = get_dinode (dinode_at (i_inum (inodes s ip))) (C ?x)"
  note e' = bio_frame_eq(1,3,4) [OF w(4)]
  have gq: "g (inodes t ip) = q\<lparr>i_busy := True\<rparr>" by (cases "inodes s ip") (simp add: g_def q_def rt get_dinode_def cong: if_cong)
  have "reading C D k b ?x (upd_inode ip g t')" using w(3) by simp
  from trans_close [OF this] obtain w' where w': "brelse b (upd_inode ip g t') = Inr w'" "in_trans C D k w'" "bio_frame (upd_inode ip g t') w'"
    by blast
  have ew: "inodes w' = (inodes t)(ip := q\<lparr>i_busy := True\<rparr>)" "disksize w' = disksize s" "sb w' = sb s"
    using bio_frame_eq(1,3,4) [OF w'(3)] e' rt gq by (simp_all add: upd_inode_def)
  let ?v = "upd_inode ip (\<lambda>r. r\<lparr>i_valid := True\<rparr>) w'"
  have "ilock (Some ip) s = Inr ?v"
    using r t(1) w(1,2) rt e'(3) w'(1) ew(1) ty by (simp add: ilock_def Let_def g_def [symmetric] upd_inode_def)
  moreover have "inodes ?v = (inodes s)(ip := q\<lparr>i_busy := True, i_valid := True\<rparr>)"
    using ew(1) e(1) by (simp add: upd_inode_def fun_eq_iff)
  moreover have "in_trans C D k ?v" using w'(2) by simp
  moreover have "disksize ?v = disksize s" "sb ?v = sb s" using ew(2,3) by (simp_all add: upd_inode_def)
  ultimately show ?thesis by blast
qed

text \<open>An inode slot with the attributes and the block addresses of \<open>r\<close>, locked and valid.\<close>

definition loaded :: "inode \<Rightarrow> inode \<Rightarrow> inode" where
  "loaded r q = q\<lparr>i_busy := True, i_valid := True, i_type := i_type r, i_major := i_major r, i_minor := i_minor r, i_nlink := i_nlink r,
     i_size := i_size r, i_uid := i_uid r, i_gid := i_gid r, i_mode := i_mode r,
     i_addrs := (\<lambda>i. if i \<le> NDIRECT then i_addrs r i else i_addrs q i)\<rparr>"

text \<open>A slot that has just been taken for the inode number \<open>n\<close>.\<close>

definition fresh_slot :: "uint \<Rightarrow> inode \<Rightarrow> bool" where
  "fresh_slot n q \<longleftrightarrow> i_dev q = 1 \<and> i_inum q = n \<and> 1 \<le> i_ref q \<and> \<not> i_busy q \<and> \<not> i_valid q"

lemma ilock_fresh:
  assumes i: "in_trans C D k s" and q: "fresh_slot n q" "IBLOCK n (sb s) < disksize s"
    and ty: "i_type (get_dinode (dinode_at n) (C (IBLOCK n (sb s))) q) \<noteq> 0"
  shows "\<exists>t. ilock (Some ip) (upd_inode ip (\<lambda>_. q) s) = Inr t \<and> in_trans C D k t \<and>
     inodes t ip = (get_dinode (dinode_at n) (C (IBLOCK n (sb s))) q)\<lparr>i_busy := True, i_valid := True\<rparr>"
proof -
  let ?s = "upd_inode ip (\<lambda>_. q) s"
  have f: "inodes ?s ip = q" "sb ?s = sb s" "disksize ?s = disksize s" by (simp_all add: upd_inode_def)
  have "in_trans C D k ?s" using i by simp
  from ilock_reads [OF this, of ip] show ?thesis using q ty by (auto simp: f fresh_slot_def)
qed

lemma IBLOCK_slot:
  assumes "IBLOCK m r = IBLOCK n r" "dinode_at m = dinode_at n"
  shows "m = n"
proof -
  have "m div of_nat IPB = n div of_nat IPB" using assms(1) by (simp add: IBLOCK_def)
  then have "unat (m div of_nat IPB) = unat (n div of_nat IPB)" by (rule arg_cong)
  then have "unat m div IPB = unat n div IPB" by (simp only: unat_div) (simp add: IPB_def BSIZE_def)
  moreover have "unat m mod IPB = unat n mod IPB" using assms(2) by (simp add: dinode_at_def)
  ultimately have "unat m div IPB * IPB + unat m mod IPB = unat n div IPB * IPB + unat n mod IPB" by (simp only:)
  then show ?thesis by (simp add: word_unat_eq_iff)
qed

text \<open>
  C17. Inodes survive in their blocks: after iupdate of an inode, ilock of a freshly taken cache slot for the same number loads exactly the
  attributes and block addresses that were stored, while for every other number with an inode on the disk it loads what was there before.
\<close>

theorem iupdate_ilock:
  assumes "in_trans C D (Suc k) s" "i_dev (inodes s ip) = 1" "IBLOCK (i_inum (inodes s ip)) (sb s) < disksize s"
    and "i_type (inodes s ip) \<noteq> 0"
  shows "\<exists>t. iupdate ip s = Inr t \<and>
     (\<forall>jp q. fresh_slot (i_inum (inodes s ip)) q \<longrightarrow>
        (\<exists>u. ilock (Some jp) (upd_inode jp (\<lambda>_. q) t) = Inr u \<and> inodes u jp = loaded (inodes s ip) q)) \<and>
     (\<forall>jp n q. fresh_slot n q \<and> n \<noteq> i_inum (inodes s ip) \<and> IBLOCK n (sb s) < disksize s \<and>
        get16 (C (IBLOCK n (sb s))) (dinode_at n) \<noteq> 0 \<longrightarrow>
        (\<exists>u. ilock (Some jp) (upd_inode jp (\<lambda>_. q) t) = Inr u \<and>
           inodes u jp = (get_dinode (dinode_at n) (C (IBLOCK n (sb s))) q)\<lparr>i_busy := True, i_valid := True\<rparr>))"
proof -
  let ?r = "inodes s ip"
  let ?m = "i_inum ?r"
  define x where "x = IBLOCK ?m (sb s)"
  define C' where "C' = C(x := put_dinode (dinode_at ?m) ?r (C x))"
  obtain t where t: "iupdate ip s = Inr t" "in_trans C' D k t" "log_frame s t"
    using iupdate_file [OF assms(1-3)] unfolding C'_def x_def by blast
  note e = log_frame_fields [OF t(3)]
  have same: "\<exists>u. ilock (Some jp) (upd_inode jp (\<lambda>_. q) t) = Inr u \<and> inodes u jp = loaded ?r q"
    if q: "fresh_slot ?m q" for jp q
  proof -
    have g: "get_dinode (dinode_at ?m) (C' x) q = get_dinode (dinode_at ?m) (put_dinode (dinode_at ?m) ?r (C x)) q" by (simp add: C'_def)
    have "i_type (get_dinode (dinode_at ?m) (C' x) q) \<noteq> 0" using assms(4) by (simp add: g get_put_dinode)
    from ilock_fresh [OF t(2) q, of jp] this assms(3) obtain u where
      "ilock (Some jp) (upd_inode jp (\<lambda>_. q) t) = Inr u" "inodes u jp = (get_dinode (dinode_at ?m) (C' x) q)\<lparr>i_busy := True, i_valid := True\<rparr>"
      unfolding e x_def by blast
    then show ?thesis by (intro exI [of _ u]) (simp add: g get_put_dinode loaded_def)
  qed
  have other: "\<exists>u. ilock (Some jp) (upd_inode jp (\<lambda>_. q) t) = Inr u \<and>
      inodes u jp = (get_dinode (dinode_at n) (C (IBLOCK n (sb s))) q)\<lparr>i_busy := True, i_valid := True\<rparr>"
    if q: "fresh_slot n q" "n \<noteq> ?m" "IBLOCK n (sb s) < disksize s" "get16 (C (IBLOCK n (sb s))) (dinode_at n) \<noteq> 0" for jp n q
  proof -
    have g: "get_dinode (dinode_at n) (C' (IBLOCK n (sb s))) q = get_dinode (dinode_at n) (C (IBLOCK n (sb s))) q"
    proof (cases "IBLOCK n (sb s) = x")
      case True
      then have "dinode_at n \<noteq> dinode_at ?m" using IBLOCK_slot [of n "sb s" ?m] q(2) by (auto simp: x_def)
      then have "unat n mod IPB \<noteq> unat ?m mod IPB" by (auto simp: dinode_at_def)
      then show ?thesis using True get_dinode_apart by (simp add: C'_def dinode_at_def)
    qed (simp add: C'_def)
    have "i_type (get_dinode (dinode_at n) (C' (IBLOCK n (sb s))) q) \<noteq> 0" unfolding g using q(4) by (simp add: get_dinode_def)
    from ilock_fresh [OF t(2) q(1), of jp] this q(3) show ?thesis unfolding e g by blast
  qed
  show ?thesis using t(1) same other by blast
qed

theorem iupdate_ilock_witness:
  "\<exists>s t u v. initlog 1 demo_fs = Inr s \<and> begin_op s = Inr t \<and> iupdate 0 (demo_file t) = Inr u \<and>
     ilock (Some 1) (upd_inode 1 (\<lambda>r. r\<lparr>i_dev := 1, i_inum := 1, i_ref := 1, i_busy := False, i_valid := False\<rparr>) u) = Inr v \<and>
     i_type (inodes v 1) = T_FILE \<and> i_addrs (inodes v 1) 0 = 100"
proof -
  obtain s E where s: "initlog 1 demo_fs = Inr s" "log_inv 2 E E [] s" "disksize s = 2000" using demo_booted by blast
  from begin_op_step [OF s(2)] obtain t where t: "begin_op s = Inr t" "log_inv 2 E E [0] t" "disksize t = 2000"
    using s(3) by auto
  let ?s = "demo_file t"
  have z: "disksize ?s = 2000" "sb ?s = sb_of demo_sb" by (simp_all add: demo_file_def upd_inode_def t(3))
  have r: "i_dev (inodes ?s 0) = 1" "i_inum (inodes ?s 0) = 1" "i_type (inodes ?s 0) = T_FILE" "i_addrs (inodes ?s 0) 0 = 100"
    by (simp_all add: demo_file_def upd_inode_def)
  have tr: "in_trans E E (Suc 0) ?s" using in_trans_weaken [OF log_inv_in_trans [OF t(2)], of 1] by (simp add: demo_file_def)
  have "IBLOCK (i_inum (inodes ?s 0)) (sb ?s) < disksize ?s"
    by (simp add: z r IBLOCK_def IPB_def BSIZE_def sb_of_def demo_sb_def get_put_apart)
  from iupdate_ilock [OF tr r(1) this] obtain u where u: "iupdate 0 ?s = Inr u"
    "\<And>jp q. fresh_slot 1 q \<Longrightarrow> \<exists>v. ilock (Some jp) (upd_inode jp (\<lambda>_. q) u) = Inr v \<and> inodes v jp = loaded (inodes ?s 0) q"
    by (auto simp: r T_FILE_def)
  let ?q = "inodes u 1\<lparr>i_dev := 1, i_inum := 1, i_ref := 1, i_busy := False, i_valid := False\<rparr>"
  obtain v where v: "ilock (Some 1) (upd_inode 1 (\<lambda>_. ?q) u) = Inr v" "inodes v 1 = loaded (inodes ?s 0) ?q"
    using u(2) [of ?q 1] by (auto simp: fresh_slot_def)
  have "upd_inode 1 (\<lambda>_. ?q) u = upd_inode 1 (\<lambda>r. r\<lparr>i_dev := 1, i_inum := 1, i_ref := 1, i_busy := False, i_valid := False\<rparr>) u"
    by (simp add: upd_inode_def)
  with s(1) t(1) u(1) v show ?thesis by (intro exI [of _ s] exI [of _ t] exI [of _ u] exI [of _ v]) (simp add: loaded_def r)
qed

end
