(* ===== verification/Mkfs.thy ===== *)
theory Mkfs
  imports Fs_Icache
begin

section \<open>The builder of file system images (mkfs.c)\<close>

text \<open>
  \<^verbatim>\<open>mkfs\<close> runs on the host and writes an image that the kernel mounts. The image file is its blocks; the host reads nothing behind
  the end of the file and stores at most \<open>m_room\<close> blocks, and a host call that fails ends the program with \<open>MExit\<close>, a failed
  \<^verbatim>\<open>assert\<close> with \<open>MAssert\<close>. The files to copy are given by their names and the pieces that \<^verbatim>\<open>read\<close> delivers; a file that cannot be
  opened has none. A \<^verbatim>\<open>struct dinode\<close> in memory is an \<open>inode\<close> of which only the fields on the disk matter. The host is
  little-endian, like the kernel's machine.
\<close>

datatype mkfs_error = MAssert | MExit

record mkfs =
  m_img :: "uint \<Rightarrow> block"
  m_len :: uint
  m_room :: uint
  m_sb :: superblock
  m_freeinode :: uint
  m_freeblock :: uint

type_synonym host_file = "uchar list \<times> uchar list list option"

definition NINODES :: nat where "NINODES = 200"

definition nbitmap :: nat where "nbitmap = unat FSSIZE div (BSIZE * 8) + 1"

definition ninodeblocks :: nat where "ninodeblocks = NINODES div IPB + 1"

definition nlog :: nat where "nlog = nat LOGSIZE"

definition nmeta :: nat where "nmeta = 2 + nlog + ninodeblocks + nbitmap"

definition xshort :: "ushort \<Rightarrow> ushort" where
  "xshort x = get16 (put16 0 x (\<lambda>_. 0)) 0"

definition xint :: "uint \<Rightarrow> uint" where
  "xint x = get32 (put32 0 x (\<lambda>_. 0)) 0"

subsection \<open>Blocks and inodes\<close>

text \<open>The byte offset of a block is computed in 32 bits.\<close>

definition sector :: "uint \<Rightarrow> uint" where
  "sector sec = (sec * of_nat BSIZE) div of_nat BSIZE"

definition wsect :: "uint \<Rightarrow> block \<Rightarrow> mkfs \<Rightarrow> mkfs_error + mkfs" where
  "wsect sec d s =
     (if sector sec \<ge> m_room s then Inl MExit
      else Inr (s\<lparr>m_img := (m_img s)(sector sec := d), m_len := max (m_len s) (sector sec + 1)\<rparr>))"

definition rsect :: "uint \<Rightarrow> mkfs \<Rightarrow> mkfs_error + block" where
  "rsect sec s = (if sector sec \<ge> m_len s then Inl MExit else Inr (m_img s (sector sec)))"

definition no_dinode :: inode where
  "no_dinode = (new_dinode 0)\<lparr>i_dev := 1\<rparr>"

definition winode :: "uint \<Rightarrow> inode \<Rightarrow> mkfs \<Rightarrow> mkfs_error + mkfs" where
  "winode inum ip s =
     (let bn = IBLOCK inum (m_sb s) in
      rbind (rsect bn s) (\<lambda>buf. wsect bn (put_dinode (dinode_at inum) ip buf) s))"

definition rinode :: "uint \<Rightarrow> mkfs \<Rightarrow> mkfs_error + inode" where
  "rinode inum s = rbind (rsect (IBLOCK inum (m_sb s)) s) (\<lambda>buf. Inr (get_dinode (dinode_at inum) buf no_dinode))"

definition mk_ialloc :: "ushort \<Rightarrow> mkfs \<Rightarrow> mkfs_error + uint \<times> mkfs" where
  "mk_ialloc ty s =
     (let inum = m_freeinode s;
          din = no_dinode\<lparr>i_type := xshort ty, i_major := 0, i_minor := 0, i_nlink := xshort 1, i_size := xint 0,
            i_uid := xshort DEFAULT_UID, i_gid := xshort DEFAULT_GID, i_mode := xint DEFAULT_MODE, i_addrs := (\<lambda>_. 0)\<rparr>
      in rbind (winode inum din (s\<lparr>m_freeinode := inum + 1\<rparr>)) (\<lambda>s. Inr (inum, s)))"

definition mk_balloc :: "int \<Rightarrow> mkfs \<Rightarrow> mkfs_error + mkfs" where
  "mk_balloc n s =
     (if \<not> n < int (BSIZE * 8) then Inl MAssert
      else wsect (sb_bmapstart (m_sb s)) (fold mark_bit [0..<nat n] (\<lambda>_. 0)) s)"

subsection \<open>iappend\<close>

definition fresh_addr :: "nat \<Rightarrow> inode \<Rightarrow> mkfs \<Rightarrow> inode \<times> mkfs" where
  "fresh_addr i din s =
     (if xint (i_addrs din i) = 0
      then (din\<lparr>i_addrs := (i_addrs din)(i := xint (m_freeblock s))\<rparr>, s\<lparr>m_freeblock := m_freeblock s + 1\<rparr>)
      else (din, s))"

text \<open>The block of the file with the number \<open>fbn\<close>, allocated when it is missing.\<close>

definition iappend_block :: "nat \<Rightarrow> inode \<Rightarrow> mkfs \<Rightarrow> mkfs_error + uint \<times> inode \<times> mkfs" where
  "iappend_block fbn din s =
     (if fbn < NDIRECT
      then let (din, s) = fresh_addr fbn din s in Inr (xint (i_addrs din fbn), din, s)
      else
        let (din, s) = fresh_addr NDIRECT din s; a = xint (i_addrs din NDIRECT); k = 4 * (fbn - NDIRECT) in
        rbind (rsect a s) (\<lambda>indirect.
        if get32 indirect k = 0
        then let indirect = put32 k (xint (m_freeblock s)) indirect in
             rbind (wsect a indirect (s\<lparr>m_freeblock := m_freeblock s + 1\<rparr>)) (\<lambda>s. Inr (xint (get32 indirect k), din, s))
        else Inr (xint (get32 indirect k), din, s)))"

text \<open>The bytes that a turn of the loop copies; there is at least one.\<close>

definition append_part :: "uint \<Rightarrow> nat \<Rightarrow> nat" where
  "append_part off n = min n (unat ((off div of_nat BSIZE + 1) * of_nat BSIZE - off))"

lemma append_part_eq: "append_part off n = part (unat off) n"
proof -
  have "off div of_nat BSIZE * of_nat BSIZE + off mod of_nat BSIZE = off" by (rule div_mult_mod_eq)
  then have "(off div of_nat BSIZE + 1) * of_nat BSIZE - off = of_nat BSIZE - off mod of_nat BSIZE"
    by (simp add: algebra_simps)
  moreover have "unat (off mod of_nat BSIZE) = unat off mod 512" by (simp add: BSIZE_def unat_mod)
  then have "unat (of_nat BSIZE - off mod of_nat BSIZE) = 512 - unat off mod 512"
    by (subst unat_sub) (simp_all add: BSIZE_def word_le_nat_alt)
  ultimately have "unat ((off div of_nat BSIZE + 1) * of_nat BSIZE - off) = BSIZE - unat off mod BSIZE" by (simp only: BSIZE_def)
  then show ?thesis by (simp only: append_part_def part_def)
qed

function iappend_loop :: "inode \<Rightarrow> uint \<Rightarrow> uchar list \<Rightarrow> mkfs \<Rightarrow> mkfs_error + inode \<times> uint \<times> mkfs" where
  "iappend_loop din off p s =
     (if p = [] then Inr (din, off, s)
      else
        let fbn = off div of_nat BSIZE; n1 = append_part off (length p) in
        if \<not> unat fbn < MAXFILE then Inl MAssert
        else
          rbind (iappend_block (unat fbn) din s) (\<lambda>(x, din, s).
          rbind (rsect x s) (\<lambda>buf.
          rbind (wsect x (put_bytes (unat (off - fbn * of_nat BSIZE)) (take n1 p) buf) s) (\<lambda>s.
          iappend_loop din (off + of_nat n1) (drop n1 p) s))))"
  by pat_completeness auto
termination
  by (relation "measure (\<lambda>(_, _, p, _). length p)") (auto simp: append_part_eq part_pos)

declare iappend_loop.simps [simp del]

definition iappend :: "uint \<Rightarrow> uchar list \<Rightarrow> mkfs \<Rightarrow> mkfs_error + mkfs" where
  "iappend inum p s =
     rbind (rinode inum s) (\<lambda>din.
     rbind (iappend_loop din (xint (i_size din)) p s) (\<lambda>(din, off, s).
     winode inum (din\<lparr>i_size := xint off\<rparr>) s))"

subsection \<open>main\<close>

definition mk_sb :: superblock where
  "mk_sb = \<lparr>sb_size = xint FSSIZE, sb_nblocks = xint (FSSIZE - of_nat nmeta), sb_ninodes = xint (of_nat NINODES),
     sb_nlog = xint (of_nat nlog), sb_logstart = xint 2, sb_inodestart = xint (2 + of_nat nlog),
     sb_bmapstart = xint (2 + of_nat nlog + of_nat ninodeblocks)\<rparr>"

definition sb_block :: "superblock \<Rightarrow> block" where
  "sb_block r = put32 24 (sb_bmapstart r) (put32 20 (sb_inodestart r) (put32 16 (sb_logstart r) (put32 12 (sb_nlog r)
     (put32 8 (sb_ninodes r) (put32 4 (sb_nblocks r) (put32 0 (sb_size r) (\<lambda>_. 0)))))))"

definition mkfs_empty :: "mkfs \<Rightarrow> mkfs_error + mkfs" where
  "mkfs_empty s =
     rbind (rfold (\<lambda>i. wsect (of_nat i) (\<lambda>_. 0)) [0..<unat FSSIZE] (s\<lparr>m_sb := mk_sb, m_freeblock := of_nat nmeta\<rparr>))
       (wsect 1 (sb_block mk_sb))"

definition mkfs_root :: "mkfs \<Rightarrow> mkfs_error + uint \<times> mkfs" where
  "mkfs_root s =
     rbind (mk_ialloc T_DIR s) (\<lambda>(rootino, s).
     if rootino \<noteq> ROOTINO then Inl MAssert
     else
       rbind (iappend rootino (mk_dirent (xshort (ucast rootino)) (chars ''.'')) s) (\<lambda>s.
       rbind (iappend rootino (mk_dirent (xshort (ucast rootino)) (chars ''..'')) s) (\<lambda>s.
       Inr (rootino, s))))"

definition strip_name :: "uchar list \<Rightarrow> uchar list" where
  "strip_name name = (case name of c # cs \<Rightarrow> if c = 95 then cs else name | [] \<Rightarrow> name)"

definition mkfs_file :: "uint \<Rightarrow> host_file \<Rightarrow> mkfs \<Rightarrow> mkfs_error + mkfs" where
  "mkfs_file rootino f s =
     (if 47 \<in> set (fst f) then Inl MAssert
      else case snd f of None \<Rightarrow> Inl MExit
      | Some pieces \<Rightarrow>
        rbind (mk_ialloc T_FILE s) (\<lambda>(inum, s).
        rbind (iappend rootino (mk_dirent (xshort (ucast inum)) (strip_name (fst f))) s)
          (rfold (iappend inum) pieces)))"

definition mkfs_finish :: "uint \<Rightarrow> mkfs \<Rightarrow> mkfs_error + mkfs" where
  "mkfs_finish rootino s =
     rbind (rinode rootino s) (\<lambda>din.
     let off = xint (i_size din); off = (off div of_nat BSIZE + 1) * of_nat BSIZE in
     rbind (winode rootino (din\<lparr>i_size := xint off\<rparr>) s) (\<lambda>s. mk_balloc (sint (m_freeblock s)) s))"

definition mkfs_start :: "uint \<Rightarrow> mkfs" where
  "mkfs_start room = \<lparr>m_img = (\<lambda>_ _. 0), m_len = 0, m_room = room, m_sb = \<lparr>sb_size = 0, sb_nblocks = 0, sb_ninodes = 0,
     sb_nlog = 0, sb_logstart = 0, sb_inodestart = 0, sb_bmapstart = 0\<rparr>, m_freeinode = 1, m_freeblock = 0\<rparr>"

definition mkfs_main :: "uint \<Rightarrow> host_file list \<Rightarrow> mkfs_error + mkfs" where
  "mkfs_main room fs =
     rbind (mkfs_empty (mkfs_start room)) (\<lambda>s.
     rbind (mkfs_root s) (\<lambda>(rootino, s).
     rbind (rfold (mkfs_file rootino) fs s) (mkfs_finish rootino)))"

end
