(* ===== verification/Mkfs_Inv.thy ===== *)
theory Mkfs_Inv
  imports Mkfs
begin

section \<open>The images that mkfs builds\<close>

text \<open>
  The blocks of the image below \<open>nmeta\<close> are metadata, the blocks from there to the first free block belong to files, and the others are
  zero. Appending to a file takes blocks from the free ones, and leaves the blocks of the other files alone.
\<close>

lemma xint_id [simp]: "xint x = x"
  by (simp add: xint_def)

lemma xshort_id [simp]: "xshort x = x"
  by (simp add: xshort_def)

lemma nmeta_eq: "nmeta = 59"
  by (simp add: nmeta_def nlog_def LOGSIZE_def MAXOPBLOCKS_def ninodeblocks_def NINODES_def IPB_def BSIZE_def nbitmap_def FSSIZE_def)

definition fine :: "mkfs \<Rightarrow> bool" where
  "fine s \<longleftrightarrow> m_len s = FSSIZE \<and> FSSIZE \<le> m_room s \<and> m_sb s = mk_sb"

lemma sector_low:
  assumes "x < FSSIZE"
  shows "sector x = x"
proof -
  have "unat x < 2000" using assms by (simp add: FSSIZE_def word_less_nat_alt)
  then show ?thesis by (simp add: sector_def BSIZE_def word_unat_eq_iff unat_div unat_word_ariths)
qed

lemma rsect_fine: "fine s \<Longrightarrow> x < FSSIZE \<Longrightarrow> rsect x s = Inr (m_img s x)"
  by (simp add: rsect_def fine_def sector_low)

lemma wsect_fine:
  assumes "fine s" "x < FSSIZE"
  shows "wsect x d s = Inr (s\<lparr>m_img := (m_img s)(x := d)\<rparr>)"
proof -
  have "x + 1 \<le> FSSIZE" using assms(2) by (rule inc_le)
  then have "max FSSIZE (x + 1) = FSSIZE" by simp
  moreover have "\<not> m_room s \<le> x" using assms by (auto simp: fine_def)
  ultimately show ?thesis using assms by (simp add: wsect_def fine_def sector_low)
qed

subsection \<open>The blocks of a file\<close>

definition area :: "nat \<Rightarrow> nat \<Rightarrow> uint set" where
  "area a b = {x. a \<le> unat x \<and> unat x < b}"

definition blocks_of :: "(uint \<Rightarrow> block) \<Rightarrow> inode \<Rightarrow> nat \<Rightarrow> uint set" where
  "blocks_of img r nb = fblk img r ` {..<nb} \<union> (if NDIRECT < nb then {i_addrs r NDIRECT} else {})"

text \<open>A file has its first \<open>nb\<close> blocks and no others.\<close>

definition mapped :: "(uint \<Rightarrow> block) \<Rightarrow> inode \<Rightarrow> nat \<Rightarrow> bool" where
  "mapped img r nb \<longleftrightarrow> file_ok img FSSIZE r nb \<and> (\<forall>b. nb \<le> b \<and> b < NDIRECT \<longrightarrow> i_addrs r b = 0) \<and>
     (nb \<le> NDIRECT \<longrightarrow> i_addrs r NDIRECT = 0) \<and>
     (NDIRECT < nb \<longrightarrow> (\<forall>b. nb \<le> b \<and> b < MAXFILE \<longrightarrow> get32 (img (i_addrs r NDIRECT)) (4 * (b - NDIRECT)) = 0))"

definition free_zero :: "(uint \<Rightarrow> block) \<Rightarrow> nat \<Rightarrow> bool" where
  "free_zero img n \<longleftrightarrow> (\<forall>x. n \<le> unat x \<longrightarrow> x < FSSIZE \<longrightarrow> img x = (\<lambda>_. 0))"

lemma mapped_indirect:
  assumes "mapped img r nb" "NDIRECT < nb" "b < nb"
  shows "fblk img r b \<noteq> i_addrs r NDIRECT"
proof -
  have "i_addrs r NDIRECT \<notin> fblk img r ` {..<nb}" "fblk img r b \<in> fblk img r ` {..<nb}"
    using assms by (simp_all add: mapped_def file_ok_def)
  then show ?thesis by metis
qed

lemma iappend_block_old:
  assumes "fine s" "mapped (m_img s) r nb" "b < nb"
  shows "iappend_block b r s = Inr (fblk (m_img s) r b, r, s)"
proof (cases "b < NDIRECT")
  case True
  then have "i_addrs r b \<noteq> 0" using assms(2,3) by (auto simp: mapped_def file_ok_def fblk_def)
  then show ?thesis using True by (simp add: iappend_block_def fresh_addr_def fblk_def)
next
  case False
  then have "i_addrs r NDIRECT \<noteq> 0" "i_addrs r NDIRECT < FSSIZE" "fblk (m_img s) r b \<noteq> 0"
    using assms(2,3) by (auto simp: mapped_def file_ok_def)
  then show ?thesis using False rsect_fine [OF assms(1)] by (simp add: iappend_block_def fresh_addr_def fblk_def)
qed

text \<open>A new entry of the indirect block.\<close>

lemma indirect_new:
  assumes nb: "NDIRECT \<le> nb" "nb < MAXFILE" and a: "a = i_addrs r NDIRECT" "a \<noteq> 0" "a < FSSIZE" and r: "i_dev r = 1"
    and f: "\<forall>b<nb. fblk img r b \<noteq> 0 \<and> fblk img r b < FSSIZE" "inj_on (fblk img r) {..<nb}" "a \<notin> fblk img r ` {..<nb}"
    and z: "\<forall>b. nb \<le> b \<and> b < MAXFILE \<longrightarrow> get32 (img a) (4 * (b - NDIRECT)) = 0"
    and dir: "\<forall>b. b < NDIRECT \<longrightarrow> b < nb"
    and x: "x \<noteq> 0" "x < FSSIZE" "x \<noteq> a" "x \<notin> fblk img r ` {..<nb}"
  defines "img' \<equiv> img(a := put32 (4 * (nb - NDIRECT)) x (img a))"
  shows "mapped img' r (Suc nb)" "fblk img' r nb = x" "\<And>b. b < nb \<Longrightarrow> fblk img' r b = fblk img r b"
proof -
  show new: "fblk img' r nb = x" using nb by (simp add: fblk_def img'_def a(1))
  show same: "fblk img' r b = fblk img r b" if "b < nb" for b
  proof (cases "b < NDIRECT")
    case False
    then have "4 * (b - NDIRECT) + 4 \<le> 4 * (nb - NDIRECT)" using that by simp
    then show ?thesis using False by (simp add: fblk_def img'_def a(1) get_put_apart)
  qed (simp add: fblk_def)
  have im: "fblk img' r ` {..<Suc nb} = insert x (fblk img r ` {..<nb})"
    using new same by (auto simp: lessThan_Suc intro!: image_cong)
  have "inj_on (fblk img' r) {..<nb} = inj_on (fblk img r) {..<nb}" using same by (auto intro!: inj_on_cong)
  moreover have "fblk img' r ` {..<nb} = fblk img r ` {..<nb}" using same by (auto intro!: image_cong)
  ultimately have "inj_on (fblk img' r) {..<Suc nb}" using f(2) x(4) new by (simp add: lessThan_Suc)
  moreover have "\<forall>b<Suc nb. fblk img' r b \<noteq> 0 \<and> fblk img' r b < FSSIZE" using f(1) same new x by (simp add: less_Suc_eq)
  ultimately have "file_ok img' FSSIZE r (Suc nb)"
    using nb a r f(3) x(3) unfolding file_ok_def im by auto
  moreover have "get32 (img' a) (4 * (b - NDIRECT)) = 0" if "Suc nb \<le> b" "b < MAXFILE" for b
  proof -
    have "4 * (nb - NDIRECT) + 4 \<le> 4 * (b - NDIRECT)" using that nb by simp
    then show ?thesis using z that by (simp add: img'_def get_put_apart)
  qed
  ultimately show "mapped img' r (Suc nb)" using nb unfolding mapped_def a(1) by auto
qed

text \<open>A new block takes the first free block, and the first block behind the direct ones takes another for the indirect block.\<close>

definition extra :: "nat \<Rightarrow> nat" where
  "extra nb = (if nb = NDIRECT then 2 else 1)"

lemma freeblock_fresh:
  assumes "unat x = n" "0 < n" "n < 2000" "B \<subseteq> area k n"
  shows "x \<noteq> 0" "x < FSSIZE" "x \<notin> B"
  using assms by (auto simp: area_def FSSIZE_def word_less_nat_alt)

lemma blocks_bounds: "mapped img r nb \<Longrightarrow> x \<in> blocks_of img r nb \<Longrightarrow> x \<noteq> 0 \<and> x < FSSIZE"
  by (auto simp: mapped_def file_ok_def blocks_of_def split: if_splits)

lemma direct_new:
  assumes m: "mapped img r nb" and nb: "nb < NDIRECT" and x: "x \<noteq> 0" "x < FSSIZE" "x \<notin> blocks_of img r nb"
  defines "r' \<equiv> r\<lparr>i_addrs := (i_addrs r)(nb := x)\<rparr>"
  shows "mapped img r' (Suc nb)" "fblk img r' nb = x" "\<And>b. b < nb \<Longrightarrow> fblk img r' b = fblk img r b"
proof -
  show new: "fblk img r' nb = x" using nb by (simp add: fblk_def r'_def)
  show same: "fblk img r' b = fblk img r b" if "b < nb" for b using that nb by (simp add: fblk_def r'_def)
  have im: "fblk img r' ` {..<nb} = fblk img r ` {..<nb}" using same by (auto intro!: image_cong)
  have "inj_on (fblk img r') {..<nb} = inj_on (fblk img r) {..<nb}" using same by (auto intro!: inj_on_cong)
  then have "inj_on (fblk img r') {..<Suc nb}" using m x(3) new im by (simp add: lessThan_Suc mapped_def file_ok_def blocks_of_def)
  moreover have "\<forall>b<Suc nb. fblk img r' b \<noteq> 0 \<and> fblk img r' b < FSSIZE"
    using m same new x by (simp add: less_Suc_eq mapped_def file_ok_def)
  ultimately show "mapped img r' (Suc nb)" using m nb by (simp add: mapped_def file_ok_def r'_def MAXFILE_def)
qed

lemma iappend_block_new:
  assumes s: "fine s" and m: "mapped (m_img s) r nb" and nb: "nb < MAXFILE"
    and F: "unat (m_freeblock s) = F" "0 < F" "F + extra nb \<le> 2000" "blocks_of (m_img s) r nb \<subseteq> area k F" and z: "free_zero (m_img s) F"
  shows "\<exists>a img. let r' = r\<lparr>i_addrs := a\<rparr> in
     iappend_block nb r s = Inr (fblk img r' nb, r', s\<lparr>m_img := img, m_freeblock := of_nat (F + extra nb)\<rparr>) \<and>
     mapped img r' (Suc nb) \<and> (\<forall>b<nb. fblk img r' b = fblk (m_img s) r b) \<and>
     blocks_of img r' (Suc nb) \<subseteq> blocks_of (m_img s) r nb \<union> area F (F + extra nb) \<and>
     (\<forall>x. x \<notin> area F (F + extra nb) \<and> \<not> (NDIRECT < nb \<and> x = i_addrs r NDIRECT) \<longrightarrow> img x = m_img s x) \<and>
     free_zero img (F + extra nb)"
proof (cases "nb < NDIRECT")
  case True
  let ?x = "m_freeblock s" and ?img = "m_img s"
  let ?a = "(i_addrs r)(nb := ?x)"
  note x = freeblock_fresh [OF F(1,2) _ F(4)]
  have e: "extra nb = 1" using True by (simp add: extra_def)
  have lt: "F < 2000" using F(3) e by simp
  note d = direct_new [OF m True x(1) [OF lt] x(2) [OF lt] x(3) [OF lt]]
  have "i_addrs r nb = 0" using m True by (simp add: mapped_def)
  then have "iappend_block nb r s = Inr (?x, r\<lparr>i_addrs := ?a\<rparr>, s\<lparr>m_freeblock := ?x + 1\<rparr>)"
    using True by (simp add: iappend_block_def fresh_addr_def)
  moreover have "?x + 1 = of_nat (F + extra nb)" unfolding F(1) [symmetric] e by (simp add: add.commute)
  moreover have "?x \<in> area F (F + extra nb)" using F(1) e by (simp add: area_def)
  then have "blocks_of ?img (r\<lparr>i_addrs := ?a\<rparr>) (Suc nb) \<subseteq> blocks_of ?img r nb \<union> area F (F + extra nb)"
    using True d(2,3) by (auto simp: blocks_of_def less_Suc_eq lessThan_Suc)
  ultimately show ?thesis using d z by (intro exI [of _ ?a] exI [of _ ?img]) (simp add: Let_def free_zero_def)
next
  case False
  let ?img = "m_img s"
  define r1 where "r1 = (if nb = NDIRECT then r\<lparr>i_addrs := (i_addrs r)(NDIRECT := m_freeblock s)\<rparr> else r)"
  define G where "G = (if nb = NDIRECT then Suc F else F)"
  define a where "a = i_addrs r1 NDIRECT"
  define x where "x = (of_nat G :: uint)"
  have G: "F \<le> G" "G + 1 = F + extra nb" "G < 2000" using F(3) by (auto simp: G_def extra_def)
  have ux: "unat x = G" using G(3) by (simp add: x_def unat_of_nat)
  have r1: "r1 = r\<lparr>i_addrs := i_addrs r1\<rparr>" by (simp add: r1_def)
  have fa: "fresh_addr NDIRECT r s = (r1, s\<lparr>m_freeblock := x\<rparr>)"
  proof (cases "nb = NDIRECT")
    case True
    then have "i_addrs r NDIRECT = 0" using m by (simp add: mapped_def)
    moreover have "x = m_freeblock s + 1" unfolding x_def G_def F(1) [symmetric] using True by (simp add: add.commute)
    ultimately show ?thesis using True by (simp add: fresh_addr_def r1_def)
  next
    case ne: False
    then have "i_addrs r NDIRECT \<noteq> 0" using m False by (simp add: mapped_def file_ok_def)
    moreover have "x = m_freeblock s" unfolding x_def G_def F(1) [symmetric] using ne by simp
    then have "s\<lparr>m_freeblock := x\<rparr> = s" by simp
    ultimately show ?thesis using ne by (simp add: fresh_addr_def r1_def)
  qed
  have aF: "a \<noteq> 0 \<and> a < FSSIZE \<and> a \<notin> fblk ?img r ` {..<nb} \<and> unat a < G"
  proof (cases "nb = NDIRECT")
    case True
    then have "a = m_freeblock s" "G = Suc F" "F < 2000" using F(3) by (auto simp: a_def r1_def G_def extra_def)
    then show ?thesis using freeblock_fresh [OF F(1,2) _ F(4)] F(1) by (auto simp: blocks_of_def)
  next
    case ne: False
    then have "a = i_addrs r NDIRECT" "G = F" "NDIRECT < nb" using False by (auto simp: a_def r1_def G_def)
    then show ?thesis using m F(4) unfolding mapped_def file_ok_def blocks_of_def area_def by simp
  qed
  then have aF: "a \<noteq> 0" "a < FSSIZE" "a \<notin> fblk ?img r ` {..<nb}" "unat a < G" by auto
  have same: "fblk ?img r1 b = fblk ?img r b" if "b < nb" for b
    using that False by (auto simp: r1_def fblk_def)
  then have im: "fblk ?img r1 ` {..<nb} = fblk ?img r ` {..<nb}" by (auto intro!: image_cong)
  have inj: "inj_on (fblk ?img r1) {..<nb}"
    using m same by (auto simp: mapped_def file_ok_def inj_on_def)
  have zero: "\<forall>b. nb \<le> b \<and> b < MAXFILE \<longrightarrow> get32 (?img a) (4 * (b - NDIRECT)) = 0"
  proof (cases "nb = NDIRECT")
    case True
    then have "?img a = (\<lambda>_. 0)" using z F(1) aF(2) by (simp add: free_zero_def a_def r1_def)
    then show ?thesis by (simp add: get32_def)
  next
    case ne: False
    then have "a = i_addrs r NDIRECT" "NDIRECT < nb" using False by (auto simp: a_def r1_def)
    then show ?thesis using m by (simp add: mapped_def)
  qed
  have xn: "x \<noteq> 0" "x < FSSIZE" "x \<noteq> a" using ux G F(2) aF(4) by (auto simp: FSSIZE_def word_less_nat_alt)
  have "fblk ?img r ` {..<nb} \<subseteq> area k F" using F(4) by (auto simp: blocks_of_def)
  then have xo: "x \<notin> fblk ?img r1 ` {..<nb}" unfolding im using ux G(1) by (auto simp: area_def)
  define img' where "img' = ?img(a := put32 (4 * (nb - NDIRECT)) x (?img a))"
  have dev: "i_dev r1 = 1" and fo: "\<forall>b<nb. fblk ?img r1 b \<noteq> 0 \<and> fblk ?img r1 b < FSSIZE"
    using m same by (auto simp: mapped_def file_ok_def r1_def)
  note d = indirect_new [where img = ?img and r = r1 and a = a and x = x and nb = nb, folded img'_def,
    OF _ nb a_def aF(1,2) dev fo inj aF(3) [folded im] zero _ xn xo]
  have fs: "fine (s\<lparr>m_freeblock := y\<rparr>)" for y using s by (simp add: fine_def)
  have z0: "get32 (?img a) (4 * (nb - NDIRECT)) = 0" using zero nb by simp
  have "iappend_block nb r s = Inr (x, r1, s\<lparr>m_img := img', m_freeblock := x + 1\<rparr>)"
    using False fa rsect_fine [OF fs aF(2)] wsect_fine [OF fs aF(2)] z0
    by (simp add: iappend_block_def a_def [symmetric] Let_def img'_def)
  moreover have "x + 1 = of_nat (F + extra nb)" using G(2) by (simp add: x_def add.commute flip: of_nat_Suc)
  moreover have "fblk img' r1 nb = x" "mapped img' r1 (Suc nb)" "\<forall>b<nb. fblk img' r1 b = fblk ?img r b"
    using d False same by auto
  moreover have "blocks_of img' r1 (Suc nb) \<subseteq> blocks_of ?img r nb \<union> area F (F + extra nb)"
  proof -
    have "fblk img' r1 ` {..<Suc nb} \<subseteq> insert x (fblk ?img r ` {..<nb})" using calculation(3,5) by (auto simp: less_Suc_eq)
    moreover have "x \<in> area F (F + extra nb)" using ux G by (simp add: area_def)
    moreover have "a \<in> blocks_of ?img r nb \<union> area F (F + extra nb)"
      using False F(1) by (auto simp: a_def r1_def blocks_of_def area_def extra_def)
    ultimately show ?thesis by (auto simp: blocks_of_def a_def)
  qed
  moreover have "\<forall>y. y \<notin> area F (F + extra nb) \<and> \<not> (NDIRECT < nb \<and> y = i_addrs r NDIRECT) \<longrightarrow> img' y = ?img y"
    using False F(1) by (auto simp: img'_def a_def r1_def area_def extra_def)
  moreover have "free_zero img' (F + extra nb)" using z aF(4) G by (auto simp: free_zero_def img'_def)
  ultimately show ?thesis using r1 by (intro exI [of _ "i_addrs r1"] exI [of _ img']) (simp add: Let_def)
qed

subsection \<open>Appending\<close>

definition nblk :: "nat \<Rightarrow> nat" where
  "nblk n = (n + (BSIZE - 1)) div BSIZE"

text \<open>The number of blocks that a file of \<open>n\<close> bytes takes, with its indirect block.\<close>

definition cost :: "nat \<Rightarrow> nat" where
  "cost n = nblk n + (if NDIRECT < nblk n then 1 else 0)"

lemma nblk_split:
  assumes "e < BSIZE"
  shows "nblk (BSIZE * q + e) = (if e = 0 then q else Suc q)"
proof -
  have "(e + 511) div 512 = 1" if "0 < e" using that assms by (intro div_nat_eqI) (simp_all add: BSIZE_def)
  moreover have "(512 * q + e + 511) div 512 = q + (e + 511) div 512" using div_mult_self4 [of 512 q "e + 511"] by (simp add: add.assoc)
  ultimately show ?thesis by (simp add: nblk_def BSIZE_def)
qed

lemma nblk_part:
  assumes "0 < k"
  shows "nblk (n + part n k) = Suc (n div BSIZE)"
proof -
  let ?q = "n div BSIZE" and ?e = "n mod BSIZE"
  have e: "?e < BSIZE" by (simp add: BSIZE_def)
  have n: "BSIZE * ?q + (?e + part n k) = n + part n k" by simp
  have p: "0 < part n k" "?e + part n k \<le> BSIZE" using part_pos [OF assms] e by (auto simp: part_def)
  show ?thesis
  proof (cases "?e + part n k = BSIZE")
    case True
    then have "n + part n k = BSIZE * Suc ?q + 0" using n by simp
    then show ?thesis using nblk_split [of 0 "Suc ?q"] by (simp add: BSIZE_def)
  next
    case False
    then show ?thesis using nblk_split [of "?e + part n k" ?q] p unfolding n by simp
  qed
qed

lemma nblk_cases: "nblk n = (if n mod BSIZE = 0 then n div BSIZE else Suc (n div BSIZE))"
  using nblk_split [of "n mod BSIZE" "n div BSIZE"] by (simp add: BSIZE_def)

lemma nblk_covers: "n \<le> nblk n * BSIZE"
proof -
  have "(n + 511) div 512 * 512 + (n + 511) mod 512 = n + 511" "(n + 511) mod 512 < 512" by simp_all
  then show ?thesis by (simp add: nblk_def BSIZE_def)
qed

lemma cost_part:
  assumes "0 < k"
  shows "cost (n + part n k) = cost n + (if n mod BSIZE = 0 then extra (n div BSIZE) else 0)"
  unfolding cost_def nblk_part [OF assms] nblk_cases [of n] by (auto simp: extra_def)

definition base :: "mkfs \<Rightarrow> bool" where
  "base s \<longleftrightarrow> fine s \<and> nmeta \<le> unat (m_freeblock s) \<and> unat (m_freeblock s) \<le> 2000 \<and> free_zero (m_img s) (unat (m_freeblock s))"

abbreviation "bl s r c \<equiv> blocks_of (m_img s) r (nblk (length c))"

abbreviation "fb s \<equiv> unat (m_freeblock s)"

definition file_in :: "mkfs \<Rightarrow> inode \<Rightarrow> uchar list \<Rightarrow> bool" where
  "file_in s r c \<longleftrightarrow> mapped (m_img s) r (nblk (length c)) \<and> (\<forall>i<length c. fbyte (m_img s) r i = c ! i) \<and> bl s r c \<subseteq> area nmeta (fb s)"

text \<open>A step that changes only the blocks \<open>B\<close> and blocks that were free.\<close>

definition grows :: "uint set \<Rightarrow> mkfs \<Rightarrow> mkfs \<Rightarrow> bool" where
  "grows B s t \<longleftrightarrow> base t \<and> fb s \<le> fb t \<and> (\<exists>img f. t = s\<lparr>m_img := img, m_freeblock := f\<rparr>) \<and>
     (\<forall>x. x \<notin> B \<and> x \<notin> area (fb s) (fb t) \<longrightarrow> m_img t x = m_img s x)"

lemma grows_refl: "base s \<Longrightarrow> grows B s s"
  unfolding grows_def by (intro conjI exI [of _ "m_img s"] exI [of _ "m_freeblock s"]) simp_all

lemma growsD:
  assumes "grows B s t"
  shows "base t" "fb s \<le> fb t" "\<And>x. x \<notin> B \<Longrightarrow> x \<notin> area (fb s) (fb t) \<Longrightarrow> m_img t x = m_img s x"
    "\<exists>img f. t = s\<lparr>m_img := img, m_freeblock := f\<rparr>"
  using assms by (simp_all add: grows_def)

lemma growsI:
  assumes "base t" "fb s \<le> fb t" "\<And>x. x \<notin> B \<Longrightarrow> x \<notin> area (fb s) (fb t) \<Longrightarrow> m_img t x = m_img s x"
    "t = s\<lparr>m_img := img, m_freeblock := f\<rparr>"
  shows "grows B s t"
  unfolding grows_def using assms(1-3) by (intro conjI exI [of _ img] exI [of _ f] assms(4)) simp_all

lemma grows_trans:
  assumes "grows B s t" "grows B' t u" "B' \<subseteq> B \<union> area (fb s) (fb t)"
  shows "grows B s u"
proof -
  note a = growsD [OF assms(1)] and b = growsD [OF assms(2)]
  obtain i f where t: "t = s\<lparr>m_img := i, m_freeblock := f\<rparr>" using a(4) by (elim exE)
  obtain i' f' where u: "u = t\<lparr>m_img := i', m_freeblock := f'\<rparr>" using b(4) by (elim exE)
  show ?thesis
  proof (rule growsI [OF b(1)])
    show "fb s \<le> fb u" using a(2) b(2) by simp
    show "u = s\<lparr>m_img := i', m_freeblock := f'\<rparr>" unfolding u t by simp
    fix x assume x: "x \<notin> B" "x \<notin> area (fb s) (fb u)"
    then have "x \<notin> area (fb s) (fb t)" "x \<notin> area (fb t) (fb u)" using a(2) b(2) by (auto simp: area_def)
    moreover from this have "x \<notin> B'" using assms(3) x(1) by blast
    ultimately show "m_img u x = m_img s x" using a(3) [OF x(1)] b(3) by simp
  qed
qed

text \<open>The block for the next byte of a file.\<close>

lemma iappend_block_ready:
  assumes b: "base s" and f: "file_in s r c" and k: "0 < k" "length c + k \<le> MAXFILE * BSIZE"
    and room: "fb s + cost (length c + part (length c) k) \<le> 2000 + cost (length c)"
  defines "q \<equiv> length c div BSIZE"
  shows "\<exists>a t. let r' = r\<lparr>i_addrs := a\<rparr> in
     iappend_block q r s = Inr (fblk (m_img t) r' q, r', t) \<and> grows (bl s r c) s t \<and> mapped (m_img t) r' (Suc q) \<and>
     (\<forall>i<length c. fbyte (m_img t) r' i = c ! i) \<and> blocks_of (m_img t) r' (Suc q) \<subseteq> bl s r c \<union> area (fb s) (fb t) \<and>
     fb t + cost (length c) = fb s + cost (length c + part (length c) k)"
proof (cases "length c mod BSIZE = 0")
  case False
  then have nb: "nblk (length c) = Suc q" by (simp add: nblk_cases q_def)
  have "iappend_block q r s = Inr (fblk (m_img s) r q, r, s)"
    using iappend_block_old [of s r "Suc q" q] b f nb by (simp add: base_def file_in_def)
  moreover have "cost (length c) = cost (length c + part (length c) k)" using False cost_part [OF k(1), of "length c"] by simp
  moreover have "grows (bl s r c) s s" using b by (rule grows_refl)
  ultimately show ?thesis using f nb by (intro exI [of _ "i_addrs r"] exI [of _ s]) (simp add: file_in_def)
next
  case True
  let ?F = "fb s"
  define F' where "F' = ?F + extra q"
  have nb: "nblk (length c) = q" using True by (simp add: nblk_cases q_def)
  have "length c < MAXFILE * BSIZE" using k by simp
  then have qm: "q < MAXFILE" by (simp add: q_def less_mult_imp_div_less)
  have c: "cost (length c + part (length c) k) = cost (length c) + extra q" using True cost_part [OF k(1), of "length c"] by (simp add: q_def)
  have pre: "fine s" "mapped (m_img s) r q" "0 < ?F" "?F + extra q \<le> 2000" "blocks_of (m_img s) r q \<subseteq> area nmeta ?F" "free_zero (m_img s) ?F"
    using b f nb room c by (auto simp: base_def file_in_def nmeta_eq)
  from iappend_block_new [OF pre(1,2) qm refl pre(3,4,5,6)] obtain a img where
    n: "iappend_block q r s = Inr (fblk img (r\<lparr>i_addrs := a\<rparr>) q, r\<lparr>i_addrs := a\<rparr>, s\<lparr>m_img := img, m_freeblock := of_nat F'\<rparr>)"
      "mapped img (r\<lparr>i_addrs := a\<rparr>) (Suc q)" "\<forall>b<q. fblk img (r\<lparr>i_addrs := a\<rparr>) b = fblk (m_img s) r b"
      "blocks_of img (r\<lparr>i_addrs := a\<rparr>) (Suc q) \<subseteq> blocks_of (m_img s) r q \<union> area ?F F'"
      "\<forall>x. x \<notin> area ?F F' \<and> \<not> (NDIRECT < q \<and> x = i_addrs r NDIRECT) \<longrightarrow> img x = m_img s x"
      "free_zero img F'" unfolding Let_def F'_def by blast
  let ?t = "s\<lparr>m_img := img, m_freeblock := of_nat F'\<rparr>" and ?r = "r\<lparr>i_addrs := a\<rparr>"
  have "F' \<le> 2000" "?F \<le> F'" using pre(4) by (simp_all add: F'_def)
  then have ft: "unat (of_nat F' :: uint) = F'" "F' \<le> 2000" "?F \<le> F'" by (simp_all add: unat_of_nat)
  have bt: "fb ?t = F'" "m_img ?t = img" using ft by simp_all
  have "base ?t" using pre n(6) b ft by (simp add: base_def fine_def)
  moreover have "\<forall>x. x \<notin> bl s r c \<and> x \<notin> area ?F (fb ?t) \<longrightarrow> img x = m_img s x"
    using n(5) unfolding bt nb by (auto simp: blocks_of_def)
  ultimately have "grows (bl s r c) s ?t" unfolding grows_def bt using ft(3) by auto
  moreover have "\<forall>i<length c. fbyte img ?r i = c ! i"
  proof (intro allI impI)
    fix i assume i: "i < length c"
    then have "i < q * BSIZE" using True by (simp add: q_def) (metis mod_0_imp_dvd dvd_div_mult_self)
    then have iq: "i div BSIZE < q" by (simp add: less_mult_imp_div_less)
    then have x: "fblk (m_img s) r (i div BSIZE) \<in> blocks_of (m_img s) r q" by (auto simp: blocks_of_def)
    then have "fblk (m_img s) r (i div BSIZE) \<notin> area ?F F'" using pre(5) by (auto simp: area_def)
    moreover have "\<not> (NDIRECT < q \<and> fblk (m_img s) r (i div BSIZE) = i_addrs r NDIRECT)"
      using mapped_indirect [OF pre(2) _ iq] by blast
    ultimately show "fbyte img ?r i = c ! i" using n(3,5) iq f i by (simp add: fbyte_def file_in_def)
  qed
  ultimately show ?thesis using n(1,2,4) c unfolding Let_def nb
    by (intro exI [of _ a] exI [of _ ?t]) (simp add: ft F'_def [symmetric])
qed

text \<open>A write into a block of the file.\<close>

lemma mapped_write:
  fixes v :: block
  assumes m: "mapped img r nb" and b: "b < nb"
  defines "img' \<equiv> img(fblk img r b := v)"
  shows "mapped img' r nb" "blocks_of img' r nb = blocks_of img r nb"
proof -
  have f: "file_ok img FSSIZE r nb" using m by (simp add: mapped_def)
  note w = file_write_block [OF f b, where v = v, folded img'_def]
  have "img' (i_addrs r NDIRECT) = img (i_addrs r NDIRECT)" if "NDIRECT < nb"
    using mapped_indirect [OF m that b] by (simp add: img'_def)
  then show "mapped img' r nb" using m w(1) unfolding mapped_def by simp
  have "fblk img' r ` {..<nb} = fblk img r ` {..<nb}" using w(2) by (auto intro!: image_cong)
  then show "blocks_of img' r nb = blocks_of img r nb" by (simp add: blocks_of_def)
qed

lemma append_part_step:
  assumes b: "base s" and f: "file_in s r c" and off: "unat off = length c" and p: "p \<noteq> []" "length c + length p \<le> MAXFILE * BSIZE"
  defines "m \<equiv> part (length c) (length p)"
  assumes room: "fb s + cost (length c + m) \<le> 2000 + cost (length c)"
  shows "\<exists>a t. let r' = r\<lparr>i_addrs := a\<rparr> in
     iappend_loop r off p s = iappend_loop r' (off + of_nat m) (drop m p) t \<and> grows (bl s r c) s t \<and> file_in t r' (c @ take m p) \<and>
     bl t r' (c @ take m p) \<subseteq> bl s r c \<union> area (fb s) (fb t) \<and> fb t + cost (length c) = fb s + cost (length c + m)"
proof -
  let ?q = "length c div BSIZE"
  have k: "0 < length p" using p(1) by simp
  have mp: "0 < m" "m \<le> length p" using part_pos [OF k] part_le by (simp_all add: m_def)
  from iappend_block_ready [OF b f k p(2) room [unfolded m_def], folded m_def] obtain a t where
    t: "iappend_block ?q r s = Inr (fblk (m_img t) (r\<lparr>i_addrs := a\<rparr>) ?q, r\<lparr>i_addrs := a\<rparr>, t)" "grows (bl s r c) s t"
      "mapped (m_img t) (r\<lparr>i_addrs := a\<rparr>) (Suc ?q)" "\<forall>i<length c. fbyte (m_img t) (r\<lparr>i_addrs := a\<rparr>) i = c ! i"
      "blocks_of (m_img t) (r\<lparr>i_addrs := a\<rparr>) (Suc ?q) \<subseteq> bl s r c \<union> area (fb s) (fb t)"
      "fb t + cost (length c) = fb s + cost (length c + m)" unfolding Let_def by blast
  define r' where "r' = r\<lparr>i_addrs := a\<rparr>"
  note t = t [folded r'_def]
  define x where "x = fblk (m_img t) r' ?q"
  define d where "d = put_bytes (length c mod BSIZE) (take m p) (m_img t x)"
  define u where "u = t\<lparr>m_img := (m_img t)(x := d)\<rparr>"
  have bt: "base t" "fine t" using t(2) by (simp_all add: grows_def base_def)
  have xb: "x \<in> blocks_of (m_img t) r' (Suc ?q)" by (auto simp: blocks_of_def x_def)
  have xs: "x < FSSIZE" using blocks_bounds [OF t(3) xb] by simp
  have "length c + length p \<le> 70656" using p(2) by (simp add: MAXFILE_def NDIRECT_def NINDIRECT_def BSIZE_def)
  have dv: "unat (off div of_nat BSIZE) = ?q" using off by (simp add: BSIZE_def unat_div)
  have "off - off div of_nat BSIZE * of_nat BSIZE = off mod of_nat BSIZE" by (rule minus_div_mult_eq_mod)
  then have md: "unat (off - off div of_nat BSIZE * of_nat BSIZE) = length c mod BSIZE" using off by (simp add: BSIZE_def unat_mod)
  have "length c < MAXFILE * BSIZE" using p(2) k by linarith
  then have qm: "?q < MAXFILE" by (simp add: less_mult_imp_div_less)
  have step: "iappend_loop r off p s = iappend_loop r' (off + of_nat m) (drop m p) u"
    unfolding iappend_loop.simps [of r off p s] Let_def dv md append_part_eq off m_def [symmetric] t(1) x_def [symmetric]
    using p(1) qm rsect_fine [OF bt(2) xs] wsect_fine [OF bt(2) xs] by (simp add: d_def [symmetric] u_def)
  have eqs: "m_img u = (m_img t)(x := d)" "fb u = fb t" by (simp_all add: u_def)
  have fbm: "fb s \<le> fb t" using t(2) by (simp add: grows_def)
  have sub: "bl s r c \<union> area (fb s) (fb t) \<subseteq> area nmeta (fb t)" using f b fbm by (auto simp: file_in_def area_def base_def)
  have xin: "x \<in> bl s r c \<union> area (fb s) (fb t)" using t(5) xb by blast
  then have low: "unat x < fb t" using sub by (auto simp: area_def)
  have "free_zero (m_img u) (fb u)" using bt(1) low unfolding eqs free_zero_def base_def by auto
  then have "base u" using bt unfolding base_def eqs by (simp add: fine_def u_def)
  moreover have "m_img u y = m_img s y" if "y \<notin> bl s r c" "y \<notin> area (fb s) (fb t)" for y
    using that xin t(2) unfolding grows_def eqs by auto
  moreover obtain i g where "t = s\<lparr>m_img := i, m_freeblock := g\<rparr>" using t(2) by (auto simp: grows_def)
  then have "u = s\<lparr>m_img := i(x := d), m_freeblock := g\<rparr>" by (simp add: u_def)
  ultimately have g: "grows (bl s r c) s u" using growsI [of u s] fbm unfolding eqs(2) by blast
  have nb: "nblk (length (c @ take m p)) = Suc ?q" using nblk_part [OF k, of "length c"] mp by (simp add: m_def)
  note w = mapped_write [OF t(3) lessI, of d, folded x_def eqs(1)]
  have bytes: "fbyte (m_img u) r' i = (c @ take m p) ! i" if i: "i < length (c @ take m p)" for i
  proof -
    have "i div BSIZE \<le> ?q"
    proof (cases "i < length c")
      case False
      then have "i - length c < part (length c) (length p)" using i mp by (auto simp: m_def)
      from part_block(1) [OF this] show ?thesis using False by simp
    qed (simp add: div_le_mono)
    then have "i div BSIZE < Suc ?q" by simp
    then have ib: "i < Suc ?q * BSIZE" by (subst (asm) div_less_iff_less_mult) (simp_all add: BSIZE_def)
    have "length (take m p) \<le> part (length c) (length p)" using mp by (simp add: m_def)
    from fbyte_put_bytes [OF _ _ this ib, of "m_img t" FSSIZE r'] t(3)
    have "fbyte (m_img u) r' i = overlay (fbyte (m_img t) r') (length c) (take m p) i"
      by (simp add: mapped_def eqs(1) d_def x_def)
    then show ?thesis using t(4) i by (auto simp: overlay_def nth_append)
  qed
  have sub': "bl u r' (c @ take m p) \<subseteq> bl s r c \<union> area (fb s) (fb u)" unfolding nb w(2) eqs(2) by (rule t(5))
  also have "\<dots> \<subseteq> area nmeta (fb u)" unfolding eqs(2) by (rule sub)
  finally have "file_in u r' (c @ take m p)" using w(1) bytes unfolding file_in_def nb by blast
  moreover have "fb u + cost (length c) = fb s + cost (length c + m)" unfolding eqs(2) by (rule t(6))
  ultimately show ?thesis using step g sub' unfolding r'_def Let_def by blast
qed

lemma cost_mono: "n \<le> k \<Longrightarrow> cost n \<le> cost k"
proof -
  assume "n \<le> k"
  then have "nblk n \<le> nblk k" by (simp add: nblk_def div_le_mono)
  then show ?thesis by (auto simp: cost_def)
qed

lemma iappend_loop_ok:
  assumes "base s" "file_in s r c" "unat off = length c" "length c + length p \<le> MAXFILE * BSIZE"
    and "fb s + cost (length c + length p) \<le> 2000 + cost (length c)"
  shows "\<exists>a t. let r' = r\<lparr>i_addrs := a\<rparr> in
     iappend_loop r off p s = Inr (r', off + of_nat (length p), t) \<and> grows (bl s r c) s t \<and> file_in t r' (c @ p) \<and>
     bl t r' (c @ p) \<subseteq> bl s r c \<union> area (fb s) (fb t) \<and> fb t + cost (length c) = fb s + cost (length c + length p)"
  using assms
proof (induction "length p" arbitrary: r off p s c rule: less_induct)
  case less
  show ?case
  proof (cases "p = []")
    case True
    then have "iappend_loop r off p s = Inr (r, off + of_nat (length p), s)" by (simp add: iappend_loop.simps)
    then show ?thesis using less.prems(1,2) grows_refl True by (intro exI [of _ "i_addrs r"] exI [of _ s]) simp
  next
    case False
    define m where "m = part (length c) (length p)"
    have mp: "0 < m" "m \<le> length p" using False part_pos part_le by (simp_all add: m_def)
    have "cost (length c + m) \<le> cost (length c + length p)" using mp by (intro cost_mono) simp
    then have room: "fb s + cost (length c + m) \<le> 2000 + cost (length c)" using less.prems(5) by simp
    from append_part_step [OF less.prems(1-3) False less.prems(4), folded m_def, OF room] obtain a t where
      t: "iappend_loop r off p s = iappend_loop (r\<lparr>i_addrs := a\<rparr>) (off + of_nat m) (drop m p) t" "grows (bl s r c) s t"
        "file_in t (r\<lparr>i_addrs := a\<rparr>) (c @ take m p)" "bl t (r\<lparr>i_addrs := a\<rparr>) (c @ take m p) \<subseteq> bl s r c \<union> area (fb s) (fb t)"
        "fb t + cost (length c) = fb s + cost (length c + m)" unfolding Let_def by blast
    define c' where "c' = c @ take m p"
    have len: "length c' = length c + m" "length c' + length (drop m p) = length c + length p" "c' @ drop m p = c @ p"
      using mp by (simp_all add: c'_def)
    have "length c + length p \<le> 70656" using less.prems(4) by (simp add: MAXFILE_def NDIRECT_def NINDIRECT_def BSIZE_def)
    then have off: "unat (off + of_nat m) = length c'" using less.prems(3) mp len(1) by (simp add: unat_word_ariths unat_of_nat)
    have shorter: "length (drop m p) < length p" using mp by simp
    have pre: "fb t + cost (length c' + length (drop m p)) \<le> 2000 + cost (length c')" using t(5) less.prems(5) unfolding len(2) unfolding len(1) by simp
    have fit: "length c' + length (drop m p) \<le> MAXFILE * BSIZE" unfolding len(2) by (rule less.prems(4))
    from less.hyps [OF shorter growsD(1) [OF t(2)] t(3) [folded c'_def] off fit pre] obtain a' u where
      u: "iappend_loop (r\<lparr>i_addrs := a\<rparr>) (off + of_nat m) (drop m p) t =
          Inr (r\<lparr>i_addrs := a'\<rparr>, off + of_nat m + of_nat (length (drop m p)), u)"
        "grows (bl t (r\<lparr>i_addrs := a\<rparr>) c') t u" "file_in u (r\<lparr>i_addrs := a'\<rparr>) (c @ p)"
        "bl u (r\<lparr>i_addrs := a'\<rparr>) (c @ p) \<subseteq> bl t (r\<lparr>i_addrs := a\<rparr>) c' \<union> area (fb t) (fb u)"
        "fb u + cost (length c') = fb t + cost (length c + length p)"
      unfolding Let_def len(2,3) by auto
    have o': "off + of_nat m + of_nat (length (drop m p)) = off + of_nat (length p)" using mp by (simp add: of_nat_diff)
    have g: "grows (bl s r c) s u" using grows_trans [OF t(2) u(2)] t(4) by (simp add: c'_def)
    have "area (fb s) (fb t) \<union> area (fb t) (fb u) \<subseteq> area (fb s) (fb u)"
      using growsD(2) [OF t(2)] growsD(2) [OF u(2)] by (auto simp: area_def)
    then have "bl u (r\<lparr>i_addrs := a'\<rparr>) (c @ p) \<subseteq> bl s r c \<union> area (fb s) (fb u)" using u(4) t(4) unfolding c'_def by blast
    moreover have "fb u + cost (length c) = fb s + cost (length c + length p)" using u(5) t(5) len(1) by simp
    ultimately show ?thesis using t(1) u(1,3) g unfolding o' Let_def by auto
  qed
qed

subsection \<open>The inodes\<close>

definition slot :: "mkfs \<Rightarrow> uint \<Rightarrow> inode" where
  "slot s i = get_dinode (dinode_at i) (m_img s (IBLOCK i mk_sb)) no_dinode"

lemma IBLOCK_meta:
  assumes "unat i < 208"
  shows "32 \<le> unat (IBLOCK i mk_sb)" "unat (IBLOCK i mk_sb) < 58" "IBLOCK i mk_sb < FSSIZE"
proof -
  have "sb_inodestart mk_sb = 32" by (simp add: mk_sb_def nlog_def LOGSIZE_def MAXOPBLOCKS_def)
  moreover have "unat (i div 8) < 26" using assms by (simp add: unat_div)
  ultimately have "unat (IBLOCK i mk_sb) = unat (i div 8) + 32"
    by (simp add: IBLOCK_def IPB_def BSIZE_def unat_word_ariths)
  then show "32 \<le> unat (IBLOCK i mk_sb)" "unat (IBLOCK i mk_sb) < 58" "IBLOCK i mk_sb < FSSIZE"
    using \<open>unat (i div 8) < 26\<close> by (simp_all add: FSSIZE_def word_less_nat_alt)
qed

lemma rinode_ok: "fine s \<Longrightarrow> unat i < 208 \<Longrightarrow> rinode i s = Inr (slot s i)"
  using rsect_fine [of s "IBLOCK i mk_sb"] IBLOCK_meta(3) by (simp add: rinode_def slot_def fine_def)

definition with_slot :: "uint \<Rightarrow> inode \<Rightarrow> mkfs \<Rightarrow> mkfs" where
  "with_slot i r s = s\<lparr>m_img := (m_img s)(IBLOCK i mk_sb := put_dinode (dinode_at i) r (m_img s (IBLOCK i mk_sb)))\<rparr>"

lemma winode_ok:
  assumes "fine s" "unat i < 208"
  shows "winode i r s = Inr (with_slot i r s)"
  using rsect_fine [OF assms(1) IBLOCK_meta(3) [OF assms(2)]] wsect_fine [OF assms(1) IBLOCK_meta(3) [OF assms(2)]] assms(1)
  by (simp add: winode_def with_slot_def fine_def Let_def)

text \<open>The fields of an inode that are on the disk.\<close>

definition same_dinode :: "inode \<Rightarrow> inode \<Rightarrow> bool" where
  "same_dinode r q \<longleftrightarrow> i_type r = i_type q \<and> i_nlink r = i_nlink q \<and> i_size r = i_size q \<and> i_uid r = i_uid q \<and> i_gid r = i_gid q \<and>
     i_mode r = i_mode q \<and> i_dev r = i_dev q \<and> (\<forall>i\<le>NDIRECT. i_addrs r i = i_addrs q i)"

lemma slot_with_slot:
  shows "i_dev r = 1 \<Longrightarrow> same_dinode (slot (with_slot i r s) i) r"
    and "i \<noteq> j \<Longrightarrow> slot (with_slot i r s) j = slot s j"
proof -
  show "same_dinode (slot (with_slot i r s) i) r" if "i_dev r = 1"
    using that by (simp add: slot_def with_slot_def get_put_dinode same_dinode_def no_dinode_def)
  show "slot (with_slot i r s) j = slot s j" if "i \<noteq> j"
  proof (cases "IBLOCK j mk_sb = IBLOCK i mk_sb")
    case True
    then have "dinode_at j \<noteq> dinode_at i" using that IBLOCK_slot by metis
    then have "unat j mod IPB \<noteq> unat i mod IPB" by (auto simp: dinode_at_def)
    then show ?thesis using True get_dinode_apart by (simp add: slot_def with_slot_def dinode_at_def)
  qed (simp add: slot_def with_slot_def)
qed

lemma fblk_same: "same_dinode r q \<Longrightarrow> fblk img r = fblk img q"
  by (auto simp: same_dinode_def fblk_def fun_eq_iff)

lemma blocks_of_same: "same_dinode r q \<Longrightarrow> blocks_of img r nb = blocks_of img q nb"
  using fblk_same [of r q img] by (simp add: blocks_of_def same_dinode_def)

lemma mapped_same:
  assumes "same_dinode r q"
  shows "mapped img r nb = mapped img q nb"
proof -
  have f: "fblk img r = fblk img q" using assms by (rule fblk_same)
  have "i_dev r = i_dev q" "i_addrs r NDIRECT = i_addrs q NDIRECT" "\<And>b. b < NDIRECT \<Longrightarrow> i_addrs r b = i_addrs q b"
    using assms by (simp_all add: same_dinode_def)
  then show ?thesis unfolding mapped_def file_ok_def f by auto
qed

lemma file_in_same: "same_dinode r q \<Longrightarrow> file_in s r c = file_in s q c"
  by (simp add: file_in_def fbyte_def mapped_same [of r q] blocks_of_same [of r q] fblk_same [of r q])

text \<open>A file whose blocks are left alone stays.\<close>

lemma file_in_frame:
  assumes f: "file_in s r c" and same: "\<And>x. x \<in> bl s r c \<Longrightarrow> m_img t x = m_img s x" and le: "fb s \<le> fb t"
  shows "file_in t r c" "bl t r c = bl s r c"
proof -
  let ?n = "nblk (length c)"
  have m: "mapped (m_img s) r ?n" using f by (simp add: file_in_def)
  have ind: "m_img t (i_addrs r NDIRECT) = m_img s (i_addrs r NDIRECT)" if "NDIRECT < ?n"
    using that same by (simp add: blocks_of_def)
  have fb: "fblk (m_img t) r b = fblk (m_img s) r b" if "b < ?n" for b
    using that ind by (cases "b < NDIRECT") (simp_all add: fblk_def)
  then have im: "fblk (m_img t) r ` {..<?n} = fblk (m_img s) r ` {..<?n}" by (auto intro!: image_cong)
  then show bl: "bl t r c = bl s r c" by (simp add: blocks_of_def)
  have "inj_on (fblk (m_img t) r) {..<?n} = inj_on (fblk (m_img s) r) {..<?n}" using fb by (auto intro!: inj_on_cong)
  then have "file_ok (m_img t) FSSIZE r ?n" using m fb unfolding mapped_def file_ok_def im by simp
  then have "mapped (m_img t) r ?n" using m ind unfolding mapped_def by auto
  moreover have "fbyte (m_img t) r i = c ! i" if "i < length c" for i
  proof -
    have "i < ?n * BSIZE" using that nblk_covers [of "length c"] by simp
    then have "i div BSIZE < ?n" by (simp add: less_mult_imp_div_less)
    then show ?thesis using fb same f that by (simp add: fbyte_def file_in_def blocks_of_def)
  qed
  moreover have "bl t r c \<subseteq> area nmeta (fb t)" using f le unfolding bl by (auto simp: file_in_def area_def)
  ultimately show "file_in t r c" by (simp add: file_in_def)
qed

subsection \<open>The whole image\<close>

definition ino :: "nat \<Rightarrow> uint" where
  "ino n = of_nat (Suc n)"

lemma unat_ino:
  assumes "n < 200"
  shows "unat (ino n) = Suc n"
  unfolding ino_def using assms by (simp only: unat_of_nat) simp

lemma ino_inj:
  assumes "m < 200" "n < 200"
  shows "ino m = ino n \<longleftrightarrow> m = n"
  using unat_ino [OF assms(1)] unat_ino [OF assms(2)] by (metis Suc_inject)

text \<open>An inode of mkfs, with the size and the contents \<open>c\<close>.\<close>

definition mk_inode :: "inode \<Rightarrow> ushort \<Rightarrow> uchar list \<Rightarrow> bool" where
  "mk_inode r ty c \<longleftrightarrow> i_type r = ty \<and> i_nlink r = 1 \<and> i_size r = of_nat (length c) \<and> i_uid r = DEFAULT_UID \<and> i_gid r = DEFAULT_GID \<and>
     i_mode r = DEFAULT_MODE \<and> length c \<le> MAXFILE * BSIZE"

lemma mk_inode_same: "same_dinode r q \<Longrightarrow> mk_inode r ty c = mk_inode q ty c"
  by (simp add: mk_inode_def same_dinode_def)

abbreviation "fbl s fs n \<equiv> bl s (slot s (ino n)) (snd (fs ! n))"

definition fs_ok :: "mkfs \<Rightarrow> (ushort \<times> uchar list) list \<Rightarrow> bool" where
  "fs_ok s fs \<longleftrightarrow> base s \<and> length fs \<le> 199 \<and> m_freeinode s = ino (length fs) \<and>
     (\<forall>n < length fs. file_in s (slot s (ino n)) (snd (fs ! n)) \<and> mk_inode (slot s (ino n)) (fst (fs ! n)) (snd (fs ! n))) \<and>
     (\<forall>m n. m < length fs \<and> n < length fs \<and> m \<noteq> n \<longrightarrow> fbl s fs m \<inter> fbl s fs n = {}) \<and>
     m_img s 1 = sb_block mk_sb \<and> (\<forall>x. unat x < 32 \<and> x \<noteq> 1 \<longrightarrow> m_img s x = (\<lambda>_. 0))"

lemma fs_okD:
  assumes "fs_ok s fs"
  shows "base s" "length fs \<le> 199" "m_freeinode s = ino (length fs)"
    "\<And>n. n < length fs \<Longrightarrow> file_in s (slot s (ino n)) (snd (fs ! n))"
    "\<And>n. n < length fs \<Longrightarrow> mk_inode (slot s (ino n)) (fst (fs ! n)) (snd (fs ! n))"
    "\<And>m n. m < length fs \<Longrightarrow> n < length fs \<Longrightarrow> m \<noteq> n \<Longrightarrow> fbl s fs m \<inter> fbl s fs n = {}"
    "m_img s 1 = sb_block mk_sb" "\<And>x. unat x < 32 \<Longrightarrow> x \<noteq> 1 \<Longrightarrow> m_img s x = (\<lambda>_. 0)"
  using assms unfolding fs_ok_def by blast+

lemma base_with_slot:
  assumes "base s" "unat i < 208"
  shows "base (with_slot i r s)" "fb (with_slot i r s) = fb s"
proof -
  show "fb (with_slot i r s) = fb s" by (simp add: with_slot_def)
  have "\<not> fb s \<le> unat (IBLOCK i mk_sb)" using IBLOCK_meta [OF assms(2)] assms(1) by (simp add: base_def nmeta_eq)
  then show "base (with_slot i r s)" using assms(1) by (auto simp: base_def with_slot_def fine_def free_zero_def)
qed

lemma with_slot_img: "unat i < 208 \<Longrightarrow> unat x < 32 \<or> 58 \<le> unat x \<Longrightarrow> m_img (with_slot i r s) x = m_img s x"
  using IBLOCK_meta [of i] by (auto simp: with_slot_def)

text \<open>A file is replaced by one that keeps or takes free blocks.\<close>

lemma fs_ok_update:
  assumes ok: "fs_ok s fs" and n: "n < length fs" and g: "grows (fbl s fs n) s t" and f: "file_in t r c"
    and sub: "bl t r c \<subseteq> fbl s fs n \<union> area (fb s) (fb t)" and r: "mk_inode r ty c" "i_dev r = 1"
  shows "fs_ok (with_slot (ino n) r t) (fs[n := (ty, c)])"
proof -
  let ?u = "with_slot (ino n) r t" and ?gs = "fs[n := (ty, c)]"
  note gd = growsD [OF g] and D = fs_okD [OF ok]
  note len = D(2)
  have un: "unat (ino k) < 208" if "k < length fs" for k using that len by (simp add: unat_ino)
  note bu = base_with_slot [OF gd(1) un [OF n], of r]
  have old: "fbl s fs k \<subseteq> area nmeta (fb s)" if "k < length fs" for k
    using D(4) [OF that] by (simp add: file_in_def)
  have img: "m_img ?u x = m_img s x" if "unat x < 32 \<or> 58 \<le> unat x" "x \<notin> fbl s fs n" "x \<notin> area (fb s) (fb t)" for x
    using that with_slot_img [OF un [OF n]] gd(3) by simp
  have bs: "nmeta \<le> fb s" using D(1) by (simp add: base_def)
  have meta: "x \<notin> fbl s fs n" "x \<notin> area (fb s) (fb t)" if "unat x < 59" for x
    using that old [OF n] bs by (auto simp: area_def nmeta_eq)
  have sl: "slot ?u (ino k) = slot s (ino k)" if "k < length fs" "k \<noteq> n" for k
  proof -
    have "slot ?u (ino k) = slot t (ino k)" using slot_with_slot(2) ino_inj [of n k] that n len by simp
    also have "\<dots> = slot s (ino k)"
      using gd(3) meta IBLOCK_meta(2) [OF un [OF that(1)]] by (simp add: slot_def)
    finally show ?thesis .
  qed
  have sn: "same_dinode (slot ?u (ino n)) r" using slot_with_slot(1) r(2) by simp
  have new: "file_in ?u r c" "bl ?u r c = bl t r c"
  proof -
    have "m_img ?u x = m_img t x" if "x \<in> bl t r c" for x
    proof -
      have "x \<in> area nmeta (fb t)" using f that by (auto simp: file_in_def)
      then show ?thesis using with_slot_img [OF un [OF n]] by (simp add: area_def nmeta_eq)
    qed
    from file_in_frame [OF f this] bu(2) show "file_in ?u r c" "bl ?u r c = bl t r c" by simp_all
  qed
  have dis: "fbl s fs k \<inter> (fbl s fs n \<union> area (fb s) (fb t)) = {}" if "k < length fs" "k \<noteq> n" for k
  proof -
    have "fbl s fs k \<inter> area (fb s) (fb t) = {}" using old [OF that(1)] by (auto simp: area_def)
    then show ?thesis using D(6) [OF that(1) n that(2)] by blast
  qed
  have keep: "file_in ?u (slot ?u (ino k)) (snd (fs ! k))" "fbl ?u fs k = fbl s fs k" if k: "k < length fs" "k \<noteq> n" for k
  proof -
    have m: "m_img ?u x = m_img s x" if x: "x \<in> fbl s fs k" for x
    proof (rule img)
      have "x \<in> area nmeta (fb s)" using old [OF k(1)] x by (rule subsetD)
      then show "unat x < 32 \<or> 58 \<le> unat x" by (simp add: area_def nmeta_eq)
      show "x \<notin> fbl s fs n" "x \<notin> area (fb s) (fb t)" using dis [OF k] x by blast+
    qed
    have le: "fb s \<le> fb ?u" using gd(2) bu(2) by simp
    show "file_in ?u (slot ?u (ino k)) (snd (fs ! k))" "fbl ?u fs k = fbl s fs k"
      unfolding sl [OF k] by (rule file_in_frame [OF D(4) [OF k(1)] m le]; assumption)+
  qed
  have bn: "fbl ?u ?gs n \<subseteq> fbl s fs n \<union> area (fb s) (fb t)" using sub n new(2) blocks_of_same [OF sn] by simp
  have bk: "fbl ?u ?gs k = fbl s fs k" if "k < length fs" "k \<noteq> n" for k using keep(2) [OF that] that by simp
  have d: "fbl ?u ?gs k \<inter> fbl ?u ?gs m = {}" if "k < length fs" "m < length fs" "k \<noteq> m" for k m
  proof -
    consider "k = n" | "m = n" | "k \<noteq> n" "m \<noteq> n" by blast
    then show ?thesis
    proof cases
      case 1
      then show ?thesis using bn bk [of m] dis [of m] that by blast
    next
      case 2
      then show ?thesis using bn bk [of k] dis [of k] that by blast
    next
      case 3
      then have "fbl ?u ?gs k = fbl s fs k" "fbl ?u ?gs m = fbl s fs m" using bk that by simp_all
      then show ?thesis using D(6) [OF that] by simp
    qed
  qed
  have fi: "file_in ?u (slot ?u (ino k)) (snd (?gs ! k)) \<and> mk_inode (slot ?u (ino k)) (fst (?gs ! k)) (snd (?gs ! k))" if "k < length fs" for k
    using keep(1) [OF that] sl [OF that] new(1) file_in_same [OF sn] mk_inode_same [OF sn] r(1) D(5) [OF that] n
    by (cases "k = n") simp_all
  obtain i f where "t = s\<lparr>m_img := i, m_freeblock := f\<rparr>" using gd(4) by (elim exE)
  then have "m_freeinode ?u = m_freeinode s" by (simp add: with_slot_def)
  moreover have "m_img ?u x = m_img s x" if "unat x < 32" for x using img meta that by simp
  ultimately show ?thesis using D(2,3,7,8) bu(1) d fi unfolding fs_ok_def by simp
qed

lemma fblk_size [simp]: "fblk img (r\<lparr>i_size := x\<rparr>) = fblk img r"
  by (simp add: fblk_def fun_eq_iff)

lemma blocks_of_size [simp]: "blocks_of img (r\<lparr>i_size := x\<rparr>) nb = blocks_of img r nb"
  by (simp add: blocks_of_def)

lemma file_in_size [simp]: "file_in s (r\<lparr>i_size := x\<rparr>) c = file_in s r c"
  by (simp add: file_in_def mapped_def file_ok_def fbyte_def)

lemma MAXFILE_bytes: "MAXFILE * BSIZE = 70656"
  by (simp add: MAXFILE_def NDIRECT_def NINDIRECT_def BSIZE_def)

lemma iappend_ok:
  assumes ok: "fs_ok s fs" and n: "n < length fs" and c: "fs ! n = (ty, c)" and fit: "length c + length p \<le> MAXFILE * BSIZE"
    and room: "fb s + cost (length c + length p) \<le> 2000 + cost (length c)"
  shows "\<exists>u. iappend (ino n) p s = Inr u \<and> fs_ok u (fs[n := (ty, c @ p)]) \<and> fb u + cost (length c) = fb s + cost (length c + length p)"
proof -
  let ?r = "slot s (ino n)"
  note D = fs_okD [OF ok]
  have i: "unat (ino n) < 208" using n D(2) by (simp add: unat_ino)
  have f: "file_in s ?r c" and r: "mk_inode ?r ty c" using D(4,5) [OF n] c by simp_all
  have fine: "fine s" using D(1) by (simp add: base_def)
  have "length c \<le> 70656" using fit MAXFILE_bytes by simp
  then have off: "unat (i_size ?r) = length c" using r by (simp add: mk_inode_def unat_of_nat)
  from iappend_loop_ok [OF D(1) f off fit room] obtain a t where
    t: "iappend_loop ?r (i_size ?r) p s = Inr (?r\<lparr>i_addrs := a\<rparr>, i_size ?r + of_nat (length p), t)" "grows (bl s ?r c) s t"
      "file_in t (?r\<lparr>i_addrs := a\<rparr>) (c @ p)" "bl t (?r\<lparr>i_addrs := a\<rparr>) (c @ p) \<subseteq> bl s ?r c \<union> area (fb s) (fb t)"
      "fb t + cost (length c) = fb s + cost (length c + length p)" unfolding Let_def by blast
  define q where "q = ?r\<lparr>i_addrs := a\<rparr>\<lparr>i_size := i_size ?r + of_nat (length p)\<rparr>"
  have ft: "fine t" using growsD(1) [OF t(2)] by (simp add: base_def)
  have "iappend (ino n) p s = Inr (with_slot (ino n) q t)"
    using rinode_ok [OF fine i] t(1) winode_ok [OF ft i] by (simp add: iappend_def q_def)
  moreover have "mk_inode q ty (c @ p)" using r fit by (simp add: mk_inode_def q_def)
  moreover have "i_dev q = 1" by (simp add: q_def slot_def get_dinode_def no_dinode_def)
  moreover have "grows (fbl s fs n) s t" "file_in t q (c @ p)" "bl t q (c @ p) \<subseteq> fbl s fs n \<union> area (fb s) (fb t)"
    using t(2-4) c by (simp_all add: q_def)
  then have "mk_inode q ty (c @ p) \<Longrightarrow> i_dev q = 1 \<Longrightarrow> fs_ok (with_slot (ino n) q t) (fs[n := (ty, c @ p)])"
    using fs_ok_update [OF ok n] by simp
  ultimately show ?thesis using t(5) base_with_slot(2) [OF growsD(1) [OF t(2)] i] by simp
qed

lemma iappend_pieces:
  assumes "fs_ok s fs" "n < length fs" "fs ! n = (ty, c)" "length c + length (concat ps) \<le> MAXFILE * BSIZE"
    and "fb s + cost (length c + length (concat ps)) \<le> 2000 + cost (length c)"
  shows "\<exists>u. rfold (iappend (ino n)) ps s = Inr u \<and> fs_ok u (fs[n := (ty, c @ concat ps)]) \<and>
     fb u + cost (length c) = fb s + cost (length c + length (concat ps))"
  using assms
proof (induction ps arbitrary: s fs c)
  case Nil
  then show ?case using list_update_id [of fs n] by (intro exI [of _ s]) simp
next
  case (Cons p ps)
  let ?N = "length c + length (concat (p # ps))"
  have "cost (length c + length p) \<le> cost ?N" by (intro cost_mono) simp
  then have room: "fb s + cost (length c + length p) \<le> 2000 + cost (length c)" "length c + length p \<le> MAXFILE * BSIZE"
    using Cons.prems(4,5) by simp_all
  from iappend_ok [OF Cons.prems(1,2,3) room(2,1)] obtain u where
    u: "iappend (ino n) p s = Inr u" "fs_ok u (fs[n := (ty, c @ p)])" "fb u + cost (length c) = fb s + cost (length c + length p)"
    by blast
  have "\<exists>v. rfold (iappend (ino n)) ps u = Inr v \<and> fs_ok v ((fs[n := (ty, c @ p)])[n := (ty, (c @ p) @ concat ps)]) \<and>
     fb v + cost (length (c @ p)) = fb u + cost (length (c @ p) + length (concat ps))"
    by (rule Cons.IH [OF u(2)]) (use Cons.prems(2,4,5) u(3) in \<open>simp_all add: add.assoc\<close>)
  then show ?case using u(1,3) by (auto simp: add.assoc)
qed

lemma mk_ialloc_ok:
  assumes ok: "fs_ok s fs" and n: "length fs < 199"
  shows "\<exists>u. mk_ialloc ty s = Inr (ino (length fs), u) \<and> fs_ok u (fs @ [(ty, [])]) \<and> fb u = fb s"
proof -
  note D = fs_okD [OF ok]
  let ?n = "length fs"
  define s' where "s' = s\<lparr>m_freeinode := ino (Suc ?n)\<rparr>"
  define r where "r = no_dinode\<lparr>i_type := ty, i_major := 0, i_minor := 0, i_nlink := 1, i_size := 0,
            i_uid := DEFAULT_UID, i_gid := DEFAULT_GID, i_mode := DEFAULT_MODE, i_addrs := (\<lambda>_. 0)\<rparr>"
  let ?u = "with_slot (ino ?n) r s'" and ?gs = "fs @ [(ty, [])]"
  have i: "unat (ino ?n) < 208" using n by (simp add: unat_ino)
  have b: "base s'" "fine s'" using D(1) by (simp_all add: base_def fine_def s'_def)
  note bu = base_with_slot [OF b(1) i, of r]
  have fbu: "fb ?u = fb s" using bu(2) by (simp add: s'_def)
  have "mk_ialloc ty s = Inr (ino ?n, ?u)"
    using winode_ok [OF b(2) i, of r] D(3) by (simp add: mk_ialloc_def r_def s'_def ino_def Let_def add.commute)
  moreover have "fs_ok ?u ?gs"
  proof -
    have sn: "same_dinode (slot ?u (ino ?n)) r" using slot_with_slot(1) by (simp add: r_def no_dinode_def)
    have z: "nblk 0 = 0" by (simp add: nblk_def BSIZE_def)
    have new: "file_in ?u (slot ?u (ino ?n)) []" "mk_inode (slot ?u (ino ?n)) ty []" "fbl ?u ?gs ?n = {}"
      unfolding file_in_same [OF sn] mk_inode_same [OF sn] by (simp_all add: z file_in_def mapped_def file_ok_def blocks_of_def r_def no_dinode_def mk_inode_def)
    have old: "slot ?u (ino k) = slot s (ino k)" "file_in ?u (slot ?u (ino k)) (snd (fs ! k))" "fbl ?u ?gs k = fbl s fs k" if k: "k < ?n" for k
    proof -
      have "slot ?u (ino k) = slot s' (ino k)" using slot_with_slot(2) ino_inj [of ?n k] n k by simp
      then show sl: "slot ?u (ino k) = slot s (ino k)" by (simp add: slot_def s'_def)
      have m: "m_img ?u x = m_img s x" if "x \<in> fbl s fs k" for x
      proof -
        have "x \<in> area nmeta (fb s)" using D(4) [OF k] that by (auto simp: file_in_def)
        then show ?thesis using with_slot_img [OF i] by (simp add: area_def nmeta_eq s'_def)
      qed
      note f = file_in_frame [OF D(4) [OF k] m eq_refl [OF fbu [symmetric]]]
      show "file_in ?u (slot ?u (ino k)) (snd (fs ! k))" unfolding sl using f(1) by blast
      show "fbl ?u ?gs k = fbl s fs k" unfolding sl using f(2) k by (simp add: nth_append)
    qed
    have "m_img ?u x = m_img s x" if "unat x < 32" for x using with_slot_img [OF i] that by (simp add: s'_def)
    moreover have "file_in ?u (slot ?u (ino k)) (snd (?gs ! k)) \<and> mk_inode (slot ?u (ino k)) (fst (?gs ! k)) (snd (?gs ! k))"
      if "k < length ?gs" for k
      using new(1,2) old(1,2) [of k] D(5) [of k] that by (cases "k = ?n") (auto simp: nth_append)
    moreover have "fbl ?u ?gs k \<inter> fbl ?u ?gs m = {}" if "k < length ?gs" "m < length ?gs" "k \<noteq> m" for k m
      using new(3) old(3) [of k] old(3) [of m] D(6) [of k m] that by (cases "k = ?n"; cases "m = ?n") (simp_all add: less_Suc_eq)
    moreover have "m_freeinode ?u = ino (length ?gs)" by (simp add: with_slot_def s'_def)
    ultimately show ?thesis using bu(1) n D(7,8) unfolding fs_ok_def by simp
  qed
  ultimately show ?thesis using fbu by blast
qed

subsection \<open>main\<close>

lemma wipe:
  assumes "n \<le> 2000" "m_img s = (\<lambda>_ _. 0)" "m_len s = 0" "FSSIZE \<le> m_room s"
  shows "rfold (\<lambda>i. wsect (of_nat i) (\<lambda>_. 0)) [0..<n] s = Inr (s\<lparr>m_len := of_nat n\<rparr>)"
  using assms(1)
proof (induction n)
  case 0
  then show ?case using assms(3) by simp
next
  case (Suc n)
  let ?s = "s\<lparr>m_len := of_nat n\<rparr>"
  have u: "unat (of_nat n :: uint) = n" using Suc.prems by (simp add: unat_of_nat)
  then have x: "of_nat n < FSSIZE" using Suc.prems by (simp add: FSSIZE_def word_less_nat_alt)
  then have "\<not> m_room s \<le> of_nat n" using assms(4) by auto
  moreover have "unat (of_nat (Suc n) :: uint) = Suc n" using Suc.prems by (simp only: unat_of_nat) simp
  then have "(of_nat n :: uint) \<le> of_nat (Suc n)" by (simp only: word_le_nat_alt u)
  then have "max (of_nat n) (of_nat n + 1 :: uint) = of_nat (Suc n)" by (simp add: add.commute max_def)
  moreover have "(m_img s)(of_nat n := (\<lambda>_. 0)) = m_img s" using assms(2) by (simp add: fun_upd_idem)
  then have "s\<lparr>m_img := (m_img s)(of_nat n := (\<lambda>_. 0)), m_len := k\<rparr> = s\<lparr>m_len := k\<rparr>" for k by (cases s) simp
  ultimately have "wsect (of_nat n) (\<lambda>_. 0) ?s = Inr (s\<lparr>m_len := of_nat (Suc n)\<rparr>)"
    using sector_low [OF x] by (simp add: wsect_def)
  then show ?case using Suc by (simp add: rfold_append)
qed

lemma mkfs_empty_ok:
  assumes "FSSIZE \<le> room"
  shows "\<exists>s. mkfs_empty (mkfs_start room) = Inr s \<and> fs_ok s [] \<and> fb s = nmeta"
proof -
  define s where "s = (mkfs_start room)\<lparr>m_sb := mk_sb, m_freeblock := of_nat nmeta\<rparr>"
  let ?t = "s\<lparr>m_len := FSSIZE\<rparr>"
  let ?u = "?t\<lparr>m_img := (m_img ?t)(1 := sb_block mk_sb)\<rparr>"
  have z: "m_img s = (\<lambda>_ _. 0)" "m_len s = 0" "FSSIZE \<le> m_room s" using assms by (simp_all add: s_def mkfs_start_def)
  have w: "rfold (\<lambda>i. wsect (of_nat i) (\<lambda>_. 0)) [0..<unat FSSIZE] s = Inr ?t"
    using wipe [OF _ z, of "unat FSSIZE"] by (simp add: FSSIZE_def)
  have ft: "fine ?t" using z(3) by (simp add: fine_def s_def)
  have "wsect 1 (sb_block mk_sb) ?t = Inr ?u" by (rule wsect_fine [OF ft]) (simp add: FSSIZE_def)
  then have "mkfs_empty (mkfs_start room) = Inr ?u" using w by (simp add: mkfs_empty_def s_def [symmetric])
  moreover have F: "fb ?u = nmeta" by (simp add: s_def nmeta_eq)
  moreover have "free_zero (m_img ?u) nmeta" using z(1) by (auto simp: free_zero_def nmeta_eq)
  then have "base ?u" using ft F by (simp add: base_def fine_def nmeta_eq)
  then have "fs_ok ?u []" using z(1) by (simp add: fs_ok_def ino_def s_def mkfs_start_def)
  ultimately show ?thesis by blast
qed

definition dots :: "uchar list" where
  "dots = mk_dirent 1 (chars ''.'') @ mk_dirent 1 (chars ''..'')"

lemma length_mk_dirent [simp]: "length (mk_dirent i name) = 16"
  by (simp add: mk_dirent_def DIRSIZ_def)

lemma length_dots [simp]: "length dots = 32"
  by (simp add: dots_def)

lemma mkfs_root_ok:
  assumes "fs_ok s []" "fb s = nmeta"
  shows "\<exists>t. mkfs_root s = Inr (ino 0, t) \<and> fs_ok t [(T_DIR, dots)] \<and> fb t = nmeta + cost 32"
proof -
  have c: "cost 0 = 0" "cost 16 = 1" "cost 32 = 1" by (simp_all add: cost_def nblk_def BSIZE_def NDIRECT_def)
  let ?d = "mk_dirent 1 (chars ''.'')" and ?e = "mk_dirent 1 (chars ''..'')"
  obtain t where t: "mk_ialloc T_DIR s = Inr (ino 0, t)" "fs_ok t [(T_DIR, [])]" "fb t = nmeta"
    using mk_ialloc_ok [OF assms(1), of T_DIR] assms(2) by auto
  obtain u where u: "iappend (ino 0) ?d t = Inr u" "fs_ok u [(T_DIR, ?d)]" "fb u = nmeta + 1"
    using iappend_ok [OF t(2), of 0 T_DIR "[]" ?d] t(3) c by (auto simp: MAXFILE_bytes nmeta_eq)
  obtain v where v: "iappend (ino 0) ?e u = Inr v" "fs_ok v [(T_DIR, dots)]" "fb v = nmeta + cost 32"
    using iappend_ok [OF u(2), of 0 T_DIR ?d ?e] u(3) c by (auto simp: MAXFILE_bytes nmeta_eq dots_def)
  have i: "ino 0 = 1" "ROOTINO = 1" by (simp_all add: ino_def ROOTINO_def)
  have "mkfs_root s = Inr (ino 0, v)" using t(1) u(1) v(1) by (simp add: mkfs_root_def i)
  then show ?thesis using v(2,3) by blast
qed

definition content :: "host_file \<Rightarrow> uchar list" where
  "content f = concat (the (snd f))"

definition entry :: "host_file list \<Rightarrow> nat \<Rightarrow> uchar list" where
  "entry hs n = mk_dirent (ucast (ino (Suc n))) (strip_name (fst (hs ! n)))"

definition root_dir :: "host_file list \<Rightarrow> uchar list" where
  "root_dir hs = dots @ concat (map (entry hs) [0..<length hs])"

definition image_of :: "host_file list \<Rightarrow> (ushort \<times> uchar list) list" where
  "image_of hs = (T_DIR, root_dir hs) # map (\<lambda>f. (T_FILE, content f)) hs"

definition needed :: "host_file list \<Rightarrow> nat" where
  "needed hs = nmeta + cost (32 + 16 * length hs) + sum_list (map (\<lambda>f. cost (length (content f))) hs)"

text \<open>The arguments that mkfs accepts: the names have no slash, the files can be opened, and everything fits.\<close>

definition mkfs_args :: "host_file list \<Rightarrow> bool" where
  "mkfs_args hs \<longleftrightarrow> length hs \<le> 198 \<and> needed hs \<le> 2000 \<and>
     (\<forall>f\<in>set hs. 47 \<notin> set (fst f) \<and> snd f \<noteq> None \<and> length (content f) \<le> MAXFILE * BSIZE)"

lemma length_root_dir: "length (root_dir hs) = 32 + 16 * length hs"
  by (simp add: root_dir_def length_concat comp_def entry_def sum_list_triv)

lemma image_snoc:
  "image_of (hs @ [f]) = (image_of hs @ [(T_FILE, [])])[0 := (T_DIR, root_dir hs @ entry (hs @ [f]) (length hs)),
     Suc (length hs) := (T_FILE, content f)]"
proof -
  have "map (entry (hs @ [f])) [0..<length hs] = map (entry hs) [0..<length hs]" by (intro map_cong) (simp_all add: entry_def nth_append)
  moreover have "[0..<length (hs @ [f])] = [0..<length hs] @ [length hs]" by simp
  ultimately have "root_dir (hs @ [f]) = root_dir hs @ entry (hs @ [f]) (length hs)"
    unfolding root_dir_def by (simp only: map_append concat_append append_assoc) simp
  moreover have "(map (\<lambda>f. (T_FILE, content f)) hs @ [(T_FILE, [])])[length hs := (T_FILE, content f)] =
      map (\<lambda>f. (T_FILE, content f)) (hs @ [f])"
    using list_update_length [of "map (\<lambda>f. (T_FILE, content f)) hs" "(T_FILE, [])" "[]"] by simp
  ultimately show ?thesis by (simp add: image_of_def)
qed

lemma mkfs_file_ok:
  assumes ok: "fs_ok s (image_of hs)" and fbs: "fb s = needed hs" and args: "mkfs_args (hs @ [f])"
  shows "\<exists>t. mkfs_file (ino 0) f s = Inr t \<and> fs_ok t (image_of (hs @ [f])) \<and> fb t = needed (hs @ [f])"
proof -
  let ?n = "length hs" and ?d = "root_dir hs" and ?e = "entry (hs @ [f]) (length hs)" and ?c = "content f"
  define K where "K = cost (length ?c)"
  have a: "?n < 198" "47 \<notin> set (fst f)" "length ?c \<le> MAXFILE * BSIZE" "needed (hs @ [f]) \<le> 2000" and "snd f \<noteq> None"
    using args by (simp_all add: mkfs_args_def)
  then obtain ps where ps: "snd f = Some ps" "?c = concat ps" by (auto simp: content_def)
  have nd: "needed (hs @ [f]) + cost (length ?d) = needed hs + cost (length ?d + 16) + K"
    by (simp add: needed_def length_root_dir K_def add.commute)
  have len: "length (image_of hs) = Suc ?n" by (simp add: image_of_def)
  obtain t where t: "mk_ialloc T_FILE s = Inr (ino (Suc ?n), t)" "fs_ok t (image_of hs @ [(T_FILE, [])])" "fb t = needed hs"
    using mk_ialloc_ok [OF ok, of T_FILE] a(1) fbs len by auto
  let ?fs = "image_of hs @ [(T_FILE, [])]"
  have i0: "0 < length ?fs" "?fs ! 0 = (T_DIR, ?d)" by (simp_all add: image_of_def)
  have fit: "length ?d + length ?e \<le> MAXFILE * BSIZE" "length ?e = 16" using a(1) by (simp_all add: length_root_dir MAXFILE_bytes entry_def)
  have room: "fb t + cost (length ?d + length ?e) \<le> 2000 + cost (length ?d)" using t(3) nd a(4) fit(2) by simp
  from iappend_ok [OF t(2) i0 fit(1) room] obtain u where
    u: "iappend (ino 0) ?e t = Inr u" "fs_ok u (?fs[0 := (T_DIR, ?d @ ?e)])" "fb u + cost (length ?d) = fb t + cost (length ?d + 16)"
    unfolding fit(2) by blast
  let ?gs = "?fs[0 := (T_DIR, ?d @ ?e)]"
  have i1: "Suc ?n < length ?gs" "?gs ! Suc ?n = (T_FILE, [])" by (simp_all add: image_of_def nth_append)
  have c0: "cost 0 = 0" by (simp add: cost_def nblk_def BSIZE_def)
  have "fb u + K = needed (hs @ [f])" using u(3) t(3) nd by simp
  then have room2: "fb u + cost (length [] + length (concat ps)) \<le> 2000 + cost (length [])" using a(4) c0 ps(2) by (simp add: K_def)
  have fit2: "length [] + length (concat ps) \<le> MAXFILE * BSIZE" using a(3) ps(2) by simp
  from iappend_pieces [OF u(2) i1 fit2 room2] obtain v where
    v: "rfold (iappend (ino (Suc ?n))) ps u = Inr v" "fs_ok v (?gs[Suc ?n := (T_FILE, ?c)])" "fb v = fb u + K"
    using c0 ps(2) by (auto simp: K_def)
  have e: "mk_dirent (ucast (ino (Suc ?n))) (strip_name (fst f)) = ?e" by (simp add: entry_def nth_append)
  have "mkfs_file (ino 0) f s = Inr v" using a(2) ps(1) t(1) u(1) v(1) by (simp add: mkfs_file_def e)
  moreover have "fs_ok v (image_of (hs @ [f]))" unfolding image_snoc by (rule v(2))
  moreover have "fb v = needed (hs @ [f])" using v(3) \<open>fb u + K = needed (hs @ [f])\<close> by simp
  ultimately show ?thesis by blast
qed

lemma needed_snoc: "needed hs \<le> needed (hs @ [f])"
proof -
  have "cost (32 + 16 * length hs) \<le> cost (32 + 16 * length (hs @ [f]))" by (intro cost_mono) simp
  then show ?thesis by (simp add: needed_def)
qed

lemma mkfs_files_ok:
  assumes "fs_ok s [(T_DIR, dots)]" "fb s = nmeta + cost 32" "mkfs_args hs"
  shows "\<exists>t. rfold (mkfs_file (ino 0)) hs s = Inr t \<and> fs_ok t (image_of hs) \<and> fb t = needed hs"
  using assms(3)
proof (induction hs rule: rev_induct)
  case Nil
  then show ?case using assms(1,2) by (simp add: image_of_def root_dir_def needed_def)
next
  case (snoc f hs)
  have "mkfs_args hs" using snoc.prems needed_snoc [of hs f] by (auto simp: mkfs_args_def)
  with snoc.IH obtain t where t: "rfold (mkfs_file (ino 0)) hs s = Inr t" "fs_ok t (image_of hs)" "fb t = needed hs" by blast
  from mkfs_file_ok [OF t(2,3) snoc.prems] t(1) show ?case by (auto simp: rfold_append)
qed

lemma bitmap_free: "bit_free (fold mark_bit [0..<n] (\<lambda>_. 0)) k \<longleftrightarrow> n \<le> k"
proof (induction n)
  case 0
  show ?case by (simp add: bit_free_def)
next
  case (Suc n)
  then show ?case by (simp add: bit_free_mark) linarith
qed

lemma sb_of_block: "sb_of (sb_block r) = r"
  by (cases r) (simp add: sb_of_def sb_block_def get_put_apart)

lemma BBLOCK_mk_sb:
  assumes "x < FSSIZE"
  shows "BBLOCK x mk_sb = 58" "unat x mod BPB = unat x"
proof -
  have "unat x < 2000" using assms by (simp add: FSSIZE_def word_less_nat_alt)
  then have "x div of_nat BPB = 0" by (simp add: word_unat_eq_iff unat_div BPB_def BSIZE_def)
  then show "BBLOCK x mk_sb = 58"
    by (simp add: BBLOCK_def mk_sb_def nlog_def LOGSIZE_def MAXOPBLOCKS_def ninodeblocks_def NINODES_def IPB_def BSIZE_def)
  show "unat x mod BPB = unat x" using \<open>unat x < 2000\<close> by (simp add: BPB_def BSIZE_def)
qed

definition root_size :: "host_file list \<Rightarrow> uint" where
  "root_size hs = of_nat ((length (root_dir hs) div BSIZE + 1) * BSIZE)"

lemma mkfs_finish_ok:
  assumes ok: "fs_ok s fs" and fs: "fs = image_of hs" and F: "fb s = n" "n \<le> 2000" and hs: "length hs \<le> 198"
  shows "\<exists>t. mkfs_finish (ino 0) s = Inr t \<and> m_img t 1 = sb_block mk_sb \<and> m_img t 2 = (\<lambda>_. 0) \<and> used mk_sb (m_img t) = {x. unat x < n} \<and>
     (\<forall>k < length fs. file_in t (slot t (ino k)) (snd (fs ! k)) \<and> fbl t fs k = fbl s fs k \<and> i_type (slot t (ino k)) = fst (fs ! k) \<and>
       i_nlink (slot t (ino k)) = 1 \<and> i_size (slot t (ino k)) = (if k = 0 then root_size hs else of_nat (length (snd (fs ! k)))))"
proof -
  note D = fs_okD [OF ok]
  let ?d = "root_dir hs"
  have l0: "0 < length fs" "fs ! 0 = (T_DIR, ?d)" by (simp_all add: fs image_of_def)
  have i: "unat (ino 0) < 208" by (simp add: unat_ino)
  have fine: "fine s" using D(1) by (simp add: base_def)
  have "length ?d \<le> 3200" using hs by (simp add: length_root_dir)
  moreover have r0: "i_size (slot s (ino 0)) = of_nat (length ?d)" using D(5) [OF l0(1)] l0(2) by (simp add: mk_inode_def)
  ultimately have "i_size (slot s (ino 0)) div of_nat BSIZE = of_nat (length ?d div BSIZE)"
    by (simp add: word_unat_eq_iff unat_div unat_of_nat BSIZE_def)
  then have off: "(i_size (slot s (ino 0)) div of_nat BSIZE + 1) * of_nat BSIZE = root_size hs"
    by (simp add: root_size_def BSIZE_def algebra_simps)
  define q where "q = (slot s (ino 0))\<lparr>i_size := root_size hs\<rparr>"
  define t where "t = with_slot (ino 0) q s"
  define u where "u = t\<lparr>m_img := (m_img t)(58 := fold mark_bit [0..<n] (\<lambda>_. 0))\<rparr>"
  note bt = base_with_slot [OF D(1) i, of q, folded t_def]
  have ft: "fine t" using bt(1) by (simp add: base_def)
  have bm: "sb_bmapstart (m_sb t) = 58" using ft
    by (simp add: fine_def mk_sb_def nlog_def LOGSIZE_def MAXOPBLOCKS_def ninodeblocks_def NINODES_def IPB_def BSIZE_def)
  have "m_freeblock t = word_of_int (int n)" unfolding F(1) [symmetric] bt(2) [symmetric] by simp
  then have "sint (m_freeblock t) = int n" using sint_of_int32 [of "int n"] F(2) by simp
  then have "mk_balloc (sint (m_freeblock t)) t = wsect 58 (fold mark_bit [0..<n] (\<lambda>_. 0)) t" using F(2) bm by (simp add: mk_balloc_def BSIZE_def)
  also have "\<dots> = Inr u" unfolding u_def by (rule wsect_fine [OF ft]) (simp add: FSSIZE_def)
  finally have fin: "mkfs_finish (ino 0) s = Inr u"
    using rinode_ok [OF fine i] winode_ok [OF fine i, of q] off by (simp add: mkfs_finish_def Let_def q_def t_def)
  have img: "m_img u x = m_img s x" if "unat x < 32 \<or> 59 \<le> unat x" for x
    using that with_slot_img [OF i, of x q s] by (auto simp: u_def t_def)
  have slots: "slot u j = slot t j" if "unat j < 208" for j using IBLOCK_meta(2) [OF that] by (auto simp: slot_def u_def)
  have "i_dev q = 1" by (simp add: q_def slot_def get_dinode_def no_dinode_def)
  then have s0: "same_dinode (slot u (ino 0)) q" using slot_with_slot(1) slots [OF i] by (simp add: t_def)
  have sk: "slot u (ino k) = slot s (ino k)" if "k < length fs" "k \<noteq> 0" for k
    using slots [of "ino k"] slot_with_slot(2) [of "ino 0" "ino k"] ino_inj [of 0 k] that D(2) by (simp add: t_def unat_ino)
  have fbu: "fb s \<le> fb u" using bt(2) by (simp add: u_def)
  have keep: "file_in u (slot s (ino k)) (snd (fs ! k))" "bl u (slot s (ino k)) (snd (fs ! k)) = fbl s fs k" if k: "k < length fs" for k
  proof -
    have m: "m_img u x = m_img s x" if "x \<in> fbl s fs k" for x
    proof -
      have "x \<in> area nmeta (fb s)" using D(4) [OF k] that by (auto simp: file_in_def)
      then show ?thesis using img by (simp add: area_def nmeta_eq)
    qed
    show "file_in u (slot s (ino k)) (snd (fs ! k))" "bl u (slot s (ino k)) (snd (fs ! k)) = fbl s fs k"
      by (rule file_in_frame [OF D(4) [OF k] m fbu]; assumption)+
  qed
  have all: "file_in u (slot u (ino k)) (snd (fs ! k)) \<and> fbl u fs k = fbl s fs k \<and> i_type (slot u (ino k)) = fst (fs ! k) \<and>
       i_nlink (slot u (ino k)) = 1 \<and> i_size (slot u (ino k)) = (if k = 0 then root_size hs else of_nat (length (snd (fs ! k))))"
    if k: "k < length fs" for k
  proof (cases "k = 0")
    case True
    have "i_type q = fst (fs ! 0)" "i_nlink q = 1" "i_size q = root_size hs" using D(5) [OF l0(1)] by (simp_all add: q_def mk_inode_def)
    then show ?thesis using keep [OF l0(1)] True s0 file_in_same [OF s0] blocks_of_same [OF s0] by (simp add: same_dinode_def q_def)
  next
    case False
    then show ?thesis using sk [OF k False] keep [OF k] D(5) [OF k] by (simp add: mk_inode_def)
  qed
  have "used mk_sb (m_img u) = {x. unat x < n}"
  proof -
    have "bit_free (m_img u 58) (unat x) \<longleftrightarrow> n \<le> unat x" for x :: uint by (simp add: u_def bitmap_free)
    moreover have "sb_size mk_sb = FSSIZE" by (simp add: mk_sb_def)
    moreover have "x < FSSIZE" if "unat x < n" for x :: uint using that F(2) by (simp add: FSSIZE_def word_less_nat_alt)
    ultimately show ?thesis unfolding used_def using BBLOCK_mk_sb by (auto simp: not_le)
  qed
  then show ?thesis using fin all img [of 1] img [of 2] D(7) D(8) [of 2] by (intro exI [of _ u]) simp
qed

text \<open>A file of the image as the kernel sees it: its blocks are on the disk and different, and its bytes are \<open>c\<close>.\<close>

definition holds_file :: "(uint \<Rightarrow> block) \<Rightarrow> inode \<Rightarrow> uchar list \<Rightarrow> bool" where
  "holds_file img r c \<longleftrightarrow> file_ok img FSSIZE r (nblk (length c)) \<and> map (fbyte img r) [0..<length c] = c"

lemma file_in_holds: "file_in s r c \<Longrightarrow> holds_file (m_img s) r c"
  by (auto simp: file_in_def mapped_def holds_file_def intro: nth_equalityI)

text \<open>
  C8. For arguments that fit, mkfs ends without a failed assertion and the image it leaves is a file system for the kernel: the super
  block describes the layout, the log is empty, inode 1 is the root directory with the entries of all files, inode \<open>n + 2\<close> is the
  \<open>n\<close>-th file with the bytes read from the host, every file is made of blocks of its own, and the bitmap marks exactly the blocks below
  the first free one, to which all blocks of files belong.
\<close>

theorem mkfs_builds_file_system:
  assumes args: "mkfs_args hs" and room: "FSSIZE \<le> room"
  shows "\<exists>s. mkfs_main room hs = Inr s \<and> sb_of (m_img s 1) = mk_sb \<and> get32 (m_img s 2) 0 = 0 \<and>
     (let r = slot s 1 in i_type r = T_DIR \<and> i_nlink r = 1 \<and> i_size r = root_size hs \<and> holds_file (m_img s) r (root_dir hs)) \<and>
     (\<forall>n < length hs. let r = slot s (of_nat (n + 2)); c = content (hs ! n) in
        i_type r = T_FILE \<and> i_nlink r = 1 \<and> i_size r = of_nat (length c) \<and> holds_file (m_img s) r c) \<and>
     (\<forall>k m. k \<le> length hs \<and> m \<le> length hs \<and> k \<noteq> m \<longrightarrow> fbl s (image_of hs) k \<inter> fbl s (image_of hs) m = {}) \<and>
     used mk_sb (m_img s) = {x. unat x < needed hs} \<and> (\<forall>k \<le> length hs. fbl s (image_of hs) k \<subseteq> {x. nmeta \<le> unat x \<and> unat x < needed hs})"
proof -
  obtain s1 where s1: "mkfs_empty (mkfs_start room) = Inr s1" "fs_ok s1 []" "fb s1 = nmeta" using mkfs_empty_ok [OF room] by blast
  obtain s2 where s2: "mkfs_root s1 = Inr (ino 0, s2)" "fs_ok s2 [(T_DIR, dots)]" "fb s2 = nmeta + cost 32"
    using mkfs_root_ok [OF s1(2,3)] by blast
  obtain s3 where s3: "rfold (mkfs_file (ino 0)) hs s2 = Inr s3" "fs_ok s3 (image_of hs)" "fb s3 = needed hs"
    using mkfs_files_ok [OF s2(2,3) args] by blast
  note D = fs_okD [OF s3(2)]
  have b: "needed hs \<le> 2000" "length hs \<le> 198" using args by (simp_all add: mkfs_args_def)
  define fs where "fs = image_of hs"
  note D = fs_okD [OF s3(2), folded fs_def]
  have len: "k < length fs \<longleftrightarrow> k \<le> length hs" for k by (auto simp: fs_def image_of_def)
  from mkfs_finish_ok [OF s3(2) refl s3(3) b, folded fs_def] obtain t where
    t: "mkfs_finish (ino 0) s3 = Inr t" "m_img t 1 = sb_block mk_sb" "m_img t 2 = (\<lambda>_. 0)" "used mk_sb (m_img t) = {x. unat x < needed hs}"
    and f: "\<And>k. k \<le> length hs \<Longrightarrow> file_in t (slot t (ino k)) (snd (fs ! k)) \<and> fbl t fs k = fbl s3 fs k \<and>
       i_type (slot t (ino k)) = fst (fs ! k) \<and> i_nlink (slot t (ino k)) = 1 \<and>
       i_size (slot t (ino k)) = (if k = 0 then root_size hs else of_nat (length (snd (fs ! k))))" unfolding len by blast
  have main: "mkfs_main room hs = Inr t" using s1(1) s2(1) s3(1) t(1) by (simp add: mkfs_main_def)
  have i: "ino 0 = 1" "ino (Suc n) = of_nat (n + 2)" for n by (simp_all add: ino_def)
  have sb: "sb_of (m_img t 1) = mk_sb" "get32 (m_img t 2) 0 = 0" using t(2,3) sb_of_block by (simp_all add: get32_def)
  have root: "fs ! 0 = (T_DIR, root_dir hs)" by (simp add: fs_def image_of_def)
  have nth: "fs ! Suc n = (T_FILE, content (hs ! n))" if "n < length hs" for n using that by (simp add: fs_def image_of_def)
  have r0: "i_type (slot t 1) = T_DIR \<and> i_nlink (slot t 1) = 1 \<and> i_size (slot t 1) = root_size hs \<and> holds_file (m_img t) (slot t 1) (root_dir hs)"
    using f [of 0] root i(1) file_in_holds by simp
  have rn: "i_type (slot t (of_nat (n + 2))) = T_FILE \<and> i_nlink (slot t (of_nat (n + 2))) = 1 \<and>
      i_size (slot t (of_nat (n + 2))) = of_nat (length (content (hs ! n))) \<and>
      holds_file (m_img t) (slot t (of_nat (n + 2))) (content (hs ! n))" if "n < length hs" for n
    using f [of "Suc n"] nth [OF that] i(2) [of n] file_in_holds that by simp
  have dis: "fbl t fs k \<inter> fbl t fs m = {}" if "k \<le> length hs" "m \<le> length hs" "k \<noteq> m" for k m
    using D(6) [of k m] f [OF that(1)] f [OF that(2)] that len by simp
  have sub: "fbl t fs k \<subseteq> {x. nmeta \<le> unat x \<and> unat x < needed hs}" if "k \<le> length hs" for k
    using D(4) [of k] f [OF that] that len s3(3) by (simp add: file_in_def area_def)
  show ?thesis using main sb r0 rn dis sub t(4) unfolding Let_def fs_def by blast
qed

theorem mkfs_builds_file_system_witness:
  "\<exists>s. mkfs_main 2000 [(chars ''_cat'', Some [[1, 2], [3]])] = Inr s \<and> i_size (slot s 2) = 3 \<and>
     map (fbyte (m_img s) (slot s 2)) [0..<3] = [1, 2, 3] \<and> used mk_sb (m_img s) = {x. unat x < 61}"
proof -
  let ?hs = "[(chars ''_cat'', Some [[1, 2], [3 :: uchar]])]"
  have c: "length (content (?hs ! 0)) = 3" "content (?hs ! 0) = [1, 2, 3]" by (simp_all add: content_def)
  have n: "needed ?hs = 61" by (simp add: needed_def nmeta_eq cost_def nblk_def BSIZE_def NDIRECT_def content_def)
  have "mkfs_args ?hs" unfolding mkfs_args_def n by (simp add: content_def MAXFILE_bytes chars_def)
  from mkfs_builds_file_system [OF this, of 2000] obtain s where s: "mkfs_main 2000 ?hs = Inr s"
    "\<forall>n < length ?hs. let r = slot s (of_nat (n + 2)); c = content (?hs ! n) in
        i_type r = T_FILE \<and> i_nlink r = 1 \<and> i_size r = of_nat (length c) \<and> holds_file (m_img s) r c"
    "used mk_sb (m_img s) = {x. unat x < 61}" unfolding n by (auto simp: FSSIZE_def)
  from s(2) [rule_format, of 0] have "i_size (slot s 2) = 3" "map (fbyte (m_img s) (slot s 2)) [0..<3] = [1, 2, 3]"
    unfolding Let_def c holds_file_def by (simp_all add: numeral_3_eq_3)
  with s(1,3) show ?thesis by (intro exI [of _ s] conjI)
qed

end
