(* ===== verification/Boot.thy ===== *)
theory Boot
  imports Trap
begin

unbundle bit_operations_syntax

section \<open>Processors and interrupt controllers at boot (mp.c, lapic.c, picirq.c, ioapic.c, timer.c)\<close>

text \<open>
  The search for the description of the processors in memory, and the programming of the interrupt controllers. What the kernel
  writes to the ports and to the registers of the local APIC is a list, oldest first; the registers of the I/O APIC are a map. What it
  reads from the local APIC is an argument.
\<close>

definition NCPU :: nat where "NCPU = 8"

subsection \<open>mp.c\<close>

record mpinfo =
  mp_bcpu :: nat
  mp_ismp :: bool
  mp_ncpu :: nat
  mp_ioapicid :: uchar
  mp_lapic :: uint
  mp_imcr :: bool

definition mp_start :: mpinfo where
  "mp_start = \<lparr>mp_bcpu = 0, mp_ismp = False, mp_ncpu = 0, mp_ioapicid = 0, mp_lapic = 0, mp_imcr = False\<rparr>"

definition mp_bytes :: "memory \<Rightarrow> uint \<Rightarrow> nat \<Rightarrow> uchar list" where
  "mp_bytes m a n = map (\<lambda>i. m (a + of_nat i)) [0..<n]"

definition mp_sum :: "memory \<Rightarrow> uint \<Rightarrow> nat \<Rightarrow> uchar" where
  "mp_sum m a n = sum_list (mp_bytes m a n)"

fun mpsearch1_loop :: "nat \<Rightarrow> memory \<Rightarrow> uint \<Rightarrow> uint \<Rightarrow> uint option" where
  "mpsearch1_loop 0 m p e = None"
| "mpsearch1_loop (Suc k) m p e =
     (if p < e
      then if mp_bytes m p 4 = chars ''_MP_'' \<and> mp_sum m p 16 = 0 then Some p else mpsearch1_loop k m (p + 16) e
      else None)"

text \<open>The loop moves by the 16 bytes of a structure.\<close>

definition mpsearch1 :: "memory \<Rightarrow> uint \<Rightarrow> nat \<Rightarrow> uint option" where
  "mpsearch1 m a n = mpsearch1_loop (n div 16 + 1) m (p2v a) (p2v a + of_nat n)"

definition mpsearch :: "memory \<Rightarrow> uint option" where
  "mpsearch m =
     (let bda = p2v 0x400;
          p = push_bit 4 (push_bit 8 (ucast (m (bda + 0x0f))) OR ucast (m (bda + 0x0e)));
          r = (if p \<noteq> 0 then mpsearch1 m p 1024
               else mpsearch1 m ((push_bit 8 (ucast (m (bda + 0x14))) OR ucast (m (bda + 0x13))) * 1024 - 1024) 1024)
      in case r of Some mp \<Rightarrow> Some mp | None \<Rightarrow> mpsearch1 m 0xf0000 0x10000)"

definition conf_length :: "memory \<Rightarrow> uint \<Rightarrow> nat" where
  "conf_length m conf = unat (m (conf + 4)) + 256 * unat (m (conf + 5))"

definition mpconfig :: "memory \<Rightarrow> (uint \<times> uint) option" where
  "mpconfig m =
     (case mpsearch m of None \<Rightarrow> None
      | Some mp \<Rightarrow>
        if load32 m (mp + 4) = 0 then None
        else
          let conf = p2v (load32 m (mp + 4)) in
          if mp_bytes m conf 4 \<noteq> chars ''PCMP'' then None
          else if m (conf + 6) \<noteq> 1 \<and> m (conf + 6) \<noteq> 4 then None
          else if mp_sum m conf (conf_length m conf) \<noteq> 0 then None
          else Some (mp, conf))"

definition mp_proc :: "uint \<Rightarrow> mpinfo \<Rightarrow> kernel \<Rightarrow> (mpinfo \<times> kernel) result" where
  "mp_proc p i s =
     (let id = mem s (p + 1); n = mp_ncpu i in
      rbind (if n \<noteq> unat id
             then rbind (cprintf (Some (chars ''mpinit: ncpu=%d apicid=%d'' @ [10])) [VWord (of_nat n), VWord (ucast id)] s)
               (\<lambda>s. Inr (i\<lparr>mp_ismp := False\<rparr>, s))
             else Inr (i, s)) (\<lambda>(i, s).
      if n \<ge> NCPU then Inl OutOfBounds
      else
        let i = (if mem s (p + 3) AND 2 \<noteq> 0 then i\<lparr>mp_bcpu := n\<rparr> else i) in
        Inr (i\<lparr>mp_ncpu := n + 1\<rparr>, s\<lparr>cpus := (cpus s)(n := (cpus s n)\<lparr>cpu_id := of_nat n\<rparr>)\<rparr>)))"

fun mpinit_loop :: "nat \<Rightarrow> uint \<Rightarrow> uint \<Rightarrow> mpinfo \<Rightarrow> kernel \<Rightarrow> (mpinfo \<times> kernel) result" where
  "mpinit_loop 0 p e i s = Inl Diverges"
| "mpinit_loop (Suc k) p e i s =
     (if p < e
      then
        let ty = mem s p in
        if ty = 0 then rbind (mp_proc p i s) (\<lambda>(i, s). mpinit_loop k (p + 20) e i s)
        else if ty = 2 then mpinit_loop k (p + 8) e (i\<lparr>mp_ioapicid := mem s (p + 1)\<rparr>) s
        else if ty = 1 \<or> ty = 3 \<or> ty = 4 then mpinit_loop k (p + 8) e i s
        else rbind (cprintf (Some (chars ''mpinit: unknown config type %x'' @ [10])) [VWord (ucast ty)] s)
          (mpinit_loop k p e (i\<lparr>mp_ismp := False\<rparr>))
      else Inr (i, s))"

text \<open>An entry has at least 8 of the at most 65535 bytes of a table, so 8192 turns reach its end.\<close>

definition mpinit :: "kernel \<Rightarrow> (mpinfo \<times> kernel) result" where
  "mpinit s =
     (case mpconfig (mem s) of None \<Rightarrow> Inr (mp_start, s)
      | Some (mp, conf) \<Rightarrow>
        rbind (mpinit_loop 8192 (conf + 44) (conf + of_nat (conf_length (mem s) conf))
                 (mp_start\<lparr>mp_ismp := True, mp_lapic := load32 (mem s) (conf + 36)\<rparr>) s) (\<lambda>(i, s).
        if \<not> mp_ismp i then Inr (i\<lparr>mp_ncpu := 1, mp_lapic := 0, mp_ioapicid := 0\<rparr>, s)
        else Inr (i\<lparr>mp_imcr := mem s (mp + 12) \<noteq> 0\<rparr>, s)))"

subsection \<open>picirq.c, timer.c\<close>

record chips =
  outs :: "(ushort \<times> uchar) list"
  irqmask :: ushort
  lapic_writes :: "(nat \<times> uint) list"
  ioapic_reg :: "nat \<Rightarrow> uint"

definition outb :: "ushort \<Rightarrow> uchar \<Rightarrow> chips \<Rightarrow> chips" where
  "outb port v c = c\<lparr>outs := outs c @ [(port, v)]\<rparr>"

definition picsetmask :: "ushort \<Rightarrow> chips \<Rightarrow> chips" where
  "picsetmask msk c = outb 0xa1 (ucast (drop_bit 8 msk)) (outb 0x21 (ucast msk) (c\<lparr>irqmask := msk\<rparr>))"

definition picenable :: "nat \<Rightarrow> chips \<Rightarrow> chips" where
  "picenable irq c = picsetmask (irqmask c AND NOT (push_bit irq 1)) c"

definition picinit :: "chips \<Rightarrow> chips" where
  "picinit c =
     (let c = fold (\<lambda>(port, v). outb port v)
        [(0x21, 0xff), (0xa1, 0xff), (0x20, 0x11), (0x21, ucast T_IRQ0), (0x21, 4), (0x21, 3),
         (0xa0, 0x11), (0xa1, ucast T_IRQ0 + 8), (0xa1, 2), (0xa1, 3), (0x20, 0x68), (0x20, 0x0a), (0xa0, 0x68), (0xa0, 0x0a)] c
      in if irqmask c \<noteq> 0xffff then picsetmask (irqmask c) c else c)"

definition timer_div :: "nat \<Rightarrow> nat" where
  "timer_div x = (1193182 + x div 2) div x"

definition timerinit :: "chips \<Rightarrow> chips" where
  "timerinit c =
     picenable (unat IRQ_TIMER) (outb 0x40 (of_nat (timer_div 1000 div 256)) (outb 0x40 (of_nat (timer_div 1000 mod 256)) (outb 0x43 0x34 c)))"

subsection \<open>ioapic.c\<close>

definition ioapicinit :: "mpinfo \<Rightarrow> chips \<Rightarrow> kernel \<Rightarrow> (chips \<times> kernel) result" where
  "ioapicinit i c s =
     (if \<not> mp_ismp i then Inr (c, s)
      else
        let maxintr = unat (drop_bit 16 (ioapic_reg c 1) AND 0xff); id = drop_bit 24 (ioapic_reg c 0);
            c = fold (\<lambda>k c. c\<lparr>ioapic_reg := (ioapic_reg c)(0x10 + 2 * k := 0x10000 OR (T_IRQ0 + of_nat k), 0x10 + 2 * k + 1 := 0)\<rparr>) [0..<Suc maxintr] c
        in rbind (if id \<noteq> ucast (mp_ioapicid i)
                  then cprintf (Some (chars ''ioapicinit: id isn'' @ [39] @ chars ''t equal to ioapicid; not a MP'' @ [10])) [] s
                  else Inr s) (\<lambda>s. Inr (c, s)))"

definition ioapicenable :: "mpinfo \<Rightarrow> nat \<Rightarrow> uint \<Rightarrow> chips \<Rightarrow> chips" where
  "ioapicenable i irq cpunum c =
     (if \<not> mp_ismp i then c
      else c\<lparr>ioapic_reg := (ioapic_reg c)(0x10 + 2 * irq := T_IRQ0 + of_nat irq, 0x10 + 2 * irq + 1 := push_bit 24 cpunum)\<rparr>)"

subsection \<open>lapic.c\<close>

definition lapicw :: "nat \<Rightarrow> uint \<Rightarrow> chips \<Rightarrow> chips" where
  "lapicw reg v c = c\<lparr>lapic_writes := lapic_writes c @ [(reg div 4, v)]\<rparr>"

text \<open>The version register and the values that the delivery status shows one after the other are arguments.\<close>

definition lapicinit :: "mpinfo \<Rightarrow> uint \<Rightarrow> uint list \<Rightarrow> chips \<Rightarrow> chips result" where
  "lapicinit i ver icr c =
     (if mp_lapic i = 0 then Inr c
      else
        let c = fold (\<lambda>(r, v). lapicw r v) ([(0xf0, 0x100 OR (T_IRQ0 + IRQ_SPURIOUS)), (0x3e0, 0xb), (0x320, 0x20000 OR (T_IRQ0 + IRQ_TIMER)),
              (0x380, 1000000000 div 1000), (0x350, 0x10000), (0x360, 0x10000)] @
            (if drop_bit 16 ver AND 0xff \<ge> 4 then [(0x340, 0x10000)] else []) @
            [(0x370, T_IRQ0 + 19), (0x280, 0), (0x280, 0), (0xb0, 0), (0x310, 0), (0x300, 0x80000 OR 0x500 OR 0x8000)]) c
        in if \<forall>v\<in>set icr. v AND 0x1000 \<noteq> 0 then Inl Diverges else Inr (lapicw 0x80 0 c))"

definition lapiceoi :: "mpinfo \<Rightarrow> chips \<Rightarrow> chips" where
  "lapiceoi i c = (if mp_lapic i \<noteq> 0 then lapicw 0xb0 0 c else c)"

definition lapicstartap :: "uchar \<Rightarrow> uint \<Rightarrow> chips \<times> kernel \<Rightarrow> chips \<times> kernel" where
  "lapicstartap apicid addr cs =
     (case cs of (c, s) \<Rightarrow>
      let c = outb 0x71 0x0a (outb 0x70 0xf c);
          wrv = p2v 0x467; hi = ucast (drop_bit 4 addr) :: ushort;
          m = (mem s)(wrv := 0, wrv + 1 := 0, wrv + 2 := ucast hi, wrv + 3 := ucast (drop_bit 8 hi));
          c = fold (\<lambda>(r, v). lapicw r v) [(0x310, push_bit 24 (ucast apicid)), (0x300, 0x500 OR 0x8000 OR 0x4000), (0x300, 0x500 OR 0x8000),
            (0x310, push_bit 24 (ucast apicid)), (0x300, 0x600 OR drop_bit 12 addr),
            (0x310, push_bit 24 (ucast apicid)), (0x300, 0x600 OR drop_bit 12 addr)] c
      in (c, s\<lparr>mem := m\<rparr>))"


subsection \<open>Reading the table of processors\<close>

text \<open>The entries of a table, how they lie in memory, and what they mean for the kernel.\<close>

datatype mp_entry = EProc uchar uchar | EIoapic uchar | EOther

primrec esize :: "mp_entry \<Rightarrow> nat" where
  "esize (EProc aid fl) = 20"
| "esize (EIoapic no) = 8"
| "esize EOther = 8"

definition entry_at :: "memory \<Rightarrow> uint \<Rightarrow> mp_entry \<Rightarrow> bool" where
  "entry_at m p e \<longleftrightarrow>
     (case e of EProc aid fl \<Rightarrow> m p = 0 \<and> m (p + 1) = aid \<and> m (p + 3) = fl
      | EIoapic no \<Rightarrow> m p = 2 \<and> m (p + 1) = no
      | EOther \<Rightarrow> m p = 1 \<or> m p = 3 \<or> m p = 4)"

fun encoded :: "memory \<Rightarrow> uint \<Rightarrow> mp_entry list \<Rightarrow> bool" where
  "encoded m p [] = True"
| "encoded m p (e # es) = (entry_at m p e \<and> encoded m (p + of_nat (esize e)) es)"

definition tsize :: "mp_entry list \<Rightarrow> nat" where
  "tsize es = sum_list (map esize es)"

primrec apicids :: "mp_entry \<Rightarrow> uchar list" where
  "apicids (EProc aid fl) = [aid]"
| "apicids (EIoapic no) = []"
| "apicids EOther = []"

definition table_ids :: "mp_entry list \<Rightarrow> nat list" where
  "table_ids es = map unat (concat (map apicids es))"

primrec entry_step :: "mp_entry \<Rightarrow> mpinfo \<Rightarrow> mpinfo" where
  "entry_step (EProc aid fl) i =
     i\<lparr>mp_ismp := mp_ismp i \<and> mp_ncpu i = unat aid, mp_bcpu := (if fl AND 2 \<noteq> 0 then mp_ncpu i else mp_bcpu i), mp_ncpu := mp_ncpu i + 1\<rparr>"
| "entry_step (EIoapic no) i = i\<lparr>mp_ioapicid := no\<rparr>"
| "entry_step EOther i = i"

text \<open>The console before its lock is in use.\<close>

definition early_cons :: "kernel \<Rightarrow> bool" where
  "early_cons s \<longleftrightarrow> cons_ok s \<and> \<not> cons_locking s"

lemma early_cprintf:
  assumes "early_cons s" "render fmt args = Some bs"
  shows "\<exists>t. cprintf (Some fmt) args s = Inr t \<and> early_cons t \<and> mem t = mem s"
proof -
  have "cons_ok s" "cons_lockable s" using assms(1) by (simp_all add: early_cons_def cons_lockable_def)
  from cprintf_emits [OF this assms(2)] obtain t where t: "cprintf (Some fmt) args s = Inr t" "cons_ok t" "cons_frame s t" by blast
  then have "mem t = mem s" "cons_locking t = cons_locking s" by (cases s; cases t; simp add: cons_frame_def)+
  with t assms(1) show ?thesis by (auto simp: early_cons_def)
qed

lemma mp_proc_step:
  assumes c: "early_cons s" and e: "entry_at (mem s) p (EProc aid fl)" and n: "mp_ncpu i < NCPU"
  shows "\<exists>t. mp_proc p i s = Inr (entry_step (EProc aid fl) i, t) \<and> early_cons t \<and> mem t = mem s"
proof -
  have m: "mem s (p + 1) = aid" "mem s (p + 3) = fl" using e by (simp_all add: entry_at_def)
  have r: "\<exists>bs. render (chars ''mpinit: ncpu=%d apicid=%d'' @ [10]) [VWord (of_nat (mp_ncpu i)), VWord (ucast aid)] = Some bs"
    by (simp add: chars_def)
  obtain u where u: "(if mp_ncpu i \<noteq> unat aid
      then rbind (cprintf (Some (chars ''mpinit: ncpu=%d apicid=%d'' @ [10])) [VWord (of_nat (mp_ncpu i)), VWord (ucast aid)] s)
        (\<lambda>s. Inr (i\<lparr>mp_ismp := False\<rparr>, s)) else Inr (i, s)) = Inr (i\<lparr>mp_ismp := mp_ismp i \<and> mp_ncpu i = unat aid\<rparr>, u)"
    "early_cons u" "mem u = mem s"
  proof (cases "mp_ncpu i = unat aid")
    case True
    then show ?thesis using that [of s] c by simp
  next
    case False
    from r obtain bs where "render (chars ''mpinit: ncpu=%d apicid=%d'' @ [10]) [VWord (of_nat (mp_ncpu i)), VWord (ucast aid)] = Some bs" by blast
    from early_cprintf [OF c this] False that show ?thesis by auto
  qed
  let ?t = "u\<lparr>cpus := (cpus u)(mp_ncpu i := (cpus u (mp_ncpu i))\<lparr>cpu_id := of_nat (mp_ncpu i)\<rparr>)\<rparr>"
  have "mp_proc p i s = Inr (entry_step (EProc aid fl) i, ?t)"
    unfolding mp_proc_def Let_def m u(1) using n u(3) m by simp
  then show ?thesis using u(2,3) by (intro exI [of _ ?t]) (simp add: early_cons_def cons_ok_def)
qed

text \<open>One entry of the loop.\<close>

lemma mpinit_loop_entry:
  assumes c: "early_cons s" and a: "entry_at (mem s) p a" and p: "p < e" and n: "mp_ncpu i + length (apicids a) \<le> NCPU"
  shows "\<exists>t. mpinit_loop (Suc k) p e i s = mpinit_loop k (p + of_nat (esize a)) e (entry_step a i) t \<and> early_cons t \<and> mem t = mem s"
proof (cases a)
  case (EProc aid fl)
  then have "mp_ncpu i < NCPU" "mem s p = 0" using n a by (simp_all add: entry_at_def)
  with mp_proc_step [OF c, of p aid fl i] a EProc p show ?thesis by auto
next
  case (EIoapic no)
  then show ?thesis using a c p by (intro exI [of _ s]) (simp add: entry_at_def)
next
  case EOther
  then show ?thesis using a c p by (intro exI [of _ s]) (auto simp: entry_at_def)
qed

lemma esize_pos: "8 \<le> esize a" "esize a \<le> 20"
  by (cases a; simp)+

lemma step_addr:
  assumes "unat p + (esize a + k) \<le> unat (e :: uint)"
  shows "p < e" "unat (p + of_nat (esize a)) + k \<le> unat e" "unat (p + of_nat (esize a)) = unat p + esize a"
proof -
  have e: "unat e < 2 ^ 32" using unsigned_less [of e, where ?'a = nat] by simp
  show "p < e" using assms esize_pos(1) [of a] by (simp add: word_less_nat_alt)
  have "unat (of_nat (esize a) :: uint) = esize a" using esize_pos(2) [of a] by (simp add: unat_of_nat)
  then show u: "unat (p + of_nat (esize a)) = unat p + esize a" using assms e by (simp add: unat_word_ariths)
  then show "unat (p + of_nat (esize a)) + k \<le> unat e" using assms by simp
qed

text \<open>The loop goes through the entries, and on from there.\<close>

lemma mpinit_loop_entries:
  assumes "early_cons s" "encoded (mem s) p es" "unat p + tsize es \<le> unat e" "mp_ncpu i + length (table_ids es) \<le> NCPU"
  shows "\<exists>t. mpinit_loop (length es + k) p e i s = mpinit_loop k (p + of_nat (tsize es)) e (fold entry_step es i) t \<and>
     early_cons t \<and> mem t = mem s"
  using assms
proof (induction es arbitrary: p i s)
  case Nil
  then show ?case by (auto simp: tsize_def)
next
  case (Cons a es)
  have ts: "tsize (a # es) = esize a + tsize es" "length (table_ids (a # es)) = length (apicids a) + length (table_ids es)"
    by (simp_all add: tsize_def table_ids_def)
  note st = step_addr [of p a "tsize es" e]
  have le: "unat p + (esize a + tsize es) \<le> unat e" using Cons.prems(3) ts by simp
  have nc: "mp_ncpu (entry_step a i) = mp_ncpu i + length (apicids a)" by (cases a) simp_all
  from mpinit_loop_entry [OF Cons.prems(1) _ st(1) [OF le], of a i "length es + k"] Cons.prems(2,4) ts obtain u where
    u: "mpinit_loop (Suc (length es + k)) p e i s = mpinit_loop (length es + k) (p + of_nat (esize a)) e (entry_step a i) u"
      "early_cons u" "mem u = mem s" by auto
  have "\<exists>t. mpinit_loop (length es + k) (p + of_nat (esize a)) e (entry_step a i) u =
      mpinit_loop k (p + of_nat (esize a) + of_nat (tsize es)) e (fold entry_step es (entry_step a i)) t \<and> early_cons t \<and> mem t = mem u"
    by (rule Cons.IH [OF u(2)]) (use u(3) Cons.prems(2,4) st(2) [OF le] ts nc in auto)
  then show ?case using u by (simp add: ts add.assoc)
qed

text \<open>An unknown entry is looked at again and again.\<close>

lemma mpinit_loop_unknown:
  assumes "early_cons s" "p < e" "4 < mem s p"
  shows "mpinit_loop k p e i s = Inl Diverges"
  using assms
proof (induction k arbitrary: i s)
  case (Suc k)
  have ty: "mem s p \<noteq> 0" "mem s p \<noteq> 1" "mem s p \<noteq> 2" "mem s p \<noteq> 3" "mem s p \<noteq> 4" using Suc.prems(3) by auto
  have "\<exists>bs. render (chars ''mpinit: unknown config type %x'' @ [10]) [VWord (ucast (mem s p))] = Some bs" by (simp add: chars_def)
  then obtain bs where "render (chars ''mpinit: unknown config type %x'' @ [10]) [VWord (ucast (mem s p))] = Some bs" by blast
  from early_cprintf [OF Suc.prems(1) this] obtain t where
    t: "cprintf (Some (chars ''mpinit: unknown config type %x'' @ [10])) [VWord (ucast (mem s p))] s = Inr t" "early_cons t" "mem t = mem s" by blast
  have "mpinit_loop (Suc k) p e i s = mpinit_loop k p e (i\<lparr>mp_ismp := False\<rparr>) t" using ty t(1) Suc.prems(2) by (simp add: Let_def)
  also have "\<dots> = Inl Diverges" by (rule Suc.IH) (use t Suc.prems in simp_all)
  finally show ?case .
qed simp

lemma fold_entries:
  "mp_ncpu (fold entry_step es i) = mp_ncpu i + length (table_ids es) \<and> mp_lapic (fold entry_step es i) = mp_lapic i \<and>
   (mp_ismp (fold entry_step es i) \<longleftrightarrow> mp_ismp i \<and> table_ids es = [mp_ncpu i..<mp_ncpu i + length (table_ids es)])"
proof (induction es arbitrary: i)
  case Nil
  then show ?case by (simp add: table_ids_def)
next
  case (Cons a es)
  have t: "table_ids (b # es) = map unat (apicids b) @ table_ids es" for b by (simp add: table_ids_def)
  show ?case
  proof (cases a)
    case (EProc aid fl)
    have "[mp_ncpu i..<mp_ncpu i + Suc (length (table_ids es))] = mp_ncpu i # [Suc (mp_ncpu i)..<Suc (mp_ncpu i) + length (table_ids es)]"
      by (subst upt_conv_Cons) (simp_all del: upt_Suc)
    then show ?thesis using EProc Cons [of "entry_step a i"] by (auto simp: t simp del: upt_Suc)
  qed (use Cons in \<open>simp_all add: t\<close>)
qed

lemma tsize_entries: "8 * length es \<le> tsize es"
proof (induction es)
  case (Cons a es)
  then show ?case using esize_pos(1) [of a] by (simp add: tsize_def)
qed (simp add: tsize_def)

text \<open>
  C26. For a configuration table in memory that holds at most NCPU processors, mpinit counts them and believes the table when their
  APIC identifiers are 0, 1, 2 and so on, and otherwise falls back to one processor; but an entry of an unknown type makes it loop forever.
\<close>

theorem mpinit_reads_table:
  assumes "mpconfig (mem s) = Some (mp, conf)" "early_cons s" "unat conf + conf_length (mem s) conf < 2 ^ 32"
    and "44 + tsize es \<le> conf_length (mem s) conf" "encoded (mem s) (conf + 44) es" "length (table_ids es) \<le> NCPU"
  shows "(44 + tsize es = conf_length (mem s) conf \<longrightarrow>
       (\<exists>i t. mpinit s = Inr (i, t) \<and>
         (if table_ids es = [0..<length (table_ids es)]
          then mp_ismp i \<and> mp_ncpu i = length (table_ids es) \<and> mp_lapic i = load32 (mem s) (conf + 36)
          else \<not> mp_ismp i \<and> mp_ncpu i = 1 \<and> mp_lapic i = 0))) \<and>
     (44 + tsize es < conf_length (mem s) conf \<and> 4 < mem s (conf + 44 + of_nat (tsize es)) \<longrightarrow> mpinit s = Inl Diverges)"
proof -
  define L where "L = conf_length (mem s) conf"
  define p where "p = conf + 44"
  define e where "e = conf + of_nat L"
  define i0 where "i0 = mp_start\<lparr>mp_ismp := True, mp_lapic := load32 (mem s) (conf + 36)\<rparr>"
  note a = assms(3,4) [folded L_def]
  have up: "unat p = unat conf + 44" using a by (simp add: p_def unat_word_ariths)
  have "unat (of_nat L :: uint) = L" using a by (simp add: unat_of_nat)
  then have ue: "unat e = unat conf + L" using a by (simp add: e_def unat_word_ariths)
  have "unat (mem s (conf + 4)) < 2 ^ 8" "unat (mem s (conf + 5)) < 2 ^ 8"
    using unsigned_less [of "mem s (conf + 4)", where ?'a = nat] unsigned_less [of "mem s (conf + 5)", where ?'a = nat] by simp_all
  then have "L < 65536" by (simp add: L_def conf_length_def)
  then obtain k where k: "8192 = length es + Suc k"
    using a(2) tsize_entries [of es] less_imp_Suc_add [of "length es" 8192] by auto
  have "unat p + tsize es \<le> unat e" "mp_ncpu i0 + length (table_ids es) \<le> NCPU" using a(2) up ue assms(6) by (simp_all add: i0_def mp_start_def)
  from mpinit_loop_entries [OF assms(2,5) [folded p_def] this, of "Suc k"] obtain t where
    t: "mpinit_loop 8192 p e i0 s = mpinit_loop (Suc k) (p + of_nat (tsize es)) e (fold entry_step es i0) t" "early_cons t" "mem t = mem s"
    unfolding k by blast
  have init: "mpinit s = rbind (mpinit_loop 8192 p e i0 s) (\<lambda>(i, s). if \<not> mp_ismp i then Inr (i\<lparr>mp_ncpu := 1, mp_lapic := 0, mp_ioapicid := 0\<rparr>, s)
        else Inr (i\<lparr>mp_imcr := mem s (mp + 12) \<noteq> 0\<rparr>, s))"
    using assms(1) by (simp add: mpinit_def p_def e_def i0_def L_def)
  have "unat (of_nat (tsize es) :: uint) = tsize es" using a by (simp add: unat_of_nat)
  then have uq: "unat (p + of_nat (tsize es)) = unat p + tsize es" using a up by (simp add: unat_word_ariths)
  have "\<exists>i t. mpinit s = Inr (i, t) \<and>
         (if table_ids es = [0..<length (table_ids es)]
          then mp_ismp i \<and> mp_ncpu i = length (table_ids es) \<and> mp_lapic i = load32 (mem s) (conf + 36)
          else \<not> mp_ismp i \<and> mp_ncpu i = 1 \<and> mp_lapic i = 0)" if "44 + tsize es = L"
  proof -
    have "\<not> p + of_nat (tsize es) < e" using that uq up ue by (simp add: word_less_nat_alt)
    then have "mpinit_loop 8192 p e i0 s = Inr (fold entry_step es i0, t)" using t(1) by simp
    then show ?thesis using fold_entries [of es i0] unfolding init by (simp add: i0_def mp_start_def)
  qed
  moreover have "mpinit s = Inl Diverges" if "44 + tsize es < L" "4 < mem s (conf + 44 + of_nat (tsize es))"
  proof -
    have "p + of_nat (tsize es) < e" using that(1) uq up ue by (simp add: word_less_nat_alt)
    from mpinit_loop_unknown [OF t(2) this] show ?thesis using t(1,3) that(2) unfolding init by (simp add: p_def)
  qed
  ultimately show ?thesis unfolding L_def by blast
qed

text \<open>A machine with one processor: the pointer structure at \<^verbatim>\<open>0x9fc00\<close> and the table at \<^verbatim>\<open>0x1000\<close>.\<close>

definition demo_mp :: memory where
  "demo_mp a = (case map_of [(0x8000040e, 0xc0), (0x8000040f, 0x9f), (0x8009fc00, 95), (0x8009fc01, 77), (0x8009fc02, 80), (0x8009fc03, 95),
     (0x8009fc05, 16), (0x8009fc0a, 149), (0x80001000, 80), (0x80001001, 67), (0x80001002, 77), (0x80001003, 80), (0x80001004, 64),
     (0x80001006, 1), (0x80001007, 174), (0x80001026, 224), (0x80001027, 254), (0x8000102f, 3)] a of None \<Rightarrow> 0 | Some v \<Rightarrow> v)"

theorem mpinit_reads_table_witness:
  "\<exists>i t. mpinit ((bss True)\<lparr>mem := demo_mp\<rparr>) = Inr (i, t) \<and> mp_ismp i \<and> mp_ncpu i = 1 \<and> mp_lapic i = 0xfee00000"
proof -
  let ?s = "(bss True)\<lparr>mem := demo_mp\<rparr>" and ?es = "[EProc 0 3]"
  have c: "mpconfig (mem ?s) = Some (0x8009fc00, 0x80001000)" by code_simp
  have l: "conf_length (mem ?s) 0x80001000 = 64" "load32 (mem ?s) (0x80001000 + 36) = 0xfee00000" "encoded (mem ?s) (0x80001000 + 44) ?es" by code_simp+
  have e: "early_cons ?s" by (simp add: early_cons_def cons_ok_def bss_def)
  have t: "tsize ?es = 20" "table_ids ?es = [0]" by (simp_all add: tsize_def table_ids_def)
  have "(44 + tsize ?es = conf_length (mem ?s) 0x80001000 \<longrightarrow>
       (\<exists>i t. mpinit ?s = Inr (i, t) \<and>
         (if table_ids ?es = [0..<length (table_ids ?es)]
          then mp_ismp i \<and> mp_ncpu i = length (table_ids ?es) \<and> mp_lapic i = load32 (mem ?s) (0x80001000 + 36)
          else \<not> mp_ismp i \<and> mp_ncpu i = 1 \<and> mp_lapic i = 0)))"
    using mpinit_reads_table [OF c e _ _ l(3)] unfolding l(1) t by (simp add: NCPU_def)
  then show ?thesis unfolding l(1,2) t by simp
qed

end
