(* ===== verification/Sh.thy ===== *)
theory Sh
  imports Cprintf
begin

section \<open>The command parser of the shell (sh.c)\<close>

text \<open>
  The recursive-descent parser works on positions in the line buffer. A word is the pair of its first position and
  the position behind it; \<^verbatim>\<open>nulterminate\<close> writes the zeros behind the words when the whole line is parsed. The
  functions call each other recursively, so they have fuel; \<^verbatim>\<open>panic\<close> ends the process. \<^verbatim>\<open>parseexec\<close> fills the arrays of its
  command while \<^verbatim>\<open>parseredirs\<close> wraps it: here the wrappers are collected and applied at the end.
\<close>

type_synonym word_at = "nat \<times> nat"

datatype 'w cmd =
    EXEC "'w list"
  | REDIR "'w cmd" 'w uint nat
  | PIPE "'w cmd" "'w cmd"
  | LIST "'w cmd" "'w cmd"
  | BACK "'w cmd"

definition MAXARGS :: nat where "MAXARGS = 10"

subsection \<open>gettoken, peek\<close>

definition byte_at :: "uchar list \<Rightarrow> nat \<Rightarrow> uchar" where
  "byte_at buf i = (if i < length buf then buf ! i else 0)"

definition whitespace :: "uchar list" where "whitespace = [32, 9, 13, 10, 11]"

definition symbols :: "uchar list" where "symbols = chars ''<|>&;()''"

fun skip_while :: "(uchar \<Rightarrow> bool) \<Rightarrow> nat \<Rightarrow> uchar list \<Rightarrow> nat \<Rightarrow> nat" where
  "skip_while P 0 buf s = s"
| "skip_while P (Suc k) buf s = (if s < length buf \<and> P (byte_at buf s) then skip_while P k buf (Suc s) else s)"

definition is_space :: "uchar \<Rightarrow> bool" where
  "is_space c = (c \<in> set whitespace)"

definition in_word :: "uchar \<Rightarrow> bool" where
  "in_word c = (c \<notin> set whitespace \<and> c \<notin> set symbols)"

definition skip_space :: "uchar list \<Rightarrow> nat \<Rightarrow> nat" where
  "skip_space buf s = skip_while is_space (length buf) buf s"

text \<open>The token, its range and the position of the next token; a word is the token 97 (\<^verbatim>\<open>'a'\<close>), and \<^verbatim>\<open>>>\<close> is 43 (\<^verbatim>\<open>'+'\<close>).\<close>

definition gettoken :: "uchar list \<Rightarrow> nat \<Rightarrow> uchar \<times> word_at \<times> nat" where
  "gettoken buf s =
     (let q = skip_space buf s;
          c = byte_at buf q;
          (ret, e) =
            (if c = 0 then (0, q)
             else if c \<in> set (chars ''|();&<'') then (c, q + 1)
             else if c = 62 then (if byte_at buf (q + 1) = 62 then (43, q + 2) else (62, q + 1))
             else (97, skip_while in_word (length buf) buf q))
      in (ret, (q, e), skip_space buf e))"

definition peek :: "uchar list \<Rightarrow> nat \<Rightarrow> uchar list \<Rightarrow> bool \<times> nat" where
  "peek buf s toks = (let q = skip_space buf s; c = byte_at buf q in (c \<noteq> 0 \<and> c \<in> set toks, q))"

subsection \<open>The parser\<close>

type_synonym 'w redir = "'w \<times> uint \<times> nat"

definition add_redirs :: "'w cmd \<Rightarrow> 'w redir list \<Rightarrow> 'w cmd" where
  "add_redirs c rs = foldl (\<lambda>c (f, mode, fd). REDIR c f mode fd) c rs"

definition redir_of :: "uchar \<Rightarrow> 'w \<Rightarrow> 'w redir" where
  "redir_of tok w = (if tok = 60 then (w, 0, 0) else (w, 0x201, 1))"

fun parseredirs :: "nat \<Rightarrow> uchar list \<Rightarrow> nat \<Rightarrow> (word_at redir list \<times> nat) result" where
  "parseredirs 0 buf s = Inl Diverges"
| "parseredirs (Suc k) buf s =
     (let (yes, s) = peek buf s (chars ''<>'') in
      if \<not> yes then Inr ([], s)
      else
        let (tok, _, s) = gettoken buf s; (t, w, s) = gettoken buf s in
        if t \<noteq> 97 then Inl (Panic ''missing file for redirection'')
        else rbind (parseredirs k buf s) (\<lambda>(rs, s). Inr (redir_of tok w # rs, s)))"

fun parseargs :: "nat \<Rightarrow> nat \<Rightarrow> uchar list \<Rightarrow> nat \<Rightarrow> ((word_at list \<times> word_at redir list) \<times> nat) result" where
  "parseargs 0 argc buf s = Inl Diverges"
| "parseargs (Suc k) argc buf s =
     (let (yes, s) = peek buf s (chars ''|)&;'') in
      if yes then Inr (([], []), s)
      else
        let (tok, w, s) = gettoken buf s in
        if tok = 0 then Inr (([], []), s)
        else if tok \<noteq> 97 then Inl (Panic ''syntax'')
        else if argc + 1 \<ge> MAXARGS then Inl (Panic ''too many args'')
        else rbind (parseredirs (Suc (length buf)) buf s) (\<lambda>(rs, s).
          rbind (parseargs k (argc + 1) buf s) (\<lambda>((ws, rs'), s). Inr ((w # ws, rs @ rs'), s))))"

fun back_loop :: "nat \<Rightarrow> word_at cmd \<Rightarrow> uchar list \<Rightarrow> nat \<Rightarrow> (word_at cmd \<times> nat) result" where
  "back_loop 0 c buf s = Inl Diverges"
| "back_loop (Suc k) c buf s =
     (let (yes, s) = peek buf s (chars ''&'') in
      if yes then let (_, _, s) = gettoken buf s in back_loop k (BACK c) buf s else Inr (c, s))"

function (sequential) parseline :: "nat \<Rightarrow> uchar list \<Rightarrow> nat \<Rightarrow> (word_at cmd \<times> nat) result"
and parsepipe :: "nat \<Rightarrow> uchar list \<Rightarrow> nat \<Rightarrow> (word_at cmd \<times> nat) result"
and parseblock :: "nat \<Rightarrow> uchar list \<Rightarrow> nat \<Rightarrow> (word_at cmd \<times> nat) result"
and parseexec :: "nat \<Rightarrow> uchar list \<Rightarrow> nat \<Rightarrow> (word_at cmd \<times> nat) result" where
  "parseline 0 buf s = Inl Diverges"
| "parseline (Suc k) buf s =
     rbind (parsepipe k buf s) (\<lambda>(c, s).
     rbind (back_loop (Suc (length buf)) c buf s) (\<lambda>(c, s).
     let (yes, s) = peek buf s (chars '';'') in
     if yes then let (_, _, s) = gettoken buf s in rbind (parseline k buf s) (\<lambda>(r, s). Inr (LIST c r, s))
     else Inr (c, s)))"
| "parsepipe 0 buf s = Inl Diverges"
| "parsepipe (Suc k) buf s =
     rbind (parseexec k buf s) (\<lambda>(c, s).
     let (yes, s) = peek buf s (chars ''|'') in
     if yes then let (_, _, s) = gettoken buf s in rbind (parsepipe k buf s) (\<lambda>(r, s). Inr (PIPE c r, s))
     else Inr (c, s))"
| "parseblock 0 buf s = Inl Diverges"
| "parseblock (Suc k) buf s =
     (let (yes, s) = peek buf s (chars ''('') in
      if \<not> yes then Inl (Panic ''parseblock'')
      else
        let (_, _, s) = gettoken buf s in
        rbind (parseline k buf s) (\<lambda>(c, s).
        let (yes, s) = peek buf s (chars '')'') in
        if \<not> yes then Inl (Panic ''syntax - missing )'')
        else
          let (_, _, s) = gettoken buf s in
          rbind (parseredirs (Suc (length buf)) buf s) (\<lambda>(rs, s). Inr (add_redirs c rs, s))))"
| "parseexec 0 buf s = Inl Diverges"
| "parseexec (Suc k) buf s =
     (let (yes, s) = peek buf s (chars ''('') in
      if yes then parseblock k buf s
      else
        rbind (parseredirs (Suc (length buf)) buf s) (\<lambda>(rs, s).
        rbind (parseargs (Suc (length buf)) 0 buf s) (\<lambda>((ws, rs'), s).
        Inr (add_redirs (EXEC ws) (rs @ rs'), s))))"
  by pat_completeness auto
termination by (relation "measure (case_sum (case_sum fst fst) (case_sum fst fst))") auto

subsection \<open>nulterminate, parsecmd\<close>

definition zero_at :: "word_at \<Rightarrow> uchar list \<Rightarrow> uchar list" where
  "zero_at w buf = (case w of (_, e) \<Rightarrow> buf[e := 0])"

fun nulterminate :: "word_at cmd \<Rightarrow> uchar list \<Rightarrow> uchar list" where
  "nulterminate (EXEC ws) buf = fold zero_at ws buf"
| "nulterminate (REDIR c f mode fd) buf = zero_at f (nulterminate c buf)"
| "nulterminate (PIPE l r) buf = nulterminate r (nulterminate l buf)"
| "nulterminate (LIST l r) buf = nulterminate r (nulterminate l buf)"
| "nulterminate (BACK c) buf = nulterminate c buf"

text \<open>The parsed command and the buffer that holds its strings.\<close>

definition parse_fuel :: "uchar list \<Rightarrow> nat" where
  "parse_fuel buf = 4 * length buf + 8"

definition parsecmd :: "uchar list \<Rightarrow> (word_at cmd \<times> uchar list) result" where
  "parsecmd buf =
     rbind (parseline (parse_fuel buf) buf 0) (\<lambda>(c, s).
     let (_, s) = peek buf s [] in
     if s \<noteq> length buf then Inl (Panic ''syntax'') else Inr (c, nulterminate c buf))"

text \<open>The string a word names in a buffer: the bytes from its first position to the next zero.\<close>

definition cstring_at :: "uchar list \<Rightarrow> word_at \<Rightarrow> uchar list" where
  "cstring_at buf w = takeWhile (\<lambda>c. c \<noteq> 0) (drop (fst w) buf)"

definition cmd_strings :: "word_at cmd \<times> uchar list \<Rightarrow> uchar list cmd" where
  "cmd_strings cb = (case cb of (c, buf) \<Rightarrow> map_cmd (cstring_at buf) c)"

section \<open>Every line is parsed or refused\<close>

text \<open>
  A word of a parsed command is a maximal run of word characters of the line. So the byte behind it is not in any other
  word, and the zeros of \<^verbatim>\<open>nulterminate\<close> end each word without hitting another one.
\<close>

definition good_word :: "uchar list \<Rightarrow> word_at \<Rightarrow> bool" where
  "good_word buf w = (case w of (q, e) \<Rightarrow>
     q < e \<and> e \<le> length buf \<and> (\<forall>i. q \<le> i \<and> i < e \<longrightarrow> in_word (buf ! i)) \<and> (e < length buf \<longrightarrow> \<not> in_word (buf ! e)))"

definition word_text :: "uchar list \<Rightarrow> word_at \<Rightarrow> uchar list" where
  "word_text buf w = (case w of (q, e) \<Rightarrow> take (e - q) (drop q buf))"

lemma skip_while_spec:
  assumes "s \<le> length buf" "length buf - s \<le> k"
  shows "s \<le> skip_while P k buf s \<and> skip_while P k buf s \<le> length buf \<and>
     (\<forall>i. s \<le> i \<and> i < skip_while P k buf s \<longrightarrow> P (buf ! i)) \<and>
     (skip_while P k buf s < length buf \<longrightarrow> \<not> P (buf ! skip_while P k buf s))"
  using assms
proof (induction k arbitrary: s)
  case (Suc k)
  show ?case
  proof (cases "s < length buf \<and> P (buf ! s)")
    case True
    then have "skip_while P (Suc k) buf s = skip_while P k buf (Suc s)" by (simp add: byte_at_def)
    moreover from True have "P (buf ! i)" if "s \<le> i" "\<not> Suc s \<le> i" for i using that by (metis le_antisym not_less_eq_eq)
    moreover have "Suc s \<le> skip_while P k buf (Suc s) \<and> skip_while P k buf (Suc s) \<le> length buf \<and>
       (\<forall>i. Suc s \<le> i \<and> i < skip_while P k buf (Suc s) \<longrightarrow> P (buf ! i)) \<and>
       (skip_while P k buf (Suc s) < length buf \<longrightarrow> \<not> P (buf ! skip_while P k buf (Suc s)))"
      using Suc.prems True by (intro Suc.IH) auto
    ultimately show ?thesis by (metis Suc_leD)
  qed (use Suc.prems in \<open>auto simp: byte_at_def\<close>)
qed auto

lemma skip_space_spec:
  assumes "s \<le> length buf"
  shows "s \<le> skip_space buf s \<and> skip_space buf s \<le> length buf \<and> (\<forall>i. s \<le> i \<and> i < skip_space buf s \<longrightarrow> is_space (buf ! i)) \<and>
     (skip_space buf s < length buf \<longrightarrow> \<not> is_space (buf ! skip_space buf s))"
  unfolding skip_space_def by (rule skip_while_spec [OF assms]) simp

lemma skip_space_bounds:
  assumes "s \<le> length buf"
  shows "s \<le> skip_space buf s" "skip_space buf s \<le> length buf"
  using skip_space_spec [OF assms] by auto

text \<open>What a token is: nothing only at the end of the line; a word is good; every token moves on.\<close>

lemma gettoken_cases:
  assumes z: "0 \<notin> set buf" and s: "s \<le> length buf" and g: "gettoken buf s = (t, w, s')"
  shows "s \<le> s'" "s' \<le> length buf" "t = 0 \<or> s < s'" "t = 97 \<longrightarrow> good_word buf w" "t = 0 \<longleftrightarrow> skip_space buf s = length buf"
proof -
  define q where "q = skip_space buf s"
  have q: "s \<le> q" "q \<le> length buf" "q < length buf \<longrightarrow> \<not> is_space (buf ! q)"
    using skip_space_spec [OF s] by (auto simp: q_def)
  have c0: "byte_at buf q = 0 \<longleftrightarrow> q = length buf"
    using z q(2) by (auto simp: byte_at_def) (metis nth_mem)
  define e where "e = skip_while in_word (length buf) buf q"
  have e: "q \<le> e" "e \<le> length buf" "\<forall>i. q \<le> i \<and> i < e \<longrightarrow> in_word (buf ! i)" "e < length buf \<longrightarrow> \<not> in_word (buf ! e)"
    using skip_while_spec [OF q(2), of "length buf" in_word] by (auto simp: e_def)
  have next_ok: "m \<le> skip_space buf m" "skip_space buf m \<le> length buf" if "m \<le> length buf" for m
    using skip_space_bounds [OF that] by auto
  have gt: "q + 2 \<le> length buf" if "byte_at buf (q + 1) = 62" using that by (auto simp: byte_at_def split: if_splits)
  have word: "q < e" if "byte_at buf q \<noteq> 0" "byte_at buf q \<notin> set symbols"
  proof -
    have l: "q < length buf" using that c0 q(2) by auto
    then have "in_word (buf ! q)" using that q(3) by (auto simp: byte_at_def in_word_def is_space_def)
    then show ?thesis using e(1,4) l by (metis le_neq_implies_less)
  qed
  have sym: "set symbols = {60, 124, 62, 38, 59, 40, 41}" "set (chars ''|();&<'') = {124, 40, 41, 59, 38, 60}"
    by (auto simp: symbols_def chars_def)
  have q1: "q + 1 \<le> length buf" if "byte_at buf q \<noteq> 0" using that c0 q(2) by auto
  have "\<exists>m. s' = skip_space buf m \<and> m \<le> length buf \<and> q \<le> m \<and> (t = 0 \<longleftrightarrow> byte_at buf q = 0) \<and>
     (t = 0 \<or> q < m) \<and> (t = 97 \<longrightarrow> w = (q, e) \<and> q < e)"
  proof (cases "byte_at buf q = 0")
    case True
    then show ?thesis using g q(2) unfolding gettoken_def Let_def q_def [symmetric] by auto
  next
    case False
    note q1 = q1 [OF this]
    show ?thesis
    proof (cases "byte_at buf q \<in> set symbols")
      case sy: True
      show ?thesis
      proof (cases "byte_at buf q = 62 \<and> byte_at buf (q + 1) = 62")
        case True
        then show ?thesis using g gt unfolding gettoken_def Let_def q_def [symmetric] sym by auto
      next
        case nt: False
        then have "s' = skip_space buf (q + 1) \<and> t = byte_at buf q"
          using g sy False unfolding gettoken_def Let_def q_def [symmetric] sym by (auto split: if_splits)
        then show ?thesis using q1 sy False unfolding sym by auto
      qed
    next
      case word': False
      then have "s' = skip_space buf e \<and> t = 97 \<and> w = (q, e)"
        using g False unfolding gettoken_def Let_def q_def [symmetric] e_def [symmetric] sym by (auto split: if_splits)
      then show ?thesis using word [OF False word'] e(2) False by (intro exI [of _ e]) simp
    qed
  qed
  then obtain m where m: "s' = skip_space buf m" "m \<le> length buf" "q \<le> m" "t = 0 \<longleftrightarrow> byte_at buf q = 0" "t = 0 \<or> q < m"
    "t = 97 \<longrightarrow> w = (q, e) \<and> q < e" by blast
  note m' = next_ok [OF m(2)]
  show "s \<le> s'" "s' \<le> length buf" "t = 0 \<or> s < s'" using m(1,3,5) m' q(1) by auto
  show "t = 97 \<longrightarrow> good_word buf w" using m(6) e by (simp add: good_word_def)
  show "t = 0 \<longleftrightarrow> skip_space buf s = length buf" using m(4) c0 by (simp add: q_def)
qed

text \<open>The result of a parsing function: a panic, or a later position of the line and good words; never the end of the fuel.\<close>

definition settles :: "uchar list \<Rightarrow> nat \<Rightarrow> ('a \<Rightarrow> word_at set) \<Rightarrow> ('a \<times> nat) result \<Rightarrow> bool" where
  "settles buf s ws r = (case r of Inl e \<Rightarrow> \<exists>m. e = Panic m
     | Inr (x, s') \<Rightarrow> s \<le> s' \<and> s' \<le> length buf \<and> (\<forall>w\<in>ws x. good_word buf w))"

lemma settles_simps [simp]:
  "settles buf s ws (Inl (Panic m))"
  "settles buf s ws (Inr (x, s')) \<longleftrightarrow> s \<le> s' \<and> s' \<le> length buf \<and> (\<forall>w\<in>ws x. good_word buf w)"
  by (simp_all add: settles_def)

lemma settles_bind:
  assumes "settles buf s' ws r"
    and "\<And>x s''. s' \<le> s'' \<Longrightarrow> s'' \<le> length buf \<Longrightarrow> \<forall>w\<in>ws x. good_word buf w \<Longrightarrow> settles buf s ws' (f (x, s''))"
  shows "settles buf s ws' (rbind r f)"
proof (cases r)
  case (Inr a)
  then show ?thesis using assms by (cases a) simp
qed (use assms(1) in \<open>auto simp: settles_def\<close>)

lemma peek_cases:
  assumes "s \<le> length buf" "peek buf s toks = (yes, s')"
  shows "s \<le> s'" "s' \<le> length buf" "yes \<Longrightarrow> s' < length buf \<and> \<not> is_space (buf ! s')"
  using skip_space_spec [OF assms(1)] assms(2) by (auto simp: peek_def Let_def byte_at_def split: if_splits)

lemma skip_space_here:
  assumes "s \<le> length buf" "s < length buf \<longrightarrow> \<not> is_space (buf ! s)"
  shows "skip_space buf s = s"
  using skip_space_spec [OF assms(1)] assms(2) by (metis le_neq_implies_less le_refl order.strict_trans2)

lemma settles_peek:
  assumes "s' \<le> length buf"
    and "\<And>s''. s' \<le> s'' \<Longrightarrow> s'' < length buf \<Longrightarrow> \<not> is_space (buf ! s'') \<Longrightarrow> settles buf s ws (f True s'')"
    and "\<And>s''. s' \<le> s'' \<Longrightarrow> s'' \<le> length buf \<Longrightarrow> settles buf s ws (f False s'')"
  shows "settles buf s ws (let (yes, s) = peek buf s' toks in f yes s)"
proof -
  obtain yes s'' where p: "peek buf s' toks = (yes, s'')" by (cases "peek buf s' toks")
  show ?thesis using assms peek_cases [OF assms(1) p] by (cases yes) (auto simp: p)
qed

lemma settles_token:
  assumes "0 \<notin> set buf" "s' \<le> length buf"
    and "\<And>tok w s''. s' \<le> s'' \<Longrightarrow> s'' \<le> length buf \<Longrightarrow> tok = 0 \<or> s' < s'' \<Longrightarrow> tok = 97 \<longrightarrow> good_word buf w \<Longrightarrow>
      tok = 0 \<longleftrightarrow> skip_space buf s' = length buf \<Longrightarrow> settles buf s ws (f tok w s'')"
  shows "settles buf s ws (let (tok, w, s) = gettoken buf s' in f tok w s)"
proof -
  obtain tok w s'' where g: "gettoken buf s' = (tok, w, s'')" by (cases "gettoken buf s'")
  show ?thesis using assms(3) [OF gettoken_cases [OF assms(1,2) g]] by (simp add: g)
qed

lemma settles_eat:
  assumes "0 \<notin> set buf" "s' < length buf" "\<not> is_space (buf ! s')"
    and "\<And>s''. s' < s'' \<Longrightarrow> s'' \<le> length buf \<Longrightarrow> settles buf s ws (f s'')"
  shows "settles buf s ws (let (_, _, s) = gettoken buf s' in f s)"
proof -
  have "skip_space buf s' \<noteq> length buf" using skip_space_here [of s' buf] assms(2,3) by simp
  then show ?thesis using settles_token [OF assms(1), of s' s ws "\<lambda>_ _. f"] assms(2,4) by auto
qed

lemma parseredirs_settles:
  assumes "0 \<notin> set buf" "s \<le> length buf" "length buf - s < k"
  shows "settles buf s (\<lambda>rs. fst ` set rs) (parseredirs k buf s)"
  using assms(2,3)
proof (induction k arbitrary: s)
  case (Suc k)
  show ?case
    unfolding parseredirs.simps
  proof (rule settles_peek [OF Suc.prems(1)], goal_cases)
    case (1 s1)
    have "skip_space buf s1 = s1" using 1 skip_space_here by simp
    show ?case unfolding if_False not_True_eq_False
    proof (rule settles_token [OF assms(1)], goal_cases)
      case (2 tok w s2)
      then have "s1 < s2" using 1 \<open>skip_space buf s1 = s1\<close> by auto
      show ?case
      proof (rule settles_token [OF assms(1)], goal_cases)
        case (2 t w s3)
        show ?case
        proof (cases "t = 97")
          case True
          have "settles buf s3 (\<lambda>rs. fst ` set rs) (parseredirs k buf s3)"
            using Suc.IH [of s3] Suc.prems 2 1 \<open>s1 < s2\<close> by simp
          then show ?thesis using True 2 1 \<open>s1 < s2\<close> by (auto simp: redir_of_def intro!: settles_bind)
        qed simp
      qed (use 2 in simp)
    qed (use 1 in simp)
  qed simp
qed simp

lemma parseargs_settles:
  assumes "0 \<notin> set buf" "s \<le> length buf" "length buf - s < k"
  shows "settles buf s (\<lambda>(ws, rs). set ws \<union> fst ` set rs) (parseargs k argc buf s)"
  using assms(2,3)
proof (induction k arbitrary: s argc)
  case (Suc k)
  show ?case
    unfolding parseargs.simps
  proof (rule settles_peek [OF Suc.prems(1)], goal_cases)
    case (2 s1)
    show ?case unfolding if_False
    proof (rule settles_token [OF assms(1)], goal_cases)
      case (2 tok w s2)
      note s2 = this
      show ?case
      proof (cases "tok = 97 \<and> argc + 1 < MAXARGS")
        case True
        then have "settles buf s (\<lambda>(ws, rs). set ws \<union> fst ` set rs)
            (rbind (parseredirs (Suc (length buf)) buf s2) (\<lambda>(rs, s).
               rbind (parseargs k (argc + 1) buf s) (\<lambda>((ws, rs'), s). Inr ((w # ws, rs @ rs'), s))))"
        proof (intro settles_bind [OF parseredirs_settles [OF assms(1)]], goal_cases)
          case (3 rs s3)
          have "settles buf s3 (\<lambda>(ws, rs). set ws \<union> fst ` set rs) (parseargs k (argc + 1) buf s3)"
            using Suc.IH [of s3] Suc.prems 3 2 s2 \<open>s \<le> s1\<close> by auto
          then show ?case using 3 2 s2 \<open>s \<le> s1\<close> by (auto intro!: settles_bind) force+
        qed (use s2 in auto)
        then show ?thesis using True by simp
      qed (use s2 \<open>s \<le> s1\<close> in auto)
    qed (use 2 in simp)
  qed simp
qed simp

lemma back_loop_settles:
  assumes "0 \<notin> set buf" "s \<le> length buf" "length buf - s < k" "\<forall>w\<in>set_cmd c. good_word buf w"
  shows "settles buf s set_cmd (back_loop k c buf s)"
  using assms(2-)
proof (induction k arbitrary: s c)
  case (Suc k)
  show ?case
    unfolding back_loop.simps
  proof (rule settles_peek [OF Suc.prems(1)], goal_cases)
    case (1 s1)
    show ?case unfolding if_True
    proof (rule settles_eat [OF assms(1) 1(2,3)], goal_cases)
      case (1 s2)
      then have "settles buf s2 set_cmd (back_loop k (BACK c) buf s2)"
        using Suc.IH [of s2 "BACK c"] Suc.prems \<open>s \<le> s1\<close> by auto
      then show ?case using 1 \<open>s \<le> s1\<close> by (auto simp: settles_def split: sum.splits)
    qed
  qed (use Suc.prems in simp)
qed simp

lemma set_add_redirs: "set_cmd (add_redirs c rs) = set_cmd c \<union> fst ` set rs"
  unfolding add_redirs_def by (induction rs arbitrary: c) auto

lemma settles_later: "settles buf s' ws r \<Longrightarrow> s \<le> s' \<Longrightarrow> settles buf s ws r"
  by (auto simp: settles_def split: sum.splits)

text \<open>One step of the four functions that call each other, from the functions with less fuel.\<close>

lemma parsepipe_settles:
  assumes "0 \<notin> set buf" "s \<le> length buf" "settles buf s set_cmd (parseexec k buf s)"
    and rest: "\<And>s'. s < s' \<Longrightarrow> s' \<le> length buf \<Longrightarrow> settles buf s' set_cmd (parsepipe k buf s')"
  shows "settles buf s set_cmd (parsepipe (Suc k) buf s)"
  unfolding parsepipe.simps
proof (rule settles_bind [OF assms(3)], goal_cases)
  case (1 c s1)
  note s1 = this
  show ?case unfolding prod.case
  proof (rule settles_peek [OF s1(2)], goal_cases)
    case (1 s2)
    show ?case unfolding if_True
      by (rule settles_eat [OF assms(1) 1(2,3)], rule settles_bind, rule rest) (use 1 s1 in auto)
  qed (use s1 in auto)
qed

lemma parseline_settles:
  assumes "0 \<notin> set buf" "s \<le> length buf" "settles buf s set_cmd (parsepipe k buf s)"
    and rest: "\<And>s'. s < s' \<Longrightarrow> s' \<le> length buf \<Longrightarrow> settles buf s' set_cmd (parseline k buf s')"
  shows "settles buf s set_cmd (parseline (Suc k) buf s)"
  unfolding parseline.simps
proof (rule settles_bind [OF assms(3)], goal_cases)
  case (1 c s1)
  note s1 = this
  show ?case unfolding prod.case
  proof (rule settles_bind, rule back_loop_settles [OF assms(1) s1(2) _ s1(3)], simp, goal_cases)
    case (1 c s2)
    note s2 = this
    show ?case unfolding prod.case
    proof (rule settles_peek [OF s2(2)], goal_cases)
      case (1 s3)
      show ?case unfolding if_True
        by (rule settles_eat [OF assms(1) 1(2,3)], rule settles_bind, rule rest) (use 1 s1 s2 in auto)
    qed (use s1 s2 in auto)
  qed
qed

lemma parseblock_settles:
  assumes "0 \<notin> set buf" "s \<le> length buf"
    and rest: "\<And>s'. s < s' \<Longrightarrow> s' \<le> length buf \<Longrightarrow> settles buf s' set_cmd (parseline k buf s')"
  shows "settles buf s set_cmd (parseblock (Suc k) buf s)"
  unfolding parseblock.simps
proof (rule settles_peek [OF assms(2)], goal_cases)
  case (1 s1)
  note s1 = this
  show ?case unfolding not_True_eq_False if_False
  proof (rule settles_eat [OF assms(1) s1(2,3)], rule settles_bind, rule rest, goal_cases)
    case (3 s2 c s3)
    note s3 = this
    show ?case unfolding prod.case
    proof (rule settles_peek [OF s3(4)], goal_cases)
      case (1 s4)
      show ?case unfolding not_True_eq_False if_False
        by (rule settles_eat [OF assms(1) 1(2,3)], rule settles_bind, rule parseredirs_settles [OF assms(1)])
          (use 1 s1 s3 in \<open>auto simp: set_add_redirs\<close>)
    qed simp
  qed (use s1 in auto)
qed simp

lemma parseexec_settles:
  assumes "0 \<notin> set buf" "s \<le> length buf"
    and blk: "\<And>s'. s \<le> s' \<Longrightarrow> s' \<le> length buf \<Longrightarrow> settles buf s' set_cmd (parseblock k buf s')"
  shows "settles buf s set_cmd (parseexec (Suc k) buf s)"
  unfolding parseexec.simps
proof (rule settles_peek [OF assms(2)], goal_cases)
  case (1 s1)
  then show ?case using settles_later [OF blk] by simp
next
  case (2 s1)
  note s1 = this
  show ?case unfolding if_False
  proof (rule settles_bind, rule parseredirs_settles [OF assms(1) s1(2)], simp, goal_cases)
    case (1 rs s2)
    show ?case unfolding prod.case
      by (rule settles_bind, rule parseargs_settles [OF assms(1) 1(2)]) (use 1 s1 in \<open>(auto simp: set_add_redirs; force)+\<close>)
  qed
qed

lemma parse_settles:
  assumes z: "0 \<notin> set buf"
  shows "s \<le> length buf \<Longrightarrow> 4 * (length buf - s) + 4 \<le> k \<Longrightarrow> settles buf s set_cmd (parseline k buf s)"
    and "s \<le> length buf \<Longrightarrow> 4 * (length buf - s) + 3 \<le> k \<Longrightarrow> settles buf s set_cmd (parsepipe k buf s)"
    and "s \<le> length buf \<Longrightarrow> 4 * (length buf - s) + 1 \<le> k \<Longrightarrow> settles buf s set_cmd (parseblock k buf s)"
    and "s \<le> length buf \<Longrightarrow> 4 * (length buf - s) + 2 \<le> k \<Longrightarrow> settles buf s set_cmd (parseexec k buf s)"
proof (induction k arbitrary: s)
  case (Suc k)
  { case 1 then show ?case using Suc.IH(1) Suc.IH(2) by (intro parseline_settles [OF z]) auto }
  { case 2 then show ?case using Suc.IH(2) Suc.IH(4) by (intro parsepipe_settles [OF z]) auto }
  { case 3 then show ?case using Suc.IH(1) by (intro parseblock_settles [OF z]) auto }
  { case 4 then show ?case using Suc.IH(3) by (intro parseexec_settles [OF z]) auto }
qed simp_all

lemma zeros_at:
  "length (fold zero_at ws buf) = length buf \<and>
   (\<forall>i < length buf. fold zero_at ws buf ! i = (if i \<in> snd ` set ws then 0 else buf ! i))"
  by (induction ws arbitrary: buf) (auto simp: zero_at_def nth_list_update split: prod.splits)

lemma nulterminate_zeros:
  "length (nulterminate c buf) = length buf \<and>
   (\<forall>i < length buf. nulterminate c buf ! i = (if i \<in> snd ` set_cmd c then 0 else buf ! i))"
proof (induction c arbitrary: buf)
  case (EXEC ws)
  then show ?case using zeros_at [of ws buf] by simp
next
  case (REDIR c f mode fd)
  then show ?case using zeros_at [of "[f]"] by auto
qed auto

lemma nulterminate_string:
  assumes "0 \<notin> set buf" "\<forall>w\<in>set_cmd c. good_word buf w" "w \<in> set_cmd c"
  shows "cstring_at (nulterminate c buf) w = word_text buf w"
proof -
  obtain q e where w: "w = (q, e)" by (cases w)
  let ?b = "nulterminate c buf"
  have b: "length ?b = length buf" "\<forall>i < length buf. ?b ! i = (if i \<in> snd ` set_cmd c then 0 else buf ! i)"
    using nulterminate_zeros by auto
  have g: "q < e" "e \<le> length buf" "\<forall>i. q \<le> i \<and> i < e \<longrightarrow> in_word (buf ! i)"
    using assms(2,3) by (auto simp: w good_word_def)
  have same: "?b ! i = buf ! i" if "q \<le> i" "i < e" for i
  proof -
    have "i \<noteq> e'" if "(q', e') \<in> set_cmd c" for q' e'
      using assms(2) that g \<open>q \<le> i\<close> \<open>i < e\<close> by (fastforce simp: good_word_def)
    then have "i \<notin> snd ` set_cmd c" by (metis imageE prod.collapse)
    then show ?thesis using b(2) that g(2) by simp
  qed
  have "drop q ?b = word_text buf w @ drop e ?b"
    by (rule nth_equalityI) (use b(1) g same in \<open>auto simp: w word_text_def nth_append add.commute\<close>)
  moreover have "takeWhile (\<lambda>c. c \<noteq> 0) (drop e ?b) = []"
  proof (cases "e < length buf")
    case True
    then have "?b ! e = 0" using b(2) assms(3) w by force
    then show ?thesis using True b(1) by (simp add: Cons_nth_drop_Suc [symmetric])
  qed (simp add: b(1))
  moreover have "\<forall>x\<in>set (word_text buf w). x \<noteq> 0"
    using assms(1) by (auto simp: w word_text_def dest: in_set_takeD in_set_dropD)
  ultimately show ?thesis by (simp add: cstring_at_def w takeWhile_append)
qed

lemma parsecmd_outcome:
  assumes "0 \<notin> set buf"
  shows "(\<exists>m. parsecmd buf = Inl (Panic m)) \<or>
     (\<exists>c. parsecmd buf = Inr (c, nulterminate c buf) \<and> (\<forall>w\<in>set_cmd c. good_word buf w))"
proof -
  have "settles buf 0 set_cmd (parseline (parse_fuel buf) buf 0)" using parse_settles(1) [OF assms, of 0] by (simp add: parse_fuel_def)
  then show ?thesis by (auto simp: parsecmd_def settles_def peek_def Let_def split: sum.splits)
qed

text \<open>
  C19. The parser ends on every line: it panics with a message, or it returns a command. Then each of the command's words
  is a maximal run of word characters of the line, and after nulterminate the C string at its first position is exactly
  that word; the zeros written for the other words did not cut it.
\<close>

theorem sh_parser_total:
  assumes "0 \<notin> set buf"
  shows "(\<exists>m. parsecmd buf = Inl (Panic m)) \<or>
     (\<exists>c b. parsecmd buf = Inr (c, b) \<and> (\<forall>w\<in>set_cmd c. good_word buf w \<and> cstring_at b w = word_text buf w))"
  using parsecmd_outcome [OF assms] nulterminate_string [OF assms] by blast

lemma sh_demo:
  "parsecmd (chars ''cat<a|wc>b'') =
     Inr (PIPE (REDIR (EXEC [(0, 3)]) (4, 5) 0 0) (REDIR (EXEC [(6, 8)]) (9, 10) 0x201 1),
          [99, 97, 116, 0, 97, 0, 119, 99, 0, 98])"
  by code_simp

theorem sh_parser_total_witness:
  "good_word (chars ''cat<a|wc>b'') (6, 8) \<and>
   cstring_at [99, 97, 116, 0, 97, 0, 119, 99, 0, 98] (6, 8) = word_text (chars ''cat<a|wc>b'') (6, 8)"
  using sh_parser_total [of "chars ''cat<a|wc>b''"] unfolding sh_demo by (auto simp: chars_def)

end
