(* ===== verification/Sh_Grammar.thy ===== *)
theory Sh_Grammar
  imports Sh
begin

section \<open>The grammar of the shell\<close>

text \<open>
  The command language as a grammar over tokens, and the parser's agreement with it: the parser returns the command of every
  derivation. Printing a command with parentheses where they are needed gives a derivation, so parsing undoes printing.
\<close>

subsection \<open>Tokens\<close>

definition is_word :: "uchar list \<Rightarrow> bool" where
  "is_word t = (t \<noteq> [] \<and> (\<forall>c\<in>set t. in_word c \<and> c \<noteq> 0))"

definition is_op :: "uchar list \<Rightarrow> bool" where
  "is_op t = (t \<in> {[60], [62], [62, 62], [124], [38], [59], [40], [41]})"

definition untokens :: "uchar list list \<Rightarrow> uchar list" where
  "untokens ts = concat (map (\<lambda>t. t @ [32]) ts)"

definition rest :: "uchar list \<Rightarrow> nat \<Rightarrow> uchar list list \<Rightarrow> bool" where
  "rest buf s ts = (s \<le> length buf \<and> drop s buf = untokens ts \<and> (\<forall>t\<in>set ts. is_word t \<or> is_op t))"

lemma untokens_simps [simp]:
  "untokens [] = []" "untokens (t # ts) = t @ 32 # untokens ts" "untokens (ts @ us) = untokens ts @ untokens us"
  by (simp_all add: untokens_def)

lemma char_sets:
  "set symbols = {60, 124, 62, 38, 59, 40, 41}" "set (chars ''|();&<'') = {124, 40, 41, 59, 38, 60}"
  "set whitespace = {32, 9, 13, 10, 11}" "set (chars ''<>'') = {60, 62}" "set (chars ''|)&;'') = {124, 41, 38, 59}"
  "set (chars ''&'') = {38}" "set (chars '';'') = {59}" "set (chars ''|'') = {124}" "set (chars ''('') = {40}" "set (chars '')'') = {41}"
  by (auto simp: symbols_def chars_def whitespace_def)

lemma op_cases:
  assumes "is_op t"
  obtains "t = [60]" | "t = [62]" | "t = [62, 62]" | "t = [124]" | "t = [38]" | "t = [59]" | "t = [40]" | "t = [41]"
  using assms unfolding is_op_def by blast

lemma op_head:
  assumes "is_op t"
  shows "t \<noteq> []" "hd t \<in> set symbols" "0 \<notin> set t" "\<not> is_space (hd t)" "hd t \<noteq> 0"
  by (cases rule: op_cases [OF assms]; simp add: char_sets is_space_def)+

lemma word_head:
  assumes "is_word t"
  shows "t \<noteq> []" "hd t \<notin> set symbols" "0 \<notin> set t" "\<not> is_space (hd t)" "hd t \<noteq> 0"
proof -
  show "t \<noteq> []" "0 \<notin> set t" using assms by (auto simp: is_word_def)
  have "hd t \<in> set t" using \<open>t \<noteq> []\<close> by simp
  then have "in_word (hd t) \<and> hd t \<noteq> 0" using assms unfolding is_word_def by blast
  then show "hd t \<notin> set symbols" "\<not> is_space (hd t)" "hd t \<noteq> 0" by (simp_all add: in_word_def is_space_def)
qed

lemma token_head:
  assumes "is_word t \<or> is_op t"
  shows "t \<noteq> []" "hd t \<noteq> 0" "\<not> is_space (hd t)" "0 \<notin> set t"
  using assms op_head [of t] word_head [of t] by blast+

lemma word_not_op: "is_word t \<Longrightarrow> \<not> is_op t"
  using op_head(2) word_head(2) by blast

lemma skip_while_eq:
  assumes "s \<le> e" "e \<le> length buf" "\<And>i. s \<le> i \<Longrightarrow> i < e \<Longrightarrow> P (buf ! i)" "e < length buf \<Longrightarrow> \<not> P (buf ! e)"
    and "length buf - s \<le> k"
  shows "skip_while P k buf s = e"
proof -
  let ?r = "skip_while P k buf s"
  have r: "s \<le> ?r" "?r \<le> length buf" "\<forall>i. s \<le> i \<and> i < ?r \<longrightarrow> P (buf ! i)" "?r < length buf \<longrightarrow> \<not> P (buf ! ?r)"
    using skip_while_spec [of s buf k P] assms(1,2,5) by auto
  have "\<not> e < ?r" using r(2,3) assms(1,4) by (meson less_le_trans)
  moreover have "\<not> ?r < e" using r(1,4) assms(2,3) by (meson less_le_trans)
  ultimately show ?thesis by simp
qed

lemma rest_Nil: "rest buf s [] \<longleftrightarrow> s = length buf"
  by (auto simp: rest_def)

lemma rest_length: "rest buf s ts \<Longrightarrow> length buf - s = length (untokens ts)"
  by (metis rest_def length_drop)

lemma rest_nth:
  assumes "rest buf s (t # ts)"
  shows "s + length t < length buf" "i < length t \<Longrightarrow> buf ! (s + i) = t ! i" "buf ! (s + length t) = 32"
    and "s + length t + 1 < length buf \<Longrightarrow> \<not> is_space (buf ! (s + length t + 1))"
    and "rest buf (s + length t + 1) ts"
proof -
  have d: "drop s buf = t @ 32 # untokens ts" "s \<le> length buf" using assms by (auto simp: rest_def)
  have "length buf - s = length t + 1 + length (untokens ts)" using arg_cong [OF d(1), of length] by simp
  then show l: "s + length t < length buf" by simp
  have n: "buf ! (s + i) = (t @ 32 # untokens ts) ! i" for i using d by (metis nth_drop)
  show "i < length t \<Longrightarrow> buf ! (s + i) = t ! i" "buf ! (s + length t) = 32" using n by (simp_all add: nth_append)
  have d': "drop (s + length t + 1) buf = untokens ts"
    using arg_cong [OF d(1), of "drop (length t + 1)"] by (simp add: add.commute add.left_commute)
  then show r: "rest buf (s + length t + 1) ts" using assms l by (simp add: rest_def)
  show "\<not> is_space (buf ! (s + length t + 1))" if "s + length t + 1 < length buf"
  proof (cases ts)
    case Nil
    then show ?thesis using d' that by simp
  next
    case (Cons u us)
    then have u: "is_word u \<or> is_op u" using assms by (simp add: rest_def)
    have "buf ! (s + length t + 1) = hd u"
      using d' Cons token_head(1) [OF u] hd_drop_conv_nth [OF that] by simp
    then show ?thesis using token_head(3) [OF u] by simp
  qed
qed

lemma rest_head:
  assumes "rest buf s (t # ts)"
  shows "byte_at buf s = hd t" "skip_space buf s = s"
proof -
  have t: "is_word t \<or> is_op t" using assms by (simp add: rest_def)
  have "buf ! s = hd t" using rest_nth(2) [OF assms, of 0] token_head(1) [OF t] by (simp add: hd_conv_nth)
  then show "byte_at buf s = hd t" "skip_space buf s = s"
    using rest_nth(1) [OF assms] token_head(3) [OF t] skip_space_here [of s buf] by (auto simp: byte_at_def)
qed

lemma rest_space: "rest buf s (t # ts) \<Longrightarrow> skip_space buf (s + length t) = s + length t + 1"
  unfolding skip_space_def
  by (rule skip_while_eq) (use rest_nth [of buf s t ts] in \<open>auto simp: is_space_def char_sets le_less_Suc_eq\<close>)

lemma rest_word_end: "rest buf s (t # ts) \<Longrightarrow> is_word t \<Longrightarrow> skip_while in_word (length buf) buf s = s + length t"
proof (rule skip_while_eq)
  fix i assume r: "rest buf s (t # ts)" and "is_word t" "s \<le> i" "i < s + length t"
  then show "in_word (buf ! i)" using rest_nth(2) [OF r, of "i - s"] by (simp add: is_word_def)
qed (use rest_nth [of buf s t ts] in \<open>auto simp: in_word_def char_sets\<close>)

definition kind :: "uchar list \<Rightarrow> uchar" where
  "kind t = (if t = [62, 62] then 43 else if is_op t then hd t else 97)"

lemma gettoken_token:
  assumes r: "rest buf s (t # ts)"
  shows "gettoken buf s = (kind t, (s, s + length t), s + length t + 1)" "word_text buf (s, s + length t) = t"
proof -
  have t: "is_word t \<or> is_op t" using r by (simp add: rest_def)
  note h = rest_head [OF r]
  have sp: "skip_space buf (s + length t) = s + length t + 1" by (rule rest_space [OF r])
  have b1: "byte_at buf (s + 1) = (if t = [62, 62] then 62 else 32)" if "is_op t"
    by (cases rule: op_cases [OF that]; use rest_nth(1) [OF r] rest_nth(2) [OF r, of 1] rest_nth(3) [OF r] in \<open>simp add: byte_at_def\<close>)
  show "gettoken buf s = (kind t, (s, s + length t), s + length t + 1)"
  proof (cases "is_op t")
    case True
    show ?thesis
      by (cases rule: op_cases [OF True]; use b1 [OF True] h sp in \<open>simp add: gettoken_def kind_def is_op_def char_sets Let_def\<close>)
  next
    case False
    then have "is_word t" using t by simp
    note word_head(2) [OF this]
    then show ?thesis using False h sp rest_word_end [OF r \<open>is_word t\<close>] token_head(2) [OF t]
      by (auto simp: gettoken_def kind_def char_sets is_op_def)
  qed
  have "drop s buf = t @ 32 # untokens ts" using r by (simp add: rest_def)
  then show "word_text buf (s, s + length t) = t" by (simp add: word_text_def)
qed

lemma gettoken_end: "rest buf s [] \<Longrightarrow> gettoken buf s = (0, (s, s), s)"
  using skip_space_here [of s buf] by (simp add: rest_Nil gettoken_def byte_at_def Let_def)

lemma peek_rest: "rest buf s ts \<Longrightarrow> peek buf s toks = (ts \<noteq> [] \<and> hd (hd ts) \<in> set toks, s)"
proof (cases ts)
  case Nil
  then show "rest buf s ts \<Longrightarrow> ?thesis" using skip_space_here [of s buf] by (simp add: rest_Nil peek_def byte_at_def)
next
  case (Cons t us)
  then show "rest buf s ts \<Longrightarrow> ?thesis" using rest_head [of buf s t us] token_head(2) [of t] by (auto simp: peek_def rest_def)
qed

subsection \<open>The grammar\<close>

text \<open>A redirection is its operator and its file; an argument may be followed by redirections.\<close>

type_synonym redir_tok = "uchar list \<times> uchar list"

definition redir_ok :: "redir_tok \<Rightarrow> bool" where
  "redir_ok r = (case r of (op, f) \<Rightarrow> op \<in> {[60], [62], [62, 62]} \<and> is_word f)"

definition redir_toks :: "redir_tok list \<Rightarrow> uchar list list" where
  "redir_toks rs = concat (map (\<lambda>(op, f). [op, f]) rs)"

definition redirs_of :: "redir_tok list \<Rightarrow> uchar list redir list" where
  "redirs_of rs = map (\<lambda>(op, f). redir_of (hd op) f) rs"

definition arg_toks :: "(uchar list \<times> redir_tok list) list \<Rightarrow> uchar list list" where
  "arg_toks as = concat (map (\<lambda>(w, rs). w # redir_toks rs) as)"

inductive g_line :: "uchar list list \<Rightarrow> uchar list cmd \<Rightarrow> bool"
  and g_pipe :: "uchar list list \<Rightarrow> uchar list cmd \<Rightarrow> bool"
  and g_exec :: "uchar list list \<Rightarrow> uchar list cmd \<Rightarrow> bool" where
  args: "length as < MAXARGS \<Longrightarrow> \<forall>r\<in>set rs. redir_ok r \<Longrightarrow> \<forall>(w, rs)\<in>set as. is_word w \<and> (\<forall>r\<in>set rs. redir_ok r) \<Longrightarrow>
    g_exec (redir_toks rs @ arg_toks as) (add_redirs (EXEC (map fst as)) (redirs_of (rs @ concat (map snd as))))"
| block: "g_line ts c \<Longrightarrow> \<forall>r\<in>set rs. redir_ok r \<Longrightarrow> g_exec ([40] # ts @ [41] # redir_toks rs) (add_redirs c (redirs_of rs))"
| exec_pipe: "g_exec ts c \<Longrightarrow> g_pipe ts c"
| pipe: "g_exec ts c \<Longrightarrow> g_pipe us r \<Longrightarrow> g_pipe (ts @ [124] # us) (PIPE c r)"
| pipe_line: "g_pipe ts c \<Longrightarrow> g_line (ts @ replicate n [38]) ((BACK ^^ n) c)"
| list: "g_pipe ts c \<Longrightarrow> g_line us r \<Longrightarrow> g_line (ts @ replicate n [38] @ [59] # us) (LIST ((BACK ^^ n) c) r)"

subsection \<open>The parser follows the grammar\<close>

lemma toks_simps [simp]:
  "redir_toks [] = []" "redir_toks ((op, f) # rs) = op # f # redir_toks rs" "redir_toks (rs @ rs') = redir_toks rs @ redir_toks rs'"
  "redirs_of [] = []" "redirs_of ((op, f) # rs) = redir_of (hd op) f # redirs_of rs" "redirs_of (rs @ rs') = redirs_of rs @ redirs_of rs'"
  "arg_toks [] = []" "arg_toks ((w, rs) # as) = w # redir_toks rs @ arg_toks as" "arg_toks (as @ as') = arg_toks as @ arg_toks as'"
  by (simp_all add: redir_toks_def redirs_of_def arg_toks_def)

definition stops_at :: "uchar set \<Rightarrow> uchar list list \<Rightarrow> bool" where
  "stops_at F us = (us = [] \<or> hd (hd us) \<in> F)"

lemma stops_at_simps [simp]:
  "stops_at F []" "stops_at F (t # us) \<longleftrightarrow> hd t \<in> F"
  by (simp_all add: stops_at_def)

lemma kind_word: "is_word t \<Longrightarrow> kind t = 97"
  using word_not_op [of t] by (auto simp: kind_def is_op_def)

abbreviation redir_text :: "uchar list \<Rightarrow> word_at redir \<Rightarrow> uchar list redir" where
  "redir_text buf \<equiv> map_prod (word_text buf) (\<lambda>m. m)"

lemma redir_kind: "redir_ok (op, f) \<Longrightarrow> redir_text buf (redir_of (kind op) w) = redir_of (hd op) (word_text buf w) \<and> hd op \<in> {60, 62}"
  by (auto simp: redir_ok_def redir_of_def kind_def is_op_def)

lemma parseredirs_toks:
  assumes "rest buf s (redir_toks rs @ us)" "\<forall>r\<in>set rs. redir_ok r" "stops_at (- {60, 62}) us" "length rs < k"
  shows "\<exists>rs' s'. parseredirs k buf s = Inr (rs', s') \<and> rest buf s' us \<and> map (redir_text buf) rs' = redirs_of rs"
  using assms
proof (induction rs arbitrary: s k)
  case Nil
  obtain k' where k: "k = Suc k'" using Nil.prems(4) by (cases k) auto
  have "peek buf s (chars ''<>'') = (False, s)"
    using peek_rest [OF Nil.prems(1), of "chars ''<>''"] Nil.prems(3) by (auto simp: char_sets stops_at_def)
  then show ?case using Nil.prems(1) by (simp add: k)
next
  case (Cons r rs)
  obtain op f where r: "r = (op, f)" by (cases r)
  obtain k' where k: "k = Suc k'" "length rs < k'" using Cons.prems(4) by (cases k) auto
  have ok: "redir_ok (op, f)" "is_word f" using Cons.prems(2) by (auto simp: r redir_ok_def)
  have r0: "rest buf s (op # f # redir_toks rs @ us)" using Cons.prems(1) by (simp add: r)
  note r1 = rest_nth(5) [OF r0]
  note r2 = rest_nth(5) [OF r1]
  have "peek buf s (chars ''<>'') = (True, s)"
    using peek_rest [OF r0, of "chars ''<>''"] redir_kind [OF ok(1)] by (simp add: char_sets)
  moreover obtain rs' s' where "parseredirs k' buf (s + length op + 1 + length f + 1) = Inr (rs', s')" "rest buf s' us"
      "map (redir_text buf) rs' = redirs_of rs"
    using Cons.IH [OF r2 _ Cons.prems(3) k(2)] Cons.prems(2) by auto
  ultimately show ?case
    using gettoken_token [OF r0] gettoken_token [OF r1] redir_kind [OF ok(1), of buf] kind_word [OF ok(2)]
    by (simp add: k(1) r del: add_Suc_right)
qed

lemma untokens_long: "\<forall>t\<in>set ts. t \<noteq> [] \<Longrightarrow> length ts \<le> length (untokens ts)"
  by (induction ts) auto

lemma rest_count: "rest buf s ts \<Longrightarrow> length ts \<le> length buf"
  using rest_length [of buf s ts] untokens_long [of ts] token_head(1) by (fastforce simp: rest_def)

lemma parseredirs_all:
  assumes "rest buf s (redir_toks rs @ us)" "\<forall>r\<in>set rs. redir_ok r" "stops_at (- {60, 62}) us"
  shows "\<exists>rs' s'. parseredirs (Suc (length buf)) buf s = Inr (rs', s') \<and> rest buf s' us \<and> map (redir_text buf) rs' = redirs_of rs"
proof (rule parseredirs_toks [OF assms])
  have "length rs \<le> length (redir_toks rs)" by (induction rs) auto
  then show "length rs < Suc (length buf)" using rest_count [OF assms(1)] by simp
qed

lemma parseargs_toks:
  assumes "rest buf s (arg_toks as @ us)" "\<forall>(w, rs)\<in>set as. is_word w \<and> (\<forall>r\<in>set rs. redir_ok r)"
    and "stops_at {124, 38, 59, 41} us" "length as < k" "argc + length as < MAXARGS"
  shows "\<exists>ws rs s'. parseargs k argc buf s = Inr ((ws, rs), s') \<and> rest buf s' us \<and>
     map (word_text buf) ws = map fst as \<and> map (redir_text buf) rs = redirs_of (concat (map snd as))"
  using assms
proof (induction as arbitrary: s k argc)
  case Nil
  obtain k' where k: "k = Suc k'" using Nil.prems(4) by (cases k) auto
  show ?case
  proof (cases us)
    case Nil': Nil
    then have "rest buf s []" using Nil.prems(1) by simp
    then show ?thesis using peek_rest [of buf s "[]"] gettoken_end [of buf s] by (simp add: k Nil')
  next
    case (Cons u us')
    then show ?thesis using Nil.prems(1,3) peek_rest [of buf s us "chars ''|)&;''"] by (auto simp: k char_sets)
  qed
next
  case (Cons a as)
  obtain w rs where a: "a = (w, rs)" by (cases a)
  obtain k' where k: "k = Suc k'" "length as < k'" using Cons.prems(4) by (cases k) auto
  have w: "is_word w" "\<forall>r\<in>set rs. redir_ok r" using Cons.prems(2) by (auto simp: a)
  have r0: "rest buf s (w # redir_toks rs @ arg_toks as @ us)" using Cons.prems(1) by (simp add: a)
  note r1 = rest_nth(5) [OF r0]
  have "stops_at (- {60, 62}) (arg_toks as @ us)"
  proof (cases as)
    case (Cons b bs)
    then have "is_word (fst b)" using Cons.prems(2) by auto
    then show ?thesis using word_head(2) [of "fst b"] Cons by (cases b) (auto simp: char_sets)
  qed (use Cons.prems(3) in \<open>auto simp: stops_at_def\<close>)
  from parseredirs_all [OF r1 w(2) this] obtain rs1 s1 where
    p: "parseredirs (Suc (length buf)) buf (s + length w + 1) = Inr (rs1, s1)" "rest buf s1 (arg_toks as @ us)"
      "map (redir_text buf) rs1 = redirs_of rs" by blast
  obtain ws rs2 s2 where q: "parseargs k' (argc + 1) buf s1 = Inr ((ws, rs2), s2)" "rest buf s2 us"
      "map (word_text buf) ws = map fst as" "map (redir_text buf) rs2 = redirs_of (concat (map snd as))"
    using Cons.IH [OF p(2) _ Cons.prems(3) k(2), of "argc + 1"] Cons.prems(2,5) by auto
  have "peek buf s (chars ''|)&;'') = (False, s)"
    using peek_rest [OF r0, of "chars ''|)&;''"] word_head(2) [OF w(1)] by (auto simp: char_sets)
  then show ?case
    using gettoken_token [OF r0] kind_word [OF w(1)] p q Cons.prems(5) by (simp add: k(1) a del: add_Suc_right)
qed

definition parses ::
  "(nat \<Rightarrow> uchar list \<Rightarrow> nat \<Rightarrow> (word_at cmd \<times> nat) result) \<Rightarrow> nat \<Rightarrow> uchar set \<Rightarrow> uchar list list \<Rightarrow> uchar list cmd \<Rightarrow> bool" where
  "parses f K F ts c \<longleftrightarrow> (\<forall>buf s k us. rest buf s (ts @ us) \<and> stops_at F us \<and> 4 * length (untokens (ts @ us)) + K \<le> k \<longrightarrow>
     (\<exists>c' s'. f k buf s = Inr (c', s') \<and> rest buf s' us \<and> map_cmd (word_text buf) c' = c))"

lemma parsesI:
  assumes "\<And>buf s k us. rest buf s (ts @ us) \<Longrightarrow> stops_at F us \<Longrightarrow> 4 * length (untokens (ts @ us)) + K \<le> Suc k \<Longrightarrow>
     \<exists>c' s'. f (Suc k) buf s = Inr (c', s') \<and> rest buf s' us \<and> map_cmd (word_text buf) c' = c" and "0 < K"
  shows "parses f K F ts c"
  unfolding parses_def
proof (intro allI impI, elim conjE)
  fix buf s k us assume a: "rest buf s (ts @ us)" "stops_at F us" "4 * length (untokens (ts @ us)) + K \<le> k"
  then obtain k' where "k = Suc k'" using assms(2) by (cases k) auto
  then show "\<exists>c' s'. f k buf s = Inr (c', s') \<and> rest buf s' us \<and> map_cmd (word_text buf) c' = c" using assms(1) a by simp
qed

lemma parsesD:
  assumes "parses f K F ts c" "rest buf s (ts @ us)" "stops_at F us" "4 * length (untokens (ts @ us)) + K \<le> k"
  obtains c' s' where "f k buf s = Inr (c', s')" "rest buf s' us" "map_cmd (word_text buf) c' = c"
  using assms unfolding parses_def by blast

lemma map_add_redirs: "map_cmd h (add_redirs c rs) = add_redirs (map_cmd h c) (map (map_prod h (\<lambda>m. m)) rs)"
  unfolding add_redirs_def by (induction rs arbitrary: c) auto

lemma stops_at_mono: "stops_at F us \<Longrightarrow> F \<subseteq> G \<Longrightarrow> stops_at G us"
  by (auto simp: stops_at_def)

lemma back_loop_toks:
  assumes "rest buf s (replicate n [38] @ us)" "stops_at {59, 41} us" "n < k"
  shows "\<exists>s'. back_loop k c buf s = Inr ((BACK ^^ n) c, s') \<and> rest buf s' us"
  using assms
proof (induction n arbitrary: s k c)
  case 0
  then show ?case using peek_rest [of buf s us "chars ''&''"] by (cases k) (auto simp: char_sets stops_at_def)
next
  case (Suc n)
  obtain k' where k: "k = Suc k'" "n < k'" using Suc.prems(3) by (cases k) auto
  have r0: "rest buf s ([38] # replicate n [38] @ us)" using Suc.prems(1) by simp
  obtain s' where "back_loop k' (BACK c) buf (s + length [38::uchar] + 1) = Inr ((BACK ^^ n) (BACK c), s')" "rest buf s' us"
    using Suc.IH [OF rest_nth(5) [OF r0] Suc.prems(2) k(2)] by blast
  then show ?case
    using peek_rest [OF r0, of "chars ''&''"] gettoken_token(1) [OF r0] by (simp add: k(1) char_sets funpow_swap1)
qed

lemma parse_args:
  assumes "length as < MAXARGS" "\<forall>r\<in>set rs. redir_ok r" "\<forall>(w, rs)\<in>set as. is_word w \<and> (\<forall>r\<in>set rs. redir_ok r)"
  shows "parses parseexec 2 {124, 38, 59, 41} (redir_toks rs @ arg_toks as)
     (add_redirs (EXEC (map fst as)) (redirs_of (rs @ concat (map snd as))))"
proof (rule parsesI)
  fix buf s k us
  assume r0: "rest buf s ((redir_toks rs @ arg_toks as) @ us)" and us: "stops_at {124, 38, 59, 41} us"
  have as: "hd (hd (arg_toks as)) \<notin> set symbols" if "as \<noteq> []"
    using that assms(3) word_head(2) by (cases as) auto
  have "stops_at (- {60, 62}) (arg_toks as @ us)"
    using as us by (cases as) (auto simp: char_sets stops_at_def)
  from parseredirs_all [OF _ assms(2) this] r0 [unfolded append_assoc] obtain rs1 s1 where
    p: "parseredirs (Suc (length buf)) buf s = Inr (rs1, s1)" "rest buf s1 (arg_toks as @ us)" "map (redir_text buf) rs1 = redirs_of rs"
    by blast
  have "length as \<le> length (arg_toks as)" by (induction as) auto
  then have "length as < Suc (length buf)" using rest_count [OF p(2)] by simp
  from parseargs_toks [OF p(2) assms(3) us this, of 0, unfolded add_0, OF assms(1)] obtain ws rs2 s2 where
    q: "parseargs (Suc (length buf)) 0 buf s1 = Inr ((ws, rs2), s2)" "rest buf s2 us"
      "map (word_text buf) ws = map fst as" "map (redir_text buf) rs2 = redirs_of (concat (map snd as))" by blast
  have "stops_at (- {40}) ((redir_toks rs @ arg_toks as) @ us)"
    using as us assms(2) redir_kind by (cases rs; cases as) (fastforce simp: char_sets stops_at_def)+
  then have "peek buf s (chars ''('') = (False, s)"
    using peek_rest [OF r0, of "chars ''(''"] by (auto simp: char_sets stops_at_def)
  then show "\<exists>c' s'. parseexec (Suc k) buf s = Inr (c', s') \<and> rest buf s' us \<and>
      map_cmd (word_text buf) c' = add_redirs (EXEC (map fst as)) (redirs_of (rs @ concat (map snd as)))"
    using p q by (simp add: map_add_redirs del: parseredirs.simps parseargs.simps)
qed simp

lemma parse_block:
  assumes "parses parseline 4 {41} ts c" "\<forall>r\<in>set rs. redir_ok r"
  shows "parses parseexec 2 {124, 38, 59, 41} ([40] # ts @ [41] # redir_toks rs) (add_redirs c (redirs_of rs))"
proof (rule parsesI)
  fix buf s k us
  assume r: "rest buf s (([40] # ts @ [41] # redir_toks rs) @ us)" and us: "stops_at {124, 38, 59, 41} us"
    and k: "4 * length (untokens (([40] # ts @ [41] # redir_toks rs) @ us)) + 2 \<le> Suc k"
  then have r0: "rest buf s ([40] # ts @ [41] # redir_toks rs @ us)" by simp
  obtain k' where k': "k = Suc k'" using k by (cases k) auto
  obtain c' s1 where p: "parseline k' buf (s + length [40::uchar] + 1) = Inr (c', s1)" "rest buf s1 ([41] # redir_toks rs @ us)"
      "map_cmd (word_text buf) c' = c"
    by (rule parsesD [OF assms(1) rest_nth(5) [OF r0], of k']) (use k k' in auto)
  have "stops_at (- {60, 62}) us" by (rule stops_at_mono [OF us]) auto
  from parseredirs_all [OF rest_nth(5) [OF p(2)] assms(2) this] obtain rs1 s2 where
    q: "parseredirs (Suc (length buf)) buf (s1 + length [41::uchar] + 1) = Inr (rs1, s2)" "rest buf s2 us"
      "map (redir_text buf) rs1 = redirs_of rs" by blast
  show "\<exists>c' s'. parseexec (Suc k) buf s = Inr (c', s') \<and> rest buf s' us \<and> map_cmd (word_text buf) c' = add_redirs c (redirs_of rs)"
    using peek_rest [OF r0] gettoken_token(1) [OF r0] peek_rest [OF p(2)] gettoken_token(1) [OF p(2)] p q
    by (simp add: k' char_sets map_add_redirs del: parseredirs.simps)
qed simp

lemma parse_exec_pipe:
  assumes "parses parseexec 2 {124, 38, 59, 41} ts c"
  shows "parses parsepipe 3 {38, 59, 41} ts c"
proof (rule parsesI)
  fix buf s k us
  assume r: "rest buf s (ts @ us)" and us: "stops_at {38, 59, 41} us" and k: "4 * length (untokens (ts @ us)) + 3 \<le> Suc k"
  obtain c' s1 where p: "parseexec k buf s = Inr (c', s1)" "rest buf s1 us" "map_cmd (word_text buf) c' = c"
    by (rule parsesD [OF assms r, of k]) (use us k in \<open>auto simp: stops_at_def\<close>)
  then show "\<exists>c' s'. parsepipe (Suc k) buf s = Inr (c', s') \<and> rest buf s' us \<and> map_cmd (word_text buf) c' = c"
    using peek_rest [OF p(2), of "chars ''|''"] us by (auto simp: char_sets stops_at_def)
qed simp

lemma parse_pipe:
  assumes "parses parseexec 2 {124, 38, 59, 41} ts c" "parses parsepipe 3 {38, 59, 41} vs d"
  shows "parses parsepipe 3 {38, 59, 41} (ts @ [124] # vs) (PIPE c d)"
proof (rule parsesI)
  fix buf s k us
  assume r: "rest buf s ((ts @ [124] # vs) @ us)" and us: "stops_at {38, 59, 41} us"
    and k: "4 * length (untokens ((ts @ [124] # vs) @ us)) + 3 \<le> Suc k"
  obtain c' s1 where p: "parseexec k buf s = Inr (c', s1)" "rest buf s1 ([124] # vs @ us)" "map_cmd (word_text buf) c' = c"
    by (rule parsesD [OF assms(1), of buf s "[124] # vs @ us" k]) (use r k in auto)
  obtain d' s2 where q: "parsepipe k buf (s1 + length [124::uchar] + 1) = Inr (d', s2)" "rest buf s2 us" "map_cmd (word_text buf) d' = d"
    by (rule parsesD [OF assms(2) rest_nth(5) [OF p(2)] us, of k]) (use k in auto)
  show "\<exists>c' s'. parsepipe (Suc k) buf s = Inr (c', s') \<and> rest buf s' us \<and> map_cmd (word_text buf) c' = PIPE c d"
    using peek_rest [OF p(2)] gettoken_token(1) [OF p(2)] p q by (simp add: char_sets)
qed simp

lemma map_back: "map_cmd h ((BACK ^^ n) c) = (BACK ^^ n) (map_cmd h c)"
  by (induction n) auto

lemma parse_backs:
  assumes "parses parsepipe 3 {38, 59, 41} ts c" "rest buf s (ts @ replicate n [38] @ us)" "stops_at {59, 41} us"
    and "4 * length (untokens (ts @ replicate n [38] @ us)) + 3 \<le> k"
  shows "\<exists>c' s' c'' s''. parsepipe k buf s = Inr (c', s') \<and> back_loop (Suc (length buf)) c' buf s' = Inr (c'', s'') \<and>
     rest buf s'' us \<and> map_cmd (word_text buf) c'' = (BACK ^^ n) c"
proof -
  obtain c' s1 where p: "parsepipe k buf s = Inr (c', s1)" "rest buf s1 (replicate n [38] @ us)" "map_cmd (word_text buf) c' = c"
    by (rule parsesD [OF assms(1,2), of k]) (use assms(3,4) in \<open>cases n; auto simp: stops_at_def\<close>)+
  have "n < Suc (length buf)" using rest_count [OF p(2)] by simp
  from back_loop_toks [OF p(2) assms(3) this, of c'] show ?thesis using p by (auto simp: map_back)
qed

lemma parse_pipe_line:
  assumes "parses parsepipe 3 {38, 59, 41} ts c"
  shows "parses parseline 4 {41} (ts @ replicate n [38]) ((BACK ^^ n) c)"
proof (rule parsesI)
  fix buf s k us
  assume r: "rest buf s ((ts @ replicate n [38]) @ us)" and us: "stops_at {41} us"
    and k: "4 * length (untokens ((ts @ replicate n [38]) @ us)) + 4 \<le> Suc k"
  have "stops_at {59, 41} us" by (rule stops_at_mono [OF us]) simp
  from parse_backs [OF assms, of buf s n us k] this r k obtain c' s1 c'' s2 where
    p: "parsepipe k buf s = Inr (c', s1)" "back_loop (Suc (length buf)) c' buf s1 = Inr (c'', s2)" "rest buf s2 us"
      "map_cmd (word_text buf) c'' = (BACK ^^ n) c" by auto
  then show "\<exists>c' s'. parseline (Suc k) buf s = Inr (c', s') \<and> rest buf s' us \<and> map_cmd (word_text buf) c' = (BACK ^^ n) c"
    using peek_rest [OF p(3), of "chars '';''"] us by (auto simp: char_sets stops_at_def simp del: back_loop.simps)
qed simp

lemma parse_list:
  assumes "parses parsepipe 3 {38, 59, 41} ts c" "parses parseline 4 {41} vs d"
  shows "parses parseline 4 {41} (ts @ replicate n [38] @ [59] # vs) (LIST ((BACK ^^ n) c) d)"
proof (rule parsesI)
  fix buf s k us
  assume r: "rest buf s ((ts @ replicate n [38] @ [59] # vs) @ us)" and us: "stops_at {41} us"
    and k: "4 * length (untokens ((ts @ replicate n [38] @ [59] # vs) @ us)) + 4 \<le> Suc k"
  from parse_backs [OF assms(1), of buf s n "[59] # vs @ us" k] r k obtain c' s1 c'' s2 where
    p: "parsepipe k buf s = Inr (c', s1)" "back_loop (Suc (length buf)) c' buf s1 = Inr (c'', s2)" "rest buf s2 ([59] # vs @ us)"
      "map_cmd (word_text buf) c'' = (BACK ^^ n) c" by auto
  obtain d' s3 where q: "parseline k buf (s2 + length [59::uchar] + 1) = Inr (d', s3)" "rest buf s3 us" "map_cmd (word_text buf) d' = d"
    by (rule parsesD [OF assms(2) rest_nth(5) [OF p(3)] us, of k]) (use k in auto)
  show "\<exists>c' s'. parseline (Suc k) buf s = Inr (c', s') \<and> rest buf s' us \<and> map_cmd (word_text buf) c' = LIST ((BACK ^^ n) c) d"
    using peek_rest [OF p(3)] gettoken_token(1) [OF p(3)] p q by (simp add: char_sets del: back_loop.simps)
qed simp

lemma parser_complete:
  "g_line ts c \<Longrightarrow> parses parseline 4 {41} ts c"
  "g_pipe ts c \<Longrightarrow> parses parsepipe 3 {38, 59, 41} ts c"
  "g_exec ts c \<Longrightarrow> parses parseexec 2 {124, 38, 59, 41} ts c"
  by (induction rule: g_line_g_pipe_g_exec.inducts)
    (rule parse_args parse_block parse_pipe parse_exec_pipe parse_list parse_pipe_line, assumption+)+

subsection \<open>Printing\<close>

text \<open>The tokens of a command at one of four levels: a line, a pipeline with its ampersands, a pipeline, one command.\<close>

definition parens :: "bool \<Rightarrow> uchar list list \<Rightarrow> uchar list list" where
  "parens b ts = (if b then [40] # ts @ [[41]] else ts)"

fun show_cmd :: "nat \<Rightarrow> uchar list cmd \<Rightarrow> uchar list list" where
  "show_cmd lvl (EXEC ws) = ws"
| "show_cmd lvl (REDIR c f mode fd) = show_cmd 3 c @ [if fd = 0 then [60] else [62], f]"
| "show_cmd lvl (PIPE l r) = parens (2 < lvl) (show_cmd 3 l @ [124] # show_cmd 2 r)"
| "show_cmd lvl (BACK c) = parens (1 < lvl) (show_cmd 1 c @ [[38]])"
| "show_cmd lvl (LIST l r) = parens (0 < lvl) (show_cmd 1 l @ [59] # show_cmd 0 r)"

text \<open>The commands a line can denote: fewer than ten arguments, and the modes of the two redirections.\<close>

fun cmd_ok :: "uchar list cmd \<Rightarrow> bool" where
  "cmd_ok (EXEC ws) = (length ws < MAXARGS \<and> (\<forall>w\<in>set ws. is_word w))"
| "cmd_ok (REDIR c f mode fd) = (cmd_ok c \<and> is_word f \<and> (mode, fd) \<in> {(0, 0), (0x201, 1)})"
| "cmd_ok (PIPE l r) = (cmd_ok l \<and> cmd_ok r)"
| "cmd_ok (BACK c) = cmd_ok c"
| "cmd_ok (LIST l r) = (cmd_ok l \<and> cmd_ok r)"

lemma g_exec_redir:
  assumes "g_exec ts c" "redir_ok (op, f)"
  shows "g_exec (ts @ [op, f]) (add_redirs c [redir_of (hd op) f])"
  using assms(1)
proof (cases rule: g_exec.cases)
  case (args as rs)
  show ?thesis
  proof (cases as rule: rev_cases)
    case Nil
    then show ?thesis using g_line_g_pipe_g_exec.args [of "[]" "rs @ [(op, f)]"] args assms(2)
      by (simp add: add_redirs_def MAXARGS_def)
  next
    case (snoc as' a)
    obtain w rs' where a: "a = (w, rs')" by (cases a)
    show ?thesis using g_line_g_pipe_g_exec.args [of "as' @ [(w, rs' @ [(op, f)])]" rs] args assms(2)
      by (auto simp: snoc a add_redirs_def)
  qed
next
  case (block ts' c' rs)
  then show ?thesis using g_line_g_pipe_g_exec.block [of ts' c' "rs @ [(op, f)]"] assms(2) by (simp add: add_redirs_def)
qed

lemma g_block: "g_line ts c \<Longrightarrow> g_exec (parens True ts) c"
  using g_line_g_pipe_g_exec.block [of ts c "[]"] by (simp add: parens_def add_redirs_def)

definition g_backs :: "uchar list list \<Rightarrow> uchar list cmd \<Rightarrow> bool" where
  "g_backs ts c = (\<exists>us d n. ts = us @ replicate n [38] \<and> c = (BACK ^^ n) d \<and> g_pipe us d)"

lemma g_backs_pipe: "g_pipe ts c \<Longrightarrow> g_backs ts c"
  unfolding g_backs_def by (rule exI [of _ ts], rule exI [of _ c], rule exI [of _ 0]) simp

lemma g_backs_back:
  assumes "g_backs ts c"
  shows "g_backs (ts @ [[38]]) (BACK c)"
proof -
  obtain us d n where "ts = us @ replicate n [38]" "c = (BACK ^^ n) d" "g_pipe us d" using assms unfolding g_backs_def by blast
  then show ?thesis unfolding g_backs_def
    by (intro exI [of _ us] exI [of _ d] exI [of _ "Suc n"]) (simp add: replicate_append_same)
qed

lemma g_backs_line: "g_backs ts c \<Longrightarrow> g_line ts c"
  unfolding g_backs_def by (auto intro: pipe_line)

lemma g_backs_list: "g_backs ts c \<Longrightarrow> g_line us d \<Longrightarrow> g_line (ts @ [59] # us) (LIST c d)"
  unfolding g_backs_def by (auto intro: list)

lemma show_cmd_derives:
  "cmd_ok c \<Longrightarrow> g_line (show_cmd 0 c) c \<and> g_backs (show_cmd 1 c) c \<and> g_pipe (show_cmd 2 c) c \<and> g_exec (show_cmd 3 c) c"
proof (induction c)
  case (EXEC ws)
  let ?as = "map (\<lambda>w. (w, [] :: redir_tok list)) ws"
  have as: "arg_toks ?as = ws" "map fst ?as = ws" "concat (map snd ?as) = []" by (induction ws) auto
  have "g_exec (redir_toks [] @ arg_toks ?as) (add_redirs (EXEC (map fst ?as)) (redirs_of ([] @ concat (map snd ?as))))"
    by (rule args) (use EXEC in auto)
  then have "g_exec ws (EXEC ws)" unfolding as by (simp add: add_redirs_def)
  then show ?case by (simp add: exec_pipe g_backs_pipe g_backs_line)
next
  case (REDIR c f mode fd)
  have "redir_ok (if fd = 0 then [60] else [62], f)" using REDIR.prems by (auto simp: redir_ok_def)
  from g_exec_redir [OF _ this] REDIR have "g_exec (show_cmd 3 (REDIR c f mode fd)) (REDIR c f mode fd)"
    by (auto simp: add_redirs_def redir_of_def)
  then show ?case by (simp add: exec_pipe g_backs_pipe g_backs_line)
next
  case (PIPE l r)
  then have p: "g_pipe (show_cmd 2 (PIPE l r)) (PIPE l r)" by (simp add: pipe parens_def)
  then show ?case using g_block [OF g_backs_line [OF g_backs_pipe [OF p]]] by (simp add: g_backs_pipe g_backs_line parens_def)
next
  case (LIST l r)
  then have p: "g_line (show_cmd 0 (LIST l r)) (LIST l r)" by (simp add: g_backs_list parens_def)
  then show ?case using g_block [OF p] by (simp add: exec_pipe g_backs_pipe parens_def)
next
  case (BACK c)
  then have p: "g_backs (show_cmd 1 (BACK c)) (BACK c)" by (simp add: g_backs_back parens_def)
  then show ?case using g_block [OF g_backs_line [OF p]] by (simp add: exec_pipe g_backs_line parens_def)
qed

lemma redir_tokens: "\<forall>r\<in>set rs. redir_ok r \<Longrightarrow> \<forall>t\<in>set (redir_toks rs). is_word t \<or> is_op t"
  by (induction rs) (auto simp: redir_ok_def is_op_def)

lemma arg_tokens:
  "\<forall>(w, rs)\<in>set as. is_word w \<and> (\<forall>r\<in>set rs. redir_ok r) \<Longrightarrow> \<forall>t\<in>set (arg_toks as). is_word t \<or> is_op t"
proof (induction as)
  case (Cons a as)
  obtain w rs where "a = (w, rs)" by (cases a)
  then show ?case using Cons redir_tokens [of rs] by auto
qed simp

lemma derived_tokens:
  "g_line ts c \<Longrightarrow> \<forall>t\<in>set ts. is_word t \<or> is_op t"
  "g_pipe ts c \<Longrightarrow> \<forall>t\<in>set ts. is_word t \<or> is_op t"
  "g_exec ts c \<Longrightarrow> \<forall>t\<in>set ts. is_word t \<or> is_op t"
proof (induction rule: g_line_g_pipe_g_exec.inducts)
  case (args as rs)
  then show ?case using redir_tokens arg_tokens by (simp add: ball_Un)
next
  case (block ts c rs)
  then show ?case using redir_tokens by (simp add: ball_Un is_op_def)
qed (simp_all add: is_op_def ball_Un)

lemma untokens_zero: "\<forall>t\<in>set ts. is_word t \<or> is_op t \<Longrightarrow> 0 \<notin> set (untokens ts)"
  using token_head(4) by (induction ts) auto

lemma parsecmd_line:
  assumes "g_line ts c"
  shows "\<exists>r. parsecmd (untokens ts) = Inr r \<and> cmd_strings r = c"
proof -
  let ?buf = "untokens ts"
  note t = derived_tokens(1) [OF assms]
  note z = untokens_zero [OF t]
  have "rest ?buf 0 (ts @ [])" using t by (simp add: rest_def)
  from parsesD [OF parser_complete(1) [OF assms] this, of "parse_fuel ?buf"] obtain c' s' where
    p: "parseline (parse_fuel ?buf) ?buf 0 = Inr (c', s')" "rest ?buf s' []" "map_cmd (word_text ?buf) c' = c"
    by (auto simp: parse_fuel_def)
  then have e: "parsecmd ?buf = Inr (c', nulterminate c' ?buf)"
    using peek_rest [OF p(2)] by (simp add: parsecmd_def rest_Nil)
  then have "\<forall>w\<in>set_cmd c'. good_word ?buf w" using parsecmd_outcome [OF z] by auto
  then have "map_cmd (cstring_at (nulterminate c' ?buf)) c' = c"
    using nulterminate_string [OF z] p(3) by (metis (no_types, lifting) cmd.map_cong0)
  then show ?thesis using e by (simp add: cmd_strings_def)
qed

text \<open>
  C15. Parsing undoes printing: for every command with at most nine arguments per program, with words of word characters, and
  with the two kinds of redirection, the parser returns from its printed line exactly this command, where the words are the C
  strings in the line buffer after nulterminate.
\<close>

theorem sh_parse_print:
  assumes "cmd_ok c"
  shows "\<exists>r. parsecmd (untokens (show_cmd 0 c)) = Inr r \<and> cmd_strings r = c"
  using parsecmd_line show_cmd_derives [OF assms] by blast

theorem sh_parse_print_witness:
  "\<exists>r. parsecmd (untokens (show_cmd 0 (LIST (BACK (PIPE (REDIR (EXEC [chars ''cat'']) (chars ''a'') 0 0) (BACK (EXEC [chars ''wc'', chars ''-l'']))))
        (REDIR (LIST (EXEC []) (EXEC [chars ''ls''])) (chars ''b'') 0x201 1)))) = Inr r \<and>
      cmd_strings r = LIST (BACK (PIPE (REDIR (EXEC [chars ''cat'']) (chars ''a'') 0 0) (BACK (EXEC [chars ''wc'', chars ''-l'']))))
        (REDIR (LIST (EXEC []) (EXEC [chars ''ls''])) (chars ''b'') 0x201 1)"
  by (rule sh_parse_print) (simp add: MAXARGS_def is_word_def chars_def in_word_def whitespace_def symbols_def)

end
