(* ===== verification/Vm_Inv.thy ===== *)
theory Vm_Inv
  imports Vm
begin

section \<open>Well-formed page tables\<close>

text \<open>
  The entries of a page table as a function of the virtual address, and the invariant that keeps
  updates of one entry apart from all others: the tables of a directory are distinct pages, none
  of them is the directory or free. Under it \<^verbatim>\<open>mappages\<close> changes one entry, and \<^verbatim>\<open>allocuvm\<close>
  gives a process fresh zeroed pages.
\<close>

subsection \<open>Words in a page\<close>

definition slot :: "uint \<Rightarrow> uint \<Rightarrow> uint" where
  "slot v i = v + 4 * i"

lemma slot_unat:
  assumes "aligned v" "i < 1024"
  shows "unat (slot v i) = unat v + 4 * unat i" "unat v + 4 * unat i + 3 < 2 ^ 32"
proof -
  have i: "unat i < 1024" using assms(2) by (simp add: word_less_nat_alt)
  have v: "unat v \<le> 2 ^ 32 - 4096" using aligned_bound [OF assms(1)] .
  have "slot v i = v + of_nat (4 * unat i)" by (simp add: slot_def)
  moreover have "unat (v + of_nat (4 * unat i)) = unat v + 4 * unat i"
    using i v by (intro unat_plus_nat) simp
  ultimately show "unat (slot v i) = unat v + 4 * unat i" by simp
  show "unat v + 4 * unat i + 3 < 2 ^ 32" using i v by simp
qed

lemma slot_offset:
  assumes "aligned v" "i < 1024" "k < 4"
  shows "unat (slot v i + of_nat k) = unat v + 4 * unat i + k"
  using slot_unat [OF assms(1,2)] assms(3) by (simp add: unat_plus_nat)

lemma slot_page:
  assumes "aligned v" "i < 1024" "k < 4"
  shows "page_of (slot v i + of_nat k) = page_of v"
proof -
  have "4 * unat i + k < 4096" using assms(2,3) by (simp add: word_less_nat_alt)
  with assms show ?thesis
    by (auto simp: page_of_def slot_offset aligned_def mod_eq_0_iff_dvd elim!: dvdE)
qed

lemma slot_apart:
  assumes "aligned v" "aligned w" "i < 1024" "j < 1024" "v \<noteq> w \<or> i \<noteq> j" "k < 4" "l < 4"
  shows "slot v i + of_nat k \<noteq> slot w j + of_nat l"
proof
  assume eq: "slot v i + of_nat k = slot w j + of_nat l"
  have "page_of v = page_of w"
    using slot_page [OF assms(1,3,6)] slot_page [OF assms(2,4,7)] eq by simp
  then have vw: "v = w" using aligned_page_inj assms(1,2) by blast
  have "4 * unat i + k = 4 * unat j + l"
    using arg_cong [OF eq, of unat] slot_offset [OF assms(1,3,6)] slot_offset [OF assms(2,4,7)] vw by simp
  then have "unat i = unat j" using assms(6,7) by linarith
  with vw assms(5) show False by (simp add: word_unat_eq_iff)
qed

lemma store32_cases: "store32 a w m x = m x \<or> (\<exists>k<4. x = a + of_nat k)"
proof (cases "x = a \<or> x = a + 1 \<or> x = a + 2 \<or> x = a + 3")
  case True
  then have "x = a + of_nat 0 \<or> x = a + of_nat 1 \<or> x = a + of_nat 2 \<or> x = a + of_nat 3" by simp
  moreover have "(0 :: nat) < 4" "(1 :: nat) < 4" "(2 :: nat) < 4" "(3 :: nat) < 4" by simp_all
  ultimately show ?thesis by blast
qed (simp add: store32_def)

lemma load32_slot_cong:
  assumes "\<And>k. k < 4 \<Longrightarrow> m' (a + of_nat k) = m (a + of_nat k)"
  shows "load32 m' a = load32 m a"
  using assms [of 0] assms [of 1] assms [of 2] assms [of 3] by (intro load32_cong) simp_all

lemma load32_store32_slot:
  assumes "aligned v" "aligned w" "i < 1024" "j < 1024" "v \<noteq> w \<or> i \<noteq> j"
  shows "load32 (store32 (slot v i) x m) (slot w j) = load32 m (slot w j)"
proof (rule load32_slot_cong)
  fix k :: nat assume "k < 4"
  have "slot w j + of_nat k \<noteq> slot v i + of_nat l" if "l < 4" for l
    using slot_apart [OF assms(2,1,4,3) _ \<open>k < 4\<close> that] assms(5) by auto
  with store32_cases [of "slot v i" x m "slot w j + of_nat k"]
  show "store32 (slot v i) x m (slot w j + of_nat k) = m (slot w j + of_nat k)" by blast
qed

lemma store32_slot_page: "aligned v \<Longrightarrow> i < 1024 \<Longrightarrow> same_outside v m (store32 (slot v i) x m)"
  using store32_cases [of "slot v i" x m] slot_page [of v i] by (fastforce simp: same_outside_def)

lemma load32_slot_outside:
  assumes "same_outside v m m'" "aligned v" "aligned w" "j < 1024" "w \<noteq> v"
  shows "load32 m' (slot w j) = load32 m (slot w j)"
proof (rule load32_slot_cong)
  fix k :: nat assume "k < 4"
  have "page_of w \<noteq> page_of v" using aligned_page_inj assms by blast
  with slot_page [OF assms(3,4) \<open>k < 4\<close>] assms(1)
  show "m' (slot w j + of_nat k) = m (slot w j + of_nat k)" by (simp add: same_outside_def)
qed

lemma load32_zero:
  assumes "aligned v" "j < 1024" "\<And>x. page_of x = page_of v \<Longrightarrow> m x = 0"
  shows "load32 m (slot v j) = 0"
  using slot_page [OF assms(1,2), of 0] slot_page [OF assms(1,2), of 1] slot_page [OF assms(1,2), of 2]
    slot_page [OF assms(1,2), of 3] assms(3) by (simp add: load32_def)

subsection \<open>Directory and table indices\<close>

lemma and_3FF: "w AND 0x3FF = take_bit 10 (w :: uint)"
  by (simp add: take_bit_eq_mask mask_eq_exp_minus_1)

lemma index_less [simp]: "PDX va < 1024" "PTX va < 1024"
proof -
  have "take_bit 10 w < 1024" for w :: uint
    using take_bit_nat_less_exp [of 10 "unat w"] by (simp add: word_less_nat_alt unsigned_take_bit_eq)
  then show "PDX va < 1024" "PTX va < 1024" by (simp_all add: PDX_def PTX_def and_3FF)
qed

lemma unat_drop12: "unat (drop_bit 12 w) = page_of (w :: uint)"
  by (simp add: page_of_def drop_bit_eq_div unat_div)

lemma index_page:
  assumes "PDX va = PDX vb" "PTX va = PTX vb"
  shows "page_of va = page_of vb"
proof -
  have b: "bit (take_bit 10 (drop_bit k va)) n = bit (take_bit 10 (drop_bit k vb)) n" if "k = 12 \<or> k = 22" for k n
    using assms that by (auto simp: PDX_def PTX_def and_3FF)
  have "drop_bit 12 va = drop_bit 12 vb"
  proof (rule bit_word_eqI)
    fix n assume "n < LENGTH(32)"
    show "bit (drop_bit 12 va) n = bit (drop_bit 12 vb) n"
    proof (cases "n < 10")
      case True
      with b [of 12 n] show ?thesis by (simp add: bit_take_bit_iff)
    next
      case False
      show ?thesis
      proof (cases "n < 20")
        case True
        with False have "n - 10 < 10" by simp
        with False b [of 22 "n - 10"] show ?thesis
          by (simp add: bit_take_bit_iff bit_drop_bit_eq)
      next
        case False
        then have "\<not> bit w (12 + n)" for w :: uint by (simp add: bit_word.rep_eq)
        then show ?thesis by (simp add: bit_drop_bit_eq)
      qed
    qed
  qed
  then show ?thesis using unat_drop12 by metis
qed

lemma page_index: "page_of va = page_of vb \<Longrightarrow> PDX va = PDX vb \<and> PTX va = PTX vb"
proof -
  assume eq: "page_of va = page_of vb"
  have "drop_bit 12 va = drop_bit 12 vb" using eq unat_drop12 by (metis word_unat_eq_iff)
  moreover have "drop_bit 22 w = drop_bit 10 (drop_bit 12 w)" for w :: uint by simp
  ultimately have "drop_bit 12 va = drop_bit 12 vb" "drop_bit 22 va = drop_bit 22 vb" by metis+
  then show ?thesis by (simp only: PDX_def PTX_def)
qed

subsection \<open>Entries\<close>

lemma aligned_take_bit: "aligned v \<longleftrightarrow> take_bit 12 v = 0"
  by (simp add: take_bit_eq_mod aligned_mod [symmetric] PGSIZE_def)

lemma aligned_shift:
  assumes "aligned d"
  shows "aligned (v + d) = aligned v"
proof -
  have "unat (v + d) mod 4096 = (unat v + unat d) mod 2 ^ 32 mod 4096" by (simp add: unat_word_ariths)
  also have "\<dots> = (unat v + unat d) mod 4096" by (rule mod_mod_cancel) simp
  also have "\<dots> = unat v mod 4096" using assms by (simp add: aligned_def mod_add_eq [symmetric] del: mod_add_eq)
  finally show ?thesis by (simp add: aligned_def)
qed

lemma aligned_v2p: "aligned v \<Longrightarrow> aligned (v2p v)"
proof -
  assume v: "aligned v"
  have "v2p v = v + KERNBASE" by (simp add: v2p_def KERNBASE_def)
  moreover have "aligned KERNBASE" by (simp add: aligned_def KERNBASE_def)
  ultimately show ?thesis using v by (simp add: aligned_shift)
qed

lemma entry_addr:
  assumes "aligned v" "f < 4096"
  shows "PTE_ADDR (v2p v OR f) = v2p v" "PTE_FLAGS (v2p v OR f) = f"
proof -
  have w: "take_bit 12 (v2p v) = 0" using aligned_v2p [OF assms(1)] by (simp add: aligned_take_bit)
  have f: "take_bit 12 f = f"
    using assms(2) by (simp add: take_bit_eq_mod word_less_nat_alt word_unat_eq_iff unat_mod)
  have m: "(0xFFF :: uint) = mask 12" by (simp add: mask_eq_exp_minus_1)
  have bw: "bit (v2p v) n \<Longrightarrow> 12 \<le> n" for n using w bit_take_bit_iff [of 12 "v2p v" n] by (simp add: not_less)
  have bf: "bit f n \<Longrightarrow> \<not> 12 \<le> n" for n using f bit_take_bit_iff [of 12 f n] by simp
  show "PTE_ADDR (v2p v OR f) = v2p v"
    unfolding PTE_ADDR_def m by (rule bit_word_eqI) (auto simp: bit_simps dest: bw bf)
  show "PTE_FLAGS (v2p v OR f) = f"
    unfolding PTE_FLAGS_def m by (rule bit_word_eqI) (auto simp: bit_simps dest: bw bf)
qed

lemma p2v_v2p [simp]: "p2v (v2p a) = a" "v2p (p2v a) = a"
  by (simp_all add: p2v_def v2p_def)

text \<open>A directory entry, the table it points to, and the entry of a virtual address (0 where there is no table).\<close>

definition pde_at :: "memory \<Rightarrow> uint \<Rightarrow> uint \<Rightarrow> uint" where
  "pde_at m d i = load32 m (slot d i)"

definition present :: "uint \<Rightarrow> bool" where
  "present e \<longleftrightarrow> e AND PTE_P \<noteq> 0"

definition table_at :: "memory \<Rightarrow> uint \<Rightarrow> uint \<Rightarrow> uint" where
  "table_at m d i = p2v (PTE_ADDR (pde_at m d i))"

definition entry :: "memory \<Rightarrow> uint \<Rightarrow> uint \<Rightarrow> uint" where
  "entry m d va = (if present (pde_at m d (PDX va)) then load32 m (slot (table_at m d (PDX va)) (PTX va)) else 0)"

text \<open>The pages the directory \<open>d\<close> is made of.\<close>

definition table_pages :: "memory \<Rightarrow> uint \<Rightarrow> uint set" where
  "table_pages m d = insert d {table_at m d i | i. i < 1024 \<and> present (pde_at m d i)}"

definition vm_wf :: "uint \<Rightarrow> memory \<Rightarrow> uint \<Rightarrow> bool" where
  "vm_wf e m d \<longleftrightarrow> (\<forall>v\<in>table_pages m d. valid_page e v) \<and>
     (\<forall>i j. i < 1024 \<longrightarrow> j < 1024 \<longrightarrow> present (pde_at m d i) \<longrightarrow> present (pde_at m d j) \<longrightarrow>
       table_at m d i = table_at m d j \<longrightarrow> i = j) \<and>
     (\<forall>i. i < 1024 \<longrightarrow> present (pde_at m d i) \<longrightarrow> table_at m d i \<noteq> d)"

definition vm_state :: "kernel \<Rightarrow> uint \<Rightarrow> uint list \<Rightarrow> bool" where
  "vm_state s d xs \<longleftrightarrow> free_rep s xs \<and> kmem_ok s \<and> vm_wf (kend s) (mem s) d \<and>
     table_pages (mem s) d \<inter> set xs = {}"

lemma vm_wfD:
  assumes "vm_wf e m d"
  shows "valid_page e d" "aligned d" "i < 1024 \<Longrightarrow> present (pde_at m d i) \<Longrightarrow> valid_page e (table_at m d i)"
    "i < 1024 \<Longrightarrow> present (pde_at m d i) \<Longrightarrow> aligned (table_at m d i)"
    "i < 1024 \<Longrightarrow> present (pde_at m d i) \<Longrightarrow> table_at m d i \<noteq> d"
  using assms by (auto simp: vm_wf_def table_pages_def valid_page_def)

lemma present_entry [simp]: "present (v OR PTE_P OR PTE_W OR PTE_U)" "present (v OR f OR PTE_P)" "\<not> present 0"
proof -
  have p: "present w \<longleftrightarrow> bit w 0" for w
  proof -
    have "w AND 1 \<noteq> 0 \<longleftrightarrow> bit w 0" by (simp add: and_one_eq odd_iff_mod_2_eq_one bit_0)
    then show ?thesis by (simp add: present_def PTE_P_def)
  qed
  show "present (v OR PTE_P OR PTE_W OR PTE_U)" "present (v OR f OR PTE_P)" "\<not> present 0"
    by (simp_all add: p PTE_P_def bit_or_iff)
qed

subsection \<open>A new table\<close>

definition new_table :: "uint \<Rightarrow> uint \<Rightarrow> uint \<Rightarrow> memory \<Rightarrow> memory" where
  "new_table d i x m =
     store32 (slot d i) (v2p x OR PTE_P OR PTE_W OR PTE_U) (memset x 0 PGSIZE m)"

lemma memset_zero_page:
  assumes "aligned x" "page_of a = page_of x"
  shows "memset x 0 PGSIZE m a = 0"
proof -
  define q where "q = page_of x"
  have x: "unat x = 4096 * q" using assms(1) by (auto simp: aligned_def page_of_def q_def)
  have "unat a div 4096 = q" using assms(2) by (simp add: page_of_def q_def)
  then have a: "4096 * q \<le> unat a" "unat a < 4096 * q + 4096" by (auto simp: div_nat_eqI)
  then have "unat (a - x) = unat a - unat x" using x by (intro unat_sub) (simp add: word_le_nat_alt)
  then have "a - x < PGSIZE" using a x by (simp add: PGSIZE_def word_less_nat_alt)
  then show ?thesis by (simp add: memset_at)
qed

lemma new_table_load:
  assumes "aligned d" "aligned x" "d \<noteq> x" "i < 1024" "j < 1024" "aligned v"
  shows "load32 (new_table d i x m) (slot v j) =
    (if v = d \<and> j = i then v2p x OR PTE_P OR PTE_W OR PTE_U
     else if v = x then 0 else load32 m (slot v j))"
proof (cases "v = d \<and> j = i")
  case True
  then show ?thesis by (simp add: new_table_def load32_store32)
next
  case False
  then have st: "load32 (new_table d i x m) (slot v j) = load32 (memset x 0 PGSIZE m) (slot v j)"
    unfolding new_table_def using assms by (intro load32_store32_slot) auto
  show ?thesis
  proof (cases "v = x")
    case True
    have "load32 (memset x 0 PGSIZE m) (slot x j) = 0"
      using assms(2,5) by (rule load32_zero) (rule memset_zero_page [OF assms(2)])
    with st True False assms(3) show ?thesis by simp
  next
    case ne: False
    have "load32 (memset x 0 PGSIZE m) (slot v j) = load32 m (slot v j)"
      using memset_page [OF assms(2)] assms(2,6,5) ne by (rule load32_slot_outside)
    with st False ne show ?thesis by auto
  qed
qed

lemma new_table_wf:
  assumes wf: "vm_wf e m d" and x: "valid_page e x" "x \<notin> table_pages m d"
    and i: "i < 1024" "\<not> present (pde_at m d i)"
  defines "m' \<equiv> new_table d i x m"
  shows "vm_wf e m' d" "table_pages m' d = insert x (table_pages m d)" "entry m' d = entry m d"
    "pde_at m' d i = v2p x OR PTE_P OR PTE_W OR PTE_U" "table_at m' d i = x"
proof -
  have al: "aligned d" "aligned x" "d \<noteq> x"
    using vm_wfD(2) [OF wf] x by (auto simp: valid_page_def table_pages_def)
  note ld = new_table_load [OF al i(1), of _ _ m, folded m'_def]
  have pde: "pde_at m' d j = (if j = i then v2p x OR PTE_P OR PTE_W OR PTE_U else pde_at m d j)"
    if "j < 1024" for j
    using ld [OF that al(1)] al(3) by (simp add: pde_at_def)
  have fl: "PTE_P OR PTE_W OR PTE_U = 7" by (simp add: PTE_P_def PTE_W_def PTE_U_def)
  have tab: "table_at m' d j = (if j = i then x else table_at m d j)" if "j < 1024" for j
    using that al(2) by (simp add: table_at_def pde fl entry_addr)
  show "pde_at m' d i = v2p x OR PTE_P OR PTE_W OR PTE_U" "table_at m' d i = x"
    using i(1) pde tab by simp_all
  have pres: "present (pde_at m' d j) \<longleftrightarrow> j = i \<or> present (pde_at m d j)" if "j < 1024" for j
    using that by (simp add: pde)
  show tp: "table_pages m' d = insert x (table_pages m d)"
  proof -
    have "{table_at m' d j | j. j < 1024 \<and> present (pde_at m' d j)} =
        insert x {table_at m d j | j. j < 1024 \<and> present (pde_at m d j)}"
      using i pres tab by (auto; metis)
    then show ?thesis by (auto simp: table_pages_def)
  qed
  have nx: "table_at m d j \<noteq> x" if "j < 1024" "present (pde_at m d j)" for j
    using x(2) that by (auto simp: table_pages_def)
  show "vm_wf e m' d"
    unfolding vm_wf_def
  proof (intro conjI allI impI)
    show "\<forall>v\<in>table_pages m' d. valid_page e v" using wf x(1) by (simp add: tp vm_wf_def)
    show "j = k" if "j < 1024" "k < 1024" "present (pde_at m' d j)" "present (pde_at m' d k)"
      "table_at m' d j = table_at m' d k" for j k
      using that wf nx [of j] nx [of k] by (auto simp: pres tab vm_wf_def split: if_splits)
    show "table_at m' d j \<noteq> d" if "j < 1024" "present (pde_at m' d j)" for j
      using that wf al(3) by (auto simp: pres tab vm_wf_def)
  qed
  show "entry m' d = entry m d"
  proof
    fix va
    let ?j = "PDX va"
    show "entry m' d va = entry m d va"
    proof (cases "?j = i")
      case True
      then show ?thesis using i ld [of "PTX va" x] al by (simp add: entry_def pde tab)
    next
      case False
      have "load32 m' (slot (table_at m d ?j) (PTX va)) = load32 m (slot (table_at m d ?j) (PTX va))"
        if "present (pde_at m d ?j)"
        using ld [of "PTX va" "table_at m d ?j"] vm_wfD(4,5) [OF wf _ that] nx [OF _ that] by simp
      with False show ?thesis by (simp add: entry_def pde tab)
    qed
  qed
qed

subsection \<open>Walking and mapping\<close>

text \<open>Memory that is the same outside some pages.\<close>

definition same_off :: "uint set \<Rightarrow> memory \<Rightarrow> memory \<Rightarrow> bool" where
  "same_off V m m' \<longleftrightarrow> (\<forall>x. page_of x \<notin> page_of ` V \<longrightarrow> m' x = m x)"

lemma same_off_refl [simp]: "same_off V m m"
  by (simp add: same_off_def)

lemma same_off_trans: "same_off V m m' \<Longrightarrow> same_off V m' m'' \<Longrightarrow> same_off V m m''"
  by (simp add: same_off_def)

lemma same_off_mono: "same_off V m m' \<Longrightarrow> V \<subseteq> W \<Longrightarrow> same_off W m m'"
  by (auto simp: same_off_def)

lemma same_outside_off: "same_outside v m m' \<Longrightarrow> v \<in> V \<Longrightarrow> same_off V m m'"
  by (auto simp: same_off_def same_outside_def)

lemma free_rep_off:
  assumes "free_rep s xs" "same_off V (mem s) m" "V \<inter> set xs = {}" "\<forall>v\<in>V. aligned v"
    and "mem t = m" "freelist t = freelist s" "kend t = kend s"
  shows "free_rep t xs"
proof -
  have ld: "load32 m v = load32 (mem s) v" if "v \<in> set xs" for v
  proof -
    have v: "aligned v" using assms(1) that by (simp add: free_rep_def valid_page_def)
    have "page_of v \<notin> page_of ` V" using aligned_page_inj [OF v] assms(3,4) that by blast
    moreover have "page_of (v + of_nat k) = page_of v" if "k < 4" for k
      using page_of_word [OF v, of k] that by simp
    ultimately show ?thesis using assms(2) by (intro load32_slot_cong) (simp add: same_off_def)
  qed
  have "flist m h ys = flist (mem s) h ys" if "set ys \<subseteq> set xs" for h ys
    using that by (induction ys arbitrary: h) (auto simp: ld)
  then show ?thesis using assms(1,5-7) by (simp add: free_rep_def)
qed

lemma kmem_frame_mem: "kmem_frame s t \<Longrightarrow> kmem_frame s (t\<lparr>mem := m\<rparr>)"
  by (simp add: kmem_frame_def lock_frame_def cpu_of_def)

lemma kmem_ok_mem [simp]: "kmem_ok (s\<lparr>mem := m\<rparr>) = kmem_ok s"
  by (simp add: kmem_ok_def lock_free_def cli_ok_def cpu_of_def)

text \<open>Where a present table of \<open>va\<close> keeps the entry.\<close>

definition entry_slot :: "memory \<Rightarrow> uint \<Rightarrow> uint \<Rightarrow> uint" where
  "entry_slot m d va = slot (table_at m d (PDX va)) (PTX va)"

lemma walkpgdir_present:
  "present (pde_at (mem s) d (PDX va)) \<Longrightarrow> walkpgdir d va alloc s = Inr (entry_slot (mem s) d va, s)"
  by (simp add: walkpgdir_def pde_at_def present_def slot_def entry_slot_def table_at_def Let_def)

lemma walkpgdir_absent:
  "\<not> present (pde_at (mem s) d (PDX va)) \<Longrightarrow> walkpgdir d va False s = Inr (0, s)"
  by (simp add: walkpgdir_def pde_at_def present_def slot_def)

lemma slot_nonzero: "valid_page e v \<Longrightarrow> j < 1024 \<Longrightarrow> slot v j \<noteq> 0"
proof -
  assume v: "valid_page e v" and j: "j < 1024"
  then have "unat (slot v j) = unat v + 4 * unat j" by (intro slot_unat) (simp_all add: valid_page_def)
  moreover have "unat v \<noteq> 0" using v by (simp add: valid_page_def unat_eq_0)
  ultimately show "slot v j \<noteq> 0" by (metis add_is_0 unat_0)
qed

text \<open>A table is created from the first free page, if there is one.\<close>

lemma walkpgdir_alloc:
  assumes st: "vm_state s d xs" and absent: "\<not> present (pde_at (mem s) d (PDX va))"
  shows "case xs of
      [] \<Rightarrow> \<exists>t. walkpgdir d va True s = Inr (0, t) \<and> mem t = mem s \<and> kmem_frame s t \<and> vm_state t d []
    | x # ys \<Rightarrow> \<exists>t. walkpgdir d va True s = Inr (entry_slot (mem t) d va, t) \<and> kmem_frame s t \<and>
        present (pde_at (mem t) d (PDX va)) \<and> entry (mem t) d = entry (mem s) d \<and> vm_state t d ys \<and>
        table_pages (mem t) d = insert x (table_pages (mem s) d) \<and> same_off {x, d} (mem s) (mem t)"
proof -
  have fr: "free_rep s xs" "kmem_ok s" "vm_wf (kend s) (mem s) d" "table_pages (mem s) d \<inter> set xs = {}"
    using st by (simp_all add: vm_state_def)
  from kalloc_rep [OF fr(1,2)] obtain u where u: "kalloc s = Inr (case xs of [] \<Rightarrow> 0 | x # _ \<Rightarrow> x, u)"
    "free_rep u (tl xs)" "kmem_frame s u" "mem u = mem s" by blast
  note eqs = kmem_frame_eq [OF u(3)]
  have pde: "load32 (mem s) (d + 4 * PDX va) AND PTE_P = 0"
    using absent by (simp add: pde_at_def present_def slot_def)
  show ?thesis
  proof (cases xs)
    case Nil
    have "walkpgdir d va True s = Inr (0, u)" using Nil u(1) pde by (simp add: walkpgdir_def Let_def)
    with Nil u eqs fr show ?thesis by (simp add: vm_state_def)
  next
    case (Cons x ys)
    have x: "valid_page (kend s) x" "x \<notin> table_pages (mem s) d"
      using fr(1,4) Cons by (auto simp: free_rep_def)
    note nt = new_table_wf [OF fr(3) x index_less(1) absent]
    let ?m = "new_table d (PDX va) x (mem s)"
    let ?t = "u\<lparr>mem := ?m\<rparr>"
    have x0: "x \<noteq> 0" using x(1) by (simp add: valid_page_def)
    have "walkpgdir d va True s = Inr (slot x (PTX va), ?t)"
      using Cons u(1,4) pde x0 by (simp add: walkpgdir_def Let_def new_table_def slot_def)
    then have w: "walkpgdir d va True s = Inr (entry_slot (mem ?t) d va, ?t)"
      using nt(5) by (simp add: entry_slot_def)
    have al: "aligned x" "aligned d" using x(1) vm_wfD(2) [OF fr(3)] by (simp_all add: valid_page_def)
    have off: "same_off {x, d} (mem s) ?m"
      unfolding new_table_def
      using same_off_trans [OF same_outside_off [OF memset_page [OF al(1)], where V = "{x, d}"]
          same_outside_off [OF store32_slot_page [OF al(2) index_less(1)], where V = "{x, d}"]] by blast
    have "d \<in> table_pages (mem s) d" by (simp add: table_pages_def)
    then have dis: "{x, d} \<inter> set ys = {}" using fr(1,4) Cons by (auto simp: free_rep_def)
    have "free_rep ?t ys"
      by (rule free_rep_off [of u ys "{x, d}" ?m]) (use u(2,4) Cons off dis al eqs in auto)
    then have "vm_state ?t d ys"
      using nt(1,2) fr Cons eqs by (auto simp: vm_state_def free_rep_def)
    moreover have "present (pde_at (mem ?t) d (PDX va))" using nt(4) by simp
    ultimately show ?thesis using Cons w nt off kmem_frame_mem [OF u(3)] by fastforce
  qed
qed

text \<open>Storing into the slot of \<open>va\<close> changes the entry of that page alone.\<close>

lemma set_entry:
  fixes w :: uint
  assumes wf: "vm_wf e m d" and p: "present (pde_at m d (PDX va))"
  defines "m' \<equiv> store32 (entry_slot m d va) w m"
  shows "vm_wf e m' d" "table_pages m' d = table_pages m d"
    "entry m' d = (\<lambda>vb. if page_of vb = page_of va then w else entry m d vb)"
    "same_outside (table_at m d (PDX va)) m m'" "\<And>j. j < 1024 \<Longrightarrow> pde_at m' d j = pde_at m d j"
proof -
  let ?T = "table_at m d (PDX va)"
  have al: "aligned d" "aligned ?T" "?T \<noteq> d" using vm_wfD [OF wf] p by simp_all
  have pde: "pde_at m' d j = pde_at m d j" if "j < 1024" for j
    unfolding m'_def pde_at_def entry_slot_def using al that by (intro load32_store32_slot) simp_all
  then show "\<And>j. j < 1024 \<Longrightarrow> pde_at m' d j = pde_at m d j" .
  have tab: "table_at m' d j = table_at m d j" if "j < 1024" for j
    using pde [OF that] by (simp add: table_at_def)
  show tp: "table_pages m' d = table_pages m d"
    using pde tab by (auto simp: table_pages_def) metis+
  show "vm_wf e m' d" using wf pde tab tp by (simp add: vm_wf_def)
  show "same_outside ?T m m'"
    unfolding m'_def entry_slot_def using al(2) by (intro store32_slot_page) simp_all
  show "entry m' d = (\<lambda>vb. if page_of vb = page_of va then w else entry m d vb)"
  proof
    fix vb
    show "entry m' d vb = (if page_of vb = page_of va then w else entry m d vb)"
    proof (cases "page_of vb = page_of va")
      case True
      with page_index [of vb va] p pde tab show ?thesis
        by (simp add: entry_def m'_def entry_slot_def load32_store32)
    next
      case False
      then have ne: "PDX vb \<noteq> PDX va \<or> PTX vb \<noteq> PTX va" using index_page by blast
      have "load32 m' (slot (table_at m d (PDX vb)) (PTX vb)) = load32 m (slot (table_at m d (PDX vb)) (PTX vb))"
        if q: "present (pde_at m d (PDX vb))"
      proof -
        have "table_at m d (PDX vb) \<noteq> ?T \<or> PTX vb \<noteq> PTX va"
        proof (rule ccontr)
          assume "\<not> ?thesis"
          then have "table_at m d (PDX vb) = ?T" "PTX vb = PTX va" by simp_all
          moreover have "PDX vb = PDX va" using calculation(1) wf p q by (simp add: vm_wf_def)
          ultimately show False using ne by simp
        qed
        then show ?thesis
          unfolding m'_def entry_slot_def using vm_wfD(4) [OF wf _ q] al(2)
          by (intro load32_store32_slot) auto
      qed
      with False pde tab show ?thesis by (simp add: entry_def)
    qed
  qed
qed

lemma PGROUNDDOWN_unat: "unat (PGROUNDDOWN v) = unat v div 4096 * 4096"
proof -
  have m: "(PGSIZE - 1 :: uint) = mask 12" by (simp add: PGSIZE_def mask_eq_exp_minus_1)
  have "PGROUNDDOWN v = push_bit 12 (drop_bit 12 v)"
    unfolding PGROUNDDOWN_def m by (rule bit_word_eqI) (auto simp: bit_simps)
  then have "unat (PGROUNDDOWN v) = unat (push_bit 12 (drop_bit 12 v))" by simp
  also have "\<dots> = (unat v div 4096) * 4096 mod 2 ^ 32"
    by (simp add: push_bit_eq_mult unat_word_ariths unat_drop_bit_eq drop_bit_eq_div mod_mult_left_eq)
  also have "\<dots> = (unat v div 4096) * 4096"
    using unat_less32 [of v] by (intro mod_less) (meson div_times_less_eq_dividend le_less_trans)
  finally show ?thesis .
qed

lemma aligned_round: "aligned (PGROUNDDOWN v)"
  by (simp add: aligned_def PGROUNDDOWN_unat)

lemma page_of_round [simp]: "page_of (PGROUNDDOWN v) = page_of v"
  by (simp add: page_of_def PGROUNDDOWN_unat)

lemma round_down:
  assumes "aligned a" "page_of v = page_of a"
  shows "PGROUNDDOWN v = a"
  using aligned_page_inj [OF aligned_round assms(1)] assms(2) by simp

subsection \<open>One page mapped\<close>

text \<open>
  The effect of mapping one page: the entry of its address alone changes, and memory outside the
  directory's pages is as before.
\<close>

lemma mappages_page:
  assumes st: "vm_state s d xs" and va: "aligned va" and free: "\<not> present (entry (mem s) d va)"
    and room: "present (pde_at (mem s) d (PDX va)) \<or> xs \<noteq> []"
  shows "\<exists>t ys. mappages d va PGSIZE pa perm s = Inr (0, t) \<and> kmem_frame s t \<and> vm_state t d ys \<and>
     (ys = xs \<or> xs = hd xs # ys) \<and>
     entry (mem t) d = (\<lambda>vb. if page_of vb = page_of va then pa OR perm OR PTE_P else entry (mem s) d vb) \<and>
     table_pages (mem t) d \<subseteq> table_pages (mem s) d \<union> (set xs - set ys) \<and>
     table_pages (mem s) d \<subseteq> table_pages (mem t) d \<and> same_off (table_pages (mem t) d) (mem s) (mem t)"
proof -
  obtain t ys where t: "walkpgdir d va True s = Inr (entry_slot (mem t) d va, t)" "kmem_frame s t"
    "present (pde_at (mem t) d (PDX va))" "entry (mem t) d = entry (mem s) d" "vm_state t d ys"
    "ys = xs \<or> xs = hd xs # ys" "table_pages (mem t) d \<subseteq> table_pages (mem s) d \<union> (set xs - set ys)"
    "table_pages (mem s) d \<subseteq> table_pages (mem t) d" "same_off (table_pages (mem t) d) (mem s) (mem t)"
  proof (cases "present (pde_at (mem s) d (PDX va))")
    case True
    with walkpgdir_present [OF True, of True] st show ?thesis by (intro that [of s xs]) simp_all
  next
    case False
    with room obtain x ys where xs: "xs = x # ys" by (cases xs) auto
    with walkpgdir_alloc [OF st False] obtain t where t: "walkpgdir d va True s = Inr (entry_slot (mem t) d va, t)"
      "kmem_frame s t" "present (pde_at (mem t) d (PDX va))" "entry (mem t) d = entry (mem s) d" "vm_state t d ys"
      "table_pages (mem t) d = insert x (table_pages (mem s) d)" "same_off {x, d} (mem s) (mem t)" by auto
    have "x \<notin> set ys" using st xs by (simp add: vm_state_def free_rep_def)
    moreover have "same_off (table_pages (mem t) d) (mem s) (mem t)"
      by (rule same_off_mono [OF t(7)]) (simp add: t(6), simp add: table_pages_def)
    ultimately show ?thesis using t xs by (intro that [of t ys]) auto
  qed
  let ?a = "entry_slot (mem t) d va" and ?w = "pa OR perm OR PTE_P"
  have wf: "vm_wf (kend t) (mem t) d" using t(5) by (simp add: vm_state_def)
  note se = set_entry [OF wf t(3), of ?w, unfolded t(4)]
  let ?u = "t\<lparr>mem := store32 ?a ?w (mem t)\<rparr>"
  have T: "table_at (mem t) d (PDX va) \<in> table_pages (mem t) d" using t(3) by (auto simp: table_pages_def)
  have off: "same_off (table_pages (mem t) d) (mem t) (mem ?u)"
    using same_outside_off [OF se(4) T] by simp
  have al: "\<forall>v\<in>table_pages (mem t) d. aligned v" using wf by (simp add: vm_wf_def valid_page_def)
  have dis: "table_pages (mem t) d \<inter> set ys = {}" "free_rep t ys" "kmem_ok t"
    using t(5) by (simp_all add: vm_state_def)
  have "free_rep ?u ys"
    by (rule free_rep_off [OF dis(2) off dis(1) al]) simp_all
  then have vs: "vm_state ?u d ys" using se dis by (simp add: vm_state_def)
  have "?a \<noteq> 0" unfolding entry_slot_def using slot_nonzero vm_wfD(3) [OF wf _ t(3)] by simp
  moreover have "load32 (mem t) ?a AND PTE_P = 0"
  proof -
    have "load32 (mem t) ?a = entry (mem t) d va" using t(3) by (simp add: entry_def entry_slot_def)
    with free t(4) show ?thesis by (simp add: present_def)
  qed
  moreover have "PGROUNDDOWN va = va" "PGROUNDDOWN (va + PGSIZE - 1) = va"
  proof -
    show "PGROUNDDOWN va = va" using va by (simp add: round_down)
    have "PGROUNDDOWN (va + of_nat 4095) = va" by (rule round_down [OF va page_of_word [OF va]]) simp
    then show "PGROUNDDOWN (va + PGSIZE - 1) = va" by (simp add: PGSIZE_def add_diff_eq [symmetric])
  qed
  moreover have "mappages_loop (Suc n) d va va pa perm s = Inr (0, ?u)" for n
    using calculation(1,2) by (simp add: t(1) Let_def)
  from this [of "2 ^ 20 - 1"] have "mappages_loop (2 ^ 20) d va va pa perm s = Inr (0, ?u)" by simp
  ultimately have "mappages d va PGSIZE pa perm s = Inr (0, ?u)"
    unfolding mappages_def by simp
  moreover have "same_off (table_pages (mem t) d) (mem s) (mem ?u)" using same_off_trans [OF t(9) off] .
  ultimately show ?thesis using t kmem_frame_mem [OF t(2)] vs se(2,3) by (intro exI [of _ ?u] exI [of _ ys]) simp
qed

subsection \<open>Growing a process\<close>

lemma load32_slot_off:
  assumes "same_off V m m'" "\<forall>v\<in>V. aligned v" "aligned w" "w \<notin> V" "j < 1024"
  shows "load32 m' (slot w j) = load32 m (slot w j)"
proof (rule load32_slot_cong)
  fix k :: nat assume "k < 4"
  have "page_of w \<notin> page_of ` V" using aligned_page_inj [OF assms(3)] assms(2,4) by blast
  with slot_page [OF assms(3,5) \<open>k < 4\<close>] assms(1)
  show "m' (slot w j + of_nat k) = m (slot w j + of_nat k)" by (simp add: same_off_def)
qed

text \<open>Writing to pages that are not part of the directory leaves every entry alone.\<close>

lemma entries_off:
  assumes wf: "vm_wf e m d" and off: "same_off V m m'" "\<forall>v\<in>V. aligned v" "V \<inter> table_pages m d = {}"
  shows "vm_wf e m' d" "table_pages m' d = table_pages m d" "entry m' d = entry m d"
    "\<And>j. j < 1024 \<Longrightarrow> pde_at m' d j = pde_at m d j"
proof -
  have d: "aligned d" "d \<notin> V" using vm_wfD(2) [OF wf] off(3) by (auto simp: table_pages_def)
  have pde: "pde_at m' d j = pde_at m d j" if "j < 1024" for j
    unfolding pde_at_def using load32_slot_off [OF off(1,2) d that] .
  then show "\<And>j. j < 1024 \<Longrightarrow> pde_at m' d j = pde_at m d j" .
  have tab: "table_at m' d j = table_at m d j" if "j < 1024" for j
    using pde [OF that] by (simp add: table_at_def)
  show tp: "table_pages m' d = table_pages m d"
    using pde tab by (auto simp: table_pages_def) metis+
  show "vm_wf e m' d" using wf pde tab tp by (simp add: vm_wf_def)
  show "entry m' d = entry m d"
  proof
    fix va
    have "load32 m' (slot (table_at m d (PDX va)) (PTX va)) = load32 m (slot (table_at m d (PDX va)) (PTX va))"
      if "present (pde_at m d (PDX va))"
    proof (rule load32_slot_off [OF off(1,2)])
      show "aligned (table_at m d (PDX va))" using vm_wfD(4) [OF wf _ that] by simp
      have "table_at m d (PDX va) \<in> table_pages m d" using that by (auto simp: table_pages_def)
      then show "table_at m d (PDX va) \<notin> V" using off(3) by blast
    qed simp
    then show "entry m' d va = entry m d va" using pde tab by (simp add: entry_def)
  qed
qed

text \<open>A fresh page, cleared and mapped at \<open>a\<close>.\<close>

definition user_entry :: "uint \<Rightarrow> uint" where
  "user_entry v = v2p v OR (PTE_W OR PTE_U) OR PTE_P"

definition zero_page :: "memory \<Rightarrow> uint \<Rightarrow> bool" where
  "zero_page m v \<longleftrightarrow> (\<forall>x. page_of x = page_of v \<longrightarrow> m x = 0)"

lemma zero_page_off:
  assumes "zero_page m v" "same_off V m m'" "v \<notin> V" "aligned v" "\<forall>w\<in>V. aligned w"
  shows "zero_page m' v"
proof -
  have "page_of v \<notin> page_of ` V" using aligned_page_inj [OF assms(4)] assms(3,5) by blast
  then show ?thesis using assms(1,2) by (simp add: zero_page_def same_off_def)
qed

lemma alloc_page:
  assumes st: "vm_state s d (v # w # xs)" and a: "aligned a" "\<not> present (entry (mem s) d a)"
  shows "\<exists>u t ys. kalloc s = Inr (v, u) \<and>
     mappages d a PGSIZE (v2p v) (PTE_W OR PTE_U) (u\<lparr>mem := memset v 0 PGSIZE (mem u)\<rparr>) = Inr (0, t) \<and>
     v \<noteq> 0 \<and> kmem_frame s t \<and> vm_state t d ys \<and> (ys = w # xs \<or> ys = xs) \<and>
     entry (mem t) d = (\<lambda>vb. if page_of vb = page_of a then user_entry v else entry (mem s) d vb) \<and>
     table_pages (mem t) d \<subseteq> table_pages (mem s) d \<union> (set (w # xs) - set ys) \<and>
     table_pages (mem s) d \<subseteq> table_pages (mem t) d \<and>
     same_off (insert v (table_pages (mem t) d)) (mem s) (mem t) \<and> zero_page (mem t) v"
proof -
  have fr: "free_rep s (v # w # xs)" "kmem_ok s" "vm_wf (kend s) (mem s) d"
    "table_pages (mem s) d \<inter> set (v # w # xs) = {}"
    using st by (simp_all add: vm_state_def)
  from kalloc_rep [OF fr(1,2)] obtain u where u: "kalloc s = Inr (v, u)" "free_rep u (w # xs)"
    "kmem_frame s u" "mem u = mem s" by auto
  note eqs = kmem_frame_eq [OF u(3)]
  have v: "valid_page (kend s) v" "aligned v" "v \<noteq> 0" "v \<notin> set (w # xs)"
    using fr(1) by (auto simp: free_rep_def valid_page_def)
  let ?u = "u\<lparr>mem := memset v 0 PGSIZE (mem u)\<rparr>"
  have off: "same_off {v} (mem s) (mem ?u)" using same_outside_off [OF memset_page [OF v(2)]] u(4) by simp
  have dis: "{v} \<inter> table_pages (mem s) d = {}" using fr(4) by auto
  note eo = entries_off [OF fr(3) off _ dis]
  have "free_rep ?u (w # xs)"
    by (rule free_rep_off [OF u(2), of "{v}"]) (use off u(4) v in auto)
  then have "vm_state ?u d (w # xs)" using fr eo v(2) eqs by (auto simp: vm_state_def)
  moreover have "\<not> present (entry (mem ?u) d a)" using eo(3) v(2) a(2) by simp
  moreover have "present (pde_at (mem ?u) d (PDX a)) \<or> w # xs \<noteq> []" by simp
  ultimately obtain t ys where t:
    "mappages d a PGSIZE (v2p v) (PTE_W OR PTE_U) ?u = Inr (0, t)" "kmem_frame ?u t" "vm_state t d ys"
    "ys = w # xs \<or> w # xs = hd (w # xs) # ys"
    "entry (mem t) d = (\<lambda>vb. if page_of vb = page_of a then user_entry v else entry (mem ?u) d vb)"
    "table_pages (mem t) d \<subseteq> table_pages (mem ?u) d \<union> (set (w # xs) - set ys)"
    "table_pages (mem ?u) d \<subseteq> table_pages (mem t) d" "same_off (table_pages (mem t) d) (mem ?u) (mem t)"
    unfolding user_entry_def using mappages_page [OF _ a(1), of ?u d "w # xs" "v2p v" "PTE_W OR PTE_U"] by blast
  have "v \<notin> table_pages (mem t) d" using t(6) eo(2) v(2,4) dis by auto
  moreover have al: "\<forall>w\<in>table_pages (mem t) d. aligned w"
    using t(3) by (simp add: vm_state_def vm_wf_def valid_page_def)
  moreover have "zero_page (mem ?u) v"
    using memset_zero_page [OF v(2)] by (simp add: zero_page_def)
  ultimately have "zero_page (mem t) v" using zero_page_off [OF _ t(8)] v(2) by blast
  moreover have "same_off (insert v (table_pages (mem t) d)) (mem s) (mem t)"
    by (rule same_off_trans [OF same_off_mono [OF off] same_off_mono [OF t(8)]]) auto
  moreover have "kmem_frame s t" using kmem_frame_trans [OF kmem_frame_mem [OF u(3)] t(2)] .
  ultimately show ?thesis
    using u(1) t v eo(2,3) by (intro exI [of _ u] exI [of _ t] exI [of _ ys]) auto
qed

text \<open>What the loop of \<^verbatim>\<open>allocuvm\<close> leaves after mapping \<open>k\<close> pages from \<open>a\<close> on.\<close>

definition grown :: "uint \<Rightarrow> uint \<Rightarrow> nat \<Rightarrow> kernel \<Rightarrow> uint list \<Rightarrow> kernel \<Rightarrow> uint list \<Rightarrow> uint list \<Rightarrow> bool" where
  "grown d a k s xs t ps ys \<longleftrightarrow>
     kmem_frame s t \<and> vm_state t d ys \<and> length ps = k \<and> distinct ps \<and> set ps \<subseteq> set xs \<and> set ys \<subseteq> set xs \<and>
     set ps \<inter> set ys = {} \<and> set ps \<inter> table_pages (mem t) d = {} \<and>
     table_pages (mem t) d \<subseteq> table_pages (mem s) d \<union> (set xs - set ys) \<and>
     table_pages (mem s) d \<subseteq> table_pages (mem t) d \<and>
     (\<forall>i<k. entry (mem t) d (a + of_nat (4096 * i)) = user_entry (ps ! i) \<and> zero_page (mem t) (ps ! i)) \<and>
     (\<forall>vb. (\<forall>i<k. page_of vb \<noteq> page_of (a + of_nat (4096 * i))) \<longrightarrow> entry (mem t) d vb = entry (mem s) d vb) \<and>
     same_off (set ps \<union> table_pages (mem t) d) (mem s) (mem t)"

lemma page_step:
  assumes "aligned a" "unat a + 4096 * i < 2 ^ 32"
  shows "aligned (a + of_nat (4096 * i))" "page_of (a + of_nat (4096 * i)) = page_of a + i"
proof -
  have "unat (a + of_nat (4096 * i)) = unat a + 4096 * i" using assms(2) by (intro unat_plus_nat) simp
  then show "aligned (a + of_nat (4096 * i))" "page_of (a + of_nat (4096 * i)) = page_of a + i"
    using assms(1) by (simp_all add: aligned_def page_of_def)
qed

lemma grown_Suc:
  assumes a: "aligned a" "unat a + 4096 * Suc k < 2 ^ 32"
    and v: "v \<notin> set (w # xs)" "v \<notin> table_pages (mem s) d" "aligned v" "\<forall>x\<in>set (w # xs). aligned x"
    and t: "kmem_frame s t" "ys = w # xs \<or> ys = xs"
      "entry (mem t) d = (\<lambda>vb. if page_of vb = page_of a then user_entry v else entry (mem s) d vb)"
      "table_pages (mem t) d \<subseteq> table_pages (mem s) d \<union> (set (w # xs) - set ys)"
      "same_off (insert v (table_pages (mem t) d)) (mem s) (mem t)" "zero_page (mem t) v"
      "table_pages (mem s) d \<subseteq> table_pages (mem t) d"
    and g: "grown d (a + PGSIZE) k t ys u ps zs"
  shows "grown d a (Suc k) s (v # w # xs) u (v # ps) zs"
proof -
  have u: "kmem_frame t u" "vm_state u d zs" "length ps = k" "distinct ps" "set ps \<subseteq> set ys" "set zs \<subseteq> set ys"
    "set ps \<inter> set zs = {}" "set ps \<inter> table_pages (mem u) d = {}"
    "table_pages (mem u) d \<subseteq> table_pages (mem t) d \<union> (set ys - set zs)"
    "\<And>i. i < k \<Longrightarrow> entry (mem u) d (a + PGSIZE + of_nat (4096 * i)) = user_entry (ps ! i) \<and> zero_page (mem u) (ps ! i)"
    "\<And>vb. \<forall>i<k. page_of vb \<noteq> page_of (a + PGSIZE + of_nat (4096 * i)) \<Longrightarrow> entry (mem u) d vb = entry (mem t) d vb"
    "same_off (set ps \<union> table_pages (mem u) d) (mem t) (mem u)"
    and le: "table_pages (mem t) d \<subseteq> table_pages (mem u) d"
    using g by (simp_all add: grown_def)
  have ys: "set ys \<subseteq> set (w # xs)" using t(2) by auto
  have vps: "v \<notin> set ps" "v \<notin> set zs" using u(5,6) ys v(1) by auto
  have vtab: "v \<notin> table_pages (mem u) d" using u(9) t(4) v(1,2) ys by blast
  have shift: "a + PGSIZE + of_nat (4096 * i) = a + of_nat (4096 * Suc i)" for i
    by (simp add: PGSIZE_def algebra_simps)
  have pg: "page_of (a + of_nat (4096 * i)) = page_of a + i" if "i < Suc k" for i
    using a that by (intro page_step) simp_all
  have al: "\<forall>x\<in>set ps \<union> table_pages (mem u) d. aligned x"
  proof -
    have "\<forall>x\<in>set ps. aligned x" using u(5) ys v(4) by blast
    moreover have "\<forall>x\<in>table_pages (mem u) d. aligned x"
      using u(2) by (simp add: vm_state_def vm_wf_def valid_page_def)
    ultimately show ?thesis by blast
  qed
  have zv: "zero_page (mem u) v"
    by (rule zero_page_off [OF t(6) u(12) _ v(3) al]) (use vps vtab in auto)
  have ent: "entry (mem u) d (a + of_nat (4096 * i)) = user_entry ((v # ps) ! i) \<and> zero_page (mem u) ((v # ps) ! i)"
    if "i < Suc k" for i
  proof (cases i)
    case 0
    have "page_of a \<noteq> page_of (a + PGSIZE + of_nat (4096 * i))" if "i < k" for i
      unfolding shift pg [OF Suc_mono [OF that]] by simp
    then have "entry (mem u) d a = entry (mem t) d a" by (intro u(11)) blast
    with 0 t(3) zv show ?thesis by simp
  next
    case (Suc j)
    with that u(10) [of j, unfolded shift] show ?thesis by (simp only: nth_Cons_Suc Suc_less_eq)
  qed
  have oth: "entry (mem u) d vb = entry (mem s) d vb"
    if nb: "\<forall>i<Suc k. page_of vb \<noteq> page_of (a + of_nat (4096 * i))" for vb
  proof -
    have "page_of vb \<noteq> page_of a" using nb [rule_format, of 0] by simp
    then have "entry (mem t) d vb = entry (mem s) d vb" by (simp add: t(3))
    moreover have "entry (mem u) d vb = entry (mem t) d vb"
    proof (intro u(11) allI impI)
      fix i assume "i < k"
      from nb [rule_format, OF Suc_mono [OF this]]
      show "page_of vb \<noteq> page_of (a + PGSIZE + of_nat (4096 * i))" unfolding shift .
    qed
    ultimately show ?thesis by simp
  qed
  have "same_off (set (v # ps) \<union> table_pages (mem u) d) (mem s) (mem u)"
    by (rule same_off_trans [OF same_off_mono [OF t(5)] same_off_mono [OF u(12)]]) (use le in auto)
  moreover have "table_pages (mem u) d \<subseteq> table_pages (mem s) d \<union> (set (v # w # xs) - set zs)"
    using u(6,9) t(4) ys by auto
  ultimately show ?thesis
    using kmem_frame_trans [OF t(1) u(1)] u(2-8) vps vtab ys ent oth le t(7)
    unfolding grown_def by (intro conjI allI impI) auto
qed

lemma grown_0: "vm_state s d xs \<Longrightarrow> grown d a 0 s xs s [] xs"
  by (simp add: grown_def)

lemma allocuvm_loop_grows:
  assumes "vm_state s d xs" "aligned a" "unat newsz \<le> unat a + 4096 * k"
    "k \<noteq> 0 \<Longrightarrow> unat a + 4096 * (k - 1) < unat newsz" "unat a + 4096 * k < 2 ^ 32" "2 * k \<le> length xs" "k < n"
    "\<forall>i<k. \<not> present (entry (mem s) d (a + of_nat (4096 * i)))"
  shows "\<exists>t ps ys. allocuvm_loop n d a oldsz newsz s = Inr (newsz, t) \<and> grown d a k s xs t ps ys"
  using assms
proof (induction k arbitrary: s xs a n)
  case 0
  then obtain j where "n = Suc j" by (cases n) auto
  with 0 have "allocuvm_loop n d a oldsz newsz s = Inr (newsz, s)" by (simp add: word_less_nat_alt)
  with grown_0 [OF 0(1)] show ?case by blast
next
  case (Suc k)
  then obtain j where n: "n = Suc j" "k < j" by (cases n) auto
  obtain v w zs where xs: "xs = v # w # zs"
    using Suc.prems(6) by (cases xs; cases "tl xs") auto
  have lt: "a < newsz" using Suc.prems(4) by (simp add: word_less_nat_alt)
  have ap: "\<not> present (entry (mem s) d a)" using Suc.prems(8) [rule_format, of 0] by simp
  from alloc_page [OF Suc.prems(1) [unfolded xs] Suc.prems(2) ap] obtain u t ys where t: "kalloc s = Inr (v, u)"
    "mappages d a PGSIZE (v2p v) (PTE_W OR PTE_U) (u\<lparr>mem := memset v 0 PGSIZE (mem u)\<rparr>) = Inr (0, t)" "v \<noteq> 0"
    "kmem_frame s t" "vm_state t d ys" "ys = w # zs \<or> ys = zs"
    "entry (mem t) d = (\<lambda>vb. if page_of vb = page_of a then user_entry v else entry (mem s) d vb)"
    "table_pages (mem t) d \<subseteq> table_pages (mem s) d \<union> (set (w # zs) - set ys)"
    "table_pages (mem s) d \<subseteq> table_pages (mem t) d"
    "same_off (insert v (table_pages (mem t) d)) (mem s) (mem t)" "zero_page (mem t) v" by blast
  have up: "unat (a + PGSIZE) = unat a + 4096" and al: "aligned (a + PGSIZE)"
    using unat_plus_nat [of a 4096] page_step(1) [OF Suc.prems(2), of 1] Suc.prems(5) by (simp_all add: PGSIZE_def)
  have shift: "a + PGSIZE + of_nat (4096 * i) = a + of_nat (4096 * Suc i)" for i
    by (simp add: PGSIZE_def algebra_simps)
  have free: "\<not> present (entry (mem t) d (a + PGSIZE + of_nat (4096 * i)))" if "i < k" for i
  proof -
    have "page_of (a + of_nat (4096 * Suc i)) = page_of a + Suc i"
      using Suc.prems(2,5) that by (intro page_step(2)) simp_all
    with Suc.prems(8) [rule_format, OF Suc_mono [OF that]] show ?thesis unfolding shift t(7) by simp
  qed
  have "\<exists>t' ps ws. allocuvm_loop j d (a + PGSIZE) oldsz newsz t = Inr (newsz, t') \<and> grown d (a + PGSIZE) k t ys t' ps ws"
  proof (rule Suc.IH [OF t(5) al])
    show "unat newsz \<le> unat (a + PGSIZE) + 4096 * k" "unat (a + PGSIZE) + 4096 * k < 2 ^ 32"
      using Suc.prems(3,5) up by simp_all
    show "unat (a + PGSIZE) + 4096 * (k - 1) < unat newsz" if "k \<noteq> 0"
      using Suc.prems(4) that up by (cases k) simp_all
    show "2 * k \<le> length ys" using Suc.prems(6) t(6) xs by auto
    show "k < j" by (fact n)
    show "\<forall>i<k. \<not> present (entry (mem t) d (a + PGSIZE + of_nat (4096 * i)))" using free by blast
  qed
  then obtain t' ps ws where r: "allocuvm_loop j d (a + PGSIZE) oldsz newsz t = Inr (newsz, t')"
    "grown d (a + PGSIZE) k t ys t' ps ws" by blast
  have fr: "free_rep s (v # w # zs)" "table_pages (mem s) d \<inter> set (v # w # zs) = {}"
    using Suc.prems(1) xs by (simp_all add: vm_state_def)
  have "grown d a (Suc k) s (v # w # zs) t' (v # ps) ws"
    by (rule grown_Suc [OF Suc.prems(2,5) _ _ _ _ t(4,6,7,8,10,11,9) r(2)])
      (use fr in \<open>auto simp: free_rep_def valid_page_def\<close>)
  moreover have "allocuvm_loop n d a oldsz newsz s = Inr (newsz, t')"
    using n lt t(1-3) r(1) by simp
  ultimately show ?case using xs by blast
qed

lemma PGROUNDUP_bounds:
  assumes "unat v + 4095 < 2 ^ 32"
  shows "aligned (PGROUNDUP v)" "unat v \<le> unat (PGROUNDUP v)" "unat (PGROUNDUP v) < unat v + 4096"
  unfolding aligned_def PGROUNDUP_unat [OF assms] by simp_all

text \<open>
  C10. Growing a process: with two free pages for every page to add, none of which is mapped yet, \<^verbatim>\<open>allocuvm\<close> returns the new
  size. Every page between the old and the new size is then mapped user-writable to a distinct,
  formerly free page filled with zeros that is neither free nor a page table; no other mapping
  changes, the page tables stay well formed, and no memory outside the new pages and the page
  tables is touched.
\<close>

theorem allocuvm_maps_fresh_zero_pages:
  fixes d oldsz newsz :: uint and s :: kernel
  defines "a \<equiv> PGROUNDUP oldsz"
  defines "k \<equiv> (unat newsz - unat a + 4095) div 4096"
  assumes "vm_state s d xs" "oldsz \<le> newsz" "newsz < KERNBASE" "2 * k \<le> length xs"
    "\<forall>i<k. \<not> present (entry (mem s) d (a + of_nat (4096 * i)))"
  shows "\<exists>t ps ys. allocuvm d oldsz newsz s = Inr (newsz, t) \<and> grown d a k s xs t ps ys \<and>
     unat newsz \<le> unat a + 4096 * k"
proof -
  have K: "unat newsz < 2147483648" "unat oldsz \<le> unat newsz"
    using assms(4,5) by (simp_all add: word_less_nat_alt word_le_nat_alt KERNBASE_def)
  then have a: "aligned a" "unat oldsz \<le> unat a" "unat a < unat oldsz + 4096"
    unfolding a_def using PGROUNDUP_bounds [of oldsz] by simp_all
  have k: "unat newsz \<le> unat a + 4096 * k" "k \<noteq> 0 \<Longrightarrow> unat a + 4096 * (k - 1) < unat newsz"
    "4096 * k \<le> unat newsz - unat a + 4095"
    unfolding k_def by (simp_all add: algebra_simps)
  have b: "unat a + 4096 * k < 2 ^ 32" "k < 2 ^ 20" using k(3) K a(3) by simp_all
  have "\<exists>t ps ys. allocuvm_loop (2 ^ 20) d a oldsz newsz s = Inr (newsz, t) \<and> grown d a k s xs t ps ys"
    by (rule allocuvm_loop_grows [OF assms(3) a(1) k(1,2) b(1) assms(6) b(2) assms(7)])
  moreover have "\<not> newsz \<ge> KERNBASE" "\<not> newsz < oldsz" using assms(4,5) by (simp_all add: not_le not_less)
  then have "allocuvm d oldsz newsz s = allocuvm_loop (2 ^ 20) d a oldsz newsz s"
    by (simp add: allocuvm_def a_def)
  ultimately show ?thesis using k(1) by auto
qed

text \<open>An empty address space and two free pages.\<close>

definition demo_vm :: kernel where
  "demo_vm = (bss True)\<lparr>kend := 0x80400000, freelist := 0x80401000,
     mem := store32 0x80401000 0x80402000 (\<lambda>_. 0)\<rparr>"

lemma demo_vm_mem [simp]: "mem demo_vm = store32 0x80401000 0x80402000 (\<lambda>_. 0)" "kend demo_vm = 0x80400000"
  by (simp_all add: demo_vm_def)

lemma demo_vm_pde [simp]: "i < 1024 \<Longrightarrow> pde_at (mem demo_vm) 0x80400000 i = 0"
proof -
  assume i: "i < 1024"
  have al: "aligned 0x80401000" "aligned 0x80400000" by (simp_all add: aligned_def)
  have "load32 (store32 0x80401000 0x80402000 (\<lambda>_. 0)) (slot 0x80400000 i) = load32 (\<lambda>_. 0) (slot 0x80400000 i)"
    by (rule load32_slot_outside [OF store32_page [OF al(1)] al i]) simp
  then show ?thesis by (simp add: pde_at_def load32_def)
qed

lemma demo_vm_state: "vm_state demo_vm 0x80400000 [0x80401000, 0x80402000]"
proof -
  have tp: "table_pages (mem demo_vm) 0x80400000 = {0x80400000}"
    using demo_vm_pde by (auto simp: table_pages_def simp del: demo_vm_mem)
  have "vm_wf (kend demo_vm) (mem demo_vm) 0x80400000"
    using demo_vm_pde tp by (auto simp: vm_wf_def valid_page_def aligned_def v2p_def KERNBASE_def PHYSTOP_def
        simp del: demo_vm_mem(1))
  moreover have "load32 (mem demo_vm) 0x80402000 = 0" "load32 (mem demo_vm) 0x80401000 = 0x80402000"
    by (simp_all add: load32_store32) (simp add: load32_def store32_def)
  then have "free_rep demo_vm [0x80401000, 0x80402000]"
    by (simp add: free_rep_def demo_vm_def valid_page_def aligned_def v2p_def KERNBASE_def PHYSTOP_def)
  moreover have "kmem_ok demo_vm" by (simp add: kmem_ok_def demo_vm_def)
  ultimately show ?thesis using tp by (simp add: vm_state_def)
qed

theorem allocuvm_maps_fresh_zero_pages_witness:
  "\<exists>t p. allocuvm 0x80400000 0 1 demo_vm = Inr (1, t) \<and> entry (mem t) 0x80400000 0 = user_entry p \<and>
     zero_page (mem t) p"
proof -
  have a: "PGROUNDUP 0 = 0" by (simp add: PGROUNDUP_def PGSIZE_def)
  have k: "(unat (1 :: uint) - unat (PGROUNDUP 0) + 4095) div 4096 = 1" by (simp add: a)
  have e: "\<not> present (entry (mem demo_vm) 0x80400000 (PGROUNDUP 0 + of_nat (4096 * i)))" if "i < 1" for i
    using that by (simp add: entry_def del: demo_vm_mem)
  have "\<exists>t ps ys. allocuvm 0x80400000 0 1 demo_vm = Inr (1, t) \<and>
      grown 0x80400000 0 1 demo_vm [0x80401000, 0x80402000] t ps ys"
    using allocuvm_maps_fresh_zero_pages [OF demo_vm_state, of 0 1] e unfolding k a by (auto simp: KERNBASE_def)
  then obtain t ps ys where "allocuvm 0x80400000 0 1 demo_vm = Inr (1, t)"
    "grown 0x80400000 0 1 demo_vm [0x80401000, 0x80402000] t ps ys" by blast
  then show ?thesis by (intro exI [of _ t] exI [of _ "ps ! 0"]) (simp add: grown_def)
qed

subsection \<open>Addresses without a page table\<close>

text \<open>
  \<^verbatim>\<open>uva2ka\<close>, and with it \<^verbatim>\<open>copyout\<close>, dereferences a null pointer when the address has no page
  table, where an address that is not mapped makes it return 0.
\<close>

lemma uva2ka_no_table:
  "\<not> present (pde_at (mem s) d (PDX va)) \<Longrightarrow> uva2ka d va s = Inl NullDeref"
  by (simp add: uva2ka_def walkpgdir_absent)

end
