(* ===== verification/Uaccess_Inv.thy ===== *)
theory Uaccess_Inv
  imports Uaccess Vm_Inv
begin

unbundle bit_operations_syntax

section \<open>System call arguments stay inside the memory of the process\<close>

text \<open>
  When the pages of a process are present up to its size, fetching arguments neither traps nor reads above the size, and an
  address range that passed the check of \<^verbatim>\<open>argptr\<close> can be accessed.
\<close>

definition user_mapped :: "kernel \<Rightarrow> nat \<Rightarrow> bool" where
  "user_mapped s me \<longleftrightarrow> proc_of s = Some me \<and> vm_wf (kend s) (mem s) (p_pgdir (procs s me)) \<and>
     p_sz (procs s me) \<le> KERNBASE \<and> (\<forall>va < p_sz (procs s me). present (entry (mem s) (p_pgdir (procs s me)) va))"

text \<open>The byte of the process at an address.\<close>

definition umem :: "kernel \<Rightarrow> nat \<Rightarrow> uint \<Rightarrow> uchar" where
  "umem s me va = mem s (p2v (PTE_ADDR (entry (mem s) (p_pgdir (procs s me)) va)) + va mod PGSIZE)"

definition ubytes :: "kernel \<Rightarrow> nat \<Rightarrow> uint \<Rightarrow> nat \<Rightarrow> uchar list" where
  "ubytes s me va n = map (\<lambda>i. umem s me (va + of_nat i)) [0..<n]"

lemma ubytes_Suc: "ubytes s me va (Suc n) = umem s me va # ubytes s me (va + 1) n"
  unfolding ubytes_def by (simp add: upt_conv_Cons map_Suc_upt [symmetric] ac_simps del: upt_Suc)

lemma uload8_umem:
  assumes "user_mapped s me" "va < p_sz (procs s me)"
  shows "uload8 va s = Inr (umem s me va)"
proof -
  let ?d = "p_pgdir (procs s me)"
  have pr: "present (entry (mem s) ?d va)" and wf: "vm_wf (kend s) (mem s) ?d" and me: "proc_of s = Some me"
    using assms by (auto simp: user_mapped_def)
  have pd: "present (pde_at (mem s) ?d (PDX va))" using pr by (auto simp: entry_def split: if_splits)
  then have e: "load32 (mem s) (entry_slot (mem s) ?d va) = entry (mem s) ?d va" by (simp add: entry_def entry_slot_def)
  have "entry_slot (mem s) ?d va \<noteq> 0"
    unfolding entry_slot_def by (rule slot_nonzero [OF vm_wfD(3) [OF wf _ pd]]) simp_all
  then have "kaddr va s = Inr (p2v (PTE_ADDR (entry (mem s) ?d va)) + va mod PGSIZE)"
    using me walkpgdir_present [OF pd] pr e by (simp add: kaddr_def present_def)
  then show ?thesis by (simp add: uload8_def umem_def)
qed

text \<open>Addresses below the size do not wrap around.\<close>

lemma below_size:
  assumes "user_mapped s me" "unat va + i < unat (p_sz (procs s me))"
  shows "va + of_nat i < p_sz (procs s me)" "unat (va + of_nat i) = unat va + i"
proof -
  have "unat (p_sz (procs s me)) \<le> 2 ^ 31" using assms(1) by (simp add: user_mapped_def word_le_nat_alt KERNBASE_def)
  then have "unat va + i < 2 ^ 32" using assms(2) by simp
  then show u: "unat (va + of_nat i) = unat va + i" by (simp add: unat_word_ariths unat_of_nat)
  show "va + of_nat i < p_sz (procs s me)" using assms(2) by (simp add: word_less_nat_alt u)
qed

lemma uload_umem:
  assumes "user_mapped s me" "unat va + n \<le> unat (p_sz (procs s me))"
  shows "uload n va s = Inr (ubytes s me va n)"
  using assms(2)
proof (induction n arbitrary: va)
  case (Suc n)
  have va: "va < p_sz (procs s me)" using Suc.prems by (simp add: word_less_nat_alt)
  show ?case
  proof (cases n)
    case 0
    then show ?thesis using uload8_umem [OF assms(1) va] by (simp add: ubytes_def)
  next
    case (Suc m)
    have "unat (va + 1) = unat va + 1" using below_size(2) [OF assms(1), of va 1] Suc.prems Suc by simp
    then show ?thesis using Suc.IH [of "va + 1"] Suc.prems uload8_umem [OF assms(1) va] by (simp add: ubytes_Suc)
  qed
qed (simp add: ubytes_def)

lemma fetchstr_loop_umem:
  assumes "user_mapped s me" "unat va + n \<le> unat (p_sz (procs s me))"
  shows "fetchstr_loop n va acc s = Inr (if 0 \<in> set (ubytes s me va n) then Some (acc @ takeWhile (\<lambda>c. c \<noteq> 0) (ubytes s me va n)) else None)"
  using assms(2)
proof (induction n arbitrary: va acc)
  case (Suc n)
  have va: "va < p_sz (procs s me)" using Suc.prems by (simp add: word_less_nat_alt)
  show ?case
  proof (cases n)
    case 0
    then show ?thesis using uload8_umem [OF assms(1) va] by (simp add: ubytes_def)
  next
    case (Suc m)
    have "unat (va + 1) = unat va + 1" using below_size(2) [OF assms(1), of va 1] Suc.prems Suc by simp
    then show ?thesis using Suc.IH [of "va + 1"] Suc.prems uload8_umem [OF assms(1) va] by (simp add: ubytes_Suc)
  qed
qed (simp add: ubytes_def)

text \<open>The check \<^verbatim>\<open>addr >= proc->sz || addr+size > proc->sz\<close> in 32 bits.\<close>

lemma range_check:
  assumes "user_mapped s me" "unat len \<le> 2 ^ 31"
  shows "\<not> (va \<ge> p_sz (procs s me) \<or> va + len > p_sz (procs s me)) \<longleftrightarrow>
     unat va < unat (p_sz (procs s me)) \<and> unat va + unat len \<le> unat (p_sz (procs s me))"
proof -
  have sz: "unat (p_sz (procs s me)) \<le> 2 ^ 31" using assms(1) by (simp add: user_mapped_def word_le_nat_alt KERNBASE_def)
  show ?thesis
  proof (cases "va \<ge> p_sz (procs s me)")
    case False
    then have "unat va + unat len < 2 ^ 32" using sz assms(2) by (simp add: not_le word_less_nat_alt)
    then have "unat (va + len) = unat va + unat len" by (simp add: unat_word_ariths)
    then show ?thesis using False by (auto simp: word_le_nat_alt word_less_nat_alt)
  qed (auto simp: word_le_nat_alt)
qed

lemma fetchint_umem:
  assumes "user_mapped s me"
  shows "fetchint addr s = Inr (if unat addr + 4 \<le> unat (p_sz (procs s me)) then Some (word_of_bytes (ubytes s me addr 4)) else None)"
proof -
  have sz: "psz s = Inr (p_sz (procs s me))" using assms by (simp add: psz_def user_mapped_def)
  have "\<not> (addr \<ge> p_sz (procs s me) \<or> addr + 4 > p_sz (procs s me)) \<longleftrightarrow> unat addr + 4 \<le> unat (p_sz (procs s me))"
    using range_check [OF assms, of 4 addr] by auto
  then show ?thesis using uload_umem [OF assms, of addr 4] by (auto simp: fetchint_def sz simp del: uload.simps)
qed

text \<open>
  C14. Fetching system call arguments is total and safe: in a process whose pages are present up to its size, which is at most
  KERNBASE, an integer argument is fetched exactly when its four bytes lie below the size; a string is fetched exactly when a zero byte follows
  below the size, and it is the bytes up to that zero. \<^verbatim>\<open>argptr\<close> accepts an address exactly when the address is below the size
  and the address plus the requested length, added in 32 bits, does not exceed it. For a length below 2^31, and only such a length
  is covered, this means that the range lies below the size, and the kernel can read it without a trap. A length of 2^31 or more,
  which is a negative \<^verbatim>\<open>int\<close> in the source and which the read and write calls take unchecked from the user, can wrap around and
  be accepted although the range does not lie below the size: the witness has such a length.
\<close>

theorem syscall_arguments_safe:
  assumes "user_mapped s me" "unat len < 2 ^ 31"
  shows "argint n s = Inr (if unat (tf_esp (p_tf (procs s me)) + 4 + 4 * of_nat n) + 4 \<le> unat (p_sz (procs s me))
       then Some (word_of_bytes (ubytes s me (tf_esp (p_tf (procs s me)) + 4 + 4 * of_nat n) 4)) else None) \<and>
     (\<forall>addr. fetchstr addr s =
        (let bs = ubytes s me addr (unat (p_sz (procs s me)) - unat addr) in
         Inr (if 0 \<in> set bs then Some (takeWhile (\<lambda>c. c \<noteq> 0) bs) else None))) \<and>
     (\<forall>l. \<exists>r. argptr n l s = Inr r) \<and>
     (\<forall>l i. argptr n l s = Inr (Some i) \<longleftrightarrow>
        argint n s = Inr (Some i) \<and> i < p_sz (procs s me) \<and> i + l \<le> p_sz (procs s me)) \<and>
     (\<forall>i. argptr n len s = Inr (Some i) \<longleftrightarrow>
        argint n s = Inr (Some i) \<and> unat i < unat (p_sz (procs s me)) \<and> unat i + unat len \<le> unat (p_sz (procs s me))) \<and>
     (\<forall>i. argptr n len s = Inr (Some i) \<longrightarrow> uload (unat len) i s = Inr (ubytes s me i (unat len)))"
proof -
  have me: "proc_of s = Some me" using assms(1) by (simp add: user_mapped_def)
  have sz: "psz s = Inr (p_sz (procs s me))" by (simp add: psz_def me)
  have str: "fetchstr addr s =
      (let bs = ubytes s me addr (unat (p_sz (procs s me)) - unat addr) in
       Inr (if 0 \<in> set bs then Some (takeWhile (\<lambda>c. c \<noteq> 0) bs) else None))" for addr
  proof (cases "p_sz (procs s me) \<le> addr")
    case True
    then show ?thesis by (simp add: fetchstr_def sz ubytes_def word_le_nat_alt)
  next
    case False
    then have "unat (p_sz (procs s me) - addr) = unat (p_sz (procs s me)) - unat addr" by (simp add: unat_sub)
    then show ?thesis using False fetchstr_loop_umem [OF assms(1), of addr "unat (p_sz (procs s me)) - unat addr" "[]"]
      by (simp add: fetchstr_def sz word_le_nat_alt Let_def)
  qed
  have int: "argint n s = fetchint (tf_esp (p_tf (procs s me)) + 4 + 4 * of_nat n) s" by (simp add: argint_def me)
  obtain r where r: "argint n s = Inr r" unfolding int fetchint_umem [OF assms(1)] by blast
  have chk: "argptr n len s = Inr (case r of None \<Rightarrow> None
      | Some i \<Rightarrow> if unat i < unat (p_sz (procs s me)) \<and> unat i + unat len \<le> unat (p_sz (procs s me)) then Some i else None)"
    using range_check [OF assms(1), of len] assms(2) by (auto simp: argptr_def r sz split: option.splits)
  have wchk: "argptr n l s = Inr (case r of None \<Rightarrow> None
      | Some i \<Rightarrow> if i < p_sz (procs s me) \<and> i + l \<le> p_sz (procs s me) then Some i else None)" for l
    by (auto simp: argptr_def r sz not_less not_le split: option.splits)
  then have wptr: "argptr n l s = Inr (Some i) \<longleftrightarrow>
      argint n s = Inr (Some i) \<and> i < p_sz (procs s me) \<and> i + l \<le> p_sz (procs s me)" for l i
    by (auto simp: r split: option.splits if_splits)
  from chk have ptr: "argptr n len s = Inr (Some i) \<longleftrightarrow>
      argint n s = Inr (Some i) \<and> unat i < unat (p_sz (procs s me)) \<and> unat i + unat len \<le> unat (p_sz (procs s me))" for i
    by (auto simp: r split: option.splits if_splits)
  have "uload (unat len) i s = Inr (ubytes s me i (unat len))" if "argptr n len s = Inr (Some i)" for i
    using that uload_umem [OF assms(1)] by (simp add: ptr)
  moreover have "argint n s = Inr (if unat (tf_esp (p_tf (procs s me)) + 4 + 4 * of_nat n) + 4 \<le> unat (p_sz (procs s me))
       then Some (word_of_bytes (ubytes s me (tf_esp (p_tf (procs s me)) + 4 + 4 * of_nat n) 4)) else None)"
    by (simp add: int fetchint_umem [OF assms(1)])
  moreover have "\<exists>r. argptr n l s = Inr r" for l unfolding wchk by blast
  ultimately show ?thesis using str ptr wptr by blast
qed

subsection \<open>A process with one page\<close>

definition demo_user :: kernel where
  "demo_user = (bss True)\<lparr>kend := 0x80400000,
     mem := (store32 0x80401000 0x402007 (store32 0x80400000 0x401007 (\<lambda>_. 0)))(0x80402010 := 65, 0x80402004 := 16),
     cpus := (\<lambda>_. (cpu0 True)\<lparr>cpu_proc := Some 0\<rparr>),
     procs := (\<lambda>_. proc0\<lparr>p_pgdir := 0x80400000, p_sz := 4096\<rparr>)\<rparr>"

lemma demo_user_load:
  assumes "i < 1024"
  shows "load32 (mem demo_user) (slot 0x80400000 i) = (if i = 0 then 0x401007 else 0)"
    and "load32 (mem demo_user) (slot 0x80401000 i) = (if i = 0 then 0x402007 else 0)"
proof -
  have al: "aligned 0x80400000" "aligned 0x80401000" "aligned 0x80402000" by (simp_all add: aligned_def)
  have s0: "slot v 0 = v" for v by (simp add: slot_def)
  have p: "same_outside 0x80402000 (store32 0x80401000 0x402007 (store32 0x80400000 0x401007 (\<lambda>_. 0))) (mem demo_user)"
    by (simp add: same_outside_def demo_user_def page_of_def)
  note out = load32_slot_outside [OF p al(3)]
  have z: "load32 (\<lambda>_. 0) a = 0" for a by (simp add: load32_def)
  show "load32 (mem demo_user) (slot 0x80400000 i) = (if i = 0 then 0x401007 else 0)"
    unfolding out [OF al(1) assms, simplified]
    using load32_store32_slot [OF al(2,1) _ assms, of 0] load32_store32_slot [OF al(1,1) _ assms, of 0] load32_store32
    by (simp add: s0 z)
  show "load32 (mem demo_user) (slot 0x80401000 i) = (if i = 0 then 0x402007 else 0)"
    unfolding out [OF al(2) assms, simplified]
    using load32_store32_slot [OF al(2,2) _ assms, of 0] load32_store32_slot [OF al(1,2) _ assms, of 0] load32_store32
    by (simp add: s0 z)
qed

lemma demo_user_table: "table_at (mem demo_user) 0x80400000 0 = 0x80401000"
  using demo_user_load(1) [of 0] by (simp add: table_at_def pde_at_def PTE_ADDR_def p2v_def KERNBASE_def)

lemma demo_user_pde: "i < 1024 \<Longrightarrow> present (pde_at (mem demo_user) 0x80400000 i) \<longleftrightarrow> i = 0"
  using demo_user_load(1) [of i] by (simp add: pde_at_def present_def PTE_P_def)

lemma demo_user_entry:
  assumes "va < 4096"
  shows "entry (mem demo_user) 0x80400000 va = 0x402007"
proof -
  have "page_of va = page_of (0 :: uint)" using assms by (simp add: page_of_def word_less_nat_alt)
  then have "PDX va = PDX 0 \<and> PTX va = PTX 0" by (rule page_index)
  moreover have "PDX 0 = 0" "PTX 0 = 0" by (simp_all add: PDX_def PTX_def)
  ultimately show ?thesis using demo_user_pde [of 0] demo_user_load(2) [of 0] by (simp add: entry_def demo_user_table)
qed

lemma demo_user_mapped: "user_mapped demo_user 0"
proof -
  have d: "proc_of demo_user = Some 0" "kend demo_user = 0x80400000" "p_pgdir (procs demo_user 0) = 0x80400000"
    "p_sz (procs demo_user 0) = 4096"
    by (simp_all add: demo_user_def proc_of_def)
  have "table_pages (mem demo_user) 0x80400000 = {0x80400000, 0x80401000}"
    using demo_user_pde demo_user_table by (auto simp: table_pages_def)
  then have "vm_wf 0x80400000 (mem demo_user) 0x80400000"
    using demo_user_pde demo_user_table by (auto simp: vm_wf_def valid_page_def aligned_def v2p_def KERNBASE_def PHYSTOP_def)
  moreover have "present (entry (mem demo_user) 0x80400000 va)" if "va < 4096" for va
    by (simp add: demo_user_entry [OF that] present_def PTE_P_def)
  ultimately show ?thesis using d by (simp add: user_mapped_def KERNBASE_def)
qed

lemma demo_user_mem: "va < 4096 \<Longrightarrow> umem demo_user 0 va = mem demo_user (0x80402000 + va)"
proof -
  assume "va < 4096"
  moreover from this have "va mod PGSIZE = va" by (simp add: PGSIZE_def word_unat_eq_iff unat_mod word_less_nat_alt)
  ultimately show ?thesis using demo_user_entry [of va] by (simp add: umem_def demo_user_def PTE_ADDR_def p2v_def KERNBASE_def)
qed

theorem syscall_arguments_safe_witness:
  "fetchstr 16 demo_user = Inr (Some [65]) \<and> argptr 0 16 demo_user = Inr (Some 16) \<and> argptr 0 4081 demo_user = Inr None \<and>
   argptr 0 0xFFFFFFFF demo_user = Inr (Some 16) \<and> \<not> unat (16 :: uint) + unat (0xFFFFFFFF :: uint) \<le> unat (p_sz (procs demo_user 0))"
proof -
  have sz: "p_sz (procs demo_user 0) = 4096" "tf_esp (p_tf (procs demo_user 0)) = 0"
    by (simp_all add: demo_user_def proc0_def trapframe0_def)
  have "mem demo_user 0x80402004 = 16" "mem demo_user 0x80402005 = 0" "mem demo_user 0x80402006 = 0" "mem demo_user 0x80402007 = 0"
    "mem demo_user 0x80402010 = 65" "mem demo_user 0x80402011 = 0"
    by (simp_all add: demo_user_def store32_def)
  note m = demo_user_mem this
  have arg: "ubytes demo_user 0 4 4 = [16, 0, 0, 0]"
    by (simp add: ubytes_def upt_conv_Cons m)
  have "ubytes demo_user 0 16 4080 = umem demo_user 0 16 # umem demo_user 0 17 # ubytes demo_user 0 18 4078"
    using ubytes_Suc [of demo_user 0 16 4079] ubytes_Suc [of demo_user 0 17 4078] by simp
  then have str: "ubytes demo_user 0 16 4080 = 65 # 0 # ubytes demo_user 0 18 4078" by (simp add: m)
  have int: "argint 0 demo_user = Inr (Some 16)"
    using conjunct1 [OF syscall_arguments_safe [OF demo_user_mapped, of 0 0]]
    by (simp add: sz arg word_of_bytes_def get32_def)
  have "fetchstr 16 demo_user = Inr (Some [65])"
    using syscall_arguments_safe [OF demo_user_mapped, of 0 0] by (simp add: sz str)
  moreover have "argptr 0 16 demo_user = Inr (Some 16)"
    using syscall_arguments_safe [OF demo_user_mapped, of 16 0] by (simp add: sz int)
  moreover have "argptr 0 0xFFFFFFFF demo_user = Inr (Some 16)" "\<not> unat (16 :: uint) + unat (0xFFFFFFFF :: uint) \<le> unat (p_sz (procs demo_user 0))"
    using syscall_arguments_safe [OF demo_user_mapped, of 0 0] by (simp_all add: sz int)
  moreover have "\<exists>r. argptr 0 4081 demo_user = Inr r" "\<forall>i. argptr 0 4081 demo_user \<noteq> Inr (Some i)"
    using syscall_arguments_safe [OF demo_user_mapped, of 4081 0] by (auto simp: sz int)
  then obtain r where "argptr 0 4081 demo_user = Inr r" "\<forall>i. r \<noteq> Some i" by auto
  ultimately show ?thesis by (cases r) auto
qed

end
