(* ===== verification/Kbd_Props.thy ===== *)
theory Kbd_Props
  imports Devices
begin

unbundle bit_operations_syntax

section \<open>The keyboard\<close>

text \<open>The state of the modifier keys keeps its seven bits, characters are bytes, and the letters follow the modifiers.\<close>

lemma maps_bytes:
  "normalmap i < 256" "shiftmap i < 256" "ctlmap i < 256"
proof -
  have f: "from_map ks f i < 256" if "list_all (\<lambda>k. k < 256) ks" "f i < 256" for ks f
    using that by (simp add: from_map_def list_all_length)
  have k: "key_code a b i < 256" if "a < 256" "b < 256" for a b using that by (simp add: key_code_def)
  show "normalmap i < 256" "shiftmap i < 256" "ctlmap i < 256"
    unfolding normalmap_def shiftmap_def ctlmap_def
    by (rule f, simp add: row_def ctl_row_def list_all_iff, rule k; simp)+
qed

lemma charcode_byte: "charcode m i < 256"
  using maps_bytes by (simp add: charcode_def)

lemma below_128: "w < 128 \<longleftrightarrow> take_bit 7 w = (w :: uint)"
proof -
  have "take_bit 7 w = w \<longleftrightarrow> unat w mod 128 = unat w" by (simp add: take_bit_eq_mod word_unat_eq_iff unat_mod)
  moreover have "unat w mod 128 = unat w \<longleftrightarrow> unat w < 128" by (metis mod_less mod_less_divisor zero_less_numeral)
  ultimately show ?thesis by (simp add: word_less_nat_alt)
qed

lemma below_128_and:
  assumes "(v :: uint) < 128"
  shows "v AND u < 128"
proof -
  have "bit v n \<Longrightarrow> n < 7" for n using assms unfolding below_128 by (metis bit_take_bit_iff)
  then have "take_bit 7 (v AND u) = v AND u" by (intro bit_word_eqI) (auto simp: bit_simps)
  then show ?thesis by (simp add: below_128)
qed

lemma below_128_ops:
  assumes "(v :: uint) < 128" "w < 128"
  shows "v OR w < 128" "v XOR w < 128"
  using assms unfolding below_128 by (simp_all add: take_bit_or take_bit_xor)

lemma codes_small: "shiftcode i < 128" "togglecode i < 128" "E0ESC < 128"
  by (simp_all add: shiftcode_def togglecode_def CTL_def SHIFT_def ALT_def CAPSLOCK_def NUMLOCK_def SCROLLLOCK_def E0ESC_def)

lemma caps_byte: "(b :: uint) < 256 \<Longrightarrow> (if 97 \<le> b \<and> b \<le> 122 then b - 32 else if 65 \<le> b \<and> b \<le> 90 then b + 32 else b) < 256"
  by (auto simp: word_less_nat_alt word_le_nat_alt unat_sub_if' unat_plus_if')

lemma kbdgetc_shift:
  assumes "shift < 128"
  shows "snd (kbdgetc st dat shift) < 128"
  using assms by (simp add: kbdgetc_def Let_def below_128_ops below_128_and codes_small)

lemma kbdgetc_byte:
  assumes "fst (kbdgetc st dat shift) = Some b"
  shows "b < 256"
proof (cases "(ucast st :: uint) AND KBS_DIB = 0 \<or> (ucast dat :: uint) = 0xE0 \<or> (ucast dat :: uint) AND 0x80 \<noteq> 0")
  case True
  then show ?thesis using assms by (auto simp: kbdgetc_def Let_def split: if_splits)
next
  case False
  define ds where "ds = (if shift AND E0ESC \<noteq> 0 then (ucast dat OR 0x80 :: uint, shift AND NOT E0ESC) else (ucast dat, shift))"
  define sh where "sh = (snd ds OR shiftcode (unat (fst ds))) XOR togglecode (unat (fst ds))"
  define c where "c = charcode (sh AND (CTL OR SHIFT)) (unat (fst ds))"
  have "b = (if sh AND CAPSLOCK \<noteq> 0 then if 97 \<le> c \<and> c \<le> 122 then c - 32 else if 65 \<le> c \<and> c \<le> 90 then c + 32 else c else c)"
    using assms False unfolding kbdgetc_def Let_def ds_def [symmetric] case_prod_beta sh_def [symmetric] c_def [symmetric]
    by (simp del: if_split_asm)
  moreover have "c < 256" by (simp add: c_def charcode_byte)
  ultimately show ?thesis using caps_byte [of c] by (simp split: if_splits)
qed

lemma kbd_chars_type:
  "shift < 128 \<Longrightarrow> snd (kbd_chars rs shift) < 128 \<and> (\<forall>c\<in>set (fst (kbd_chars rs shift)). c < 256)"
proof (induction rs arbitrary: shift)
  case (Cons r rs)
  obtain st dat where r: "r = (st, dat)" by (cases r)
  obtain c shift' where k: "kbdgetc st dat shift = (c, shift')" by (cases "kbdgetc st dat shift")
  have "shift' < 128" using kbdgetc_shift [OF Cons.prems, of st dat] by (simp add: k)
  with Cons.IH [of shift'] show ?case
    using kbdgetc_byte [of st dat shift] by (auto simp: r k case_prod_beta Let_def split: option.splits)
qed simp

text \<open>The scan codes of the letters.\<close>

definition letter_keys :: "(uchar \<times> uint) list" where
  "letter_keys = zip [0x10, 0x11, 0x12, 0x13, 0x14, 0x15, 0x16, 0x17, 0x18, 0x19] (row ''qwertyuiop'') @
     zip [0x1E, 0x1F, 0x20, 0x21, 0x22, 0x23, 0x24, 0x25, 0x26] (row ''asdfghjkl'') @
     zip [0x2C, 0x2D, 0x2E, 0x2F, 0x30, 0x31, 0x32] (row ''zxcvbnm'')"

lemma letter_maps:
  "list_all (\<lambda>(k, ch). normalmap (unat k) = ch \<and> shiftmap (unat k) = ch - 32 \<and> ctlmap (unat k) = ch - 96 \<and>
     shiftcode (unat k) = 0 \<and> togglecode (unat k) = 0 \<and> unat (ucast k :: uint) = unat k \<and> (ucast k :: uint) \<noteq> 0xE0 \<and> (ucast k :: uint) AND 0x80 = 0 \<and> 97 \<le> ch \<and> ch \<le> 122) letter_keys"
  by (simp add: letter_keys_def row_def normalmap_def shiftmap_def ctlmap_def ctl_row_def from_map_def shiftcode_def togglecode_def nth_append)

lemma modifier_bits:
  fixes v :: uint
  shows "v AND (CTL OR SHIFT) = (if v AND CTL \<noteq> 0 then 2 else 0) + (if v AND SHIFT \<noteq> 0 then 1 else 0)"
proof -
  have "(3 :: uint) = mask 2" by (simp add: mask_eq_exp_minus_1)
  then have "v AND 3 = take_bit 2 v" by (simp add: take_bit_eq_mask)
  also have "\<dots> = (if bit v 1 then 2 else 0) + (if bit v 0 then 1 else 0)"
    by (simp add: take_bit_Suc numeral_2_eq_2 bit_Suc mod_2_eq_odd bit_0)
  finally have b3: "v AND 3 = (if bit v 1 then 2 else 0) + (if bit v 0 then 1 else 0)" .
  have b: "v AND 1 = (if bit v 0 then 1 else 0)" "v AND 2 = (if bit v 1 then 2 else 0)"
    by (auto intro!: bit_word_eqI simp: bit_simps)
  show ?thesis by (simp add: CTL_def SHIFT_def b b3)
qed

lemma kbdgetc_letter:
  assumes "(k, ch) \<in> set letter_keys" "shift AND E0ESC = 0"
  shows "kbdgetc 1 k shift =
     (Some (if shift AND CTL \<noteq> 0 then ch - 96
            else if (shift AND SHIFT \<noteq> 0) \<noteq> (shift AND CAPSLOCK \<noteq> 0) then ch - 32 else ch), shift)"
proof -
  have m: "normalmap (unat k) = ch" "shiftmap (unat k) = ch - 32" "ctlmap (unat k) = ch - 96"
    "shiftcode (unat k) = 0" "togglecode (unat k) = 0" "97 \<le> ch" "ch \<le> 122"
    and k: "unat (ucast k :: uint) = unat k" "(ucast k :: uint) \<noteq> 0xE0" "(ucast k :: uint) AND 0x80 = 0"
    using letter_maps assms(1) by (auto simp: list_all_iff)
  have up: "65 \<le> ch - 32" "ch - 32 \<le> 90" "\<not> 97 \<le> ch - 32" "\<not> 65 \<le> ch - 96"  "\<not> 97 \<le> ch - 96"
    using m(6,7) by (auto simp: word_le_nat_alt unat_sub_if')
  have "kbdgetc 1 k shift = (Some (let c = charcode (shift AND (CTL OR SHIFT)) (unat k) in
      if shift AND CAPSLOCK \<noteq> 0
      then if 97 \<le> c \<and> c \<le> 122 then c - 32 else if 65 \<le> c \<and> c \<le> 90 then c + 32 else c else c), shift)"
    using assms(2) by (simp add: kbdgetc_def KBS_DIB_def m(4,5) k Let_def)
  moreover have "charcode (shift AND (CTL OR SHIFT)) (unat k) =
      (if shift AND CTL \<noteq> 0 then ch - 96 else if shift AND SHIFT \<noteq> 0 then ch - 32 else ch)"
    by (cases "shift AND CTL = 0"; cases "shift AND SHIFT = 0") (simp_all only: modifier_bits charcode_def, simp_all add: m(1-3))
  ultimately show ?thesis using m(6,7) up
    by (cases "shift AND CTL = 0"; cases "shift AND SHIFT = 0"; cases "shift AND CAPSLOCK = 0") (simp_all add: Let_def)
qed

text \<open>
  C27. Typing of the keyboard driver: from a modifier state of seven bits, any sequence of readings of the controller leaves a modifier state of
  seven bits and yields bytes; and while no escape code is pending, the key of a letter yields the control character when control is
  held, and otherwise the capital exactly when one of shift and caps lock is on, and does not change the modifiers.
\<close>

theorem kbd_chars_typed:
  assumes "shift < 128"
  shows "snd (kbd_chars rs shift) < 128 \<and> (\<forall>c\<in>set (fst (kbd_chars rs shift)). c < 256) \<and>
     (shift AND E0ESC = 0 \<longrightarrow> (\<forall>(k, ch)\<in>set letter_keys. kbdgetc 1 k shift =
        (Some (if shift AND CTL \<noteq> 0 then ch - 96
               else if (shift AND SHIFT \<noteq> 0) \<noteq> (shift AND CAPSLOCK \<noteq> 0) then ch - 32 else ch), shift)))"
  using kbd_chars_type [OF assms] kbdgetc_letter by blast

theorem kbd_chars_typed_witness:
  "snd (kbd_chars [(1, 0x2A), (1, 0x1E), (0, 0)] 8) < 128 \<and> kbdgetc 1 0x1E 8 = (Some 65, 8) \<and> kbdgetc 1 0x1E 9 = (Some 97, 9)"
proof -
  have "(0x1E, 97) \<in> set letter_keys" by (simp add: letter_keys_def row_def)
  moreover have "(8 :: uint) AND E0ESC = 0" "(9 :: uint) AND E0ESC = 0" by (simp_all add: E0ESC_def)
  ultimately have "kbdgetc 1 0x1E 8 = (Some 65, 8)" "kbdgetc 1 0x1E 9 = (Some 97, 9)"
    using kbd_chars_typed [of 8 "[]"] kbd_chars_typed [of 9 "[]"] by (auto simp: CTL_def SHIFT_def CAPSLOCK_def)
  then show ?thesis using kbd_chars_typed [of 8 "[(1, 0x2A), (1, 0x1E), (0, 0)]"] by simp
qed

end
