(* ===== verification/Spec2Isabelle.thy ===== *)
theory Spec2Isabelle
  imports Sched_Props Userlib Log_Trans Pipe Trap Umalloc Mkfs_Inv Boot Sh_Grammar Uaccess_Inv Kbd_Props
begin

text \<open>
  \<^bold>\<open>xv6, the CS333 version: a model and its correctness.\<close>

  The program under \<^verbatim>\<open>src/\<close> is a small Unix for the x86: a kernel with processes, virtual memory, a file system with a write-ahead log,
  pipes and device drivers, a user library with some programs, and a tool that builds the disk image. The model follows the build with
  \<^verbatim>\<open>CS333_PROJECT\<close> 5 (\<^verbatim>\<open>CS333_P1\<close>, \<^verbatim>\<open>P2\<close>, \<^verbatim>\<open>P3P4\<close>, \<^verbatim>\<open>P5\<close> and \<^verbatim>\<open>USE_BUILTINS\<close> defined).

  \<^bold>\<open>How the code is represented.\<close> All global variables of the kernel are fields of one record, \<open>kernel\<close> of \<open>Xv6_State\<close>; a C
  structure is a record, a pointer into a static array is an index (with \<open>None\<close> for null where the code tests it), and a pointer to a
  page is a 32-bit address into the byte memory \<open>mem\<close>. Integers keep their width: \<open>uint\<close>, \<open>ushort\<close> and \<open>uchar\<close> are words. A function
  that can fail returns a sum: \<open>Inr\<close> of its result and the new state, or \<open>Inl\<close> of a \<open>kerror\<close>. The errors are \<open>Panic\<close> with the
  message, \<open>NullDeref\<close>, \<open>OutOfBounds\<close>, \<open>Spins\<close> for a lock that is never released, \<open>Diverges\<close> for a loop that has run out of fuel, and
  \<open>Blocks\<close> with a wait channel where the C code goes to sleep. Locks are really taken and released by \<open>acquire\<close> and \<open>release\<close>; the code between
  them runs as one step, and a context switch ends a step. What the hardware, the assembly files and the host deliver (bytes of a
  device, a saved frame pointer, an interrupt) is an argument.

  \<^bold>\<open>Loops and fuel.\<close> A loop over a known range is a fold. Other loops have fuel, chosen from what bounds the C loop: one turn more than there are
  processes for a loop over a linked list of processes, one more than there are buffers for the disk queue, \<^verbatim>\<open>MAXFILE\<close> and two for the
  blocks of a file, \<open>2 ^ 20\<close> for the pages of an address space and for the blocks of a bitmap, \<open>2 ^ 28\<close> and one for the entries
  of a directory, 8192 for the entries of the table of processors. The lemmas show that the fuel is enough, with a result \<open>Inr\<close>, for the process
  lists, the disk queue, \<^verbatim>\<open>readi\<close>, \<^verbatim>\<open>writei\<close>, \<^verbatim>\<open>balloc\<close>, \<^verbatim>\<open>freerange\<close>, \<^verbatim>\<open>allocuvm\<close> and \<^verbatim>\<open>mpinit\<close>, wherever their invariants hold; for
  \<^verbatim>\<open>deallocuvm\<close>, \<^verbatim>\<open>copyuvm\<close> and \<^verbatim>\<open>isdirempty\<close> it is the number of turns the C loop can make, and nothing is proved. The parser of the shell has
  fuel in the length of its line, which is shown to be enough on every line. Loops that look for a zero byte are partial
  functions. The allocator \<^verbatim>\<open>malloc\<close> takes its fuel as an argument, and the property says how much is enough. \<^verbatim>\<open>iappend\<close> of \<^verbatim>\<open>mkfs\<close> needs
  none: it consumes its bytes.

  \<^bold>\<open>The parts, the theories and what is shown.\<close>

  \<^item> Shared: \<open>Xv6_Prelude\<close> (error results, linked lists, words), \<open>Xv6_State\<close> (\<^verbatim>\<open>param.h\<close>, \<^verbatim>\<open>proc.h\<close>, \<^verbatim>\<open>fs.h\<close>, \<^verbatim>\<open>file.h\<close>, \<^verbatim>\<open>buf.h\<close>,
    \<^verbatim>\<open>spinlock.h\<close>), \<open>Bytes\<close> (numbers in disk blocks), \<open>Ring\<close> (the interface \<open>fifo\<close> of a ring buffer), \<open>Quiet\<close> (effects up to wake-ups).
  \<^item> Locks: \<open>Spinlock\<close> models \<^verbatim>\<open>spinlock.c\<close> in the pieces between which another CPU can act, and shows mutual exclusion and the absence of panics in
    every reachable state of the interleaved pieces.
  \<^item> Processes: \<open>State_Lists\<close> (the linked lists per state, with the interface \<open>list_store\<close>), \<open>Sched\<close> (scheduler, \<^verbatim>\<open>yield\<close>, \<^verbatim>\<open>sleep\<close>, \<^verbatim>\<open>wakeup\<close>,
    \<^verbatim>\<open>kill\<close>, \<^verbatim>\<open>setpriority\<close>, promotion and budgets), \<open>Proc_Life\<close> (\<^verbatim>\<open>allocproc\<close>, \<^verbatim>\<open>fork\<close>, \<^verbatim>\<open>exit\<close>, \<^verbatim>\<open>wait\<close>, \<^verbatim>\<open>growproc\<close>), \<open>Proc_Dump\<close> (the listings), all
    of \<^verbatim>\<open>proc.c\<close>. \<open>Sched_Inv\<close>, \<open>Sched_Effects\<close> and \<open>Sched_Search\<close> give the effect of each operation on the lists; \<open>Sched_Machine\<close> interleaves
    the CPUs; \<open>Sched_Props\<close> shows that in these interleavings a process runs on one CPU at most and scheduling never panics, that the best ready process is taken, and the
    exact behaviour of priorities, promotion and budgets. It also shows what \<^verbatim>\<open>wakeup\<close> and \<^verbatim>\<open>kill\<close> do wrong.
  \<^item> Memory: \<open>Kalloc\<close> (\<^verbatim>\<open>kalloc.c\<close>, with the interface \<open>page_allocator\<close>), \<open>Vm\<close> and \<open>Vm_Inv\<close> (\<^verbatim>\<open>vm.c\<close>): allocated pages are fresh, and \<^verbatim>\<open>allocuvm\<close> maps
    fresh zeroed pages and keeps every other mapping. \<open>Cstring\<close> (\<^verbatim>\<open>string.c\<close>, part of \<^verbatim>\<open>ulib.c\<close>): \<^verbatim>\<open>memset\<close>, \<^verbatim>\<open>memmove\<close> and the string functions.
  \<^item> Disk: \<open>Bio\<close> (\<^verbatim>\<open>bio.c\<close> over \<^verbatim>\<open>memide.c\<close>) and \<open>Bio_Inv\<close>, where the cache is a map from block numbers to contents with the interface
    \<open>block_cache\<close>; \<open>Ide\<close> (\<^verbatim>\<open>ide.c\<close>) shows that the interrupt-driven driver serves its requests in order and does what the synchronous one does, read errors apart.
  \<^item> Log: \<open>Log\<close> (\<^verbatim>\<open>log.c\<close>), \<open>Log_Crash\<close> (a crash at any disk write of a commit or of a recovery leaves all of a transaction or nothing of it),
    \<open>Log_Trans\<close> (operations that interleave in the log stay within it and are on the disk after the last of them).
  \<^item> File system: \<open>Fs_Inode\<close> and \<open>Fs_File\<close> (\<^verbatim>\<open>fs.c\<close>); \<open>Fs_Inv\<close> (reading after writing gives the bytes written, across blocks and the indirect
    block), \<open>Fs_Alloc\<close> (the bitmap is a set of blocks), \<open>Fs_Icache\<close> (inodes survive in their blocks). \<open>File\<close> (\<^verbatim>\<open>file.c\<close>) and \<open>Pipe\<close> (\<^verbatim>\<open>pipe.c\<close>: the
    bytes read are the bytes written, in order, whatever the interleaving).
  \<^item> Image: \<open>Mkfs\<close> (\<^verbatim>\<open>mkfs.c\<close>) and \<open>Mkfs_Inv\<close>: the image is a file system in the sense of the kernel's definitions, with the host's files in it.
  \<^item> System calls: \<open>Uaccess\<close> and \<open>Uaccess_Inv\<close> (arguments stay inside the memory of the process), \<open>Exec\<close> (\<^verbatim>\<open>exec.c\<close>), \<open>Sysfile\<close> (\<^verbatim>\<open>sysfile.c\<close>),
    \<open>Syscall\<close> (\<^verbatim>\<open>sysproc.c\<close>, \<^verbatim>\<open>syscall.c\<close>), \<open>Trap\<close> (\<^verbatim>\<open>trap.c\<close>).
  \<^item> Devices: \<open>Cprintf\<close> (\<^verbatim>\<open>console.c\<close>, \<^verbatim>\<open>uart.c\<close>: \<^verbatim>\<open>cprintf\<close> prints what its format says), \<open>Console\<close> (the line editor), \<open>Devices\<close> and \<open>Kbd_Props\<close>
    (\<^verbatim>\<open>kbd.c\<close>, the clock), \<open>Boot\<close> (\<^verbatim>\<open>mp.c\<close>, \<^verbatim>\<open>lapic.c\<close>, \<^verbatim>\<open>picirq.c\<close>, \<^verbatim>\<open>ioapic.c\<close>, \<^verbatim>\<open>timer.c\<close>: the table of processors is read correctly, or forever).
  \<^item> User code: \<open>Userlib\<close> (\<^verbatim>\<open>printf.c\<close>, \<^verbatim>\<open>ulib.c\<close>, the matcher of \<^verbatim>\<open>grep.c\<close> against the language of its patterns), \<open>Umalloc\<close> (\<^verbatim>\<open>umalloc.c\<close>: live blocks are
    disjoint), \<open>Sh\<close> and \<open>Sh_Grammar\<close> (\<^verbatim>\<open>sh.c\<close>: the parser ends on every line, and parsing undoes printing).

  \<^bold>\<open>How the parts rest on each other.\<close> The kernel's layers are composed as in the code: a system call fetches its arguments through the page
  table, calls the file layer, which works inside a transaction of the log, which works on the cache, which calls the disk driver; each takes
  its locks, and \<^verbatim>\<open>wakeup\<close> changes the process table. The properties of a layer are stated over the abstraction of the layer below: the log over the contents
  and the disk of \<open>cache\<close>, files over the blocks of \<open>in_trans\<close>, the allocator of page tables over the free list of \<open>page_allocator\<close>. The
  driver of \<^verbatim>\<open>memide.c\<close> stands below the cache; \<open>Ide\<close> relates \<^verbatim>\<open>ide.c\<close> to it.

  \<^bold>\<open>Assumptions of properties.\<close> The properties of files hold for files whose blocks are mapped and for a transaction with room for the blocks
  written; \<open>mkfs\<close> for files that fit; the runs of \<open>Sched_Machine\<close> start in any state that satisfies its invariant, and their steps are the
  turns of the scheduler, \<^verbatim>\<open>yield\<close>, \<^verbatim>\<open>sleep\<close>, \<^verbatim>\<open>wakeup\<close>, \<^verbatim>\<open>setpriority\<close>, other locks and ticks. They leave out \<^verbatim>\<open>kill\<close>, because \<^verbatim>\<open>kill\<close> breaks the
  invariant and makes the scheduler panic, which is shown, and \<^verbatim>\<open>fork\<close>, \<^verbatim>\<open>exit\<close>, \<^verbatim>\<open>wait\<close> and every sleep on \<^verbatim>\<open>ptable.lock\<close>. The property of
  \<^verbatim>\<open>malloc\<close> covers requests below 2 GB and frees of blocks held: larger sizes wrap around. An address that \<^verbatim>\<open>argptr\<close> accepts is the start of a range
  inside the process for sizes below \<open>2 ^ 31\<close> only; its behaviour for the others is stated too. The property of \<^verbatim>\<open>ide.c\<close> assumes that the disk becomes
  ready and that each buffer is requested once in a run; \<^verbatim>\<open>allocuvm\<close> has two free pages for each page to add.

  \<^bold>\<open>Not modelled.\<close> The assembly files and the boot loader (\<^verbatim>\<open>bootasm.S\<close>, \<^verbatim>\<open>bootmain.c\<close>, \<^verbatim>\<open>entry.S\<close>, \<^verbatim>\<open>entryother.S\<close>, \<^verbatim>\<open>initcode.S\<close>, \<^verbatim>\<open>swtch.S\<close>,
  \<^verbatim>\<open>trapasm.S\<close>, \<^verbatim>\<open>usys.S\<close>, the generated vectors): they work on registers that are no part of the state. \<^verbatim>\<open>main.c\<close> only calls the initialisation of
  every component. Segment and task-state registers and the interrupt table (\<^verbatim>\<open>seginit\<close>, \<^verbatim>\<open>tvinit\<close>, \<^verbatim>\<open>idtinit\<close>), the initialisation of the serial
  port's registers, and the stack trace of a panic. The execution of shell commands and the other user programs, which are sequences of
  system calls, and the test programs. The branches of the code for other builds (\<^verbatim>\<open>#ifndef CS333_P3P4\<close> and the like).
\<close>

end
